(* ===== verification/JS_Prelude.thy ===== *)
theory JS_Prelude
  imports Main "HOL-Library.Word"
begin

text \<open>
  What every component shares: the C integer types, the result combinator of operations
  that return 0 or 1 and update an object in place, big-endian and little-endian byte
  sequences, and the interface of an encoder/decoder pair (locales \<open>codec\<close> and
  \<open>canonical_codec\<close>) with the lemmas its clients use.
\<close>

unbundle bit_operations_syntax

section \<open>C integer types\<close>

type_synonym byte = "8 word"
type_synonym u16 = "16 word"
type_synonym u32 = "32 word"
type_synonym u64 = "64 word"

text \<open>
  A \<^verbatim>\<open>size_t\<close> (64 bits on the platforms the pods are built for) is a \<open>nat\<close>;
  every place where the code adds or multiplies such values and the result may wrap is
  written with \<open>size_wrap\<close>.
\<close>

type_synonym size_t = nat

abbreviation (input) SIZE_LIMIT :: nat where
  "SIZE_LIMIT \<equiv> 18446744073709551616"

definition size_wrap :: "nat \<Rightarrow> size_t" where
  "size_wrap n = n mod SIZE_LIMIT"

lemma size_wrap_small [simp]: "n < SIZE_LIMIT \<Longrightarrow> size_wrap n = n"
  by (simp add: size_wrap_def)

lemma size_wrap_less [simp]: "size_wrap n < SIZE_LIMIT"
  by (simp add: size_wrap_def)

text \<open>Decrement of a \<^verbatim>\<open>size_t\<close>, with its wrap-around at 0.\<close>

definition size_dec :: "size_t \<Rightarrow> size_t" where
  "size_dec n = (if n = 0 then SIZE_LIMIT - 1 else n - 1)"

lemma size_dec_pos [simp]: "0 < n \<Longrightarrow> size_dec n = n - 1"
  by (simp add: size_dec_def)

lemma size_wrap_overflow:
  assumes "a < SIZE_LIMIT" "b < SIZE_LIMIT"
  shows "size_wrap (a + b) < a \<longleftrightarrow> SIZE_LIMIT \<le> a + b"
  using assms by (cases "a + b < SIZE_LIMIT") (auto simp: size_wrap_def mod_if)

section \<open>Operations that may fail and update their object\<close>

text \<open>
  A C function \<^verbatim>\<open>int f(T *obj, ..., U *out)\<close> that returns 1 and sets \<^verbatim>\<open>*out\<close>, or
  returns 0, and updates \<^verbatim>\<open>*obj\<close> in both cases, is a function to \<open>'u option \<times> 't\<close>:
  \<open>(Some u, t')\<close> is the return value 1 with \<^verbatim>\<open>*out = u\<close>, \<open>(None, t')\<close> the return
  value 0. \<open>andthen\<close> runs the next call only after a success, as the early returns of
  the code do.
\<close>

fun andthen :: "'a option \<times> 's \<Rightarrow> ('a \<Rightarrow> 's \<Rightarrow> 'b option \<times> 's) \<Rightarrow> 'b option \<times> 's" where
  "andthen (None, s) k = (None, s)"
| "andthen (Some a, s) k = k a s"

lemma andthen_cong [fundef_cong]:
  assumes "r = r'" "\<And>a s. r' = (Some a, s) \<Longrightarrow> k a s = k' a s"
  shows "andthen r k = andthen r' k'"
  using assms by (cases "(r', k)" rule: andthen.cases) auto

lemma andthen_Some_iff:
  "andthen r k = (Some b, s') \<longleftrightarrow> (\<exists>a s. r = (Some a, s) \<and> k a s = (Some b, s'))"
  by (cases "(r, k)" rule: andthen.cases) auto

lemma andthen_SomeE:
  assumes "andthen r k = (Some b, s')"
  obtains a s where "r = (Some a, s)" "k a s = (Some b, s')"
  using assms by (auto simp: andthen_Some_iff)

section \<open>Byte sequences\<close>

fun be_bytes :: "nat \<Rightarrow> nat \<Rightarrow> byte list" where
  "be_bytes 0 n = []"
| "be_bytes (Suc k) n = be_bytes k (n div 256) @ [word_of_nat n]"

definition be_nat :: "byte list \<Rightarrow> nat" where
  "be_nat bs = foldl (\<lambda>a b. a * 256 + unat b) 0 bs"

fun le_bytes :: "nat \<Rightarrow> nat \<Rightarrow> byte list" where
  "le_bytes 0 n = []"
| "le_bytes (Suc k) n = word_of_nat n # le_bytes k (n div 256)"

fun le_nat :: "byte list \<Rightarrow> nat" where
  "le_nat [] = 0"
| "le_nat (b # bs) = unat b + 256 * le_nat bs"

lemma unat_byte_less [simp]: "unat (b :: byte) < 256"
  using unsigned_less [of b] by simp

lemma unat_of_nat_byte [simp]: "unat (word_of_nat n :: byte) = n mod 256"
  by (simp add: unat_of_nat)

lemma word_of_nat_unat_byte [simp]: "word_of_nat (unat b) = (b :: byte)"
  by simp

lemma byte_256 [simp]: "(256 :: byte) = 0"
  by simp

lemma length_be_bytes [simp]: "length (be_bytes k n) = k"
  by (induction k arbitrary: n) auto

lemma length_le_bytes [simp]: "length (le_bytes k n) = k"
  by (induction k arbitrary: n) auto

lemma be_nat_Nil [simp]: "be_nat [] = 0"
  by (simp add: be_nat_def)

lemma be_nat_snoc [simp]: "be_nat (bs @ [b]) = be_nat bs * 256 + unat b"
  by (simp add: be_nat_def)

lemma be_nat_foldl:
  "foldl (\<lambda>a b. a * 256 + unat b) a bs = a * 256 ^ length bs + be_nat bs"
proof (induction bs rule: rev_induct)
  case Nil
  then show ?case by simp
next
  case (snoc b bs)
  then show ?case by (simp add: algebra_simps)
qed

lemma be_nat_Cons: "be_nat (b # bs) = unat b * 256 ^ length bs + be_nat bs"
  using be_nat_foldl [of "unat b" bs] by (simp add: be_nat_def)

lemma be_nat_single [simp]: "be_nat [b] = unat b"
  by (simp add: be_nat_def)

lemma be_nat_append: "be_nat (xs @ ys) = be_nat xs * 256 ^ length ys + be_nat ys"
  using be_nat_foldl [of "be_nat xs" ys] by (simp add: be_nat_def)

lemma be_nat_bound: "be_nat bs < 256 ^ length bs"
proof (induction bs rule: rev_induct)
  case (snoc b bs)
  have "be_nat bs * 256 + unat b < be_nat bs * 256 + 256"
    by simp
  also have "\<dots> \<le> 256 ^ length bs * 256"
    using snoc by (metis Suc_leI add.commute mult.commute mult_Suc_right mult_le_mono2)
  finally show ?case by simp
qed simp

lemma be_nat_bytes [simp]: "be_nat (be_bytes k n) = n mod 256 ^ k"
proof (induction k arbitrary: n)
  case (Suc k)
  then show ?case
    by simp (metis mod_mult2_eq mult.commute add.commute)
qed simp

lemma be_bytes_nat: "length bs = k \<Longrightarrow> be_bytes k (be_nat bs) = bs"
proof (induction bs arbitrary: k rule: rev_induct)
  case (snoc b bs)
  then show ?case by (cases k) (auto simp: div_mult_self3)
qed simp

lemma be_bytes_mod: "be_bytes k (n mod 256 ^ k) = be_bytes k n"
  using be_bytes_nat [of "be_bytes k n" k] by simp

lemma le_nat_bytes [simp]: "le_nat (le_bytes k n) = n mod 256 ^ k"
  by (induction k arbitrary: n) (simp_all add: mod_mult2_eq mult.commute add.commute)

lemma le_bytes_nat: "length bs = k \<Longrightarrow> le_bytes k (le_nat bs) = bs"
  by (induction bs arbitrary: k) auto

lemma le_nat_bound: "le_nat bs < 256 ^ length bs"
proof (induction bs)
  case (Cons b bs)
  have "unat b + 256 * le_nat bs < 256 + 256 * le_nat bs" by simp
  also have "\<dots> \<le> 256 * 256 ^ length bs" using Cons by simp
  finally show ?case by simp
qed simp

lemma nth_le_bytes: "i < k \<Longrightarrow> le_bytes k n ! i = word_of_nat (n div 256 ^ i)"
proof (induction k arbitrary: n i)
  case (Suc k)
  then show ?case by (cases i) (simp_all add: div_mult2_eq)
qed simp

lemma take_le_bytes_min: "take j (le_bytes k n) = le_bytes (min j k) n"
  by (rule nth_equalityI) (simp_all add: nth_le_bytes)

lemma drop_le_bytes: "drop j (le_bytes k n) = le_bytes (k - j) (n div 256 ^ j)"
  by (rule nth_equalityI) (simp_all add: nth_le_bytes div_mult2_eq power_add)

lemma le_bytes_0: "le_bytes k 0 = replicate k 0"
  by (induction k) simp_all

lemma take_le_bytes: "k \<le> m \<Longrightarrow> take k (le_bytes m n) = le_bytes k n"
  by (simp add: take_le_bytes_min)

text \<open>Every byte satisfies a decidable predicate if the 256 values do: evaluated.\<close>

lemma all_bytes: "list_all (\<lambda>n. P (word_of_nat n :: byte)) [0..<256] \<Longrightarrow> P b"
  using unat_byte_less [of b] by (auto simp: list_all_iff dest!: bspec [of _ _ "unat b"])

lemma byte_high_clear: "b AND 0x80 = (0 :: byte) \<longleftrightarrow> unat b < 128"
  by (rule all_bytes [of "\<lambda>b. b AND 0x80 = (0 :: byte) \<longleftrightarrow> unat b < 128" b]) code_simp

lemma byte_high_set: "\<not> unat (b :: byte) < 128 \<Longrightarrow> 128 + unat b mod 128 = unat b"
proof -
  assume b: "\<not> unat b < 128"
  then have "unat b mod 128 = (unat b - 128) mod 128" by (simp add: le_mod_geq)
  moreover have "unat b - 128 < 128" using unat_byte_less [of b] by linarith
  ultimately show ?thesis using b by simp
qed

text \<open>Storing bytes at an offset of a block of memory.\<close>

definition poke :: "byte list \<Rightarrow> nat \<Rightarrow> byte list \<Rightarrow> byte list" where
  "poke mem off bs = take off mem @ bs @ drop (off + length bs) mem"

lemma length_poke [simp]: "off + length bs \<le> length mem \<Longrightarrow> length (poke mem off bs) = length mem"
  by (simp add: poke_def)

lemma poke_split:
  assumes "length ys = length bs"
  shows "poke (xs @ ys @ zs) (length xs) bs = xs @ bs @ zs"
  using assms by (simp add: poke_def)

section \<open>Bit operations as arithmetic\<close>

lemma bit_imp_less:
  fixes b :: "'a :: len word"
  assumes "unat b < 2 ^ k" "bit b n"
  shows "n < k"
proof -
  have "bit (take_bit k (unat b)) n"
    using assms by (simp add: take_bit_nat_eq_self bit_unsigned_iff bit_imp_possible_bit)
  then show ?thesis by (simp add: bit_take_bit_iff)
qed

lemma unat_exp: "k < LENGTH('a) \<Longrightarrow> unat ((2 :: 'a :: len word) ^ k) = 2 ^ k"
  by transfer simp

lemma unat_push_bit_or:
  fixes r b :: "'a :: len word"
  assumes b: "unat b < 2 ^ k" and bound: "unat r * 2 ^ k + unat b < 2 ^ LENGTH('a)"
  shows "unat (push_bit k r OR b) = unat r * 2 ^ k + unat b"
proof (cases "r = 0")
  case False
  then have "1 * 2 ^ k \<le> unat r * 2 ^ k"
    by (intro mult_le_mono1) (simp add: Suc_leI unat_gt_0)
  with bound have "(2::nat) ^ k < 2 ^ LENGTH('a)" by linarith
  then have k: "k < LENGTH('a)" by simp
  have "push_bit k r AND b = 0"
    by (rule bit_eqI) (auto simp: bit_simps dest: bit_imp_less [OF b])
  then have "push_bit k r OR b = push_bit k r + b"
    by (rule disjunctive_add_eq_or [symmetric])
  also have "unat \<dots> = (unat r * 2 ^ k + unat b) mod 2 ^ LENGTH('a)"
    using k by (simp add: push_bit_eq_mult unat_word_ariths unat_exp mod_simps)
  finally show ?thesis using bound by simp
qed simp

lemma unat_and_mask: "unat (w AND mask k) = unat (w :: 'a :: len word) mod 2 ^ k"
  by (simp flip: take_bit_eq_mask take_bit_eq_mod unsigned_take_bit_eq)

lemma unat_and_7f: "unat (b AND 0x7f) = unat (b :: byte) mod 128"
  using unat_and_mask [of b 7] by (simp add: mask_eq_exp_minus_1)

lemma unat_and_1f: "unat (b AND 0x1f) = unat (b :: byte) mod 32"
  using unat_and_mask [of b 5] by (simp add: mask_eq_exp_minus_1)

lemma unat_drop_bit: "unat (drop_bit k w) = unat (w :: 'a :: len word) div 2 ^ k"
  unfolding unat_drop_bit_eq by (rule drop_bit_eq_div)

lemma drop_bit_zero_iff: "drop_bit k w = 0 \<longleftrightarrow> unat (w :: 'a :: len word) < 2 ^ k"
  by (simp add: unat_eq_0 [symmetric] unat_drop_bit div_eq_0_iff del: unat_eq_0)

lemma unat_ucast_up:
  fixes w :: "'a :: len word"
  assumes "LENGTH('a) \<le> LENGTH('b :: len)"
  shows "unat (ucast w :: 'b word) = unat w"
proof -
  have "unat w < 2 ^ LENGTH('a)" by (rule unsigned_less)
  also have "\<dots> \<le> 2 ^ LENGTH('b)" using assms by simp
  finally show ?thesis by (simp add: unsigned_ucast_eq take_bit_nat_eq_self)
qed

lemma word_eq_of_nat: "unat w = n \<Longrightarrow> w = word_of_nat n"
  by auto

lemma xor_eq_zero_iff: "a XOR b = 0 \<longleftrightarrow> a = (b :: 'a :: len word)"
  by (metis xor_self_eq xor.right_neutral xor.assoc xor.commute)

section \<open>Encoders and decoders\<close>

text \<open>
  The interface of a wire format: \<open>enc\<close> writes a value, \<open>dec\<close> reads one value from the
  front of the input and leaves the rest. \<open>codec\<close> is what a sender needs, \<open>canonical_codec\<close>
  adds that the decoder accepts no other encoding (DER, UTF-8).
\<close>

fun decode_many :: "(byte list \<Rightarrow> 'a option \<times> byte list) \<Rightarrow> nat \<Rightarrow> byte list \<Rightarrow> 'a list option \<times> byte list" where
  "decode_many dec 0 bs = (Some [], bs)"
| "decode_many dec (Suc n) bs =
     andthen (dec bs) (\<lambda>x r. andthen (decode_many dec n r) (\<lambda>xs r'. (Some (x # xs), r')))"

locale codec =
  fixes enc :: "'a \<Rightarrow> byte list"
    and dec :: "byte list \<Rightarrow> 'a option \<times> byte list"
    and valid :: "'a \<Rightarrow> bool"
  assumes dec_enc: "valid x \<Longrightarrow> dec (enc x @ r) = (Some x, r)"
begin

lemma enc_unique:
  assumes "valid x" "valid y" "enc x @ r = enc y @ r'"
  shows "x = y" "r = r'"
proof -
  have "(Some x, r) = (Some y, r')"
    using dec_enc [OF assms(1), of r] dec_enc [OF assms(2), of r'] assms(3) by (simp only:)
  then show "x = y" "r = r'" by simp_all
qed

lemma enc_prefix_free:
  assumes "valid x" "valid y" "enc x = enc y @ r"
  shows "x = y" "r = []"
proof -
  have "enc x @ [] = enc y @ r" by (simp only: append_Nil2 assms(3))
  from enc_unique [OF assms(1,2) this] show "x = y" "r = []" by simp_all
qed

lemma decode_many_enc:
  "\<forall>x \<in> set xs. valid x \<Longrightarrow>
   decode_many dec (length xs) (concat (map enc xs) @ r) = (Some xs, r)"
proof (induction xs)
  case (Cons x xs)
  then have "dec (enc x @ concat (map enc xs) @ r) = (Some x, concat (map enc xs) @ r)"
    by (intro dec_enc) simp
  with Cons show ?case by simp
qed simp

end

locale canonical_codec = codec +
  assumes enc_dec: "dec bs = (Some x, r) \<Longrightarrow> valid x \<and> bs = enc x @ r"
begin

lemma dec_iff: "dec bs = (Some x, r) \<longleftrightarrow> valid x \<and> bs = enc x @ r"
  using enc_dec dec_enc by blast

lemma dec_rest: "dec bs = (Some x, r) \<Longrightarrow> bs = take (length bs - length r) bs @ r"
  using enc_dec [of bs x r] by simp

lemma decode_many_dec:
  "decode_many dec n bs = (Some xs, r) \<Longrightarrow>
   length xs = n \<and> (\<forall>x \<in> set xs. valid x) \<and> bs = concat (map enc xs) @ r"
proof (induction n arbitrary: bs xs r)
  case (Suc n)
  from Suc.prems obtain x b ys where
    "dec bs = (Some x, b)" "decode_many dec n b = (Some ys, r)" "xs = x # ys"
    by (auto elim!: andthen_SomeE)
  with Suc.IH [of b ys r] enc_dec [of bs x b] show ?case by auto
qed simp

end

end
