(* ===== verification/Mem.thy ===== *)
theory Mem
  imports JS_Prelude
begin

text \<open>
  Model of \<^verbatim>\<open>crypto/mem.c\<close>: the size-prefixed allocator, the constant-time comparison, the
  FNV-1a hash and the bounded string routines. The C library's \<^verbatim>\<open>malloc\<close> is a parameter of
  type \<open>allocator\<close>: \<open>A n\<close> is the block it returns for \<open>n\<close> bytes (with arbitrary contents),
  or \<open>None\<close> for \<^verbatim>\<open>NULL\<close>; \<open>malloc_spec\<close> is its documented contract.
\<close>

section \<open>Allocation\<close>

type_synonym allocator = "nat \<Rightarrow> byte list option"

definition malloc_spec :: "allocator \<Rightarrow> bool" where
  "malloc_spec A \<longleftrightarrow> (\<forall>n b. A n = Some b \<longrightarrow> length b = n)"

lemma malloc_specD: "malloc_spec A \<Longrightarrow> A n = Some b \<Longrightarrow> length b = n"
  by (simp add: malloc_spec_def)

text \<open>A heap block as the callers see it, with the size stored in the 8-byte prefix.\<close>

record ossl_block =
  blk_size :: size_t
  blk_body :: "byte list"

abbreviation (input) OPENSSL_MALLOC_PREFIX :: nat where
  "OPENSSL_MALLOC_PREFIX \<equiv> 8"

definition OPENSSL_malloc :: "allocator \<Rightarrow> size_t \<Rightarrow> ossl_block option" where
  "OPENSSL_malloc A sz =
     (case A (size_wrap (sz + OPENSSL_MALLOC_PREFIX)) of
        None \<Rightarrow> None
      | Some ptr \<Rightarrow> Some \<lparr>blk_size = sz, blk_body = drop OPENSSL_MALLOC_PREFIX ptr\<rparr>)"

definition OPENSSL_realloc :: "allocator \<Rightarrow> ossl_block option \<Rightarrow> size_t \<Rightarrow> ossl_block option" where
  "OPENSSL_realloc A orig new_size =
     (case orig of
        None \<Rightarrow> OPENSSL_malloc A new_size
      | Some old \<Rightarrow>
          (case OPENSSL_malloc A new_size of
             None \<Rightarrow> None
           | Some ret \<Rightarrow>
               (let to_copy = (if blk_size old < new_size then blk_size old else new_size)
                in Some (ret\<lparr>blk_body := take to_copy (blk_body old) @ drop to_copy (blk_body ret)\<rparr>))))"

definition OPENSSL_memdup :: "allocator \<Rightarrow> byte list \<Rightarrow> size_t \<Rightarrow> byte list option" where
  "OPENSSL_memdup A mem sz =
     (if sz = 0 then None
      else case OPENSSL_malloc A sz of
             None \<Rightarrow> None
           | Some ret \<Rightarrow> Some (take sz mem @ drop sz (blk_body ret)))"

text \<open>
  A block that a client owns is its body; the client's bookkeeping keeps the size equal to
  the length, so reallocation needs only the body.
\<close>

definition realloc_body :: "allocator \<Rightarrow> byte list \<Rightarrow> size_t \<Rightarrow> byte list option" where
  "realloc_body A old n =
     map_option blk_body
       (OPENSSL_realloc A (Some \<lparr>blk_size = length old, blk_body = old\<rparr>) n)"

lemma OPENSSL_malloc_size:
  assumes "malloc_spec A" "n + 8 < SIZE_LIMIT" "OPENSSL_malloc A n = Some b"
  shows "blk_size b = n \<and> length (blk_body b) = n"
  using assms by (auto simp: OPENSSL_malloc_def split: option.splits dest: malloc_specD)

lemma realloc_body_length:
  assumes "malloc_spec A" "n + 8 < SIZE_LIMIT" "realloc_body A old n = Some b"
  shows "length b = n"
  using assms OPENSSL_malloc_size [OF assms(1,2)]
  by (auto simp: realloc_body_def OPENSSL_realloc_def Let_def split: option.splits)

lemma realloc_body_prefix:
  assumes "malloc_spec A" "n + 8 < SIZE_LIMIT" "realloc_body A old n = Some b" "length old \<le> n"
  shows "take (length old) b = old"
  using assms OPENSSL_malloc_size [OF assms(1,2)]
  by (auto simp: realloc_body_def OPENSSL_realloc_def Let_def split: option.splits if_splits)

lemma OPENSSL_memdup_copy:
  assumes "malloc_spec A" "n + 8 < SIZE_LIMIT" "OPENSSL_memdup A mem n = Some b" "n \<le> length mem"
  shows "b = take n mem"
  using assms OPENSSL_malloc_size [OF assms(1,2)]
  by (auto simp: OPENSSL_memdup_def split: option.splits if_splits)

section \<open>Constant-time comparison and hashing\<close>

definition CRYPTO_memcmp :: "byte list \<Rightarrow> byte list \<Rightarrow> size_t \<Rightarrow> byte" where
  "CRYPTO_memcmp a b len = foldl (\<lambda>x i. x OR (a ! i XOR b ! i)) 0 [0..<len]"

lemma CRYPTO_memcmp_fold:
  "foldl (\<lambda>x i. x OR (a ! i XOR b ! i)) x is = (0 :: byte) \<longleftrightarrow>
   x = 0 \<and> (\<forall>i \<in> set is. a ! i = b ! i)"
proof (induction "is" arbitrary: x)
  case (Cons i "is")
  have "x OR (a ! i XOR b ! i) = 0 \<longleftrightarrow> x = 0 \<and> a ! i XOR b ! i = 0"
    by (simp add: or_eq_0_iff)
  then show ?case using Cons by (auto simp: xor_self_eq xor_eq_zero_iff)
qed simp

text \<open>The comparison has no early exit, but its result is that of an ordinary one.\<close>

lemma CRYPTO_memcmp_eq_0:
  "CRYPTO_memcmp a b len = 0 \<longleftrightarrow> (\<forall>i < len. a ! i = b ! i)"
  by (auto simp: CRYPTO_memcmp_def CRYPTO_memcmp_fold)

lemma CRYPTO_memcmp_take:
  assumes "n \<le> length a" "n \<le> length b"
  shows "CRYPTO_memcmp a b n = 0 \<longleftrightarrow> take n a = take n b"
  using assms by (auto simp: CRYPTO_memcmp_eq_0 list_eq_iff_nth_eq)

text \<open>The ordinary \<^verbatim>\<open>memcmp\<close> of the C library, behind the wrapper of \<^verbatim>\<open>internal.h\<close>: the sign of the first difference.\<close>

definition memcmp :: "byte list \<Rightarrow> byte list \<Rightarrow> size_t \<Rightarrow> int" where
  "memcmp a b n =
     (case find (\<lambda>i. a ! i \<noteq> b ! i) [0..<n] of
        None \<Rightarrow> 0
      | Some i \<Rightarrow> if a ! i < b ! i then -1 else 1)"

definition OPENSSL_memcmp :: "byte list \<Rightarrow> byte list \<Rightarrow> size_t \<Rightarrow> int" where
  "OPENSSL_memcmp s1 s2 n = (if n = 0 then 0 else memcmp s1 s2 n)"

lemma OPENSSL_memcmp_eq_0: "OPENSSL_memcmp a b n = 0 \<longleftrightarrow> (\<forall>i < n. a ! i = b ! i)"
  by (auto simp: OPENSSL_memcmp_def memcmp_def find_None_iff find_Some_iff split: option.splits)

definition OPENSSL_hash32 :: "byte list \<Rightarrow> size_t \<Rightarrow> u32" where
  "OPENSSL_hash32 p len =
     foldl (\<lambda>h i. (h XOR ucast (p ! i)) * 16777619) 2166136261 [0..<len]"

section \<open>C strings\<close>

text \<open>
  A C string argument is given by its contents \<open>s\<close>, without the terminator; \<open>cstr s\<close> says
  that the contents hold no terminator, \<open>char_at s i\<close> reads the memory of the string, whose
  byte after the contents is the terminator.
\<close>

definition cstr :: "byte list \<Rightarrow> bool" where
  "cstr s \<longleftrightarrow> 0 \<notin> set s"

definition char_at :: "byte list \<Rightarrow> nat \<Rightarrow> byte" where
  "char_at s i = (if i < length s then s ! i else 0)"

function strnlen_from :: "byte list \<Rightarrow> size_t \<Rightarrow> size_t \<Rightarrow> size_t" where
  "strnlen_from s len i =
     (if i < len then (if char_at s i = 0 then i else strnlen_from s len (Suc i)) else len)"
  by pat_completeness auto
termination
  by (relation "measure (\<lambda>(s, len, i). len - i)") auto

declare strnlen_from.simps [simp del]

definition OPENSSL_strnlen :: "byte list \<Rightarrow> size_t \<Rightarrow> size_t" where
  "OPENSSL_strnlen s len = strnlen_from s len 0"

lemma strnlen_from_min:
  "cstr s \<Longrightarrow> i \<le> length s \<Longrightarrow> i \<le> n \<Longrightarrow> strnlen_from s n i = min (length s) n"
proof (induction s n i rule: strnlen_from.induct)
  case (1 s n i)
  show ?case
  proof (cases "i < n \<and> i < length s")
    case True
    then have "char_at s i \<noteq> 0"
      using "1.prems" by (metis char_at_def cstr_def nth_mem)
    with True 1 show ?thesis by (subst strnlen_from.simps) simp
  next
    case False
    with "1.prems" show ?thesis
      by (subst strnlen_from.simps) (auto simp: char_at_def min_def)
  qed
qed

lemma OPENSSL_strnlen_min: "cstr s \<Longrightarrow> OPENSSL_strnlen s n = min (length s) n"
  by (simp add: OPENSSL_strnlen_def strnlen_from_min)

text \<open>\<^verbatim>\<open>OPENSSL_strdup\<close> and \<^verbatim>\<open>OPENSSL_strndup\<close> return the new string's memory, terminator included.\<close>

definition OPENSSL_strdup :: "allocator \<Rightarrow> byte list option \<Rightarrow> byte list option" where
  "OPENSSL_strdup A str =
     (case str of
        None \<Rightarrow> None
      | Some s \<Rightarrow>
          (let len = length s + 1
           in case OPENSSL_malloc A len of
                None \<Rightarrow> None
              | Some ret \<Rightarrow> Some (s @ [0] @ drop len (blk_body ret))))"

definition OPENSSL_strndup :: "allocator \<Rightarrow> byte list option \<Rightarrow> size_t \<Rightarrow> byte list option" where
  "OPENSSL_strndup A str sz =
     (case str of
        None \<Rightarrow> None
      | Some s \<Rightarrow>
          (let n = OPENSSL_strnlen s sz; alloc_size = size_wrap (n + 1)
           in if alloc_size < n then None
              else case OPENSSL_malloc A alloc_size of
                     None \<Rightarrow> None
                   | Some ret \<Rightarrow> Some (take n s @ [0] @ drop (n + 1) (blk_body ret))))"

lemma OPENSSL_strndup_contents:
  assumes "malloc_spec A" "cstr s" "length s + 9 < SIZE_LIMIT"
    and "OPENSSL_strndup A (Some s) n = Some r"
  shows "r = take n s @ [0]"
proof -
  have len: "OPENSSL_strnlen s n = min (length s) n"
    using assms(2) by (rule OPENSSL_strnlen_min)
  define m where "m = min (length s) n"
  have m: "take m s = take n s" "m + 1 + 8 < SIZE_LIMIT"
    using assms(3) by (auto simp: m_def min_def)
  then have "size_wrap (m + 1) = m + 1" by simp
  with assms(4) obtain b where
    "OPENSSL_malloc A (m + 1) = Some b" "r = take m s @ [0] @ drop (m + 1) (blk_body b)"
    by (auto simp: OPENSSL_strndup_def Let_def len m_def split: option.splits if_splits)
  with OPENSSL_malloc_size [OF assms(1) m(2)] m(1) show ?thesis by simp
qed

text \<open>
  The case-insensitive comparisons work on \<^verbatim>\<open>char\<close>, signed on the platforms of the pods, and
  on \<^verbatim>\<open>int\<close> after promotion.
\<close>

definition OPENSSL_tolower :: "int \<Rightarrow> int" where
  "OPENSSL_tolower c = (if 65 \<le> c \<and> c \<le> 90 then c + (97 - 65) else c)"

definition lower_at :: "byte list \<Rightarrow> nat \<Rightarrow> int" where
  "lower_at s i = OPENSSL_tolower (sint (char_at s i))"

text \<open>
  The loop of \<^verbatim>\<open>OPENSSL_strcasecmp\<close> has no bound of its own: it stops at the latest at the
  terminator of the first string, which is the measure.
\<close>

lemma lower_at_end [simp]: "length s \<le> i \<Longrightarrow> lower_at s i = 0"
  by (simp add: lower_at_def char_at_def OPENSSL_tolower_def)

function strcasecmp_from :: "byte list \<Rightarrow> byte list \<Rightarrow> nat \<Rightarrow> int" where
  "strcasecmp_from a b i =
     (let aa = lower_at a i; bb = lower_at b i
      in if aa < bb then -1
         else if aa > bb then 1
         else if aa = 0 then 0
         else strcasecmp_from a b (Suc i))"
  by pat_completeness auto
termination
proof (relation "measure (\<lambda>(a, b, i). length a - i)", goal_cases)
  case (2 a b i aa bb)
  then have "\<not> length a \<le> i" by auto
  then show ?case by simp
qed simp

declare strcasecmp_from.simps [simp del]

definition OPENSSL_strcasecmp :: "byte list \<Rightarrow> byte list \<Rightarrow> int" where
  "OPENSSL_strcasecmp a b = strcasecmp_from a b 0"

function strncasecmp_from :: "byte list \<Rightarrow> byte list \<Rightarrow> size_t \<Rightarrow> nat \<Rightarrow> int" where
  "strncasecmp_from a b n i =
     (if i < n then
        (let aa = lower_at a i; bb = lower_at b i
         in if aa < bb then -1
            else if aa > bb then 1
            else if aa = 0 then 0
            else strncasecmp_from a b n (Suc i))
      else 0)"
  by pat_completeness auto
termination
  by (relation "measure (\<lambda>(a, b, n, i). n - i)") auto

declare strncasecmp_from.simps [simp del]

definition OPENSSL_strncasecmp :: "byte list \<Rightarrow> byte list \<Rightarrow> size_t \<Rightarrow> int" where
  "OPENSSL_strncasecmp a b n = strncasecmp_from a b n 0"

text \<open>
  \<^verbatim>\<open>OPENSSL_strlcpy\<close> on a destination memory \<open>dst\<close> from which \<open>dst_size\<close> bytes may be written:
  the loop copies until one byte of space is left or the source ends, and returns the memory,
  the number of bytes copied, and the space and source left.
\<close>

fun strlcpy_loop :: "byte list \<Rightarrow> byte list \<Rightarrow> size_t \<Rightarrow> byte list \<times> size_t \<times> size_t \<times> byte list" where
  "strlcpy_loop dst [] dst_size = (dst, 0, dst_size, [])"
| "strlcpy_loop dst (c # src) dst_size =
     (if dst_size > 1 then
        (case strlcpy_loop (tl dst) src (dst_size - 1) of
           (d, l, n, rest) \<Rightarrow> (c # d, Suc l, n, rest))
      else (dst, 0, dst_size, c # src))"

definition OPENSSL_strlcpy :: "byte list \<Rightarrow> byte list \<Rightarrow> size_t \<Rightarrow> byte list \<times> size_t" where
  "OPENSSL_strlcpy dst src dst_size =
     (case strlcpy_loop dst src dst_size of
        (d, l, n, rest) \<Rightarrow> (if n \<noteq> 0 then d[l := 0] else d, l + length rest))"

text \<open>\<^verbatim>\<open>OPENSSL_strlcat\<close> first walks over the string already in \<open>dst\<close>.\<close>

fun strlcat_walk :: "byte list \<Rightarrow> size_t \<Rightarrow> size_t" where
  "strlcat_walk [] dst_size = 0"
| "strlcat_walk (c # dst) dst_size =
     (if dst_size > 0 \<and> c \<noteq> 0 then Suc (strlcat_walk dst (dst_size - 1)) else 0)"

definition OPENSSL_strlcat :: "byte list \<Rightarrow> byte list \<Rightarrow> size_t \<Rightarrow> byte list \<times> size_t" where
  "OPENSSL_strlcat dst src dst_size =
     (let l = strlcat_walk dst dst_size
      in case OPENSSL_strlcpy (drop l dst) src (dst_size - l) of
           (d, r) \<Rightarrow> (take l dst @ d, l + r))"

lemma strlcpy_loop_spec:
  assumes "cstr src" "dst_size \<le> length dst"
  shows "strlcpy_loop dst src dst_size =
    (let l = min (length src) (dst_size - 1)
     in (take l src @ drop l dst, l, dst_size - l, drop l src))"
  using assms
proof (induction dst src dst_size rule: strlcpy_loop.induct)
  case (2 dst c src n)
  show ?case
  proof (cases "n > 1")
    case True
    then have "\<exists>m. n = Suc (Suc m)" by presburger
    then obtain m where n: "n = Suc (Suc m)" ..
    then obtain d ds where "dst = d # ds" using "2.prems" by (cases dst) auto
    moreover have "cstr src" using "2.prems" by (simp add: cstr_def)
    ultimately have "strlcpy_loop ds src (Suc m) =
      (take (min (length src) m) src @ drop (min (length src) m) ds,
       min (length src) m, Suc m - min (length src) m, drop (min (length src) m) src)"
      using "2.IH" [OF True] "2.prems" by (simp add: n Let_def)
    then show ?thesis by (simp add: n \<open>dst = d # ds\<close> Let_def)
  next
    case False
    then show ?thesis by simp
  qed
qed simp

text \<open>
  The copy is truncated to \<open>dst_size - 1\<close> bytes and terminated, bytes past it are untouched,
  and the return value is the length of the source.
\<close>

lemma OPENSSL_strlcpy_spec:
  assumes "cstr src" "0 < dst_size" "dst_size \<le> length dst"
  defines "l \<equiv> min (length src) (dst_size - 1)"
  shows "OPENSSL_strlcpy dst src dst_size = (take l src @ [0] @ drop (Suc l) dst, length src)"
proof -
  have l: "l < length dst" "l < dst_size" "l \<le> length src"
    using assms(2,3) by (auto simp: l_def)
  have "(take l src @ drop l dst)[l := 0] = take l src @ [0] @ drop (Suc l) dst"
    using l by (simp add: list_update_append Cons_nth_drop_Suc [symmetric])
  moreover have "min (length src) (dst_size - 1) = l"
    by (simp add: l_def)
  ultimately show ?thesis
    using l unfolding OPENSSL_strlcpy_def strlcpy_loop_spec [OF assms(1,3)]
    by (simp only: Let_def) simp
qed

section \<open>Properties\<close>

text \<open>
  \<^verbatim>\<open>OPENSSL_strlcpy\<close> keeps the longest prefix of the source that fits with its terminator, leaves
  every byte past the terminator alone, and returns the length the source has, so that truncation can
  be detected.
\<close>

theorem OPENSSL_strlcpy_truncates:
  assumes "cstr src" "0 < dst_size" "dst_size \<le> length dst"
  shows "OPENSSL_strlcpy dst src dst_size =
    (take (dst_size - 1) src @ [0] @ drop (Suc (min (length src) (dst_size - 1))) dst, length src)"
  using OPENSSL_strlcpy_spec [OF assms] by (simp add: min_def)

theorem OPENSSL_strlcpy_truncates_witness:
  "OPENSSL_strlcpy [9, 9, 9, 9] [1, 2, 3, 4, 5] 3 = ([1, 2, 0, 9], 5)"
proof -
  have "cstr [1, 2, 3, 4, 5]" by (simp add: cstr_def)
  from OPENSSL_strlcpy_truncates [OF this, of 3 "[9, 9, 9, 9]"] show ?thesis
    by (simp add: numeral_3_eq_3 numeral_2_eq_2)
qed

text \<open>
  \<^verbatim>\<open>OPENSSL_malloc\<close> adds its 8-byte prefix to the requested size without a check: for the last eight
  sizes below \<^verbatim>\<open>SIZE_MAX\<close> the sum wraps, and a successful call returns a block that claims the
  requested size and has no usable byte.
\<close>

theorem OPENSSL_malloc_prefix_wraps:
  assumes "malloc_spec A" "18446744073709551608 \<le> n" "n < 18446744073709551616"
    and "OPENSSL_malloc A n = Some b"
  shows "blk_size b = n \<and> blk_body b = []"
proof -
  have "size_wrap (n + 8) = (n + 8 - 18446744073709551616) mod 18446744073709551616"
    using assms(2) by (simp add: size_wrap_def le_mod_geq)
  also have "\<dots> < 8" using assms(2,3) by simp
  finally have "size_wrap (n + 8) < 8" .
  with assms(1,4) show ?thesis
    by (auto simp: OPENSSL_malloc_def split: option.splits dest: malloc_specD)
qed

theorem OPENSSL_malloc_prefix_wraps_witness:
  "blk_body (the (OPENSSL_malloc (\<lambda>n. Some (replicate n 0)) 18446744073709551609)) = []"
  using OPENSSL_malloc_prefix_wraps [of "\<lambda>n. Some (replicate n 0)" 18446744073709551609
      "the (OPENSSL_malloc (\<lambda>n. Some (replicate n 0)) 18446744073709551609)"]
  by (simp add: malloc_spec_def OPENSSL_malloc_def)

end
