(* ===== verification/Cbs.thy ===== *)
theory Cbs
  imports JS_Prelude Mem
begin

text \<open>
  Model of the reader half of \<^verbatim>\<open>crypto/bytestring\<close>: \<^verbatim>\<open>cbs.c\<close>. A \<^verbatim>\<open>CBS\<close> is a window
  \<^verbatim>\<open>data[0..len)\<close>; the model is the list of its bytes, so \<^verbatim>\<open>CBS_len\<close> is \<open>length\<close> and advancing the
  window is \<open>drop\<close>. A function that reads from a \<^verbatim>\<open>CBS\<close> returns its result and the window it leaves,
  also when it fails: some of the functions have consumed input by then.
\<close>

type_synonym cbs = "byte list"

section \<open>Windows and fixed-size integers\<close>

definition cbs_get :: "size_t \<Rightarrow> cbs \<Rightarrow> byte list option \<times> cbs" where
  "cbs_get n cbs = (if length cbs < n then (None, cbs) else (Some (take n cbs), drop n cbs))"

definition CBS_init :: "byte list \<Rightarrow> size_t \<Rightarrow> cbs" where
  "CBS_init mem len = take len mem"

definition CBS_skip :: "size_t \<Rightarrow> cbs \<Rightarrow> unit option \<times> cbs" where
  "CBS_skip len cbs = andthen (cbs_get len cbs) (\<lambda>_ r. (Some (), r))"

definition CBS_len :: "cbs \<Rightarrow> size_t" where
  "CBS_len cbs = length cbs"

text \<open>\<^verbatim>\<open>CBS_stow\<close>: \<open>Some m\<close> is the return value 1 with the copy \<open>m\<close> (\<open>None\<close> for \<^verbatim>\<open>NULL\<close>).\<close>

definition CBS_stow :: "allocator \<Rightarrow> cbs \<Rightarrow> byte list option option" where
  "CBS_stow A cbs =
     (if length cbs = 0 then Some None
      else case OPENSSL_memdup A cbs (length cbs) of None \<Rightarrow> None | Some m \<Rightarrow> Some (Some m))"

definition CBS_strdup :: "allocator \<Rightarrow> cbs \<Rightarrow> byte list option" where
  "CBS_strdup A cbs = OPENSSL_strndup A (Some cbs) (length cbs)"

definition CBS_contains_zero_byte :: "cbs \<Rightarrow> bool" where
  "CBS_contains_zero_byte cbs = list_ex (\<lambda>b. b = 0) cbs"

definition CBS_mem_equal :: "cbs \<Rightarrow> byte list \<Rightarrow> size_t \<Rightarrow> bool" where
  "CBS_mem_equal cbs mem len = (if len \<noteq> length cbs then False else CRYPTO_memcmp cbs mem len = 0)"

text \<open>The big-endian accumulation loop of \<^verbatim>\<open>cbs_get_u\<close>, in a \<^verbatim>\<open>uint64_t\<close>.\<close>

definition u64_of_be :: "byte list \<Rightarrow> u64" where
  "u64_of_be bs = foldl (\<lambda>result b. push_bit 8 result OR ucast b) 0 bs"

definition cbs_get_u :: "size_t \<Rightarrow> cbs \<Rightarrow> u64 option \<times> cbs" where
  "cbs_get_u len cbs = andthen (cbs_get len cbs) (\<lambda>v r. (Some (u64_of_be v), r))"

definition CBS_get_u8 :: "cbs \<Rightarrow> byte option \<times> cbs" where
  "CBS_get_u8 cbs = andthen (cbs_get 1 cbs) (\<lambda>v r. (Some (v ! 0), r))"

definition CBS_get_u16 :: "cbs \<Rightarrow> u16 option \<times> cbs" where
  "CBS_get_u16 cbs = andthen (cbs_get_u 2 cbs) (\<lambda>v r. (Some (ucast v), r))"

definition CBS_get_u24 :: "cbs \<Rightarrow> u32 option \<times> cbs" where
  "CBS_get_u24 cbs = andthen (cbs_get_u 3 cbs) (\<lambda>v r. (Some (ucast v), r))"

definition CBS_get_u32 :: "cbs \<Rightarrow> u32 option \<times> cbs" where
  "CBS_get_u32 cbs = andthen (cbs_get_u 4 cbs) (\<lambda>v r. (Some (ucast v), r))"

definition CBS_get_u64 :: "cbs \<Rightarrow> u64 option \<times> cbs" where
  "CBS_get_u64 cbs = cbs_get_u 8 cbs"

text \<open>\<^verbatim>\<open>CRYPTO_bswap2/4/8\<close> reverse the bytes of a value.\<close>

definition bswap :: "nat \<Rightarrow> 'a :: len word \<Rightarrow> 'a word" where
  "bswap k w = word_of_nat (le_nat (be_bytes k (unat w)))"

definition CBS_get_u16le :: "cbs \<Rightarrow> u16 option \<times> cbs" where
  "CBS_get_u16le cbs = andthen (CBS_get_u16 cbs) (\<lambda>v r. (Some (bswap 2 v), r))"

definition CBS_get_u32le :: "cbs \<Rightarrow> u32 option \<times> cbs" where
  "CBS_get_u32le cbs = andthen (CBS_get_u32 cbs) (\<lambda>v r. (Some (bswap 4 v), r))"

definition CBS_get_u64le :: "cbs \<Rightarrow> u64 option \<times> cbs" where
  "CBS_get_u64le cbs = andthen (cbs_get_u 8 cbs) (\<lambda>v r. (Some (bswap 8 v), r))"

definition CBS_get_last_u8 :: "cbs \<Rightarrow> byte option \<times> cbs" where
  "CBS_get_last_u8 cbs =
     (if length cbs = 0 then (None, cbs)
      else (Some (cbs ! (length cbs - 1)), take (length cbs - 1) cbs))"

definition CBS_get_bytes :: "size_t \<Rightarrow> cbs \<Rightarrow> cbs option \<times> cbs" where
  "CBS_get_bytes len cbs = andthen (cbs_get len cbs) (\<lambda>v r. (Some (CBS_init v len), r))"

definition CBS_copy_bytes :: "size_t \<Rightarrow> cbs \<Rightarrow> byte list option \<times> cbs" where
  "CBS_copy_bytes len cbs = andthen (cbs_get len cbs) (\<lambda>v r. (Some (take len v), r))"

definition cbs_get_length_prefixed :: "size_t \<Rightarrow> cbs \<Rightarrow> cbs option \<times> cbs" where
  "cbs_get_length_prefixed len_len cbs =
     andthen (cbs_get_u len_len cbs) (\<lambda>len r. CBS_get_bytes (unat len) r)"

definition CBS_get_u8_length_prefixed :: "cbs \<Rightarrow> cbs option \<times> cbs" where
  "CBS_get_u8_length_prefixed cbs = cbs_get_length_prefixed 1 cbs"

definition CBS_get_u16_length_prefixed :: "cbs \<Rightarrow> cbs option \<times> cbs" where
  "CBS_get_u16_length_prefixed cbs = cbs_get_length_prefixed 2 cbs"

definition CBS_get_u24_length_prefixed :: "cbs \<Rightarrow> cbs option \<times> cbs" where
  "CBS_get_u24_length_prefixed cbs = cbs_get_length_prefixed 3 cbs"

section \<open>ASN.1 identifiers and lengths\<close>

abbreviation (input) CBS_ASN1_TAG_SHIFT :: nat where "CBS_ASN1_TAG_SHIFT \<equiv> 24"
abbreviation (input) CBS_ASN1_CONSTRUCTED :: u32 where "CBS_ASN1_CONSTRUCTED \<equiv> 0x20000000"
abbreviation (input) CBS_ASN1_TAG_NUMBER_MASK :: u32 where "CBS_ASN1_TAG_NUMBER_MASK \<equiv> 0x1fffffff"
abbreviation (input) CBS_ASN1_BOOLEAN :: u32 where "CBS_ASN1_BOOLEAN \<equiv> 1"
abbreviation (input) CBS_ASN1_INTEGER :: u32 where "CBS_ASN1_INTEGER \<equiv> 2"
abbreviation (input) CBS_ASN1_OCTETSTRING :: u32 where "CBS_ASN1_OCTETSTRING \<equiv> 4"

fun parse_base128_loop :: "u64 \<Rightarrow> cbs \<Rightarrow> u64 option \<times> cbs" where
  "parse_base128_loop v [] = (None, [])"
| "parse_base128_loop v (b # r) =
     (if drop_bit (64 - 7) v \<noteq> 0 then (None, r)
      else if v = 0 \<and> b = 0x80 then (None, r)
      else let v' = push_bit 7 v OR ucast (b AND 0x7f)
           in if b AND 0x80 \<noteq> 0 then parse_base128_loop v' r else (Some v', r))"

definition parse_base128_integer :: "cbs \<Rightarrow> u64 option \<times> cbs" where
  "parse_base128_integer cbs = parse_base128_loop 0 cbs"

definition parse_asn1_tag :: "cbs \<Rightarrow> u32 option \<times> cbs" where
  "parse_asn1_tag cbs =
     andthen (CBS_get_u8 cbs) (\<lambda>tag_byte r.
       let tag = push_bit CBS_ASN1_TAG_SHIFT (ucast tag_byte AND 0xe0 :: u32);
           tag_number = ucast (tag_byte AND 0x1f) :: u32
       in if tag_number = 0x1f then
            andthen (parse_base128_integer r) (\<lambda>v r'.
              if v > ucast CBS_ASN1_TAG_NUMBER_MASK \<or> v < 0x1f then (None, r')
              else (Some (tag OR ucast v), r'))
          else (Some (tag OR tag_number), r))"

text \<open>
  \<^verbatim>\<open>cbs_get_any_asn1_element\<close> works on a copy \<open>header\<close> of the window until it knows the length
  of the element, and only then advances the caller's window. It yields the element (header
  included), its tag and the length of its header.
\<close>

definition cbs_get_any_asn1_element :: "bool \<Rightarrow> cbs \<Rightarrow> (cbs \<times> u32 \<times> size_t) option \<times> cbs" where
  "cbs_get_any_asn1_element ber_ok cbs =
     (case parse_asn1_tag cbs of (None, _) \<Rightarrow> (None, cbs) | (Some tag, header) \<Rightarrow>
     (case CBS_get_u8 header of (None, _) \<Rightarrow> (None, cbs) | (Some length_byte, header) \<Rightarrow>
        let header_len = length cbs - length header in
        if length_byte AND 0x80 = 0 then
          andthen (CBS_get_bytes (unat length_byte + header_len) cbs)
            (\<lambda>out r. (Some (out, tag, header_len), r))
        else
          let num_bytes = unat (length_byte AND 0x7f) in
          if ber_ok \<and> tag AND CBS_ASN1_CONSTRUCTED \<noteq> 0 \<and> num_bytes = 0 then
            andthen (CBS_get_bytes header_len cbs)
              (\<lambda>out r. (Some (out, tag, header_len), r))
          else if num_bytes = 0 \<or> num_bytes > 4 then (None, cbs)
          else (case cbs_get_u num_bytes header of (None, _) \<Rightarrow> (None, cbs) | (Some len64, _) \<Rightarrow>
            if len64 < 128 then (None, cbs)
            else if drop_bit ((num_bytes - 1) * 8) len64 = 0 then (None, cbs)
            else let len = unat len64 in
              if size_wrap (len + header_len + num_bytes) < len then (None, cbs)
              else andthen (CBS_get_bytes (len + (header_len + num_bytes)) cbs)
                     (\<lambda>out r. (Some (out, tag, header_len + num_bytes), r)))))"

definition CBS_get_any_asn1_element :: "cbs \<Rightarrow> (cbs \<times> u32 \<times> size_t) option \<times> cbs" where
  "CBS_get_any_asn1_element cbs = cbs_get_any_asn1_element False cbs"

definition CBS_get_any_ber_asn1_element :: "cbs \<Rightarrow> (cbs \<times> u32 \<times> size_t) option \<times> cbs" where
  "CBS_get_any_ber_asn1_element cbs = cbs_get_any_asn1_element True cbs"

text \<open>\<open>skip_on out n r\<close> is \<^verbatim>\<open>CBS_skip\<close> applied to the result window \<open>out\<close>, with \<open>r\<close> the outer window.\<close>

definition skip_on :: "cbs \<Rightarrow> size_t \<Rightarrow> cbs \<Rightarrow> cbs option \<times> cbs" where
  "skip_on out n r = (case CBS_skip n out of (None, _) \<Rightarrow> (None, r) | (Some _, out') \<Rightarrow> (Some out', r))"

definition CBS_get_any_asn1 :: "cbs \<Rightarrow> (cbs \<times> u32) option \<times> cbs" where
  "CBS_get_any_asn1 cbs =
     andthen (CBS_get_any_asn1_element cbs) (\<lambda>(out, tag, header_len) r.
       andthen (skip_on out header_len r) (\<lambda>out' r. (Some (out', tag), r)))"

definition cbs_get_asn1 :: "u32 \<Rightarrow> bool \<Rightarrow> cbs \<Rightarrow> cbs option \<times> cbs" where
  "cbs_get_asn1 tag_value skip_header cbs =
     andthen (CBS_get_any_asn1_element cbs) (\<lambda>(out, tag, header_len) r.
       if tag \<noteq> tag_value then (None, r)
       else if skip_header then skip_on out header_len r
       else (Some out, r))"

definition CBS_get_asn1 :: "u32 \<Rightarrow> cbs \<Rightarrow> cbs option \<times> cbs" where
  "CBS_get_asn1 tag_value cbs = cbs_get_asn1 tag_value True cbs"

definition CBS_get_asn1_element :: "u32 \<Rightarrow> cbs \<Rightarrow> cbs option \<times> cbs" where
  "CBS_get_asn1_element tag_value cbs = cbs_get_asn1 tag_value False cbs"

definition CBS_peek_asn1_tag :: "u32 \<Rightarrow> cbs \<Rightarrow> bool" where
  "CBS_peek_asn1_tag tag_value cbs =
     (if length cbs < 1 then False
      else case parse_asn1_tag cbs of (None, _) \<Rightarrow> False | (Some actual_tag, _) \<Rightarrow> tag_value = actual_tag)"

section \<open>ASN.1 values\<close>

text \<open>The loop of \<^verbatim>\<open>CBS_get_asn1_uint64\<close> over the contents octets.\<close>

fun asn1_uint64_loop :: "u64 \<Rightarrow> byte list \<Rightarrow> u64 option" where
  "asn1_uint64_loop out [] = Some out"
| "asn1_uint64_loop out (b # bs) =
     (if drop_bit 56 out \<noteq> 0 then None else asn1_uint64_loop (push_bit 8 out OR ucast b) bs)"

definition asn1_uint64_contents :: "byte list \<Rightarrow> u64 option" where
  "asn1_uint64_contents bs =
     (if length bs = 0 then None
      else if bs ! 0 AND 0x80 \<noteq> 0 then None
      else if bs ! 0 = 0 \<and> length bs > 1 \<and> bs ! 1 AND 0x80 = 0 then None
      else asn1_uint64_loop 0 bs)"

definition CBS_get_asn1_uint64 :: "cbs \<Rightarrow> u64 option \<times> cbs" where
  "CBS_get_asn1_uint64 cbs =
     andthen (CBS_get_asn1 CBS_ASN1_INTEGER cbs) (\<lambda>bytes r. (asn1_uint64_contents bytes, r))"

text \<open>
  \<^verbatim>\<open>CBS_get_asn1_int64\<close> fills the eight bytes of a union with the sign and then copies the contents
  in, least significant byte first: the value of a little-endian \<^verbatim>\<open>int64_t\<close>.
\<close>

definition asn1_int64_contents :: "byte list \<Rightarrow> u64 option" where
  "asn1_int64_contents bs =
     (if length bs = 0 \<or> length bs > 8 then None
      else if length bs > 1 \<and> bs ! 0 = 0 \<and> bs ! 1 AND 0x80 = 0 then None
      else if length bs > 1 \<and> bs ! 0 = 0xff \<and> bs ! 1 AND 0x80 \<noteq> 0 then None
      else let is_negative = (bs ! 0 AND 0x80 \<noteq> 0);
               u = rev bs @ replicate (8 - length bs) (if is_negative then 0xff else 0)
           in Some (word_of_nat (le_nat u)))"

definition CBS_get_asn1_int64 :: "cbs \<Rightarrow> u64 option \<times> cbs" where
  "CBS_get_asn1_int64 cbs =
     andthen (CBS_get_asn1 CBS_ASN1_INTEGER cbs) (\<lambda>bytes r. (asn1_int64_contents bytes, r))"

definition CBS_get_asn1_bool :: "cbs \<Rightarrow> bool option \<times> cbs" where
  "CBS_get_asn1_bool cbs =
     andthen (CBS_get_asn1 CBS_ASN1_BOOLEAN cbs) (\<lambda>bytes r.
       if length bytes \<noteq> 1 then (None, r)
       else let value = bytes ! 0 in
         if value \<noteq> 0 \<and> value \<noteq> 0xff then (None, r) else (Some (value \<noteq> 0), r))"

text \<open>The result \<open>Some (Some contents)\<close> is \<^verbatim>\<open>present = 1\<close>, \<open>Some None\<close> is \<^verbatim>\<open>present = 0\<close>.\<close>

definition CBS_get_optional_asn1 :: "u32 \<Rightarrow> cbs \<Rightarrow> cbs option option \<times> cbs" where
  "CBS_get_optional_asn1 tag cbs =
     (if CBS_peek_asn1_tag tag cbs
      then andthen (CBS_get_asn1 tag cbs) (\<lambda>out r. (Some (Some out), r))
      else (Some None, cbs))"

text \<open>A window inside another one is read to its end: \<open>within\<close> runs a reader on the child window.\<close>

definition within :: "(cbs \<Rightarrow> 'a option \<times> cbs) \<Rightarrow> cbs \<Rightarrow> cbs \<Rightarrow> 'a option \<times> cbs" where
  "within p child r =
     (case p child of (None, _) \<Rightarrow> (None, r) | (Some x, child') \<Rightarrow>
        if length child' \<noteq> 0 then (None, r) else (Some x, r))"

definition CBS_get_optional_asn1_octet_string :: "u32 \<Rightarrow> cbs \<Rightarrow> (bool \<times> cbs) option \<times> cbs" where
  "CBS_get_optional_asn1_octet_string tag cbs =
     andthen (CBS_get_optional_asn1 tag cbs) (\<lambda>child r.
       case child of
         None \<Rightarrow> (Some (False, []), r)
       | Some c \<Rightarrow> andthen (within (CBS_get_asn1 CBS_ASN1_OCTETSTRING) c r) (\<lambda>out r. (Some (True, out), r)))"

definition CBS_get_optional_asn1_uint64 :: "u32 \<Rightarrow> u64 \<Rightarrow> cbs \<Rightarrow> u64 option \<times> cbs" where
  "CBS_get_optional_asn1_uint64 tag default_value cbs =
     andthen (CBS_get_optional_asn1 tag cbs) (\<lambda>child r.
       case child of
         None \<Rightarrow> (Some default_value, r)
       | Some c \<Rightarrow> within CBS_get_asn1_uint64 c r)"

definition asn1_boolean_octet :: "cbs \<Rightarrow> byte option \<times> cbs" where
  "asn1_boolean_octet child =
     andthen (CBS_get_asn1 CBS_ASN1_BOOLEAN child) (\<lambda>child2 r.
       if length child2 \<noteq> 1 then (None, r) else (Some (child2 ! 0), r))"

definition CBS_get_optional_asn1_bool :: "u32 \<Rightarrow> bool \<Rightarrow> cbs \<Rightarrow> bool option \<times> cbs" where
  "CBS_get_optional_asn1_bool tag default_value cbs =
     andthen (CBS_get_optional_asn1 tag cbs) (\<lambda>child r.
       case child of
         None \<Rightarrow> (Some default_value, r)
       | Some c \<Rightarrow> andthen (within asn1_boolean_octet c r) (\<lambda>boolean r.
           if boolean = 0 then (Some False, r)
           else if boolean = 0xff then (Some True, r)
           else (None, r)))"

definition CBS_is_valid_asn1_bitstring :: "cbs \<Rightarrow> bool" where
  "CBS_is_valid_asn1_bitstring cbs =
     (case CBS_get_u8 cbs of (None, _) \<Rightarrow> False | (Some num_unused_bits, r) \<Rightarrow>
        if num_unused_bits > 7 then False
        else if num_unused_bits = 0 then True
        else (case CBS_get_last_u8 r of (None, _) \<Rightarrow> False | (Some last_byte, _) \<Rightarrow>
               last_byte AND (push_bit (unat num_unused_bits) 1 - 1) = 0))"

definition CBS_asn1_bitstring_has_bit :: "cbs \<Rightarrow> u32 \<Rightarrow> bool" where
  "CBS_asn1_bitstring_has_bit cbs b =
     (if \<not> CBS_is_valid_asn1_bitstring cbs then False
      else let byte_num = unat (drop_bit 3 b + 1); bit_num = unat (7 - (b AND 7))
           in byte_num < length cbs \<and> cbs ! byte_num AND push_bit bit_num 1 \<noteq> 0)"

end
