(* ===== verification/Der.thy ===== *)
theory Der
  imports Cbs
begin

text \<open>
  The DER grammar as mathematics (identifier octets, length octets, minimal integers), and the
  proof that the readers of \<^verbatim>\<open>cbs.c\<close> accept exactly its sentences: \<open>canonical_codec\<close> is
  interpreted on base-128 integers, on tags and on whole elements.
\<close>

section \<open>Accumulation loops\<close>

lemma byte_step:
  assumes "unat (v :: u64) < 2 ^ 56"
  shows "unat (push_bit 8 v OR ucast (b :: byte)) = unat v * 256 + unat b"
proof -
  have b: "unat (ucast b :: u64) = unat b" by (rule unat_ucast_up) simp
  have "unat (push_bit 8 v OR ucast b) = unat v * 2 ^ 8 + unat (ucast b :: u64)"
  proof (rule unat_push_bit_or)
    show "unat (ucast b :: u64) < 2 ^ 8" using unat_byte_less [of b] by (simp add: b)
    have "unat v * 256 + unat b < 18446744073709551616"
      using assms [simplified] unat_byte_less [of b] by linarith
    then show "unat v * 2 ^ 8 + unat (ucast b :: u64) < 2 ^ LENGTH(64)" by (simp add: b)
  qed
  then show ?thesis by (simp only: b) simp
qed

lemma u64_of_be_snoc: "u64_of_be (bs @ [b]) = push_bit 8 (u64_of_be bs) OR ucast b"
  by (simp add: u64_of_be_def)

lemma u64_of_be_unat: "length bs \<le> 8 \<Longrightarrow> unat (u64_of_be bs) = be_nat bs"
proof (induction bs rule: rev_induct)
  case (snoc b bs)
  then have "be_nat bs < 256 ^ 7"
    using be_nat_bound [of bs] power_increasing [of "length bs" 7 "256::nat"] by simp
  with snoc have "unat (u64_of_be bs) < 2 ^ 56" by simp
  with snoc show ?case by (simp add: u64_of_be_snoc byte_step)
qed (simp add: u64_of_be_def)

section \<open>Base 128\<close>

text \<open>The continuation octets of a positive number, and its full encoding.\<close>

fun cont128 :: "nat \<Rightarrow> byte list" where
  "cont128 n = (if n = 0 then [] else cont128 (n div 128) @ [word_of_nat (128 + n mod 128)])"

declare cont128.simps [simp del]

definition der_base128 :: "nat \<Rightarrow> byte list" where
  "der_base128 n = cont128 (n div 128) @ [word_of_nat (n mod 128)]"

lemma cont128_0 [simp]: "cont128 0 = []"
  by (simp add: cont128.simps)

text \<open>One iteration of the loop, in terms of the numbers.\<close>

lemma parse_base128_step:
  assumes v: "unat v < 2 ^ 57" and nz: "unat v \<noteq> 0 \<or> unat b \<noteq> 128"
  shows "parse_base128_loop v (b # r) =
    (if unat b < 128 then (Some (word_of_nat (unat v * 128 + unat b)), r)
     else parse_base128_loop (word_of_nat (unat v * 128 + unat b mod 128)) r)"
proof -
  have "unat (push_bit 7 v OR ucast (b AND 0x7f)) = unat v * 128 + unat b mod 128"
    using v by (simp add: unat_push_bit_or unat_ucast_up unat_and_7f)
  then have step: "push_bit 7 v OR ucast (b AND 0x7f) = word_of_nat (unat v * 128 + unat b mod 128)"
    by (rule word_eq_of_nat)
  have "\<not> (v = 0 \<and> b = 0x80)" using nz by auto
  with v show ?thesis
    by (simp only: parse_base128_loop.simps drop_bit_zero_iff step Let_def byte_high_clear) simp
qed

lemma parse_base128_stepD:
  assumes "parse_base128_loop v (b # bs) = (Some x, r)"
  shows "unat v < 2 ^ 57" "unat v \<noteq> 0 \<or> unat b \<noteq> 128"
proof -
  show "unat v < 2 ^ 57" using assms
    by (cases "drop_bit 57 v = 0") (simp_all add: drop_bit_zero_iff)
  have "\<not> (v = 0 \<and> b = 0x80)" using assms by auto
  then show "unat v \<noteq> 0 \<or> unat b \<noteq> 128"
    by (metis unat_eq_0 word_of_nat_unat_byte of_nat_numeral)
qed

lemma unat_cont_byte: "unat (word_of_nat (128 + n mod 128) :: byte) = 128 + n mod 128"
  by (simp del: of_nat_add)

lemma parse_base128_cont:
  "m < 2 ^ 57 \<Longrightarrow>
   parse_base128_loop 0 (cont128 m @ rest) = parse_base128_loop (word_of_nat m) rest"
proof (induction m arbitrary: rest rule: cont128.induct)
  case (1 m)
  show ?case
  proof (cases "m = 0")
    case False
    define b :: byte where "b = word_of_nat (128 + m mod 128)"
    have b: "unat b = 128 + m mod 128" unfolding b_def by (rule unat_cont_byte)
    obtain v :: u64 where v: "v = word_of_nat (m div 128)" "unat v = m div 128"
      using "1.prems" by (simp add: unat_of_nat)
    have nz: "unat v \<noteq> 0 \<or> unat b \<noteq> 128"
      using False v(2) b by (auto simp: div_eq_0_iff)
    have "parse_base128_loop 0 (cont128 m @ rest) = parse_base128_loop v (b # rest)"
      using 1 False by (subst cont128.simps) (simp add: b_def v del: of_nat_add)
    also have "\<dots> = parse_base128_loop (word_of_nat (m div 128 * 128 + m mod 128)) rest"
      using parse_base128_step [OF _ nz] "1.prems" b v(2) by (simp del: of_nat_add of_nat_mult)
    finally show ?thesis by (simp del: of_nat_add of_nat_mult)
  qed simp
qed

lemma parse_base128_last:
  assumes "n < 2 ^ 64"
  shows "parse_base128_integer (der_base128 n @ r) = (Some (word_of_nat n), r)"
proof -
  obtain b :: byte where b: "b = word_of_nat (n mod 128)" "unat b = n mod 128" by simp
  obtain v :: u64 where v: "v = word_of_nat (n div 128)" "unat v = n div 128"
    using assms by (simp add: unat_of_nat)
  have nz: "unat v \<noteq> 0 \<or> unat b \<noteq> 128" using b(2) by (metis mod_less_divisor nless_le zero_less_numeral)
  have "parse_base128_integer (der_base128 n @ r) = parse_base128_loop v (b # r)"
    using assms by (simp add: parse_base128_integer_def der_base128_def b(1) v(1) parse_base128_cont)
  also have "\<dots> = (Some (word_of_nat (n div 128 * 128 + n mod 128)), r)"
    using parse_base128_step [OF _ nz] assms b(2) v(2) by (simp del: of_nat_add of_nat_mult)
  finally show ?thesis by (simp del: of_nat_add of_nat_mult)
qed

lemma parse_base128_loop_canonical:
  "parse_base128_loop v bs = (Some x, r) \<Longrightarrow>
   \<exists>pre. bs = pre @ r \<and> cont128 (unat v) @ pre = der_base128 (unat x)"
proof (induction bs arbitrary: v)
  case (Cons b bs)
  note D = parse_base128_stepD [OF Cons.prems]
  note step = parse_base128_step [OF D, of bs]
  show ?case
  proof (cases "unat b < 128")
    case True
    with step Cons.prems have "x = word_of_nat (unat v * 128 + unat b)" "r = bs" by simp_all
    moreover from D(1) True have "unat v * 128 + unat b < 2 ^ 64" by simp
    ultimately have "unat x = unat v * 128 + unat b" by (simp add: unat_of_nat del: of_nat_add of_nat_mult)
    then show ?thesis using True \<open>r = bs\<close>
      by (intro exI [of _ "[b]"]) (simp add: der_base128_def)
  next
    case False
    define w :: u64 where "w = word_of_nat (unat v * 128 + unat b mod 128)"
    have "unat v * 128 + unat b mod 128 < 2 ^ 57 * 128"
      using D(1) mod_less_divisor [of 128 "unat b"] by linarith
    then have w: "unat w = unat v * 128 + unat b mod 128"
      by (simp add: w_def unat_of_nat del: of_nat_add of_nat_mult)
    have b: "128 + unat b mod 128 = unat b"
      using False by (rule byte_high_set)
    then have "b = word_of_nat (128 + unat w mod 128)"
      using w by (intro word_eq_of_nat) simp
    moreover have "unat w \<noteq> 0" "unat w div 128 = unat v" using w b D(2) by auto
    ultimately have "cont128 (unat w) = cont128 (unat v) @ [b]"
      by (subst cont128.simps) (simp only: if_False)
    moreover have "parse_base128_loop w bs = (Some x, r)"
      using step Cons.prems False by (simp add: w_def)
    then obtain pre where "bs = pre @ r" "cont128 (unat w) @ pre = der_base128 (unat x)"
      using Cons.IH by blast
    ultimately show ?thesis by (intro exI [of _ "b # pre"]) simp
  qed
qed simp

interpretation b128: canonical_codec
  "\<lambda>v :: u64. der_base128 (unat v)" parse_base128_integer "\<lambda>_. True"
proof unfold_locales
  show "parse_base128_integer (der_base128 (unat x) @ r) = (Some x, r)" for x :: u64 and r
    using parse_base128_last [of "unat x" r] unsigned_less [of x] by simp
  show "True \<and> bs = der_base128 (unat x) @ r" if "parse_base128_integer bs = (Some x, r)" for bs x r
    using parse_base128_loop_canonical [of 0 bs x r] that by (auto simp: parse_base128_integer_def)
qed

section \<open>Identifier octets\<close>

text \<open>
  A tag holds the class and the constructed bit in its top three bits and the tag number in
  the other 29; numbers below 31 take the low form, all others the high form.
\<close>

definition tag_class :: "u32 \<Rightarrow> nat" where
  "tag_class t = unat t div 2 ^ 29"

definition tag_number :: "u32 \<Rightarrow> nat" where
  "tag_number t = unat t mod 2 ^ 29"

definition der_tag :: "u32 \<Rightarrow> byte list" where
  "der_tag t =
     (if tag_number t < 31 then [word_of_nat (tag_class t * 32 + tag_number t)]
      else word_of_nat (tag_class t * 32 + 31) # der_base128 (tag_number t))"

definition make_tag :: "nat \<Rightarrow> nat \<Rightarrow> u32" where
  "make_tag c n = word_of_nat (c * 2 ^ 29 + n)"

lemma tag_class_less: "tag_class t < 8"
proof -
  have "unat t < 2 ^ 29 * 8" using unsigned_less [of t, where 'a = nat] by simp
  then show ?thesis unfolding tag_class_def by (intro less_mult_imp_div_less) simp
qed

lemma tag_number_less: "tag_number t < 2 ^ 29"
  by (simp add: tag_number_def)

lemma make_tag_of: "make_tag (tag_class t) (tag_number t) = t"
  by (simp add: make_tag_def tag_class_def tag_number_def del: of_nat_add of_nat_mult)

lemma make_tag_parts:
  assumes "c < 8" "n < 2 ^ 29"
  shows "tag_class (make_tag c n) = c" "tag_number (make_tag c n) = n"
proof -
  have "c * 2 ^ 29 + n < 2 ^ 32" using assms by simp
  then have "unat (make_tag c n) = c * 2 ^ 29 + n"
    by (simp add: make_tag_def unat_of_nat del: of_nat_add of_nat_mult)
  then show "tag_class (make_tag c n) = c" "tag_number (make_tag c n) = n"
    using assms(2) by (simp_all add: tag_class_def tag_number_def)
qed

lemma tag_leading_bits:
  "push_bit 24 (ucast (b :: byte) AND 0xe0 :: u32) = push_bit 29 (word_of_nat (unat b div 32))"
  by (rule all_bytes [of "\<lambda>b. push_bit 24 (ucast b AND 0xe0 :: u32) =
        push_bit 29 (word_of_nat (unat b div 32))" b]) code_simp

lemma tag_or:
  assumes "unat (n :: u32) < 2 ^ 29"
  shows "push_bit 24 (ucast (b :: byte) AND 0xe0) OR n = make_tag (unat b div 32) (unat n)"
proof -
  have c: "unat b div 32 < 8" using unat_byte_less [of b] by (simp add: less_mult_imp_div_less)
  then have u: "unat (word_of_nat (unat b div 32) :: u32) = unat b div 32"
    by (simp add: unat_of_nat)
  have "unat (push_bit 29 (word_of_nat (unat b div 32)) OR n) = unat b div 32 * 2 ^ 29 + unat n"
    using unat_push_bit_or [of n 29 "word_of_nat (unat b div 32)"] assms c by (simp add: u)
  then show ?thesis
    unfolding tag_leading_bits make_tag_def by (rule word_eq_of_nat)
qed

lemma CBS_get_u8_simps [simp]:
  "CBS_get_u8 [] = (None, [])"
  "CBS_get_u8 (b # r) = (Some b, r)"
  by (simp_all add: CBS_get_u8_def cbs_get_def)

lemma parse_asn1_tag_Nil [simp]: "parse_asn1_tag [] = (None, [])"
  by (simp add: parse_asn1_tag_def)

lemma tag_number_octet: "unat (ucast (b AND 0x1f) :: u32) = unat (b :: byte) mod 32"
  by (simp add: unat_ucast_up unat_and_1f)

lemma parse_asn1_tag_Cons:
  "parse_asn1_tag (b # r) =
     (if unat b mod 32 = 31 then
        andthen (parse_base128_integer r) (\<lambda>v r'.
          if unat v < 2 ^ 29 \<and> 31 \<le> unat v then (Some (make_tag (unat b div 32) (unat v)), r') else (None, r'))
      else (Some (make_tag (unat b div 32) (unat b mod 32)), r))"
proof -
  have eq: "ucast (b AND 0x1f) = (0x1f :: u32) \<longleftrightarrow> unat b mod 32 = 31"
    by (simp add: word_unat_eq_iff tag_number_octet)
  have "unat b mod 32 < 32" by simp
  then have low: "push_bit 24 (ucast b AND 0xe0) OR ucast (b AND 0x1f) = make_tag (unat b div 32) (unat b mod 32)"
    using tag_or [of "ucast (b AND 0x1f)" b] by (simp add: tag_number_octet)
  have high: "(if v > ucast (0x1fffffff :: u32) \<or> v < 0x1f then (None, r')
      else (Some (push_bit 24 (ucast b AND 0xe0) OR ucast v), r')) =
     (if unat v < 2 ^ 29 \<and> 31 \<le> unat v then (Some (make_tag (unat b div 32) (unat v)), r')
      else (None, r'))" for v :: u64 and r' :: cbs
  proof (cases "unat v < 2 ^ 29 \<and> 31 \<le> unat v")
    case True
    then have "unat (ucast v :: u32) = unat v"
      by (simp add: unsigned_ucast_eq take_bit_nat_eq_self)
    with True tag_or [of "ucast v" b] show ?thesis
      by (simp add: word_less_nat_alt)
  next
    case False
    then show ?thesis by (auto simp: word_less_nat_alt)
  qed
  show ?thesis
    unfolding parse_asn1_tag_def CBS_get_u8_simps andthen.simps Let_def eq low high ..
qed

lemma der_tag_octet:
  assumes "n < 32"
  shows "unat (word_of_nat (tag_class t * 32 + n) :: byte) = tag_class t * 32 + n"
  using tag_class_less [of t] assms by (simp add: unat_of_nat del: of_nat_add of_nat_mult)

interpretation tag: canonical_codec der_tag parse_asn1_tag "\<lambda>_. True"
proof unfold_locales
  fix t :: u32 and r :: "byte list"
  show "parse_asn1_tag (der_tag t @ r) = (Some t, r)"
  proof (cases "tag_number t < 31")
    case True
    then show ?thesis
      using der_tag_octet [of "tag_number t" t]
      by (simp add: der_tag_def parse_asn1_tag_Cons make_tag_of del: of_nat_add of_nat_mult)
  next
    case False
    have "tag_number t < 2 ^ 64" using tag_number_less [of t] by simp
    moreover from this have "unat (word_of_nat (tag_number t) :: u64) = tag_number t"
      by (simp add: unat_of_nat)
    ultimately show ?thesis
      using der_tag_octet [of 31 t] False tag_number_less [of t]
      by (simp add: der_tag_def parse_asn1_tag_Cons parse_base128_last make_tag_of
          del: of_nat_add of_nat_mult)
  qed
next
  fix bs and t :: u32 and r :: "byte list"
  assume *: "parse_asn1_tag bs = (Some t, r)"
  then obtain b bs' where bs: "bs = b # bs'" by (cases bs) auto
  have c: "unat b div 32 < 8" using unat_byte_less [of b] by (simp add: less_mult_imp_div_less)
  have octet: "word_of_nat (unat b div 32 * 32 + unat b mod 32) = b"
    by (simp del: of_nat_add of_nat_mult)
  show "True \<and> bs = der_tag t @ r"
  proof (cases "unat b mod 32 = 31")
    case True
    with * obtain v where v: "parse_base128_integer bs' = (Some v, r)" "unat v < 2 ^ 29" "31 \<le> unat v"
      and t: "t = make_tag (unat b div 32) (unat v)"
      by (auto simp: bs parse_asn1_tag_Cons andthen_Some_iff split: if_splits)
    have "bs' = der_base128 (unat v) @ r" using b128.enc_dec [OF v(1)] by simp
    then show ?thesis
      using octet True make_tag_parts [OF c v(2)] v(3) by (simp add: bs t der_tag_def del: of_nat_add of_nat_mult)
  next
    case False
    moreover have "unat b mod 32 < 32" by simp
    ultimately have n: "unat b mod 32 < 31" by linarith
    with * False have "t = make_tag (unat b div 32) (unat b mod 32)" "r = bs'"
      by (simp_all add: bs parse_asn1_tag_Cons)
    then show ?thesis
      using octet n make_tag_parts [OF c, of "unat b mod 32"] by (simp add: bs der_tag_def del: of_nat_add of_nat_mult)
  qed
qed

section \<open>Length octets and elements\<close>

text \<open>Lengths below 128 take one octet; larger ones a count of octets and the minimal big-endian number.\<close>

definition length_octets :: "nat \<Rightarrow> nat" where
  "length_octets n = (if n < 2 ^ 8 then 1 else if n < 2 ^ 16 then 2 else if n < 2 ^ 24 then 3 else 4)"

definition der_length :: "nat \<Rightarrow> byte list" where
  "der_length n =
     (if n < 128 then [word_of_nat n]
      else word_of_nat (128 + length_octets n) # be_bytes (length_octets n) n)"

definition der_element :: "u32 \<Rightarrow> byte list \<Rightarrow> byte list" where
  "der_element tag contents = der_tag tag @ der_length (length contents) @ contents"

definition der_header_len :: "u32 \<Rightarrow> nat \<Rightarrow> nat" where
  "der_header_len tag n = length (der_tag tag) + length (der_length n)"

lemma length_octets_range: "1 \<le> length_octets n" "length_octets n \<le> 4"
  by (simp_all add: length_octets_def)

lemma length_octets_iff:
  assumes "n < 2 ^ 32" "1 \<le> k" "k \<le> 4"
  shows "k = length_octets n \<longleftrightarrow> n < 256 ^ k \<and> (k = 1 \<or> 256 ^ (k - 1) \<le> n)"
proof -
  have "k = 1 \<or> k = 2 \<or> k = 3 \<or> k = 4" using assms by linarith
  then show ?thesis using assms(1) by (auto simp: length_octets_def)
qed

lemma CBS_get_bytes_eq:
  "CBS_get_bytes n cbs = (if length cbs < n then (None, cbs) else (Some (take n cbs), drop n cbs))"
  by (simp add: CBS_get_bytes_def cbs_get_def CBS_init_def)

lemma cbs_get_u_eq:
  "cbs_get_u n cbs = (if length cbs < n then (None, cbs) else (Some (u64_of_be (take n cbs)), drop n cbs))"
  by (simp add: cbs_get_u_def cbs_get_def)

text \<open>What the length octets after the tag say: the number of contents octets and the octets used.\<close>

definition read_length :: "byte list \<Rightarrow> (nat \<times> nat) option" where
  "read_length h =
     (case h of [] \<Rightarrow> None | b # h' \<Rightarrow>
        if unat b < 128 then Some (unat b, 1)
        else let k = unat b - 128 in
          if 1 \<le> k \<and> k \<le> 4 \<and> k \<le> length h' \<and> 128 \<le> be_nat (take k h')
            \<and> (k = 1 \<or> 256 ^ (k - 1) \<le> be_nat (take k h'))
          then Some (be_nat (take k h'), 1 + k) else None)"

lemma be_nat_take_bound: "be_nat (take k h) < 256 ^ k"
proof -
  have "be_nat (take k h) < 256 ^ length (take k h)" by (rule be_nat_bound)
  also have "\<dots> \<le> 256 ^ k" by (rule power_increasing) simp_all
  finally show ?thesis .
qed

lemma read_length_der_length:
  "n < 2 ^ 32 \<Longrightarrow> read_length (der_length n @ r) = Some (n, length (der_length n))"
proof (cases "n < 128")
  case False
  assume n: "n < 2 ^ 32"
  let ?k = "length_octets n"
  have "n < 256 ^ ?k" "?k = 1 \<or> 256 ^ (?k - 1) \<le> n"
    using length_octets_iff [OF n length_octets_range] by auto
  moreover have "unat (word_of_nat (128 + ?k) :: byte) = 128 + ?k"
    using length_octets_range [of n] by (simp add: unat_of_nat del: of_nat_add)
  ultimately show ?thesis using False length_octets_range [of n]
    by (simp add: read_length_def der_length_def Let_def del: of_nat_add)
qed (simp add: read_length_def der_length_def unat_of_nat)

lemma read_length_canonical:
  assumes "read_length h = Some (n, m)"
  shows "n < 2 ^ 32 \<and> m = length (der_length n) \<and> take m h = der_length n \<and> m \<le> length h"
proof -
  from assms obtain b h' where h: "h = b # h'" by (cases h) (auto simp: read_length_def)
  show ?thesis
  proof (cases "unat b < 128")
    case True
    with assms show ?thesis by (auto simp: h read_length_def der_length_def)
  next
    case False
    define k where "k = unat b - 128"
    from assms False have k: "1 \<le> k" "k \<le> 4" "k \<le> length h'" "128 \<le> n" "m = 1 + k"
      and n: "n = be_nat (take k h')" "k = 1 \<or> 256 ^ (k - 1) \<le> n"
      by (auto simp: h read_length_def Let_def k_def split: if_splits)
    have "n < 256 ^ k" unfolding n(1) by (rule be_nat_take_bound)
    moreover have "(256::nat) ^ k \<le> 256 ^ 4" using k(2) by (intro power_increasing) simp_all
    ultimately have small: "n < 2 ^ 32" by simp
    have oct: "k = length_octets n"
      using length_octets_iff [OF small k(1,2)] n(2) \<open>n < 256 ^ k\<close> by blast
    have "b = word_of_nat (128 + k)"
      using False by (intro word_eq_of_nat) (simp add: k_def)
    moreover have "be_bytes k n = take k h'" unfolding n(1) using k(3) by (intro be_bytes_nat) simp
    ultimately have "der_length n = b # take k h'"
      using k(4) by (simp only: der_length_def oct [symmetric]) simp
    with k small h show ?thesis by simp
  qed
qed

lemma length_cont128: "n < 128 ^ k \<Longrightarrow> length (cont128 n) \<le> k"
proof (induction n arbitrary: k rule: cont128.induct)
  case (1 n)
  show ?case
  proof (cases "n = 0")
    case False
    with "1.prems" obtain j where k: "k = Suc j" by (cases k) auto
    with "1.prems" have "n div 128 < 128 ^ j" by (simp add: less_mult_imp_div_less mult.commute)
    with 1 False k show ?thesis by (subst cont128.simps) simp
  qed simp
qed

lemma length_der_tag: "1 \<le> length (der_tag t)" "length (der_tag t) \<le> 6"
proof -
  have "tag_number t div 128 < 128 ^ 4" using tag_number_less [of t] by simp
  then show "1 \<le> length (der_tag t)" "length (der_tag t) \<le> 6"
    using length_cont128 [of "tag_number t div 128" 4] by (auto simp: der_tag_def der_base128_def)
qed

lemma length_der_length: "1 \<le> length (der_length n)" "length (der_length n) \<le> 5"
  using length_octets_range [of n] by (auto simp: der_length_def)

text \<open>
  The decision tree of \<^verbatim>\<open>cbs_get_any_asn1_element\<close> in terms of \<open>read_length\<close>: everything the
  code computes on words is what the octets say as numbers.
\<close>

definition indefinite :: "bool \<Rightarrow> u32 \<Rightarrow> byte list \<Rightarrow> bool" where
  "indefinite ber_ok tag h \<longleftrightarrow> ber_ok \<and> tag AND CBS_ASN1_CONSTRUCTED \<noteq> 0 \<and> h \<noteq> [] \<and> hd h = 0x80"

definition take_element :: "u32 \<Rightarrow> size_t \<Rightarrow> size_t \<Rightarrow> cbs \<Rightarrow> (cbs \<times> u32 \<times> size_t) option \<times> cbs" where
  "take_element tag hl n cbs =
     (if length cbs < hl + n then (None, cbs)
      else (Some (take (hl + n) cbs, tag, hl), drop (hl + n) cbs))"

lemma length_word_checks:
  assumes "length bs = k" "1 \<le> k" "k \<le> 4"
  shows "u64_of_be bs < 128 \<longleftrightarrow> be_nat bs < 128"
    and "drop_bit ((k - 1) * 8) (u64_of_be bs) = 0 \<longleftrightarrow> be_nat bs < 256 ^ (k - 1)"
    and "unat (u64_of_be bs) = be_nat bs"
proof -
  show u: "unat (u64_of_be bs) = be_nat bs" using assms by (intro u64_of_be_unat) simp
  show "u64_of_be bs < 128 \<longleftrightarrow> be_nat bs < 128" by (simp add: word_less_nat_alt u)
  have "(2::nat) ^ ((k - 1) * 8) = 256 ^ (k - 1)"
    by (subst mult.commute) (simp add: power_mult)
  then show "drop_bit ((k - 1) * 8) (u64_of_be bs) = 0 \<longleftrightarrow> be_nat bs < 256 ^ (k - 1)"
    by (simp add: drop_bit_zero_iff u)
qed

lemma get_any_asn1_element_eq:
  "cbs_get_any_asn1_element ber_ok cbs =
     (case parse_asn1_tag cbs of (None, _) \<Rightarrow> (None, cbs) | (Some tag, h) \<Rightarrow>
        if indefinite ber_ok tag h then take_element tag (length (der_tag tag) + 1) 0 cbs
        else (case read_length h of None \<Rightarrow> (None, cbs)
              | Some (n, m) \<Rightarrow> take_element tag (length (der_tag tag) + m) n cbs))"
proof (cases "parse_asn1_tag cbs")
  case (Pair t h)
  show ?thesis
  proof (cases t)
      case (Some tag)
    note parse = Pair [unfolded Some]
    have cbs: "cbs = der_tag tag @ h" using tag.enc_dec [OF parse] by simp
    show ?thesis
    proof (cases h)
      case (Cons b r)
      have hl: "length cbs - length r = length (der_tag tag) + 1" by (simp add: cbs Cons)
      show ?thesis
      proof (cases "unat b < 128")
        case True
        then have "b \<noteq> 0x80" by auto
        with True hl show ?thesis
          by (simp add: cbs_get_any_asn1_element_def parse Cons byte_high_clear CBS_get_bytes_eq
              take_element_def indefinite_def read_length_def Let_def ac_simps)
      next
        case False
        define k where "k = unat b - 128"
        have b7: "unat (b AND 0x7f) = k"
          using byte_high_set [OF False] by (simp add: k_def unat_and_7f)
        have k0: "b = 0x80 \<longleftrightarrow> k = 0" using False by (auto simp: k_def word_unat_eq_iff)
        show ?thesis
        proof (cases "1 \<le> k \<and> k \<le> 4 \<and> k \<le> length r")
          case True
          note checks = length_word_checks [of "take k r" k]
          have small: "be_nat (take k r) < 2 ^ 32"
            using be_nat_take_bound [of k r] power_increasing [of k 4 "256::nat"] True by simp
          have wrap: "size_wrap (be_nat (take k r) + (length (der_tag tag) + 1) + k) =
              be_nat (take k r) + (length (der_tag tag) + 1) + k"
            using small True length_der_tag(2) [of tag] by (intro size_wrap_small) simp
          show ?thesis
            using True False hl k0 checks wrap
            by (simp add: cbs_get_any_asn1_element_def parse Cons byte_high_clear b7 Let_def
                cbs_get_u_eq CBS_get_bytes_eq take_element_def indefinite_def read_length_def
                k_def [symmetric] not_less [symmetric] ac_simps)
        next
          case no: False
          with False hl k0 show ?thesis
            by (auto simp: cbs_get_any_asn1_element_def parse Cons byte_high_clear b7 Let_def
                cbs_get_u_eq CBS_get_bytes_eq take_element_def indefinite_def read_length_def
                k_def [symmetric])
        qed
      qed
    qed (simp add: cbs_get_any_asn1_element_def parse indefinite_def read_length_def)
  qed (simp add: cbs_get_any_asn1_element_def Pair)
qed

text \<open>
  The elements the readers accept. With \<open>ber_ok = False\<close> these are the DER elements with
  contents shorter than \<open>2 ^ 32\<close> octets; with \<open>ber_ok = True\<close> also the header of an
  indefinite-length constructed element, on its own.
\<close>

lemma take_element_Some:
  "take_element tag hl n cbs = (Some (out, tag', hl'), r) \<longleftrightarrow>
   tag' = tag \<and> hl' = hl \<and> cbs = out @ r \<and> length out = hl + n"
  by (auto simp: take_element_def append_eq_conv_conj)

lemma der_element_length [simp]:
  "length (der_element tag c) = der_header_len tag (length c) + length c"
  by (simp add: der_element_def der_header_len_def)

lemma not_indefinite: "\<not> indefinite ber tag (der_length n @ r)"
proof (cases "n < 128")
  case True
  have "unat (word_of_nat n :: byte) \<noteq> unat (0x80 :: byte)" using True by (simp add: unat_of_nat)
  then have "word_of_nat n \<noteq> (0x80 :: byte)" by metis
  with True show ?thesis by (simp add: indefinite_def der_length_def)
next
  case False
  have "unat (word_of_nat (128 + length_octets n) :: byte) \<noteq> unat (0x80 :: byte)"
    using length_octets_range [of n] by (simp add: unat_of_nat del: of_nat_add)
  then have "word_of_nat (128 + length_octets n) \<noteq> (0x80 :: byte)" by metis
  with False show ?thesis by (simp add: indefinite_def der_length_def del: of_nat_add)
qed

lemma get_any_asn1_element_iff:
  "cbs_get_any_asn1_element ber_ok cbs = (Some (out, tag, hl), r) \<longleftrightarrow>
     cbs = out @ r \<and>
     ((\<exists>c. length c < 2 ^ 32 \<and> out = der_element tag c \<and> hl = der_header_len tag (length c)) \<or>
      (ber_ok \<and> tag AND CBS_ASN1_CONSTRUCTED \<noteq> 0 \<and> out = der_tag tag @ [0x80] \<and> hl = length out))"
    (is "?L \<longleftrightarrow> ?R")
proof
  assume ?L
  then obtain h where p: "parse_asn1_tag cbs = (Some tag, h)"
    and e: "if indefinite ber_ok tag h
      then take_element tag (length (der_tag tag) + 1) 0 cbs = (Some (out, tag, hl), r)
      else \<exists>n m. read_length h = Some (n, m) \<and>
        take_element tag (length (der_tag tag) + m) n cbs = (Some (out, tag, hl), r)"
    by (auto simp: get_any_asn1_element_eq take_element_Some split: prod.splits option.splits if_splits)
  have cbs: "cbs = der_tag tag @ h" using tag.enc_dec [OF p] by simp
  show ?R
  proof (cases "indefinite ber_ok tag h")
    case True
    then obtain h' where "h = 0x80 # h'" by (cases h) (auto simp: indefinite_def)
    moreover from e True have t: "hl = length (der_tag tag) + 1" "cbs = out @ r" "length out = hl"
      by (simp_all add: take_element_Some)
    moreover have "out = take hl cbs" using t by simp
    ultimately have "out = der_tag tag @ [0x80]" by (simp add: cbs)
    with True t show ?thesis by (simp add: indefinite_def)
  next
    case False
    with e obtain n m where l: "read_length h = Some (n, m)"
      and t: "hl = length (der_tag tag) + m" "cbs = out @ r" "length out = hl + n"
      by (auto simp: take_element_Some)
    note c = read_length_canonical [OF l]
    define c' where "c' = take n (drop m h)"
    have "out = take (hl + n) cbs" using t by simp
    also have "\<dots> = der_tag tag @ take (m + n) h" by (simp add: cbs t(1))
    also have "take (m + n) h = take m h @ c'" by (simp only: take_add c'_def)
    also have "take m h = der_length n" using c by blast
    finally have out: "out = der_tag tag @ der_length n @ c'" .
    with t c have "length c' = n" by simp
    with c t out show ?thesis
      by (auto simp: der_element_def der_header_len_def intro!: exI [of _ c'])
  qed
next
  assume ?R
  then consider (def) c where "cbs = out @ r" "length c < 2 ^ 32" "out = der_element tag c"
      "hl = der_header_len tag (length c)"
    | (indef) "cbs = out @ r" "ber_ok" "tag AND CBS_ASN1_CONSTRUCTED \<noteq> 0" "out = der_tag tag @ [0x80]"
      "hl = length out"
    by blast
  then show ?L
  proof cases
    case def
    have p: "parse_asn1_tag cbs = (Some tag, der_length (length c) @ c @ r)"
      using tag.dec_enc [of tag "der_length (length c) @ c @ r"] def by (simp add: der_element_def)
    show ?thesis
      unfolding get_any_asn1_element_eq p using def
      by (simp add: not_indefinite read_length_der_length take_element_Some der_header_len_def)
  next
    case indef
    have "parse_asn1_tag cbs = (Some tag, 0x80 # r)"
      using tag.dec_enc [of tag "0x80 # r"] indef by simp
    with indef show ?thesis
      by (simp add: get_any_asn1_element_eq indefinite_def take_element_Some)
  qed
qed

section \<open>Complete elements\<close>

lemma CBS_skip_eq: "CBS_skip n cbs = (if length cbs < n then (None, cbs) else (Some (), drop n cbs))"
  by (simp add: CBS_skip_def cbs_get_def)

lemma skip_on_eq: "skip_on out n r = (if length out < n then (None, r) else (Some (drop n out), r))"
  by (simp add: skip_on_def CBS_skip_eq)

lemma drop_header: "drop (der_header_len tag (length c)) (der_element tag c) = c"
  by (simp add: der_header_len_def der_element_def)

lemma get_any_asn1_element_DER:
  "length c < 2 ^ 32 \<Longrightarrow>
   cbs_get_any_asn1_element False (der_element tag c @ r) =
     (Some (der_element tag c, tag, der_header_len tag (length c)), r)"
  by (simp add: get_any_asn1_element_iff) blast

lemma CBS_get_any_asn1_iff:
  "CBS_get_any_asn1 cbs = (Some (c, tag), r) \<longleftrightarrow> length c < 2 ^ 32 \<and> cbs = der_element tag c @ r"
  (is "?L \<longleftrightarrow> ?R")
proof
  assume ?L
  then obtain out hl where "cbs_get_any_asn1_element False cbs = (Some (out, tag, hl), r)"
    and c: "c = drop hl out"
    by (auto simp: CBS_get_any_asn1_def CBS_get_any_asn1_element_def andthen_Some_iff skip_on_eq
        split: if_splits)
  then show ?R by (auto simp: get_any_asn1_element_iff drop_header)
next
  assume ?R
  then show ?L
    by (simp add: CBS_get_any_asn1_def CBS_get_any_asn1_element_def get_any_asn1_element_DER
        skip_on_eq drop_header)
qed

lemma CBS_get_asn1_iff:
  "CBS_get_asn1 tag cbs = (Some c, r) \<longleftrightarrow> length c < 2 ^ 32 \<and> cbs = der_element tag c @ r"
  (is "?L \<longleftrightarrow> ?R")
proof
  assume ?L
  then obtain out hl where "cbs_get_any_asn1_element False cbs = (Some (out, tag, hl), r)"
    and c: "c = drop hl out"
    by (auto simp: CBS_get_asn1_def cbs_get_asn1_def CBS_get_any_asn1_element_def andthen_Some_iff
        skip_on_eq split: if_splits)
  then show ?R by (auto simp: get_any_asn1_element_iff drop_header)
next
  assume ?R
  then show ?L
    by (simp add: CBS_get_asn1_def cbs_get_asn1_def CBS_get_any_asn1_element_def
        get_any_asn1_element_DER skip_on_eq drop_header)
qed

lemma CBS_get_asn1_DER:
  "length c < 2 ^ 32 \<Longrightarrow> CBS_get_asn1 tag (der_element tag c @ r) = (Some c, r)"
  by (simp add: CBS_get_asn1_iff)

interpretation elem: canonical_codec "\<lambda>(c, tag). der_element tag c" CBS_get_any_asn1
  "\<lambda>(c, tag). length c < 2 ^ 32"
  by unfold_locales (auto simp: CBS_get_any_asn1_iff)

lemma der_tag_nonempty [simp]: "der_tag t \<noteq> []"
  by (simp add: der_tag_def)

lemma peek_der_tag: "CBS_peek_asn1_tag t (der_tag t' @ r) \<longleftrightarrow> t = t'"
proof -
  have "\<not> length (der_tag t' @ r) < 1" by (simp add: Suc_le_eq not_less)
  then show ?thesis by (simp only: CBS_peek_asn1_tag_def tag.dec_enc) simp
qed

section \<open>Properties\<close>

text \<open>
  C11. \<^verbatim>\<open>CBS_get_any_asn1\<close> accepts exactly the DER elements with fewer than \<open>2 ^ 32\<close> contents octets: it
  returns the contents and the tag of the one element the input starts with, leaves the rest, and
  rejects every input that does not start with a canonically encoded element.
\<close>

theorem CBS_get_any_asn1_exactly_DER:
  "CBS_get_any_asn1 bs = (Some (c, t), r) \<longleftrightarrow> length c < 4294967296 \<and> bs = der_element t c @ r"
  by (simp add: CBS_get_any_asn1_iff)

text \<open>
  The identifier octets: \<^verbatim>\<open>parse_asn1_tag\<close> inverts the encoding of all tags, low and high form, and
  accepts no other octets for a tag, so two inputs with the same tag start with the same octets.
\<close>

theorem parse_asn1_tag_canonical:
  "parse_asn1_tag bs = (Some t, r) \<longleftrightarrow> bs = der_tag t @ r"
  using tag.dec_iff by simp

text \<open>
  C18. What \<^verbatim>\<open>CBS_get_asn1\<close> reads does not depend on the bytes behind the element: appending to an
  accepted input only appends to the rest.
\<close>

theorem CBS_get_asn1_frame:
  assumes "CBS_get_asn1 t bs = (Some c, r)"
  shows "CBS_get_asn1 t (bs @ x) = (Some c, r @ x)"
  using assms by (auto simp: CBS_get_asn1_iff)

theorem CBS_get_asn1_frame_witness:
  "CBS_get_asn1 4 ([4, 1, 7] @ [5]) = (Some [7], [] @ [5])"
proof -
  have "der_element 4 [7] = [4, 1, 7]"
    by (simp add: der_element_def der_tag_def tag_number_def tag_class_def der_length_def)
  then have "CBS_get_asn1 4 [4, 1, 7] = (Some [7], [])" by (simp add: CBS_get_asn1_iff)
  then show ?thesis by (rule CBS_get_asn1_frame)
qed

end
