(* ===== verification/Der_Int.thy ===== *)
theory Der_Int
  imports Der
begin

text \<open>
  The contents octets of ASN.1 \<^verbatim>\<open>INTEGER\<close> and \<^verbatim>\<open>BOOLEAN\<close>: the minimal two's complement
  encodings, and the proof that the readers of \<^verbatim>\<open>cbs.c\<close> accept them and nothing else.
\<close>

section \<open>Unsigned integers\<close>

fun uint_octets :: "nat \<Rightarrow> nat" where
  "uint_octets n = (if n < 128 then 1 else Suc (uint_octets (n div 256)))"

declare uint_octets.simps [simp del]

definition der_uint :: "nat \<Rightarrow> byte list" where
  "der_uint n = be_bytes (uint_octets n) n"

lemma uint_octets_pos: "1 \<le> uint_octets n"
  by (subst uint_octets.simps) simp

lemma uint_octets_iff:
  "1 \<le> k \<Longrightarrow> k = uint_octets n \<longleftrightarrow> n < 128 * 256 ^ (k - 1) \<and> (k = 1 \<or> 128 * 256 ^ (k - 2) \<le> n)"
proof (induction n arbitrary: k rule: uint_octets.induct)
  case (1 n)
  show ?case
  proof (cases "n < 128")
    case True
    have "(128::nat) \<le> 128 * 256 ^ (k - 2)" by simp
    with True have "\<not> 128 * 256 ^ (k - 2) \<le> n" by linarith
    moreover have "uint_octets n = 1" using True by (subst uint_octets.simps) simp
    ultimately show ?thesis using True by (cases "k = 1") simp_all
  next
    case False
    show ?thesis
    proof (cases "k \<le> 1")
      case True
      with False 1 show ?thesis using uint_octets_pos [of "n div 256"]
        by (subst uint_octets.simps) auto
    next
      case k1: False
      then obtain j where k: "k = Suc (Suc j)" using not0_implies_Suc [of k] not0_implies_Suc [of "k - 1"] by auto
      have "k = uint_octets n \<longleftrightarrow> Suc j = uint_octets (n div 256)"
        using False by (subst uint_octets.simps) (simp add: k)
      also have "\<dots> \<longleftrightarrow> n div 256 < 128 * 256 ^ j \<and> (j = 0 \<or> 128 * 256 ^ (j - 1) \<le> n div 256)"
        using "1.IH" [OF False, of "Suc j"] by simp
      also have "n div 256 < 128 * 256 ^ j \<longleftrightarrow> n < 128 * 256 ^ (k - 1)"
        by (simp add: k div_less_iff_less_mult mult.assoc mult.commute)
      also have "j = 0 \<or> 128 * 256 ^ (j - 1) \<le> n div 256 \<longleftrightarrow> k = 1 \<or> 128 * 256 ^ (k - 2) \<le> n"
        using False by (cases j) (simp_all add: k less_eq_div_iff_mult_less_eq mult.assoc mult.commute)
      finally show ?thesis .
    qed
  qed
qed

text \<open>The checks the readers make before they accumulate the value.\<close>

definition minimal_uint :: "byte list \<Rightarrow> bool" where
  "minimal_uint bs \<longleftrightarrow> bs \<noteq> [] \<and> unat (bs ! 0) < 128 \<and>
     \<not> (bs ! 0 = 0 \<and> length bs > 1 \<and> unat (bs ! 1) < 128)"

lemma be_nat_sign: "be_nat (b # c) < 128 * 256 ^ length c \<longleftrightarrow> unat b < 128"
proof -
  have c: "be_nat c < 256 ^ length c" by (rule be_nat_bound)
  show ?thesis
  proof
    assume "unat b < 128"
    then have "(unat b + 1) * 256 ^ length c \<le> 128 * 256 ^ length c" by (intro mult_le_mono1) simp
    then have "unat b * 256 ^ length c + 256 ^ length c \<le> 128 * 256 ^ length c"
      by (simp only: add_mult_distrib mult_1)
    with c show "be_nat (b # c) < 128 * 256 ^ length c" unfolding be_nat_Cons by linarith
  next
    assume "be_nat (b # c) < 128 * 256 ^ length c"
    then have "unat b * 256 ^ length c < 128 * 256 ^ length c"
      unfolding be_nat_Cons by linarith
    then show "unat b < 128" by simp
  qed
qed

lemma be_nat_leading:
  "128 * 256 ^ length c \<le> be_nat (a # b # c) \<longleftrightarrow> \<not> (a = 0 \<and> unat b < 128)"
proof (cases "a = 0")
  case True
  then show ?thesis using be_nat_sign [of b c]
    by (simp add: be_nat_Cons) (metis linorder_not_less)
next
  case False
  then have "1 \<le> unat a" by (simp add: Suc_le_eq unat_gt_0)
  then have "1 * 256 ^ Suc (length c) \<le> unat a * 256 ^ Suc (length c)" by (intro mult_le_mono1)
  moreover have "128 * 256 ^ length c \<le> (256::nat) ^ Suc (length c)" by simp
  ultimately have "128 * 256 ^ length c \<le> be_nat (a # b # c)"
    unfolding be_nat_Cons [of a "b # c"] length_Cons by linarith
  then show ?thesis using False by simp
qed

lemma minimal_uint_iff: "minimal_uint bs \<longleftrightarrow> bs = der_uint (be_nat bs)"
proof (cases bs)
  case Nil
  then show ?thesis
    using uint_octets_pos [of 0] by (auto simp: minimal_uint_def der_uint_def dest!: arg_cong [where f = length])
next
  case (Cons a bs')
  have bytes: "be_bytes (length bs) (be_nat bs) = bs" by (rule be_bytes_nat) simp
  have "bs = der_uint (be_nat bs) \<longleftrightarrow> length bs = uint_octets (be_nat bs)"
    using bytes by (metis der_uint_def length_be_bytes)
  also have "\<dots> \<longleftrightarrow> minimal_uint bs"
  proof (cases bs')
    case Nil
    then show ?thesis
      using be_nat_sign [of a "[]"] by (subst uint_octets_iff) (simp_all add: Cons minimal_uint_def)
  next
    case c: (Cons b c)
    show ?thesis
      using be_nat_sign [of a bs'] be_nat_leading [of c a b]
      by (subst uint_octets_iff) (simp_all add: Cons c minimal_uint_def)
  qed
  finally show ?thesis by simp
qed

lemma be_nat_der_uint [simp]: "be_nat (der_uint n) = n"
proof -
  have "n < 128 * 256 ^ (uint_octets n - 1)"
    using uint_octets_iff [of "uint_octets n" n] uint_octets_pos by blast
  also have "\<dots> \<le> 256 ^ uint_octets n"
    using uint_octets_pos [of n] by (cases "uint_octets n") simp_all
  finally show ?thesis by (simp add: der_uint_def)
qed

lemma minimal_der_uint: "minimal_uint (der_uint n)"
  by (simp add: minimal_uint_iff)

lemma asn1_uint64_loop_eq:
  "asn1_uint64_loop v bs =
     (if unat v * 256 ^ length bs + be_nat bs < 2 ^ 64
      then Some (word_of_nat (unat v * 256 ^ length bs + be_nat bs)) else None)"
proof (induction bs arbitrary: v)
  case Nil
  then show ?case using unsigned_less [of v, where 'a = nat] by simp
next
  case (Cons b bs)
  let ?t = "unat v * 256 ^ length (b # bs) + be_nat (b # bs)"
  show ?case
  proof (cases "unat v < 2 ^ 56")
    case True
    then have "unat (push_bit 8 v OR ucast b) = unat v * 256 + unat b" by (rule byte_step)
    then have "unat (push_bit 8 v OR ucast b) * 256 ^ length bs + be_nat bs = ?t"
      by (simp add: be_nat_Cons algebra_simps)
    moreover have "asn1_uint64_loop v (b # bs) = asn1_uint64_loop (push_bit 8 v OR ucast b) bs"
      using True by (simp add: drop_bit_zero_iff)
    ultimately show ?thesis by (simp only: Cons.IH)
  next
    case False
    then have "2 ^ 56 * 256 \<le> unat v * 256 ^ length (b # bs)"
      by (intro mult_le_mono) simp_all
    then have "\<not> ?t < 2 ^ 64" by simp
    moreover have "asn1_uint64_loop v (b # bs) = None"
      using False by (simp add: drop_bit_zero_iff)
    ultimately show ?thesis by (simp only: if_False)
  qed
qed

lemma asn1_uint64_contents_iff:
  "asn1_uint64_contents bs = Some v \<longleftrightarrow> bs = der_uint (unat v)"
proof -
  have "asn1_uint64_contents bs =
    (if minimal_uint bs \<and> be_nat bs < 2 ^ 64 then Some (word_of_nat (be_nat bs)) else None)"
    by (auto simp: asn1_uint64_contents_def minimal_uint_def byte_high_clear asn1_uint64_loop_eq)
  moreover have "unat v < 2 ^ 64" using unsigned_less [of v, where 'a = nat] by simp
  ultimately show ?thesis
    by (auto simp: minimal_uint_iff unat_of_nat)
qed

section \<open>Readers of complete values\<close>

lemma length_der_uint_u64: "length (der_uint (unat (v :: u64))) \<le> 9"
proof (rule ccontr)
  define n where "n = unat v"
  assume "\<not> length (der_uint (unat v)) \<le> 9"
  then have k: "10 \<le> uint_octets n" by (simp add: der_uint_def n_def)
  then have "128 * 256 ^ (uint_octets n - 2) \<le> n"
    using uint_octets_iff [of "uint_octets n" n] by auto
  moreover have "(256::nat) ^ 8 \<le> 256 ^ (uint_octets n - 2)"
    using k by (intro power_increasing) simp_all
  moreover have "n < 2 ^ 64" using unsigned_less [of v, where 'a = nat] by (simp add: n_def)
  ultimately show False by simp
qed

lemma CBS_get_asn1_uint64_iff:
  "CBS_get_asn1_uint64 cbs = (Some v, r) \<longleftrightarrow>
   cbs = der_element CBS_ASN1_INTEGER (der_uint (unat v)) @ r"
proof -
  have "length (der_uint (unat v)) < 2 ^ 32" using length_der_uint_u64 [of v] by simp
  then show ?thesis
    by (auto simp: CBS_get_asn1_uint64_def andthen_Some_iff CBS_get_asn1_iff asn1_uint64_contents_iff)
qed

interpretation uint64: canonical_codec
  "\<lambda>v :: u64. der_element CBS_ASN1_INTEGER (der_uint (unat v))" CBS_get_asn1_uint64 "\<lambda>_. True"
  by unfold_locales (auto simp: CBS_get_asn1_uint64_iff)

definition der_bool :: "bool \<Rightarrow> byte list" where
  "der_bool v = [if v then 0xff else 0]"

lemma CBS_get_asn1_bool_iff:
  "CBS_get_asn1_bool cbs = (Some v, r) \<longleftrightarrow> cbs = der_element CBS_ASN1_BOOLEAN (der_bool v) @ r"
proof
  assume "CBS_get_asn1_bool cbs = (Some v, r)"
  then show "cbs = der_element CBS_ASN1_BOOLEAN (der_bool v) @ r"
    by (auto simp: CBS_get_asn1_bool_def andthen_Some_iff CBS_get_asn1_iff der_bool_def Let_def
        length_Suc_conv split: if_splits)
next
  assume "cbs = der_element CBS_ASN1_BOOLEAN (der_bool v) @ r"
  then show "CBS_get_asn1_bool cbs = (Some v, r)"
    by (simp add: CBS_get_asn1_bool_def der_bool_def CBS_get_asn1_DER)
qed

interpretation boolean: canonical_codec
  "\<lambda>v. der_element CBS_ASN1_BOOLEAN (der_bool v)" CBS_get_asn1_bool "\<lambda>_. True"
  by unfold_locales (auto simp: CBS_get_asn1_bool_iff)

text \<open>Signed integers: the octets are the low octets of the little-endian value, reversed.\<close>

lemma asn1_int64_contents_sign_extended:
  assumes "1 \<le> n" "n \<le> 8"
    and ext: "drop n (le_bytes 8 (unat w)) = replicate (8 - n) (if neg then 0xff else 0)"
    and sign: "128 \<le> unat (le_bytes 8 (unat w) ! (n - 1)) \<longleftrightarrow> neg"
    and min: "n = 1 \<or> \<not> (le_bytes 8 (unat w) ! (n - 1) = (if neg then 0xff else 0) \<and>
                (128 \<le> unat (le_bytes 8 (unat w) ! (n - 2)) \<longleftrightarrow> neg))"
  shows "asn1_int64_contents (rev (take n (le_bytes 8 (unat w)))) = Some w"
proof -
  define l where "l = le_bytes 8 (unat w)"
  have len: "length l = 8" by (simp add: l_def)
  define bs where "bs = rev (take n l)"
  have bs: "length bs = n" "bs ! 0 = l ! (n - 1)" "n > 1 \<Longrightarrow> bs ! 1 = l ! (n - 2)"
    using assms(1,2) len by (simp_all add: bs_def rev_nth numeral_2_eq_2)
  have val: "rev bs @ replicate (8 - n) (if neg then 0xff else 0) = l"
    using ext by (simp add: bs_def l_def flip: ext)
  have le: "le_nat l = unat w"
    using unsigned_less [of w, where 'a = nat] by (simp add: l_def)
  have neg: "bs ! 0 AND 0x80 \<noteq> 0 \<longleftrightarrow> neg"
    using sign bs(2) by (simp add: byte_high_clear l_def not_less)
  have guards: "\<not> (length bs > 1 \<and> bs ! 0 = 0 \<and> bs ! 1 AND 0x80 = 0)"
    "\<not> (length bs > 1 \<and> bs ! 0 = 0xff \<and> bs ! 1 AND 0x80 \<noteq> 0)"
    "\<not> (length bs = 0 \<or> length bs > 8)"
    using min sign bs assms(1,2)
    by (cases "n = 1"; auto simp: byte_high_clear l_def not_less split: if_splits)+
  have "asn1_int64_contents bs =
      Some (word_of_nat (le_nat (rev bs @ replicate (8 - n) (if neg then 0xff else 0))))"
    using guards unfolding asn1_int64_contents_def Let_def neg bs(1) by (simp only: if_False if_cancel simp_thms)
  then show ?thesis by (simp add: val le) (simp add: bs_def l_def)
qed

section \<open>Properties\<close>

text \<open>
  C17. \<^verbatim>\<open>CBS_get_asn1_uint64\<close> accepts exactly the minimal, non-negative \<^verbatim>\<open>INTEGER\<close> that fits 64 bits:
  negative, padded and too large values are all rejected.
\<close>

theorem CBS_get_asn1_uint64_canonical:
  "CBS_get_asn1_uint64 bs = (Some v, r) \<longleftrightarrow> bs = der_element 2 (der_uint (unat v)) @ r"
  by (rule CBS_get_asn1_uint64_iff)

text \<open>
  \<^verbatim>\<open>CBS_get_asn1_bool\<close> accepts exactly the two DER encodings \<^verbatim>\<open>01 01 00\<close> and \<^verbatim>\<open>01 01 FF\<close>.
\<close>

theorem CBS_get_asn1_bool_canonical:
  "CBS_get_asn1_bool bs = (Some v, r) \<longleftrightarrow> bs = [1, 1, if v then 0xff else 0] @ r"
proof -
  have "der_element 1 (der_bool v) = [1, 1, if v then 0xff else 0]"
    by (simp add: der_element_def der_tag_def tag_number_def tag_class_def der_length_def der_bool_def)
  then show ?thesis by (simp only: CBS_get_asn1_bool_iff)
qed

end
