(* ===== verification/Cbb.thy ===== *)
theory Cbb
  imports JS_Prelude Mem Cbs
begin

text \<open>
  Model of the writer half of \<^verbatim>\<open>crypto/bytestring\<close>: \<^verbatim>\<open>cbb.c\<close>. A top-level \<^verbatim>\<open>CBB\<close> and the chain
  of children opened from it share one \<^verbatim>\<open>cbb_buffer_st\<close>. The state is that buffer (\<open>None\<close> once
  \<^verbatim>\<open>base\<close> is \<^verbatim>\<open>NULL\<close>) and the open children, outermost first. A \<^verbatim>\<open>CBB *\<close> argument is its depth \<open>d\<close>
  in the chain: 0 is the top-level object, \<open>d\<close> the \<open>d\<close>th open child. A child whose prefix has been
  written out has \<^verbatim>\<open>base == NULL\<close>; its depth is beyond the chain, and every call on it fails.
\<close>

section \<open>The buffer\<close>

record cbb_buffer =
  cb_buf :: "byte list"
  cb_len :: size_t
  cb_cap :: size_t
  cb_can_resize :: bool
  cb_error :: bool

record cbb_child =
  child_offset :: size_t
  pending_len_len :: size_t
  pending_is_asn1 :: bool

record cbb =
  cbb_base :: "cbb_buffer option"
  cbb_chain :: "cbb_child list"

text \<open>The descending big-endian store loop.\<close>

fun store_be :: "nat \<Rightarrow> nat \<Rightarrow> nat \<Rightarrow> byte list \<Rightarrow> byte list \<times> nat" where
  "store_be 0 off v mem = (mem, v)"
| "store_be (Suc i) off v mem = store_be i off (v div 256) (mem[off + i := word_of_nat v])"

definition cbb_buffer_reserve :: "allocator \<Rightarrow> size_t \<Rightarrow> cbb_buffer \<Rightarrow> size_t option \<times> cbb_buffer" where
  "cbb_buffer_reserve A len b =
     (let newlen = size_wrap (cb_len b + len) in
      if newlen < cb_len b then (None, b\<lparr>cb_error := True\<rparr>)
      else if newlen > cb_cap b then
        (let doubled = size_wrap (cb_cap b * 2) in
         if \<not> cb_can_resize b then (None, b\<lparr>cb_error := True\<rparr>)
         else
           let newcap = (if doubled < cb_cap b \<or> doubled < newlen then newlen else doubled) in
           case realloc_body A (cb_buf b) newcap of
             None \<Rightarrow> (None, b\<lparr>cb_error := True\<rparr>)
           | Some newbuf \<Rightarrow> (Some (cb_len b), b\<lparr>cb_buf := newbuf, cb_cap := newcap\<rparr>))
      else (Some (cb_len b), b))"

definition cbb_buffer_add :: "allocator \<Rightarrow> size_t \<Rightarrow> cbb_buffer \<Rightarrow> size_t option \<times> cbb_buffer" where
  "cbb_buffer_add A len b =
     andthen (cbb_buffer_reserve A len b)
       (\<lambda>out b. (Some out, b\<lparr>cb_len := size_wrap (cb_len b + len)\<rparr>))"

definition cbb_buffer_add_u :: "allocator \<Rightarrow> nat \<Rightarrow> size_t \<Rightarrow> cbb_buffer \<Rightarrow> unit option \<times> cbb_buffer" where
  "cbb_buffer_add_u A v len_len b =
     (if len_len = 0 then (Some (), b)
      else andthen (cbb_buffer_add A len_len b) (\<lambda>out b.
        case store_be len_len out v (cb_buf b) of (mem, rest) \<Rightarrow>
          if rest \<noteq> 0 then (None, b\<lparr>cb_buf := mem, cb_error := True\<rparr>)
          else (Some (), b\<lparr>cb_buf := mem\<rparr>)))"

section \<open>Creation and destruction\<close>

definition cbb_init :: "allocator \<Rightarrow> byte list \<Rightarrow> size_t \<Rightarrow> cbb option" where
  "cbb_init A mem cap =
     (case OPENSSL_malloc A 32 of
        None \<Rightarrow> None
      | Some _ \<Rightarrow> Some \<lparr>cbb_base = Some \<lparr>cb_buf = mem, cb_len = 0, cb_cap = cap,
                                        cb_can_resize = True, cb_error = False\<rparr>,
                        cbb_chain = []\<rparr>)"

definition CBB_init :: "allocator \<Rightarrow> size_t \<Rightarrow> cbb option" where
  "CBB_init A initial_capacity =
     (case OPENSSL_malloc A initial_capacity of
        None \<Rightarrow> if initial_capacity > 0 then None else cbb_init A [] initial_capacity
      | Some blk \<Rightarrow> cbb_init A (blk_body blk) initial_capacity)"

definition CBB_init_fixed :: "allocator \<Rightarrow> byte list \<Rightarrow> size_t \<Rightarrow> cbb option" where
  "CBB_init_fixed A mem len =
     map_option (\<lambda>s. s\<lparr>cbb_base := map_option (cb_can_resize_update (\<lambda>_. False)) (cbb_base s)\<rparr>)
       (cbb_init A mem len)"

definition CBB_cleanup :: "cbb \<Rightarrow> cbb" where
  "CBB_cleanup s = s\<lparr>cbb_base := None\<rparr>"

section \<open>Flushing\<close>

text \<open>The ASN.1 length form chosen for \<open>len\<close> contents octets: total octets and the first one.\<close>

definition asn1_len_form :: "nat \<Rightarrow> nat \<times> byte" where
  "asn1_len_form len =
     (if len > 0xffffff then (5, 0x80 OR 4)
      else if len > 0xffff then (4, 0x80 OR 3)
      else if len > 0xff then (3, 0x80 OR 2)
      else if len > 0x7f then (2, 0x80 OR 1)
      else (1, word_of_nat len))"

text \<open>
  \<open>finish_child\<close> is the part of \<^verbatim>\<open>CBB_flush\<close> after the recursive call: it measures the contents
  of child \<open>c\<close>, makes room for a long ASN.1 length by moving the contents, and stores the prefix.
\<close>

definition finish_child :: "allocator \<Rightarrow> cbb_child \<Rightarrow> size_t \<Rightarrow> cbb_buffer \<Rightarrow> bool \<times> cbb_buffer" where
  "finish_child A c child_start b =
     (let len = cb_len b - child_start in
      if pending_is_asn1 c then
        (if len > 0xfffffffe then (False, b\<lparr>cb_error := True\<rparr>)
         else case asn1_len_form len of (len_len, initial_length_byte) \<Rightarrow>
           let extra_bytes = len_len - 1;
               moved = (if len_len \<noteq> 1 then
                  (case cbb_buffer_add A extra_bytes b of
                     (None, b) \<Rightarrow> (False, b\<lparr>cb_error := True\<rparr>)
                   | (Some _, b) \<Rightarrow>
                       (True, b\<lparr>cb_buf := poke (cb_buf b) (child_start + extra_bytes)
                                            (take len (drop child_start (cb_buf b)))\<rparr>))
                else (True, b))
           in case moved of
                (False, b) \<Rightarrow> (False, b)
              | (True, b) \<Rightarrow>
                  (let mem = (cb_buf b)[child_offset c := initial_length_byte];
                       rest = (if len_len = 1 then 0 else len) in
                   case store_be (len_len - 1) (child_offset c + 1) rest mem of (mem, rest) \<Rightarrow>
                     if rest \<noteq> 0 then (False, b\<lparr>cb_buf := mem, cb_error := True\<rparr>)
                     else (True, b\<lparr>cb_buf := mem\<rparr>)))
      else
        case store_be (pending_len_len c) (child_offset c) len (cb_buf b) of (mem, rest) \<Rightarrow>
          if rest \<noteq> 0 then (False, b\<lparr>cb_buf := mem, cb_error := True\<rparr>)
          else (True, b\<lparr>cb_buf := mem\<rparr>))"

text \<open>
  \<open>cbb_flush A b cs\<close> is \<^verbatim>\<open>CBB_flush\<close> on the object whose descendants are \<open>cs\<close>. It returns the
  C return value, the buffer and the descendants still open.
\<close>

fun cbb_flush :: "allocator \<Rightarrow> cbb_buffer \<Rightarrow> cbb_child list \<Rightarrow> bool \<times> cbb_buffer \<times> cbb_child list" where
  "cbb_flush A b [] = (if cb_error b then (False, b, []) else (True, b, []))"
| "cbb_flush A b (c # cs) =
     (if cb_error b then (False, b, c # cs)
      else if pending_len_len c = 0 then (True, b, c # cs)
      else
        let child_start = size_wrap (child_offset c + pending_len_len c) in
        case cbb_flush A b cs of (ok, b, cs) \<Rightarrow>
          if \<not> ok \<or> child_start < child_offset c \<or> cb_len b < child_start
          then (False, b\<lparr>cb_error := True\<rparr>, c # cs)
          else case finish_child A c child_start b of
                 (False, b) \<Rightarrow> (False, b\<lparr>cb_error := True\<rparr>, c # cs)
               | (True, b) \<Rightarrow> (True, b, []))"

definition CBB_flush :: "allocator \<Rightarrow> nat \<Rightarrow> cbb \<Rightarrow> unit option \<times> cbb" where
  "CBB_flush A d s =
     (case cbb_base s of
        None \<Rightarrow> (None, s)
      | Some b \<Rightarrow>
          if d > length (cbb_chain s) then (None, s)
          else case cbb_flush A b (drop d (cbb_chain s)) of (ok, b', cs) \<Rightarrow>
            (if ok then Some () else None,
             s\<lparr>cbb_base := Some b', cbb_chain := take d (cbb_chain s) @ cs\<rparr>))"

text \<open>A buffer operation as an operation on the object.\<close>

definition on_base :: "(cbb_buffer \<Rightarrow> 'a option \<times> cbb_buffer) \<Rightarrow> cbb \<Rightarrow> 'a option \<times> cbb" where
  "on_base f s =
     (case cbb_base s of
        None \<Rightarrow> (None, s)
      | Some b \<Rightarrow> (case f b of (r, b') \<Rightarrow> (r, s\<lparr>cbb_base := Some b'\<rparr>)))"

definition CBB_finish :: "allocator \<Rightarrow> bool \<Rightarrow> nat \<Rightarrow> cbb \<Rightarrow> (byte list \<times> size_t) option \<times> cbb" where
  "CBB_finish A have_outputs d s =
     (if d \<noteq> 0 then (None, s)
      else andthen (CBB_flush A d s) (\<lambda>_ s.
        case cbb_base s of
          None \<Rightarrow> (None, s)
        | Some b \<Rightarrow>
            if cb_can_resize b \<and> \<not> have_outputs then (None, s)
            else (Some (cb_buf b, cb_len b), CBB_cleanup s)))"

text \<open>\<^verbatim>\<open>CBB_data\<close> and \<^verbatim>\<open>CBB_len\<close> for the innermost object: where its contents start, and their length.\<close>

definition cbb_start :: "nat \<Rightarrow> cbb \<Rightarrow> size_t" where
  "cbb_start d s =
     (case d of 0 \<Rightarrow> 0
      | Suc i \<Rightarrow> child_offset (cbb_chain s ! i) + pending_len_len (cbb_chain s ! i))"

definition CBB_data :: "nat \<Rightarrow> cbb \<Rightarrow> byte list" where
  "CBB_data d s = (case cbb_base s of None \<Rightarrow> [] | Some b \<Rightarrow> drop (cbb_start d s) (cb_buf b))"

definition CBB_len :: "nat \<Rightarrow> cbb \<Rightarrow> size_t" where
  "CBB_len d s = (case cbb_base s of None \<Rightarrow> 0 | Some b \<Rightarrow> cb_len b - cbb_start d s)"

section \<open>Appending\<close>

definition CBB_add_bytes :: "allocator \<Rightarrow> byte list \<Rightarrow> nat \<Rightarrow> cbb \<Rightarrow> unit option \<times> cbb" where
  "CBB_add_bytes A bytes d s =
     andthen (CBB_flush A d s) (\<lambda>_.
       on_base (\<lambda>b. andthen (cbb_buffer_add A (length bytes) b) (\<lambda>dest b.
         (Some (), b\<lparr>cb_buf := poke (cb_buf b) dest bytes\<rparr>))))"

definition CBB_add_space :: "allocator \<Rightarrow> size_t \<Rightarrow> nat \<Rightarrow> cbb \<Rightarrow> size_t option \<times> cbb" where
  "CBB_add_space A len d s =
     andthen (CBB_flush A d s) (\<lambda>_. on_base (cbb_buffer_add A len))"

definition CBB_reserve :: "allocator \<Rightarrow> size_t \<Rightarrow> nat \<Rightarrow> cbb \<Rightarrow> size_t option \<times> cbb" where
  "CBB_reserve A len d s =
     andthen (CBB_flush A d s) (\<lambda>_. on_base (cbb_buffer_reserve A len))"

definition CBB_did_write :: "size_t \<Rightarrow> nat \<Rightarrow> cbb \<Rightarrow> unit option \<times> cbb" where
  "CBB_did_write len d s =
     on_base (\<lambda>b.
       let newlen = size_wrap (cb_len b + len) in
       if d < length (cbb_chain s) \<or> newlen < cb_len b \<or> newlen > cb_cap b then (None, b)
       else (Some (), b\<lparr>cb_len := newlen\<rparr>)) s"

definition cbb_add_u :: "allocator \<Rightarrow> nat \<Rightarrow> size_t \<Rightarrow> nat \<Rightarrow> cbb \<Rightarrow> unit option \<times> cbb" where
  "cbb_add_u A v len_len d s =
     andthen (CBB_flush A d s) (\<lambda>_. on_base (cbb_buffer_add_u A v len_len))"

definition CBB_add_u8 :: "allocator \<Rightarrow> byte \<Rightarrow> nat \<Rightarrow> cbb \<Rightarrow> unit option \<times> cbb" where
  "CBB_add_u8 A v d s = cbb_add_u A (unat v) 1 d s"

definition CBB_add_u16 :: "allocator \<Rightarrow> u16 \<Rightarrow> nat \<Rightarrow> cbb \<Rightarrow> unit option \<times> cbb" where
  "CBB_add_u16 A v d s = cbb_add_u A (unat v) 2 d s"

definition CBB_add_u16le :: "allocator \<Rightarrow> u16 \<Rightarrow> nat \<Rightarrow> cbb \<Rightarrow> unit option \<times> cbb" where
  "CBB_add_u16le A v d s = CBB_add_u16 A (bswap 2 v) d s"

definition CBB_add_u24 :: "allocator \<Rightarrow> u32 \<Rightarrow> nat \<Rightarrow> cbb \<Rightarrow> unit option \<times> cbb" where
  "CBB_add_u24 A v d s = cbb_add_u A (unat v) 3 d s"

definition CBB_add_u32 :: "allocator \<Rightarrow> u32 \<Rightarrow> nat \<Rightarrow> cbb \<Rightarrow> unit option \<times> cbb" where
  "CBB_add_u32 A v d s = cbb_add_u A (unat v) 4 d s"

definition CBB_add_u32le :: "allocator \<Rightarrow> u32 \<Rightarrow> nat \<Rightarrow> cbb \<Rightarrow> unit option \<times> cbb" where
  "CBB_add_u32le A v d s = CBB_add_u32 A (bswap 4 v) d s"

definition CBB_add_u64 :: "allocator \<Rightarrow> u64 \<Rightarrow> nat \<Rightarrow> cbb \<Rightarrow> unit option \<times> cbb" where
  "CBB_add_u64 A v d s = cbb_add_u A (unat v) 8 d s"

definition CBB_add_u64le :: "allocator \<Rightarrow> u64 \<Rightarrow> nat \<Rightarrow> cbb \<Rightarrow> unit option \<times> cbb" where
  "CBB_add_u64le A v d s = CBB_add_u64 A (bswap 8 v) d s"

section \<open>Children\<close>

text \<open>The new child replaces whatever the object's \<^verbatim>\<open>child\<close> pointer held; its handle is \<open>d + 1\<close>.\<close>

definition open_child :: "nat \<Rightarrow> cbb_child \<Rightarrow> cbb \<Rightarrow> unit option \<times> cbb" where
  "open_child d c s = (Some (), s\<lparr>cbb_chain := take d (cbb_chain s) @ [c]\<rparr>)"

definition cbb_add_length_prefixed :: "allocator \<Rightarrow> size_t \<Rightarrow> nat \<Rightarrow> cbb \<Rightarrow> unit option \<times> cbb" where
  "cbb_add_length_prefixed A len_len d s =
     andthen (CBB_flush A d s) (\<lambda>_ s.
       andthen (on_base (\<lambda>b. andthen (cbb_buffer_add A len_len b) (\<lambda>prefix_bytes b.
                 (Some prefix_bytes, b\<lparr>cb_buf := poke (cb_buf b) prefix_bytes (replicate len_len 0)\<rparr>))) s)
         (\<lambda>offset. open_child d \<lparr>child_offset = offset, pending_len_len = len_len, pending_is_asn1 = False\<rparr>))"

definition CBB_add_u8_length_prefixed :: "allocator \<Rightarrow> nat \<Rightarrow> cbb \<Rightarrow> unit option \<times> cbb" where
  "CBB_add_u8_length_prefixed A d s = cbb_add_length_prefixed A 1 d s"

definition CBB_add_u16_length_prefixed :: "allocator \<Rightarrow> nat \<Rightarrow> cbb \<Rightarrow> unit option \<times> cbb" where
  "CBB_add_u16_length_prefixed A d s = cbb_add_length_prefixed A 2 d s"

definition CBB_add_u24_length_prefixed :: "allocator \<Rightarrow> nat \<Rightarrow> cbb \<Rightarrow> unit option \<times> cbb" where
  "CBB_add_u24_length_prefixed A d s = cbb_add_length_prefixed A 3 d s"

text \<open>\<^verbatim>\<open>add_base128_integer\<close>: count the 7-bit groups, then write them from the top.\<close>

fun base128_len :: "nat \<Rightarrow> nat" where
  "base128_len copy = (if copy > 0 then Suc (base128_len (copy div 128)) else 0)"

declare base128_len.simps [simp del]

fun add_base128_loop :: "allocator \<Rightarrow> u64 \<Rightarrow> nat \<Rightarrow> nat \<Rightarrow> cbb \<Rightarrow> unit option \<times> cbb" where
  "add_base128_loop A v 0 d s = (Some (), s)"
| "add_base128_loop A v (Suc i) d s =
     (let b = ucast (drop_bit (7 * i) v AND 0x7f) :: byte;
          b' = (if i \<noteq> 0 then b OR 0x80 else b)
      in andthen (CBB_add_u8 A b' d s) (\<lambda>_. add_base128_loop A v i d))"

definition add_base128_integer :: "allocator \<Rightarrow> u64 \<Rightarrow> nat \<Rightarrow> cbb \<Rightarrow> unit option \<times> cbb" where
  "add_base128_integer A v d s =
     (let len_len = base128_len (unat v)
      in add_base128_loop A v (if len_len = 0 then 1 else len_len) d s)"

definition CBB_add_asn1 :: "allocator \<Rightarrow> u32 \<Rightarrow> nat \<Rightarrow> cbb \<Rightarrow> unit option \<times> cbb" where
  "CBB_add_asn1 A tag d s =
     andthen (CBB_flush A d s) (\<lambda>_ s.
       let tag_bits = ucast (drop_bit CBS_ASN1_TAG_SHIFT tag) AND 0xe0 :: byte;
           tag_num = tag AND CBS_ASN1_TAG_NUMBER_MASK
       in andthen
            (if tag_num \<ge> 0x1f
             then andthen (CBB_add_u8 A (tag_bits OR 0x1f) d s) (\<lambda>_. add_base128_integer A (ucast tag_num) d)
             else CBB_add_u8 A (tag_bits OR ucast tag_num) d s)
            (\<lambda>_ s. case cbb_base s of None \<Rightarrow> (None, s) | Some b \<Rightarrow>
               andthen (CBB_add_u8 A 0 d s)
                 (\<lambda>_. open_child d \<lparr>child_offset = cb_len b, pending_len_len = 1, pending_is_asn1 = True\<rparr>)))"

definition CBB_discard_child :: "nat \<Rightarrow> cbb \<Rightarrow> cbb" where
  "CBB_discard_child d s =
     (if d < length (cbb_chain s)
      then s\<lparr>cbb_base := map_option (\<lambda>b. b\<lparr>cb_len := child_offset (cbb_chain s ! d)\<rparr>) (cbb_base s),
             cbb_chain := take d (cbb_chain s)\<rparr>
      else s)"

section \<open>ASN.1 values\<close>

text \<open>
  The loop of \<^verbatim>\<open>CBB_add_asn1_uint64\<close> over the bytes of \<open>v\<close>, most significant first, of which \<open>i\<close>
  remain; its result is \<^verbatim>\<open>started\<close>.
\<close>

fun add_uint64_loop :: "allocator \<Rightarrow> u64 \<Rightarrow> nat \<Rightarrow> bool \<Rightarrow> nat \<Rightarrow> cbb \<Rightarrow> bool option \<times> cbb" where
  "add_uint64_loop A v 0 started d s = (Some started, s)"
| "add_uint64_loop A v (Suc i) started d s =
     (let b = ucast (drop_bit (8 * i) v AND 0xff) :: byte in
      if \<not> started \<and> b = 0 then add_uint64_loop A v i False d s
      else andthen (if \<not> started \<and> b AND 0x80 \<noteq> 0 then CBB_add_u8 A 0 d s else (Some (), s))
             (\<lambda>_ s. andthen (CBB_add_u8 A b d s) (\<lambda>_. add_uint64_loop A v i True d)))"

definition CBB_add_asn1_uint64 :: "allocator \<Rightarrow> u64 \<Rightarrow> nat \<Rightarrow> cbb \<Rightarrow> unit option \<times> cbb" where
  "CBB_add_asn1_uint64 A v d s =
     andthen (CBB_add_asn1 A CBS_ASN1_INTEGER d s) (\<lambda>_ s.
       andthen (andthen (add_uint64_loop A v 8 False (Suc d) s) (\<lambda>started s.
                  if \<not> started then CBB_add_u8 A 0 (Suc d) s else (Some (), s)))
         (\<lambda>_. CBB_flush A d))"

text \<open>The bytes of a negative \<^verbatim>\<open>int64_t\<close> in a little-endian union, from the highest one needed.\<close>

fun int64_start :: "byte list \<Rightarrow> nat \<Rightarrow> nat" where
  "int64_start bytes 0 = 0"
| "int64_start bytes (Suc i) =
     (if bytes ! Suc i = 0xff \<and> bytes ! i AND 0x80 \<noteq> 0 then int64_start bytes i else Suc i)"

fun add_bytes_down :: "allocator \<Rightarrow> byte list \<Rightarrow> nat \<Rightarrow> nat \<Rightarrow> cbb \<Rightarrow> unit option \<times> cbb" where
  "add_bytes_down A bytes 0 d s = (Some (), s)"
| "add_bytes_down A bytes (Suc i) d s =
     andthen (CBB_add_u8 A (bytes ! i) d s) (\<lambda>_. add_bytes_down A bytes i d)"

definition CBB_add_asn1_int64 :: "allocator \<Rightarrow> u64 \<Rightarrow> nat \<Rightarrow> cbb \<Rightarrow> unit option \<times> cbb" where
  "CBB_add_asn1_int64 A v d s =
     (if 0 \<le> sint v then CBB_add_asn1_uint64 A v d s
      else let bytes = le_bytes 8 (unat v); start = int64_start bytes 7 in
        andthen (CBB_add_asn1 A CBS_ASN1_INTEGER d s) (\<lambda>_ s.
          andthen (add_bytes_down A bytes (Suc start) (Suc d) s) (\<lambda>_. CBB_flush A d)))"

definition CBB_add_asn1_octet_string :: "allocator \<Rightarrow> byte list \<Rightarrow> nat \<Rightarrow> cbb \<Rightarrow> unit option \<times> cbb" where
  "CBB_add_asn1_octet_string A bytes d s =
     andthen (CBB_add_asn1 A CBS_ASN1_OCTETSTRING d s) (\<lambda>_ s.
       andthen (CBB_add_bytes A bytes (Suc d) s) (\<lambda>_. CBB_flush A d))"

definition CBB_add_asn1_bool :: "allocator \<Rightarrow> bool \<Rightarrow> nat \<Rightarrow> cbb \<Rightarrow> unit option \<times> cbb" where
  "CBB_add_asn1_bool A v d s =
     andthen (CBB_add_asn1 A CBS_ASN1_BOOLEAN d s) (\<lambda>_ s.
       andthen (CBB_add_u8 A (if v then 0xff else 0) (Suc d) s) (\<lambda>_. CBB_flush A d))"

section \<open>Object identifiers in text\<close>

text \<open>
  \<open>parse_dotted_decimal seen out cbs\<close> is the loop of the C function of that name from a state in
  which \<^verbatim>\<open>seen_digit\<close> is \<open>seen\<close>; 46 is the dot and 48 to 57 are the digits.
\<close>

fun parse_dotted_loop :: "bool \<Rightarrow> u64 \<Rightarrow> cbs \<Rightarrow> u64 option \<times> cbs" where
  "parse_dotted_loop seen_digit out [] = (if seen_digit then Some out else None, [])"
| "parse_dotted_loop seen_digit out (u # r) =
     (if u = 46 \<and> length r > 0 then (if seen_digit then Some out else None, r)
      else if u < 48 \<or> u > 57 \<or> (seen_digit \<and> out = 0) \<or> out > (- 1) div 10 \<or>
              out * 10 > - 1 - ucast (u - 48) then (None, r)
      else parse_dotted_loop True (out * 10 + ucast (u - 48)) r)"

definition parse_dotted_decimal :: "cbs \<Rightarrow> u64 option \<times> cbs" where
  "parse_dotted_decimal cbs = parse_dotted_loop False 0 cbs"

end
