(* ===== verification/Cbb_Spec.thy ===== *)
theory Cbb_Spec
  imports Cbb Der
begin

text \<open>
  What \<^verbatim>\<open>cbb.c\<close> promises: an invariant of the shared buffer and the chain of open children, and
  the effect of flushing on the bytes written so far. \<open>close_child\<close> replaces the placeholder of a
  child by the length of what follows it; a flush closes the descendants from the innermost one.
\<close>

section \<open>Stores\<close>

lemma store_be_split:
  "length ys = k \<Longrightarrow> store_be k (length xs) v (xs @ ys @ zs) = (xs @ be_bytes k v @ zs, v div 256 ^ k)"
proof (induction k arbitrary: v ys zs)
  case (Suc k)
  then obtain ys' y where ys: "ys = ys' @ [y]" by (cases ys rule: rev_cases) auto
  with Suc.prems have len: "length ys' = k" by simp
  have "(xs @ ys @ zs)[length xs + k := word_of_nat v] = xs @ ys' @ word_of_nat v # zs"
    by (simp add: ys list_update_append len)
  then show ?case
    using Suc.IH [OF len, of "v div 256" "word_of_nat v # zs"] by (simp add: div_mult2_eq)
qed simp

section \<open>The invariant\<close>

text \<open>
  Sizes stay far below the address space: the block of a buffer is at most \<open>2 ^ 63\<close> bytes, and
  the lemmas ask for contents of at most \<open>2 ^ 62\<close>.
\<close>

definition buffer_ok :: "cbb_buffer \<Rightarrow> bool" where
  "buffer_ok b \<longleftrightarrow> length (cb_buf b) = cb_cap b \<and> cb_len b \<le> cb_cap b \<and> cb_cap b \<le> 2 ^ 63"

definition contents :: "cbb_buffer \<Rightarrow> byte list" where
  "contents b = take (cb_len b) (cb_buf b)"

text \<open>\<open>room A b n\<close>: the buffer can hold \<open>n\<close> bytes in all, or it can grow and allocation succeeds.\<close>

definition room :: "allocator \<Rightarrow> cbb_buffer \<Rightarrow> nat \<Rightarrow> bool" where
  "room A b n \<longleftrightarrow> n \<le> cb_cap b \<or> (cb_can_resize b \<and> (\<forall>m. A m \<noteq> None))"

definition child_ok :: "cbb_child \<Rightarrow> bool" where
  "child_ok c \<longleftrightarrow> 1 \<le> pending_len_len c \<and> (pending_is_asn1 c \<longrightarrow> pending_len_len c = 1)"

definition child_end :: "cbb_child \<Rightarrow> nat" where
  "child_end c = child_offset c + pending_len_len c"

fun chain_ok :: "nat \<Rightarrow> nat \<Rightarrow> cbb_child list \<Rightarrow> bool" where
  "chain_ok lo n [] \<longleftrightarrow> lo \<le> n"
| "chain_ok lo n (c # cs) \<longleftrightarrow> lo \<le> child_offset c \<and> child_ok c \<and> chain_ok (child_end c) n cs"

lemma length_contents [simp]: "buffer_ok b \<Longrightarrow> length (contents b) = cb_len b"
  by (simp add: contents_def buffer_ok_def)

lemma chain_ok_le: "chain_ok lo n cs \<Longrightarrow> lo \<le> n"
  by (induction cs arbitrary: lo) (auto simp: child_end_def dest: le_trans add_leD1)

lemma chain_ok_mono: "chain_ok lo n cs \<Longrightarrow> n \<le> m \<Longrightarrow> chain_ok lo m cs"
  by (induction cs arbitrary: lo) auto

lemma chain_ok_append:
  "chain_ok lo n (cs @ [c]) \<longleftrightarrow>
     chain_ok lo (child_offset c) cs \<and> child_ok c \<and> child_end c \<le> n"
  by (induction cs arbitrary: lo) auto

lemma chain_ok_take: "chain_ok lo n cs \<Longrightarrow> chain_ok lo n (take d cs)"
proof (induction cs arbitrary: lo d)
  case (Cons c cs)
  then have "lo \<le> n" by (auto dest!: chain_ok_le simp: child_end_def)
  with Cons show ?case by (cases d) auto
qed simp

section \<open>Growing the buffer\<close>

lemma room_mono:
  "cb_cap b \<le> cb_cap b' \<Longrightarrow> cb_can_resize b' = cb_can_resize b \<Longrightarrow> room A b n \<Longrightarrow> room A b' n"
  by (auto simp: room_def)

lemma room_le: "room A b n \<Longrightarrow> m \<le> n \<Longrightarrow> room A b m"
  by (auto simp: room_def)

text \<open>Reserving never moves the contents, and fails only without room.\<close>

lemma reserve_grows:
  assumes b: "buffer_ok b" and A: "malloc_spec A" and n: "cb_len b + k \<le> 2 ^ 62"
    and no_fit: "\<not> cb_len b + k \<le> cb_cap b" and resize: "cb_can_resize b"
  obtains nc where "cb_len b + k \<le> nc" "nc \<le> 2 ^ 63"
    "cbb_buffer_reserve A k b = (case realloc_body A (cb_buf b) nc of
       None \<Rightarrow> (None, b\<lparr>cb_error := True\<rparr>)
     | Some nb \<Rightarrow> (Some (cb_len b), b\<lparr>cb_buf := nb, cb_cap := nc\<rparr>))"
proof -
  have wrap: "size_wrap (cb_len b + k) = cb_len b + k" "size_wrap (cb_cap b * 2) \<le> cb_cap b * 2"
    using n by (simp_all add: size_wrap_def)
  define nc where "nc = (if size_wrap (cb_cap b * 2) < cb_cap b \<or> size_wrap (cb_cap b * 2) < cb_len b + k
    then cb_len b + k else size_wrap (cb_cap b * 2))"
  have "cb_len b + k \<le> nc" "nc \<le> 2 ^ 63"
    using wrap(2) no_fit n by (auto simp: nc_def)
  moreover have "cbb_buffer_reserve A k b = (case realloc_body A (cb_buf b) nc of
       None \<Rightarrow> (None, b\<lparr>cb_error := True\<rparr>)
     | Some nb \<Rightarrow> (Some (cb_len b), b\<lparr>cb_buf := nb, cb_cap := nc\<rparr>))"
    unfolding nc_def using no_fit resize by (simp add: cbb_buffer_reserve_def Let_def wrap(1) split del: if_split cong: if_cong)
  ultimately show thesis by (rule that)
qed

lemma realloc_body_None: "realloc_body A old n = None \<Longrightarrow> \<exists>m. A m = None"
  by (auto simp: realloc_body_def OPENSSL_realloc_def OPENSSL_malloc_def Let_def split: option.splits)

lemma reserve_spec:
  assumes b: "buffer_ok b" and A: "malloc_spec A" and n: "cb_len b + k \<le> 2 ^ 62"
  obtains (fail) "cbb_buffer_reserve A k b = (None, b\<lparr>cb_error := True\<rparr>)" "\<not> room A b (cb_len b + k)"
  | (ok) b' where "cbb_buffer_reserve A k b = (Some (cb_len b), b')" "buffer_ok b'"
      "cb_len b' = cb_len b" "cb_can_resize b' = cb_can_resize b" "cb_error b' = cb_error b"
      "cb_cap b \<le> cb_cap b'" "contents b' = contents b" "cb_len b + k \<le> cb_cap b'"
      "\<not> cb_can_resize b \<longrightarrow> cb_cap b' = cb_cap b"
proof (cases "cb_len b + k \<le> cb_cap b")
  case True
  then show ?thesis using b n by (intro ok [of b]) (simp_all add: cbb_buffer_reserve_def Let_def)
next
  case no_fit: False
  show ?thesis
  proof (cases "cb_can_resize b")
    case False
    with no_fit show ?thesis using b n
      by (intro fail) (simp_all add: cbb_buffer_reserve_def Let_def room_def)
  next
    case True
    from reserve_grows [OF b A n no_fit this] obtain nc where nc: "cb_len b + k \<le> nc" "nc \<le> 2 ^ 63"
      and eq: "cbb_buffer_reserve A k b = (case realloc_body A (cb_buf b) nc of
           None \<Rightarrow> (None, b\<lparr>cb_error := True\<rparr>)
         | Some nb \<Rightarrow> (Some (cb_len b), b\<lparr>cb_buf := nb, cb_cap := nc\<rparr>))" .
    have small: "nc + 8 < 18446744073709551616" using nc(2) by simp
    have old: "length (cb_buf b) \<le> nc" "length (cb_buf b) = cb_cap b" "cb_len b \<le> cb_cap b"
      using b nc no_fit by (auto simp: buffer_ok_def)
    show ?thesis
    proof (cases "realloc_body A (cb_buf b) nc")
      case None
      with no_fit realloc_body_None [OF None] show ?thesis
        by (intro fail) (auto simp: eq room_def)
    next
      case (Some nb)
      note len = realloc_body_length [OF A small Some]
        and pre = realloc_body_prefix [OF A small Some old(1)]
      have "take (cb_len b) nb = take (cb_len b) (take (cb_cap b) nb)"
        using old(3) by (simp add: min_absorb1)
      also have "\<dots> = contents b" using pre old(2) by (simp add: contents_def)
      finally have "take (cb_len b) nb = contents b" .
      with len nc old Some True show ?thesis
        by (intro ok [of "b\<lparr>cb_buf := nb, cb_cap := nc\<rparr>"]) (simp_all add: eq buffer_ok_def contents_def)
    qed
  qed
qed

lemma buffer_add_spec:
  assumes b: "buffer_ok b" and A: "malloc_spec A" and n: "cb_len b + k \<le> 2 ^ 62"
  obtains (fail) "cbb_buffer_add A k b = (None, b\<lparr>cb_error := True\<rparr>)" "\<not> room A b (cb_len b + k)"
  | (ok) b' where "cbb_buffer_add A k b = (Some (cb_len b), b')" "buffer_ok b'"
      "cb_len b' = cb_len b + k" "take (cb_len b) (cb_buf b') = contents b"
      "cb_error b' = cb_error b" "cb_can_resize b' = cb_can_resize b" "cb_cap b \<le> cb_cap b'"
      "\<not> cb_can_resize b \<longrightarrow> cb_cap b' = cb_cap b"
proof (cases rule: reserve_spec [OF b A n, case_names fail ok])
  case fail
  then show ?thesis by (intro that(1)) (simp_all add: cbb_buffer_add_def)
next
  case (ok b')
  then show ?thesis using n
    by (intro that(2) [of "b'\<lparr>cb_len := cb_len b + k\<rparr>"])
      (simp_all add: cbb_buffer_add_def buffer_ok_def contents_def)
qed

section \<open>Closing one child\<close>

definition child_prefix :: "cbb_child \<Rightarrow> byte list \<Rightarrow> byte list" where
  "child_prefix c body =
     (if pending_is_asn1 c then der_length (length body) else be_bytes (pending_len_len c) (length body))"

text \<open>The contents a child's length prefix can describe.\<close>

definition child_fits :: "cbb_child \<Rightarrow> byte list \<Rightarrow> bool" where
  "child_fits c body \<longleftrightarrow>
     (if pending_is_asn1 c then length body \<le> 0xfffffffe else length body < 256 ^ pending_len_len c)"

definition close_child :: "cbb_child \<Rightarrow> byte list \<Rightarrow> byte list" where
  "close_child c bs =
     take (child_offset c) bs @ child_prefix c (drop (child_end c) bs) @ drop (child_end c) bs"

lemma asn1_len_form_der:
  assumes "n \<le> 0xfffffffe"
  shows "\<exists>i. asn1_len_form n = (length (der_length n), i) \<and>
    der_length n = i # be_bytes (length (der_length n) - 1) n \<and> n < 256 ^ (length (der_length n) - 1)
    \<or> asn1_len_form n = (1, i) \<and> der_length n = [i] \<and> length (der_length n) = 1"
proof (cases "n < 128")
  case True
  then show ?thesis
    by (intro exI [of _ "word_of_nat n"]) (simp add: asn1_len_form_def der_length_def)
next
  case False
  consider "128 \<le> n" "n < 2 ^ 8" | "2 ^ 8 \<le> n" "n < 2 ^ 16" | "2 ^ 16 \<le> n" "n < 2 ^ 24" | "2 ^ 24 \<le> n"
    using False by (cases "n < 2 ^ 8"; cases "n < 2 ^ 16"; cases "n < 2 ^ 24") auto
  then show ?thesis using assms
    by cases (simp_all add: asn1_len_form_def der_length_def length_octets_def)
qed

lemma contents_split:
  assumes "buffer_ok b" "contents b = pre @ ph @ body"
  obtains junk where "cb_buf b = pre @ ph @ body @ junk" "cb_len b = length pre + length ph + length body"
proof -
  have "cb_buf b = contents b @ drop (cb_len b) (cb_buf b)" by (simp add: contents_def)
  with assms(2) have "cb_buf b = pre @ ph @ body @ drop (cb_len b) (cb_buf b)" by simp
  moreover have "cb_len b = length pre + length ph + length body"
    using length_contents [OF assms(1)] assms(2) by simp
  ultimately show thesis by (rule that)
qed

lemma finish_prefixed:
  assumes b: "buffer_ok b" and c: "\<not> pending_is_asn1 c"
    and split: "contents b = pre @ ph @ body" "length pre = child_offset c" "length ph = pending_len_len c"
  obtains b' where "finish_child A c (child_end c) b = (child_fits c body, b')" "buffer_ok b'"
    "cb_len b' = cb_len b" "cb_cap b' = cb_cap b" "cb_can_resize b' = cb_can_resize b"
    "child_fits c body \<Longrightarrow> contents b' = pre @ child_prefix c body @ body \<and> cb_error b' = cb_error b"
proof -
  from contents_split [OF b split(1)] obtain junk where
    buf: "cb_buf b = pre @ ph @ body @ junk" "cb_len b = length pre + length ph + length body" .
  have len: "cb_len b - child_end c = length body" using buf(2) split(2,3) by (simp add: child_end_def)
  have st: "store_be (pending_len_len c) (child_offset c) (length body) (cb_buf b) =
     (pre @ child_prefix c body @ body @ junk, length body div 256 ^ pending_len_len c)"
    using store_be_split [OF split(3), of pre "length body" "body @ junk"] c
    by (simp add: buf(1) split(2) [symmetric] child_prefix_def)
  have fits: "length body div 256 ^ pending_len_len c = 0 \<longleftrightarrow> child_fits c body"
    using c by (simp add: child_fits_def div_eq_0_iff)
  have plen: "length (child_prefix c body) = length ph" using c split(3) by (simp add: child_prefix_def)
  let ?b = "b\<lparr>cb_buf := pre @ child_prefix c body @ body @ junk\<rparr>"
  have fin: "finish_child A c (child_end c) b =
      (if child_fits c body then (True, ?b) else (False, ?b\<lparr>cb_error := True\<rparr>))"
    by (simp add: finish_child_def Let_def len c st fits [symmetric])
  have ok: "buffer_ok ?b" "contents ?b = pre @ child_prefix c body @ body"
    using b by (simp_all add: buffer_ok_def contents_def buf plen)
  then have "buffer_ok (?b\<lparr>cb_error := True\<rparr>)" by (simp add: buffer_ok_def)
  with ok show thesis
    by (intro that [of "if child_fits c body then ?b else ?b\<lparr>cb_error := True\<rparr>"]) (simp_all add: fin)
qed

text \<open>An ASN.1 child whose length needs \<open>1 + ex\<close> octets: the contents move up by \<open>ex\<close>.\<close>

lemma finish_asn1_shift:
  fixes pre body gap :: "byte list" and ph :: byte
  assumes gap: "ex \<le> length gap" and rest: "rest < 256 ^ ex"
  shows "\<exists>junk. length junk = length gap - ex \<and>
    store_be ex (length pre + 1) rest
      ((poke (pre @ ph # body @ gap) (length pre + 1 + ex) body)[length pre := i]) =
    (pre @ i # be_bytes ex rest @ body @ junk, 0)"
proof -
  let ?m = "pre @ ph # body @ gap"
  define x where "x = take ex (body @ gap)"
  define z where "z = drop (length pre + 1 + ex + length body) ?m"
  have x: "length x = ex" using gap by (simp add: x_def)
  have z: "length z = length gap - ex" using gap by (simp add: z_def)
  have "take (length pre + 1 + ex) ?m = pre @ ph # x" by (simp add: x_def)
  then have "poke ?m (length pre + 1 + ex) body = pre @ ph # x @ body @ z"
    by (simp add: poke_def z_def)
  then have "(poke ?m (length pre + 1 + ex) body)[length pre := i] = (pre @ [i]) @ x @ body @ z"
    by simp
  moreover have "store_be ex (length (pre @ [i])) rest ((pre @ [i]) @ x @ body @ z) =
      ((pre @ [i]) @ be_bytes ex rest @ body @ z, rest div 256 ^ ex)"
    using x by (rule store_be_split)
  ultimately show ?thesis using z rest by (intro exI [of _ z]) simp
qed

lemma finish_asn1:
  assumes b: "buffer_ok b" and A: "malloc_spec A" and c: "pending_is_asn1 c" "pending_len_len c = 1"
    and split: "contents b = pre @ [ph] @ body" "length pre = child_offset c"
    and small: "cb_len b + 4 \<le> 2 ^ 62"
  obtains (fail) b' where "finish_child A c (child_end c) b = (False, b')" "buffer_ok b'" "cb_len b' = cb_len b"
      "child_fits c body \<Longrightarrow> \<not> room A b (length (pre @ child_prefix c body @ body))"
  | (ok) b' where "finish_child A c (child_end c) b = (True, b')" "buffer_ok b'" "child_fits c body"
      "contents b' = pre @ child_prefix c body @ body" "cb_error b' = cb_error b"
      "cb_can_resize b' = cb_can_resize b" "cb_cap b \<le> cb_cap b'"
      "\<not> cb_can_resize b \<longrightarrow> cb_cap b' = cb_cap b"
proof (cases "child_fits c body")
  case False
  from contents_split [OF b split(1)] obtain junk where
    "cb_len b = length pre + length [ph] + length body" .
  then have "cb_len b - child_end c = length body" using split(2) c by (simp add: child_end_def)
  with False c have "finish_child A c (child_end c) b = (False, b\<lparr>cb_error := True\<rparr>)"
    by (simp add: finish_child_def Let_def child_fits_def)
  moreover have "buffer_ok (b\<lparr>cb_error := True\<rparr>)" using b by (simp add: buffer_ok_def)
  ultimately show ?thesis using False by (intro fail [of "b\<lparr>cb_error := True\<rparr>"]) simp_all
next
  case fits: True
  let ?n = "length body"
  have n: "?n \<le> 0xfffffffe" using fits c by (simp add: child_fits_def)
  from contents_split [OF b split(1)] obtain junk where
    buf: "cb_buf b = pre @ ph # body @ junk" "cb_len b = length pre + 1 + ?n" by auto
  have ce: "child_end c = length pre + 1" using c split(2) by (simp add: child_end_def)
  have len: "cb_len b - child_end c = ?n" by (simp add: buf(2) ce)
  have pfx: "child_prefix c body = der_length ?n" using c by (simp add: child_prefix_def)
  from asn1_len_form_der [OF n] obtain i where
    "asn1_len_form ?n = (length (der_length ?n), i) \<and>
       der_length ?n = i # be_bytes (length (der_length ?n) - 1) ?n \<and> ?n < 256 ^ (length (der_length ?n) - 1)
     \<or> asn1_len_form ?n = (1, i) \<and> der_length ?n = [i] \<and> length (der_length ?n) = 1" (is "?long \<or> ?short") by blast
  then consider (short) ?short | (long) ?long "length (der_length ?n) \<noteq> 1"
    by (cases "length (der_length ?n) = 1") auto
  then show ?thesis
  proof cases
    case short
    let ?b = "b\<lparr>cb_buf := pre @ i # body @ junk\<rparr>"
    have "finish_child A c (child_end c) b = (True, ?b)"
      using n by (simp add: finish_child_def Let_def c len short buf(1) split(2) [symmetric])
    moreover have "buffer_ok ?b" "contents ?b = pre @ child_prefix c body @ body"
      using b by (simp_all add: buffer_ok_def contents_def buf pfx short)
    ultimately show ?thesis using fits by (intro ok [of ?b]) simp_all
  next
    case long
    define ex where "ex = length (der_length ?n) - 1"
    have ll: "length (der_length ?n) = Suc ex" using length_der_length(1) [of ?n] by (simp add: ex_def)
    have ex: "ex \<le> 4" "ex \<noteq> 0" using length_der_length(2) [of ?n] long(2) by (simp_all add: ll)
    have form: "asn1_len_form ?n = (Suc ex, i)" "der_length ?n = i # be_bytes ex ?n" "?n < 256 ^ ex"
      using long(1) by (simp_all add: ll)
    have total: "length (pre @ child_prefix c body @ body) = cb_len b + ex"
      by (simp add: pfx ll buf(2))
    have small': "cb_len b + ex \<le> 2 ^ 62" using small ex(1) by simp
    show ?thesis
    proof (cases rule: buffer_add_spec [OF b A small', case_names none some])
      case none
      have "finish_child A c (child_end c) b = (False, b\<lparr>cb_error := True\<rparr>)"
        using n ex(2) by (simp add: finish_child_def Let_def c len form none(1))
      moreover have "buffer_ok (b\<lparr>cb_error := True\<rparr>)" using b by (simp add: buffer_ok_def)
      ultimately show ?thesis using none(2) unfolding total [symmetric]
        by (intro fail [of "b\<lparr>cb_error := True\<rparr>"]) simp_all
    next
      case (some b1)
      define gap where "gap = drop (cb_len b) (cb_buf b1)"
      have b1: "cb_buf b1 = pre @ ph # body @ gap"
      proof -
        have "cb_buf b1 = take (cb_len b) (cb_buf b1) @ gap" by (simp add: gap_def)
        then show ?thesis using some(4) split(1) by simp
      qed
      have gap: "ex \<le> length gap" "length pre + 1 + ?n + length gap = cb_cap b1"
        using some(2,3) by (auto simp: gap_def buffer_ok_def buf(2))
      from finish_asn1_shift [OF gap(1) form(3), of pre ph body i] obtain junk where
        junk: "length junk = length gap - ex"
        and st: "store_be ex (length pre + 1) ?n
            ((poke (pre @ ph # body @ gap) (length pre + 1 + ex) body)[length pre := i]) =
          (pre @ i # be_bytes ex ?n @ body @ junk, 0)" by blast
      let ?b = "b1\<lparr>cb_buf := pre @ i # be_bytes ex ?n @ body @ junk\<rparr>"
      have "take ?n (drop (child_end c) (cb_buf b1)) = body" by (simp add: ce b1)
      then have "finish_child A c (child_end c) b = (True, ?b)"
        using n ex(2) st len [unfolded ce]
        by (simp add: finish_child_def Let_def c form some(1) split(2) [symmetric] ce b1)
      moreover have "buffer_ok ?b" "contents ?b = pre @ child_prefix c body @ body"
        using some(2,3) gap junk by (simp_all add: buffer_ok_def contents_def buf(2) pfx form(2))
      ultimately show ?thesis using fits some(5-8) by (intro ok [of ?b]) simp_all
    qed
  qed
qed

section \<open>A flush closes the descendants from the innermost one\<close>

definition close_all :: "cbb_child list \<Rightarrow> byte list \<Rightarrow> byte list" where
  "close_all cs bs = foldr close_child cs bs"

fun all_fit :: "cbb_child list \<Rightarrow> byte list \<Rightarrow> bool" where
  "all_fit [] bs \<longleftrightarrow> True"
| "all_fit (c # cs) bs \<longleftrightarrow> all_fit cs bs \<and> child_fits c (drop (child_end c) (close_all cs bs))"

lemma close_all_simps [simp]:
  "close_all [] bs = bs"
  "close_all (c # cs) bs = close_child c (close_all cs bs)"
  by (simp_all add: close_all_def)

lemma length_child_prefix:
  assumes "child_ok c"
  shows "pending_len_len c \<le> length (child_prefix c body)"
    "length (child_prefix c body) \<le> pending_len_len c + 4"
  using assms length_der_length [of "length body"] by (auto simp: child_ok_def child_prefix_def)

lemma length_close_child:
  assumes "child_ok c" "child_end c \<le> length bs"
  shows "length bs \<le> length (close_child c bs)" "length (close_child c bs) \<le> length bs + 4"
  using assms(2) length_child_prefix [OF assms(1), of "drop (child_end c) bs"]
  by (simp_all add: close_child_def child_end_def)

lemma length_close_all:
  "chain_ok lo (length bs) cs \<Longrightarrow>
     length bs \<le> length (close_all cs bs) \<and> length (close_all cs bs) \<le> length bs + 4 * length cs"
proof (induction cs arbitrary: lo)
  case (Cons c cs)
  then have c: "child_ok c" "chain_ok (child_end c) (length bs) cs" by auto
  with Cons.IH [OF c(2)] chain_ok_le [OF c(2)]
    length_close_child [OF c(1), of "close_all cs bs"] show ?case by simp
qed simp

text \<open>One child: the invariant and the contents after \<open>finish_child\<close>.\<close>

lemma finish_child_spec:
  assumes b: "buffer_ok b" and A: "malloc_spec A" and c: "child_ok c"
    and ends: "child_end c \<le> cb_len b" and small: "cb_len b + 4 \<le> 2 ^ 62"
  obtains (fail) b' where "finish_child A c (child_end c) b = (False, b')" "buffer_ok b'" "cb_len b' = cb_len b"
      "child_fits c (drop (child_end c) (contents b)) \<Longrightarrow> \<not> room A b (length (close_child c (contents b)))"
  | (ok) b' where "finish_child A c (child_end c) b = (True, b')" "buffer_ok b'"
      "child_fits c (drop (child_end c) (contents b))"
      "contents b' = close_child c (contents b)" "cb_error b' = cb_error b"
      "cb_can_resize b' = cb_can_resize b" "cb_cap b \<le> cb_cap b'"
      "\<not> cb_can_resize b \<longrightarrow> cb_cap b' = cb_cap b"
proof -
  let ?bs = "contents b"
  define pre ph body where "pre = take (child_offset c) ?bs"
    and "ph = take (pending_len_len c) (drop (child_offset c) ?bs)" and "body = drop (child_end c) ?bs"
  have split: "?bs = pre @ ph @ body"
  proof -
    have "ph @ body = drop (child_offset c) ?bs"
      using append_take_drop_id [of "pending_len_len c" "drop (child_offset c) ?bs"]
      by (simp add: ph_def body_def child_end_def add.commute)
    then show ?thesis by (simp add: pre_def)
  qed
  have len: "length pre = child_offset c" "length ph = pending_len_len c"
    using ends b by (simp_all add: pre_def ph_def child_end_def)
  have close: "close_child c ?bs = pre @ child_prefix c body @ body"
    by (simp add: close_child_def pre_def body_def)
  show thesis
  proof (cases "pending_is_asn1 c")
    case False
    show ?thesis
      by (cases rule: finish_prefixed [OF b False split len, where A = A]; cases "child_fits c body")
        (auto intro: that simp: close simp flip: body_def)
  next
    case True
    with c have one: "pending_len_len c = 1" by (simp add: child_ok_def)
    with len(2) obtain p where "ph = [p]" by (auto simp: length_Suc_conv)
    with split have split': "?bs = pre @ [p] @ body" by simp
    show ?thesis
      by (cases rule: finish_asn1 [OF b A True one split' len(1) small, case_names fail ok])
        (auto intro: that simp: close simp flip: body_def)
  qed
qed

lemma cbb_flush_spec:
  assumes "buffer_ok b" "malloc_spec A" "\<not> cb_error b" "chain_ok lo (cb_len b) cs"
    "cb_len b + 4 * length cs \<le> 2 ^ 62"
  shows "(\<exists>b' k. cbb_flush A b cs = (False, b', take k cs) \<and> cb_error b' \<and> buffer_ok b' \<and>
            cb_len b \<le> cb_len b' \<and>
            \<not> (all_fit cs (contents b) \<and> room A b (length (close_all cs (contents b))))) \<or>
         (\<exists>b'. cbb_flush A b cs = (True, b', []) \<and> \<not> cb_error b' \<and> buffer_ok b' \<and>
            contents b' = close_all cs (contents b) \<and> all_fit cs (contents b) \<and>
            cb_can_resize b' = cb_can_resize b \<and> cb_cap b \<le> cb_cap b' \<and>
            (\<not> cb_can_resize b \<longrightarrow> cb_cap b' = cb_cap b))"
  using assms
proof (induction cs arbitrary: lo)
  case Nil
  then show ?case by simp
next
  case (Cons c cs)
  then have c: "child_ok c" "chain_ok (child_end c) (cb_len b) cs" by auto
  have le: "child_end c \<le> cb_len b" by (rule chain_ok_le [OF c(2)])
  with Cons.prems(5) have wrap: "size_wrap (child_offset c + pending_len_len c) = child_end c"
    by (simp add: child_end_def)
  have pll: "pending_len_len c \<noteq> 0" using c(1) by (simp add: child_ok_def)
  have off: "child_offset c \<le> child_end c" by (simp add: child_end_def)
  let ?bs = "close_all cs (contents b)"
  have lens: "cb_len b \<le> length ?bs" "length ?bs \<le> cb_len b + 4 * length cs"
    using length_close_all [of "child_end c" "contents b" cs] c(2) Cons.prems(1) by simp_all
  have grow: "length ?bs \<le> length (close_child c ?bs)"
    using length_close_child(1) [OF c(1)] le lens(1) by simp
  from Cons.prems(5) have "cb_len b + 4 * length cs \<le> 2 ^ 62" by simp
  from Cons.IH [OF Cons.prems(1-3) c(2) this] show ?case
  proof (elim disjE exE conjE)
    fix b1 k assume b1: "cbb_flush A b cs = (False, b1, take k cs)" "cb_error b1" "buffer_ok b1"
      "cb_len b \<le> cb_len b1"
      "\<not> (all_fit cs (contents b) \<and> room A b (length ?bs))"
    moreover have "buffer_ok (b1\<lparr>cb_error := True\<rparr>)" using b1(3) by (simp add: buffer_ok_def)
    ultimately show ?thesis using room_le [OF _ grow]
      by (intro disjI1 exI [of _ "b1\<lparr>cb_error := True\<rparr>"] exI [of _ "Suc k"])
        (auto simp: Let_def wrap pll Cons.prems(3))
  next
    fix b1 assume b1: "cbb_flush A b cs = (True, b1, [])" "\<not> cb_error b1" "buffer_ok b1"
      "contents b1 = ?bs" "all_fit cs (contents b)" "cb_can_resize b1 = cb_can_resize b"
      "cb_cap b \<le> cb_cap b1" "\<not> cb_can_resize b \<longrightarrow> cb_cap b1 = cb_cap b"
    have len1: "cb_len b1 = length ?bs" using length_contents [OF b1(3)] b1(4) by simp
    have ends: "child_end c \<le> cb_len b1" and small: "cb_len b1 + 4 \<le> 2 ^ 62"
      using le lens Cons.prems(5) by (simp_all add: len1)
    have step: "cbb_flush A b (c # cs) = (case finish_child A c (child_end c) b1 of
        (False, b) \<Rightarrow> (False, b\<lparr>cb_error := True\<rparr>, [c]) | (True, b) \<Rightarrow> (True, b, []))"
      using ends off by (simp add: Let_def wrap pll Cons.prems(3) b1(1))
    show ?thesis
    proof (cases rule: finish_child_spec [OF b1(3) Cons.prems(2) c(1) ends small, case_names fail ok])
      case (fail b2)
      have "buffer_ok (b2\<lparr>cb_error := True\<rparr>)" using fail(2) by (simp add: buffer_ok_def)
      with fail show ?thesis using room_mono [OF b1(7,6), of A]
        by (intro disjI1 exI [of _ "b2\<lparr>cb_error := True\<rparr>"] exI [of _ "Suc 0"])
          (use lens(1) len1 in \<open>auto simp: step b1(4) simp del: cbb_flush.simps\<close>)
    next
      case (ok b2)
      with b1 show ?thesis
        by (intro disjI2 exI [of _ b2]) (auto simp: step simp del: cbb_flush.simps)
    qed
  qed
qed

end
