(* ===== verification/Cbb_Tree.thy ===== *)
theory Cbb_Tree
  imports Cbb_Spec
begin

text \<open>
  The operations of \<^verbatim>\<open>cbb.c\<close> as appends to an abstract document. \<open>closed d s\<close> is what the object
  at depth \<open>d\<close> and its ancestors hold once everything open below \<open>d\<close> is closed; each operation on
  depth \<open>d\<close> appends to it. A document is a tree of bytes and length-prefixed parts, and the calls
  a client makes for it produce its encoding.
\<close>

section \<open>The object\<close>

definition cbb_ok :: "cbb \<Rightarrow> bool" where
  "cbb_ok s \<longleftrightarrow> (case cbb_base s of None \<Rightarrow> True
     | Some b \<Rightarrow> buffer_ok b \<and> chain_ok 0 (cb_len b) (cbb_chain s))"

definition written :: "cbb \<Rightarrow> byte list" where
  "written s = (case cbb_base s of None \<Rightarrow> [] | Some b \<Rightarrow> contents b)"

definition closed :: "nat \<Rightarrow> cbb \<Rightarrow> byte list" where
  "closed d s = close_all (drop d (cbb_chain s)) (written s)"

definition fits :: "nat \<Rightarrow> cbb \<Rightarrow> bool" where
  "fits d s \<longleftrightarrow> all_fit (drop d (cbb_chain s)) (written s)"

text \<open>The handle at depth \<open>d\<close> can be written to: its buffer is there, without an error.\<close>

definition writable :: "nat \<Rightarrow> cbb \<Rightarrow> bool" where
  "writable d s \<longleftrightarrow> cbb_ok s \<and> d \<le> length (cbb_chain s) \<and>
     (case cbb_base s of None \<Rightarrow> False | Some b \<Rightarrow> \<not> cb_error b)"

definition roomy :: "allocator \<Rightarrow> cbb \<Rightarrow> nat \<Rightarrow> bool" where
  "roomy A s n \<longleftrightarrow> (case cbb_base s of None \<Rightarrow> False | Some b \<Rightarrow> room A b n)"

definition grew :: "cbb \<Rightarrow> cbb \<Rightarrow> bool" where
  "grew s s' \<longleftrightarrow> (\<forall>b. cbb_base s = Some b \<longrightarrow> (\<exists>b'. cbb_base s' = Some b' \<and>
     cb_can_resize b' = cb_can_resize b \<and> cb_cap b \<le> cb_cap b' \<and>
     (\<not> cb_can_resize b \<longrightarrow> cb_cap b' = cb_cap b)))"

lemma grew_refl [simp]: "grew s s"
  by (simp add: grew_def)

lemma grew_trans: "grew s s' \<Longrightarrow> grew s' s'' \<Longrightarrow> grew s s''"
  by (fastforce simp: grew_def)

lemma roomy_grew: "grew s s' \<Longrightarrow> roomy A s n \<Longrightarrow> roomy A s' n"
  by (auto simp: grew_def roomy_def split: option.splits intro: room_mono)

lemma roomy_le: "roomy A s n \<Longrightarrow> m \<le> n \<Longrightarrow> roomy A s m"
  by (auto simp: roomy_def split: option.splits intro: room_le)

lemma chain_ok_length: "chain_ok lo n cs \<Longrightarrow> lo + length cs \<le> n"
proof (induction cs arbitrary: lo)
  case (Cons c cs)
  then have "child_end c + length cs \<le> n" "lo < child_end c"
    by (auto simp: child_ok_def child_end_def)
  then show ?case by simp
qed simp

lemma chain_ok_drop: "chain_ok lo n cs \<Longrightarrow> \<exists>lo'. chain_ok lo' n (drop d cs)"
proof (induction cs arbitrary: lo d)
  case (Cons c cs)
  then show ?case by (cases d) auto
qed auto

lemma closed_at_end: "length (cbb_chain s) \<le> d \<Longrightarrow> closed d s = written s"
  by (simp add: closed_def)

lemma fits_at_end: "length (cbb_chain s) \<le> d \<Longrightarrow> fits d s"
  by (simp add: fits_def)

lemma length_closed: "cbb_ok s \<Longrightarrow> length (written s) \<le> length (closed d s)"
proof (cases "cbb_base s")
  case (Some b)
  assume "cbb_ok s"
  with Some have "buffer_ok b" "chain_ok 0 (cb_len b) (cbb_chain s)" by (simp_all add: cbb_ok_def)
  with chain_ok_drop [of 0 "cb_len b" "cbb_chain s" d] show ?thesis
    using length_close_all [of _ "written s" "drop d (cbb_chain s)"]
    by (auto simp: closed_def written_def Some)
qed (simp add: written_def)

section \<open>Operations that append\<close>

text \<open>
  \<open>appended A d s bs r\<close>: the call on depth \<open>d\<close> of \<open>s\<close> with result \<open>r\<close> appended \<open>bs\<close>, or failed
  because an open child does not fit its length prefix or the buffer has no room.
\<close>

definition appended :: "allocator \<Rightarrow> nat \<Rightarrow> cbb \<Rightarrow> byte list \<Rightarrow> 'a option \<times> cbb \<Rightarrow> bool" where
  "appended A d s bs r \<longleftrightarrow>
     (case r of
        (None, s') \<Rightarrow> cbb_ok s' \<and> \<not> (fits d s \<and> roomy A s (length (closed d s @ bs)))
      | (Some _, s') \<Rightarrow> writable d s' \<and> cbb_chain s' = take d (cbb_chain s) \<and>
          closed d s' = closed d s @ bs \<and> fits d s \<and> grew s s')"

lemma appended_andthen:
  assumes "appended A d s xs r"
    and "\<And>a s'. writable d s' \<Longrightarrow> closed d s' = closed d s @ xs \<Longrightarrow> cbb_chain s' = take d (cbb_chain s) \<Longrightarrow>
      r = (Some a, s') \<Longrightarrow> appended A d s' ys (k a s')"
  shows "appended A d s (xs @ ys) (andthen r k)"
proof (cases r)
  case (Pair ro s')
  show ?thesis
  proof (cases ro)
    case None
    have "length (closed d s @ xs) \<le> length (closed d s @ xs @ ys)" by simp
    with None assms(1) Pair show ?thesis by (auto simp only: appended_def andthen.simps split: option.splits prod.splits dest: roomy_le)
  next
    case (Some a)
    with Pair assms(1) have 1: "writable d s'" "cbb_chain s' = take d (cbb_chain s)"
      "closed d s' = closed d s @ xs" "fits d s" "grew s s'" by (auto simp: appended_def)
    have fits: "fits d s'" by (rule fits_at_end) (simp add: 1(2))
    have "appended A d s' ys (k a s')" using assms(2) 1 Pair Some by blast
    then show ?thesis
      using 1 fits
      by (cases "k a s'") (auto simp: appended_def Pair Some 1 dest: roomy_grew [OF 1(5)]
          intro: grew_trans [OF 1(5)] split: option.splits)
  qed
qed

text \<open>Every operation starts with a flush of the handle it is given.\<close>

lemma CBB_flush_appended:
  assumes w: "writable d s" and A: "malloc_spec A" and small: "length (closed d s) \<le> 2 ^ 59"
  shows "appended A d s [] (CBB_flush A d s)"
proof -
  from w obtain b where s: "cbb_base s = Some b" and b: "buffer_ok b" "\<not> cb_error b"
    "chain_ok 0 (cb_len b) (cbb_chain s)" "d \<le> length (cbb_chain s)"
    by (auto simp: writable_def cbb_ok_def split: option.splits)
  let ?cs = "drop d (cbb_chain s)"
  have wr: "written s = contents b" by (simp add: written_def s)
  obtain lo where lo: "chain_ok lo (cb_len b) ?cs" using chain_ok_drop [OF b(3)] by blast
  have "cb_len b \<le> length (closed d s)"
    using length_closed [of s d] w b(1) by (simp add: writable_def wr)
  then have "cb_len b + 4 * length ?cs \<le> 2 ^ 62"
    using small chain_ok_length [OF lo] by simp
  from cbb_flush_spec [OF b(1) A b(2) lo this] show ?thesis
  proof (elim disjE exE conjE)
    fix b' k assume f: "cbb_flush A b ?cs = (False, b', take k ?cs)" "cb_error b'" "buffer_ok b'"
      "cb_len b \<le> cb_len b'" "\<not> (all_fit ?cs (contents b) \<and> room A b (length (close_all ?cs (contents b))))"
    have "take d (cbb_chain s) @ take k ?cs = take (d + k) (cbb_chain s)"
      by (simp add: take_add)
    then have "chain_ok 0 (cb_len b') (take d (cbb_chain s) @ take k ?cs)"
      using chain_ok_take [OF chain_ok_mono [OF b(3) f(4)], of "d + k"] by simp
    with f show ?thesis
      using b(4) by (simp add: appended_def CBB_flush_def s cbb_ok_def fits_def closed_def roomy_def wr)
  next
    fix b' assume f: "cbb_flush A b ?cs = (True, b', [])" "\<not> cb_error b'" "buffer_ok b'"
      "contents b' = close_all ?cs (contents b)" "all_fit ?cs (contents b)"
      "cb_can_resize b' = cb_can_resize b" "cb_cap b \<le> cb_cap b'"
      "\<not> cb_can_resize b \<longrightarrow> cb_cap b' = cb_cap b"
    have "cb_len b' = length (close_all ?cs (contents b))"
      using f(3,4) length_contents [of b'] by simp
    then have "cb_len b \<le> cb_len b'"
      using length_close_all [of lo "contents b" ?cs] lo b(1) by simp
    then have "chain_ok 0 (cb_len b') (take d (cbb_chain s))"
      by (intro chain_ok_take chain_ok_mono [OF b(3)])
    with f show ?thesis
      using b(4) by (simp add: appended_def CBB_flush_def s cbb_ok_def fits_def closed_def roomy_def wr
          writable_def grew_def written_def)
  qed
qed

definition buf_appended :: "allocator \<Rightarrow> cbb_buffer \<Rightarrow> byte list \<Rightarrow> 'a option \<times> cbb_buffer \<Rightarrow> bool" where
  "buf_appended A b bs r \<longleftrightarrow>
     (case r of
        (None, b') \<Rightarrow> buffer_ok b' \<and> cb_len b \<le> cb_len b' \<and> \<not> room A b (cb_len b + length bs)
      | (Some _, b') \<Rightarrow> buffer_ok b' \<and> contents b' = contents b @ bs \<and> cb_error b' = cb_error b \<and>
          cb_can_resize b' = cb_can_resize b \<and> cb_cap b \<le> cb_cap b' \<and>
          (\<not> cb_can_resize b \<longrightarrow> cb_cap b' = cb_cap b))"

lemma on_base_appended:
  assumes w: "writable d s" and d: "length (cbb_chain s) = d"
    and f: "\<And>b. cbb_base s = Some b \<Longrightarrow> buffer_ok b \<Longrightarrow> buf_appended A b bs (f b)"
  shows "appended A d s bs (on_base f s)"
proof -
  from w obtain b where s: "cbb_base s = Some b" and b: "buffer_ok b" "\<not> cb_error b"
    "chain_ok 0 (cb_len b) (cbb_chain s)"
    by (auto simp: writable_def cbb_ok_def split: option.splits)
  have closed: "closed d s = contents b" by (simp add: closed_at_end d written_def s)
  have fa: "buf_appended A b bs (f b)" using f s b(1) by simp
  show ?thesis
  proof (cases "f b")
    case (Pair r b')
    show ?thesis
    proof (cases r)
      case None
      with fa Pair have "buffer_ok b'" "cb_len b \<le> cb_len b'" "\<not> room A b (cb_len b + length bs)"
        by (auto simp: buf_appended_def)
      then show ?thesis
        using None b(1,3) by (auto simp: appended_def on_base_def s Pair cbb_ok_def roomy_def closed intro: chain_ok_mono)
    next
      case (Some x)
      with fa Pair have b': "buffer_ok b'" "contents b' = contents b @ bs" "cb_error b' = cb_error b"
        "cb_can_resize b' = cb_can_resize b" "cb_cap b \<le> cb_cap b'" "\<not> cb_can_resize b \<longrightarrow> cb_cap b' = cb_cap b"
        by (auto simp: buf_appended_def)
      have "cb_len b \<le> cb_len b'"
        using b' b(1) length_contents [OF b'(1)] by simp
      then show ?thesis
        using Some b b' d closed
        by (auto simp: appended_def on_base_def s Pair cbb_ok_def writable_def grew_def fits_at_end
            closed_at_end written_def intro: chain_ok_mono)
    qed
  qed
qed

lemma flush_on_base_appended:
  assumes w: "writable d s" and A: "malloc_spec A" and small: "length (closed d s) \<le> 2 ^ 59"
    and f: "\<And>b. buffer_ok b \<Longrightarrow> cb_len b = length (closed d s) \<Longrightarrow> buf_appended A b bs (f b)"
  shows "appended A d s bs (andthen (CBB_flush A d s) (\<lambda>_. on_base f))"
proof -
  have "appended A d s ([] @ bs) (andthen (CBB_flush A d s) (\<lambda>_. on_base f))"
  proof (rule appended_andthen [OF CBB_flush_appended [OF w A small]])
    fix a s' assume s': "writable d s'" "closed d s' = closed d s @ []"
      "cbb_chain s' = take d (cbb_chain s)"
    have d: "length (cbb_chain s') = d" using s'(3) w by (simp add: writable_def)
    show "appended A d s' bs (on_base f s')"
    proof (rule on_base_appended [OF s'(1) d])
      fix b assume b: "cbb_base s' = Some b" "buffer_ok b"
      then have "contents b = closed d s" using s'(2) closed_at_end [of s' d] d by (simp add: written_def)
      then show "buf_appended A b bs (f b)" using f [OF b(2)] length_contents [OF b(2)] by simp
    qed
  qed
  then show ?thesis by simp
qed

text \<open>Room for \<open>n\<close> bytes, filled in by \<open>g\<close>.\<close>

lemma buffer_fill:
  assumes b: "buffer_ok b" and A: "malloc_spec A" and n: "cb_len b + length bs \<le> 2 ^ 62"
    and g: "\<And>m1 m2 m3. m1 = contents b \<Longrightarrow> length m2 = length bs \<Longrightarrow> g (cb_len b) (m1 @ m2 @ m3) = m1 @ bs @ m3"
  shows "buf_appended A b bs (andthen (cbb_buffer_add A (length bs) b)
      (\<lambda>dest b. (Some (h dest), b\<lparr>cb_buf := g dest (cb_buf b)\<rparr>)))"
proof (cases rule: buffer_add_spec [OF b A n, case_names fail ok])
  case fail
  then show ?thesis using b by (simp add: buf_appended_def buffer_ok_def)
next
  case (ok b')
  define m2 m3 where "m2 = take (length bs) (drop (cb_len b) (cb_buf b'))"
    and "m3 = drop (cb_len b + length bs) (cb_buf b')"
  have "cb_buf b' = take (cb_len b) (cb_buf b') @ drop (cb_len b) (cb_buf b')" by simp
  also have "drop (cb_len b) (cb_buf b') = m2 @ m3"
    using append_take_drop_id [of "length bs" "drop (cb_len b) (cb_buf b')"]
    by (simp add: m2_def m3_def add.commute)
  finally have buf: "cb_buf b' = contents b @ m2 @ m3" using ok(4) by simp
  have m2: "length m2 = length bs" using ok(2,3) by (auto simp: m2_def buffer_ok_def)
  have "cb_cap b' = cb_len b + length bs + length m3"
    using ok(2) b m2 by (simp add: buffer_ok_def [of b'] buf)
  then show ?thesis
    using ok b m2 g [OF refl m2, of m3] by (simp add: buf_appended_def buffer_ok_def contents_def buf)
qed

end
