(* ===== verification/Cbb_Ops.thy ===== *)
theory Cbb_Ops
  imports Cbb_Tree
begin

text \<open>
  Every writer of \<^verbatim>\<open>cbb.c\<close> as an append: fixed-width integers, bytes, reserved space, base-128
  integers, identifier octets, and the opening of length-prefixed and ASN.1 children.
\<close>

named_theorems append_intros

section \<open>Bytes and integers\<close>

lemma snd_store_be: "snd (store_be k off v mem) = v div 256 ^ k"
  by (induction k arbitrary: v mem) (simp_all add: div_mult2_eq)

lemma store_be_pair: "store_be k off v mem = (fst (store_be k off v mem), v div 256 ^ k)"
  using snd_store_be by (metis prod.collapse)

lemma buffer_add_u_appends:
  assumes b: "buffer_ok b" and A: "malloc_spec A" and n: "cb_len b + k \<le> 2 ^ 62" and v: "v < 256 ^ k"
  shows "buf_appended A b (be_bytes k v) (cbb_buffer_add_u A v k b)"
proof (cases "k = 0")
  case True
  with b show ?thesis by (simp add: cbb_buffer_add_u_def buf_appended_def)
next
  case False
  have eq: "cbb_buffer_add_u A v k b = andthen (cbb_buffer_add A (length (be_bytes k v)) b)
      (\<lambda>dest b. (Some ((\<lambda>_. ()) dest), b\<lparr>cb_buf := (\<lambda>d m. fst (store_be k d v m)) dest (cb_buf b)\<rparr>))"
    using False v store_be_pair [of k _ v]
    by (cases "cbb_buffer_add A k b" rule: prod.exhaust; cases "fst (cbb_buffer_add A k b)")
      (simp_all add: cbb_buffer_add_u_def split_beta snd_store_be)
  show ?thesis unfolding eq
  proof (rule buffer_fill [OF b A])
    show "cb_len b + length (be_bytes k v) \<le> 2 ^ 62" using n by simp
    show "fst (store_be k (cb_len b) v (m1 @ m2 @ m3)) = m1 @ be_bytes k v @ m3"
      if "m1 = contents b" "length m2 = length (be_bytes k v)" for m1 m2 m3
      using store_be_split [of m2 k m1 v m3] that b by simp
  qed
qed

lemma cbb_add_u_appends:
  assumes "writable d s" "malloc_spec A" "length (closed d s) + k \<le> 2 ^ 59" "v < 256 ^ k"
  shows "appended A d s (be_bytes k v) (cbb_add_u A v k d s)"
  unfolding cbb_add_u_def using assms
  by (intro flush_on_base_appended buffer_add_u_appends) simp_all

lemma CBB_add_u8_appends [append_intros]:
  "writable d s \<Longrightarrow> malloc_spec A \<Longrightarrow> length (closed d s) + 1 \<le> 2 ^ 59 \<Longrightarrow>
   appended A d s [v] (CBB_add_u8 A v d s)"
  using cbb_add_u_appends [of d s A 1 "unat v"] by (simp add: CBB_add_u8_def)

lemma CBB_add_u16_appends [append_intros]:
  "writable d s \<Longrightarrow> malloc_spec A \<Longrightarrow> length (closed d s) + 2 \<le> 2 ^ 59 \<Longrightarrow>
   appended A d s (be_bytes 2 (unat v)) (CBB_add_u16 A v d s)"
  using cbb_add_u_appends [of d s A 2 "unat v"] unsigned_less [of v, where 'a = nat]
  by (simp add: CBB_add_u16_def)

lemma CBB_add_u24_appends [append_intros]:
  "writable d s \<Longrightarrow> malloc_spec A \<Longrightarrow> length (closed d s) + 3 \<le> 2 ^ 59 \<Longrightarrow> unat v < 2 ^ 24 \<Longrightarrow>
   appended A d s (be_bytes 3 (unat v)) (CBB_add_u24 A v d s)"
  using cbb_add_u_appends [of d s A 3 "unat v"] by (simp add: CBB_add_u24_def)

lemma CBB_add_u32_appends [append_intros]:
  "writable d s \<Longrightarrow> malloc_spec A \<Longrightarrow> length (closed d s) + 4 \<le> 2 ^ 59 \<Longrightarrow>
   appended A d s (be_bytes 4 (unat v)) (CBB_add_u32 A v d s)"
  using cbb_add_u_appends [of d s A 4 "unat v"] unsigned_less [of v, where 'a = nat]
  by (simp add: CBB_add_u32_def)

lemma CBB_add_u64_appends [append_intros]:
  "writable d s \<Longrightarrow> malloc_spec A \<Longrightarrow> length (closed d s) + 8 \<le> 2 ^ 59 \<Longrightarrow>
   appended A d s (be_bytes 8 (unat v)) (CBB_add_u64 A v d s)"
  using cbb_add_u_appends [of d s A 8 "unat v"] unsigned_less [of v, where 'a = nat]
  by (simp add: CBB_add_u64_def)

text \<open>Byte order.\<close>

lemma rev_be_bytes: "rev (be_bytes k n) = le_bytes k n"
  by (induction k arbitrary: n) auto

lemma be_bytes_bswap:
  fixes w :: "'a :: len word"
  assumes "2 ^ LENGTH('a) = (256 :: nat) ^ k"
  shows "be_bytes k (unat (bswap k w)) = le_bytes k (unat w)"
proof -
  let ?l = "le_nat (be_bytes k (unat w))"
  have "?l < 2 ^ LENGTH('a)" using le_nat_bound [of "be_bytes k (unat w)"] assms by simp
  then have "unat (bswap k w) = ?l" by (simp add: bswap_def unat_of_nat)
  moreover have "rev (be_bytes k ?l) = be_bytes k (unat w)"
    by (simp add: rev_be_bytes le_bytes_nat)
  ultimately show ?thesis by (metis rev_be_bytes rev_rev_ident)
qed

lemma CBB_add_le_appends [append_intros]:
  assumes "writable d s" "malloc_spec A" "length (closed d s) + 8 \<le> 2 ^ 59"
  shows "appended A d s (le_bytes 2 (unat v)) (CBB_add_u16le A v d s)"
    "appended A d s (le_bytes 4 (unat w)) (CBB_add_u32le A w d s)"
    "appended A d s (le_bytes 8 (unat x)) (CBB_add_u64le A x d s)"
  using CBB_add_u16_appends [of d s A "bswap 2 v"] CBB_add_u32_appends [of d s A "bswap 4 w"]
    CBB_add_u64_appends [of d s A "bswap 8 x"] assms
  by (simp_all add: CBB_add_u16le_def CBB_add_u32le_def CBB_add_u64le_def be_bytes_bswap)

lemma CBB_add_bytes_appends [append_intros]:
  assumes "writable d s" "malloc_spec A" "length (closed d s) + length bs \<le> 2 ^ 59"
  shows "appended A d s bs (CBB_add_bytes A bs d s)"
  unfolding CBB_add_bytes_def
proof (rule flush_on_base_appended [OF assms(1,2)])
  show "length (closed d s) \<le> 2 ^ 59" using assms(3) by simp
  fix b assume b: "buffer_ok b" "cb_len b = length (closed d s)"
  have "buf_appended A b bs (andthen (cbb_buffer_add A (length bs) b)
      (\<lambda>dest b. (Some ((\<lambda>_. ()) dest), b\<lparr>cb_buf := (\<lambda>d m. poke m d bs) dest (cb_buf b)\<rparr>)))"
    by (rule buffer_fill [OF b(1) assms(2)]) (use assms(3) b in \<open>auto simp: poke_def\<close>)
  then show "buf_appended A b bs (andthen (cbb_buffer_add A (length bs) b)
      (\<lambda>dest b. (Some (), b\<lparr>cb_buf := poke (cb_buf b) dest bs\<rparr>)))" by simp
qed

text \<open>Reserved space holds whatever was in the block: some bytes of that number are appended.\<close>

lemma CBB_add_space_appends:
  assumes "writable d s" "malloc_spec A" "length (closed d s) + n \<le> 2 ^ 59"
  shows "\<exists>bs. length bs = n \<and> appended A d s bs (CBB_add_space A n d s)"
proof -
  let ?r = "CBB_flush A d s"
  have fl: "appended A d s [] ?r" using CBB_flush_appended assms by simp
  show ?thesis
  proof (cases "fst ?r")
    case None
    then obtain s' where r: "?r = (None, s')" by (cases ?r) auto
    have "appended A d s (replicate n 0) (CBB_add_space A n d s)"
      using fl roomy_le [of A s "length (closed d s) + n" "length (closed d s)"]
      by (auto simp: CBB_add_space_def r appended_def)
    then show ?thesis by (intro exI [of _ "replicate n 0"]) simp
  next
    case (Some u)
    then obtain s' where r: "?r = (Some u, s')" by (cases ?r) auto
    from fl have s': "writable d s'" "closed d s' = closed d s" "cbb_chain s' = take d (cbb_chain s)"
      by (simp_all add: r appended_def)
    then obtain b where b: "cbb_base s' = Some b" "buffer_ok b"
      by (auto simp: writable_def cbb_ok_def split: option.splits)
    have d: "length (cbb_chain s') = d" using s'(3) assms(1) by (simp add: writable_def)
    have len: "cb_len b = length (closed d s)"
      using closed_at_end [of s' d] d s'(2) length_contents [OF b(2)] by (simp add: written_def b)
    define bs where "bs = (case cbb_buffer_add A n b of
      (None, _) \<Rightarrow> replicate n 0 | (Some _, b') \<Rightarrow> drop (cb_len b) (contents b'))"
    have nn: "cb_len b + n \<le> 2 ^ 62" using assms(3) len by simp
    have ba: "length bs = n \<and> buf_appended A b bs (cbb_buffer_add A n b)"
    proof (cases rule: buffer_add_spec [OF b(2) assms(2) nn, case_names fail ok])
      case fail
      then show ?thesis using b(2) by (simp add: bs_def buf_appended_def buffer_ok_def)
    next
      case (ok b')
      have "take (cb_len b) (contents b') = contents b"
        using ok(3,4) by (simp add: contents_def [of b'] min_absorb1)
      then have "contents b' = contents b @ drop (cb_len b) (contents b')"
        by (metis append_take_drop_id)
      with ok show ?thesis using length_contents [OF ok(2)] by (simp add: bs_def buf_appended_def)
    qed
    have "appended A d s ([] @ bs) (andthen ?r (\<lambda>_. on_base (cbb_buffer_add A n)))"
      by (rule appended_andthen [OF fl], rule on_base_appended) (use ba b r s' d in auto)
    with ba show ?thesis by (auto simp: CBB_add_space_def)
  qed
qed

section \<open>Base-128 integers and identifier octets\<close>

lemma base128_len_0 [simp]: "base128_len 0 = 0"
  by (simp add: base128_len.simps)

lemma base128_len_pos: "n > 0 \<Longrightarrow> base128_len n = Suc (base128_len (n div 128))"
  by (subst base128_len.simps) simp

definition octet128 :: "u64 \<Rightarrow> nat \<Rightarrow> byte" where
  "octet128 v i =
     (let b = ucast (drop_bit (7 * i) v AND 0x7f) :: byte in if i \<noteq> 0 then b OR 0x80 else b)"

lemma byte_or_80: "unat (b :: byte) < 128 \<Longrightarrow> unat (b OR 0x80) = 128 + unat b"
  by (rule all_bytes [of "\<lambda>b. unat b < 128 \<longrightarrow> unat (b OR 0x80) = 128 + unat b" b, rule_format])
     (code_simp, assumption)

lemma unat_octet128:
  "unat (octet128 v i) = (if i = 0 then 0 else 128) + unat v div 128 ^ i mod 128"
proof -
  have m: "unat (drop_bit (7 * i) v AND 0x7f) = unat v div 2 ^ (7 * i) mod 128"
    using unat_and_mask [of "drop_bit (7 * i) v" 7] by (simp add: mask_eq_exp_minus_1 unat_drop_bit)
  then have "unat (ucast (drop_bit (7 * i) v AND 0x7f) :: byte) = unat v div 128 ^ i mod 128"
    by (simp add: unsigned_ucast_eq take_bit_eq_mod power_mult mod_less less_trans [of _ 128 256])
  then show ?thesis by (cases "i = 0") (simp_all add: octet128_def Let_def byte_or_80)
qed

lemma rev_upt_Suc: "rev [0..<Suc m] = map Suc (rev [0..<m]) @ [0]"
  by (simp add: upt_conv_Cons map_Suc_upt [symmetric] rev_map del: upt_Suc)

lemma cont128_map:
  "cont128 n = map (\<lambda>j. word_of_nat (128 + n div 128 ^ j mod 128)) (rev [0..<base128_len n])"
proof (induction n rule: cont128.induct)
  case (1 n)
  show ?case
  proof (cases "n = 0")
    case False
    then have len: "base128_len n = Suc (base128_len (n div 128))" by (simp add: base128_len_pos)
    then show ?thesis using False 1
      by (subst cont128.simps) (simp add: len rev_upt_Suc div_mult2_eq del: upt_Suc)
  qed simp
qed

lemma octets_der_base128:
  "map (octet128 v) (rev [0..<Suc (base128_len (unat v div 128))]) = der_base128 (unat v)"
proof -
  let ?n = "unat v"
  have "octet128 v (Suc j) = word_of_nat (128 + ?n div 128 div 128 ^ j mod 128)" for j
    by (rule word_eq_of_nat) (simp add: unat_octet128 div_mult2_eq)
  moreover have "octet128 v 0 = word_of_nat (?n mod 128)"
    by (rule word_eq_of_nat) (simp add: unat_octet128)
  ultimately show ?thesis
    by (simp add: rev_upt_Suc der_base128_def cont128_map del: upt_Suc)
qed

lemma add_base128_loop_appends:
  assumes "writable d s" "malloc_spec A" "length (closed d s) + k \<le> 2 ^ 59" "k > 0"
  shows "appended A d s (map (octet128 v) (rev [0..<k])) (add_base128_loop A v k d s)"
  using assms
proof (induction k arbitrary: s)
  case (Suc k)
  have step: "appended A d s [octet128 v k] (CBB_add_u8 A (octet128 v k) d s)"
    using Suc.prems by (intro append_intros) simp_all
  have unf: "add_base128_loop A v (Suc k) d s =
      andthen (CBB_add_u8 A (octet128 v k) d s) (\<lambda>_. add_base128_loop A v k d)"
    by (simp add: octet128_def Let_def)
  show ?case
  proof (cases "k = 0")
    case True
    with step show ?thesis
      by (cases "CBB_add_u8 A (octet128 v k) d s"; cases "fst (CBB_add_u8 A (octet128 v k) d s)")
        (simp_all add: appended_def unf [unfolded True] True del: add_base128_loop.simps(2))
  next
    case False
    have "appended A d s ([octet128 v k] @ map (octet128 v) (rev [0..<k]))
      (andthen (CBB_add_u8 A (octet128 v k) d s) (\<lambda>_. add_base128_loop A v k d))"
      by (rule appended_andthen [OF step], rule Suc.IH) (use Suc.prems False in auto)
    then show ?thesis by (simp add: unf del: add_base128_loop.simps)
  qed
qed simp

lemma length_der_base128: "length (der_base128 n) = Suc (base128_len (n div 128))"
  by (simp add: der_base128_def cont128_map)

lemma add_base128_integer_appends [append_intros]:
  assumes "writable d s" "malloc_spec A" "length (closed d s) + length (der_base128 (unat v)) \<le> 2 ^ 59"
  shows "appended A d s (der_base128 (unat v)) (add_base128_integer A v d s)"
proof -
  have "(if base128_len (unat v) = 0 then 1 else base128_len (unat v)) = Suc (base128_len (unat v div 128))"
    by (cases "unat v = 0") (simp_all add: base128_len_pos)
  then show ?thesis
    using add_base128_loop_appends [of d s A "Suc (base128_len (unat v div 128))" v] assms
    by (simp add: add_base128_integer_def octets_der_base128 length_der_base128 Let_def del: upt_Suc)
qed

section \<open>Opening children\<close>

definition opened :: "allocator \<Rightarrow> nat \<Rightarrow> cbb \<Rightarrow> byte list \<Rightarrow> cbb_child \<Rightarrow> 'a option \<times> cbb \<Rightarrow> bool" where
  "opened A d s hdr c r \<longleftrightarrow>
     (case r of
        (None, s') \<Rightarrow> cbb_ok s' \<and> \<not> (fits d s \<and> roomy A s (length (closed d s @ hdr)))
      | (Some _, s') \<Rightarrow> writable (Suc d) s' \<and> cbb_chain s' = take d (cbb_chain s) @ [c] \<and>
          written s' = closed d s @ hdr \<and> fits d s \<and> grew s s')"

lemma chain_below: "writable d s \<Longrightarrow> chain_ok 0 (length (closed d s)) (take d (cbb_chain s))"
proof -
  assume w: "writable d s"
  then obtain b where b: "cbb_base s = Some b" "buffer_ok b" "chain_ok 0 (cb_len b) (cbb_chain s)"
    by (auto simp: writable_def cbb_ok_def split: option.splits)
  have "cb_len b \<le> length (closed d s)"
    using length_closed [of s d] w b(1,2) by (simp add: writable_def written_def)
  with b(3) show ?thesis by (intro chain_ok_take) (rule chain_ok_mono)
qed

lemma base_len:
  assumes "writable d s" "cbb_base s = Some b" "length (cbb_chain s) = d"
  shows "cb_len b = length (closed d s)"
  using assms closed_at_end [of s d] by (auto simp: writable_def cbb_ok_def written_def)

lemma open_child_opened:
  assumes w: "writable d s" and ap: "appended A d s hdr (Some a, s')" and c: "child_ok c"
    and off: "length (closed d s) \<le> child_offset c" "child_end c = length (closed d s @ hdr)"
  shows "opened A d s hdr c (open_child d c s')"
proof -
  from ap have s': "writable d s'" "cbb_chain s' = take d (cbb_chain s)"
    "closed d s' = closed d s @ hdr" "fits d s" "grew s s'" by (simp_all add: appended_def)
  have d: "length (cbb_chain s') = d" "d \<le> length (cbb_chain s)"
    using s'(2) w by (simp_all add: writable_def)
  from s'(1) obtain b where b: "cbb_base s' = Some b" "buffer_ok b" "\<not> cb_error b"
    by (auto simp: writable_def cbb_ok_def split: option.splits)
  have len: "cb_len b = length (closed d s @ hdr)" using base_len [OF s'(1) b(1) d(1)] s'(3) by simp
  have "chain_ok 0 (child_offset c) (take d (cbb_chain s))"
    by (rule chain_ok_mono [OF chain_below [OF w] off(1)])
  then have "chain_ok 0 (cb_len b) (take d (cbb_chain s) @ [c])"
    using c off(2) len by (simp add: chain_ok_append)
  moreover have "written s' = closed d s @ hdr" using closed_at_end [of s' d] d s'(3) by simp
  ultimately show ?thesis
    using b d s' by (simp add: opened_def open_child_def writable_def cbb_ok_def written_def grew_def)
qed

lemma cbb_buffer_add_value: "cbb_buffer_add A n b = (Some p, b') \<Longrightarrow> p = cb_len b"
  by (auto simp: cbb_buffer_add_def cbb_buffer_reserve_def Let_def andthen_Some_iff
      split: if_splits option.splits)

lemma cbb_add_length_prefixed_opens:
  assumes w: "writable d s" and A: "malloc_spec A" and small: "length (closed d s) + k \<le> 2 ^ 59"
    and k: "1 \<le> k"
  shows "opened A d s (replicate k 0)
    \<lparr>child_offset = length (closed d s), pending_len_len = k, pending_is_asn1 = False\<rparr>
    (cbb_add_length_prefixed A k d s)"
proof -
  let ?f = "\<lambda>b. andthen (cbb_buffer_add A k b) (\<lambda>prefix_bytes b.
      (Some prefix_bytes, b\<lparr>cb_buf := poke (cb_buf b) prefix_bytes (replicate k 0)\<rparr>))"
  let ?r = "andthen (CBB_flush A d s) (\<lambda>_. on_base ?f)"
  let ?c = "\<lparr>child_offset = length (closed d s), pending_len_len = k, pending_is_asn1 = False\<rparr>"
  have "appended A d s (replicate k 0) ?r"
  proof (rule flush_on_base_appended [OF w A])
    show "length (closed d s) \<le> 2 ^ 59" using small by simp
    fix b assume b: "buffer_ok b" "cb_len b = length (closed d s)"
    have "buf_appended A b (replicate k 0) (andthen (cbb_buffer_add A (length (replicate k (0::byte))) b)
        (\<lambda>dest b. (Some ((\<lambda>p. p) dest), b\<lparr>cb_buf := (\<lambda>d m. poke m d (replicate k 0)) dest (cb_buf b)\<rparr>)))"
      by (rule buffer_fill [OF b(1) A]) (use small b in \<open>auto simp: poke_def\<close>)
    then show "buf_appended A b (replicate k 0) (?f b)" by simp
  qed
  note ap = this
  have eq: "cbb_add_length_prefixed A k d s =
      andthen ?r (\<lambda>off. open_child d \<lparr>child_offset = off, pending_len_len = k, pending_is_asn1 = False\<rparr>)"
    unfolding cbb_add_length_prefixed_def
    by (cases "CBB_flush A d s"; cases "fst (CBB_flush A d s)") simp_all
  obtain x s' where xs: "?r = (x, s')" by (rule prod.exhaust)
  show ?thesis
  proof (cases x)
    case None
    with ap xs show ?thesis by (simp add: eq appended_def opened_def)
  next
    case (Some p)
    with xs have r: "?r = (Some p, s')" by simp
    then obtain u s1 where f1: "CBB_flush A d s = (Some u, s1)" and f2: "on_base ?f s1 = (Some p, s')"
      by (auto elim!: andthen_SomeE)
    have "appended A d s [] (CBB_flush A d s)" using CBB_flush_appended [OF w A] small by simp
    then have s1: "writable d s1" "closed d s1 = closed d s" "cbb_chain s1 = take d (cbb_chain s)"
      by (simp_all add: f1 appended_def)
    then obtain b where b: "cbb_base s1 = Some b" by (auto simp: writable_def split: option.splits)
    then have "p = cb_len b"
      using f2 by (auto simp: on_base_def andthen_Some_iff split: prod.splits dest: cbb_buffer_add_value)
    then have p: "p = length (closed d s)"
      using base_len [OF s1(1) b] s1 w by (simp add: writable_def)
    have "opened A d s (replicate k 0) ?c (open_child d ?c s')"
      by (rule open_child_opened [OF w ap [unfolded r]]) (use k in \<open>simp_all add: child_ok_def child_end_def\<close>)
    then show ?thesis by (simp add: eq r p)
  qed
qed

text \<open>The identifier octets that \<^verbatim>\<open>CBB_add_asn1\<close> computes are \<open>der_tag\<close>.\<close>

definition tag_bits :: "u32 \<Rightarrow> byte" where
  "tag_bits tag = ucast (drop_bit 24 tag) AND 0xe0"

lemma byte_and_e0: "b AND 0xe0 = push_bit 5 (drop_bit 5 (b :: byte))"
  by (rule all_bytes [of "\<lambda>b. b AND 0xe0 = push_bit 5 (drop_bit 5 b)" b]) code_simp

lemma tag_bits_or:
  assumes "unat x < 32"
  shows "unat (tag_bits t OR x) = tag_class t * 32 + unat x"
proof -
  have "unat t < 2 ^ 32" using unsigned_less [of t, where 'a = nat] by simp
  then have "unat (ucast (drop_bit 24 t) :: byte) = unat t div 2 ^ 24"
    by (simp add: unsigned_ucast_eq unat_drop_bit take_bit_nat_eq_self less_mult_imp_div_less)
  then have c: "unat (drop_bit 5 (ucast (drop_bit 24 t) :: byte)) = tag_class t"
    by (simp add: unat_drop_bit tag_class_def div_mult2_eq [symmetric])
  have "unat (tag_bits t OR x) = unat (drop_bit 5 (ucast (drop_bit 24 t) :: byte)) * 2 ^ 5 + unat x"
    unfolding tag_bits_def byte_and_e0
    using assms tag_class_less [of t] by (intro unat_push_bit_or) (simp_all add: c)
  then show ?thesis by (simp add: c)
qed

lemma unat_tag_number: "unat (t AND 0x1fffffff) = tag_number t"
  using unat_and_mask [of t 29] by (simp add: mask_eq_exp_minus_1 tag_number_def)

text \<open>The part of \<^verbatim>\<open>CBB_add_asn1\<close> between the flush and the length octet.\<close>

lemma tag_octets_append:
  assumes "writable d s" "malloc_spec A" "length (closed d s) + 6 \<le> 2 ^ 59"
  shows "appended A d s (der_tag t)
    (if t AND 0x1fffffff \<ge> 0x1f
     then andthen (CBB_add_u8 A (tag_bits t OR 0x1f) d s) (\<lambda>_. add_base128_integer A (ucast (t AND 0x1fffffff)) d)
     else CBB_add_u8 A (tag_bits t OR ucast (t AND 0x1fffffff)) d s)"
proof -
  have ge: "t AND 0x1fffffff \<ge> 0x1f \<longleftrightarrow> tag_number t \<ge> 31"
    by (simp add: word_le_nat_alt unat_tag_number)
  show ?thesis
  proof (cases "tag_number t \<ge> 31")
    case True
    have u: "unat (ucast (t AND 0x1fffffff) :: u64) = tag_number t"
      by (simp add: unat_ucast_up unat_tag_number)
    have octet: "tag_bits t OR 0x1f = word_of_nat (tag_class t * 32 + 31)"
      by (rule word_eq_of_nat) (simp add: tag_bits_or)
    have tag: "der_tag t = [tag_bits t OR 0x1f] @ der_base128 (tag_number t)"
      using True by (simp add: der_tag_def octet del: of_nat_add of_nat_mult)
    have len: "length (der_base128 (tag_number t)) \<le> 5"
      using length_der_tag(2) [of t] by (simp add: tag)
    have first: "appended A d s [tag_bits t OR 0x1f] (CBB_add_u8 A (tag_bits t OR 0x1f) d s)"
      using assms by (intro append_intros) simp_all
    have "appended A d s ([tag_bits t OR 0x1f] @ der_base128 (tag_number t))
      (andthen (CBB_add_u8 A (tag_bits t OR 0x1f) d s)
        (\<lambda>_. add_base128_integer A (ucast (t AND 0x1fffffff)) d))"
      by (rule appended_andthen [OF first], subst u [symmetric], rule append_intros)
        (use assms len in \<open>simp_all add: u\<close>)
    then show ?thesis using True by (simp add: ge tag)
  next
    case False
    then have u: "unat (ucast (t AND 0x1fffffff) :: byte) = tag_number t"
      by (simp add: unsigned_ucast_eq unat_tag_number take_bit_nat_eq_self)
    have "tag_bits t OR ucast (t AND 0x1fffffff) = word_of_nat (tag_class t * 32 + tag_number t)"
      using False by (intro word_eq_of_nat) (simp add: tag_bits_or u)
    then have tag: "der_tag t = [tag_bits t OR ucast (t AND 0x1fffffff)]"
      using False by (simp add: der_tag_def del: of_nat_add of_nat_mult)
    have "appended A d s [tag_bits t OR ucast (t AND 0x1fffffff)]
        (CBB_add_u8 A (tag_bits t OR ucast (t AND 0x1fffffff)) d s)"
      using assms by (intro append_intros) simp_all
    then show ?thesis using False by (simp add: ge tag)
  qed
qed

lemma CBB_add_asn1_opens:
  assumes w: "writable d s" and A: "malloc_spec A" and small: "length (closed d s) + 7 \<le> 2 ^ 59"
  shows "opened A d s (der_tag t @ [0])
    \<lparr>child_offset = length (closed d s @ der_tag t), pending_len_len = 1, pending_is_asn1 = True\<rparr>
    (CBB_add_asn1 A t d s)"
proof -
  let ?tag = "\<lambda>s. if t AND 0x1fffffff \<ge> 0x1f
     then andthen (CBB_add_u8 A (tag_bits t OR 0x1f) d s) (\<lambda>_. add_base128_integer A (ucast (t AND 0x1fffffff)) d)
     else CBB_add_u8 A (tag_bits t OR ucast (t AND 0x1fffffff)) d s"
  let ?r = "andthen (CBB_flush A d s) (\<lambda>_. ?tag)"
  let ?c = "\<lambda>off. \<lparr>child_offset = off, pending_len_len = 1, pending_is_asn1 = True\<rparr>"
  let ?k = "\<lambda>s. case cbb_base s of None \<Rightarrow> (None, s) | Some b \<Rightarrow>
      andthen (CBB_add_u8 A 0 d s) (\<lambda>_. open_child d (?c (cb_len b)))"
  have fl: "appended A d s [] (CBB_flush A d s)" using CBB_flush_appended [OF w A] small by simp
  have "appended A d s ([] @ der_tag t) ?r"
    by (rule appended_andthen [OF fl], rule tag_octets_append) (use small A in auto)
  then have ap: "appended A d s (der_tag t) ?r" by simp
  have "CBB_add_asn1 A t d s = andthen (CBB_flush A d s) (\<lambda>_ s. andthen (?tag s) (\<lambda>_. ?k))"
    unfolding CBB_add_asn1_def Let_def tag_bits_def by (rule refl)
  also have "\<dots> = andthen ?r (\<lambda>_. ?k)"
    by (cases "CBB_flush A d s"; cases "fst (CBB_flush A d s)") simp_all
  finally have eq: "CBB_add_asn1 A t d s = andthen ?r (\<lambda>_. ?k)" .
  obtain x s1 where xs: "?r = (x, s1)" by (rule prod.exhaust)
  show ?thesis
  proof (cases x)
    case None
    with ap xs have "cbb_ok s1 \<and> \<not> (fits d s \<and> roomy A s (length (closed d s @ der_tag t)))"
      by (simp add: appended_def)
    then show ?thesis
      unfolding eq xs None using roomy_le [of A s "length (closed d s @ der_tag t @ [0])" "length (closed d s @ der_tag t)"]
      by (auto simp: opened_def)
  next
    case (Some u)
    with ap xs have s1: "writable d s1" "closed d s1 = closed d s @ der_tag t"
      "cbb_chain s1 = take d (cbb_chain s)" "fits d s" "grew s s1" by (simp_all add: appended_def)
    then obtain b where b: "cbb_base s1 = Some b" by (auto simp: writable_def split: option.splits)
    have len: "cb_len b = length (closed d s @ der_tag t)"
      using base_len [OF s1(1) b] s1(2,3) w by (simp add: writable_def)
    have "appended A d s (der_tag t @ [0]) (andthen ?r (\<lambda>_. CBB_add_u8 A 0 d))"
      by (rule appended_andthen [OF ap], rule append_intros) (use small A length_der_tag(2) [of t] in auto)
    then have ap0: "appended A d s (der_tag t @ [0]) (CBB_add_u8 A 0 d s1)" by (simp add: xs Some)
    obtain y s2 where ys: "CBB_add_u8 A 0 d s1 = (y, s2)" by (rule prod.exhaust)
    show ?thesis
    proof (cases y)
      case None
      with ap0 ys show ?thesis unfolding eq xs Some by (simp add: b opened_def appended_def)
    next
      case (Some v)
      have "opened A d s (der_tag t @ [0]) (?c (cb_len b)) (open_child d (?c (cb_len b)) s2)"
        by (rule open_child_opened [OF w ap0 [unfolded ys Some]])
          (simp_all add: child_ok_def child_end_def len)
      then show ?thesis unfolding eq xs \<open>x = Some u\<close> by (simp add: b ys Some len)
    qed
  qed
qed

end
