(* ===== verification/Cbb_Doc.thy ===== *)
theory Cbb_Doc
  imports Cbb_Ops Der_Int
begin

text \<open>
  Whole documents. A client of \<^verbatim>\<open>cbb.c\<close> opens a \<^verbatim>\<open>CBB\<close>, makes nested calls and finishes it; \<open>dtree\<close>
  is the shape of such a document, \<open>emit\<close> the calls and \<open>encode\<close> the bytes it stands for. The
  calls produce the encoding exactly when every part fits its length prefix and the buffer.
\<close>

datatype prefix_width = U8 | U16 | U24

datatype dtree =
    Octets "byte list"
  | Prefixed prefix_width "dtree list"
  | Element u32 "dtree list"

fun width_octets :: "prefix_width \<Rightarrow> nat" where
  "width_octets U8 = 1" | "width_octets U16 = 2" | "width_octets U24 = 3"

fun add_prefixed :: "prefix_width \<Rightarrow> allocator \<Rightarrow> nat \<Rightarrow> cbb \<Rightarrow> unit option \<times> cbb" where
  "add_prefixed U8 = CBB_add_u8_length_prefixed"
| "add_prefixed U16 = CBB_add_u16_length_prefixed"
| "add_prefixed U24 = CBB_add_u24_length_prefixed"

fun emit :: "allocator \<Rightarrow> dtree \<Rightarrow> nat \<Rightarrow> cbb \<Rightarrow> unit option \<times> cbb"
  and emits :: "allocator \<Rightarrow> dtree list \<Rightarrow> nat \<Rightarrow> cbb \<Rightarrow> unit option \<times> cbb" where
  "emit A (Octets bs) d s = CBB_add_bytes A bs d s"
| "emit A (Prefixed w ts) d s = andthen (add_prefixed w A d s) (\<lambda>_. emits A ts (Suc d))"
| "emit A (Element tag ts) d s = andthen (CBB_add_asn1 A tag d s) (\<lambda>_. emits A ts (Suc d))"
| "emits A [] d s = (Some (), s)"
| "emits A (t # ts) d s = andthen (emit A t d s) (\<lambda>_. emits A ts d)"

fun encode :: "dtree \<Rightarrow> byte list" and encodes :: "dtree list \<Rightarrow> byte list" where
  "encode (Octets bs) = bs"
| "encode (Prefixed w ts) = be_bytes (width_octets w) (length (encodes ts)) @ encodes ts"
| "encode (Element tag ts) = der_element tag (encodes ts)"
| "encodes [] = []"
| "encodes (t # ts) = encode t @ encodes ts"

text \<open>Every length fits its prefix.\<close>

fun tree_fits :: "dtree \<Rightarrow> bool" and forest_fits :: "dtree list \<Rightarrow> bool" where
  "tree_fits (Octets bs) \<longleftrightarrow> True"
| "tree_fits (Prefixed w ts) \<longleftrightarrow> forest_fits ts \<and> length (encodes ts) < 256 ^ width_octets w"
| "tree_fits (Element tag ts) \<longleftrightarrow> forest_fits ts \<and> length (encodes ts) \<le> 0xfffffffe"
| "forest_fits [] \<longleftrightarrow> True"
| "forest_fits (t # ts) \<longleftrightarrow> tree_fits t \<and> forest_fits ts"

section \<open>Emission\<close>

definition emitted :: "allocator \<Rightarrow> nat \<Rightarrow> cbb \<Rightarrow> byte list \<Rightarrow> bool \<Rightarrow> 'a option \<times> cbb \<Rightarrow> bool" where
  "emitted A d s bs ok r \<longleftrightarrow>
     (case r of
        (None, s') \<Rightarrow> cbb_ok s' \<and> \<not> (fits d s \<and> ok \<and> roomy A s (length (closed d s @ bs)))
      | (Some _, s') \<Rightarrow> writable d s' \<and> take d (cbb_chain s') = take d (cbb_chain s) \<and>
          closed d s' = closed d s @ bs \<and> (fits d s' \<longleftrightarrow> fits d s \<and> ok) \<and> grew s s')"

lemma appended_emitted: "appended A d s bs r \<Longrightarrow> emitted A d s bs True r"
  by (auto simp: appended_def emitted_def fits_at_end split: prod.splits option.splits)

lemma emitted_seq:
  assumes "emitted A d s xs ok1 r"
    and "\<And>a s'. r = (Some a, s') \<Longrightarrow> writable d s' \<Longrightarrow> closed d s' = closed d s @ xs \<Longrightarrow>
      emitted A d s' ys ok2 (k a s')"
  shows "emitted A d s (xs @ ys) (ok1 \<and> ok2) (andthen r k)"
proof -
  obtain x s' where r: "r = (x, s')" by (rule prod.exhaust)
  show ?thesis
  proof (cases x)
    case None
    with assms(1) r roomy_le [of A s "length (closed d s @ xs @ ys)" "length (closed d s @ xs)"]
    show ?thesis by (auto simp: emitted_def)
  next
    case (Some a)
    with assms(1) r have 1: "writable d s'" "take d (cbb_chain s') = take d (cbb_chain s)"
      "closed d s' = closed d s @ xs" "fits d s' \<longleftrightarrow> fits d s \<and> ok1" "grew s s'"
      by (simp_all add: emitted_def)
    obtain y s'' where k: "k a s' = (y, s'')" by (rule prod.exhaust)
    from assms(2) [OF r [unfolded Some] 1(1,3)] have "emitted A d s' ys ok2 (y, s'')" by (simp add: k)
    with 1 show ?thesis
      using roomy_grew [OF 1(5), of A "length (closed d s @ xs @ ys)"] grew_trans [OF 1(5)]
      by (cases y) (auto simp: r Some k emitted_def)
  qed
qed

lemma emitted_child:
  assumes op: "opened A d s hdr c r" and d: "d \<le> length (cbb_chain s)"
    and c: "child_ok c" "child_end c = length (closed d s @ hdr)"
    and k: "\<And>a s'. r = (Some a, s') \<Longrightarrow> writable (Suc d) s' \<Longrightarrow> closed (Suc d) s' = closed d s @ hdr \<Longrightarrow>
      emitted A (Suc d) s' body ok (k a s')"
    and bs: "take (child_offset c) (closed d s @ hdr) @ child_prefix c body @ body = closed d s @ bs"
  shows "emitted A d s bs (ok \<and> child_fits c body) (andthen r k)"
proof -
  have "length (closed d s @ hdr @ body) \<le> length (closed d s @ bs)"
    using length_child_prefix(1) [OF c(1), of body] c(2) unfolding bs [symmetric]
    by (simp add: child_end_def)
  then have rm: "roomy A s (length (closed d s @ bs)) \<Longrightarrow> roomy A s (length (closed d s @ hdr @ body))"
    "roomy A s (length (closed d s @ hdr @ body)) \<Longrightarrow> roomy A s (length (closed d s @ hdr))"
    by (auto intro: roomy_le)
  obtain x s1 where r: "r = (x, s1)" by (rule prod.exhaust)
  show ?thesis
  proof (cases x)
    case None
    with op rm show ?thesis by (auto simp: r emitted_def opened_def)
  next
    case (Some a)
    with op r have 1: "writable (Suc d) s1" "cbb_chain s1 = take d (cbb_chain s) @ [c]"
      "written s1 = closed d s @ hdr" "fits d s" "grew s s1" by (simp_all add: opened_def)
    have len1: "length (cbb_chain s1) \<le> Suc d" using d by (simp add: 1(2))
    note cl1 = closed_at_end [OF len1, unfolded 1(3)] and ft1 = fits_at_end [OF len1]
    obtain y s2 where k': "k a s1 = (y, s2)" by (rule prod.exhaust)
    from k [OF r [unfolded Some] 1(1) cl1] have em: "emitted A (Suc d) s1 body ok (y, s2)"
      by (simp add: k')
    show ?thesis
    proof (cases y)
      case None
      with em ft1 cl1 rm(1) roomy_grew [OF 1(5)] show ?thesis
        by (auto simp: r Some k' emitted_def)
    next
      case (Some b)
      with em have 2: "writable (Suc d) s2" "take (Suc d) (cbb_chain s2) = take d (cbb_chain s) @ [c]"
        "closed (Suc d) s2 = closed d s @ hdr @ body" "fits (Suc d) s2 \<longleftrightarrow> ok" "grew s1 s2"
        by (simp_all add: emitted_def cl1 ft1 1(2) d)
      have dl: "Suc d \<le> length (cbb_chain s2)" using 2(1) by (simp add: writable_def)
      have "cbb_chain s2 ! d = take (Suc d) (cbb_chain s2) ! d" by simp
      also have "\<dots> = c" using d by (simp add: 2(2) nth_append)
      finally have drop: "drop d (cbb_chain s2) = c # drop (Suc d) (cbb_chain s2)"
        using Cons_nth_drop_Suc [of d "cbb_chain s2"] dl by simp
      have "take d (take (Suc d) (cbb_chain s2)) = take d (cbb_chain s)" unfolding 2(2) using d by simp
      then have tk: "take d (cbb_chain s2) = take d (cbb_chain s)" by (simp add: min_def)
      have "closed d s2 = close_child c (closed (Suc d) s2)" by (simp add: closed_def drop)
      also have "\<dots> = closed d s @ bs"
        using c(2) by (simp add: 2(3) close_child_def bs [symmetric] child_end_def)
      finally have cl: "closed d s2 = closed d s @ bs" .
      have "fits d s2 \<longleftrightarrow> fits (Suc d) s2 \<and> child_fits c (drop (child_end c) (closed (Suc d) s2))"
        by (simp add: fits_def drop closed_def)
      then have ft: "fits d s2 \<longleftrightarrow> ok \<and> child_fits c body" by (simp add: 2(3,4) c(2))
      have "writable d s2" using 2(1) by (simp add: writable_def)
      then show ?thesis
        using cl ft tk 1(4) grew_trans [OF 1(5) 2(5)] by (simp add: r \<open>x = Some a\<close> k' Some emitted_def)
    qed
  qed
qed

lemma add_prefixed_opens:
  assumes "writable d s" "malloc_spec A" "length (closed d s) + 3 \<le> 2 ^ 59"
  shows "opened A d s (replicate (width_octets w) 0)
    \<lparr>child_offset = length (closed d s), pending_len_len = width_octets w, pending_is_asn1 = False\<rparr>
    (add_prefixed w A d s)"
  using cbb_add_length_prefixed_opens [of d s A "width_octets w"] assms
  by (cases w) (simp_all add: CBB_add_u8_length_prefixed_def CBB_add_u16_length_prefixed_def
      CBB_add_u24_length_prefixed_def)

lemma emitted_none: "writable d s \<Longrightarrow> emitted A d s [] True (Some (), s)"
  by (simp add: emitted_def)

lemma emit_emits_spec:
  assumes "malloc_spec A"
  shows "writable d s \<Longrightarrow> length (closed d s @ encode t) + 16 \<le> 2 ^ 59 \<Longrightarrow>
      emitted A d s (encode t) (tree_fits t) (emit A t d s)"
    and "writable d s \<Longrightarrow> length (closed d s @ encodes ts) + 16 \<le> 2 ^ 59 \<Longrightarrow>
      emitted A d s (encodes ts) (forest_fits ts) (emits A ts d s)"
proof (induction t and ts arbitrary: d s and d s rule: encode_encodes.induct)
  case (1 bs)
  have "appended A d s bs (CBB_add_bytes A bs d s)"
    by (rule CBB_add_bytes_appends) (use "1.prems" assms in simp_all)
  then show ?case by (simp add: appended_emitted)
next
  case (2 w ts)
  let ?c = "\<lparr>child_offset = length (closed d s), pending_len_len = width_octets w, pending_is_asn1 = False\<rparr>"
  have "width_octets w \<le> 3" "1 \<le> width_octets w" by (cases w; simp)+
  note w = this
  have op: "opened A d s (replicate (width_octets w) 0) ?c (add_prefixed w A d s)"
    by (rule add_prefixed_opens [OF "2.prems"(1) assms]) (use "2.prems"(2) in simp)
  have "emitted A d s (encode (Prefixed w ts)) (forest_fits ts \<and> child_fits ?c (encodes ts))
      (andthen (add_prefixed w A d s) (\<lambda>_. emits A ts (Suc d)))"
  proof (rule emitted_child [OF op])
    fix s' assume s': "writable (Suc d) s'" "closed (Suc d) s' = closed d s @ replicate (width_octets w) 0"
    show "emitted A (Suc d) s' (encodes ts) (forest_fits ts) (emits A ts (Suc d) s')"
      by (rule "2.IH" [OF s'(1)]) (use "2.prems"(2) w s'(2) in simp)
  qed (use w "2.prems"(1) in \<open>simp_all add: writable_def child_ok_def child_end_def child_prefix_def\<close>)
  then show ?case by (simp add: child_fits_def)
next
  case (3 tag ts)
  let ?c = "\<lparr>child_offset = length (closed d s @ der_tag tag), pending_len_len = 1, pending_is_asn1 = True\<rparr>"
  have op: "opened A d s (der_tag tag @ [0]) ?c (CBB_add_asn1 A tag d s)"
    by (rule CBB_add_asn1_opens [OF "3.prems"(1) assms]) (use "3.prems"(2) in simp)
  have "emitted A d s (encode (Element tag ts)) (forest_fits ts \<and> child_fits ?c (encodes ts))
      (andthen (CBB_add_asn1 A tag d s) (\<lambda>_. emits A ts (Suc d)))"
  proof (rule emitted_child [OF op])
    fix s' assume s': "writable (Suc d) s'" "closed (Suc d) s' = closed d s @ der_tag tag @ [0]"
    have "1 \<le> length (der_length (length (encodes ts)))" by (rule length_der_length)
    then show "emitted A (Suc d) s' (encodes ts) (forest_fits ts) (emits A ts (Suc d) s')"
      by (intro "3.IH" [OF s'(1)]) (use "3.prems"(2) s'(2) in \<open>simp add: der_element_def\<close>)
  qed (use "3.prems"(1) in \<open>simp_all add: writable_def child_ok_def child_end_def child_prefix_def der_element_def\<close>)
  then show ?case by (simp add: child_fits_def)
next
  case (4 d s)
  then show ?case by (simp add: emitted_none)
next
  case (5 t ts)
  have first: "emitted A d s (encode t) (tree_fits t) (emit A t d s)"
    by (rule "5.IH"(1)) (use "5.prems" in simp_all)
  have "emitted A d s (encode t @ encodes ts) (tree_fits t \<and> forest_fits ts)
      (andthen (emit A t d s) (\<lambda>_. emits A ts d))"
    by (rule emitted_seq [OF first], rule "5.IH"(2)) (use "5.prems"(2) in simp_all)
  then show ?case by simp
qed

section \<open>From creation to finish\<close>

definition write_document :: "allocator \<Rightarrow> dtree list \<Rightarrow> cbb \<Rightarrow> byte list option" where
  "write_document A ts s =
     map_option (\<lambda>(mem, n). take n mem)
       (fst (andthen (emits A ts 0 s) (\<lambda>_. CBB_finish A True 0)))"

lemma CBB_finish_spec:
  assumes w: "writable 0 s" and A: "malloc_spec A" and small: "length (closed 0 s) \<le> 2 ^ 59"
  shows "(\<exists>s'. CBB_finish A True 0 s = (None, s') \<and> \<not> (fits 0 s \<and> roomy A s (length (closed 0 s)))) \<or>
    (\<exists>mem n s'. CBB_finish A True 0 s = (Some (mem, n), s') \<and> take n mem = closed 0 s \<and> fits 0 s \<and>
       cbb_base s' = None \<and> (\<forall>b. cbb_base s = Some b \<longrightarrow> \<not> cb_can_resize b \<longrightarrow> length (closed 0 s) \<le> cb_cap b))"
proof -
  have ap: "appended A 0 s [] (CBB_flush A 0 s)" by (rule CBB_flush_appended [OF w A small])
  obtain x s1 where xs: "CBB_flush A 0 s = (x, s1)" by (rule prod.exhaust)
  show ?thesis
  proof (cases x)
    case None
    with ap xs show ?thesis by (simp add: CBB_finish_def appended_def)
  next
    case (Some u)
    with ap xs have 1: "writable 0 s1" "cbb_chain s1 = []" "closed 0 s1 = closed 0 s" "fits 0 s" "grew s s1"
      by (simp_all add: appended_def)
    then obtain b where b: "cbb_base s1 = Some b" "buffer_ok b"
      by (auto simp: writable_def cbb_ok_def split: option.splits)
    have cont: "contents b = closed 0 s" using 1(3) closed_at_end [of s1 0] by (simp add: 1(2) written_def b)
    have "length (closed 0 s) \<le> cb_cap b"
      using length_contents [OF b(2)] b(2) unfolding cont by (simp add: buffer_ok_def)
    with 1 b cont show ?thesis
      by (auto simp: CBB_finish_def xs Some CBB_cleanup_def contents_def grew_def)
  qed
qed

lemma write_document_spec:
  assumes w: "writable 0 s" and new: "closed 0 s = []" "cbb_chain s = []" and A: "malloc_spec A"
    and small: "length (encodes ts) + 16 \<le> 2 ^ 59"
  shows "write_document A ts s = Some (encodes ts) \<and> forest_fits ts \<and>
      (\<forall>b. cbb_base s = Some b \<longrightarrow> \<not> cb_can_resize b \<longrightarrow> length (encodes ts) \<le> cb_cap b) \<or>
    write_document A ts s = None \<and> \<not> (forest_fits ts \<and> roomy A s (length (encodes ts)))"
proof -
  have em: "emitted A 0 s (encodes ts) (forest_fits ts) (emits A ts 0 s)"
    by (rule emit_emits_spec(2) [OF A w]) (use small in \<open>simp add: new\<close>)
  have ft: "fits 0 s" by (simp add: fits_at_end new)
  obtain x s1 where xs: "emits A ts 0 s = (x, s1)" by (rule prod.exhaust)
  show ?thesis
  proof (cases x)
    case None
    with em xs ft show ?thesis by (simp add: emitted_def write_document_def new)
  next
    case (Some u)
    with em xs ft have 1: "writable 0 s1" "closed 0 s1 = encodes ts" "fits 0 s1 \<longleftrightarrow> forest_fits ts" "grew s s1"
      by (simp_all add: emitted_def new)
    have "length (closed 0 s1) \<le> 2 ^ 59" using small by (simp add: 1(2))
    from CBB_finish_spec [OF 1(1) A this] show ?thesis
      using 1 roomy_grew [OF 1(4), of A "length (encodes ts)"]
      by (auto simp: write_document_def xs Some grew_def)
  qed
qed

lemma CBB_init_fixed_writable:
  assumes "CBB_init_fixed A mem (length mem) = Some s" "length mem \<le> 2 ^ 63"
  shows "writable 0 s" "closed 0 s = []" "cbb_chain s = []"
    "cbb_base s = Some \<lparr>cb_buf = mem, cb_len = 0, cb_cap = length mem, cb_can_resize = False, cb_error = False\<rparr>"
  using assms by (auto simp: CBB_init_fixed_def cbb_init_def writable_def cbb_ok_def buffer_ok_def
      closed_def written_def contents_def split: option.splits)

lemma CBB_init_writable:
  assumes "CBB_init A n = Some s" "malloc_spec A" "n \<le> 2 ^ 63"
  shows "writable 0 s" "closed 0 s = []" "cbb_chain s = []"
    "\<exists>mem. cbb_base s = Some \<lparr>cb_buf = mem, cb_len = 0, cb_cap = n, cb_can_resize = True, cb_error = False\<rparr>"
  using assms OPENSSL_malloc_size [OF assms(2), of n]
  by (auto simp: CBB_init_def cbb_init_def writable_def cbb_ok_def buffer_ok_def
      closed_def written_def contents_def split: option.splits if_splits)

section \<open>Properties\<close>

text \<open>
  C12. Writing a document into a caller's buffer: the nested calls and \<^verbatim>\<open>CBB_finish\<close> succeed exactly when
  every part fits its length prefix and the whole fits the buffer, and then the buffer holds the
  encoding of the document.
\<close>

theorem write_document_fixed:
  assumes "malloc_spec A" "CBB_init_fixed A mem (length mem) = Some s"
    and "length mem \<le> 2 ^ 63" "length (encodes ts) + 16 \<le> 2 ^ 59"
  shows "write_document A ts s =
    (if forest_fits ts \<and> length (encodes ts) \<le> length mem then Some (encodes ts) else None)"
  using write_document_spec [OF CBB_init_fixed_writable(1-3) [OF assms(2,3)] assms(1,4)]
  by (auto simp: CBB_init_fixed_writable(4) [OF assms(2,3)] roomy_def room_def)

definition sample_malloc :: allocator where
  "sample_malloc n = Some (replicate n 0)"

lemma malloc_spec_sample: "malloc_spec sample_malloc"
  by (simp add: malloc_spec_def sample_malloc_def)

lemma sample_malloc_total: "sample_malloc n \<noteq> None"
  by (simp add: sample_malloc_def)

definition sample_document :: "dtree list" where
  "sample_document = [Element 0x20000010 [Element 4 [Octets [1, 2]], Prefixed U16 [Octets [3]]], Octets [9]]"

lemma be_bytes_two: "be_bytes 2 n = [word_of_nat (n div 256), word_of_nat n]"
  by (simp add: numeral_2_eq_2)

lemma sample_document_encoding:
  "encodes sample_document = [0x30, 7, 4, 2, 1, 2, 0, 1, 3, 9]" "forest_fits sample_document"
  by (simp_all add: sample_document_def der_element_def der_tag_def tag_number_def tag_class_def
      der_length_def be_bytes_two)

lemma CBB_init_fixed_sample:
  "CBB_init_fixed sample_malloc mem n = Some \<lparr>cbb_base = Some \<lparr>cb_buf = mem, cb_len = 0, cb_cap = n,
     cb_can_resize = False, cb_error = False\<rparr>, cbb_chain = []\<rparr>"
  by (simp add: CBB_init_fixed_def cbb_init_def OPENSSL_malloc_def sample_malloc_def)

theorem write_document_fixed_witness:
  "write_document sample_malloc sample_document (the (CBB_init_fixed sample_malloc (replicate 12 0) 12)) =
     Some [0x30, 7, 4, 2, 1, 2, 0, 1, 3, 9]"
  using write_document_fixed [OF malloc_spec_sample CBB_init_fixed_sample, of "replicate 12 0" sample_document]
  by (simp add: sample_document_encoding CBB_init_fixed_sample)

text \<open>
  C13. Writing a document into a growable buffer, with an allocator that does not fail: only a part that does
  not fit its length prefix makes the calls fail, and the result is the encoding of the document.
\<close>

theorem write_document_growable:
  assumes "malloc_spec A" "\<forall>n. A n \<noteq> None" "CBB_init A n = Some s"
    and "n \<le> 2 ^ 63" "length (encodes ts) + 16 \<le> 2 ^ 59"
  shows "write_document A ts s = (if forest_fits ts then Some (encodes ts) else None)"
proof -
  from CBB_init_writable(4) [OF assms(3,1,4)] obtain mem where
    "cbb_base s = Some \<lparr>cb_buf = mem, cb_len = 0, cb_cap = n, cb_can_resize = True, cb_error = False\<rparr>" ..
  then have "roomy A s (length (encodes ts))" using assms(2) by (simp add: roomy_def room_def)
  with write_document_spec [OF CBB_init_writable(1-3) [OF assms(3,1,4)] assms(1,5)] show ?thesis by auto
qed

lemma CBB_init_sample: "CBB_init sample_malloc n = Some \<lparr>cbb_base = Some \<lparr>cb_buf = take n (the (sample_malloc n)), cb_len = 0,
    cb_cap = n, cb_can_resize = True, cb_error = False\<rparr>, cbb_chain = []\<rparr>" if "n < 100"
  using that by (simp add: CBB_init_def cbb_init_def OPENSSL_malloc_def sample_malloc_def)

theorem write_document_growable_witness:
  "write_document sample_malloc sample_document (the (CBB_init sample_malloc 3)) =
     Some [0x30, 7, 4, 2, 1, 2, 0, 1, 3, 9]"
proof -
  have "CBB_init sample_malloc 3 = Some (the (CBB_init sample_malloc 3))" by (simp add: CBB_init_sample)
  from write_document_growable [OF malloc_spec_sample _ this, of sample_document] show ?thesis
    by (simp add: sample_document_encoding sample_malloc_def)
qed

text \<open>
  C14. What \<^verbatim>\<open>cbb.c\<close> writes as an ASN.1 element, \<^verbatim>\<open>cbs.c\<close> reads back: the readers return the tag and
  the contents, and leave nothing.
\<close>

theorem CBB_CBS_element:
  assumes "malloc_spec A" "CBB_init A n = Some s" "n \<le> 2 ^ 63"
    and "length (encodes [Element tag ts]) + 16 \<le> 2 ^ 59"
    and "write_document A [Element tag ts] s = Some out"
  shows "CBS_get_any_asn1 out = (Some (encodes ts, tag), []) \<and> CBS_get_asn1 tag out = (Some (encodes ts), [])"
proof -
  from write_document_spec [OF CBB_init_writable(1-3) [OF assms(2,1,3)] assms(1,4)] assms(5)
  have "out = der_element tag (encodes ts) @ []" "length (encodes ts) < 2 ^ 32" by auto
  then show ?thesis by (simp only: CBS_get_any_asn1_iff CBS_get_asn1_DER)
qed

theorem CBB_CBS_element_witness:
  "CBS_get_asn1 0x20000010 [0x30, 3, 4, 1, 7] = (Some [4, 1, 7], [])"
proof -
  let ?ts = "[Element 4 [Octets [7]]]"
  have e: "der_element 4 [7] = [4, 1, 7]" "der_element 0x20000010 [4, 1, 7] = [0x30, 3, 4, 1, 7]"
    by (simp_all add: der_element_def der_tag_def tag_number_def tag_class_def der_length_def)
  then have enc: "encodes [Element 0x20000010 ?ts] = [0x30, 3, 4, 1, 7]" "encodes ?ts = [4, 1, 7]"
    by simp_all
  have init: "CBB_init sample_malloc 3 = Some (the (CBB_init sample_malloc 3))" by (simp add: CBB_init_sample)
  have "write_document sample_malloc [Element 0x20000010 ?ts] (the (CBB_init sample_malloc 3)) =
      Some [0x30, 3, 4, 1, 7]"
    using write_document_spec [OF CBB_init_writable(1-3) [OF init malloc_spec_sample] malloc_spec_sample, of "[Element 0x20000010 ?ts]"]
    by (simp add: e roomy_def room_def CBB_init_sample sample_malloc_total)
  with CBB_CBS_element [OF malloc_spec_sample init, of "0x20000010" ?ts] show ?thesis
    by (simp only: enc) simp
qed

end
