(* ===== verification/Cbb_Asn1.thy ===== *)
theory Cbb_Asn1
  imports Cbb_Doc
begin

text \<open>
  The ASN.1 writers of \<^verbatim>\<open>cbb.c\<close>: each appends exactly one DER element, so that the readers of
  \<^verbatim>\<open>cbs.c\<close> give back the value that was written.
\<close>

section \<open>One element\<close>

lemma emitted_flush:
  assumes A: "malloc_spec A" and em: "emitted A d s bs True r" and small: "length (closed d s @ bs) \<le> 2 ^ 59"
  shows "appended A d s bs (andthen r (\<lambda>_. CBB_flush A d))"
proof -
  obtain x s1 where r: "r = (x, s1)" by (rule prod.exhaust)
  show ?thesis
  proof (cases x)
    case None
    with em r show ?thesis by (simp add: emitted_def appended_def)
  next
    case (Some a)
    with em r have 1: "writable d s1" "take d (cbb_chain s1) = take d (cbb_chain s)"
      "closed d s1 = closed d s @ bs" "fits d s1 \<longleftrightarrow> fits d s" "grew s s1"
      by (simp_all add: emitted_def)
    have "appended A d s1 [] (CBB_flush A d s1)"
      by (rule CBB_flush_appended [OF 1(1) A]) (use small in \<open>simp add: 1(3)\<close>)
    then show ?thesis
      using 1 roomy_grew [OF 1(5), of A "length (closed d s @ bs)"] grew_trans [OF 1(5)]
      by (auto simp: r Some appended_def split: prod.splits option.splits)
  qed
qed

lemma element_appends:
  assumes w: "writable d s" and A: "malloc_spec A"
    and small: "length (closed d s @ der_element tag body) + 16 \<le> 2 ^ 59" "length body \<le> 0xfffffffe"
    and k: "\<And>s'. writable (Suc d) s' \<Longrightarrow> length (cbb_chain s') = Suc d \<Longrightarrow>
      closed (Suc d) s' = closed d s @ der_tag tag @ [0] \<Longrightarrow> emitted A (Suc d) s' body True (k s')"
  shows "appended A d s (der_element tag body)
    (andthen (CBB_add_asn1 A tag d s) (\<lambda>_ s. andthen (k s) (\<lambda>_. CBB_flush A d)))"
proof -
  let ?c = "\<lparr>child_offset = length (closed d s @ der_tag tag), pending_len_len = 1, pending_is_asn1 = True\<rparr>"
  have op: "opened A d s (der_tag tag @ [0]) ?c (CBB_add_asn1 A tag d s)"
    by (rule CBB_add_asn1_opens [OF w A]) (use small in simp)
  have em: "emitted A d s (der_element tag body) (True \<and> child_fits ?c body)
      (andthen (CBB_add_asn1 A tag d s) (\<lambda>_. k))"
  proof (rule emitted_child [OF op])
    fix a s' assume s': "CBB_add_asn1 A tag d s = (Some a, s')" "writable (Suc d) s'"
      "closed (Suc d) s' = closed d s @ der_tag tag @ [0]"
    have "length (cbb_chain s') = Suc d" using op w by (simp add: opened_def s'(1) writable_def)
    then show "emitted A (Suc d) s' body True (k s')" by (rule k [OF s'(2) _ s'(3)])
  qed (use w in \<open>simp_all add: writable_def child_ok_def child_end_def child_prefix_def der_element_def\<close>)
  have eq: "andthen (CBB_add_asn1 A tag d s) (\<lambda>_ s. andthen (k s) (\<lambda>_. CBB_flush A d)) =
      andthen (andthen (CBB_add_asn1 A tag d s) (\<lambda>_. k)) (\<lambda>_. CBB_flush A d)"
    by (cases "CBB_add_asn1 A tag d s"; cases "fst (CBB_add_asn1 A tag d s)") simp_all
  show ?thesis unfolding eq
    by (rule emitted_flush [OF A]) (use em small in \<open>simp_all add: child_fits_def\<close>)
qed

lemma CBB_add_asn1_octet_string_appends:
  assumes "writable d s" "malloc_spec A" "length bs \<le> 0xfffffffe"
    "length (closed d s @ der_element CBS_ASN1_OCTETSTRING bs) + 16 \<le> 2 ^ 59"
  shows "appended A d s (der_element CBS_ASN1_OCTETSTRING bs) (CBB_add_asn1_octet_string A bs d s)"
  unfolding CBB_add_asn1_octet_string_def
proof (rule element_appends [OF assms(1,2,4,3)])
  fix s' assume s': "writable (Suc d) s'" "closed (Suc d) s' = closed d s @ der_tag CBS_ASN1_OCTETSTRING @ [0]"
  have "length (closed d s) + length (der_tag CBS_ASN1_OCTETSTRING) + 1 + length bs \<le> 2 ^ 59"
    using assms(4) length_der_length(1) [of "length bs"] by (simp add: der_element_def)
  then have "appended A (Suc d) s' bs (CBB_add_bytes A bs (Suc d) s')"
    by (intro CBB_add_bytes_appends s'(1) assms(2)) (simp add: s'(2))
  then show "emitted A (Suc d) s' bs True (CBB_add_bytes A bs (Suc d) s')" by (rule appended_emitted)
qed

lemma CBB_add_asn1_bool_appends:
  assumes "writable d s" "malloc_spec A" "length (closed d s) + 64 \<le> 2 ^ 59"
  shows "appended A d s (der_element CBS_ASN1_BOOLEAN (der_bool v)) (CBB_add_asn1_bool A v d s)"
  unfolding CBB_add_asn1_bool_def
proof (rule element_appends [OF assms(1,2)])
  have tag: "length (der_tag CBS_ASN1_BOOLEAN) \<le> 6" by (rule length_der_tag)
  show "length (closed d s @ der_element CBS_ASN1_BOOLEAN (der_bool v)) + 16 \<le> 2 ^ 59"
    using assms(3) tag by (simp add: der_element_def der_bool_def der_length_def)
  show "length (der_bool v) \<le> 0xfffffffe" by (simp add: der_bool_def)
  fix s' assume s': "writable (Suc d) s'" "closed (Suc d) s' = closed d s @ der_tag CBS_ASN1_BOOLEAN @ [0]"
  have "appended A (Suc d) s' [if v then 0xff else 0] (CBB_add_u8 A (if v then 0xff else 0) (Suc d) s')"
    by (intro CBB_add_u8_appends s'(1) assms(2)) (use assms(3) tag in \<open>simp add: s'(2)\<close>)
  then show "emitted A (Suc d) s' (der_bool v) True (CBB_add_u8 A (if v then 0xff else 0) (Suc d) s')"
    by (simp add: der_bool_def appended_emitted)
qed

section \<open>Unsigned integers\<close>

lemma be_bytes_Cons: "be_bytes (Suc k) n = word_of_nat (n div 256 ^ k) # be_bytes k n"
  by (induction k arbitrary: n) (simp_all add: div_mult2_eq)

lemma loop_byte: "ucast (drop_bit (8 * i) v AND 0xff) = (word_of_nat (unat (v :: u64) div 256 ^ i) :: byte)"
proof -
  have "unat (ucast (drop_bit (8 * i) v AND 0xff) :: byte) = unat v div 256 ^ i mod 256"
    using unat_and_mask [of "drop_bit (8 * i) v" 8]
    by (simp add: unsigned_ucast_eq take_bit_eq_mod mask_eq_exp_minus_1 unat_drop_bit power_mult)
  then show ?thesis by (metis unat_of_nat_byte word_of_nat_unat_byte)
qed

lemma appended_skip: "writable d s \<Longrightarrow> length (cbb_chain s) = d \<Longrightarrow> appended A d s [] (Some x, s)"
  by (simp add: appended_def fits_at_end)

lemma appended_chain_length:
  "appended A d s bs (Some a, s') \<Longrightarrow> writable d s \<Longrightarrow> length (cbb_chain s') = d"
  by (auto simp: appended_def writable_def)

lemma uint64_loop_started:
  assumes "writable d s" "malloc_spec A" "length (cbb_chain s) = d" "length (closed d s) + i \<le> 2 ^ 59"
  shows "appended A d s (be_bytes i (unat v)) (add_uint64_loop A v i True d s)"
  using assms
proof (induction i arbitrary: s)
  case 0
  then show ?case by (simp add: appended_skip)
next
  case (Suc i)
  let ?b = "word_of_nat (unat v div 256 ^ i) :: byte"
  have first: "appended A d s [?b] (CBB_add_u8 A ?b d s)"
    using Suc.prems by (intro CBB_add_u8_appends) simp_all
  have "appended A d s ([?b] @ be_bytes i (unat v))
      (andthen (CBB_add_u8 A ?b d s) (\<lambda>_. add_uint64_loop A v i True d))"
    by (rule appended_andthen [OF first], rule Suc.IH) (use Suc.prems first in \<open>auto simp: writable_def\<close>)
  then show ?case by (simp add: be_bytes_Cons loop_byte Let_def del: be_bytes.simps(2))
qed

lemma der_uint_cases:
  assumes "256 ^ i \<le> n" "n < 256 ^ Suc i"
  shows "der_uint n = (if n div 256 ^ i < 128 then be_bytes (Suc i) n else 0 # be_bytes (Suc i) n)"
proof (cases "n div 256 ^ i < 128")
  case True
  then have "n < 128 * 256 ^ i" by (simp add: div_less_iff_less_mult)
  moreover have "i = 0 \<or> 128 * 256 ^ (i - 1) \<le> n" using assms(1) by (cases i) simp_all
  ultimately have "Suc i = uint_octets n" by (subst uint_octets_iff) auto
  with True show ?thesis by (simp add: der_uint_def del: be_bytes.simps)
next
  case False
  then have "128 * 256 ^ i \<le> n" by (simp add: not_less less_eq_div_iff_mult_less_eq)
  with assms(2) have "Suc (Suc i) = uint_octets n" by (subst uint_octets_iff) auto
  moreover have "n div 256 ^ Suc i = 0" using assms(2) by simp
  then have "be_bytes (Suc (Suc i)) n = 0 # be_bytes (Suc i) n"
    by (subst be_bytes_Cons) (simp del: be_bytes.simps)
  ultimately show ?thesis using False by (simp add: der_uint_def del: be_bytes.simps)
qed

lemma length_der_uint_small: "n < 2 ^ 64 \<Longrightarrow> length (der_uint n) \<le> 9"
  using length_der_uint_u64 [of "word_of_nat n"] by (simp add: unat_of_nat)

lemma uint64_loop_fresh:
  assumes "writable d s" "malloc_spec A" "length (cbb_chain s) = d" "length (closed d s) + 16 \<le> 2 ^ 59"
    "unat v < 256 ^ i" "i \<le> 8"
  shows "appended A d s (der_uint (unat v))
    (andthen (add_uint64_loop A v i False d s) (\<lambda>started s. if \<not> started then CBB_add_u8 A 0 d s else (Some (), s)))"
  using assms
proof (induction i)
  case 0
  then have "unat v = 0" by simp
  have "appended A d s [0] (CBB_add_u8 A 0 d s)" using 0 by (intro CBB_add_u8_appends) simp_all
  moreover have "der_uint 0 = [0]" by (simp add: der_uint_def uint_octets.simps [of 0])
  ultimately show ?case by (simp add: \<open>unat v = 0\<close>)
next
  case (Suc i)
  let ?b = "word_of_nat (unat v div 256 ^ i) :: byte"
  have small: "unat v div 256 ^ i < 256" using Suc.prems(5) by (simp add: div_less_iff_less_mult)
  then have ub: "unat ?b = unat v div 256 ^ i" by simp
  then have b0: "?b = 0 \<longleftrightarrow> unat v < 256 ^ i" by (simp add: unat_eq_0 [symmetric] div_eq_0_iff del: unat_eq_0)
  show ?case
  proof (cases "unat v < 256 ^ i")
    case True
    then have "add_uint64_loop A v (Suc i) False d s = add_uint64_loop A v i False d s"
      using b0 by (simp add: loop_byte Let_def)
    with Suc True show ?thesis by simp
  next
    case False
    let ?pad = "if 128 \<le> unat ?b then [0] else [] :: byte list"
    let ?r1 = "if ?b AND 0x80 \<noteq> 0 then CBB_add_u8 A 0 d s else (Some (), s)"
    have hi: "?b AND 0x80 \<noteq> 0 \<longleftrightarrow> 128 \<le> unat ?b" by (simp only: byte_high_clear not_less)
    have du: "der_uint (unat v) = ?pad @ be_bytes (Suc i) (unat v)"
      using der_uint_cases [of i "unat v"] False Suc.prems(5) unfolding ub by (simp del: be_bytes.simps)
    have r1: "appended A d s ?pad ?r1"
      unfolding hi using Suc.prems by (auto intro: CBB_add_u8_appends appended_skip)
    have "appended A d s (?pad @ be_bytes (Suc i) (unat v))
        (andthen ?r1 (\<lambda>_. add_uint64_loop A v (Suc i) True d))"
      by (rule appended_andthen [OF r1], rule uint64_loop_started)
        (use Suc.prems in \<open>auto simp: writable_def\<close>)
    moreover have unf: "add_uint64_loop A v (Suc i) True d =
        (\<lambda>s. andthen (CBB_add_u8 A ?b d s) (\<lambda>_. add_uint64_loop A v i True d))"
      by (rule ext) (simp add: loop_byte Let_def)
    moreover have "add_uint64_loop A v (Suc i) False d s = andthen ?r1 (\<lambda>_. add_uint64_loop A v (Suc i) True d)"
      using False b0 by (simp add: unf loop_byte Let_def del: of_nat_div)
    ultimately have ap: "appended A d s (der_uint (unat v)) (add_uint64_loop A v (Suc i) False d s)"
      by (simp only: du)
    have "\<And>s st s'. add_uint64_loop A v j True d s = (Some st, s') \<Longrightarrow> st" for j
    proof (induction j)
      case (Suc j)
      then show ?case by (auto simp: Let_def elim!: andthen_SomeE)
    qed simp
    then have "fst (add_uint64_loop A v (Suc i) False d s) \<noteq> Some False"
      by (metis \<open>add_uint64_loop A v (Suc i) False d s = _\<close> andthen_SomeE prod.collapse)
    then have "andthen (add_uint64_loop A v (Suc i) False d s)
        (\<lambda>started s. if \<not> started then CBB_add_u8 A 0 d s else (Some (), s)) =
      (map_option (\<lambda>_. ()) (fst (add_uint64_loop A v (Suc i) False d s)), snd (add_uint64_loop A v (Suc i) False d s))"
      by (cases "add_uint64_loop A v (Suc i) False d s"; cases "fst (add_uint64_loop A v (Suc i) False d s)")
        (simp_all del: add_uint64_loop.simps)
    then show ?thesis using ap
      by (cases "add_uint64_loop A v (Suc i) False d s"; cases "fst (add_uint64_loop A v (Suc i) False d s)")
        (simp_all add: appended_def del: add_uint64_loop.simps)
  qed
qed

lemma CBB_add_asn1_uint64_appends:
  assumes "writable d s" "malloc_spec A" "length (closed d s) + 64 \<le> 2 ^ 59"
  shows "appended A d s (der_element CBS_ASN1_INTEGER (der_uint (unat v))) (CBB_add_asn1_uint64 A v d s)"
  unfolding CBB_add_asn1_uint64_def
proof (rule element_appends [OF assms(1,2)])
  have tag: "length (der_tag CBS_ASN1_INTEGER) \<le> 6" by (rule length_der_tag)
  have du: "length (der_uint (unat v)) \<le> 9" by (rule length_der_uint_u64)
  show "length (der_uint (unat v)) \<le> 0xfffffffe" using du by simp
  show "length (closed d s @ der_element CBS_ASN1_INTEGER (der_uint (unat v))) + 16 \<le> 2 ^ 59"
    using assms(3) tag du length_der_length(2) [of "length (der_uint (unat v))"]
    by (simp add: der_element_def)
  fix s' assume s': "writable (Suc d) s'" "length (cbb_chain s') = Suc d"
    "closed (Suc d) s' = closed d s @ der_tag CBS_ASN1_INTEGER @ [0]"
  have "unat v < 256 ^ 8" using unsigned_less [of v, where 'a = nat] by simp
  then show "emitted A (Suc d) s' (der_uint (unat v)) True
      (andthen (add_uint64_loop A v 8 False (Suc d) s')
        (\<lambda>started s. if \<not> started then CBB_add_u8 A 0 (Suc d) s else (Some (), s)))"
    by (intro appended_emitted uint64_loop_fresh s'(1,2) assms(2)) (use assms(3) tag in \<open>simp_all add: s'(3)\<close>)
qed

section \<open>Signed integers\<close>

definition der_int :: "u64 \<Rightarrow> byte list" where
  "der_int v =
     (if 0 \<le> sint v then der_uint (unat v)
      else let l = le_bytes 8 (unat v) in rev (take (Suc (int64_start l 7)) l))"

lemma int64_start_spec:
  assumes "128 \<le> unat (l ! i)"
  shows "int64_start l i \<le> i \<and> (\<forall>j. int64_start l i < j \<and> j \<le> i \<longrightarrow> l ! j = 0xff) \<and>
    128 \<le> unat (l ! int64_start l i) \<and>
    (int64_start l i = 0 \<or> \<not> (l ! int64_start l i = 0xff \<and> 128 \<le> unat (l ! (int64_start l i - 1))))"
  using assms
proof (induction i)
  case (Suc i)
  show ?case
  proof (cases "l ! Suc i = 0xff \<and> 128 \<le> unat (l ! i)")
    case True
    have all: "l ! j = 0xff" if "\<forall>k. int64_start l i < k \<and> k \<le> i \<longrightarrow> l ! k = 0xff"
      "int64_start l i < j" "j \<le> Suc i" for j
      using that True by (cases "j = Suc i") auto
    have "int64_start l (Suc i) = int64_start l i" using True by (simp add: byte_high_clear)
    with Suc.IH True all show ?thesis by (metis le_SucI)
  next
    case False
    then have "int64_start l (Suc i) = Suc i" by (auto simp: byte_high_clear)
    with False Suc.prems show ?thesis by auto
  qed
qed simp

lemma sint_nonneg_iff: "0 \<le> sint (v :: u64) \<longleftrightarrow> unat v < 2 ^ 63"
proof -
  have "0 \<le> sint v \<longleftrightarrow> \<not> bit v 63" using bit_last_iff [of v] by (simp add: not_less [symmetric])
  also have "bit v 63 \<longleftrightarrow> bit (unat v) 63" by (simp add: bit_unsigned_iff)
  also have "\<dots> \<longleftrightarrow> odd (unat v div 2 ^ 63)" by (rule bit_iff_odd)
  finally have eq: "0 \<le> sint v \<longleftrightarrow> even (unat v div 2 ^ 63)" by simp
  have "unat v < 2 ^ 63 * 2" using unsigned_less [of v, where 'a = nat] by simp
  then have "unat v div 2 ^ 63 < 2" by (rule less_mult_imp_div_less [of _ 2, unfolded mult.commute [of 2]])
  then have "even (unat v div 2 ^ 63) \<longleftrightarrow> unat v div 2 ^ 63 = 0" by (auto simp: less_2_cases_iff)
  with eq show ?thesis by (simp add: div_eq_0_iff)
qed

text \<open>The octets written for \<open>v\<close> are read back as \<open>v\<close>.\<close>

lemma asn1_int64_contents_der_int: "asn1_int64_contents (der_int v) = Some v"
proof (cases "0 \<le> sint v")
  case True
  then have n: "unat v < 2 ^ 63" by (simp add: sint_nonneg_iff)
  define k where "k = uint_octets (unat v)"
  have k1: "1 \<le> k" unfolding k_def by (rule uint_octets_pos)
  then have k: "unat v < 128 * 256 ^ (k - 1)" "k = 1 \<or> 128 * 256 ^ (k - 2) \<le> unat v"
    using uint_octets_iff [of k "unat v"] k_def by auto
  have k8: "k \<le> 8"
  proof (rule ccontr)
    assume "\<not> k \<le> 8"
    then have "(256::nat) ^ 7 \<le> 256 ^ (k - 2)" by (intro power_increasing) simp_all
    with k(2) \<open>\<not> k \<le> 8\<close> have "128 * 256 ^ 7 \<le> unat v" by auto
    with n show False by simp
  qed
  have top: "unat v div 256 ^ (k - 1) < 128" using k(1) by (simp add: div_less_iff_less_mult)
  have "unat v < 256 ^ k" using k(1) k1 by (cases k) simp_all
  then have ext: "drop k (le_bytes 8 (unat v)) = replicate (8 - k) (if False then 0xff else 0)"
    using k8 by (simp add: drop_le_bytes le_bytes_0)
  have sign: "128 \<le> unat (le_bytes 8 (unat v) ! (k - 1)) \<longleftrightarrow> False"
    using top k1 k8 by (simp add: nth_le_bytes)
  have min: "k = 1 \<or> \<not> (le_bytes 8 (unat v) ! (k - 1) = (if False then 0xff else 0) \<and>
      (128 \<le> unat (le_bytes 8 (unat v) ! (k - 2)) \<longleftrightarrow> False))"
  proof (cases "k = 1")
    case False
    then obtain j where j: "k = Suc (Suc j)" using k1 by (metis One_nat_def Suc_le_D not0_implies_Suc)
    have "128 * 256 ^ j \<le> unat v" using k(2) j by auto
    show ?thesis
    proof (cases "unat v < 256 ^ Suc j")
      case True
      then have "unat v div 256 ^ j < 256" by (simp add: div_less_iff_less_mult)
      moreover have "128 \<le> unat v div 256 ^ j"
        using \<open>128 * 256 ^ j \<le> unat v\<close> by (simp add: less_eq_div_iff_mult_less_eq)
      ultimately show ?thesis using k8 j by (simp add: nth_le_bytes)
    next
      case False
      then have "unat v div 256 ^ Suc j \<noteq> 0" by (simp add: div_eq_0_iff)
      moreover have "unat (word_of_nat (unat v div 256 ^ Suc j) :: byte) = unat v div 256 ^ Suc j"
        using top j by simp
      ultimately have "(word_of_nat (unat v div 256 ^ Suc j) :: byte) \<noteq> 0" by (metis unat_0)
      then show ?thesis using k8 j by (simp add: nth_le_bytes)
    qed
  qed simp
  have "rev (take k (le_bytes 8 (unat v))) = be_bytes k (unat v)"
    using k8 by (simp only: take_le_bytes) (simp flip: rev_be_bytes)
  with asn1_int64_contents_sign_extended [OF k1 k8 ext sign min] True show ?thesis
    by (simp add: der_int_def der_uint_def k_def)
next
  case False
  define l where "l = le_bytes 8 (unat v)"
  define i where "i = int64_start l 7"
  have v: "2 ^ 63 \<le> unat v" using False by (simp add: sint_nonneg_iff not_less)
  have "unat v div 256 ^ 7 < 256" using unsigned_less [of v, where 'a = nat] by (simp add: div_less_iff_less_mult)
  moreover have "128 \<le> unat v div 256 ^ 7" using v by (simp add: less_eq_div_iff_mult_less_eq)
  ultimately have "128 \<le> unat (l ! 7)" by (simp add: l_def nth_le_bytes)
  from int64_start_spec [OF this] have i: "i \<le> 7" "\<forall>j. i < j \<and> j \<le> 7 \<longrightarrow> l ! j = 0xff"
    "128 \<le> unat (l ! i)" "i = 0 \<or> \<not> (l ! i = 0xff \<and> 128 \<le> unat (l ! (i - 1)))"
    by (simp_all add: i_def)
  have ext: "drop (Suc i) (le_bytes 8 (unat v)) = replicate (8 - Suc i) (if True then 0xff else 0)"
  proof -
    have "length l = 8" by (simp add: l_def)
    with i(1,2) show ?thesis unfolding l_def [symmetric] by (intro nth_equalityI) auto
  qed
  have "asn1_int64_contents (rev (take (Suc i) (le_bytes 8 (unat v)))) = Some v"
    by (rule asn1_int64_contents_sign_extended [OF _ _ ext]) (use i in \<open>auto simp: l_def\<close>)
  with False show ?thesis by (simp add: der_int_def l_def i_def Let_def)
qed

lemma add_bytes_down_appends:
  assumes "writable d s" "malloc_spec A" "length (cbb_chain s) = d" "length (closed d s) + i \<le> 2 ^ 59"
    "i \<le> length l"
  shows "appended A d s (rev (take i l)) (add_bytes_down A l i d s)"
  using assms
proof (induction i arbitrary: s)
  case 0
  then show ?case by (simp add: appended_skip)
next
  case (Suc i)
  have first: "appended A d s [l ! i] (CBB_add_u8 A (l ! i) d s)"
    using Suc.prems by (intro CBB_add_u8_appends) simp_all
  have "appended A d s ([l ! i] @ rev (take i l))
      (andthen (CBB_add_u8 A (l ! i) d s) (\<lambda>_. add_bytes_down A l i d))"
    by (rule appended_andthen [OF first], rule Suc.IH) (use Suc.prems in \<open>auto simp: writable_def\<close>)
  then show ?case using Suc.prems(5) by (simp add: take_Suc_conv_app_nth)
qed

lemma length_der_int: "length (der_int v) \<le> 9"
  using length_der_uint_u64 [of v] by (simp add: der_int_def Let_def min_def)

lemma CBB_add_asn1_int64_appends:
  assumes "writable d s" "malloc_spec A" "length (closed d s) + 64 \<le> 2 ^ 59"
  shows "appended A d s (der_element CBS_ASN1_INTEGER (der_int v)) (CBB_add_asn1_int64 A v d s)"
proof (cases "0 \<le> sint v")
  case True
  with CBB_add_asn1_uint64_appends [OF assms] show ?thesis
    by (simp add: CBB_add_asn1_int64_def der_int_def)
next
  case False
  let ?l = "le_bytes 8 (unat v)"
  let ?i = "int64_start ?l 7"
  have di: "der_int v = rev (take (Suc ?i) ?l)" using False by (simp add: der_int_def Let_def)
  have eq: "CBB_add_asn1_int64 A v d s = andthen (CBB_add_asn1 A CBS_ASN1_INTEGER d s) (\<lambda>_ s.
      andthen (add_bytes_down A ?l (Suc ?i) (Suc d) s) (\<lambda>_. CBB_flush A d))"
    using False by (simp add: CBB_add_asn1_int64_def Let_def del: add_bytes_down.simps)
  have i7: "int64_start l i \<le> i" for l i by (induction i) simp_all
  have tag: "length (der_tag CBS_ASN1_INTEGER) \<le> 6" by (rule length_der_tag)
  show ?thesis unfolding eq
  proof (rule element_appends [OF assms(1,2)])
    show "length (der_int v) \<le> 0xfffffffe" using length_der_int [of v] by simp
    show "length (closed d s @ der_element CBS_ASN1_INTEGER (der_int v)) + 16 \<le> 2 ^ 59"
      using assms(3) tag length_der_int [of v] length_der_length(2) [of "length (der_int v)"]
      by (simp add: der_element_def)
    fix s' assume s': "writable (Suc d) s'" "length (cbb_chain s') = Suc d"
      "closed (Suc d) s' = closed d s @ der_tag CBS_ASN1_INTEGER @ [0]"
    show "emitted A (Suc d) s' (der_int v) True (add_bytes_down A ?l (Suc ?i) (Suc d) s')"
      unfolding di
      by (intro appended_emitted add_bytes_down_appends s'(1,2) assms(2))
        (use assms(3) tag i7 [of ?l 7] in \<open>simp_all add: s'(3)\<close>)
  qed
qed

section \<open>Properties\<close>

text \<open>One call on a new object, then \<^verbatim>\<open>CBB_finish\<close>.\<close>

definition write_value :: "allocator \<Rightarrow> (nat \<Rightarrow> cbb \<Rightarrow> unit option \<times> cbb) \<Rightarrow> cbb \<Rightarrow> byte list option" where
  "write_value A op s =
     map_option (\<lambda>(mem, n). take n mem) (fst (andthen (op 0 s) (\<lambda>_. CBB_finish A True 0)))"

lemma write_value_spec:
  assumes A: "malloc_spec A" and s: "CBB_init A n = Some s" "n \<le> 2 ^ 63"
    and op: "writable 0 s \<Longrightarrow> closed 0 s = [] \<Longrightarrow> appended A 0 s bs (op 0 s)" and small: "length bs \<le> 2 ^ 59"
  shows "write_value A op s = Some bs \<or> write_value A op s = None \<and> (\<exists>m. A m = None)"
proof -
  note new = CBB_init_writable(1-3) [OF s(1) A s(2)]
  have ap: "appended A 0 s bs (op 0 s)" by (rule op [OF new(1,2)])
  have ft: "fits 0 s" by (simp add: fits_at_end new(3))
  have rm: "roomy A s (length bs) \<or> (\<exists>m. A m = None)"
    using CBB_init_writable(4) [OF s(1) A s(2)] by (auto simp: roomy_def room_def)
  obtain x s1 where xs: "op 0 s = (x, s1)" by (rule prod.exhaust)
  show ?thesis
  proof (cases x)
    case None
    with ap xs ft rm new(2) show ?thesis by (auto simp: appended_def write_value_def)
  next
    case (Some u)
    with ap xs new have 1: "writable 0 s1" "closed 0 s1 = bs" "cbb_chain s1 = []" "grew s s1"
      by (simp_all add: appended_def)
    have "fits 0 s1" by (simp add: fits_at_end 1(3))
    with CBB_finish_spec [OF 1(1) A] small 1(2) rm roomy_grew [OF 1(4), of A "length bs"]
    show ?thesis by (auto simp: write_value_def xs Some)
  qed
qed

lemma write_uint64:
  assumes "malloc_spec A" "CBB_init A n = Some s" "n \<le> 2 ^ 63"
  shows "write_value A (CBB_add_asn1_uint64 A v) s = Some (der_element 2 (der_uint (unat v))) \<or>
    write_value A (CBB_add_asn1_uint64 A v) s = None \<and> (\<exists>m. A m = None)"
proof (rule write_value_spec [OF assms])
  show "writable 0 s \<Longrightarrow> closed 0 s = [] \<Longrightarrow>
      appended A 0 s (der_element 2 (der_uint (unat v))) (CBB_add_asn1_uint64 A v 0 s)"
    using assms(1) by (intro CBB_add_asn1_uint64_appends) simp_all
  show "length (der_element 2 (der_uint (unat v))) \<le> 2 ^ 59"
    using length_der_uint_u64 [of v] length_der_tag(2) [of 2] length_der_length(2) [of "length (der_uint (unat v))"]
    by (simp add: der_element_def)
qed

lemma write_int64:
  assumes "malloc_spec A" "CBB_init A n = Some s" "n \<le> 2 ^ 63"
  shows "write_value A (CBB_add_asn1_int64 A v) s = Some (der_element 2 (der_int v)) \<or>
    write_value A (CBB_add_asn1_int64 A v) s = None \<and> (\<exists>m. A m = None)"
proof (rule write_value_spec [OF assms])
  show "writable 0 s \<Longrightarrow> closed 0 s = [] \<Longrightarrow>
      appended A 0 s (der_element 2 (der_int v)) (CBB_add_asn1_int64 A v 0 s)"
    using assms(1) by (intro CBB_add_asn1_int64_appends) simp_all
  show "length (der_element 2 (der_int v)) \<le> 2 ^ 59"
    using length_der_int [of v] length_der_tag(2) [of 2] length_der_length(2) [of "length (der_int v)"]
    by (simp add: der_element_def)
qed

lemma CBB_init_sample_Some: "CBB_init sample_malloc 3 = Some (the (CBB_init sample_malloc 3))"
  by (simp add: CBB_init_sample)

text \<open>
  C16. An unsigned integer written by \<^verbatim>\<open>CBB_add_asn1_uint64\<close> is the minimal DER element, and
  \<^verbatim>\<open>CBS_get_asn1_uint64\<close> reads the same value back.
\<close>

theorem asn1_uint64_roundtrip:
  assumes "malloc_spec A" "CBB_init A n = Some s" "n \<le> 2 ^ 63"
    and "write_value A (CBB_add_asn1_uint64 A v) s = Some out"
  shows "out = der_element 2 (der_uint (unat v)) \<and> CBS_get_asn1_uint64 out = (Some v, [])"
  using write_uint64 [OF assms(1-3), of v] assms(4) by (auto simp: CBS_get_asn1_uint64_iff)

theorem asn1_uint64_roundtrip_witness:
  "CBS_get_asn1_uint64 (der_element 2 [1, 44]) = (Some 300, [])"
proof -
  have "uint_octets 300 = 2" using uint_octets.simps [of 300] uint_octets.simps [of 1] by simp
  then have "der_uint 300 = [1, 44]" by (simp add: der_uint_def be_bytes_two)
  moreover have "write_value sample_malloc (CBB_add_asn1_uint64 sample_malloc 300) (the (CBB_init sample_malloc 3))
      = Some (der_element 2 (der_uint (unat (300 :: u64))))"
    using write_uint64 [OF malloc_spec_sample CBB_init_sample_Some, of 300] sample_malloc_total by simp
  ultimately show ?thesis
    using asn1_uint64_roundtrip [OF malloc_spec_sample CBB_init_sample_Some, of 300] by simp
qed

text \<open>
  C15. A signed integer written by \<^verbatim>\<open>CBB_add_asn1_int64\<close> is read back by \<^verbatim>\<open>CBS_get_asn1_int64\<close> as the
  same 64 bits, over the whole range and in particular at both ends of it.
\<close>

theorem asn1_int64_roundtrip:
  assumes "malloc_spec A" "CBB_init A n = Some s" "n \<le> 2 ^ 63"
    and "write_value A (CBB_add_asn1_int64 A v) s = Some out"
  shows "CBS_get_asn1_int64 out = (Some v, [])"
proof -
  have "out = der_element 2 (der_int v)"
    using write_int64 [OF assms(1-3), of v] assms(4) by auto
  moreover have "length (der_int v) < 2 ^ 32" using length_der_int [of v] by simp
  ultimately show ?thesis
    by (simp add: CBS_get_asn1_int64_def CBS_get_asn1_DER [of _ _ "[]", simplified] asn1_int64_contents_der_int)
qed

theorem asn1_int64_roundtrip_witness:
  "CBS_get_asn1_int64 (der_element 2 (der_int (- 129))) = (Some (- 129), [])"
proof -
  have "write_value sample_malloc (CBB_add_asn1_int64 sample_malloc (- 129)) (the (CBB_init sample_malloc 3))
      = Some (der_element 2 (der_int (- 129)))"
    using write_int64 [OF malloc_spec_sample CBB_init_sample_Some, of "- 129"] sample_malloc_total by simp
  from asn1_int64_roundtrip [OF malloc_spec_sample CBB_init_sample_Some _ this] show ?thesis by simp
qed

end
