(* ===== verification/Nanopb_Encode.thy ===== *)
theory Nanopb_Encode
  imports JS_Prelude
begin

text \<open>
  Model of the wire layer of \<^verbatim>\<open>nanopb/pb_encode.c\<close>: output streams and the encoders of single values,
  for the build of the pods (\<^verbatim>\<open>PB_FIELD_32BIT\<close>, 64-bit integers, error messages on). A stream is
  generic in the state \<open>'s\<close> its callback works on; \<open>None\<close> is the \<^verbatim>\<open>NULL\<close> callback of a sizing
  stream. \<open>(None, s)\<close> is the return value \<^verbatim>\<open>false\<close>.
\<close>

section \<open>Streams\<close>

record 's pb_ostream =
  os_callback :: "(byte list \<Rightarrow> 's \<Rightarrow> bool \<times> 's) option"
  os_state :: 's
  os_max_size :: size_t
  os_bytes_written :: size_t
  os_errmsg :: "string option"

text \<open>\<^verbatim>\<open>PB_RETURN_ERROR\<close>: the first message is kept.\<close>

definition os_error :: "string \<Rightarrow> 's pb_ostream \<Rightarrow> 'a option \<times> 's pb_ostream" where
  "os_error msg s =
     (None, s\<lparr>os_errmsg := (case os_errmsg s of None \<Rightarrow> Some msg | Some m \<Rightarrow> Some m)\<rparr>)"

text \<open>A memory buffer: the block and the offset the \<^verbatim>\<open>state\<close> pointer has reached.\<close>

record outbuf =
  ob_mem :: "byte list"
  ob_pos :: nat

definition buf_write :: "byte list \<Rightarrow> outbuf \<Rightarrow> bool \<times> outbuf" where
  "buf_write buf st = (True, \<lparr>ob_mem = poke (ob_mem st) (ob_pos st) buf, ob_pos = ob_pos st + length buf\<rparr>)"

definition pb_ostream_from_buffer :: "byte list \<Rightarrow> size_t \<Rightarrow> outbuf pb_ostream" where
  "pb_ostream_from_buffer buf bufsize =
     \<lparr>os_callback = Some buf_write, os_state = \<lparr>ob_mem = buf, ob_pos = 0\<rparr>, os_max_size = bufsize,
      os_bytes_written = 0, os_errmsg = None\<rparr>"

definition PB_OSTREAM_SIZING :: "'s \<Rightarrow> 's pb_ostream" where
  "PB_OSTREAM_SIZING st =
     \<lparr>os_callback = None, os_state = st, os_max_size = 0, os_bytes_written = 0, os_errmsg = None\<rparr>"

definition pb_write :: "byte list \<Rightarrow> size_t \<Rightarrow> 's pb_ostream \<Rightarrow> unit option \<times> 's pb_ostream" where
  "pb_write buf count s =
     (let total = size_wrap (os_bytes_written s + count) in
      case os_callback s of
        None \<Rightarrow> (Some (), s\<lparr>os_bytes_written := total\<rparr>)
      | Some callback \<Rightarrow>
          if count = 0 then (Some (), s\<lparr>os_bytes_written := total\<rparr>)
          else if total < os_bytes_written s \<or> total > os_max_size s then os_error ''stream full'' s
          else case callback (take count buf) (os_state s) of (ok, st) \<Rightarrow>
                 if \<not> ok then os_error ''io error'' (s\<lparr>os_state := st\<rparr>)
                 else (Some (), s\<lparr>os_state := st, os_bytes_written := total\<rparr>))"

section \<open>Varints, zigzag and fixed-width values\<close>

text \<open>The bytes the loop of \<^verbatim>\<open>pb_encode_varint\<close> stores in its buffer.\<close>

function varint_loop :: "u64 \<Rightarrow> byte list" where
  "varint_loop v =
     (if v = 0 then [] else (ucast (v AND 0x7f) OR 0x80) # varint_loop (drop_bit 7 v))"
  by pat_completeness auto
termination
proof (relation "measure unat", goal_cases)
  case (2 v)
  then have "0 < unat v" by (simp add: unat_gt_0)
  then show ?case by (simp add: unat_drop_bit)
qed simp

declare varint_loop.simps [simp del]

definition pb_encode_varint :: "u64 \<Rightarrow> 's pb_ostream \<Rightarrow> unit option \<times> 's pb_ostream" where
  "pb_encode_varint v s =
     (if v \<le> 0x7f then pb_write [ucast v] 1 s
      else let buffer = varint_loop v; i = length buffer in
        pb_write (buffer[i - 1 := buffer ! (i - 1) AND 0x7f]) i s)"

text \<open>An \<^verbatim>\<open>int64_t\<close> is its 64 bits; \<open>sint\<close> reads the sign.\<close>

definition zigzag :: "u64 \<Rightarrow> u64" where
  "zigzag v = (if sint v < 0 then NOT (push_bit 1 v) else push_bit 1 v)"

definition pb_encode_svarint :: "u64 \<Rightarrow> 's pb_ostream \<Rightarrow> unit option \<times> 's pb_ostream" where
  "pb_encode_svarint v s = pb_encode_varint (zigzag v) s"

definition pb_encode_fixed32 :: "u32 \<Rightarrow> 's pb_ostream \<Rightarrow> unit option \<times> 's pb_ostream" where
  "pb_encode_fixed32 val s =
     pb_write [ucast (val AND 0xff), ucast (drop_bit 8 val AND 0xff), ucast (drop_bit 16 val AND 0xff),
               ucast (drop_bit 24 val AND 0xff)] 4 s"

definition pb_encode_fixed64 :: "u64 \<Rightarrow> 's pb_ostream \<Rightarrow> unit option \<times> 's pb_ostream" where
  "pb_encode_fixed64 val s =
     pb_write [ucast (val AND 0xff), ucast (drop_bit 8 val AND 0xff), ucast (drop_bit 16 val AND 0xff),
               ucast (drop_bit 24 val AND 0xff), ucast (drop_bit 32 val AND 0xff),
               ucast (drop_bit 40 val AND 0xff), ucast (drop_bit 48 val AND 0xff),
               ucast (drop_bit 56 val AND 0xff)] 8 s"

section \<open>Tags, strings and submessages\<close>

text \<open>Wire types as the enumeration's numbers; a decoder can meet any of 0 to 7.\<close>

abbreviation (input) PB_WT_VARINT :: u32 where "PB_WT_VARINT \<equiv> 0"
abbreviation (input) PB_WT_64BIT :: u32 where "PB_WT_64BIT \<equiv> 1"
abbreviation (input) PB_WT_STRING :: u32 where "PB_WT_STRING \<equiv> 2"
abbreviation (input) PB_WT_32BIT :: u32 where "PB_WT_32BIT \<equiv> 5"

definition pb_encode_tag :: "u32 \<Rightarrow> u32 \<Rightarrow> 's pb_ostream \<Rightarrow> unit option \<times> 's pb_ostream" where
  "pb_encode_tag wiretype field_number s =
     pb_encode_varint (push_bit 3 (ucast field_number) OR ucast wiretype) s"

text \<open>
  The entry of a field description table, with the members the single-value functions read.
  The low four bits of \<^verbatim>\<open>type\<close> are the data type, the next two the repetition rules, the top two
  the allocation.
\<close>

record pb_field =
  pf_tag :: u32
  pf_type :: byte
  pf_data_size :: size_t

definition PB_LTYPE :: "byte \<Rightarrow> byte" where "PB_LTYPE x = x AND 0x0f"
definition PB_HTYPE :: "byte \<Rightarrow> byte" where "PB_HTYPE x = x AND 0x30"
definition PB_ATYPE :: "byte \<Rightarrow> byte" where "PB_ATYPE x = x AND 0xc0"

definition pb_encode_tag_for_field :: "pb_field \<Rightarrow> 's pb_ostream \<Rightarrow> unit option \<times> 's pb_ostream" where
  "pb_encode_tag_for_field field s =
     (let ltype = PB_LTYPE (pf_type field) in
      if ltype = 0 \<or> ltype = 1 \<or> ltype = 2 \<or> ltype = 3 then pb_encode_tag PB_WT_VARINT (pf_tag field) s
      else if ltype = 4 then pb_encode_tag PB_WT_32BIT (pf_tag field) s
      else if ltype = 5 then pb_encode_tag PB_WT_64BIT (pf_tag field) s
      else if ltype = 6 \<or> ltype = 7 \<or> ltype = 8 \<or> ltype = 10 then pb_encode_tag PB_WT_STRING (pf_tag field) s
      else os_error ''invalid field type'' s)"

definition pb_encode_string :: "byte list \<Rightarrow> size_t \<Rightarrow> 's pb_ostream \<Rightarrow> unit option \<times> 's pb_ostream" where
  "pb_encode_string buffer sz s =
     andthen (pb_encode_varint (word_of_nat sz) s) (\<lambda>_. pb_write buffer sz)"

text \<open>
  \<open>enc\<close> stands for \<^verbatim>\<open>pb_encode\<close> on the submessage's fields: it runs once on a sizing stream and
  once on a substream limited to the size found.
\<close>

definition pb_encode_submessage ::
  "('s pb_ostream \<Rightarrow> unit option \<times> 's pb_ostream) \<Rightarrow> 's pb_ostream \<Rightarrow> unit option \<times> 's pb_ostream" where
  "pb_encode_submessage enc s =
     (case enc (PB_OSTREAM_SIZING (os_state s)) of
        (None, sub) \<Rightarrow> (None, s\<lparr>os_errmsg := os_errmsg sub\<rparr>)
      | (Some _, sub) \<Rightarrow>
          let sz = os_bytes_written sub in
          andthen (pb_encode_varint (word_of_nat sz) s) (\<lambda>_ s.
            case os_callback s of
              None \<Rightarrow> pb_write [] sz s
            | Some callback \<Rightarrow>
                if size_wrap (os_bytes_written s + sz) > os_max_size s then os_error ''stream full'' s
                else case enc \<lparr>os_callback = Some callback, os_state = os_state s, os_max_size = sz,
                               os_bytes_written = 0, os_errmsg = None\<rparr> of
                       (status, sub) \<Rightarrow>
                         let s = s\<lparr>os_bytes_written := size_wrap (os_bytes_written s + os_bytes_written sub),
                                   os_state := os_state sub, os_errmsg := os_errmsg sub\<rparr>
                         in if os_bytes_written sub \<noteq> sz then os_error ''submsg size changed'' s
                            else (status, s)))"

definition pb_encode_nullterminated ::
  "('s pb_ostream \<Rightarrow> unit option \<times> 's pb_ostream) \<Rightarrow> 's pb_ostream \<Rightarrow> unit option \<times> 's pb_ostream" where
  "pb_encode_nullterminated enc s = andthen (enc s) (\<lambda>_. pb_write [0] 1)"

definition pb_get_encoded_size ::
  "('s pb_ostream \<Rightarrow> unit option \<times> 's pb_ostream) \<Rightarrow> 's \<Rightarrow> size_t option" where
  "pb_get_encoded_size enc st =
     (case enc (PB_OSTREAM_SIZING st) of (None, _) \<Rightarrow> None | (Some _, s) \<Rightarrow> Some (os_bytes_written s))"

section \<open>Encoders of single fields\<close>

text \<open>
  The field's memory is its bytes, in the little-endian order of the platform. \<open>load_signed\<close> and
  \<open>load_unsigned\<close> read an integer of \<open>n\<close> bytes and extend it to 64 bits.
\<close>

definition load_unsigned :: "nat \<Rightarrow> byte list \<Rightarrow> u64" where
  "load_unsigned n mem = word_of_nat (le_nat (take n mem))"

definition load_signed :: "nat \<Rightarrow> byte list \<Rightarrow> u64" where
  "load_signed n mem = signed_take_bit (8 * n - 1) (load_unsigned n mem)"

definition safe_read_bool :: "byte list \<Rightarrow> bool" where
  "safe_read_bool mem = (mem ! 0 \<noteq> 0)"

definition pb_enc_bool :: "pb_field \<Rightarrow> byte list \<Rightarrow> 's pb_ostream \<Rightarrow> unit option \<times> 's pb_ostream" where
  "pb_enc_bool field src s = pb_encode_varint (if safe_read_bool src then 1 else 0) s"

definition int_size :: "size_t \<Rightarrow> bool" where
  "int_size n \<longleftrightarrow> n = 1 \<or> n = 2 \<or> n = 4 \<or> n = 8"

definition pb_enc_varint :: "pb_field \<Rightarrow> byte list \<Rightarrow> 's pb_ostream \<Rightarrow> unit option \<times> 's pb_ostream" where
  "pb_enc_varint field src s =
     (if int_size (pf_data_size field) then pb_encode_varint (load_signed (pf_data_size field) src) s
      else os_error ''invalid data_size'' s)"

definition pb_enc_uvarint :: "pb_field \<Rightarrow> byte list \<Rightarrow> 's pb_ostream \<Rightarrow> unit option \<times> 's pb_ostream" where
  "pb_enc_uvarint field src s =
     (if int_size (pf_data_size field) then pb_encode_varint (load_unsigned (pf_data_size field) src) s
      else os_error ''invalid data_size'' s)"

definition pb_enc_svarint :: "pb_field \<Rightarrow> byte list \<Rightarrow> 's pb_ostream \<Rightarrow> unit option \<times> 's pb_ostream" where
  "pb_enc_svarint field src s =
     (if int_size (pf_data_size field) then pb_encode_svarint (load_signed (pf_data_size field) src) s
      else os_error ''invalid data_size'' s)"

definition pb_enc_fixed64 :: "pb_field \<Rightarrow> byte list \<Rightarrow> 's pb_ostream \<Rightarrow> unit option \<times> 's pb_ostream" where
  "pb_enc_fixed64 field src s = pb_encode_fixed64 (load_unsigned 8 src) s"

definition pb_enc_fixed32 :: "pb_field \<Rightarrow> byte list \<Rightarrow> 's pb_ostream \<Rightarrow> unit option \<times> 's pb_ostream" where
  "pb_enc_fixed32 field src s = pb_encode_fixed32 (word_of_nat (le_nat (take 4 src))) s"

text \<open>A \<^verbatim>\<open>pb_bytes_array_t\<close> is a 32-bit size followed by the bytes; \<open>None\<close> is a null pointer.\<close>

definition PB_BYTES_ARRAY_T_ALLOCSIZE :: "nat \<Rightarrow> size_t" where
  "PB_BYTES_ARRAY_T_ALLOCSIZE n = size_wrap (n + 4)"

definition pb_enc_bytes :: "pb_field \<Rightarrow> byte list option \<Rightarrow> 's pb_ostream \<Rightarrow> unit option \<times> 's pb_ostream" where
  "pb_enc_bytes field src s =
     (case src of
        None \<Rightarrow> pb_encode_string [] 0 s
      | Some mem \<Rightarrow>
          let sz = le_nat (take 4 mem); allocsize = PB_BYTES_ARRAY_T_ALLOCSIZE sz in
          if allocsize < sz \<or> (PB_ATYPE (pf_type field) = 0 \<and> allocsize > pf_data_size field)
          then os_error ''bytes size exceeded'' s
          else pb_encode_string (drop 4 mem) sz s)"

text \<open>The length of a C string, at most \<open>max_size\<close>.\<close>

fun pb_strnlen :: "byte list \<Rightarrow> nat \<Rightarrow> nat" where
  "pb_strnlen [] max_size = 0"
| "pb_strnlen (c # p) max_size = (if max_size > 0 \<and> c \<noteq> 0 then Suc (pb_strnlen p (max_size - 1)) else 0)"

definition pb_enc_string :: "pb_field \<Rightarrow> byte list option \<Rightarrow> 's pb_ostream \<Rightarrow> unit option \<times> 's pb_ostream" where
  "pb_enc_string field src s =
     (let max_size = (if PB_ATYPE (pf_type field) = 0x80 then 18446744073709551615 else pf_data_size field)
      in case src of
           None \<Rightarrow> pb_encode_string [] 0 s
         | Some mem \<Rightarrow> pb_encode_string mem (pb_strnlen mem max_size) s)"

definition pb_enc_fixed_length_bytes :: "pb_field \<Rightarrow> byte list \<Rightarrow> 's pb_ostream \<Rightarrow> unit option \<times> 's pb_ostream" where
  "pb_enc_fixed_length_bytes field src s = pb_encode_string src (pf_data_size field) s"

end
