(* ===== verification/Nanopb_Encode_Spec.thy ===== *)
theory Nanopb_Encode_Spec
  imports Nanopb_Encode
begin

text \<open>
  What the encoders of \<^verbatim>\<open>pb_encode.c\<close> write. The callback of a stream is an interface, the locale
  \<open>sink\<close>: writing bytes for which there is space appends them. \<open>denotes e bs\<close> says that the
  encoder \<open>e\<close> writes \<open>bs\<close>, or fails when they do not fit, and counts them on a sizing stream.
\<close>

section \<open>The wire encodings\<close>

fun enc_varint :: "nat \<Rightarrow> byte list" where
  "enc_varint n =
     (if n < 128 then [word_of_nat n] else word_of_nat (128 + n mod 128) # enc_varint (n div 128))"

declare enc_varint.simps [simp del]

lemma enc_varint_nonempty [simp]: "enc_varint n \<noteq> []"
  by (subst enc_varint.simps) simp

lemma length_enc_varint: "n < 128 ^ k \<Longrightarrow> 1 \<le> k \<Longrightarrow> length (enc_varint n) \<le> k"
proof (induction n arbitrary: k rule: enc_varint.induct)
  case (1 n)
  show ?case
  proof (cases "n < 128")
    case True
    with "1.prems" show ?thesis by (subst enc_varint.simps) simp
  next
    case False
    then obtain j where k: "k = Suc j" "1 \<le> j" using "1.prems" by (cases k; cases "k - 1") auto
    have "n div 128 < 128 ^ j" using "1.prems"(1) by (simp add: k div_less_iff_less_mult)
    from "1.IH" [OF False this k(2)] False show ?thesis by (subst enc_varint.simps) (simp add: k)
  qed
qed

lemma length_enc_varint_u64: "length (enc_varint (unat (v :: u64))) \<le> 10"
proof (rule length_enc_varint)
  have "unat v < 2 ^ 64" using unsigned_less [of v, where 'a = nat] by simp
  then show "unat v < 128 ^ 10" by (rule less_trans) simp
qed simp

text \<open>The loop sets the continuation bit on every byte; the last one is cleared afterwards.\<close>

lemma or_80: "unat (b :: byte) < 128 \<Longrightarrow> unat (b OR 0x80) = 128 + unat b"
  by (rule all_bytes [of "\<lambda>b. unat b < 128 \<longrightarrow> unat (b OR 0x80) = 128 + unat b" b, rule_format])
     (code_simp, assumption)

lemma low_septet:
  fixes v :: u64
  shows "unat (ucast (v AND 0x7f) :: byte) = unat v mod 128"
    "ucast (v AND 0x7f) OR 0x80 = (word_of_nat (128 + unat v mod 128) :: byte)"
proof -
  have "unat (v AND 0x7f) = unat v mod 128"
    using unat_and_mask [of v 7] by (simp add: mask_eq_exp_minus_1)
  then show *: "unat (ucast (v AND 0x7f) :: byte) = unat v mod 128"
    by (simp add: unsigned_ucast_eq take_bit_eq_mod mod_less less_trans [of _ 128 256])
  then show "ucast (v AND 0x7f) OR 0x80 = (word_of_nat (128 + unat v mod 128) :: byte)"
    by (intro word_eq_of_nat) (simp add: or_80)
qed

lemma varint_loop_enc:
  assumes "v \<noteq> 0"
  shows "varint_loop v \<noteq> [] \<and>
    (varint_loop v)[length (varint_loop v) - 1 := last (varint_loop v) AND 0x7f] = enc_varint (unat v)"
  using assms
proof (induction v rule: varint_loop.induct)
  case (1 v)
  let ?b = "word_of_nat (128 + unat v mod 128) :: byte"
  have eq: "varint_loop v = ?b # varint_loop (drop_bit 7 v)"
    using "1.prems" by (subst varint_loop.simps) (simp only: low_septet if_False)
  show ?case
  proof (cases "unat v < 128")
    case True
    then have "drop_bit 7 v = 0" by (simp add: drop_bit_zero_iff)
    moreover have "?b AND 0x7f = word_of_nat (unat v)"
      using True by (intro word_eq_of_nat) (simp add: unat_and_7f unat_of_nat mod_simps del: of_nat_add)
    moreover have "varint_loop 0 = []" by (subst varint_loop.simps) simp
    moreover have "enc_varint (unat v) = [word_of_nat (unat v)]" using True by (subst enc_varint.simps) simp
    ultimately show ?thesis by (simp add: eq del: of_nat_add)
  next
    case False
    then have nz: "drop_bit 7 v \<noteq> 0" by (simp add: drop_bit_zero_iff)
    define l where "l = varint_loop (drop_bit 7 v)"
    from "1.IH" [OF "1.prems" nz] have l: "l \<noteq> []" "l[length l - 1 := last l AND 0x7f] = enc_varint (unat v div 128)"
      by (simp_all add: l_def unat_drop_bit)
    then have "(?b # l)[length (?b # l) - 1 := last (?b # l) AND 0x7f] = ?b # enc_varint (unat v div 128)"
      by (cases "length l") (auto simp del: of_nat_add)
    moreover have "enc_varint (unat v) = ?b # enc_varint (unat v div 128)"
      using False by (subst enc_varint.simps) (simp del: of_nat_add)
    ultimately show ?thesis unfolding eq l_def [symmetric] by (simp del: of_nat_add)
  qed
qed

section \<open>Streams as sinks\<close>

definition os_ok :: "(byte list \<Rightarrow> 's \<Rightarrow> bool \<times> 's) \<Rightarrow> ('s \<Rightarrow> nat) \<Rightarrow> 's pb_ostream \<Rightarrow> bool" where
  "os_ok wr space s \<longleftrightarrow> os_callback s = Some wr \<and> os_bytes_written s \<le> os_max_size s \<and>
     os_max_size s < 2 ^ 63 \<and> os_max_size s - os_bytes_written s \<le> space (os_state s)"

text \<open>The outcome of writing \<open>bs\<close>: everything appended, or a failure because it does not fit.\<close>

definition puts :: "(byte list \<Rightarrow> 's \<Rightarrow> bool \<times> 's) \<Rightarrow> ('s \<Rightarrow> byte list) \<Rightarrow> ('s \<Rightarrow> nat) \<Rightarrow> 's pb_ostream \<Rightarrow>
    byte list \<Rightarrow> unit option \<times> 's pb_ostream \<Rightarrow> bool" where
  "puts wr out space s bs r \<longleftrightarrow>
     (case r of
        (None, s') \<Rightarrow> os_max_size s < os_bytes_written s + length bs
      | (Some _, s') \<Rightarrow> os_bytes_written s + length bs \<le> os_max_size s \<and> os_ok wr space s' \<and>
          out (os_state s') = out (os_state s) @ bs \<and> space (os_state s') = space (os_state s) - length bs \<and>
          os_bytes_written s' = os_bytes_written s + length bs \<and> os_max_size s' = os_max_size s)"

definition denotes :: "(byte list \<Rightarrow> 's \<Rightarrow> bool \<times> 's) \<Rightarrow> ('s \<Rightarrow> byte list) \<Rightarrow> ('s \<Rightarrow> nat) \<Rightarrow>
    ('s pb_ostream \<Rightarrow> unit option \<times> 's pb_ostream) \<Rightarrow> byte list \<Rightarrow> bool" where
  "denotes wr out space e bs \<longleftrightarrow>
     (\<forall>s. os_ok wr space s \<longrightarrow> puts wr out space s bs (e s)) \<and>
     (\<forall>s. os_callback s = None \<and> os_bytes_written s < SIZE_LIMIT \<longrightarrow> (\<exists>s'. e s = (Some (), s') \<and> os_callback s' = None \<and>
        os_bytes_written s' = size_wrap (os_bytes_written s + length bs)))"

locale sink =
  fixes wr :: "byte list \<Rightarrow> 's \<Rightarrow> bool \<times> 's"
    and out :: "'s \<Rightarrow> byte list"
    and space :: "'s \<Rightarrow> nat"
  assumes wr_appends: "length bs \<le> space st \<Longrightarrow>
    \<exists>st'. wr bs st = (True, st') \<and> out st' = out st @ bs \<and> space st' = space st - length bs"
begin

lemma write_denotes:
  assumes "length bs = n" "n < SIZE_LIMIT"
  shows "denotes wr out space (pb_write bs n) bs"
proof -
  have "puts wr out space s bs (pb_write bs n s)" if ok: "os_ok wr space s" for s
  proof (cases "os_bytes_written s + n \<le> os_max_size s")
    case True
    then have wrap: "size_wrap (os_bytes_written s + n) = os_bytes_written s + n"
      using ok by (simp add: os_ok_def)
    have "length bs \<le> space (os_state s)" using True ok assms(1) by (auto simp: os_ok_def)
    from wr_appends [OF this] obtain st' where st': "wr bs (os_state s) = (True, st')"
      "out st' = out (os_state s) @ bs" "space st' = space (os_state s) - length bs" by blast
    show ?thesis
    proof (cases "n = 0")
      case True
      with ok assms show ?thesis by (simp add: puts_def pb_write_def os_ok_def)
    next
      case False
      have "take n bs = bs" using assms(1) by simp
      then show ?thesis using True False ok assms(1) st'
        by (auto simp: puts_def pb_write_def os_ok_def wrap Let_def)
    qed
  next
    case False
    with ok assms have "n \<noteq> 0" by (auto simp: os_ok_def)
    moreover have "size_wrap (os_bytes_written s + n) < os_bytes_written s \<or>
        size_wrap (os_bytes_written s + n) > os_max_size s"
      using False ok assms(2) size_wrap_overflow [of "os_bytes_written s" n]
      by (cases "os_bytes_written s + n < SIZE_LIMIT") (auto simp: os_ok_def)
    ultimately show ?thesis using False ok assms(1)
      by (auto simp: puts_def pb_write_def os_ok_def os_error_def Let_def)
  qed
  moreover have "pb_write bs n s = (Some (), s\<lparr>os_bytes_written := size_wrap (os_bytes_written s + n)\<rparr>)"
    if "os_callback s = None" for s :: "'s pb_ostream"
    using that by (simp add: pb_write_def Let_def)
  ultimately show ?thesis using assms(1) by (auto simp: denotes_def)
qed

lemma andthen_denotes:
  assumes 1: "denotes wr out space e1 b1" and 2: "denotes wr out space e2 b2"
  shows "denotes wr out space (\<lambda>s. andthen (e1 s) (\<lambda>_. e2)) (b1 @ b2)"
proof -
  have "puts wr out space s (b1 @ b2) (andthen (e1 s) (\<lambda>_. e2))" if ok: "os_ok wr space s" for s
  proof -
    from 1 ok have p1: "puts wr out space s b1 (e1 s)" by (simp add: denotes_def)
    obtain x s1 where e1: "e1 s = (x, s1)" by (rule prod.exhaust)
    show ?thesis
    proof (cases x)
      case None
      with p1 show ?thesis by (simp add: e1 puts_def)
    next
      case (Some u)
      with p1 have s1: "os_ok wr space s1" "out (os_state s1) = out (os_state s) @ b1"
        "space (os_state s1) = space (os_state s) - length b1"
        "os_bytes_written s1 = os_bytes_written s + length b1" "os_max_size s1 = os_max_size s"
        by (simp_all add: e1 puts_def)
      from 2 s1(1) have "puts wr out space s1 b2 (e2 s1)" by (simp add: denotes_def)
      with s1 show ?thesis by (auto simp: e1 Some puts_def split: prod.splits option.splits)
    qed
  qed
  moreover have "\<exists>s'. andthen (e1 s) (\<lambda>_. e2) = (Some (), s') \<and> os_callback s' = None \<and>
      os_bytes_written s' = size_wrap (os_bytes_written s + length (b1 @ b2))"
    if "os_callback s = None" "os_bytes_written s < SIZE_LIMIT" for s
  proof -
    from 1 that obtain s1 where s1: "e1 s = (Some (), s1)" "os_callback s1 = None"
      "os_bytes_written s1 = size_wrap (os_bytes_written s + length b1)" by (auto simp: denotes_def)
    moreover have "os_bytes_written s1 < SIZE_LIMIT" using s1(3) by simp
    moreover from 2 s1(2) this obtain s2 where "e2 s1 = (Some (), s2)" "os_callback s2 = None"
      "os_bytes_written s2 = size_wrap (os_bytes_written s1 + length b2)" by (auto simp: denotes_def)
    ultimately show ?thesis by (simp add: size_wrap_def mod_simps add.assoc)
  qed
  ultimately show ?thesis by (simp add: denotes_def)
qed

lemma varint_denotes: "denotes wr out space (pb_encode_varint v) (enc_varint (unat v))"
proof (cases "v \<le> 0x7f")
  case True
  then have "unat v < 128" by (simp add: word_le_nat_alt)
  then have "ucast v = (word_of_nat (unat v) :: byte)"
    by (intro word_eq_of_nat) (simp add: unsigned_ucast_eq take_bit_nat_eq_self)
  moreover have "enc_varint (unat v) = [word_of_nat (unat v)]"
    using \<open>unat v < 128\<close> by (subst enc_varint.simps) simp
  ultimately have eq: "[ucast v] = enc_varint (unat v)" "length (enc_varint (unat v)) = 1" by simp_all
  have "pb_encode_varint v = (pb_write (enc_varint (unat v)) 1 :: 's pb_ostream \<Rightarrow> _)"
    by (rule ext) (simp only: pb_encode_varint_def True if_True eq(1))
  with write_denotes [of "enc_varint (unat v)" 1] eq(2) show ?thesis by simp
next
  case False
  then have "v \<noteq> 0" by auto
  define l where "l = varint_loop v"
  from varint_loop_enc [OF \<open>v \<noteq> 0\<close>] have l: "l \<noteq> []"
    "l[length l - 1 := l ! (length l - 1) AND 0x7f] = enc_varint (unat v)"
    by (auto simp: l_def last_conv_nth)
  then have "length l = length (enc_varint (unat v))" by (metis length_list_update)
  then have "length l < SIZE_LIMIT" using length_enc_varint_u64 [of v] by simp
  have "pb_encode_varint v = (pb_write (enc_varint (unat v)) (length l) :: 's pb_ostream \<Rightarrow> _)"
    by (rule ext) (simp only: pb_encode_varint_def False if_False Let_def l_def [symmetric] l(2))
  with write_denotes [of "enc_varint (unat v)" "length l"] \<open>length l = _\<close> \<open>length l < _\<close>
  show ?thesis by simp
qed

lemma svarint_denotes: "denotes wr out space (pb_encode_svarint v) (enc_varint (unat (zigzag v)))"
  using varint_denotes [of "zigzag v"] by (simp add: pb_encode_svarint_def [abs_def])

lemma string_denotes:
  assumes "length bs = n" "n < 2 ^ 63"
  shows "denotes wr out space (pb_encode_string bs n) (enc_varint n @ bs)"
proof -
  have n: "unat (word_of_nat n :: u64) = n" using assms(2) by (simp add: unat_of_nat)
  show ?thesis
    using andthen_denotes [OF varint_denotes [of "word_of_nat n"] write_denotes [OF assms(1)]] assms(2)
    by (simp add: pb_encode_string_def [abs_def] n)
qed

lemma submessage_denotes:
  assumes enc: "denotes wr out space enc bs" and small: "length bs < 2 ^ 63"
  shows "denotes wr out space (pb_encode_submessage enc) (enc_varint (length bs) @ bs)"
proof -
  let ?n = "length bs"
  have sizing: "\<exists>sub. enc (PB_OSTREAM_SIZING st) = (Some (), sub) \<and> os_bytes_written sub = ?n" for st
  proof -
    have "os_callback (PB_OSTREAM_SIZING st) = None \<and> os_bytes_written (PB_OSTREAM_SIZING st) < SIZE_LIMIT"
      by (simp add: PB_OSTREAM_SIZING_def)
    with enc obtain sub where "enc (PB_OSTREAM_SIZING st) = (Some (), sub)"
      "os_bytes_written sub = size_wrap (os_bytes_written (PB_OSTREAM_SIZING st) + ?n)"
      unfolding denotes_def by blast
    with small show ?thesis by (simp add: PB_OSTREAM_SIZING_def)
  qed
  let ?rest = "\<lambda>s. case os_callback s of
      None \<Rightarrow> pb_write [] ?n s
    | Some callback \<Rightarrow>
        if size_wrap (os_bytes_written s + ?n) > os_max_size s then os_error ''stream full'' s
        else case enc \<lparr>os_callback = Some callback, os_state = os_state s, os_max_size = ?n,
                       os_bytes_written = 0, os_errmsg = None\<rparr> of
               (status, sub) \<Rightarrow>
                 let s = s\<lparr>os_bytes_written := size_wrap (os_bytes_written s + os_bytes_written sub),
                           os_state := os_state sub, os_errmsg := os_errmsg sub\<rparr>
                 in if os_bytes_written sub \<noteq> ?n then os_error ''submsg size changed'' s
                    else (status, s)"
  have n: "unat (word_of_nat ?n :: u64) = ?n" using small by (simp add: unat_of_nat)
  have eq: "pb_encode_submessage enc s = andthen (pb_encode_varint (word_of_nat ?n) s) (\<lambda>_. ?rest)" for s
  proof -
    obtain sub where e: "enc (PB_OSTREAM_SIZING (os_state s)) = (Some (), sub)" "os_bytes_written sub = ?n"
      using sizing by blast
    show ?thesis unfolding pb_encode_submessage_def e(1) prod.case option.case Let_def e(2) by (rule refl)
  qed
  have "puts wr out space s bs (?rest s)" if ok: "os_ok wr space s" for s
  proof (cases "os_bytes_written s + ?n \<le> os_max_size s")
    case False
    with ok small show ?thesis by (simp add: os_ok_def puts_def os_error_def)
  next
    case True
    let ?sub = "\<lparr>os_callback = Some wr, os_state = os_state s, os_max_size = ?n,
        os_bytes_written = 0, os_errmsg = None\<rparr>"
    have "os_ok wr space ?sub" using True ok small by (auto simp: os_ok_def)
    with enc have p: "puts wr out space ?sub bs (enc ?sub)" by (simp add: denotes_def)
    then obtain sub where sub: "enc ?sub = (Some (), sub)" "out (os_state sub) = out (os_state s) @ bs"
      "os_bytes_written sub = ?n" "space (os_state sub) = space (os_state s) - ?n"
      by (cases "enc ?sub"; cases "fst (enc ?sub)") (auto simp: puts_def)
    show ?thesis using True ok small sub by (auto simp: os_ok_def puts_def Let_def)
  qed
  moreover have "\<exists>s'. ?rest s = (Some (), s') \<and> os_callback s' = None \<and>
      os_bytes_written s' = size_wrap (os_bytes_written s + ?n)" if "os_callback s = None" for s
    using that by (simp add: pb_write_def Let_def)
  ultimately have "denotes wr out space ?rest bs" by (simp add: denotes_def)
  from andthen_denotes [OF varint_denotes [of "word_of_nat ?n"] this] show ?thesis
    by (simp add: eq [abs_def] n)
qed

end

text \<open>Memory buffers are sinks: the bytes before the write position, and the room behind it.\<close>

interpretation membuf: sink buf_write "\<lambda>st. take (ob_pos st) (ob_mem st)" "\<lambda>st. length (ob_mem st) - ob_pos st"
proof
  fix bs :: "byte list" and st :: outbuf
  assume "length bs \<le> length (ob_mem st) - ob_pos st"
  then show "\<exists>st'. buf_write bs st = (True, st') \<and>
      take (ob_pos st') (ob_mem st') = take (ob_pos st) (ob_mem st) @ bs \<and>
      length (ob_mem st') - ob_pos st' = length (ob_mem st) - ob_pos st - length bs"
    by (cases "ob_pos st \<le> length (ob_mem st)") (auto simp: buf_write_def poke_def)
qed

end
