(* ===== verification/Nanopb_Decode.thy ===== *)
theory Nanopb_Decode
  imports Nanopb_Encode
begin

text \<open>
  Model of the wire layer of \<^verbatim>\<open>nanopb/pb_decode.c\<close>: input streams, varints and tags, skipping,
  length-delimited substreams and the decoders of single values. A stream is generic in the state
  its callback works on; \<open>is_buf_read\<close> says whether the callback is \<^verbatim>\<open>buf_read\<close>, which \<^verbatim>\<open>pb_read\<close> tests.
\<close>

section \<open>Streams\<close>

record 's pb_istream =
  is_callback :: "size_t \<Rightarrow> 's \<Rightarrow> byte list option \<times> 's"
  is_buf_read :: bool
  is_state :: 's
  is_bytes_left :: size_t
  is_errmsg :: "string option"

definition is_error :: "string \<Rightarrow> 's pb_istream \<Rightarrow> 'a option \<times> 's pb_istream" where
  "is_error msg s =
     (None, s\<lparr>is_errmsg := (case is_errmsg s of None \<Rightarrow> Some msg | Some m \<Rightarrow> Some m)\<rparr>)"

text \<open>The state of a memory stream is the memory from the read position on.\<close>

definition buf_read :: "size_t \<Rightarrow> byte list \<Rightarrow> byte list option \<times> byte list" where
  "buf_read count st = (Some (take count st), drop count st)"

definition pb_istream_from_buffer :: "byte list \<Rightarrow> size_t \<Rightarrow> byte list pb_istream" where
  "pb_istream_from_buffer buf bufsize =
     \<lparr>is_callback = buf_read, is_buf_read = True, is_state = buf, is_bytes_left = bufsize, is_errmsg = None\<rparr>"

text \<open>\<open>pb_read\<close> is the call with a buffer, \<open>pb_discard\<close> the call with a null pointer.\<close>

definition pb_read :: "size_t \<Rightarrow> 's pb_istream \<Rightarrow> byte list option \<times> 's pb_istream" where
  "pb_read count s =
     (if count = 0 then (Some [], s)
      else if is_bytes_left s < count then is_error ''end-of-stream'' s
      else case is_callback s count (is_state s) of
             (None, st) \<Rightarrow> is_error ''io error'' (s\<lparr>is_state := st\<rparr>)
           | (Some buf, st) \<Rightarrow> (Some buf, s\<lparr>is_state := st, is_bytes_left := is_bytes_left s - count\<rparr>))"

fun pb_discard_chunks :: "size_t \<Rightarrow> 's pb_istream \<Rightarrow> unit option \<times> 's pb_istream" where
  "pb_discard_chunks count s =
     (if count > 16 then andthen (pb_read 16 s) (\<lambda>_ s. pb_discard_chunks (count - 16) s)
      else andthen (pb_read count s) (\<lambda>_ s. (Some (), s)))"

declare pb_discard_chunks.simps [simp del]

definition pb_discard :: "size_t \<Rightarrow> 's pb_istream \<Rightarrow> unit option \<times> 's pb_istream" where
  "pb_discard count s =
     (if count = 0 then (Some (), s)
      else if \<not> is_buf_read s then pb_discard_chunks count s
      else andthen (pb_read count s) (\<lambda>_ s. (Some (), s)))"

definition pb_readbyte :: "'s pb_istream \<Rightarrow> byte option \<times> 's pb_istream" where
  "pb_readbyte s =
     (if is_bytes_left s = 0 then is_error ''end-of-stream'' s
      else case is_callback s 1 (is_state s) of
             (None, st) \<Rightarrow> is_error ''io error'' (s\<lparr>is_state := st\<rparr>)
           | (Some buf, st) \<Rightarrow> (Some (buf ! 0), s\<lparr>is_state := st, is_bytes_left := is_bytes_left s - 1\<rparr>))"

lemma pb_readbyte_left: "pb_readbyte s = (Some b, s') \<Longrightarrow> is_bytes_left s' < is_bytes_left s"
  by (auto simp: pb_readbyte_def is_error_def split: if_splits prod.splits option.splits)

lemma pb_read_left: "pb_read n s = (Some b, s') \<Longrightarrow> is_bytes_left s' = is_bytes_left s - n"
  by (auto simp: pb_read_def is_error_def split: if_splits prod.splits option.splits)

lemma pb_read_1_left: "pb_read (Suc 0) s = (Some b, s') \<Longrightarrow> is_bytes_left s' < is_bytes_left s"
  by (auto simp: pb_read_def is_error_def split: if_splits prod.splits option.splits)

section \<open>Varints\<close>

text \<open>
  The multibyte loop of \<^verbatim>\<open>pb_decode_varint32_eof\<close>: \<open>bitpos\<close> is a \<^verbatim>\<open>uint_fast8_t\<close> and wraps at 256. It
  ends with the result, the final \<open>bitpos\<close> and the last byte.
\<close>

function varint32_loop :: "byte \<Rightarrow> u32 \<Rightarrow> 's pb_istream \<Rightarrow> (u32 \<times> byte \<times> byte) option \<times> 's pb_istream" where
  "varint32_loop bitpos result s =
     andthen (pb_readbyte s) (\<lambda>b s.
       if bitpos \<ge> 32 \<and> b AND 0x7f \<noteq> 0 \<and>
          (drop_bit 31 result = 0 \<or> b \<noteq> (if bitpos < 63 then 0xff else 0x01))
       then is_error ''varint overflow'' s
       else
         let result = (if bitpos \<ge> 32 then result
                       else result OR push_bit (unat bitpos) (ucast (b AND 0x7f)));
             bitpos = bitpos + 7
         in if b AND 0x80 \<noteq> 0 then varint32_loop bitpos result s
            else (Some (result, bitpos, b), s))"
  by pat_completeness auto
termination
  by (relation "measure (\<lambda>(b, r, s). is_bytes_left s)") (auto dest: pb_readbyte_left)

declare varint32_loop.simps [simp del]

text \<open>The second component is the value stored in \<^verbatim>\<open>*eof\<close>, if any.\<close>

definition pb_decode_varint32_eof :: "'s pb_istream \<Rightarrow> (u32 option \<times> bool) \<times> 's pb_istream" where
  "pb_decode_varint32_eof s =
     (case pb_readbyte s of
        (None, s) \<Rightarrow> ((None, is_bytes_left s = 0), s)
      | (Some b, s) \<Rightarrow>
          if b AND 0x80 = 0 then ((Some (ucast b), False), s)
          else case varint32_loop 7 (ucast (b AND 0x7f)) s of
                 (None, s) \<Rightarrow> ((None, False), s)
               | (Some (result, bitpos, b), s) \<Rightarrow>
                   if bitpos = 35 \<and> b AND 0x70 \<noteq> 0
                   then (case is_error ''varint overflow'' s of (r, s) \<Rightarrow> ((r, False), s))
                   else ((Some result, False), s))"

definition pb_decode_varint32 :: "'s pb_istream \<Rightarrow> u32 option \<times> 's pb_istream" where
  "pb_decode_varint32 s = (case pb_decode_varint32_eof s of ((r, _), s) \<Rightarrow> (r, s))"

function varint_dec_loop :: "byte \<Rightarrow> u64 \<Rightarrow> 's pb_istream \<Rightarrow> u64 option \<times> 's pb_istream" where
  "varint_dec_loop bitpos result s =
     (if bitpos \<ge> 64 then is_error ''varint overflow'' s
      else andthen (pb_readbyte s) (\<lambda>b s.
        let result = result OR push_bit (unat bitpos) (ucast (b AND 0x7f)) in
        if b AND 0x80 \<noteq> 0 then varint_dec_loop (bitpos + 7) result s else (Some result, s)))"
  by pat_completeness auto
termination
  by (relation "measure (\<lambda>(b, r, s). is_bytes_left s)") (auto dest: pb_readbyte_left)

declare varint_dec_loop.simps [simp del]

definition pb_decode_varint :: "'s pb_istream \<Rightarrow> u64 option \<times> 's pb_istream" where
  "pb_decode_varint s = varint_dec_loop 0 0 s"

function pb_skip_varint :: "'s pb_istream \<Rightarrow> unit option \<times> 's pb_istream" where
  "pb_skip_varint s =
     andthen (pb_read 1 s) (\<lambda>buf s. if buf ! 0 AND 0x80 \<noteq> 0 then pb_skip_varint s else (Some (), s))"
  by pat_completeness auto
termination
  by (relation "measure is_bytes_left") (auto dest: pb_read_1_left)

declare pb_skip_varint.simps [simp del]

definition pb_skip_string :: "'s pb_istream \<Rightarrow> unit option \<times> 's pb_istream" where
  "pb_skip_string s = andthen (pb_decode_varint32 s) (\<lambda>len. pb_discard (unat len))"

section \<open>Tags and fields\<close>

text \<open>The result is \<^verbatim>\<open>wire_type\<close> and \<^verbatim>\<open>tag\<close>; the flag is \<^verbatim>\<open>*eof\<close>.\<close>

definition pb_decode_tag :: "'s pb_istream \<Rightarrow> ((u32 \<times> u32) option \<times> bool) \<times> 's pb_istream" where
  "pb_decode_tag s =
     (case pb_decode_varint32_eof s of
        ((None, eof), s) \<Rightarrow> ((None, eof), s)
      | ((Some temp, _), s) \<Rightarrow>
          if temp = 0 then ((None, True), s)
          else ((Some (temp AND 7, drop_bit 3 temp), False), s))"

definition pb_skip_field :: "u32 \<Rightarrow> 's pb_istream \<Rightarrow> unit option \<times> 's pb_istream" where
  "pb_skip_field wire_type s =
     (if wire_type = PB_WT_VARINT then pb_skip_varint s
      else if wire_type = PB_WT_64BIT then pb_discard 8 s
      else if wire_type = PB_WT_STRING then pb_skip_string s
      else if wire_type = PB_WT_32BIT then pb_discard 4 s
      else is_error ''invalid wire_type'' s)"

text \<open>The varint case of \<^verbatim>\<open>read_raw_value\<close>: at most \<open>max_size\<close> bytes.\<close>

fun raw_varint :: "nat \<Rightarrow> 's pb_istream \<Rightarrow> byte list option \<times> 's pb_istream" where
  "raw_varint 0 s = (None, s)"
| "raw_varint (Suc max_size) s =
     andthen (pb_read 1 s) (\<lambda>buf s.
       if buf ! 0 AND 0x80 \<noteq> 0
       then andthen (raw_varint max_size s) (\<lambda>rest s. (Some (buf @ rest), s))
       else (Some buf, s))"

definition read_raw_value :: "u32 \<Rightarrow> size_t \<Rightarrow> 's pb_istream \<Rightarrow> byte list option \<times> 's pb_istream" where
  "read_raw_value wire_type max_size s =
     (if wire_type = PB_WT_VARINT then raw_varint max_size s
      else if wire_type = PB_WT_64BIT then pb_read 8 s
      else if wire_type = PB_WT_32BIT then pb_read 4 s
      else is_error ''invalid wire_type'' s)"

text \<open>The result is the substream.\<close>

definition pb_make_string_substream :: "'s pb_istream \<Rightarrow> 's pb_istream option \<times> 's pb_istream" where
  "pb_make_string_substream s =
     andthen (pb_decode_varint32 s) (\<lambda>sz s.
       if is_bytes_left s < unat sz then is_error ''parent stream too short'' s
       else (Some (s\<lparr>is_bytes_left := unat sz\<rparr>), s\<lparr>is_bytes_left := is_bytes_left s - unat sz\<rparr>))"

definition pb_close_string_substream :: "'s pb_istream \<Rightarrow> 's pb_istream \<Rightarrow> unit option \<times> 's pb_istream" where
  "pb_close_string_substream substream s =
     (case (if is_bytes_left substream > 0 then pb_discard (is_bytes_left substream) substream
            else (Some (), substream)) of
        (None, _) \<Rightarrow> (None, s)
      | (Some _, sub) \<Rightarrow> (Some (), s\<lparr>is_state := is_state sub, is_errmsg := is_errmsg sub\<rparr>))"

section \<open>Decoders of single values\<close>

definition unzigzag :: "u64 \<Rightarrow> u64" where
  "unzigzag v = (if v AND 1 \<noteq> 0 then NOT (drop_bit 1 v) else drop_bit 1 v)"

definition pb_decode_svarint :: "'s pb_istream \<Rightarrow> u64 option \<times> 's pb_istream" where
  "pb_decode_svarint s = andthen (pb_decode_varint s) (\<lambda>v s. (Some (unzigzag v), s))"

definition pb_decode_fixed32 :: "'s pb_istream \<Rightarrow> u32 option \<times> 's pb_istream" where
  "pb_decode_fixed32 s =
     andthen (pb_read 4 s) (\<lambda>bytes s.
       (Some (push_bit 0 (ucast (bytes ! 0)) OR push_bit 8 (ucast (bytes ! 1)) OR
              push_bit 16 (ucast (bytes ! 2)) OR push_bit 24 (ucast (bytes ! 3))), s))"

definition pb_decode_fixed64 :: "'s pb_istream \<Rightarrow> u64 option \<times> 's pb_istream" where
  "pb_decode_fixed64 s =
     andthen (pb_read 8 s) (\<lambda>bytes s.
       (Some (push_bit 0 (ucast (bytes ! 0)) OR push_bit 8 (ucast (bytes ! 1)) OR
              push_bit 16 (ucast (bytes ! 2)) OR push_bit 24 (ucast (bytes ! 3)) OR
              push_bit 32 (ucast (bytes ! 4)) OR push_bit 40 (ucast (bytes ! 5)) OR
              push_bit 48 (ucast (bytes ! 6)) OR push_bit 56 (ucast (bytes ! 7))), s))"

definition pb_dec_bool :: "'s pb_istream \<Rightarrow> bool option \<times> 's pb_istream" where
  "pb_dec_bool s = andthen (pb_decode_varint32 s) (\<lambda>v s. (Some (v \<noteq> 0), s))"

definition pb_decode_bool :: "'s pb_istream \<Rightarrow> bool option \<times> 's pb_istream" where
  "pb_decode_bool s = pb_dec_bool s"

text \<open>
  The decoders below store into the field's memory. Their result is what they store, a list of
  offsets and bytes relative to \<^verbatim>\<open>dest\<close> (or to the block they allocate for a pointer field), and
  the return value.
\<close>

type_synonym writes = "(nat \<times> byte list) list"

definition store_int :: "nat \<Rightarrow> u64 \<Rightarrow> writes" where
  "store_int n v = [(0, le_bytes n (unat v))]"

definition with_writes :: "writes \<Rightarrow> 'a option \<times> 's pb_istream \<Rightarrow> (writes \<times> 'a option) \<times> 's pb_istream" where
  "with_writes w r = ((w, fst r), snd r)"

definition pb_dec_varint :: "pb_field \<Rightarrow> 's pb_istream \<Rightarrow> (writes \<times> unit option) \<times> 's pb_istream" where
  "pb_dec_varint field s =
     (case pb_decode_varint s of
        (None, s) \<Rightarrow> (([], None), s)
      | (Some v, s) \<Rightarrow>
          let n = pf_data_size field;
              svalue = (if n = 8 then v else signed_take_bit 31 v)
          in if int_size n then
               let clamped = signed_take_bit (8 * n - 1) svalue
               in with_writes (store_int n svalue)
                    (if clamped \<noteq> svalue then is_error ''integer too large'' s else (Some (), s))
             else with_writes [] (is_error ''invalid data_size'' s))"

definition pb_dec_uvarint :: "pb_field \<Rightarrow> 's pb_istream \<Rightarrow> (writes \<times> unit option) \<times> 's pb_istream" where
  "pb_dec_uvarint field s =
     (case pb_decode_varint s of
        (None, s) \<Rightarrow> (([], None), s)
      | (Some v, s) \<Rightarrow>
          let n = pf_data_size field
          in if int_size n then
               let clamped = take_bit (8 * n) v
               in with_writes (store_int n v)
                    (if clamped \<noteq> v then is_error ''integer too large'' s else (Some (), s))
             else with_writes [] (is_error ''invalid data_size'' s))"

definition pb_dec_svarint :: "pb_field \<Rightarrow> 's pb_istream \<Rightarrow> (writes \<times> unit option) \<times> 's pb_istream" where
  "pb_dec_svarint field s =
     (case pb_decode_svarint s of
        (None, s) \<Rightarrow> (([], None), s)
      | (Some v, s) \<Rightarrow>
          let n = pf_data_size field
          in if int_size n then
               let clamped = signed_take_bit (8 * n - 1) v
               in with_writes (store_int n v)
                    (if clamped \<noteq> v then is_error ''integer too large'' s else (Some (), s))
             else with_writes [] (is_error ''invalid data_size'' s))"

definition pb_dec_fixed32 :: "'s pb_istream \<Rightarrow> (writes \<times> unit option) \<times> 's pb_istream" where
  "pb_dec_fixed32 s =
     (case pb_decode_fixed32 s of
        (None, s) \<Rightarrow> (([], None), s)
      | (Some v, s) \<Rightarrow> (([(0, le_bytes 4 (unat v))], Some ()), s))"

definition pb_dec_fixed64 :: "'s pb_istream \<Rightarrow> (writes \<times> unit option) \<times> 's pb_istream" where
  "pb_dec_fixed64 s =
     (case pb_decode_fixed64 s of
        (None, s) \<Rightarrow> (([], None), s)
      | (Some v, s) \<Rightarrow> (([(0, le_bytes 8 (unat v))], Some ()), s))"

text \<open>
  \<open>realloc\<close> stands for \<^verbatim>\<open>pb_realloc\<close>: whether a request for so many bytes succeeds. \<open>allocate_field\<close>
  returns the size of the new block.
\<close>

definition allocate_field :: "(size_t \<Rightarrow> bool) \<Rightarrow> size_t \<Rightarrow> size_t \<Rightarrow> 's pb_istream \<Rightarrow> size_t option \<times> 's pb_istream" where
  "allocate_field realloc data_size array_size s =
     (let check_limit = 2 ^ 32 in
      if data_size = 0 \<or> array_size = 0 then is_error ''invalid size'' s
      else if (data_size \<ge> check_limit \<or> array_size \<ge> check_limit) \<and>
              18446744073709551615 div array_size < data_size then is_error ''size too large'' s
      else if \<not> realloc (size_wrap (array_size * data_size)) then is_error ''realloc failed'' s
      else (Some (size_wrap (array_size * data_size)), s))"

text \<open>
  \<open>dest_block\<close> is the part the decoders of bytes and strings share: the size of the memory the value
  may fill, after allocation for a pointer field.
\<close>

definition dest_block :: "(size_t \<Rightarrow> bool) \<Rightarrow> string \<Rightarrow> pb_field \<Rightarrow> size_t \<Rightarrow> size_t \<Rightarrow> 's pb_istream \<Rightarrow>
    size_t option \<times> 's pb_istream" where
  "dest_block realloc msg field sz alloc_size s =
     (if PB_ATYPE (pf_type field) = 0x80 then
        (if is_bytes_left s < sz then is_error ''end-of-stream'' s
         else allocate_field realloc alloc_size 1 s)
      else if alloc_size > pf_data_size field then is_error msg s
      else (Some (pf_data_size field), s))"

text \<open>The result is the size of the memory written to, the writes, and the return value.\<close>

definition pb_dec_bytes :: "(size_t \<Rightarrow> bool) \<Rightarrow> pb_field \<Rightarrow> 's pb_istream \<Rightarrow>
    ((size_t \<times> writes) option \<times> unit option) \<times> 's pb_istream" where
  "pb_dec_bytes realloc field s =
     (case pb_decode_varint32 s of
        (None, s) \<Rightarrow> ((None, None), s)
      | (Some sz, s) \<Rightarrow>
          let n = unat sz; alloc_size = PB_BYTES_ARRAY_T_ALLOCSIZE n in
          if n > 4294967295 then (case is_error ''bytes overflow'' s of (r, s) \<Rightarrow> ((None, r), s))
          else if n > alloc_size then (case is_error ''size too large'' s of (r, s) \<Rightarrow> ((None, r), s))
          else case dest_block realloc ''bytes overflow'' field n alloc_size s of
                 (None, s) \<Rightarrow> ((None, None), s)
               | (Some block, s) \<Rightarrow>
                   (case pb_read n s of
                      (None, s) \<Rightarrow> ((Some (block, [(0, le_bytes 4 n)]), None), s)
                    | (Some data, s) \<Rightarrow> ((Some (block, [(0, le_bytes 4 n), (4, data)]), Some ()), s)))"

text \<open>In \<^verbatim>\<open>size + 1\<close> both operands are 32 bits wide. The terminator is stored even when the read fails.\<close>

definition pb_dec_string :: "(size_t \<Rightarrow> bool) \<Rightarrow> pb_field \<Rightarrow> 's pb_istream \<Rightarrow>
    ((size_t \<times> writes) option \<times> unit option) \<times> 's pb_istream" where
  "pb_dec_string realloc field s =
     (case pb_decode_varint32 s of
        (None, s) \<Rightarrow> ((None, None), s)
      | (Some sz, s) \<Rightarrow>
          let n = unat sz; alloc_size = unat (sz + 1) in
          if alloc_size < n then (case is_error ''size too large'' s of (r, s) \<Rightarrow> ((None, r), s))
          else case dest_block realloc ''string overflow'' field n alloc_size s of
                 (None, s) \<Rightarrow> ((None, None), s)
               | (Some block, s) \<Rightarrow>
                   (case pb_read n s of
                      (None, s) \<Rightarrow> ((Some (block, [(n, [0])]), None), s)
                    | (Some data, s) \<Rightarrow> ((Some (block, [(0, data), (n, [0])]), Some ()), s)))"

definition pb_dec_fixed_length_bytes :: "pb_field \<Rightarrow> 's pb_istream \<Rightarrow> (writes \<times> unit option) \<times> 's pb_istream" where
  "pb_dec_fixed_length_bytes field s =
     (case pb_decode_varint32 s of
        (None, s) \<Rightarrow> (([], None), s)
      | (Some sz, s) \<Rightarrow>
          if unat sz > 4294967295 then with_writes [] (is_error ''bytes overflow'' s)
          else if sz = 0 then (([(0, replicate (pf_data_size field) 0)], Some ()), s)
          else if unat sz \<noteq> pf_data_size field
          then with_writes [] (is_error ''incorrect fixed length bytes size'' s)
          else case pb_read (pf_data_size field) s of
                 (None, s) \<Rightarrow> (([], None), s)
               | (Some data, s) \<Rightarrow> (([(0, data)], Some ()), s))"

end
