(* ===== verification/Nanopb_Decode_Spec.thy ===== *)
theory Nanopb_Decode_Spec
  imports Nanopb_Decode Nanopb_Encode_Spec
begin

text \<open>
  What the decoders of \<^verbatim>\<open>pb_decode.c\<close> read. The callback of a stream is an interface, the locale
  \<open>source\<close>. \<open>parses f p\<close> says that the decoder \<open>f\<close> does on a stream what the function \<open>p\<close> on byte
  lists says: \<open>p\<close> returns the value and the number of bytes consumed, or \<open>None\<close>.
\<close>

section \<open>Streams as sources\<close>

definition is_ok :: "(size_t \<Rightarrow> 's \<Rightarrow> byte list option \<times> 's) \<Rightarrow> ('s \<Rightarrow> byte list) \<Rightarrow> 's pb_istream \<Rightarrow> bool" where
  "is_ok rd avail s \<longleftrightarrow> is_callback s = rd \<and> is_bytes_left s \<le> length (avail (is_state s))"

definition input :: "('s \<Rightarrow> byte list) \<Rightarrow> 's pb_istream \<Rightarrow> byte list" where
  "input avail s = take (is_bytes_left s) (avail (is_state s))"

text \<open>\<open>s'\<close> is \<open>s\<close> after \<open>k\<close> bytes.\<close>

definition after :: "('s \<Rightarrow> byte list) \<Rightarrow> 's pb_istream \<Rightarrow> nat \<Rightarrow> 's pb_istream \<Rightarrow> bool" where
  "after avail s k s' \<longleftrightarrow> k \<le> is_bytes_left s \<and> is_callback s' = is_callback s \<and>
     is_buf_read s' = is_buf_read s \<and> is_errmsg s' = is_errmsg s \<and>
     is_bytes_left s' = is_bytes_left s - k \<and> avail (is_state s') = drop k (avail (is_state s))"

lemma after_trans: "after avail s k s' \<Longrightarrow> after avail s' j s'' \<Longrightarrow> after avail s (k + j) s''"
  by (auto simp: after_def add.commute)

lemma after_ok: "after avail s k s' \<Longrightarrow> is_ok rd avail s \<Longrightarrow> is_ok rd avail s'"
  by (auto simp: after_def is_ok_def)

lemma after_input: "after avail s k s' \<Longrightarrow> input avail s' = drop k (input avail s)"
  by (auto simp: after_def input_def drop_take)

lemma length_input: "is_ok rd avail s \<Longrightarrow> length (input avail s) = is_bytes_left s"
  by (simp add: is_ok_def input_def)

definition parses :: "(size_t \<Rightarrow> 's \<Rightarrow> byte list option \<times> 's) \<Rightarrow> ('s \<Rightarrow> byte list) \<Rightarrow>
    ('s pb_istream \<Rightarrow> 'a option \<times> 's pb_istream) \<Rightarrow> (byte list \<Rightarrow> ('a \<times> nat) option) \<Rightarrow> bool" where
  "parses rd avail f p \<longleftrightarrow> (\<forall>s. is_ok rd avail s \<longrightarrow>
     (case p (input avail s) of
        None \<Rightarrow> fst (f s) = None
      | Some (x, k) \<Rightarrow> (\<exists>s'. f s = (Some x, s') \<and> after avail s k s')))"

section \<open>Parsers on byte lists\<close>

definition p_byte :: "byte list \<Rightarrow> (byte \<times> nat) option" where
  "p_byte bs = (case bs of [] \<Rightarrow> None | b # _ \<Rightarrow> Some (b, 1))"

definition p_take :: "nat \<Rightarrow> byte list \<Rightarrow> (byte list \<times> nat) option" where
  "p_take n bs = (if n \<le> length bs then Some (take n bs, n) else None)"

definition p_bind :: "(byte list \<Rightarrow> ('a \<times> nat) option) \<Rightarrow> ('a \<Rightarrow> byte list \<Rightarrow> ('b \<times> nat) option) \<Rightarrow>
    byte list \<Rightarrow> ('b \<times> nat) option" where
  "p_bind p q bs = (case p bs of None \<Rightarrow> None | Some (x, k) \<Rightarrow>
     map_option (\<lambda>(y, j). (y, k + j)) (q x (drop k bs)))"

fun p_varint :: "byte \<Rightarrow> u64 \<Rightarrow> byte list \<Rightarrow> (u64 \<times> nat) option" where
  "p_varint bitpos result [] = None"
| "p_varint bitpos result (b # bs) =
     (if bitpos \<ge> 64 then None
      else let result = result OR push_bit (unat bitpos) (ucast (b AND 0x7f)) in
        if b AND 0x80 \<noteq> 0 then map_option (\<lambda>(x, k). (x, Suc k)) (p_varint (bitpos + 7) result bs)
        else Some (result, 1))"

fun p_varint32_loop :: "byte \<Rightarrow> u32 \<Rightarrow> byte list \<Rightarrow> ((u32 \<times> byte \<times> byte) \<times> nat) option" where
  "p_varint32_loop bitpos result [] = None"
| "p_varint32_loop bitpos result (b # bs) =
     (if bitpos \<ge> 32 \<and> b AND 0x7f \<noteq> 0 \<and>
         (drop_bit 31 result = 0 \<or> b \<noteq> (if bitpos < 63 then 0xff else 0x01))
      then None
      else
        let result = (if bitpos \<ge> 32 then result
                      else result OR push_bit (unat bitpos) (ucast (b AND 0x7f)));
            bitpos = bitpos + 7
        in if b AND 0x80 \<noteq> 0 then map_option (\<lambda>(x, k). (x, Suc k)) (p_varint32_loop bitpos result bs)
           else Some ((result, bitpos, b), 1))"

definition p_varint32 :: "byte list \<Rightarrow> (u32 \<times> nat) option" where
  "p_varint32 bs =
     (case bs of [] \<Rightarrow> None | b # r \<Rightarrow>
        if b AND 0x80 = 0 then Some (ucast b, 1)
        else case p_varint32_loop 7 (ucast (b AND 0x7f)) r of
               None \<Rightarrow> None
             | Some ((result, bitpos, last_byte), k) \<Rightarrow>
                 if bitpos = 35 \<and> last_byte AND 0x70 \<noteq> 0 then None else Some (result, Suc k))"

fun p_skip_varint :: "byte list \<Rightarrow> (unit \<times> nat) option" where
  "p_skip_varint [] = None"
| "p_skip_varint (b # bs) =
     (if b AND 0x80 \<noteq> 0 then map_option (\<lambda>(x, k). (x, Suc k)) (p_skip_varint bs) else Some ((), 1))"

lemma pb_readbyte_None: "is_bytes_left s = 0 \<Longrightarrow> fst (pb_readbyte s) = None"
  by (simp add: pb_readbyte_def is_error_def)

locale source =
  fixes rd :: "size_t \<Rightarrow> 's \<Rightarrow> byte list option \<times> 's"
    and avail :: "'s \<Rightarrow> byte list"
  assumes rd_takes: "n \<le> length (avail st) \<Longrightarrow>
    \<exists>st'. rd n st = (Some (take n (avail st)), st') \<and> avail st' = drop n (avail st)"
begin

lemma parses_read: "parses rd avail (pb_read n) (p_take n)"
proof -
  have "case p_take n (input avail s) of None \<Rightarrow> fst (pb_read n s) = None
      | Some (x, k) \<Rightarrow> \<exists>s'. pb_read n s = (Some x, s') \<and> after avail s k s'" if ok: "is_ok rd avail s" for s
  proof (cases "n \<le> is_bytes_left s")
    case True
    then have "n \<le> length (avail (is_state s))" using ok by (simp add: is_ok_def)
    from rd_takes [OF this] obtain st' where st': "rd n (is_state s) = (Some (take n (avail (is_state s))), st')"
      "avail st' = drop n (avail (is_state s))" by blast
    have "take n (input avail s) = take n (avail (is_state s))" using True by (simp add: input_def min_def)
    then show ?thesis
      using True ok st' length_input [OF ok]
      by (auto simp: p_take_def pb_read_def after_def is_ok_def)
  next
    case False
    then show ?thesis using length_input [OF ok] by (simp add: p_take_def pb_read_def is_error_def)
  qed
  then show ?thesis by (simp add: parses_def)
qed

lemma parses_readbyte: "parses rd avail pb_readbyte p_byte"
proof -
  have "case p_byte (input avail s) of None \<Rightarrow> fst (pb_readbyte s) = None
      | Some (x, k) \<Rightarrow> \<exists>s'. pb_readbyte s = (Some x, s') \<and> after avail s k s'" if ok: "is_ok rd avail s" for s
  proof (cases "input avail s")
    case Nil
    with length_input [OF ok] show ?thesis by (simp add: p_byte_def pb_readbyte_None)
  next
    case (Cons b bs)
    then have left: "0 < is_bytes_left s" using length_input [OF ok] by auto
    with Cons have av: "avail (is_state s) \<noteq> []" "avail (is_state s) ! 0 = b"
      by (auto simp: input_def take_Cons split: nat.splits intro: Cons_nth_drop_Suc)
        (metis Cons nth_Cons_0 nth_take input_def)
    then have "1 \<le> length (avail (is_state s))" by (simp add: Suc_le_eq)
    from rd_takes [OF this] obtain st' where st': "rd 1 (is_state s) = (Some (take 1 (avail (is_state s))), st')"
      "avail st' = drop 1 (avail (is_state s))" by blast
    have "take 1 (avail (is_state s)) ! 0 = b" using av by simp
    with Cons left ok st' show ?thesis
      by (auto simp: p_byte_def pb_readbyte_def after_def is_ok_def)
  qed
  then show ?thesis by (simp add: parses_def)
qed

lemma parses_bind:
  assumes f: "parses rd avail f p" and g: "\<And>x. parses rd avail (g x) (q x)"
  shows "parses rd avail (\<lambda>s. andthen (f s) g) (p_bind p q)"
proof -
  have "case p_bind p q (input avail s) of None \<Rightarrow> fst (andthen (f s) g) = None
      | Some (y, k) \<Rightarrow> \<exists>s'. andthen (f s) g = (Some y, s') \<and> after avail s k s'" if ok: "is_ok rd avail s" for s
  proof (cases "p (input avail s)")
    case None
    with f ok have "fst (f s) = None" by (auto simp: parses_def)
    then have "fst (andthen (f s) g) = None" by (cases "f s") auto
    with None show ?thesis by (simp add: p_bind_def)
  next
    case (Some xk)
    obtain x k where xk: "xk = (x, k)" by (rule prod.exhaust)
    with f ok Some obtain s' where s': "f s = (Some x, s')" "after avail s k s'"
      by (fastforce simp: parses_def)
    from g [of x] after_ok [OF s'(2) ok] after_input [OF s'(2)]
    have "case q x (drop k (input avail s)) of None \<Rightarrow> fst (g x s') = None
      | Some (y, j) \<Rightarrow> \<exists>s''. g x s' = (Some y, s'') \<and> after avail s' j s''"
      by (fastforce simp: parses_def)
    then show ?thesis using s' Some xk
      by (auto simp: p_bind_def split: option.splits intro: after_trans)
  qed
  then show ?thesis by (simp add: parses_def)
qed

lemma parses_return: "parses rd avail (\<lambda>s. (Some x, s)) (\<lambda>bs. Some (x, 0))"
  by (simp add: parses_def after_def)

lemma parses_error: "parses rd avail (is_error msg) (\<lambda>bs. None)"
  by (simp add: parses_def is_error_def)

lemma readbyte_cases:
  assumes ok: "is_ok rd avail s"
  obtains (eof) s' where "input avail s = []" "pb_readbyte s = (None, s')"
  | (byte) b bs s' where "input avail s = b # bs" "pb_readbyte s = (Some b, s')" "after avail s 1 s'"
      "is_ok rd avail s'" "input avail s' = bs"
proof (cases "input avail s")
  case Nil
  with parses_readbyte ok have "fst (pb_readbyte s) = None" by (fastforce simp: parses_def p_byte_def)
  with Nil show ?thesis using eof by (cases "pb_readbyte s") auto
next
  case (Cons b bs)
  with parses_readbyte ok obtain s' where s': "pb_readbyte s = (Some b, s')" "after avail s 1 s'"
    by (fastforce simp: parses_def p_byte_def)
  with Cons after_ok [OF s'(2) ok] after_input [OF s'(2)] show ?thesis using byte by simp
qed

text \<open>The outcome of \<open>f s\<close> when the parser's answer on the input is \<open>a\<close>.\<close>

definition agrees :: "'s pb_istream \<Rightarrow> 'a option \<times> 's pb_istream \<Rightarrow> ('a \<times> nat) option \<Rightarrow> bool" where
  "agrees s r a \<longleftrightarrow> (case a of None \<Rightarrow> fst r = None
     | Some (x, k) \<Rightarrow> (\<exists>s'. r = (Some x, s') \<and> after avail s k s'))"

lemma parses_agrees: "parses rd avail f p \<longleftrightarrow> (\<forall>s. is_ok rd avail s \<longrightarrow> agrees s (f s) (p (input avail s)))"
  by (simp add: parses_def agrees_def)

lemma agrees_later:
  "after avail s 1 s' \<Longrightarrow> agrees s' r a \<Longrightarrow> agrees s r (map_option (\<lambda>(x, k). (x, Suc k)) a)"
  using after_trans [of avail s 1 s'] by (fastforce simp: agrees_def split: option.splits prod.splits)

lemma varint_dec_loop_agrees:
  "is_ok rd avail s \<Longrightarrow> input avail s = bs \<Longrightarrow> agrees s (varint_dec_loop bitpos result s) (p_varint bitpos result bs)"
proof (induction bs arbitrary: s bitpos result)
  case Nil
  from Nil(1) show ?case
  proof (cases rule: readbyte_cases)
    case (eof s')
    then show ?thesis by (subst varint_dec_loop.simps) (simp add: agrees_def is_error_def)
  qed (use Nil in simp)
next
  case (Cons b bs)
  from Cons.prems(1) show ?case
  proof (cases rule: readbyte_cases)
    case (byte b' bs' s')
    with Cons.prems have eq: "b' = b" "bs' = bs" by simp_all
    let ?r = "result OR push_bit (unat bitpos) (ucast (b AND 0x7f))"
    have unf: "varint_dec_loop bitpos result s = (if bitpos \<ge> 64 then is_error ''varint overflow'' s
        else if b AND 0x80 \<noteq> 0 then varint_dec_loop (bitpos + 7) ?r s' else (Some ?r, s'))"
      by (subst varint_dec_loop.simps) (simp only: byte(2) andthen.simps eq Let_def)
    have punf: "p_varint bitpos result (b # bs) = (if bitpos \<ge> 64 then None
        else if b AND 0x80 \<noteq> 0 then map_option (\<lambda>(x, k). (x, Suc k)) (p_varint (bitpos + 7) ?r bs)
        else Some (?r, 1))"
      by (simp only: p_varint.simps Let_def)
    have "agrees s' (varint_dec_loop (bitpos + 7) ?r s') (p_varint (bitpos + 7) ?r bs)"
      using byte eq by (intro Cons.IH) simp_all
    from agrees_later [OF byte(3) this] byte(3) show ?thesis unfolding unf punf
      by (cases "bitpos \<ge> 64"; cases "b AND 0x80 \<noteq> 0") (simp_all add: agrees_def is_error_def)
  qed (use Cons in simp)
qed

lemma varint32_loop_agrees:
  "is_ok rd avail s \<Longrightarrow> input avail s = bs \<Longrightarrow> agrees s (varint32_loop bitpos result s) (p_varint32_loop bitpos result bs)"
proof (induction bs arbitrary: s bitpos result)
  case Nil
  from Nil(1) show ?case
  proof (cases rule: readbyte_cases)
    case (eof s')
    then show ?thesis by (subst varint32_loop.simps) (simp add: agrees_def)
  qed (use Nil in simp)
next
  case (Cons b bs)
  from Cons.prems(1) show ?case
  proof (cases rule: readbyte_cases)
    case (byte b' bs' s')
    with Cons.prems have eq: "b' = b" "bs' = bs" by simp_all
    let ?bad = "bitpos \<ge> 32 \<and> b AND 0x7f \<noteq> 0 \<and>
        (drop_bit 31 result = 0 \<or> b \<noteq> (if bitpos < 63 then 0xff else 0x01))"
    let ?r = "if bitpos \<ge> 32 then result else result OR push_bit (unat bitpos) (ucast (b AND 0x7f))"
    have unf: "varint32_loop bitpos result s = (if ?bad then is_error ''varint overflow'' s'
        else if b AND 0x80 \<noteq> 0 then varint32_loop (bitpos + 7) ?r s' else (Some (?r, bitpos + 7, b), s'))"
      by (subst varint32_loop.simps) (simp only: byte(2) andthen.simps eq Let_def)
    have punf: "p_varint32_loop bitpos result (b # bs) = (if ?bad then None
        else if b AND 0x80 \<noteq> 0 then map_option (\<lambda>(x, k). (x, Suc k)) (p_varint32_loop (bitpos + 7) ?r bs)
        else Some ((?r, bitpos + 7, b), 1))"
      by (simp only: p_varint32_loop.simps Let_def)
    consider (bad) ?bad | (more) "\<not> ?bad" "b AND 0x80 \<noteq> 0" | (stop) "\<not> ?bad" "\<not> b AND 0x80 \<noteq> 0" by blast
    then show ?thesis
    proof cases
      case bad
      then show ?thesis unfolding unf punf by (simp only: if_True) (simp add: agrees_def is_error_def)
    next
      case more
      have "agrees s' (varint32_loop (bitpos + 7) ?r s') (p_varint32_loop (bitpos + 7) ?r bs)"
        using byte eq by (intro Cons.IH) simp_all
      from agrees_later [OF byte(3) this] more show ?thesis unfolding unf punf by (simp only: if_True if_False simp_thms)
    next
      case stop
      then show ?thesis unfolding unf punf using byte(3) by (simp only: if_False simp_thms) (simp add: agrees_def)
    qed
  qed (use Cons in simp)
qed

lemma skip_varint_agrees:
  "is_ok rd avail s \<Longrightarrow> input avail s = bs \<Longrightarrow> agrees s (pb_skip_varint s) (p_skip_varint bs)"
proof (induction bs arbitrary: s)
  case Nil
  from parses_read [of 1] Nil have "fst (pb_read 1 s) = None" by (fastforce simp: parses_def p_take_def)
  then show ?case by (subst pb_skip_varint.simps) (cases "pb_read 1 s"; simp add: agrees_def)
next
  case (Cons b bs)
  from parses_read [of 1] Cons.prems obtain s' where s': "pb_read 1 s = (Some [b], s')" "after avail s 1 s'"
    by (fastforce simp: parses_def p_take_def)
  from after_ok [OF s'(2)] after_input [OF s'(2)] Cons.prems have "is_ok rd avail s'" "input avail s' = bs" by simp_all
  from agrees_later [OF s'(2) Cons.IH [OF this]] show ?case using s'
    by (subst pb_skip_varint.simps) (simp add: agrees_def [of _ "(Some (), s')"])
qed

lemma parses_varint: "parses rd avail pb_decode_varint (p_varint 0 0)"
  by (simp add: parses_agrees pb_decode_varint_def varint_dec_loop_agrees)

lemma parses_skip_varint: "parses rd avail pb_skip_varint p_skip_varint"
  by (simp add: parses_agrees skip_varint_agrees)

lemma parses_varint32: "parses rd avail pb_decode_varint32 p_varint32"
proof -
  have "agrees s (pb_decode_varint32 s) (p_varint32 (input avail s))" if ok: "is_ok rd avail s" for s
    using ok
  proof (cases rule: readbyte_cases)
    case (eof s')
    then show ?thesis by (simp add: pb_decode_varint32_def pb_decode_varint32_eof_def p_varint32_def agrees_def)
  next
    case (byte b bs s')
    have loop: "agrees s' (varint32_loop 7 (ucast (b AND 0x7f)) s') (p_varint32_loop 7 (ucast (b AND 0x7f)) bs)"
      by (rule varint32_loop_agrees [OF byte(4,5)])
    show ?thesis
    proof (cases "p_varint32_loop 7 (ucast (b AND 0x7f)) bs")
      case None
      with loop have "fst (varint32_loop 7 (ucast (b AND 0x7f)) s') = None" by (simp add: agrees_def)
      then show ?thesis using byte None
        by (cases "varint32_loop 7 (ucast (b AND 0x7f)) s'")
          (simp add: pb_decode_varint32_def pb_decode_varint32_eof_def p_varint32_def agrees_def)
    next
      case (Some y)
      obtain r bp l k where y: "y = ((r, bp, l), k)" by (metis prod.collapse)
      with loop Some obtain s'' where s'': "varint32_loop 7 (ucast (b AND 0x7f)) s' = (Some (r, bp, l), s'')"
        "after avail s' k s''" by (auto simp: agrees_def)
      from after_trans [OF byte(3) s''(2)] show ?thesis using byte Some y s''
        by (simp add: pb_decode_varint32_def pb_decode_varint32_eof_def p_varint32_def agrees_def is_error_def)
    qed
  qed
  then show ?thesis by (simp add: parses_agrees)
qed

end

end
