(* ===== verification/Nanopb_Wire.thy ===== *)
theory Nanopb_Wire
  imports Nanopb_Decode_Spec
begin

text \<open>
  The wire format as a pair of encoder and decoder: what \<^verbatim>\<open>pb_encode.c\<close> writes, \<^verbatim>\<open>pb_decode.c\<close> reads
  back or skips. \<open>codec\<close> is interpreted on varints, zigzag integers, fixed-width values, tags and
  strings, with the decoders running on memory streams.
\<close>

section \<open>Varints\<close>

lemma enc_small: "n < 128 \<Longrightarrow> enc_varint n = [word_of_nat n]"
  by (subst enc_varint.simps) simp

lemma enc_large: "\<not> n < 128 \<Longrightarrow> enc_varint n = word_of_nat (128 + n mod 128) # enc_varint (n div 128)"
  by (subst enc_varint.simps) simp

lemma septet_bytes:
  "m < 128 \<Longrightarrow> (word_of_nat m :: byte) AND 0x80 = 0"
  "m < 128 \<Longrightarrow> (word_of_nat (128 + m) :: byte) AND 0x80 \<noteq> 0"
  "m < 128 \<Longrightarrow> unat ((word_of_nat m :: byte) AND 0x7f) = m"
  "m < 128 \<Longrightarrow> unat ((word_of_nat (128 + m) :: byte) AND 0x7f) = m"
  by (simp_all add: byte_high_clear unat_and_7f unat_of_nat del: of_nat_add)

lemma enc_continue:
  assumes "\<not> n < 128"
  obtains b where "enc_varint n = b # enc_varint (n div 128)" "b AND 0x80 \<noteq> 0" "unat (b AND 0x7f) = n mod 128"
proof
  show "enc_varint n = word_of_nat (128 + n mod 128) # enc_varint (n div 128)" using assms by (rule enc_large)
  show "(word_of_nat (128 + n mod 128) :: byte) AND 0x80 \<noteq> 0" by (rule septet_bytes) simp
  show "unat ((word_of_nat (128 + n mod 128) :: byte) AND 0x7f) = n mod 128" by (rule septet_bytes) simp
qed

text \<open>Adding a septet at bit position \<open>7 * i\<close>.\<close>

lemma add_septet:
  fixes result :: "'a :: len word" and b :: byte
  assumes "8 \<le> LENGTH('a)" "unat result < 2 ^ (7 * i)" "unat (b AND 0x7f) = m"
    and "m * 2 ^ (7 * i) + unat result < 2 ^ LENGTH('a)" "unat bp = 7 * i"
  shows "unat (result OR push_bit (unat bp) (ucast (b AND 0x7f))) = unat result + m * 2 ^ (7 * i)"
proof -
  have u: "unat (ucast (b AND 0x7f) :: 'a word) = m"
    using assms(1,3) unat_ucast_up [of "b AND 0x7f", where 'b = 'a] by simp
  have "unat (push_bit (7 * i) (ucast (b AND 0x7f)) OR result) = unat (ucast (b AND 0x7f) :: 'a word) * 2 ^ (7 * i) + unat result"
    by (rule unat_push_bit_or) (use assms u in simp_all)
  then show ?thesis by (simp add: assms(5) u or.commute)
qed

lemma bitpos_step: "unat bp = 7 * i \<Longrightarrow> i \<le> 30 \<Longrightarrow> unat (bp + 7 :: byte) = 7 * Suc i"
  by (simp add: unat_word_ariths)

lemma septet_bound:
  assumes "n * 2 ^ (7 * i) + r < (2 :: nat) ^ w" "0 < n div 128" "r < 2 ^ (7 * i)"
  shows "n mod 128 * 2 ^ (7 * i) + r < 2 ^ w" "7 * Suc i < w"
    "n div 128 * 2 ^ (7 * Suc i) + (r + n mod 128 * 2 ^ (7 * i)) = n * 2 ^ (7 * i) + r"
    "r + n mod 128 * 2 ^ (7 * i) < 2 ^ (7 * Suc i)"
proof -
  let ?p = "2 ^ (7 * i) :: nat"
  have p: "2 ^ (7 * Suc i) = 128 * ?p" by (simp add: power_add)
  have split: "n * ?p = n div 128 * (128 * ?p) + n mod 128 * ?p"
    by (metis add_mult_distrib div_mult_mod_eq mult.assoc)
  then show "n mod 128 * ?p + r < 2 ^ w" using assms(1) by linarith
  show "n div 128 * 2 ^ (7 * Suc i) + (r + n mod 128 * ?p) = n * ?p + r"
    using split by (simp only: p)
  have "1 * (128 * ?p) \<le> n div 128 * (128 * ?p)" by (rule mult_le_mono1) (use assms(2) in simp)
  then have "(2::nat) ^ (7 * Suc i) < 2 ^ w" using split assms(1) unfolding p by linarith
  then show "7 * Suc i < w" by simp
  have "n mod 128 * ?p \<le> 127 * ?p" by (rule mult_le_mono1) (simp add: less_Suc_eq_le [symmetric])
  then show "r + n mod 128 * ?p < 2 ^ (7 * Suc i)" using assms(3) unfolding p by linarith
qed

lemma p_varint_enc:
  assumes "unat bp = 7 * i" "i \<le> 9" "unat result < 2 ^ (7 * i)" "n * 2 ^ (7 * i) + unat result < 2 ^ 64"
  shows "p_varint bp result (enc_varint n @ r) =
    Some (word_of_nat (unat result + n * 2 ^ (7 * i)), length (enc_varint n))"
  using assms
proof (induction n arbitrary: bp i result rule: enc_varint.induct)
  case (1 n)
  have bp: "\<not> bp \<ge> 64" using "1.prems"(1,2) by (simp add: word_le_nat_alt)
  show ?case
  proof (cases "n < 128")
    case True
    let ?b = "word_of_nat n :: byte"
    have "unat (result OR push_bit (unat bp) (ucast (?b AND 0x7f))) = unat result + n * 2 ^ (7 * i)"
      by (rule add_septet) (use "1.prems" True in \<open>simp_all add: septet_bytes\<close>)
    then have "result OR push_bit (unat bp) (ucast (?b AND 0x7f)) = word_of_nat (unat result + n * 2 ^ (7 * i))"
      by (rule word_eq_of_nat)
    then show ?thesis using bp True
      by (simp add: enc_small septet_bytes Let_def del: of_nat_add of_nat_mult)
  next
    case False
    then obtain b where b: "enc_varint n = b # enc_varint (n div 128)" "b AND 0x80 \<noteq> 0" "unat (b AND 0x7f) = n mod 128"
      by (rule enc_continue)
    let ?r = "result OR push_bit (unat bp) (ucast (b AND 0x7f))"
    have pos: "0 < n div 128" using False by (simp add: div_greater_zero_iff)
    note bounds = septet_bound [OF "1.prems"(4) pos "1.prems"(3)]
    have r: "unat ?r = unat result + n mod 128 * 2 ^ (7 * i)"
      by (rule add_septet) (use "1.prems" bounds b in simp_all)
    have "p_varint (bp + 7) ?r (enc_varint (n div 128) @ r) =
        Some (word_of_nat (unat ?r + n div 128 * 2 ^ (7 * Suc i)), length (enc_varint (n div 128)))"
    proof (rule "1.IH" [OF False])
      show "unat (bp + 7) = 7 * Suc i" using "1.prems"(1,2) by (intro bitpos_step) simp_all
      show "Suc i \<le> 9" using bounds(2) by simp
      show "unat ?r < 2 ^ (7 * Suc i)" using bounds(4) by (simp only: r)
      show "n div 128 * 2 ^ (7 * Suc i) + unat ?r < 2 ^ 64"
        using bounds(3) "1.prems"(4) by (simp only: r)
    qed
    moreover have "unat ?r + n div 128 * 2 ^ (7 * Suc i) = unat result + n * 2 ^ (7 * i)"
      using bounds(3) by (simp only: r add.commute)
    moreover have "p_varint bp result (enc_varint n @ r) =
        map_option (\<lambda>(x, k). (x, Suc k)) (p_varint (bp + 7) ?r (enc_varint (n div 128) @ r))"
      using bp b by (simp add: Let_def)
    ultimately show ?thesis by (simp only: b(1) option.map prod.case list.size) simp
  qed
qed

lemma p_varint_roundtrip: "p_varint 0 0 (enc_varint (unat v) @ r) = Some (v, length (enc_varint (unat v)))"
  using p_varint_enc [of 0 0 0 "unat v" r] unsigned_less [of v, where 'a = nat] by simp

lemma byte_and_70: "unat (b :: byte) < 16 \<Longrightarrow> b AND 0x70 = 0"
  by (rule all_bytes [of "\<lambda>b. unat b < 16 \<longrightarrow> b AND 0x70 = 0" b, rule_format]) (code_simp, assumption)

lemma p_varint32_loop_enc:
  assumes "unat bp = 7 * i" "i \<le> 4" "unat result < 2 ^ (7 * i)" "n * 2 ^ (7 * i) + unat result < 2 ^ 32"
  shows "\<exists>bp' l. p_varint32_loop bp result (enc_varint n @ r) =
      Some ((word_of_nat (unat result + n * 2 ^ (7 * i)), bp', l), length (enc_varint n)) \<and>
    (bp' = 35 \<longrightarrow> l AND 0x70 = 0)"
  using assms
proof (induction n arbitrary: bp i result rule: enc_varint.induct)
  case (1 n)
  have bp: "\<not> bp \<ge> 32" using "1.prems"(1,2) by (simp add: word_le_nat_alt)
  show ?case
  proof (cases "n < 128")
    case True
    let ?b = "word_of_nat n :: byte"
    have "unat (result OR push_bit (unat bp) (ucast (?b AND 0x7f))) = unat result + n * 2 ^ (7 * i)"
      by (rule add_septet) (use "1.prems" True in \<open>simp_all add: septet_bytes\<close>)
    then have eq: "result OR push_bit (unat bp) (ucast (?b AND 0x7f)) = word_of_nat (unat result + n * 2 ^ (7 * i))"
      by (rule word_eq_of_nat)
    have "bp + 7 = 35 \<longrightarrow> ?b AND 0x70 = 0"
    proof
      assume "bp + 7 = 35"
      then have "unat (bp + 7) = unat (35 :: byte)" by (rule arg_cong)
      moreover have "unat (bp + 7) = 7 * Suc i" using "1.prems"(1,2) by (intro bitpos_step) simp_all
      ultimately have "i = 4" by simp
      with "1.prems"(4) have "n < 16" by simp
      then show "?b AND 0x70 = 0" using True by (intro byte_and_70) (simp add: unat_of_nat)
    qed
    then show ?thesis using bp True eq
      by (simp add: enc_small septet_bytes Let_def del: of_nat_add of_nat_mult)
  next
    case False
    then obtain b where b: "enc_varint n = b # enc_varint (n div 128)" "b AND 0x80 \<noteq> 0" "unat (b AND 0x7f) = n mod 128"
      by (rule enc_continue)
    let ?r = "result OR push_bit (unat bp) (ucast (b AND 0x7f))"
    have pos: "0 < n div 128" using False by (simp add: div_greater_zero_iff)
    note bounds = septet_bound [OF "1.prems"(4) pos "1.prems"(3)]
    have r: "unat ?r = unat result + n mod 128 * 2 ^ (7 * i)"
      by (rule add_septet) (use "1.prems" bounds b in simp_all)
    have "\<exists>bp' l. p_varint32_loop (bp + 7) ?r (enc_varint (n div 128) @ r) =
        Some ((word_of_nat (unat ?r + n div 128 * 2 ^ (7 * Suc i)), bp', l), length (enc_varint (n div 128))) \<and>
      (bp' = 35 \<longrightarrow> l AND 0x70 = 0)"
    proof (rule "1.IH" [OF False])
      show "unat (bp + 7) = 7 * Suc i" using "1.prems"(1,2) by (intro bitpos_step) simp_all
      show "Suc i \<le> 4" using bounds(2) by simp
      show "unat ?r < 2 ^ (7 * Suc i)" using bounds(4) by (simp only: r)
      show "n div 128 * 2 ^ (7 * Suc i) + unat ?r < 2 ^ 32"
        using bounds(3) "1.prems"(4) by (simp only: r)
    qed
    moreover have "unat ?r + n div 128 * 2 ^ (7 * Suc i) = unat result + n * 2 ^ (7 * i)"
      using bounds(3) by (simp only: r add.commute)
    moreover have "p_varint32_loop bp result (enc_varint n @ r) =
        map_option (\<lambda>(x, k). (x, Suc k)) (p_varint32_loop (bp + 7) ?r (enc_varint (n div 128) @ r))"
      using bp b by (simp add: Let_def)
    ultimately show ?thesis by (elim exE conjE) (simp add: b(1) del: of_nat_add of_nat_mult)
  qed
qed

lemma p_varint32_roundtrip: "p_varint32 (enc_varint (unat v) @ r) = Some (v, length (enc_varint (unat v)))"
proof -
  have v: "unat v < 2 ^ 32" using unsigned_less [of v, where 'a = nat] by simp
  show ?thesis
  proof (cases "unat v < 128")
    case True
    then have "unat (ucast (word_of_nat (unat v) :: byte) :: u32) = unat v"
      by (simp add: unsigned_ucast_eq unsigned_take_bit_eq take_bit_nat_eq_self)
    then have "ucast (word_of_nat (unat v) :: byte) = v" by (metis word_eq_of_nat)
    moreover have "(word_of_nat (unat v) :: byte) AND 0x80 = 0" by (rule septet_bytes [OF True])
    ultimately show ?thesis unfolding enc_small [OF True] p_varint32_def by (simp only: append.simps list.case) simp
  next
    case False
    then obtain b where b: "enc_varint (unat v) = b # enc_varint (unat v div 128)" "b AND 0x80 \<noteq> 0"
      "unat (b AND 0x7f) = unat v mod 128" by (rule enc_continue)
    let ?r = "ucast (b AND 0x7f) :: u32"
    have r: "unat ?r = unat v mod 128" by (simp add: unat_ucast_up b)
    have "\<exists>bp' l. p_varint32_loop 7 ?r (enc_varint (unat v div 128) @ r) =
        Some ((word_of_nat (unat ?r + unat v div 128 * 2 ^ (7 * 1)), bp', l), length (enc_varint (unat v div 128))) \<and>
      (bp' = 35 \<longrightarrow> l AND 0x70 = 0)"
      by (rule p_varint32_loop_enc) (use v in \<open>simp_all add: r\<close>)
    moreover have "word_of_nat (unat ?r + unat v div 128 * 2 ^ (7 * 1)) = v" by (simp add: r del: of_nat_add of_nat_mult)
    ultimately obtain bp' l where "p_varint32_loop 7 ?r (enc_varint (unat v div 128) @ r) =
        Some ((v, bp', l), length (enc_varint (unat v div 128)))" "bp' = 35 \<longrightarrow> l AND 0x70 = 0" by (simp only:) blast
    then show ?thesis using b by (simp add: p_varint32_def)
  qed
qed

section \<open>Fixed-width values, tags and zigzag\<close>

lemma octet_at:
  fixes v :: "'a :: len word"
  assumes "8 \<le> LENGTH('a)"
  shows "ucast (drop_bit k v AND 0xff) = (word_of_nat (unat v div 2 ^ k) :: byte)"
proof -
  have "unat (drop_bit k v AND 0xff) = unat v div 2 ^ k mod 256"
    using unat_and_mask [of "drop_bit k v" 8] by (simp add: mask_eq_exp_minus_1 unat_drop_bit)
  then have "unat (ucast (drop_bit k v AND 0xff) :: byte) = unat v div 2 ^ k mod 256"
    by (simp add: unsigned_ucast_eq take_bit_eq_mod)
  then show ?thesis by (metis unat_of_nat_byte word_of_nat_unat_byte)
qed

lemma le_bytes_map: "le_bytes k n = map (\<lambda>i. word_of_nat (n div 256 ^ i)) [0..<k]"
proof (induction k arbitrary: n)
  case (Suc k)
  show ?case
    by (simp add: Suc upt_conv_Cons map_Suc_upt [symmetric] div_mult2_eq comp_def del: upt_Suc)
qed simp

lemma le_bytes_4: "le_bytes 4 n = [word_of_nat n, word_of_nat (n div 2 ^ 8), word_of_nat (n div 2 ^ 16),
    word_of_nat (n div 2 ^ 24)]"
  by (simp add: le_bytes_map upt_rec)

lemma le_bytes_8: "le_bytes 8 n = [word_of_nat n, word_of_nat (n div 2 ^ 8), word_of_nat (n div 2 ^ 16),
    word_of_nat (n div 2 ^ 24), word_of_nat (n div 2 ^ 32), word_of_nat (n div 2 ^ 40),
    word_of_nat (n div 2 ^ 48), word_of_nat (n div 2 ^ 56)]"
  by (simp add: le_bytes_map upt_rec)

context sink
begin

lemma fixed32_denotes: "denotes wr out space (pb_encode_fixed32 v) (le_bytes 4 (unat v))"
  using write_denotes [of "le_bytes 4 (unat v)" 4] octet_at [of 0 v] octet_at [of _ v]
  by (simp add: pb_encode_fixed32_def [abs_def] le_bytes_4)

lemma fixed64_denotes: "denotes wr out space (pb_encode_fixed64 v) (le_bytes 8 (unat v))"
  using write_denotes [of "le_bytes 8 (unat v)" 8] octet_at [of 0 v] octet_at [of _ v]
  by (simp add: pb_encode_fixed64_def [abs_def] le_bytes_8)

end

lemma or_octet:
  fixes acc :: "'a :: len word" and x :: byte
  assumes "unat acc = m" "m < 2 ^ k" "k + 8 \<le> LENGTH('a)"
  shows "unat (acc OR push_bit k (ucast x)) = m + unat x * 2 ^ k" "m + unat x * 2 ^ k < 2 ^ (k + 8)"
proof -
  have u: "unat (ucast x :: 'a word) = unat x" using assms(3) by (intro unat_ucast_up) simp
  have "unat x * 2 ^ k \<le> 255 * 2 ^ k" using unat_byte_less [of x] by (intro mult_le_mono1) linarith
  then have "m + unat x * 2 ^ k < 2 ^ k + 255 * 2 ^ k" using assms(2) by linarith
  then show b: "m + unat x * 2 ^ k < 2 ^ (k + 8)" by (simp add: power_add)
  also have "(2::nat) ^ (k + 8) \<le> 2 ^ LENGTH('a)" using assms(3) by simp
  finally have "unat (push_bit k (ucast x) OR acc) = unat (ucast x :: 'a word) * 2 ^ k + unat acc"
    using assms(1,2) by (intro unat_push_bit_or) (simp_all add: u add.commute)
  then show "unat (acc OR push_bit k (ucast x)) = m + unat x * 2 ^ k"
    by (simp only: u assms(1) or.commute add.commute)
qed

lemma octets_32:
  fixes a b c d :: byte
  shows "unat (push_bit 0 (ucast a) OR push_bit 8 (ucast b) OR push_bit 16 (ucast c) OR push_bit 24 (ucast d) :: u32)
    = le_nat [a, b, c, d]"
proof -
  let ?w = "\<lambda>x :: byte. ucast x :: u32"
  have "unat (push_bit 0 (?w a)) = unat a" by (simp add: unat_ucast_up)
  note 1 = or_octet [OF this, of 8 b, simplified]
  note 2 = or_octet [OF 1(1), of 16 c, simplified, OF 1(2)]
  note 3 = or_octet [OF 2(1), of 24 d, simplified, OF 2(2)]
  show ?thesis using 3(1) by (simp add: or.assoc)
qed

lemma octets_64:
  fixes a b c d e f g h :: byte
  shows "unat (push_bit 0 (ucast a) OR push_bit 8 (ucast b) OR push_bit 16 (ucast c) OR push_bit 24 (ucast d) OR
      push_bit 32 (ucast e) OR push_bit 40 (ucast f) OR push_bit 48 (ucast g) OR push_bit 56 (ucast h) :: u64)
    = le_nat [a, b, c, d, e, f, g, h]"
proof -
  let ?w = "\<lambda>x :: byte. ucast x :: u64"
  have "unat (push_bit 0 (?w a)) = unat a" by (simp add: unat_ucast_up)
  note 1 = or_octet [OF this, of 8 b, simplified]
  note 2 = or_octet [OF 1(1), of 16 c, simplified, OF 1(2)]
  note 3 = or_octet [OF 2(1), of 24 d, simplified, OF 2(2)]
  note 4 = or_octet [OF 3(1), of 32 e, simplified, OF 3(2)]
  note 5 = or_octet [OF 4(1), of 40 f, simplified, OF 4(2)]
  note 6 = or_octet [OF 5(1), of 48 g, simplified, OF 5(2)]
  note 7 = or_octet [OF 6(1), of 56 h, simplified, OF 6(2)]
  show ?thesis using 7(1) by (simp add: or.assoc)
qed

lemma list_4: "length bs = 4 \<Longrightarrow> bs = [bs ! 0, bs ! 1, bs ! 2, bs ! 3]"
  by (rule nth_equalityI) (auto simp: less_Suc_eq numeral_eq_Suc)

lemma list_8: "length bs = 8 \<Longrightarrow> bs = [bs ! 0, bs ! 1, bs ! 2, bs ! 3, bs ! 4, bs ! 5, bs ! 6, bs ! 7]"
  by (rule nth_equalityI) (auto simp: less_Suc_eq numeral_eq_Suc)

text \<open>Zigzag: the sign moves to bit 0.\<close>

lemma unzigzag_bit: "unzigzag w = (if bit w 0 then NOT (drop_bit 1 w) else drop_bit 1 w)"
proof -
  have "w AND 1 \<noteq> 0 \<longleftrightarrow> bit w 0" by (auto simp: bit_0 and_one_eq odd_iff_mod_2_eq_one)
  then show ?thesis by (simp add: unzigzag_def)
qed

lemma zero_bits: "bit (NOT (push_bit 1 (v :: u64))) 0 \<longleftrightarrow> True" "bit (push_bit 1 (v :: u64)) 0 \<longleftrightarrow> False"
  by (simp_all only: bit_simps) simp_all

lemma unzigzag_zigzag: "unzigzag (zigzag v) = v"
proof (cases "sint v < 0")
  case True
  have "bit v 63" using True bit_last_iff [of v] by simp
  have "unzigzag (zigzag v) = NOT (drop_bit 1 (NOT (push_bit 1 v)))"
    using True by (simp only: unzigzag_bit zigzag_def if_True zero_bits)
  also have "\<dots> = v"
  proof (rule bit_word_eqI)
    fix n assume "n < LENGTH(64)"
    then show "bit (NOT (drop_bit 1 (NOT (push_bit 1 v)))) n \<longleftrightarrow> bit v n"
      using \<open>bit v 63\<close> by (cases "n = 63") (auto simp: bit_simps simp del: push_bit_Suc)
  qed
  finally show ?thesis .
next
  case False
  have "\<not> bit v 63" using False bit_last_iff [of v] by simp
  have "unzigzag (zigzag v) = drop_bit 1 (push_bit 1 v)"
    using False by (simp only: unzigzag_bit zigzag_def if_False zero_bits)
  also have "\<dots> = v"
  proof (rule bit_word_eqI)
    fix n assume "n < LENGTH(64)"
    then show "bit (drop_bit 1 (push_bit 1 v)) n \<longleftrightarrow> bit v n"
      using \<open>\<not> bit v 63\<close> by (cases "n = 63") (auto simp: bit_simps simp del: push_bit_Suc)
  qed
  finally show ?thesis .
qed

section \<open>Decoders on a source\<close>

definition p_drop :: "nat \<Rightarrow> byte list \<Rightarrow> (unit \<times> nat) option" where
  "p_drop n bs = (if n \<le> length bs then Some ((), n) else None)"

definition p_tag :: "byte list \<Rightarrow> ((u32 \<times> u32) \<times> nat) option" where
  "p_tag bs = (case p_varint32 bs of None \<Rightarrow> None | Some (v, k) \<Rightarrow>
     if v = 0 then None else Some ((v AND 7, drop_bit 3 v), k))"

definition p_skip_field :: "u32 \<Rightarrow> byte list \<Rightarrow> (unit \<times> nat) option" where
  "p_skip_field wt =
     (if wt = PB_WT_VARINT then p_skip_varint
      else if wt = PB_WT_64BIT then p_drop 8
      else if wt = PB_WT_STRING then p_bind p_varint32 (\<lambda>n. p_drop (unat n))
      else if wt = PB_WT_32BIT then p_drop 4
      else (\<lambda>_. None))"

text \<open>\<^verbatim>\<open>pb_decode_tag\<close> without the end-of-file flag.\<close>

definition decode_tag :: "'s pb_istream \<Rightarrow> (u32 \<times> u32) option \<times> 's pb_istream" where
  "decode_tag s = (case pb_decode_tag s of ((r, _), s) \<Rightarrow> (r, s))"

context source
begin

lemma parses_map:
  assumes "parses rd avail f p"
  shows "parses rd avail (\<lambda>s. andthen (f s) (\<lambda>x s. (Some (g x), s))) (\<lambda>bs. map_option (\<lambda>(x, k). (g x, k)) (p bs))"
proof -
  have "p_bind p (\<lambda>x bs. Some (g x, 0)) bs = map_option (\<lambda>(x, k). (g x, k)) (p bs)" for bs
    by (auto simp: p_bind_def split: option.splits)
  with parses_bind [OF assms parses_return, of g] show ?thesis by (simp add: fun_eq_iff parses_def)
qed

lemma parses_read_unit: "parses rd avail (\<lambda>s. andthen (pb_read n s) (\<lambda>_ s. (Some (), s))) (p_drop n)"
proof -
  have "map_option (\<lambda>(x, k). ((), k)) (p_take n bs) = p_drop n bs" for bs
    by (simp add: p_take_def p_drop_def)
  with parses_map [OF parses_read [of n], where g = "\<lambda>_. ()"] show ?thesis by (simp add: fun_eq_iff parses_def)
qed

lemma parses_discard_chunks: "parses rd avail (pb_discard_chunks n) (p_drop n)"
proof (induction n rule: less_induct)
  case (less n)
  show ?case
  proof (cases "n > 16")
    case False
    then have "pb_discard_chunks n = (\<lambda>s :: 's pb_istream. andthen (pb_read n s) (\<lambda>_ s. (Some (), s)))"
      by (intro ext) (subst pb_discard_chunks.simps, simp)
    with parses_read_unit show ?thesis by simp
  next
    case True
    then have eq: "pb_discard_chunks n = (\<lambda>s :: 's pb_istream. andthen (pb_read 16 s) (\<lambda>_. pb_discard_chunks (n - 16)))"
      by (intro ext) (subst pb_discard_chunks.simps, simp)
    have "p_bind (p_take 16) (\<lambda>_. p_drop (n - 16)) bs = p_drop n bs" for bs
      using True by (auto simp: p_bind_def p_take_def p_drop_def)
    moreover have "parses rd avail (pb_discard_chunks (n - 16)) (p_drop (n - 16))" using True by (intro less) simp
    ultimately show ?thesis
      using parses_bind [OF parses_read, of "\<lambda>_. pb_discard_chunks (n - 16)" "\<lambda>_. p_drop (n - 16)" 16]
      by (simp add: eq fun_eq_iff parses_def)
  qed
qed

lemma parses_discard: "parses rd avail (pb_discard n) (p_drop n)"
  using parses_discard_chunks [of n] parses_read_unit [of n]
  by (auto simp: parses_def pb_discard_def p_drop_def after_def)

lemma parses_skip_string: "parses rd avail pb_skip_string (p_bind p_varint32 (\<lambda>n. p_drop (unat n)))"
  using parses_bind [OF parses_varint32 parses_discard] by (simp add: pb_skip_string_def [abs_def])

lemma parses_skip_field: "parses rd avail (pb_skip_field wt) (p_skip_field wt)"
proof -
  have "pb_skip_field wt = (if wt = 0 then pb_skip_varint else if wt = 1 then pb_discard 8
      else if wt = 2 then pb_skip_string else if wt = 5 then pb_discard 4
      else is_error ''invalid wire_type'' :: 's pb_istream \<Rightarrow> _)"
    by (auto simp: pb_skip_field_def fun_eq_iff)
  then show ?thesis
    by (simp add: p_skip_field_def parses_skip_varint parses_discard parses_skip_string parses_error)
qed

lemma parses_tag: "parses rd avail decode_tag p_tag"
proof -
  have eq: "decode_tag s = andthen (pb_decode_varint32 s) (\<lambda>v s. if v = 0 then (None, s) else (Some (v AND 7, drop_bit 3 v), s))"
    for s :: "'s pb_istream"
    by (auto simp: decode_tag_def pb_decode_tag_def pb_decode_varint32_def split: prod.splits option.splits)
  have pt: "p_bind p_varint32 (\<lambda>v bs. if v = 0 then None else Some ((v AND 7, drop_bit 3 v), 0)) = p_tag"
    by (auto simp: fun_eq_iff p_bind_def p_tag_def split: option.splits)
  let ?g = "\<lambda>v s. if v = 0 then (None, s) else (Some (v AND 7, drop_bit 3 v), s) :: (u32 \<times> u32) option \<times> 's pb_istream"
  have step: "parses rd avail (?g v) (\<lambda>bs. if v = 0 then None else Some ((v AND 7, drop_bit 3 v), 0))" for v
    by (simp add: parses_def after_def)
  from parses_bind [where g = ?g, OF parses_varint32 step] show ?thesis by (simp add: eq [abs_def] pt)
qed

lemma parses_svarint: "parses rd avail pb_decode_svarint (\<lambda>bs. map_option (\<lambda>(x, k). (unzigzag x, k)) (p_varint 0 0 bs))"
  using parses_map [OF parses_varint] by (simp add: pb_decode_svarint_def [abs_def])

lemma parses_fixed32:
  "parses rd avail pb_decode_fixed32 (\<lambda>bs. map_option (\<lambda>(x, k). (word_of_nat (le_nat x), k)) (p_take 4 bs))"
proof -
  let ?g = "\<lambda>bytes :: byte list. push_bit 0 (ucast (bytes ! 0)) OR push_bit 8 (ucast (bytes ! 1)) OR
      push_bit 16 (ucast (bytes ! 2)) OR push_bit 24 (ucast (bytes ! 3)) :: u32"
  have "?g x = word_of_nat (le_nat x)" if "length x = 4" for x
    by (rule word_eq_of_nat, subst (5) list_4 [OF that]) (rule octets_32)
  from this [of "take 4 bs" for bs] have "map_option (\<lambda>(x, k). (?g x, k)) (p_take 4 bs) =
      map_option (\<lambda>(x, k). (word_of_nat (le_nat x), k)) (p_take 4 bs)" for bs
    by (simp add: p_take_def min_def)
  with parses_map [OF parses_read [of 4], where g = ?g] show ?thesis by (simp add: pb_decode_fixed32_def [abs_def])
qed

lemma parses_fixed64:
  "parses rd avail pb_decode_fixed64 (\<lambda>bs. map_option (\<lambda>(x, k). (word_of_nat (le_nat x), k)) (p_take 8 bs))"
proof -
  let ?g = "\<lambda>bytes :: byte list. push_bit 0 (ucast (bytes ! 0)) OR push_bit 8 (ucast (bytes ! 1)) OR
      push_bit 16 (ucast (bytes ! 2)) OR push_bit 24 (ucast (bytes ! 3)) OR
      push_bit 32 (ucast (bytes ! 4)) OR push_bit 40 (ucast (bytes ! 5)) OR
      push_bit 48 (ucast (bytes ! 6)) OR push_bit 56 (ucast (bytes ! 7)) :: u64"
  have "?g x = word_of_nat (le_nat x)" if "length x = 8" for x
    by (rule word_eq_of_nat, subst (9) list_8 [OF that]) (rule octets_64)
  from this [of "take 8 bs" for bs] have "map_option (\<lambda>(x, k). (?g x, k)) (p_take 8 bs) =
      map_option (\<lambda>(x, k). (word_of_nat (le_nat x), k)) (p_take 8 bs)" for bs
    by (simp add: p_take_def min_def)
  with parses_map [OF parses_read [of 8], where g = ?g] show ?thesis by (simp add: pb_decode_fixed64_def [abs_def])
qed

end

end
