(* ===== verification/Nanopb_Message.thy ===== *)
theory Nanopb_Message
  imports Nanopb_Wire
begin

text \<open>
  Fields and messages on memory streams. A client writes a field as \<^verbatim>\<open>pb_encode_tag\<close> followed by the
  value's encoder; it reads one as \<^verbatim>\<open>pb_decode_tag\<close> followed by the decoder of the wire type, or skips
  it with \<^verbatim>\<open>pb_skip_field\<close>.
\<close>

section \<open>Running on memory\<close>

definition encode_to :: "byte list \<Rightarrow> (outbuf pb_ostream \<Rightarrow> unit option \<times> outbuf pb_ostream) \<Rightarrow> byte list option" where
  "encode_to buf e =
     (case e (pb_ostream_from_buffer buf (length buf)) of
        (None, _) \<Rightarrow> None
      | (Some _, s) \<Rightarrow> Some (take (os_bytes_written s) (ob_mem (os_state s))))"

definition run_mem :: "(byte list pb_istream \<Rightarrow> 'a option \<times> byte list pb_istream) \<Rightarrow> byte list \<Rightarrow> 'a option \<times> byte list" where
  "run_mem f bs =
     (case f (pb_istream_from_buffer bs (length bs)) of
        (None, _) \<Rightarrow> (None, bs)
      | (Some x, s) \<Rightarrow> (Some x, is_state s))"

interpretation memread: source buf_read "\<lambda>st. st"
  by unfold_locales (simp add: buf_read_def)

abbreviation (input) mem_denotes ::
  "(outbuf pb_ostream \<Rightarrow> unit option \<times> outbuf pb_ostream) \<Rightarrow> byte list \<Rightarrow> bool" where
  "mem_denotes \<equiv> denotes buf_write (\<lambda>st. take (ob_pos st) (ob_mem st)) (\<lambda>st. length (ob_mem st) - ob_pos st)"

lemma run_mem_parses:
  assumes "parses buf_read (\<lambda>st. st) f p"
  shows "run_mem f bs = (case p bs of None \<Rightarrow> (None, bs) | Some (x, k) \<Rightarrow> (Some x, drop k bs))"
proof -
  let ?s = "pb_istream_from_buffer bs (length bs)"
  have "is_ok buf_read (\<lambda>st. st) ?s" "input (\<lambda>st. st) ?s = bs"
    by (simp_all add: is_ok_def input_def pb_istream_from_buffer_def)
  with assms have "case p bs of None \<Rightarrow> fst (f ?s) = None
      | Some (x, k) \<Rightarrow> \<exists>s'. f ?s = (Some x, s') \<and> after (\<lambda>st. st) ?s k s'"
    by (auto simp: parses_def)
  then show ?thesis
    by (auto simp: run_mem_def after_def pb_istream_from_buffer_def split: option.splits prod.splits)
qed

text \<open>The position of the buffer pointer is the number of bytes written.\<close>

lemma encode_to_denotes:
  assumes "mem_denotes e bs" "length buf < 2 ^ 63"
  shows "encode_to buf e = (if length bs \<le> length buf then Some bs else None)"
proof -
  let ?s = "pb_ostream_from_buffer buf (length buf)"
  let ?out = "\<lambda>st. take (ob_pos st) (ob_mem st)" and ?space = "\<lambda>st. length (ob_mem st) - ob_pos st"
  have "os_ok buf_write ?space ?s" using assms(2) by (simp add: os_ok_def pb_ostream_from_buffer_def)
  with assms(1) have p: "puts buf_write ?out ?space ?s bs (e ?s)" by (simp add: denotes_def)
  show ?thesis
  proof (cases "length bs \<le> length buf")
    case False
    with p show ?thesis
      by (auto simp: puts_def encode_to_def pb_ostream_from_buffer_def split: prod.splits option.splits)
  next
    case True
    with p obtain s' where s': "e ?s = (Some (), s')" "?out (os_state s') = bs"
      "os_bytes_written s' = length bs"
      by (auto simp: puts_def pb_ostream_from_buffer_def split: prod.splits option.splits)
    have "length bs \<le> length (ob_mem (os_state s'))" using s'(2) by auto
    moreover have "take (length bs) (ob_mem (os_state s')) = bs"
      using s'(2) by (metis length_take min.absorb1 min_def nat_le_linear take_all take_take)
    ultimately show ?thesis using True s' by (simp add: encode_to_def)
  qed
qed

section \<open>Fields\<close>

datatype wire_value = WVarint u64 | WFixed64 u64 | WBytes "byte list" | WFixed32 u32

fun value_type :: "wire_value \<Rightarrow> u32" where
  "value_type (WVarint _) = PB_WT_VARINT"
| "value_type (WFixed64 _) = PB_WT_64BIT"
| "value_type (WBytes _) = PB_WT_STRING"
| "value_type (WFixed32 _) = PB_WT_32BIT"

fun write_value :: "wire_value \<Rightarrow> 's pb_ostream \<Rightarrow> unit option \<times> 's pb_ostream" where
  "write_value (WVarint v) = pb_encode_varint v"
| "write_value (WFixed64 v) = pb_encode_fixed64 v"
| "write_value (WBytes bs) = pb_encode_string bs (length bs)"
| "write_value (WFixed32 v) = pb_encode_fixed32 v"

definition write_field :: "u32 \<times> wire_value \<Rightarrow> 's pb_ostream \<Rightarrow> unit option \<times> 's pb_ostream" where
  "write_field f s = andthen (pb_encode_tag (value_type (snd f)) (fst f) s) (\<lambda>_. write_value (snd f))"

fun write_message :: "(u32 \<times> wire_value) list \<Rightarrow> 's pb_ostream \<Rightarrow> unit option \<times> 's pb_ostream" where
  "write_message [] s = (Some (), s)"
| "write_message (f # fs) s = andthen (write_field f s) (\<lambda>_. write_message fs)"

definition read_value :: "u32 \<Rightarrow> 's pb_istream \<Rightarrow> wire_value option \<times> 's pb_istream" where
  "read_value wt =
     (if wt = PB_WT_VARINT then (\<lambda>s. andthen (pb_decode_varint s) (\<lambda>v s. (Some (WVarint v), s)))
      else if wt = PB_WT_64BIT then (\<lambda>s. andthen (pb_decode_fixed64 s) (\<lambda>v s. (Some (WFixed64 v), s)))
      else if wt = PB_WT_STRING then (\<lambda>s. andthen (pb_decode_varint32 s) (\<lambda>n s.
             andthen (pb_read (unat n) s) (\<lambda>bs s. (Some (WBytes bs), s))))
      else if wt = PB_WT_32BIT then (\<lambda>s. andthen (pb_decode_fixed32 s) (\<lambda>v s. (Some (WFixed32 v), s)))
      else is_error ''invalid wire_type'')"

definition read_field :: "'s pb_istream \<Rightarrow> (u32 \<times> wire_value) option \<times> 's pb_istream" where
  "read_field s = andthen (decode_tag s) (\<lambda>(wt, tag) s. andthen (read_value wt s) (\<lambda>v s. (Some (tag, v), s)))"

definition skip_field :: "'s pb_istream \<Rightarrow> unit option \<times> 's pb_istream" where
  "skip_field s = andthen (decode_tag s) (\<lambda>(wt, tag). pb_skip_field wt)"

text \<open>The bytes of a value and of a field.\<close>

fun value_bytes :: "wire_value \<Rightarrow> byte list" where
  "value_bytes (WVarint v) = enc_varint (unat v)"
| "value_bytes (WFixed64 v) = le_bytes 8 (unat v)"
| "value_bytes (WBytes bs) = enc_varint (length bs) @ bs"
| "value_bytes (WFixed32 v) = le_bytes 4 (unat v)"

definition field_bytes :: "u32 \<times> wire_value \<Rightarrow> byte list" where
  "field_bytes f = enc_varint (unat (fst f) * 8 + unat (value_type (snd f))) @ value_bytes (snd f)"

definition message_bytes :: "(u32 \<times> wire_value) list \<Rightarrow> byte list" where
  "message_bytes fs = concat (map field_bytes fs)"

text \<open>Field numbers have 29 bits and are not zero; strings have a 32-bit length.\<close>

fun field_ok :: "u32 \<times> wire_value \<Rightarrow> bool" where
  "field_ok (n, v) \<longleftrightarrow> 0 < unat n \<and> unat n < 2 ^ 29 \<and>
     (case v of WBytes bs \<Rightarrow> length bs < 2 ^ 32 | _ \<Rightarrow> True)"

section \<open>Writing\<close>

lemma value_type_small: "unat (value_type v) < 8"
  by (cases v) simp_all

lemma tag_word:
  assumes "unat (wt :: u32) < 8"
  shows "unat (push_bit 3 (ucast (n :: u32)) OR ucast wt :: u64) = unat n * 8 + unat wt"
proof -
  have u: "unat (ucast wt :: u64) = unat wt" "unat (ucast n :: u64) = unat n"
    by (rule unat_ucast_up; simp)+
  have "unat n < 2 ^ 32" using unsigned_less [of n, where 'a = nat] by simp
  then have "unat (push_bit 3 (ucast n) OR ucast wt :: u64) = unat (ucast n :: u64) * 2 ^ 3 + unat (ucast wt :: u64)"
    using assms by (intro unat_push_bit_or) (simp_all only: u, simp_all)
  then show ?thesis by (simp only: u) simp
qed

context sink
begin

lemma tag_denotes:
  assumes "unat wt < 8"
  shows "denotes wr out space (pb_encode_tag wt n) (enc_varint (unat n * 8 + unat wt))"
  using varint_denotes [of "push_bit 3 (ucast n) OR ucast wt"] tag_word [OF assms, of n]
  by (simp add: pb_encode_tag_def [abs_def])

lemma value_denotes:
  assumes "field_ok (n, v)"
  shows "denotes wr out space (write_value v) (value_bytes v)"
  using assms by (cases v) (simp_all add: varint_denotes fixed64_denotes fixed32_denotes string_denotes)

lemma field_denotes:
  assumes "field_ok f"
  shows "denotes wr out space (write_field f) (field_bytes f)"
proof (cases f)
  case (Pair n v)
  from andthen_denotes [OF tag_denotes [OF value_type_small] value_denotes [of n v]] assms show ?thesis
    by (simp add: write_field_def [abs_def] field_bytes_def Pair)
qed

lemma message_denotes:
  assumes "\<forall>f \<in> set fs. field_ok f"
  shows "denotes wr out space (write_message fs) (message_bytes fs)"
  using assms
proof (induction fs)
  case Nil
  then show ?case by (simp add: denotes_def puts_def message_bytes_def os_ok_def)
next
  case (Cons f fs)
  then show ?case
    using andthen_denotes [OF field_denotes [of f]] by (simp add: message_bytes_def fun_eq_iff)
qed

end

section \<open>Reading and skipping\<close>

definition p_value :: "u32 \<Rightarrow> byte list \<Rightarrow> (wire_value \<times> nat) option" where
  "p_value wt =
     (if wt = PB_WT_VARINT then (\<lambda>bs. map_option (\<lambda>(x, k). (WVarint x, k)) (p_varint 0 0 bs))
      else if wt = PB_WT_64BIT then (\<lambda>bs. map_option (\<lambda>(x, k). (WFixed64 (word_of_nat (le_nat x)), k)) (p_take 8 bs))
      else if wt = PB_WT_STRING then
        p_bind p_varint32 (\<lambda>n bs. map_option (\<lambda>(x, k). (WBytes x, k)) (p_take (unat n) bs))
      else if wt = PB_WT_32BIT then (\<lambda>bs. map_option (\<lambda>(x, k). (WFixed32 (word_of_nat (le_nat x)), k)) (p_take 4 bs))
      else (\<lambda>_. None))"

definition p_field :: "byte list \<Rightarrow> ((u32 \<times> wire_value) \<times> nat) option" where
  "p_field = p_bind p_tag (\<lambda>(wt, tag) bs. map_option (\<lambda>(v, k). ((tag, v), k)) (p_value wt bs))"

context source
begin

lemma parses_value: "parses rd avail (read_value wt) (p_value wt)"
proof -
  have 64: "parses rd avail (\<lambda>s. andthen (pb_decode_fixed64 s) (\<lambda>v s. (Some (WFixed64 v), s)))
      (\<lambda>bs. map_option (\<lambda>(x, k). (WFixed64 (word_of_nat (le_nat x)), k)) (p_take 8 bs))"
    using parses_map [OF parses_fixed64, of WFixed64] by (simp add: option.map_comp comp_def case_prod_unfold)
  have 32: "parses rd avail (\<lambda>s. andthen (pb_decode_fixed32 s) (\<lambda>v s. (Some (WFixed32 v), s)))
      (\<lambda>bs. map_option (\<lambda>(x, k). (WFixed32 (word_of_nat (le_nat x)), k)) (p_take 4 bs))"
    using parses_map [OF parses_fixed32, of WFixed32] by (simp add: option.map_comp comp_def case_prod_unfold)
  have str: "parses rd avail (\<lambda>s. andthen (pb_decode_varint32 s) (\<lambda>n s.
        andthen (pb_read (unat n) s) (\<lambda>bs s. (Some (WBytes bs), s))))
      (p_bind p_varint32 (\<lambda>n bs. map_option (\<lambda>(x, k). (WBytes x, k)) (p_take (unat n) bs)))"
    by (rule parses_bind [OF parses_varint32 parses_map [OF parses_read]])
  show ?thesis
    using parses_map [OF parses_varint, of WVarint] 64 32 str
    by (simp add: read_value_def p_value_def parses_error)
qed

lemma parses_field: "parses rd avail read_field p_field"
proof -
  have "parses rd avail (case x of (wt, tag) \<Rightarrow> \<lambda>s. andthen (read_value wt s) (\<lambda>v s. (Some (tag, v), s)))
      (case x of (wt, tag) \<Rightarrow> \<lambda>bs. map_option (\<lambda>(v, k). ((tag, v), k)) (p_value wt bs))" for x
    using parses_map [OF parses_value, of "fst x" "Pair (snd x)"] by (cases x) simp
  from parses_bind [OF parses_tag this] show ?thesis by (simp add: read_field_def [abs_def] p_field_def)
qed

lemma parses_skip: "parses rd avail skip_field (p_bind p_tag (\<lambda>(wt, tag). p_skip_field wt))"
proof -
  have "parses rd avail (case x of (wt, tag) \<Rightarrow> pb_skip_field wt) (case x of (wt, tag) \<Rightarrow> p_skip_field wt)"
    for x :: "u32 \<times> u32" by (cases x) (simp add: parses_skip_field)
  from parses_bind [OF parses_tag this] show ?thesis by (simp add: skip_field_def [abs_def])
qed

end

text \<open>The parsers on the encodings.\<close>

lemma p_tag_enc:
  assumes "0 < unat n" "unat n < 2 ^ 29" "unat (wt :: u32) < 8"
  shows "p_tag (enc_varint (unat n * 8 + unat wt) @ r) = Some ((wt, n), length (enc_varint (unat n * 8 + unat wt)))"
proof -
  define t :: u32 where "t = word_of_nat (unat n * 8 + unat wt)"
  have t: "unat t = unat n * 8 + unat wt" using assms by (simp add: t_def unat_of_nat del: of_nat_add of_nat_mult)
  have "t AND 7 = wt" using unat_and_mask [of t 3] assms(3)
    by (simp add: word_unat_eq_iff mask_eq_exp_minus_1 t)
  moreover have "drop_bit 3 t = n" using assms(3)
    by (simp add: word_unat_eq_iff unat_drop_bit t)
  moreover have "t \<noteq> 0" using assms(1) t by auto
  ultimately show ?thesis using p_varint32_roundtrip [of t r] by (simp add: p_tag_def t)
qed

lemma p_value_enc:
  assumes "field_ok (n, v)"
  shows "p_value (value_type v) (value_bytes v @ r) = Some (v, length (value_bytes v))"
proof (cases v)
  case (WVarint x)
  then show ?thesis by (simp add: p_value_def p_varint_roundtrip)
next
  case (WFixed64 x)
  have "le_nat (le_bytes 8 (unat x)) = unat x" using unsigned_less [of x, where 'a = nat] by simp
  with WFixed64 show ?thesis by (simp add: p_value_def p_take_def)
next
  case (WBytes bs)
  then have len: "unat (word_of_nat (length bs) :: u32) = length bs" using assms by (simp add: unat_of_nat)
  have "p_varint32 (enc_varint (length bs) @ bs @ r) = Some (word_of_nat (length bs), length (enc_varint (length bs)))"
    using p_varint32_roundtrip [of "word_of_nat (length bs)" "bs @ r"] by (simp only: len)
  with WBytes show ?thesis by (simp add: p_value_def p_bind_def p_take_def len)
next
  case (WFixed32 x)
  have "le_nat (le_bytes 4 (unat x)) = unat x" using unsigned_less [of x, where 'a = nat] by simp
  with WFixed32 show ?thesis by (simp add: p_value_def p_take_def)
qed

lemma p_field_enc: "field_ok f \<Longrightarrow> p_field (field_bytes f @ r) = Some (f, length (field_bytes f))"
  using p_tag_enc [of "fst f" "value_type (snd f)" "value_bytes (snd f) @ r"] value_type_small [of "snd f"]
    p_value_enc [of "fst f" "snd f" r]
  by (cases f) (simp add: p_field_def p_bind_def field_bytes_def)

lemma p_skip_varint_enc: "p_skip_varint (enc_varint n @ r) = Some ((), length (enc_varint n))"
proof (induction n rule: enc_varint.induct)
  case (1 n)
  show ?case
  proof (cases "n < 128")
    case True
    then show ?thesis by (simp add: enc_small septet_bytes)
  next
    case False
    from enc_continue [OF False] obtain b where "enc_varint n = b # enc_varint (n div 128)" "b AND 0x80 \<noteq> 0" .
    with "1.IH" [OF False] show ?thesis by simp
  qed
qed

lemma p_skip_enc:
  assumes "field_ok f"
  shows "p_bind p_tag (\<lambda>(wt, tag). p_skip_field wt) (field_bytes f @ r) = Some ((), length (field_bytes f))"
proof -
  obtain n v where f: "f = (n, v)" by (rule prod.exhaust)
  have "p_skip_field (value_type v) (value_bytes v @ r) = Some ((), length (value_bytes v))"
  proof (cases v)
    case (WBytes bs)
    then have len: "unat (word_of_nat (length bs) :: u32) = length bs" using assms f by (simp add: unat_of_nat)
    have "p_varint32 (enc_varint (length bs) @ bs @ r) = Some (word_of_nat (length bs), length (enc_varint (length bs)))"
      using p_varint32_roundtrip [of "word_of_nat (length bs)" "bs @ r"] by (simp only: len)
    with WBytes show ?thesis by (simp add: p_skip_field_def p_bind_def p_drop_def len)
  qed (simp_all add: p_skip_field_def p_skip_varint_enc p_drop_def)
  then show ?thesis
    using p_tag_enc [of n "value_type v" "value_bytes v @ r"] value_type_small [of v] assms
    by (simp add: p_bind_def field_bytes_def f)
qed

section \<open>Codecs\<close>

interpretation varint: codec "\<lambda>v. enc_varint (unat v)" "run_mem pb_decode_varint" "\<lambda>_. True"
  by unfold_locales (simp add: run_mem_parses [OF memread.parses_varint] p_varint_roundtrip)

interpretation varint32: codec "\<lambda>v. enc_varint (unat v)" "run_mem pb_decode_varint32" "\<lambda>_. True"
  by unfold_locales (simp add: run_mem_parses [OF memread.parses_varint32] p_varint32_roundtrip)

interpretation svarint: codec "\<lambda>v. enc_varint (unat (zigzag v))" "run_mem pb_decode_svarint" "\<lambda>_. True"
  by unfold_locales (simp add: run_mem_parses [OF memread.parses_svarint] p_varint_roundtrip unzigzag_zigzag)

interpretation field: codec field_bytes "run_mem read_field" field_ok
  by unfold_locales (simp add: run_mem_parses [OF memread.parses_field] p_field_enc)

section \<open>Properties\<close>

text \<open>
  Varints over the whole 64-bit range: \<^verbatim>\<open>pb_encode_varint\<close> into a buffer succeeds exactly when the
  one to ten bytes fit, and \<^verbatim>\<open>pb_decode_varint\<close> reads the value back from any stream that starts with
  them, whatever follows.
\<close>

theorem pb_varint_roundtrip:
  assumes "length buf < 9223372036854775808"
  shows "encode_to buf (pb_encode_varint v) =
      (if length (enc_varint (unat v)) \<le> length buf then Some (enc_varint (unat v)) else None) \<and>
    run_mem pb_decode_varint (enc_varint (unat v) @ r) = (Some v, r) \<and> length (enc_varint (unat v)) \<le> 10"
  using encode_to_denotes [OF membuf.varint_denotes] assms varint.dec_enc [of v r] length_enc_varint_u64 [of v]
  by simp

theorem pb_varint_roundtrip_witness:
  "encode_to [0, 0, 0] (pb_encode_varint 300) = Some [0xac, 2]"
proof -
  have "enc_varint 300 = [0xac, 2]" by (simp add: enc_large enc_small)
  with pb_varint_roundtrip [of "[0, 0, 0]" 300] show ?thesis by simp
qed

text \<open>
  Signed integers: \<^verbatim>\<open>pb_decode_svarint\<close> inverts the zigzag encoding of \<^verbatim>\<open>pb_encode_svarint\<close> on every
  64-bit value, the most negative one included.
\<close>

theorem pb_svarint_roundtrip:
  assumes "length buf < 9223372036854775808" "encode_to buf (pb_encode_svarint v) = Some out"
  shows "run_mem pb_decode_svarint (out @ r) = (Some v, r)"
  using assms encode_to_denotes [OF membuf.svarint_denotes, of buf v] svarint.dec_enc [of v r]
  by (simp split: if_splits)

theorem pb_svarint_roundtrip_witness:
  "run_mem pb_decode_svarint ([1] @ [7]) = (Some (- 1), [7])"
proof -
  have "unat (zigzag (- 1)) = 1" by (simp add: zigzag_def)
  then have "encode_to [0] (pb_encode_svarint (- 1)) = Some [1]"
    using encode_to_denotes [OF membuf.svarint_denotes, of "[0]" "- 1"] by (simp add: enc_small)
  from pb_svarint_roundtrip [OF _ this] show ?thesis by simp
qed

text \<open>
  C22. A message written field by field into a buffer, with any mix of wire types, is read back field by
  field as the same tags and values, and nothing is left of it.
\<close>

theorem pb_message_roundtrip:
  assumes "\<forall>f \<in> set fs. field_ok f" "length buf < 9223372036854775808"
    and "encode_to buf (write_message fs) = Some out"
  shows "decode_many (run_mem read_field) (length fs) out = (Some fs, [])"
proof -
  have "out = concat (map field_bytes fs) @ []"
    using encode_to_denotes [OF membuf.message_denotes [OF assms(1)]] assms(2,3)
    by (simp add: message_bytes_def split: if_splits)
  then show ?thesis using field.decode_many_enc [OF assms(1), of "[]"] by simp
qed

theorem pb_message_roundtrip_witness:
  "decode_many (run_mem read_field) 2 [8, 5, 0x12, 1, 9] = (Some [(1, WVarint 5), (2, WBytes [9])], [])"
proof -
  let ?fs = "[(1, WVarint 5), (2, WBytes [9])]"
  have ok: "\<forall>f \<in> set ?fs. field_ok f" by simp
  have "message_bytes ?fs = [8, 5, 0x12, 1, 9]"
    by (simp add: message_bytes_def field_bytes_def enc_small)
  then have "encode_to [0, 0, 0, 0, 0] (write_message ?fs) = Some [8, 5, 0x12, 1, 9]"
    using encode_to_denotes [OF membuf.message_denotes [OF ok], of "[0, 0, 0, 0, 0]"] by simp
  from pb_message_roundtrip [OF ok _ this] show ?thesis by (simp add: numeral_2_eq_2)
qed

text \<open>
  C23. Unknown fields: after \<^verbatim>\<open>pb_decode_tag\<close>, \<^verbatim>\<open>pb_skip_field\<close> consumes exactly the field's value, for every
  wire type, so the next field is found where it starts.
\<close>

theorem pb_skip_field_exact:
  assumes "field_ok f"
  shows "run_mem skip_field (field_bytes f @ r) = (Some (), r)"
  using run_mem_parses [OF memread.parses_skip, of "field_bytes f @ r"] p_skip_enc [OF assms, of r] by simp

theorem pb_skip_field_exact_witness:
  "run_mem skip_field ([0x12, 2, 1, 1] @ [8, 5]) = (Some (), [8, 5])"
proof -
  have "field_bytes (2, WBytes [1, 1]) = [0x12, 2, 1, 1]" by (simp add: field_bytes_def enc_small)
  with pb_skip_field_exact [of "(2, WBytes [1, 1])" "[8, 5]"] show ?thesis by simp
qed

text \<open>Every write lies in the block it goes to.\<close>

definition in_bounds :: "size_t \<Rightarrow> writes \<Rightarrow> bool" where
  "in_bounds block ws \<longleftrightarrow> (\<forall>(off, bs) \<in> set ws. off + length bs \<le> block)"

lemma pb_read_length:
  assumes "\<forall>n st bs st'. is_callback s n st = (Some bs, st') \<longrightarrow> length bs = n" "pb_read n s = (Some bs, s')"
  shows "length bs = n"
  using assms by (auto simp: pb_read_def is_error_def split: if_splits prod.splits option.splits)

lemma varint32_loop_callback: "is_callback (snd (varint32_loop bp r s)) = is_callback s"
proof (induction bp r s rule: varint32_loop.induct)
  case (1 bp r s)
  obtain x s1 where rb: "pb_readbyte s = (x, s1)" by (rule prod.exhaust)
  have cb: "is_callback s1 = is_callback s"
    using rb by (auto simp: pb_readbyte_def is_error_def split: if_splits prod.splits option.splits)
  show ?case
  proof (cases x)
    case None
    with rb cb show ?thesis by (subst varint32_loop.simps) simp
  next
    case (Some b)
    with rb cb "1.IH" [of b s1] show ?thesis by (subst varint32_loop.simps) (auto simp: Let_def is_error_def)
  qed
qed

lemma pb_decode_varint32_callback:
  assumes "pb_decode_varint32 s = (x, s')" shows "is_callback s' = is_callback s"
proof -
  obtain y s1 where rb: "pb_readbyte s = (y, s1)" by (rule prod.exhaust)
  have cb: "is_callback s1 = is_callback s"
    using rb by (auto simp: pb_readbyte_def is_error_def split: if_splits prod.splits option.splits)
  show ?thesis
  proof (cases y)
    case None
    with rb cb assms show ?thesis by (simp add: pb_decode_varint32_def pb_decode_varint32_eof_def)
  next
    case (Some b)
    obtain z s2 where l: "varint32_loop 7 (ucast (b AND 0x7f)) s1 = (z, s2)" by (rule prod.exhaust)
    have "is_callback s2 = is_callback s1" using varint32_loop_callback [of 7 "ucast (b AND 0x7f)" s1] l by simp
    with Some rb cb assms l show ?thesis
      by (auto simp: pb_decode_varint32_def pb_decode_varint32_eof_def is_error_def
          split: if_splits option.splits prod.splits)
  qed
qed

lemma unat_plus1_no_wrap:
  fixes w :: u32 assumes "\<not> unat (w + 1) < unat w" shows "unat (w + 1) = unat w + 1"
proof (cases "w + 1 = 0")
  case True
  then have w: "w = - 1" using eq_neg_iff_add_eq_0 [of w 1] by blast
  have "unat (- 1 :: u32) = 4294967295" by (simp add: unsigned_minus_1_eq_mask mask_eq_exp_minus_1)
  with assms show ?thesis unfolding w by simp
next
  case False
  then show ?thesis by (metis Suc_eq_plus1 add.commute unatSuc)
qed

lemma dest_block_size:
  assumes "dest_block realloc msg field n alloc s = (Some block, s')" "alloc < SIZE_LIMIT"
  shows "alloc \<le> block" "is_callback s' = is_callback s"
  using assms by (auto simp: dest_block_def allocate_field_def is_error_def Let_def split: if_splits)

text \<open>
  C24. Memory safety of the string and bytes decoders, for static and for allocated fields and whatever the
  input says: every byte stored lies in the field (or in the block allocated for it), the terminator
  that \<^verbatim>\<open>pb_dec_string\<close> stores also after a failed read included.
\<close>

theorem pb_dec_string_bytes_in_bounds:
  assumes "\<forall>n st bs st'. is_callback s n st = (Some bs, st') \<longrightarrow> length bs = n"
    and "pb_dec_string realloc field s = ((Some (block, ws), r), s1) \<or>
      pb_dec_bytes realloc field s = ((Some (block, ws), r), s1)"
  shows "in_bounds block ws"
  using assms(2)
proof
  assume d: "pb_dec_string realloc field s = ((Some (block, ws), r), s1)"
  then obtain sz s2 s3 where 1: "pb_decode_varint32 s = (Some sz, s2)" "\<not> unat (sz + 1) < unat sz"
    "dest_block realloc ''string overflow'' field (unat sz) (unat (sz + 1)) s2 = (Some block, s3)"
    and ws: "ws = [(unat sz, [0])] \<or> (\<exists>data s4. pb_read (unat sz) s3 = (Some data, s4) \<and> ws = [(0, data), (unat sz, [0])])"
    by (auto simp: pb_dec_string_def Let_def is_error_def split: prod.splits option.splits if_splits)
  have "unat (sz + 1) < 2 ^ 32" using unsigned_less [of "sz + 1", where 'a = nat] by simp
  then have small: "unat (sz + 1) < SIZE_LIMIT" by simp
  have "unat (sz + 1) = unat sz + 1" using 1(2) by (rule unat_plus1_no_wrap)
  with dest_block_size [OF 1(3) small] have "unat sz + 1 \<le> block" by simp
  moreover have "\<forall>n st bs st'. is_callback s3 n st = (Some bs, st') \<longrightarrow> length bs = n"
    using assms(1) dest_block_size(2) [OF 1(3) small] pb_decode_varint32_callback [OF 1(1)] by simp
  note pb_read_length [OF this]
  ultimately show ?thesis using ws by (fastforce simp: in_bounds_def)
next
  assume d: "pb_dec_bytes realloc field s = ((Some (block, ws), r), s1)"
  then obtain sz s2 s3 where 1: "pb_decode_varint32 s = (Some sz, s2)"
    "dest_block realloc ''bytes overflow'' field (unat sz) (PB_BYTES_ARRAY_T_ALLOCSIZE (unat sz)) s2 = (Some block, s3)"
    and ws: "ws = [(0, le_bytes 4 (unat sz))] \<or>
      (\<exists>data s4. pb_read (unat sz) s3 = (Some data, s4) \<and> ws = [(0, le_bytes 4 (unat sz)), (4, data)])"
    by (auto simp: pb_dec_bytes_def Let_def is_error_def split: prod.splits option.splits if_splits)
  have "unat sz < 2 ^ 32" using unsigned_less [of sz, where 'a = nat] by simp
  then have alloc: "PB_BYTES_ARRAY_T_ALLOCSIZE (unat sz) = unat sz + 4"
    by (simp add: PB_BYTES_ARRAY_T_ALLOCSIZE_def)
  have small: "PB_BYTES_ARRAY_T_ALLOCSIZE (unat sz) < SIZE_LIMIT" by (simp add: PB_BYTES_ARRAY_T_ALLOCSIZE_def)
  have "unat sz + 4 \<le> block" using dest_block_size(1) [OF 1(2) small] alloc by simp
  moreover have "\<forall>n st bs st'. is_callback s3 n st = (Some bs, st') \<longrightarrow> length bs = n"
    using assms(1) dest_block_size(2) [OF 1(2) small] pb_decode_varint32_callback [OF 1(1)] by simp
  note pb_read_length [OF this]
  ultimately show ?thesis using ws by (fastforce simp: in_bounds_def)
qed

definition exact_callback :: "size_t \<Rightarrow> unit \<Rightarrow> byte list option \<times> unit" where
  "exact_callback n st = (Some (replicate n 2), st)"

theorem pb_dec_string_bytes_in_bounds_witness:
  "in_bounds 8 (snd (the (fst (fst (pb_dec_string (\<lambda>_. True) \<lparr>pf_tag = 1, pf_type = 7, pf_data_size = 8\<rparr>
     \<lparr>is_callback = exact_callback, is_buf_read = False, is_state = (), is_bytes_left = 3, is_errmsg = None\<rparr>)))))"
proof -
  let ?s = "\<lparr>is_callback = exact_callback, is_buf_read = False, is_state = (), is_bytes_left = 3, is_errmsg = None\<rparr>"
  have cb: "\<forall>n st bs st'. is_callback ?s n st = (Some bs, st') \<longrightarrow> length bs = n" by (simp add: exact_callback_def)
  have rep: "replicate 2 x = [x, x]" for x :: byte by (simp add: numeral_2_eq_2)
  have run: "pb_dec_string (\<lambda>_. True) \<lparr>pf_tag = 1, pf_type = 7, pf_data_size = 8\<rparr> ?s =
      ((Some (8, [(0, [2, 2]), (2, [0])]), Some ()), ?s\<lparr>is_bytes_left := 0\<rparr>)"
    by (simp add: pb_dec_string_def pb_decode_varint32_def pb_decode_varint32_eof_def pb_readbyte_def
        exact_callback_def dest_block_def PB_ATYPE_def pb_read_def Let_def rep)
  from pb_dec_string_bytes_in_bounds [OF cb disjI1 [OF this]] show ?thesis by (simp add: run)
qed

end
