(* ===== verification/Nanopb_Varint.thy ===== *)
theory Nanopb_Varint
  imports Nanopb_Message
begin

unbundle bit_operations_syntax

text \<open>
  Varints of any length, the over-long ones included: which of them \<^verbatim>\<open>pb_decode_varint32\<close> accepts, and with which value,
  beside \<^verbatim>\<open>pb_decode_varint\<close>. A varint is given by its septets, the least significant first.
\<close>

fun varint_of_septets :: "nat list \<Rightarrow> byte list" where
  "varint_of_septets [] = []"
| "varint_of_septets (s # ss) = word_of_nat (if ss = [] then s else 128 + s) # varint_of_septets ss"

fun septets_value :: "nat list \<Rightarrow> nat" where
  "septets_value [] = 0"
| "septets_value (s # ss) = s + 128 * septets_value ss"

text \<open>
  The septets that \<^verbatim>\<open>pb_decode_varint32\<close> lets pass: the fifth is checked only when it is the last; the later ones
  are zero, or those of a negative number that is extended to 64 bits, which a set bit 31 announces.
\<close>

definition late_septet_ok :: "bool \<Rightarrow> nat \<Rightarrow> bool \<Rightarrow> nat \<Rightarrow> bool" where
  "late_septet_ok negative i final s \<longleftrightarrow> s = 0 \<or> negative \<and> (if i < 9 then s = 127 \<and> \<not> final else s = 1 \<and> final)"

definition varint32_ok :: "nat list \<Rightarrow> bool" where
  "varint32_ok ss \<longleftrightarrow> (length ss = 5 \<longrightarrow> ss ! 4 < 16) \<and>
     (\<forall>i < length ss. 5 \<le> i \<longrightarrow> late_septet_ok (bit (septets_value ss) 31) i (Suc i = length ss) (ss ! i))"

section \<open>Bytes\<close>

lemma septet_byte:
  fixes b :: byte
  assumes "s < 128" "b = word_of_nat (if final then s else 128 + s)"
  shows "b AND 0x80 \<noteq> 0 \<longleftrightarrow> \<not> final" "unat (b AND 0x7f) = s" "b AND 0x7f = 0 \<longleftrightarrow> s = 0"
    "b = 0xff \<longleftrightarrow> \<not> final \<and> s = 127" "b = 1 \<longleftrightarrow> final \<and> s = 1" "ucast (b AND 0x7f) = (word_of_nat s :: 'a :: len word)"
proof -
  show "b AND 0x80 \<noteq> 0 \<longleftrightarrow> \<not> final" and s: "unat (b AND 0x7f) = s" using septet_bytes [OF assms(1)] assms(2) by (cases final; simp)+
  show "b AND 0x7f = 0 \<longleftrightarrow> s = 0" using unat_eq_0 [of "b AND 0x7f"] unfolding s by simp
  show "ucast (b AND 0x7f) = (word_of_nat s :: 'a word)" unfolding s [symmetric] by (rule of_nat_unat [symmetric])
  have u: "unat b = (if final then s else 128 + s)" using assms by (simp add: unat_of_nat)
  show "b = 0xff \<longleftrightarrow> \<not> final \<and> s = 127" "b = 1 \<longleftrightarrow> final \<and> s = 1" using u assms(1) by (auto simp: word_unat_eq_iff split: if_splits)
qed

lemma byte_and_70_iff: "unat b < 128 \<longrightarrow> (b AND 0x70 = (0 :: byte)) = (unat b < 16)"
  by (rule all_bytes [of "\<lambda>b. unat b < 128 \<longrightarrow> (b AND 0x70 = (0 :: byte)) = (unat b < 16)" b]) code_simp

lemma next_septet:
  fixes v :: nat
  assumes "v div 2 ^ (7 * i) = s + 128 * x" "s < 128"
  shows "v div 2 ^ (7 * i) mod 128 = s" "v div 2 ^ (7 * Suc i) = x"
proof -
  have "(2 :: nat) ^ (7 * Suc i) = 2 ^ (7 * i) * 128" by (simp add: power_add)
  then show "v div 2 ^ (7 * i) mod 128 = s" "v div 2 ^ (7 * Suc i) = x" using assms by (simp_all add: div_mult2_eq)
qed

lemma septet_step:
  "(word_of_nat (v mod 2 ^ k) :: 'a :: len word) OR push_bit k (word_of_nat (v div 2 ^ k mod 128)) = word_of_nat (v mod 2 ^ (k + 7))"
proof -
  have "v div 2 ^ k mod 128 = take_bit 7 (drop_bit k v)" by (simp add: take_bit_eq_mod drop_bit_eq_div)
  then have e: "v mod 2 ^ k = take_bit k v" "v div 2 ^ k mod 128 = take_bit 7 (drop_bit k v)" "v mod 2 ^ (k + 7) = take_bit (k + 7) v"
    by (simp_all only: take_bit_eq_mod)
  show ?thesis unfolding e
  proof (rule bit_word_eqI)
    fix n assume "n < LENGTH('a)"
    then show "bit ((word_of_nat (take_bit k v) :: 'a word) OR push_bit k (word_of_nat (take_bit 7 (drop_bit k v)))) n =
        bit (word_of_nat (take_bit (k + 7) v) :: 'a word) n"
      by (cases "n < k") (auto simp: bit_simps)
  qed
qed

lemma low_bits: "32 \<le> k \<Longrightarrow> (word_of_nat (v mod 2 ^ k) :: u32) = word_of_nat v"
  by (simp add: word_of_nat_eq_iff flip: take_bit_eq_mod)

lemma top_bit32: "drop_bit 31 (word_of_nat v :: u32) = 0 \<longleftrightarrow> \<not> bit v 31"
proof
  assume "drop_bit 31 (word_of_nat v :: u32) = 0"
  then have "\<not> bit (drop_bit 31 (word_of_nat v :: u32)) 0" by simp
  then show "\<not> bit v 31" by (simp add: bit_simps)
next
  assume v: "\<not> bit v 31"
  show "drop_bit 31 (word_of_nat v :: u32) = 0"
  proof (rule bit_word_eqI)
    fix n assume "n < LENGTH(32)"
    show "bit (drop_bit 31 (word_of_nat v :: u32)) n = bit (0 :: u32) n" using v by (cases n) (simp_all add: bit_simps)
  qed
qed

section \<open>The loops\<close>

lemma varint_loop64:
  "ss \<noteq> [] \<Longrightarrow> \<forall>s \<in> set ss. s < 128 \<Longrightarrow> unat bp = 7 * i \<Longrightarrow> i + length ss \<le> 10 \<Longrightarrow> v div 2 ^ (7 * i) = septets_value ss \<Longrightarrow>
    p_varint bp (word_of_nat (v mod 2 ^ (7 * i))) (varint_of_septets ss @ rest) = Some (word_of_nat v, length ss)"
proof (induction ss arbitrary: bp i)
  case (Cons s ss)
  define b :: byte where "b = word_of_nat (if ss = [] then s else 128 + s)"
  have s: "s < 128" using Cons.prems(2) by simp
  note sb = septet_byte [OF s b_def]
  have bp: "\<not> bp \<ge> 64" using Cons.prems(3,4) by (simp add: word_le_nat_alt)
  have d: "v div 2 ^ (7 * i) mod 128 = s" "v div 2 ^ (7 * Suc i) = septets_value ss"
    using next_septet [of v i s "septets_value ss"] Cons.prems(5) s by simp_all
  have r: "word_of_nat (v mod 2 ^ (7 * i)) OR push_bit (unat bp) (ucast (b AND 0x7f)) = (word_of_nat (v mod 2 ^ (7 * Suc i)) :: u64)"
    using septet_step [of v "7 * i", where 'a = 64] unfolding d(1) by (simp add: sb(6) Cons.prems(3) add.commute)
  have u: "p_varint bp (word_of_nat (v mod 2 ^ (7 * i))) (varint_of_septets (s # ss) @ rest) =
      (if ss \<noteq> [] then map_option (\<lambda>(x, k). (x, Suc k)) (p_varint (bp + 7) (word_of_nat (v mod 2 ^ (7 * Suc i))) (varint_of_septets ss @ rest))
       else Some (word_of_nat (v mod 2 ^ (7 * Suc i)), 1))"
    using bp by (simp only: varint_of_septets.simps append.simps b_def [symmetric] p_varint.simps Let_def r sb(1) if_False simp_thms)
  show ?case
  proof (cases "ss = []")
    case True
    then have "v < 2 ^ (7 * Suc i)" using d(2) by (simp add: div_eq_0_iff)
    then show ?thesis using u True by simp
  next
    case False
    have "unat (bp + 7) = 7 * Suc i" using Cons.prems(3,4) by (intro bitpos_step) simp_all
    then show ?thesis using u False Cons.IH [of "bp + 7" "Suc i"] Cons.prems d(2) by simp
  qed
qed simp

lemma varint_loop32:
  "ss \<noteq> [] \<Longrightarrow> \<forall>s \<in> set ss. s < 128 \<Longrightarrow> unat bp = 7 * i \<Longrightarrow> i + length ss \<le> 37 \<Longrightarrow> v div 2 ^ (7 * i) = septets_value ss \<Longrightarrow>
    p_varint32_loop bp (word_of_nat (v mod 2 ^ (7 * i))) (varint_of_septets ss @ rest) =
      (if \<forall>j < length ss. 5 \<le> i + j \<longrightarrow> late_septet_ok (bit v 31) (i + j) (Suc j = length ss) (ss ! j)
       then Some ((word_of_nat v, word_of_nat (7 * (i + length ss)), word_of_nat (last ss)), length ss) else None)"
proof (induction ss arbitrary: bp i)
  case (Cons s ss)
  define b :: byte where "b = word_of_nat (if ss = [] then s else 128 + s)"
  have s: "s < 128" using Cons.prems(2) by simp
  note sb = septet_byte [OF s b_def]
  have bp: "bp \<ge> 32 \<longleftrightarrow> 5 \<le> i" "bp < 63 \<longleftrightarrow> i < 9" using Cons.prems(3,4) by (auto simp: word_le_nat_alt word_less_nat_alt)
  have d: "v div 2 ^ (7 * i) mod 128 = s" "v div 2 ^ (7 * Suc i) = septets_value ss"
    using next_septet [of v i s "septets_value ss"] Cons.prems(5) s by simp_all
  define r :: u32 where "r = word_of_nat (v mod 2 ^ (7 * i))"
  have r: "(if bp \<ge> 32 then r else r OR push_bit (unat bp) (ucast (b AND 0x7f))) = (word_of_nat (v mod 2 ^ (7 * Suc i)) :: u32)"
  proof (cases "5 \<le> i")
    case True
    then show ?thesis using low_bits [of "7 * i" v] low_bits [of "7 * Suc i" v] by (simp add: bp r_def)
  next
    case False
    then show ?thesis using septet_step [of v "7 * i", where 'a = 32] unfolding d(1) by (simp add: bp sb(6) Cons.prems(3) add.commute r_def)
  qed
  have bad: "(bp \<ge> 32 \<and> b AND 0x7f \<noteq> 0 \<and> (drop_bit 31 r = 0 \<or> b \<noteq> (if bp < 63 then 0xff else 0x01))) \<longleftrightarrow>
      \<not> (5 \<le> i \<longrightarrow> late_septet_ok (bit v 31) i (ss = []) s)"
  proof (cases "5 \<le> i")
    case True
    then have "r = word_of_nat v" unfolding r_def by (intro low_bits) simp
    then show ?thesis using True by (simp add: bp sb late_septet_ok_def top_bit32) blast
  qed (simp add: bp)
  have u: "p_varint32_loop bp r (varint_of_septets (s # ss) @ rest) =
      (if \<not> (5 \<le> i \<longrightarrow> late_septet_ok (bit v 31) i (ss = []) s) then None
       else if ss \<noteq> [] then map_option (\<lambda>(x, k). (x, Suc k)) (p_varint32_loop (bp + 7) (word_of_nat (v mod 2 ^ (7 * Suc i))) (varint_of_septets ss @ rest))
       else Some ((word_of_nat (v mod 2 ^ (7 * Suc i)), bp + 7, b), 1))"
    by (simp only: varint_of_septets.simps append.simps b_def [symmetric] p_varint32_loop.simps Let_def r sb(1) bad)
  have split: "(\<forall>j < length (s # ss). 5 \<le> i + j \<longrightarrow> late_septet_ok (bit v 31) (i + j) (Suc j = length (s # ss)) ((s # ss) ! j)) \<longleftrightarrow>
      (5 \<le> i \<longrightarrow> late_septet_ok (bit v 31) i (ss = []) s) \<and>
      (\<forall>j < length ss. 5 \<le> Suc i + j \<longrightarrow> late_septet_ok (bit v 31) (Suc i + j) (Suc j = length ss) (ss ! j))"
    by (cases "ss = []") (auto simp: All_less_Suc2)
  show ?case
  proof (cases "ss = []")
    case True
    then have "v < 2 ^ (7 * Suc i)" using d(2) by (simp add: div_eq_0_iff)
    moreover have "bp + 7 = word_of_nat (7 * Suc i)" using word_eq_of_nat [OF Cons.prems(3)] by (simp add: add.commute)
    ultimately show ?thesis unfolding split using u True by (simp add: r_def b_def)
  next
    case False
    have "unat (bp + 7) = 7 * Suc i" using Cons.prems(3,4) False by (cases ss) (auto simp: unat_word_ariths)
    from Cons.IH [OF False _ this _ d(2)] Cons.prems(2,4) show ?thesis unfolding split using u False by (simp add: r_def)
  qed
qed simp


section \<open>The decoders\<close>

lemma bitpos_35: "k \<le> 37 \<Longrightarrow> (word_of_nat (7 * k) :: byte) = 35 \<longleftrightarrow> k = 5"
proof -
  assume "k \<le> 37"
  then have "7 * k < 256 \<or> k = 37" by linarith
  then show ?thesis by (auto simp: word_unat_eq_iff unat_of_nat simp del: of_nat_mult)
qed

lemma p_varint32_septets:
  assumes ss: "ss \<noteq> []" "\<forall>s \<in> set ss. s < 128" "length ss \<le> 37"
  shows "p_varint32 (varint_of_septets ss @ rest) = (if varint32_ok ss then Some (word_of_nat (septets_value ss), length ss) else None)"
proof -
  obtain s t where st: "ss = s # t" using ss(1) by (cases ss) auto
  define b :: byte where "b = word_of_nat (if t = [] then s else 128 + s)"
  define v where "v = septets_value ss"
  have s: "s < 128" using ss(2) st by simp
  note sb = septet_byte [OF s b_def]
  have e: "varint_of_septets ss @ rest = b # (varint_of_septets t @ rest)" by (simp add: st b_def)
  show ?thesis
  proof (cases "t = []")
    case True
    then have "unat b = s" using s by (simp add: b_def unat_of_nat)
    then have "ucast b = (word_of_nat s :: u32)" by (metis of_nat_unat)
    then show ?thesis unfolding e using sb(1) True by (simp add: p_varint32_def st varint32_ok_def)
  next
    case False
    have m: "v mod 2 ^ (7 * 1) = s" "v div 2 ^ (7 * 1) = septets_value t" using s by (simp_all add: v_def st)
    have q: "(\<forall>j < length t. 5 \<le> 1 + j \<longrightarrow> late_septet_ok (bit v 31) (1 + j) (Suc j = length t) (t ! j)) \<longleftrightarrow>
        (\<forall>i < length ss. 5 \<le> i \<longrightarrow> late_septet_ok (bit v 31) i (Suc i = length ss) (ss ! i))"
      by (simp add: st All_less_Suc2)
    have l: "p_varint32_loop 7 (ucast (b AND 0x7f)) (varint_of_septets t @ rest) =
        (if \<forall>i < length ss. 5 \<le> i \<longrightarrow> late_septet_ok (bit v 31) i (Suc i = length ss) (ss ! i)
         then Some ((word_of_nat v, word_of_nat (7 * length ss), word_of_nat (last ss)), length t) else None)"
      using varint_loop32 [OF False, of 7 1 v rest, unfolded q m(1)] ss st False m(2) by (simp add: sb(6) del: of_nat_mult)
    have c: "word_of_nat (7 * length ss) = (35 :: byte) \<longleftrightarrow> length ss = 5" using bitpos_35 ss(3) by simp
    have h: "length ss = 5 \<Longrightarrow> (word_of_nat (last ss) :: byte) AND 0x70 \<noteq> 0 \<longleftrightarrow> \<not> ss ! 4 < 16"
    proof -
      assume "length ss = 5"
      then have "last ss = ss ! 4" using ss(1) by (simp add: last_conv_nth)
      moreover have "last ss < 128" using ss(1,2) by simp
      ultimately show ?thesis using byte_and_70_iff [of "word_of_nat (last ss)"] by (simp add: unat_of_nat)
    qed
    have o: "varint32_ok ss \<longleftrightarrow> (length ss = 5 \<longrightarrow> ss ! 4 < 16) \<and>
        (\<forall>i < length ss. 5 \<le> i \<longrightarrow> late_septet_ok (bit v 31) i (Suc i = length ss) (ss ! i))"
      by (simp only: varint32_ok_def v_def)
    have n: "b AND 0x80 \<noteq> 0" using sb(1) False by simp
    have "Suc (length t) = length ss" by (simp add: st)
    then show ?thesis unfolding e p_varint32_def list.case if_not_P [OF n] l o v_def [symmetric] using c h
      by (cases "\<forall>i < length ss. 5 \<le> i \<longrightarrow> late_septet_ok (bit v 31) i (Suc i = length ss) (ss ! i)") auto
  qed
qed

lemma p_varint_septets:
  assumes "ss \<noteq> []" "\<forall>s \<in> set ss. s < 128" "length ss \<le> 10"
  shows "p_varint 0 0 (varint_of_septets ss @ rest) = Some (word_of_nat (septets_value ss), length ss)"
  using varint_loop64 [of ss 0 0 "septets_value ss" rest] assms by simp

text \<open>Zero septets keep the result and only move the position, which wraps after 37 bytes.\<close>

lemma p_varint32_zeros:
  "p_varint32_loop bp r (replicate n 0x80 @ bs) = map_option (\<lambda>(x, k). (x, k + n)) (p_varint32_loop (bp + word_of_nat (7 * n)) r bs)"
proof (induction n arbitrary: bp)
  case 0
  show ?case by (cases "p_varint32_loop bp r bs") auto
next
  case (Suc n)
  have z: "(0x80 :: byte) AND 0x7f = 0" "(0x80 :: byte) AND 0x80 \<noteq> 0" by simp_all
  have "p_varint32_loop bp r (replicate (Suc n) 0x80 @ bs) = map_option (\<lambda>(x, k). (x, Suc k)) (p_varint32_loop (bp + 7) r (replicate n 0x80 @ bs))"
    by (simp add: Let_def z)
  also have "\<dots> = map_option (\<lambda>(x, k). (x, k + Suc n)) (p_varint32_loop (bp + word_of_nat (7 * Suc n)) r bs)"
    unfolding Suc.IH by (simp add: option.map_comp comp_def case_prod_unfold algebra_simps)
  finally show ?case .
qed

lemma p_varint32_wraps:
  assumes "s < 128"
  shows "p_varint32 (replicate 37 0x80 @ word_of_nat s # rest) = Some (word_of_nat (8 * s), 38)"
proof -
  define b :: byte where "b = word_of_nat (if True then s else 128 + s)"
  note sb = septet_byte [OF assms b_def]
  have p: "(7 :: byte) + word_of_nat (7 * 36) = 3" by (simp add: word_unat_eq_iff unat_of_nat)
  have c: "(3 :: byte) \<ge> 32 \<longleftrightarrow> False" "unat (3 :: byte) = 3" by simp_all
  have "p_varint32_loop 3 0 (b # rest) = Some ((push_bit 3 (word_of_nat s), 10, b), 1)"
    using sb(1) by (simp add: Let_def c sb(6))
  moreover have "push_bit 3 (word_of_nat s) = (word_of_nat (8 * s) :: u32)" by (simp add: push_bit_eq_mult mult.commute)
  ultimately have "p_varint32_loop 7 0 (replicate 36 0x80 @ b # rest) = Some ((word_of_nat (8 * s), 10, b), 37)"
    unfolding p_varint32_zeros p by simp
  moreover have "replicate 37 (0x80 :: byte) @ b # rest = 0x80 # (replicate 36 0x80 @ b # rest)" by (simp add: numeral_eq_Suc)
  ultimately show ?thesis by (simp add: p_varint32_def b_def)
qed

text \<open>
  C25. Which varints \<^verbatim>\<open>pb_decode_varint32\<close> accepts. A varint of at most 37 bytes is accepted exactly when its septets
  pass the checks of \<open>varint32_ok\<close>, and then the low 32 bits of its value are returned; \<^verbatim>\<open>pb_decode_varint\<close>
  returns the low 64 bits of every varint of at most ten bytes. So overflows are missed: five septets of any value
  up to \<open>2^35 - 1\<close>, followed by a zero septet, are accepted and truncated, where the five septets alone are rejected
  from \<open>2^32\<close> on; and from the 38th byte the 8-bit position has wrapped, so that a septet there lands on bit 3.
\<close>

theorem pb_decode_varint32_accepts:
  assumes "ss \<noteq> []" "\<forall>s \<in> set ss. s < 128"
  shows "(length ss \<le> 37 \<longrightarrow> run_mem pb_decode_varint32 (varint_of_septets ss @ rest) =
      (if varint32_ok ss then (Some (word_of_nat (septets_value ss)), rest) else (None, varint_of_septets ss @ rest))) \<and>
    (length ss \<le> 10 \<longrightarrow> run_mem pb_decode_varint (varint_of_septets ss @ rest) = (Some (word_of_nat (septets_value ss)), rest)) \<and>
    (length ss = 5 \<longrightarrow>
      run_mem pb_decode_varint32 (varint_of_septets (ss @ [0]) @ rest) = (Some (word_of_nat (septets_value ss)), rest) \<and>
      (fst (run_mem pb_decode_varint32 (varint_of_septets ss @ rest)) = None \<longleftrightarrow> 2 ^ 32 \<le> septets_value ss)) \<and>
    (\<forall>s < 128. run_mem pb_decode_varint32 (replicate 37 0x80 @ word_of_nat s # rest) = (Some (word_of_nat (8 * s)), rest))"
proof -
  have l: "length (varint_of_septets ts) = length ts" for ts by (induction ts) simp_all
  have z: "septets_value (ts @ [0]) = septets_value ts" for ts by (induction ts) simp_all
  have 1: "run_mem pb_decode_varint32 (varint_of_septets ts @ rest) =
      (if varint32_ok ts then (Some (word_of_nat (septets_value ts)), rest) else (None, varint_of_septets ts @ rest))"
    if "ts \<noteq> []" "\<forall>s \<in> set ts. s < 128" "length ts \<le> 37" for ts
    unfolding run_mem_parses [OF memread.parses_varint32] p_varint32_septets [OF that] by (simp add: l)
  have 2: "run_mem pb_decode_varint (varint_of_septets ss @ rest) = (Some (word_of_nat (septets_value ss)), rest)" if "length ss \<le> 10"
    unfolding run_mem_parses [OF memread.parses_varint] p_varint_septets [OF assms that] by (simp add: l)
  have 3: "run_mem pb_decode_varint32 (varint_of_septets (ss @ [0]) @ rest) = (Some (word_of_nat (septets_value ss)), rest) \<and>
      (fst (run_mem pb_decode_varint32 (varint_of_septets ss @ rest)) = None \<longleftrightarrow> 2 ^ 32 \<le> septets_value ss)" if n: "length ss = 5"
  proof -
    have "varint32_ok (ss @ [0])" using n by (simp add: varint32_ok_def All_less_Suc late_septet_ok_def nth_append)
    then have "run_mem pb_decode_varint32 (varint_of_septets (ss @ [0]) @ rest) = (Some (word_of_nat (septets_value ss)), rest)"
      using 1 [of "ss @ [0]"] assms n by (simp add: z)
    moreover have "varint32_ok ss \<longleftrightarrow> ss ! 4 < 16" using n by (simp add: varint32_ok_def)
    moreover have "ss ! 4 < 16 \<longleftrightarrow> septets_value ss < 2 ^ 32"
    proof -
      obtain a b c d e where ss: "ss = [a, b, c, d, e]" using n by (auto simp: length_Suc_conv numeral_eq_Suc)
      have "a < 128" "b < 128" "c < 128" "d < 128" using assms(2) ss by simp_all
      then show ?thesis by (simp add: ss) linarith
    qed
    ultimately show ?thesis using 1 [OF assms] n by auto
  qed
  have 4: "run_mem pb_decode_varint32 (replicate 37 0x80 @ word_of_nat s # rest) = (Some (word_of_nat (8 * s)), rest)" if "s < 128" for s
    unfolding run_mem_parses [OF memread.parses_varint32] p_varint32_wraps [OF that] by simp
  show ?thesis using 1 [OF assms] 2 3 4 by blast
qed

theorem pb_decode_varint32_accepts_witness:
  "run_mem pb_decode_varint32 [0x81, 0x80, 0x80, 0x80, 0xf0, 0] = (Some 1, []) \<and>
   run_mem pb_decode_varint [0x81, 0x80, 0x80, 0x80, 0xf0, 0] = (Some 0x700000001, []) \<and>
   fst (run_mem pb_decode_varint32 [0x81, 0x80, 0x80, 0x80, 0x70]) = None"
proof -
  let ?x = "[1, 0, 0, 0, 112] :: nat list"
  have s: "\<forall>s \<in> set ?x. s < 128" "\<forall>s \<in> set (?x @ [0]). s < 128" by simp_all
  have b: "varint_of_septets ?x = [0x81, 0x80, 0x80, 0x80, 0x70]" "varint_of_septets (?x @ [0]) = [0x81, 0x80, 0x80, 0x80, 0xf0, 0]" by simp_all
  have v: "(word_of_nat (septets_value ?x) :: u32) = 1" "(word_of_nat (septets_value (?x @ [0])) :: u64) = 0x700000001" "2 ^ 32 \<le> septets_value ?x"
    by (simp_all add: word_unat_eq_iff unat_of_nat)
  have l: "length ?x = 5" "length (?x @ [0]) \<le> 10" by simp_all
  note t = pb_decode_varint32_accepts [OF _ s(1), of "[]"] and u = pb_decode_varint32_accepts [OF _ s(2), of "[]"]
  note t3 = conjunct1 [OF conjunct2 [OF conjunct2 [OF t]]] and u2 = conjunct1 [OF conjunct2 [OF u]]
  have "run_mem pb_decode_varint32 (varint_of_septets (?x @ [0]) @ []) = (Some (word_of_nat (septets_value ?x)), [])"
    "fst (run_mem pb_decode_varint32 (varint_of_septets ?x @ [])) = None" using t3 l(1) v(3) by blast+
  moreover have "run_mem pb_decode_varint (varint_of_septets (?x @ [0]) @ []) = (Some (word_of_nat (septets_value (?x @ [0]))), [])"
    using u2 l(2) by blast
  ultimately show ?thesis unfolding b v append_Nil2 by blast
qed

end
