(* ===== verification/Lhash.thy ===== *)
theory Lhash
  imports Mem "HOL-Library.Multiset"
begin

text \<open>
  Model of \<^verbatim>\<open>crypto/lhash/lhash.c\<close>, the chained hash table. A chain is the list of its items in
  the order of their \<^verbatim>\<open>next\<close> pointers; the pointer to a pointer that \<^verbatim>\<open>get_next_ptr_and_hash\<close>
  returns is a slot, a pair of a bucket and a position in its chain, which lies at the chain's end
  when the pointer found is \<^verbatim>\<open>NULL\<close>. The helpers \<^verbatim>\<open>call_hash_func\<close> and \<^verbatim>\<open>call_cmp_func\<close>
  only apply the function pointers stored in the table, so the model applies those. The callback of
  \<^verbatim>\<open>lh_doall_arg\<close> may change its argument, not the table. The locale \<open>keyed_table\<close> is what the
  table asks of its client's hash and comparison functions.
\<close>

section \<open>State and operations\<close>

record 'a lhash_item =
  it_data :: 'a
  it_hash :: u32

record 'a lhash =
  num_items :: size_t
  buckets :: "'a lhash_item list list"
  num_buckets :: size_t
  callback_depth :: u32
  comp :: "'a \<Rightarrow> 'a \<Rightarrow> int"
  hash :: "'a \<Rightarrow> u32"

abbreviation (input) kMinNumBuckets :: nat where "kMinNumBuckets \<equiv> 16"
abbreviation (input) kMaxAverageChainLength :: nat where "kMaxAverageChainLength \<equiv> 2"
abbreviation (input) kMinAverageChainLength :: nat where "kMinAverageChainLength \<equiv> 1"
abbreviation (input) sizeof_LHASH :: nat where "sizeof_LHASH \<equiv> 48"
abbreviation (input) sizeof_LHASH_ITEM :: nat where "sizeof_LHASH_ITEM \<equiv> 24"
abbreviation (input) sizeof_pointer :: nat where "sizeof_pointer \<equiv> 8"

definition lh_new :: "allocator \<Rightarrow> ('a \<Rightarrow> u32) \<Rightarrow> ('a \<Rightarrow> 'a \<Rightarrow> int) \<Rightarrow> 'a lhash option" where
  "lh_new A hash_func comp_func =
     (case OPENSSL_malloc A sizeof_LHASH of
        None \<Rightarrow> None
      | Some _ \<Rightarrow>
          (case OPENSSL_malloc A (sizeof_pointer * kMinNumBuckets) of
             None \<Rightarrow> None
           | Some _ \<Rightarrow> Some \<lparr>num_items = 0, buckets = replicate kMinNumBuckets [], num_buckets = kMinNumBuckets,
               callback_depth = 0, comp = comp_func, hash = hash_func\<rparr>))"

definition lh_num_items :: "'a lhash \<Rightarrow> size_t" where
  "lh_num_items lh = num_items lh"

type_synonym slot = "nat \<times> nat"

fun chain_pos :: "('a \<Rightarrow> bool) \<Rightarrow> 'a lhash_item list \<Rightarrow> nat" where
  "chain_pos p [] = 0"
| "chain_pos p (cur # rest) = (if p (it_data cur) then 0 else Suc (chain_pos p rest))"

definition get_next_ptr_and_hash :: "'a lhash \<Rightarrow> 'a \<Rightarrow> slot \<times> u32" where
  "get_next_ptr_and_hash lh data =
     (let h = hash lh data; b = unat h mod num_buckets lh
      in ((b, chain_pos (\<lambda>d. comp lh d data = 0) (buckets lh ! b)), h))"

definition get_next_ptr_by_key :: "'a lhash \<Rightarrow> 'k \<Rightarrow> u32 \<Rightarrow> ('k \<Rightarrow> 'a \<Rightarrow> int) \<Rightarrow> slot" where
  "get_next_ptr_by_key lh key key_hash cmp_key =
     (let b = unat key_hash mod num_buckets lh
      in (b, chain_pos (\<lambda>d. cmp_key key d = 0) (buckets lh ! b)))"

text \<open>The item a slot points to, \<^verbatim>\<open>*next_ptr\<close>.\<close>

fun slot_item :: "'a lhash \<Rightarrow> slot \<Rightarrow> 'a lhash_item option" where
  "slot_item lh (b, k) = (if k < length (buckets lh ! b) then Some (buckets lh ! b ! k) else None)"

definition lh_retrieve :: "'a lhash \<Rightarrow> 'a \<Rightarrow> 'a option" where
  "lh_retrieve lh data = map_option it_data (slot_item lh (fst (get_next_ptr_and_hash lh data)))"

definition lh_retrieve_key :: "'a lhash \<Rightarrow> 'k \<Rightarrow> u32 \<Rightarrow> ('k \<Rightarrow> 'a \<Rightarrow> int) \<Rightarrow> 'a option" where
  "lh_retrieve_key lh key key_hash cmp_key =
     map_option it_data (slot_item lh (get_next_ptr_by_key lh key key_hash cmp_key))"

fun move_chain :: "size_t \<Rightarrow> 'a lhash_item list \<Rightarrow> 'a lhash_item list list \<Rightarrow> 'a lhash_item list list" where
  "move_chain n [] new_buckets = new_buckets"
| "move_chain n (cur # next) new_buckets =
     (let new_bucket = unat (it_hash cur) mod n
      in move_chain n next (new_buckets[new_bucket := cur # new_buckets ! new_bucket]))"

definition lh_rebucket :: "allocator \<Rightarrow> 'a lhash \<Rightarrow> size_t \<Rightarrow> 'a lhash" where
  "lh_rebucket A lh new_num_buckets =
     (let alloc_size = size_wrap (sizeof_pointer * new_num_buckets)
      in if alloc_size div sizeof_pointer \<noteq> new_num_buckets then lh
         else case OPENSSL_malloc A alloc_size of
                None \<Rightarrow> lh
              | Some _ \<Rightarrow>
                  lh\<lparr>num_buckets := new_num_buckets,
                     buckets := foldl (\<lambda>bs i. move_chain new_num_buckets (buckets lh ! i) bs)
                       (replicate new_num_buckets []) [0..<num_buckets lh]\<rparr>)"

definition lh_maybe_resize :: "allocator \<Rightarrow> 'a lhash \<Rightarrow> 'a lhash" where
  "lh_maybe_resize A lh =
     (if callback_depth lh > 0 then lh
      else
        let avg_chain_length = num_items lh div num_buckets lh
        in if avg_chain_length > kMaxAverageChainLength then
             (let new_num_buckets = size_wrap (num_buckets lh * 2)
              in if new_num_buckets > num_buckets lh then lh_rebucket A lh new_num_buckets else lh)
           else if avg_chain_length < kMinAverageChainLength \<and> num_buckets lh > kMinNumBuckets then
             (let new_num_buckets = num_buckets lh div 2;
                  new_num_buckets = (if new_num_buckets < kMinNumBuckets then kMinNumBuckets else new_num_buckets)
              in lh_rebucket A lh new_num_buckets)
           else lh)"

definition lh_insert :: "allocator \<Rightarrow> 'a lhash \<Rightarrow> 'a \<Rightarrow> 'a option option \<times> 'a lhash" where
  "lh_insert A lh data =
     (case get_next_ptr_and_hash lh data of ((b, k), h) \<Rightarrow>
        let chain = buckets lh ! b
        in case slot_item lh (b, k) of
             Some item \<Rightarrow>
               (Some (Some (it_data item)), lh\<lparr>buckets := (buckets lh)[b := chain[k := item\<lparr>it_data := data\<rparr>]]\<rparr>)
           | None \<Rightarrow>
               (case OPENSSL_malloc A sizeof_LHASH_ITEM of
                  None \<Rightarrow> (None, lh)
                | Some _ \<Rightarrow>
                    (Some None, lh_maybe_resize A
                       (lh\<lparr>buckets := (buckets lh)[b := chain @ [\<lparr>it_data = data, it_hash = h\<rparr>]],
                           num_items := size_wrap (num_items lh + 1)\<rparr>))))"

definition lh_delete :: "allocator \<Rightarrow> 'a lhash \<Rightarrow> 'a \<Rightarrow> 'a option \<times> 'a lhash" where
  "lh_delete A lh data =
     (case get_next_ptr_and_hash lh data of ((b, k), h) \<Rightarrow>
        let chain = buckets lh ! b
        in case slot_item lh (b, k) of
             None \<Rightarrow> (None, lh)
           | Some item \<Rightarrow>
               (Some (it_data item), lh_maybe_resize A
                  (lh\<lparr>buckets := (buckets lh)[b := take k chain @ drop (Suc k) chain],
                      num_items := size_dec (num_items lh)\<rparr>)))"

definition lh_doall_arg :: "allocator \<Rightarrow> 'a lhash \<Rightarrow> ('a \<Rightarrow> 's \<Rightarrow> 's) \<Rightarrow> 's \<Rightarrow> 's \<times> 'a lhash" where
  "lh_doall_arg A lh func arg =
     (let lh = (if callback_depth lh < - 1 then lh\<lparr>callback_depth := callback_depth lh + 1\<rparr> else lh);
          arg = foldl (\<lambda>arg i. foldl (\<lambda>arg cur. func (it_data cur) arg) arg (buckets lh ! i)) arg
            [0..<num_buckets lh];
          lh = (if callback_depth lh < - 1 then lh\<lparr>callback_depth := callback_depth lh - 1\<rparr> else lh)
      in (arg, lh_maybe_resize A lh))"

definition lh_strhash :: "byte list option \<Rightarrow> u32" where
  "lh_strhash c = (case c of None \<Rightarrow> 0 | Some s \<Rightarrow> OPENSSL_hash32 s (length s))"

section \<open>Items and chains\<close>

definition lh_items :: "'a lhash \<Rightarrow> 'a list" where
  "lh_items lh = map it_data (concat (buckets lh))"

text \<open>
  The invariant: the bucket array has its length, the counter counts, every item lies in the bucket
  of its stored hash, which is the hash of its data, and no two items have the same key.
\<close>

definition lh_ok :: "('a \<Rightarrow> 'k) \<Rightarrow> 'a lhash \<Rightarrow> bool" where
  "lh_ok key lh \<longleftrightarrow>
     length (buckets lh) = num_buckets lh \<and> kMinNumBuckets \<le> num_buckets lh \<and>
     num_items lh = length (lh_items lh) \<and>
     (\<forall>b < num_buckets lh. \<forall>it \<in> set (buckets lh ! b).
        it_hash it = hash lh (it_data it) \<and> unat (it_hash it) mod num_buckets lh = b) \<and>
     distinct (map key (lh_items lh))"

definition table :: "('a \<Rightarrow> 'k) \<Rightarrow> 'a lhash \<Rightarrow> 'k \<Rightarrow> 'a option" where
  "table key lh = map_of (map (\<lambda>d. (key d, d)) (lh_items lh))"

lemma table_Some_iff:
  "distinct (map key (lh_items lh)) \<Longrightarrow> table key lh k = Some d \<longleftrightarrow> d \<in> set (lh_items lh) \<and> key d = k"
  by (force simp: table_def o_def image_iff)

lemma table_None_iff: "table key lh k = None \<longleftrightarrow> (\<forall>d \<in> set (lh_items lh). key d \<noteq> k)"
  by (auto simp: table_def map_of_eq_None_iff image_iff)

lemma chain_pos_le: "chain_pos p ch \<le> length ch"
  by (induction ch) auto

lemma chain_pos_found: "chain_pos p ch < length ch \<Longrightarrow> p (it_data (ch ! chain_pos p ch))"
  by (induction ch) (auto split: if_splits)

lemma chain_pos_none: "\<not> chain_pos p ch < length ch \<Longrightarrow> it \<in> set ch \<Longrightarrow> \<not> p (it_data it)"
  by (induction ch) (auto split: if_splits)

lemma mset_concat_update:
  assumes "b < length bs"
  shows "mset (concat (bs[b := ch])) + mset (bs ! b) = mset (concat bs) + mset ch"
proof -
  have "bs = take b bs @ (bs ! b) # drop (Suc b) bs" using assms by (rule id_take_nth_drop)
  then have "mset (concat bs) = mset (concat (take b bs)) + mset (bs ! b) + mset (concat (drop (Suc b) bs))"
    by (metis concat.simps(2) concat_append mset_append add.assoc)
  moreover have "mset (concat (bs[b := ch])) =
      mset (concat (take b bs)) + mset ch + mset (concat (drop (Suc b) bs))"
    using assms by (simp add: upd_conv_take_nth_drop)
  ultimately show ?thesis by simp
qed

section \<open>Resizing\<close>

text \<open>Moving a chain keeps the items and puts each one into the bucket of its hash.\<close>

definition placed :: "size_t \<Rightarrow> 'a lhash_item list list \<Rightarrow> bool" where
  "placed n bs \<longleftrightarrow> length bs = n \<and> (\<forall>b < n. \<forall>it \<in> set (bs ! b). unat (it_hash it) mod n = b)"

lemma placed_push:
  assumes "placed n bs" "0 < n" "b = unat (it_hash it) mod n"
  shows "placed n (bs[b := it # bs ! b])"
    and "mset (concat (bs[b := it # bs ! b])) = add_mset it (mset (concat bs))"
proof -
  have b: "b < length bs" using assms by (simp add: placed_def)
  show "placed n (bs[b := it # bs ! b])" using assms b by (auto simp: placed_def nth_list_update)
  show "mset (concat (bs[b := it # bs ! b])) = add_mset it (mset (concat bs))"
    using mset_concat_update [OF b, of "it # bs ! b"] by simp
qed

lemma move_chain_spec:
  assumes "placed n bs" "0 < n"
  shows "placed n (move_chain n ch bs) \<and> mset (concat (move_chain n ch bs)) = mset (concat bs) + mset ch"
  using assms
proof (induction n ch bs rule: move_chain.induct)
  case (2 n cur rest bs)
  note push = placed_push [OF "2.prems" refl]
  from "2.IH" [OF refl push(1) "2.prems"(2)] push(2) show ?case by (simp add: Let_def)
qed simp

lemma move_chains_spec:
  assumes "placed n bs" "0 < n"
  shows "placed n (foldl (\<lambda>bs i. move_chain n (old ! i) bs) bs is) \<and>
    mset (concat (foldl (\<lambda>bs i. move_chain n (old ! i) bs) bs is)) = mset (concat bs) + mset (concat (map ((!) old) is))"
  using assms
proof (induction "is" arbitrary: bs)
  case (Cons i "is")
  note mc = move_chain_spec [OF Cons.prems, of "old ! i"]
  from Cons.IH [OF mc [THEN conjunct1] Cons.prems(2)] mc show ?case by simp
qed simp

definition same_entries :: "'a lhash \<Rightarrow> 'a lhash \<Rightarrow> bool" where
  "same_entries lh lh' \<longleftrightarrow>
     mset (concat (buckets lh')) = mset (concat (buckets lh)) \<and> num_items lh' = num_items lh \<and>
     callback_depth lh' = callback_depth lh \<and> comp lh' = comp lh \<and> hash lh' = hash lh"

lemma same_entries_refl [simp]: "same_entries lh lh"
  by (simp add: same_entries_def)

lemma same_entries_items: "same_entries lh lh' \<Longrightarrow> mset (lh_items lh') = mset (lh_items lh)"
  by (simp add: same_entries_def lh_items_def)

lemma lh_ok_placed:
  "lh_ok key lh \<longleftrightarrow>
     placed (num_buckets lh) (buckets lh) \<and> kMinNumBuckets \<le> num_buckets lh \<and>
     num_items lh = length (lh_items lh) \<and>
     (\<forall>it \<in> set (concat (buckets lh)). it_hash it = hash lh (it_data it)) \<and> distinct (map key (lh_items lh))"
  by (fastforce simp: lh_ok_def placed_def in_set_conv_nth)

lemma same_entries_ok:
  assumes "same_entries lh lh'" "lh_ok key lh" "placed (num_buckets lh') (buckets lh')" "kMinNumBuckets \<le> num_buckets lh'"
  shows "lh_ok key lh'"
proof -
  have m: "mset (concat (buckets lh')) = mset (concat (buckets lh))" "hash lh' = hash lh" "num_items lh' = num_items lh"
    using assms(1) by (simp_all add: same_entries_def)
  then have set: "set (concat (buckets lh')) = set (concat (buckets lh))" by (metis mset_eq_setD)
  have items: "mset (lh_items lh') = mset (lh_items lh)" using assms(1) by (rule same_entries_items)
  then have "length (lh_items lh') = length (lh_items lh)" by (rule mset_eq_length)
  moreover have "distinct (map key (lh_items lh')) \<longleftrightarrow> distinct (map key (lh_items lh))"
    by (rule mset_eq_imp_distinct_iff) (simp add: items)
  ultimately show ?thesis using assms(2,3,4) m(2,3) set unfolding lh_ok_placed by simp
qed

lemma same_entries_table:
  assumes "same_entries lh lh'" "lh_ok key lh"
  shows "table key lh' = table key lh"
  unfolding table_def
proof (rule map_of_inject_set [THEN iffD2])
  have items: "mset (lh_items lh') = mset (lh_items lh)" using assms(1) by (rule same_entries_items)
  show "set (map (\<lambda>d. (key d, d)) (lh_items lh')) = set (map (\<lambda>d. (key d, d)) (lh_items lh))"
    using mset_eq_setD [OF items] by simp
  have "distinct (map key (lh_items lh))" using assms(2) by (simp add: lh_ok_def)
  moreover then have "distinct (map key (lh_items lh'))"
    by (subst mset_eq_imp_distinct_iff [of _ "map key (lh_items lh)"]) (simp_all add: items)
  ultimately show "distinct (map fst (map (\<lambda>d. (key d, d)) (lh_items lh')))"
    "distinct (map fst (map (\<lambda>d. (key d, d)) (lh_items lh)))" by (simp_all add: o_def)
qed

lemma lh_rebucket_spec:
  assumes "length (buckets lh) = num_buckets lh" "0 < n"
  shows "same_entries lh (lh_rebucket A lh n)"
    and "lh_rebucket A lh n = lh \<or> placed n (buckets (lh_rebucket A lh n)) \<and> num_buckets (lh_rebucket A lh n) = n"
proof -
  have "placed n (replicate n [])" by (simp add: placed_def)
  note mc = move_chains_spec [OF this assms(2), of "buckets lh" "[0..<num_buckets lh]"]
  have "map ((!) (buckets lh)) [0..<num_buckets lh] = buckets lh" using assms(1) by (metis map_nth)
  with mc show "same_entries lh (lh_rebucket A lh n)"
    by (auto simp: lh_rebucket_def Let_def same_entries_def split: option.splits)
  show "lh_rebucket A lh n = lh \<or> placed n (buckets (lh_rebucket A lh n)) \<and> num_buckets (lh_rebucket A lh n) = n"
    using mc by (auto simp: lh_rebucket_def Let_def split: option.splits)
qed

lemma lh_rebucket_ok:
  assumes "lh_ok key lh" "kMinNumBuckets \<le> n"
  shows "same_entries lh (lh_rebucket A lh n) \<and> lh_ok key (lh_rebucket A lh n)"
proof -
  have n: "0 < n" using assms(2) by simp
  have len: "length (buckets lh) = num_buckets lh" using assms(1) by (simp add: lh_ok_def)
  note spec = lh_rebucket_spec [OF len n, of A]
  with same_entries_ok [OF spec(1) assms(1)] assms show ?thesis by auto
qed

lemma lh_maybe_resize_ok:
  assumes "lh_ok key lh"
  shows "same_entries lh (lh_maybe_resize A lh) \<and> lh_ok key (lh_maybe_resize A lh)"
proof -
  have "kMinNumBuckets \<le> num_buckets lh" using assms by (simp add: lh_ok_def)
  with lh_rebucket_ok [OF assms] assms show ?thesis by (auto simp: lh_maybe_resize_def Let_def)
qed

lemma lh_maybe_resize_table:
  "lh_ok key lh \<Longrightarrow> table key (lh_maybe_resize A lh) = table key lh"
  using lh_maybe_resize_ok same_entries_table by metis

section \<open>Refinement of a finite map\<close>

lemma mset_exchange:
  assumes "a + m = l + c" "c + {#x#} = m + {#y#}" "l = add_mset x r"
  shows "a = add_mset y r"
proof -
  have "a + (m + {#x#}) = l + (c + {#x#})" using assms(1) by (metis add.assoc)
  also have "\<dots> = add_mset y r + (m + {#x#})" using assms(2,3) by simp
  finally show ?thesis by simp
qed

text \<open>Replacing, adding and removing one item of a chain.\<close>

lemma placed_update:
  assumes "placed n bs" "b < n" "\<forall>it \<in> set ch. it \<in> set (bs ! b) \<or> unat (it_hash it) mod n = b"
  shows "placed n (bs[b := ch])"
  using assms by (auto simp: placed_def nth_list_update)

lemma in_bucket:
  assumes "placed n bs" "it \<in> set (concat bs)" shows "it \<in> set (bs ! (unat (it_hash it) mod n))"
proof -
  obtain b where b: "b < length bs" "it \<in> set (bs ! b)"
    using assms(2) by (auto simp: in_set_conv_nth [of _ bs])
  with assms(1) show ?thesis by (auto simp: placed_def)
qed

lemma table_mset:
  assumes "mset (lh_items lh) = mset ds" "distinct (map key ds)"
  shows "table key lh = map_of (map (\<lambda>d. (key d, d)) ds)"
  unfolding table_def
proof (rule map_of_inject_set [THEN iffD2])
  show "set (map (\<lambda>d. (key d, d)) (lh_items lh)) = set (map (\<lambda>d. (key d, d)) ds)"
    using mset_eq_setD [OF assms(1)] by simp
  have "distinct (map key (lh_items lh))"
    using assms by (subst mset_eq_imp_distinct_iff [of _ "map key ds"]) simp_all
  with assms(2) show "distinct (map fst (map (\<lambda>d. (key d, d)) (lh_items lh)))"
    "distinct (map fst (map (\<lambda>d. (key d, d)) ds))" by (simp_all add: o_def)
qed

locale keyed_table =
  fixes hashf :: "'a \<Rightarrow> u32" and cmpf :: "'a \<Rightarrow> 'a \<Rightarrow> int" and key :: "'a \<Rightarrow> 'k"
  assumes cmp_key: "cmpf a b = 0 \<longleftrightarrow> key a = key b"
    and hash_key: "key a = key b \<Longrightarrow> hashf a = hashf b"
begin

lemma new_ok:
  assumes "lh_new A hashf cmpf = Some lh"
  shows "lh_ok key lh \<and> table key lh = Map.empty \<and> hash lh = hashf \<and> comp lh = cmpf"
  using assms by (auto simp: lh_new_def lh_ok_def table_def lh_items_def split: option.splits)

lemma slot_cases:
  assumes ok: "lh_ok key lh" and fns: "hash lh = hashf" "comp lh = cmpf"
  obtains (found) b k it where "get_next_ptr_and_hash lh d = ((b, k), hashf d)" "slot_item lh (b, k) = Some it"
      "b < length (buckets lh)" "k < length (buckets lh ! b)" "buckets lh ! b ! k = it" "key (it_data it) = key d"
      "b = unat (hashf d) mod num_buckets lh"
    | (missing) b k where "get_next_ptr_and_hash lh d = ((b, k), hashf d)" "slot_item lh (b, k) = None"
      "b < length (buckets lh)" "b = unat (hashf d) mod num_buckets lh" "table key lh (key d) = None"
proof -
  define b where "b = unat (hashf d) mod num_buckets lh"
  define k where "k = chain_pos (\<lambda>x. cmpf x d = 0) (buckets lh ! b)"
  have get: "get_next_ptr_and_hash lh d = ((b, k), hashf d)"
    by (simp add: get_next_ptr_and_hash_def Let_def fns b_def k_def)
  have pl: "placed (num_buckets lh) (buckets lh)" and b: "b < length (buckets lh)"
    using ok by (auto simp: lh_ok_placed placed_def b_def)
  show thesis
  proof (cases "k < length (buckets lh ! b)")
    case True
    with chain_pos_found [of "\<lambda>x. cmpf x d = 0" "buckets lh ! b"] cmp_key get b found [of b k] b_def
    show thesis by (simp add: k_def)
  next
    case False
    have "key x \<noteq> key d" if "x \<in> set (lh_items lh)" for x
    proof
      assume eq: "key x = key d"
      from that obtain it where it: "it \<in> set (concat (buckets lh))" "it_data it = x"
        by (auto simp: lh_items_def)
      with ok fns have "it_hash it = hashf x" by (auto simp: lh_ok_placed)
      with hash_key [OF eq] have "unat (it_hash it) mod num_buckets lh = b" by (simp add: b_def)
      with in_bucket [OF pl it(1)] have "it \<in> set (buckets lh ! b)" by simp
      then have "cmpf (it_data it) d \<noteq> 0" by (rule chain_pos_none [OF False [unfolded k_def]])
      with cmp_key eq it(2) show False by simp
    qed
    then have "table key lh (key d) = None" by (simp add: table_None_iff)
    with False get b missing [of b k] b_def show thesis by simp
  qed
qed

lemma item_table:
  assumes "lh_ok key lh" "b < length (buckets lh)" "k < length (buckets lh ! b)" "buckets lh ! b ! k = it"
  shows "table key lh (key (it_data it)) = Some (it_data it)"
proof -
  have "it \<in> set (buckets lh ! b)" using assms(3,4) nth_mem by blast
  moreover have "buckets lh ! b \<in> set (buckets lh)" using assms(2) by simp
  ultimately have "it_data it \<in> set (lh_items lh)" by (auto simp: lh_items_def)
  with assms(1) show ?thesis by (simp add: table_Some_iff lh_ok_def)
qed

lemma retrieve_refines:
  assumes "lh_ok key lh" "hash lh = hashf" "comp lh = cmpf"
  shows "lh_retrieve lh d = table key lh (key d)"
  using assms
proof (cases rule: slot_cases [of lh d, consumes 3])
  case (found b k it)
  with item_table [OF assms(1), of b k it] show ?thesis by (simp add: lh_retrieve_def)
next
  case (missing b k)
  then show ?thesis by (simp add: lh_retrieve_def)
qed

lemma ok_split:
  assumes "lh_ok key lh" "old \<in> set (lh_items lh)"
  defines "R \<equiv> remove1 old (lh_items lh)"
  shows "mset (lh_items lh) = mset (old # R)" "distinct (map key (old # R))"
    and "table key lh = (map_of (map (\<lambda>d. (key d, d)) R))(key old \<mapsto> old)"
    and "map_of (map (\<lambda>d. (key d, d)) R) (key old) = None"
proof -
  show m: "mset (lh_items lh) = mset (old # R)" using assms(2) by (simp add: R_def)
  have "distinct (map key (lh_items lh))" using assms(1) by (simp add: lh_ok_def)
  with m show d: "distinct (map key (old # R))"
    by (subst (asm) mset_eq_imp_distinct_iff [of _ "map key (old # R)"]) simp_all
  from table_mset [OF m d] show "table key lh = (map_of (map (\<lambda>d. (key d, d)) R))(key old \<mapsto> old)" by simp
  from d show "map_of (map (\<lambda>d. (key d, d)) R) (key old) = None" by (auto simp: map_of_eq_None_iff)
qed

lemma mset_items_update:
  assumes "b < length (buckets lh)"
  shows "mset (lh_items (lh\<lparr>buckets := (buckets lh)[b := ch], num_items := n\<rparr>)) + mset (map it_data (buckets lh ! b)) =
    mset (lh_items lh) + mset (map it_data ch)"
  using mset_concat_update [OF assms, of ch, THEN arg_cong, of "image_mset it_data"]
  by (simp add: lh_items_def)

text \<open>A step that changes one chain gives a table that satisfies the invariant again.\<close>

lemma changed_chain_ok:
  assumes ok: "lh_ok key lh" and fns: "hash lh = hashf" and b: "b < length (buckets lh)"
    and ch: "\<forall>it \<in> set ch. it \<in> set (buckets lh ! b) \<or>
      it_hash it = hashf (it_data it) \<and> unat (it_hash it) mod num_buckets lh = b"
    and ds: "mset (lh_items (lh\<lparr>buckets := (buckets lh)[b := ch], num_items := n\<rparr>)) = mset ds"
    and dist: "distinct (map key ds)" "n = length ds"
  shows "lh_ok key (lh\<lparr>buckets := (buckets lh)[b := ch], num_items := n\<rparr>)"
    and "table key (lh\<lparr>buckets := (buckets lh)[b := ch], num_items := n\<rparr>) = map_of (map (\<lambda>d. (key d, d)) ds)"
proof -
  let ?lh = "lh\<lparr>buckets := (buckets lh)[b := ch], num_items := n\<rparr>"
  have pl: "placed (num_buckets lh) (buckets lh)" using ok by (simp add: lh_ok_placed)
  then have "placed (num_buckets lh) ((buckets lh)[b := ch])"
    using b ch by (intro placed_update) (auto simp: placed_def)
  moreover have "\<forall>it \<in> set (concat ((buckets lh)[b := ch])). it_hash it = hash lh (it_data it)"
  proof
    fix it assume "it \<in> set (concat ((buckets lh)[b := ch]))"
    then obtain c where "c \<in> set ((buckets lh)[b := ch])" "it \<in> set c" by auto
    then have "it \<in> set ch \<or> it \<in> set (concat (buckets lh))" by (auto dest: set_update_subset_insert [THEN subsetD])
    moreover have "set (buckets lh ! b) \<subseteq> set (concat (buckets lh))" using nth_mem [OF b] by auto
    ultimately show "it_hash it = hash lh (it_data it)" using ok ch fns by (auto simp: lh_ok_placed)
  qed
  moreover have "length (lh_items ?lh) = n" using mset_eq_length [OF ds] dist(2) by simp
  moreover have "distinct (map key (lh_items ?lh))"
    using ds dist(1) by (subst mset_eq_imp_distinct_iff [of _ "map key ds"]) simp_all
  ultimately show "lh_ok key ?lh" using ok by (simp add: lh_ok_placed)
  show "table key ?lh = map_of (map (\<lambda>d. (key d, d)) ds)" using ds dist(1) by (rule table_mset)
qed

lemma slot_item_in_items:
  assumes "b < length (buckets lh)" "k < length (buckets lh ! b)"
  shows "it_data (buckets lh ! b ! k) \<in> set (lh_items lh)"
proof -
  have "buckets lh ! b ! k \<in> set (concat (buckets lh))" using nth_mem [OF assms(1)] nth_mem [OF assms(2)] by auto
  then show ?thesis by (simp add: lh_items_def)
qed

text \<open>
  \<^verbatim>\<open>lh_insert\<close> is a map update, and hands back the entry it replaces; the one failure, a refused
  allocation for a new item, changes nothing.
\<close>

lemma insert_refines:
  assumes ok: "lh_ok key lh" and fns: "hash lh = hashf" "comp lh = cmpf" and room: "num_items lh + 1 < SIZE_LIMIT"
    and ins: "lh_insert A lh d = (r, lh')"
  shows "hash lh' = hashf \<and> comp lh' = cmpf \<and> lh_ok key lh' \<and>
    (case r of None \<Rightarrow> lh' = lh \<and> table key lh (key d) = None \<and> OPENSSL_malloc A sizeof_LHASH_ITEM = None
     | Some old \<Rightarrow> old = table key lh (key d) \<and> table key lh' = (table key lh)(key d \<mapsto> d))"
  using ok fns
proof (cases rule: slot_cases [of lh d, consumes 3])
  case (found b k it)
  define ch where "ch = (buckets lh ! b)[k := it\<lparr>it_data := d\<rparr>]"
  define R where "R = remove1 (it_data it) (lh_items lh)"
  have mem: "it_data it \<in> set (lh_items lh)" using slot_item_in_items [OF found(3,4)] found(5) by simp
  note split = ok_split [OF ok mem, folded R_def]
  have itm: "it \<in> set (buckets lh ! b)" using nth_mem [OF found(4)] found(5) by simp
  then have itd: "it_data it \<in># image_mset it_data (mset (buckets lh ! b))" by simp
  from itm ok found(3) have it: "it_hash it = hashf (it_data it)" "unat (it_hash it) mod num_buckets lh = b"
    unfolding lh_ok_def fns by metis+
  have upd: "lh' = lh\<lparr>buckets := (buckets lh)[b := ch], num_items := num_items lh\<rparr>" "r = Some (Some (it_data it))"
    using ins found(1,2,5) by (auto simp: lh_insert_def Let_def ch_def)
  have chain: "mset (map it_data ch) + {#it_data it#} = mset (map it_data (buckets lh ! b)) + {#d#}"
    using found(4,5) insert_DiffM [OF itd] by (simp add: ch_def map_update mset_update nth_map)
  have "mset (lh_items (lh\<lparr>buckets := (buckets lh)[b := ch], num_items := num_items lh\<rparr>)) = mset (d # R)"
    unfolding mset.simps by (rule mset_exchange [OF mset_items_update [OF found(3)] chain]) (simp add: split(1))
  moreover have "\<forall>x \<in> set ch. x \<in> set (buckets lh ! b) \<or>
      it_hash x = hashf (it_data x) \<and> unat (it_hash x) mod num_buckets lh = b"
    using it hash_key [OF found(6)] by (auto simp: ch_def dest: set_update_subset_insert [THEN subsetD])
  moreover have "distinct (map key (d # R))" using split(2) found(6) by simp
  moreover have "num_items lh = length (d # R)"
    using mset_eq_length [OF split(1)] ok by (simp add: lh_ok_def)
  ultimately have new: "lh_ok key lh'" "table key lh' = map_of (map (\<lambda>d. (key d, d)) (d # R))"
    using changed_chain_ok [OF ok fns(1) found(3), where ch = ch and n = "num_items lh" and ds = "d # R"] by (simp_all add: upd(1))
  with split(3) found(6) upd show ?thesis by (simp add: fns)
next
  case (missing b k)
  show ?thesis
  proof (cases "OPENSSL_malloc A sizeof_LHASH_ITEM")
    case None
    with missing ins ok fns show ?thesis by (auto simp: lh_insert_def Let_def)
  next
    case (Some blk)
    define ch where "ch = buckets lh ! b @ [\<lparr>it_data = d, it_hash = hashf d\<rparr>]"
    define lh1 where "lh1 = lh\<lparr>buckets := (buckets lh)[b := ch], num_items := num_items lh + 1\<rparr>"
    have upd: "lh' = lh_maybe_resize A lh1" "r = Some None"
      using ins missing Some room by (simp_all add: lh_insert_def Let_def lh1_def ch_def)
    have "mset (lh_items lh1) = mset (d # lh_items lh)"
      using mset_items_update [OF missing(3), where ch = ch and n = "num_items lh + 1"] by (simp add: ch_def lh1_def)
    moreover have "distinct (map key (d # lh_items lh))"
      using ok missing(5) by (auto simp: lh_ok_def table_None_iff)
    moreover have "num_items lh + 1 = length (d # lh_items lh)" using ok by (simp add: lh_ok_def)
    moreover have "\<forall>x \<in> set ch. x \<in> set (buckets lh ! b) \<or>
        it_hash x = hashf (it_data x) \<and> unat (it_hash x) mod num_buckets lh = b"
      using missing(4) by (auto simp: ch_def)
    ultimately have new: "lh_ok key lh1" "table key lh1 = map_of (map (\<lambda>d. (key d, d)) (d # lh_items lh))"
      using changed_chain_ok [OF ok fns(1) missing(3), where ch = ch and n = "num_items lh + 1" and ds = "d # lh_items lh"]
      by (simp_all add: lh1_def)
    have "hash lh' = hashf \<and> comp lh' = cmpf"
      using lh_maybe_resize_ok [OF new(1), of A] fns by (simp add: upd(1) same_entries_def lh1_def)
    with new lh_maybe_resize_ok [OF new(1), of A] lh_maybe_resize_table [OF new(1), of A] missing(5) upd
    show ?thesis by (simp add: table_def)
  qed
qed

lemma delete_refines:
  assumes ok: "lh_ok key lh" and fns: "hash lh = hashf" "comp lh = cmpf" and del: "lh_delete A lh d = (r, lh')"
  shows "hash lh' = hashf \<and> comp lh' = cmpf \<and> lh_ok key lh' \<and> r = table key lh (key d) \<and>
    table key lh' = (table key lh)(key d := None)"
  using ok fns
proof (cases rule: slot_cases [of lh d, consumes 3])
  case (found b k it)
  define ch where "ch = take k (buckets lh ! b) @ drop (Suc k) (buckets lh ! b)"
  define R where "R = remove1 (it_data it) (lh_items lh)"
  define n where "n = num_items lh - 1"
  define lh1 where "lh1 = lh\<lparr>buckets := (buckets lh)[b := ch], num_items := n\<rparr>"
  have mem: "it_data it \<in> set (lh_items lh)" using slot_item_in_items [OF found(3,4)] found(5) by simp
  note split = ok_split [OF ok mem, folded R_def]
  have len: "num_items lh = Suc (length R)" using mset_eq_length [OF split(1)] ok by (simp add: lh_ok_def)
  have upd: "lh' = lh_maybe_resize A lh1" "r = Some (it_data it)"
    using del found len by (simp_all add: lh_delete_def Let_def lh1_def ch_def n_def)
  have "buckets lh ! b = take k (buckets lh ! b) @ it # drop (Suc k) (buckets lh ! b)"
    using id_take_nth_drop [OF found(4)] found(5) by simp
  then have "mset (map it_data (buckets lh ! b)) = mset (map it_data (take k (buckets lh ! b) @ it # drop (Suc k) (buckets lh ! b)))"
    by simp
  then have chain: "mset (map it_data (buckets lh ! b)) = add_mset (it_data it) (mset (map it_data ch))"
    by (simp add: ch_def)
  have "mset (lh_items lh1) = mset R"
    using mset_items_update [OF found(3), where ch = ch and n = n] chain split(1) by (simp add: lh1_def)
  moreover have "\<forall>x \<in> set ch. x \<in> set (buckets lh ! b) \<or>
      it_hash x = hashf (it_data x) \<and> unat (it_hash x) mod num_buckets lh = b"
    by (auto simp: ch_def dest: in_set_takeD in_set_dropD)
  ultimately have new: "lh_ok key lh1" "table key lh1 = map_of (map (\<lambda>d. (key d, d)) R)"
    using changed_chain_ok [OF ok fns(1) found(3), where ch = ch and n = n and ds = R] split(2) len by (simp_all add: lh1_def n_def)
  have "hash lh' = hashf \<and> comp lh' = cmpf"
    using lh_maybe_resize_ok [OF new(1), of A] fns by (simp add: upd(1) same_entries_def lh1_def)
  moreover have "map_of (map (\<lambda>d. (key d, d)) R) = (table key lh)(key d := None)"
    using split(3,4) found(6) by (auto simp: fun_eq_iff)
  ultimately show ?thesis
    using new lh_maybe_resize_ok [OF new(1), of A] lh_maybe_resize_table [OF new(1), of A] split(3) found(6) upd
    by simp
next
  case (missing b k)
  with del ok fns show ?thesis by (auto simp: lh_delete_def Let_def fun_eq_iff)
qed

end

section \<open>Runs of operations\<close>

datatype 'a lh_op = Insert 'a | Delete 'a | Retrieve 'a

fun lh_step :: "allocator \<Rightarrow> 'a lh_op \<Rightarrow> 'a lhash \<Rightarrow> 'a option option \<times> 'a lhash" where
  "lh_step A (Insert d) lh = lh_insert A lh d"
| "lh_step A (Delete d) lh = (case lh_delete A lh d of (r, lh') \<Rightarrow> (Some r, lh'))"
| "lh_step A (Retrieve d) lh = (Some (lh_retrieve lh d), lh)"

fun lh_run :: "allocator \<Rightarrow> 'a lh_op list \<Rightarrow> 'a lhash \<Rightarrow> 'a option option list \<times> 'a lhash" where
  "lh_run A [] lh = ([], lh)"
| "lh_run A (p # ps) lh =
     (case lh_step A p lh of (r, lh1) \<Rightarrow> (case lh_run A ps lh1 of (rs, lh2) \<Rightarrow> (r # rs, lh2)))"

text \<open>
  What a client sees: a finite map from keys to entries. \<open>map_step\<close> checks one result against the
  map and gives the map after the operation. Only the insertion of a new key may fail, and then the
  map is as before.
\<close>

fun map_step :: "('a \<Rightarrow> 'k) \<Rightarrow> 'a lh_op \<Rightarrow> 'a option option \<Rightarrow> ('k \<Rightarrow> 'a option) \<Rightarrow> ('k \<Rightarrow> 'a option) option" where
  "map_step key (Insert d) (Some old) m = (if old = m (key d) then Some (m(key d \<mapsto> d)) else None)"
| "map_step key (Insert d) None m = (if m (key d) = None then Some m else None)"
| "map_step key (Delete d) (Some r) m = (if r = m (key d) then Some (m(key d := None)) else None)"
| "map_step key (Retrieve d) (Some r) m = (if r = m (key d) then Some m else None)"
| "map_step key p None m = None"

fun map_run :: "('a \<Rightarrow> 'k) \<Rightarrow> 'a lh_op list \<Rightarrow> 'a option option list \<Rightarrow> ('k \<Rightarrow> 'a option) \<Rightarrow> ('k \<Rightarrow> 'a option) option" where
  "map_run key [] [] m = Some m"
| "map_run key (p # ps) (r # rs) m = Option.bind (map_step key p r m) (map_run key ps rs)"
| "map_run key ps rs m = None"

lemma num_items_card:
  assumes "lh_ok key lh" shows "num_items lh = card (dom (table key lh))" "finite (dom (table key lh))"
proof -
  have "dom (table key lh) = set (map key (lh_items lh))"
    by (auto simp: table_def dom_map_of_conv_image_fst image_image)
  with assms show "num_items lh = card (dom (table key lh))" "finite (dom (table key lh))"
    by (auto simp: lh_ok_def dest!: distinct_card)
qed

lemma map_step_dom:
  "map_step key p r m = Some m' \<Longrightarrow> finite (dom m) \<Longrightarrow> card (dom m') \<le> Suc (card (dom m))"
  by (induction key p r m rule: map_step.induct)
    (auto split: if_splits simp: card_insert_if card_Diff1_le le_SucI)

context keyed_table
begin

lemma step_refines:
  assumes "lh_ok key lh" "hash lh = hashf" "comp lh = cmpf" "num_items lh + 1 < SIZE_LIMIT"
    and "lh_step A p lh = (r, lh')"
  shows "hash lh' = hashf \<and> comp lh' = cmpf \<and> lh_ok key lh' \<and>
    map_step key p r (table key lh) = Some (table key lh')"
  using assms
proof (cases p)
  case (Insert d)
  with insert_refines [OF assms(1-4), of A d r lh'] assms(5) show ?thesis by (cases r) auto
next
  case (Delete d)
  obtain x lh1 where del: "lh_delete A lh d = (x, lh1)" by (rule prod.exhaust)
  with delete_refines [OF assms(1-3) del] assms(5) Delete show ?thesis by auto
next
  case (Retrieve d)
  with retrieve_refines [OF assms(1-3), of d] assms show ?thesis by auto
qed

lemma run_refines:
  assumes "lh_ok key lh" "hash lh = hashf" "comp lh = cmpf" "num_items lh + length ps < SIZE_LIMIT"
    and "lh_run A ps lh = (rs, lh')"
  shows "lh_ok key lh' \<and> map_run key ps rs (table key lh) = Some (table key lh')"
  using assms
proof (induction ps arbitrary: lh rs)
  case (Cons p ps)
  obtain r lh1 where st: "lh_step A p lh = (r, lh1)" by (rule prod.exhaust)
  obtain rs2 where run: "lh_run A ps lh1 = (rs2, lh')" and rs: "rs = r # rs2"
    using Cons.prems(5) st by (auto split: prod.splits)
  have "num_items lh + 1 < SIZE_LIMIT" using Cons.prems(4) by simp
  note step = step_refines [OF Cons.prems(1-3) this st]
  then have ok1: "lh_ok key lh1" and ms: "map_step key p r (table key lh) = Some (table key lh1)" by simp_all
  have "num_items lh1 \<le> Suc (num_items lh)"
    using map_step_dom [OF ms] num_items_card [OF Cons.prems(1)] num_items_card(1) [OF ok1] by simp
  then have "num_items lh1 + length ps < SIZE_LIMIT" using Cons.prems(4) by simp
  with Cons.IH [OF ok1 _ _ this run] step ms rs show ?case by simp
qed simp

end

lemma replicate_malloc: "OPENSSL_malloc (\<lambda>n. Some (replicate n b)) k \<noteq> None"
  by (simp add: OPENSSL_malloc_def)

lemma lh_new_total:
  assumes "\<And>k. OPENSSL_malloc A k \<noteq> None"
  shows "\<exists>lh. lh_new A h c = Some lh"
  using assms [of 48] assms [of 128] by (auto simp: lh_new_def)

section \<open>Properties\<close>

text \<open>
  C26. The hash table is a finite map: whatever sequence of \<^verbatim>\<open>lh_insert\<close>, \<^verbatim>\<open>lh_delete\<close> and
  \<^verbatim>\<open>lh_retrieve\<close> runs on it, with the resizing these cause and with every failure of an allocation,
  the results are those of a map from keys to entries, only the insertion of a new key may fail and
  then without effect, and the invariant of the table is kept. The client's comparison must
  say 0 on equal keys only, and equal keys must hash alike.
\<close>

theorem lhash_refines_map:
  assumes laws: "\<forall>a b. comp lh a b = 0 \<longleftrightarrow> key a = key b" "\<forall>a b. key a = key b \<longrightarrow> hash lh a = hash lh b"
    and ok: "lh_ok key lh" "num_items lh + length ps < SIZE_LIMIT"
    and run: "lh_run A ps lh = (rs, lh')"
  shows "lh_ok key lh' \<and> map_run key ps rs (table key lh) = Some (table key lh')"
proof -
  have "keyed_table (hash lh) (comp lh) key" by (rule keyed_table.intro) (use laws in blast)+
  from keyed_table.run_refines [OF this ok(1) refl refl ok(2) run] show ?thesis .
qed

theorem lhash_refines_map_witness:
  "\<exists>lh. lh_new (\<lambda>n. Some (replicate n 0)) (\<lambda>n. word_of_int (n mod 5)) (\<lambda>a b. a - b) = Some lh \<and>
     map_run id [Insert 1, Insert 6, Insert 1, Delete 6, Retrieve (6 :: int)]
       (fst (lh_run (\<lambda>n. Some (replicate n 0)) [Insert 1, Insert 6, Insert 1, Delete 6, Retrieve 6] lh)) Map.empty \<noteq> None"
proof -
  let ?A = "\<lambda>n. Some (replicate n (0 :: byte))" and ?h = "\<lambda>n :: int. word_of_int (n mod 5) :: u32"
  let ?c = "\<lambda>a b :: int. a - b" and ?ps = "[Insert 1, Insert 6, Insert 1, Delete 6, Retrieve (6 :: int)]"
  obtain lh where new: "lh_new ?A ?h ?c = Some lh" using lh_new_total [OF replicate_malloc] by blast
  have "keyed_table ?h ?c id" by unfold_locales auto
  from keyed_table.new_ok [OF this new] have
    ok: "lh_ok id lh" and tab: "table id lh = Map.empty" and fns: "hash lh = ?h" "comp lh = ?c" by simp_all
  have "num_items lh = 0" using new by (auto simp: lh_new_def split: option.splits)
  moreover obtain rs lh' where run: "lh_run ?A ?ps lh = (rs, lh')" by (rule prod.exhaust)
  moreover have "\<forall>a b. comp lh a b = 0 \<longleftrightarrow> id a = id b" "\<forall>a b. id a = id b \<longrightarrow> hash lh a = hash lh b"
    by (auto simp: fns)
  ultimately have "map_run id ?ps rs Map.empty = Some (table id lh')"
    using lhash_refines_map [OF _ _ ok _ run] tab by simp
  with new run show ?thesis by (intro exI [of _ lh]) simp
qed

text \<open>The load factor the table keeps: at most three items per bucket on average, and at least one once it has grown.\<close>

definition balanced :: "'a lhash \<Rightarrow> bool" where
  "balanced lh \<longleftrightarrow> kMinNumBuckets \<le> num_buckets lh \<and> num_items lh < 3 * num_buckets lh \<and>
     (num_buckets lh = kMinNumBuckets \<or> num_buckets lh \<le> num_items lh)"

lemma lh_rebucket_sizes:
  assumes "8 * n < SIZE_LIMIT" "\<forall>n. OPENSSL_malloc A n \<noteq> None"
  shows "num_buckets (lh_rebucket A lh n) = n \<and> num_items (lh_rebucket A lh n) = num_items lh"
proof -
  obtain blk where "OPENSSL_malloc A (8 * n) = Some blk" using assms(2) by blast
  with assms(1) show ?thesis by (simp add: lh_rebucket_def)
qed

lemma lh_maybe_resize_balanced:
  assumes mem: "\<forall>n. OPENSSL_malloc A n \<noteq> None" and small: "16 * num_buckets lh < SIZE_LIMIT"
    and nb: "kMinNumBuckets \<le> num_buckets lh" and d: "callback_depth lh = 0"
    and up: "num_items lh \<le> 3 * num_buckets lh"
    and low: "num_buckets lh = kMinNumBuckets \<or> num_buckets lh \<le> num_items lh + 1"
  shows "balanced (lh_maybe_resize A lh)"
proof -
  have avg: "2 < num_items lh div num_buckets lh \<longleftrightarrow> 3 * num_buckets lh \<le> num_items lh"
    using nb less_eq_div_iff_mult_less_eq [of "num_buckets lh" 3 "num_items lh"] by linarith
  have one: "num_items lh div num_buckets lh < 1 \<longleftrightarrow> num_items lh < num_buckets lh"
    using nb by (auto simp: div_eq_0_iff)
  consider "3 * num_buckets lh \<le> num_items lh" | "num_items lh < num_buckets lh" "kMinNumBuckets < num_buckets lh"
    | "num_items lh < 3 * num_buckets lh" "num_buckets lh \<le> num_items lh \<or> num_buckets lh = kMinNumBuckets"
    using nb by linarith
  then show ?thesis
  proof cases
    case 1
    then show ?thesis
      using avg d up nb small lh_rebucket_sizes [OF _ mem, of "2 * num_buckets lh" lh]
      by (auto simp: lh_maybe_resize_def Let_def balanced_def mult.commute)
  next
    case 2
    define n where "n = (if num_buckets lh div 2 < kMinNumBuckets then kMinNumBuckets else num_buckets lh div 2)"
    have "n \<le> num_buckets lh" "num_items lh < 3 * n" "n = kMinNumBuckets \<or> n \<le> num_items lh" "kMinNumBuckets \<le> n"
      using 2 low by (auto simp: n_def)
    moreover have "lh_maybe_resize A lh = lh_rebucket A lh n"
      using avg one d 2 by (auto simp: lh_maybe_resize_def Let_def n_def)
    ultimately show ?thesis using lh_rebucket_sizes [OF _ mem, of n lh] small by (simp add: balanced_def)
  next
    case 3
    then show ?thesis using avg one d nb by (auto simp: lh_maybe_resize_def Let_def balanced_def)
  qed
qed

text \<open>
  C27. While memory lasts and no iteration is running, insertions and deletions keep the load factor: fewer
  than three items per bucket, and no fewer items than buckets in a table above the minimum size.
\<close>

theorem lhash_load_factor:
  assumes "balanced lh" "callback_depth lh = 0" "\<forall>n. OPENSSL_malloc A n \<noteq> None"
    and "16 * num_buckets lh < SIZE_LIMIT" "num_items lh + 1 < SIZE_LIMIT"
  shows "balanced (snd (lh_insert A lh d)) \<and> (0 < num_items lh \<longrightarrow> balanced (snd (lh_delete A lh d)))"
proof -
  obtain b k h where g: "get_next_ptr_and_hash lh d = ((b, k), h)" by (metis prod.exhaust)
  have "balanced (lh_maybe_resize A (lh\<lparr>buckets := bs, num_items := n\<rparr>))"
    if "n = num_items lh + 1 \<or> n + 1 = num_items lh" for bs n
    by (rule lh_maybe_resize_balanced) (use assms that in \<open>auto simp: balanced_def\<close>)
  then show ?thesis
    using assms g by (auto simp: lh_insert_def lh_delete_def Let_def balanced_def split: option.splits)
qed

theorem lhash_load_factor_witness:
  "\<exists>lh. lh_new (\<lambda>n. Some (replicate n 0)) (\<lambda>n. word_of_int n) (\<lambda>a b. a - b) = Some lh \<and>
     balanced (snd (lh_insert (\<lambda>n. Some (replicate n 0)) lh (7 :: int)))"
proof -
  let ?A = "\<lambda>n. Some (replicate n (0 :: byte))" and ?h = "\<lambda>n :: int. word_of_int n :: u32"
  let ?c = "\<lambda>a b :: int. a - b"
  obtain lh where new: "lh_new ?A ?h ?c = Some lh" using lh_new_total [OF replicate_malloc] by blast
  then have "num_items lh = 0" "num_buckets lh = 16" "callback_depth lh = 0"
    by (auto simp: lh_new_def split: option.splits)
  with lhash_load_factor [of lh ?A 7] replicate_malloc have "balanced (snd (lh_insert ?A lh 7))"
    by (simp add: balanced_def)
  with new show ?thesis by blast
qed

text \<open>
  While an iteration is running, an operation changes the chain of its own bucket and moves nothing else,
  so the positions an iteration holds in other chains stay valid.
\<close>

lemma insert_delete_local:
  assumes "0 < callback_depth lh"
  shows "\<exists>b ch. buckets (snd (lh_insert A lh d)) = (buckets lh)[b := ch] \<and>
      num_buckets (snd (lh_insert A lh d)) = num_buckets lh \<and> callback_depth (snd (lh_insert A lh d)) = callback_depth lh"
    and "\<exists>b ch. buckets (snd (lh_delete A lh d)) = (buckets lh)[b := ch] \<and>
      num_buckets (snd (lh_delete A lh d)) = num_buckets lh \<and> callback_depth (snd (lh_delete A lh d)) = callback_depth lh"
proof -
  obtain b k h where g: "get_next_ptr_and_hash lh d = ((b, k), h)" by (metis prod.exhaust)
  have same: "\<exists>b ch. buckets lh = (buckets lh)[b := ch]" by (metis list_update_id)
  from assms g same show "\<exists>b ch. buckets (snd (lh_insert A lh d)) = (buckets lh)[b := ch] \<and>
      num_buckets (snd (lh_insert A lh d)) = num_buckets lh \<and> callback_depth (snd (lh_insert A lh d)) = callback_depth lh"
    by (auto simp: lh_insert_def Let_def lh_maybe_resize_def split: option.splits)
  from assms g same show "\<exists>b ch. buckets (snd (lh_delete A lh d)) = (buckets lh)[b := ch] \<and>
      num_buckets (snd (lh_delete A lh d)) = num_buckets lh \<and> callback_depth (snd (lh_delete A lh d)) = callback_depth lh"
    by (auto simp: lh_delete_def Let_def lh_maybe_resize_def split: option.splits)
qed

lemma below_minus_2:
  fixes x :: u32 assumes "x < - 2" shows "x + 1 < - 1"
proof -
  have m: "unat (- 1 :: u32) = 4294967295" by (simp add: unsigned_minus_1_eq_mask mask_eq_exp_minus_1)
  have "(- 2 :: u32) = 4294967294" by simp
  then have "unat x < 4294967294" using assms by (simp add: word_less_nat_alt)
  moreover then have "unat (x + 1) = unat x + 1" by (simp add: unat_word_ariths)
  ultimately show ?thesis by (simp add: word_less_nat_alt m)
qed

text \<open>
  \<^verbatim>\<open>lh_doall_arg\<close> calls the callback once for every entry of the table, bucket by bucket, and leaves the
  map and the invariant as they were; its nesting counter is restored unless it has saturated.
\<close>

theorem lh_doall_visits_all:
  assumes "lh_ok key lh" "lh_doall_arg A lh func arg = (arg', lh')"
  shows "arg' = foldl (\<lambda>s d. func d s) arg (lh_items lh) \<and> lh_ok key lh' \<and> table key lh' = table key lh \<and>
    (callback_depth lh < - 2 \<longrightarrow> callback_depth lh' = callback_depth lh)"
proof -
  define lh1 where "lh1 = (if callback_depth lh < - 1 then lh\<lparr>callback_depth := callback_depth lh + 1\<rparr> else lh)"
  define lh2 where "lh2 = (if callback_depth lh1 < - 1 then lh1\<lparr>callback_depth := callback_depth lh1 - 1\<rparr> else lh1)"
  have fold: "foldl (\<lambda>s c. foldl (\<lambda>s cur. func (it_data cur) s) s c) s cs = foldl (\<lambda>s d. func d s) s (map it_data (concat cs))"
    for s and cs :: "'a lhash_item list list"
    by (induction cs arbitrary: s) (simp_all add: foldl_map)
  have nth: "foldl (\<lambda>s i. g s (cs ! i)) s [0..<length cs] = foldl g s cs" for g s and cs :: "'a lhash_item list list"
    by (metis foldl_map map_nth)
  have same: "buckets lh1 = buckets lh" "num_buckets lh1 = num_buckets lh"
    "buckets lh2 = buckets lh" "num_buckets lh2 = num_buckets lh" "num_items lh2 = num_items lh" "hash lh2 = hash lh"
    by (simp_all add: lh1_def lh2_def)
  have len: "num_buckets lh = length (buckets lh)" using assms(1) by (simp add: lh_ok_def)
  have res: "arg' = foldl (\<lambda>s d. func d s) arg (lh_items lh)" "lh' = lh_maybe_resize A lh2"
    using assms(2) unfolding lh_doall_arg_def Let_def lh1_def [symmetric] lh2_def [symmetric] same len nth fold lh_items_def
    by simp_all
  have "lh_ok key lh2 = lh_ok key lh" "table key lh2 = table key lh"
    unfolding lh_ok_def lh_items_def table_def same by (rule refl)+
  with assms(1) have ok2: "lh_ok key lh2" "table key lh2 = table key lh" by simp_all
  have "callback_depth lh < - 2 \<longrightarrow> callback_depth lh + 1 < - 1"
    by (rule impI) (rule below_minus_2)
  then have "callback_depth lh < - 2 \<longrightarrow> callback_depth lh2 = callback_depth lh"
    by (auto simp: lh1_def lh2_def)
  with res ok2 lh_maybe_resize_ok [OF ok2(1), of A] lh_maybe_resize_table [OF ok2(1), of A]
  show ?thesis by (auto simp: same_entries_def)
qed

theorem lh_doall_visits_all_witness:
  "\<exists>lh. lh_new (\<lambda>n. Some (replicate n 0)) (\<lambda>n. word_of_int n) (\<lambda>a b. a - b) = Some lh \<and>
     fst (lh_doall_arg (\<lambda>n. Some (replicate n 0)) lh (\<lambda>d s. s + d) (0 :: int)) = 0"
proof -
  let ?A = "\<lambda>n. Some (replicate n (0 :: byte))" and ?h = "\<lambda>n :: int. word_of_int n :: u32"
  let ?c = "\<lambda>a b :: int. a - b"
  obtain lh where new: "lh_new ?A ?h ?c = Some lh" using lh_new_total [OF replicate_malloc] by blast
  obtain arg' lh' where run: "lh_doall_arg ?A lh (\<lambda>d s. s + d) (0 :: int) = (arg', lh')" by (rule prod.exhaust)
  have items: "lh_items lh = []" using new by (auto simp: lh_new_def lh_items_def split: option.splits)
  have "lh_ok id lh" using new by (auto simp: lh_new_def lh_ok_def lh_items_def split: option.splits)
  from lh_doall_visits_all [OF this run] have "arg' = 0" by (simp add: items)
  with new run show ?thesis by auto
qed

end
