(* ===== verification/Refcount.thy ===== *)
theory Refcount
  imports JS_Prelude
begin

text \<open>
  Model of the reference counts, \<^verbatim>\<open>crypto/refcount_lock.c\<close> and \<^verbatim>\<open>crypto/refcount_c11.c\<close>. The
  version with a lock is a function on the count; \<^verbatim>\<open>abort()\<close> is \<open>None\<close>. The version with atomics is
  a transition system of threads, each at its load, in its compare-and-exchange loop, or done. The
  refinement says that every interleaving of the second is a sequence of calls of the first.
\<close>

abbreviation (input) CRYPTO_REFCOUNT_MAX :: u32 where "CRYPTO_REFCOUNT_MAX \<equiv> 0xffffffff"

section \<open>The version with a lock\<close>

definition CRYPTO_refcount_inc :: "u32 \<Rightarrow> u32" where
  "CRYPTO_refcount_inc count = (if count < CRYPTO_REFCOUNT_MAX then count + 1 else count)"

definition CRYPTO_refcount_dec_and_test_zero :: "u32 \<Rightarrow> (bool \<times> u32) option" where
  "CRYPTO_refcount_dec_and_test_zero count =
     (if count = 0 then None
      else let count = (if count < CRYPTO_REFCOUNT_MAX then count - 1 else count)
           in Some (count = 0, count))"

lemma below_refcount_max: "(c :: u32) < CRYPTO_REFCOUNT_MAX \<longleftrightarrow> c \<noteq> CRYPTO_REFCOUNT_MAX"
proof -
  have "(- 1 :: u32) = CRYPTO_REFCOUNT_MAX" by simp
  with word_order.not_eq_extremum [of c] show ?thesis by metis
qed

lemma unat_refcount_inc:
  "CRYPTO_refcount_inc c = CRYPTO_REFCOUNT_MAX \<or> unat (CRYPTO_refcount_inc c) = unat c + 1"
proof (cases "c < CRYPTO_REFCOUNT_MAX")
  case True
  then have "unat c < 4294967295" by (simp add: word_less_nat_alt)
  then show ?thesis by (simp add: CRYPTO_refcount_inc_def True unat_word_ariths)
next
  case False
  then show ?thesis by (simp add: CRYPTO_refcount_inc_def below_refcount_max)
qed

lemma unat_refcount_dec:
  assumes "CRYPTO_refcount_dec_and_test_zero c = Some (z, c')" "c \<noteq> CRYPTO_REFCOUNT_MAX"
  shows "unat c = unat c' + 1" "z \<longleftrightarrow> c' = 0"
proof -
  have "c \<noteq> 0" "c' = c - 1" "z \<longleftrightarrow> c' = 0"
    using assms by (auto simp: CRYPTO_refcount_dec_and_test_zero_def below_refcount_max Let_def split: if_splits)
  then show "unat c = unat c' + 1" "z \<longleftrightarrow> c' = 0" using unat_minus_one [of c] by (auto simp: unat_gt_0)
qed

section \<open>The version with atomics\<close>

datatype ref_op = Inc | Dec

datatype ref_thread =
    Loading ref_op         \<comment> \<open>before \<^verbatim>\<open>atomic_load\<close>\<close>
  | Trying ref_op u32      \<comment> \<open>at the head of the loop, with the value of \<^verbatim>\<open>expected\<close>\<close>
  | Done bool              \<comment> \<open>returned; \<open>True\<close> for a decrement that reached zero\<close>
  | Aborted

definition new_value :: "ref_op \<Rightarrow> u32 \<Rightarrow> u32" where
  "new_value p expected = (case p of Inc \<Rightarrow> expected + 1 | Dec \<Rightarrow> expected - 1)"

text \<open>Whether the loop reaches its compare-and-exchange with this \<^verbatim>\<open>expected\<close>.\<close>

definition attempts :: "ref_op \<Rightarrow> u32 \<Rightarrow> bool" where
  "attempts p expected \<longleftrightarrow> expected \<noteq> CRYPTO_REFCOUNT_MAX \<and> \<not> (p = Dec \<and> expected = 0)"

text \<open>
  One atomic step of one thread on the shared count. The label is the completed call with its result.
  A weak compare-and-exchange may fail although the values agree.
\<close>

inductive c11_step :: "u32 \<times> (nat \<Rightarrow> ref_thread) \<Rightarrow> (ref_op \<times> bool) option \<Rightarrow> u32 \<times> (nat \<Rightarrow> ref_thread) \<Rightarrow> bool" where
  load: "ts i = Loading p \<Longrightarrow> c11_step (c, ts) None (c, ts(i := Trying p c))"
| saturated: "ts i = Trying p CRYPTO_REFCOUNT_MAX \<Longrightarrow> c11_step (c, ts) (Some (p, False)) (c, ts(i := Done False))"
| abort: "ts i = Trying Dec 0 \<Longrightarrow> c11_step (c, ts) None (c, ts(i := Aborted))"
| exchanged: "ts i = Trying p c \<Longrightarrow> attempts p c \<Longrightarrow> z = (p = Dec \<and> new_value p c = 0) \<Longrightarrow>
    c11_step (c, ts) (Some (p, z)) (new_value p c, ts(i := Done z))"
| failed: "ts i = Trying p e \<Longrightarrow> attempts p e \<Longrightarrow> c11_step (c, ts) None (c, ts(i := Trying p c))"

inductive_cases c11_stepE: "c11_step (c, ts) l (c', ts')"

inductive c11_run :: "u32 \<times> (nat \<Rightarrow> ref_thread) \<Rightarrow> (ref_op \<times> bool) list \<Rightarrow> u32 \<times> (nat \<Rightarrow> ref_thread) \<Rightarrow> bool" where
  stop: "c11_run s [] s"
| silent: "c11_step s None s1 \<Longrightarrow> c11_run s1 es s2 \<Longrightarrow> c11_run s es s2"
| event: "c11_step s (Some e) s1 \<Longrightarrow> c11_run s1 es s2 \<Longrightarrow> c11_run s (e # es) s2"

text \<open>The same calls one after the other, with the lock.\<close>

fun lock_call :: "ref_op \<Rightarrow> u32 \<Rightarrow> (bool \<times> u32) option" where
  "lock_call Inc c = Some (False, CRYPTO_refcount_inc c)"
| "lock_call Dec c = CRYPTO_refcount_dec_and_test_zero c"

fun lock_run :: "(ref_op \<times> bool) list \<Rightarrow> u32 \<Rightarrow> u32 option" where
  "lock_run [] c = Some c"
| "lock_run ((p, z) # es) c =
     (case lock_call p c of
        None \<Rightarrow> None
      | Some (z', c') \<Rightarrow> if z' = z then lock_run es c' else None)"

text \<open>A thread that has seen the maximum can rely on it: the count never leaves it again.\<close>

definition saturation_stable :: "u32 \<times> (nat \<Rightarrow> ref_thread) \<Rightarrow> bool" where
  "saturation_stable s \<longleftrightarrow> (\<forall>i p. snd s i = Trying p CRYPTO_REFCOUNT_MAX \<longrightarrow> fst s = CRYPTO_REFCOUNT_MAX)"

lemma c11_step_stable:
  assumes "c11_step s l s'" "saturation_stable s" shows "saturation_stable s'"
  using assms by (cases rule: c11_step.cases) (auto simp: saturation_stable_def attempts_def)

lemma lock_call_attempt:
  "attempts p c \<Longrightarrow> lock_call p c = Some (p = Dec \<and> new_value p c = 0, new_value p c)"
  by (cases p) (auto simp: attempts_def new_value_def CRYPTO_refcount_inc_def CRYPTO_refcount_dec_and_test_zero_def
      below_refcount_max)

lemma lock_call_max: "lock_call p CRYPTO_REFCOUNT_MAX = Some (False, CRYPTO_REFCOUNT_MAX)"
  by (cases p) (simp_all add: CRYPTO_refcount_inc_def CRYPTO_refcount_dec_and_test_zero_def)

lemma c11_step_simulates:
  assumes "c11_step s l s'" "saturation_stable s"
  shows "case l of None \<Rightarrow> fst s' = fst s | Some (p, z) \<Rightarrow> lock_call p (fst s) = Some (z, fst s')"
  using assms
proof (cases rule: c11_step.cases)
  case (saturated ts i p c)
  with assms(2) show ?thesis by (auto simp: saturation_stable_def lock_call_max)
next
  case (exchanged ts i p c z)
  then show ?thesis by (simp add: lock_call_attempt)
qed auto

section \<open>Properties\<close>

text \<open>
  C30. The lock-free reference counts refine the ones with a lock: in every interleaving of any number of
  threads, also when compare-and-exchange fails spuriously, the calls return what the same calls
  return one after the other in the order of their last atomic step, and leave the same count.
\<close>

theorem c11_refines_lock:
  assumes "c11_run s es s'" "\<forall>i p e. snd s i \<noteq> Trying p e"
  shows "lock_run es (fst s) = Some (fst s')"
proof -
  have "saturation_stable s" using assms(2) by (simp add: saturation_stable_def)
  with assms(1) show ?thesis
  proof (induction rule: c11_run.induct)
    case (silent s s1 es s2)
    with c11_step_simulates [OF silent(1,4)] c11_step_stable [OF silent(1,4)] show ?case by simp
  next
    case (event s e s1 es s2)
    with c11_step_simulates [OF event(1,4)] c11_step_stable [OF event(1,4)] show ?case by (cases e) simp
  qed simp
qed

lemma two_threads_run:
  "c11_run (1, (\<lambda>i. if i = 0 then Loading Inc else Loading Dec)) [(Inc, False), (Dec, False)]
     (1, (\<lambda>i. if i = 0 then Loading Inc else Loading Dec)(1 := Trying Dec 1, 0 := Trying Inc 1, 0 := Done False,
        1 := Trying Dec 2, 1 := Done False))"
  (is "c11_run (1, ?t) _ _")
proof -
  have n: "new_value Inc 1 = 2" "new_value Dec 2 = 1" by (simp_all add: new_value_def)
  have 1: "c11_step (1, ?t) None (1, ?t(1 := Trying Dec 1))" by (rule c11_step.load) simp
  have 2: "c11_step (1, ?t(1 := Trying Dec 1)) None (1, ?t(1 := Trying Dec 1, 0 := Trying Inc 1))"
    by (rule c11_step.load) simp
  have 3: "c11_step (1, ?t(1 := Trying Dec 1, 0 := Trying Inc 1)) (Some (Inc, False))
      (new_value Inc 1, ?t(1 := Trying Dec 1, 0 := Trying Inc 1, 0 := Done False))"
    by (rule c11_step.exchanged) (simp_all add: attempts_def new_value_def)
  have 4: "c11_step (2, ?t(1 := Trying Dec 1, 0 := Trying Inc 1, 0 := Done False)) None
      (2, ?t(1 := Trying Dec 1, 0 := Trying Inc 1, 0 := Done False, 1 := Trying Dec 2))"
    by (rule c11_step.failed [where e = 1]) (simp_all add: attempts_def)
  have 5: "c11_step (2, ?t(1 := Trying Dec 1, 0 := Trying Inc 1, 0 := Done False, 1 := Trying Dec 2))
      (Some (Dec, False)) (new_value Dec 2,
        ?t(1 := Trying Dec 1, 0 := Trying Inc 1, 0 := Done False, 1 := Trying Dec 2, 1 := Done False))"
    by (rule c11_step.exchanged) (simp_all add: attempts_def new_value_def)
  from 1 2 3 4 5 show ?thesis unfolding n by (blast intro: c11_run.intros)
qed

theorem c11_refines_lock_witness: "lock_run [(Inc, False), (Dec, False)] 1 = Some 1"
  using c11_refines_lock [OF two_threads_run] by simp

abbreviation (input) calls :: "ref_op \<Rightarrow> (ref_op \<times> bool) list \<Rightarrow> nat" where
  "calls p es \<equiv> length (filter (\<lambda>e. fst e = p) es)"

lemma lock_call_exact:
  assumes "lock_call p c = Some (z, c1)" "unat c + calls p [(p, z)] \<le> 4294967295" "c \<noteq> CRYPTO_REFCOUNT_MAX"
  shows "case p of Inc \<Rightarrow> unat c + 1 = unat c1 | Dec \<Rightarrow> unat c = unat c1 + 1 \<and> (z \<longleftrightarrow> c1 = 0)"
proof (cases p)
  case Inc
  have "unat c < 4294967295" using assms(3) by (simp add: word_less_nat_alt flip: below_refcount_max)
  with assms(1) Inc show ?thesis
    by (auto simp: CRYPTO_refcount_inc_def word_less_nat_alt unat_word_ariths)
next
  case Dec
  with unat_refcount_dec [of c z c1] assms(1,3) show ?thesis by simp
qed

lemma lock_run_exact:
  "lock_run es c = Some c' \<Longrightarrow> unat c + calls Inc es < 4294967295 \<Longrightarrow>
    unat c + calls Inc es = unat c' + calls Dec es"
proof (induction es c rule: lock_run.induct)
  case (2 p z es c)
  then obtain c1 where call: "lock_call p c = Some (z, c1)" and run: "lock_run es c1 = Some c'"
    by (auto split: option.splits prod.splits if_splits)
  have cm: "c \<noteq> CRYPTO_REFCOUNT_MAX" using "2.prems"(2) by auto
  from lock_call_exact [OF call _ cm] "2.prems"(2) have
    st: "case p of Inc \<Rightarrow> unat c + 1 = unat c1 | Dec \<Rightarrow> unat c = unat c1 + 1" by (cases p) auto
  then have "unat c1 + calls Inc es < 4294967295" using "2.prems"(2) by (cases p) auto
  with "2.IH" [OF call refl _ run] st show ?case by (cases p) auto
qed simp

lemma lock_run_append: "lock_run (es @ fs) c = Option.bind (lock_run es c) (lock_run fs)"
  by (induction es c rule: lock_run.induct) (auto split: option.splits)

text \<open>
  A count that never reaches the maximum is exact: it is the initial value plus the increments less the
  decrements, and a decrement reports zero exactly when the count it leaves is zero, so no reference
  is lost and the object is released by the last call only.
\<close>

theorem refcount_exact:
  assumes "lock_run (es @ [(Dec, z)]) c = Some c'" "unat c + length (filter (\<lambda>e. fst e = Inc) es) < 4294967295"
  shows "unat c + length (filter (\<lambda>e. fst e = Inc) es) = unat c' + length (filter (\<lambda>e. fst e = Dec) es) + 1 \<and>
    (z \<longleftrightarrow> unat c + length (filter (\<lambda>e. fst e = Inc) es) = length (filter (\<lambda>e. fst e = Dec) es) + 1)"
proof -
  from assms(1) obtain c0 where run: "lock_run es c = Some c0" and last: "lock_run [(Dec, z)] c0 = Some c'"
    by (auto simp: lock_run_append bind_eq_Some_conv)
  have sum: "unat c + calls Inc es = unat c0 + calls Dec es" using lock_run_exact [OF run] assms(2) by simp
  with assms(2) have "c0 \<noteq> CRYPTO_REFCOUNT_MAX" by auto
  moreover have "CRYPTO_refcount_dec_and_test_zero c0 = Some (z, c')"
    using last by (auto split: option.splits prod.splits if_splits)
  ultimately have "unat c0 = unat c' + 1" "z \<longleftrightarrow> c' = 0" using unat_refcount_dec by blast+
  with sum show ?thesis by (auto simp: unat_eq_0)
qed

theorem refcount_exact_witness: "lock_run [(Inc, False), (Dec, False), (Dec, True)] 1 = Some 0"
proof -
  have run: "lock_run ([(Inc, False), (Dec, False)] @ [(Dec, True)]) 1 = Some 0"
    by (simp add: CRYPTO_refcount_inc_def CRYPTO_refcount_dec_and_test_zero_def)
  with refcount_exact [OF run] show ?thesis by simp
qed

end
