(* ===== verification/Pool.thy ===== *)
theory Pool
  imports Lhash Refcount Cbs
begin

text \<open>
  Model of \<^verbatim>\<open>crypto/pool/pool.c\<close>: byte strings interned in a pool and reference counted. The
  fields of a \<^verbatim>\<open>CRYPTO_BUFFER\<close> that never change after its creation are the record
  \<open>crypto_buffer\<close>, with the address as the identity of the pointer; its count is kept by address in
  the state, where \<open>None\<close> is memory that is not allocated. The critical sections of the pool's lock
  are atomic; what other threads do between the two of \<^verbatim>\<open>CRYPTO_BUFFER_new\<close> is its argument
  \<open>others\<close>. The pool is the client of \<open>Lhash\<close>: its comparison and hash are the
  interpretation of \<open>keyed_table\<close>.
\<close>

section \<open>State and operations\<close>

record crypto_buffer =
  buf_addr :: nat
  buf_data :: "byte list"
  buf_len :: size_t
  buf_pool :: bool

record pool_state =
  bufs :: "crypto_buffer lhash"
  refs :: "nat \<Rightarrow> u32 option"

definition CRYPTO_BUFFER_hash :: "crypto_buffer \<Rightarrow> u32" where
  "CRYPTO_BUFFER_hash buf = OPENSSL_hash32 (buf_data buf) (buf_len buf)"

definition CRYPTO_BUFFER_cmp :: "crypto_buffer \<Rightarrow> crypto_buffer \<Rightarrow> int" where
  "CRYPTO_BUFFER_cmp a b =
     (if buf_len a \<noteq> buf_len b then 1 else OPENSSL_memcmp (buf_data a) (buf_data b) (buf_len a))"

text \<open>\<open>n\<close> is the size of the pool object, which holds a platform lock.\<close>

definition CRYPTO_BUFFER_POOL_new :: "allocator \<Rightarrow> size_t \<Rightarrow> (nat \<Rightarrow> u32 option) \<Rightarrow> pool_state option" where
  "CRYPTO_BUFFER_POOL_new A n rc =
     (case OPENSSL_malloc A n of
        None \<Rightarrow> None
      | Some _ \<Rightarrow> map_option (\<lambda>lh. \<lparr>bufs = lh, refs = rc\<rparr>) (lh_new A CRYPTO_BUFFER_hash CRYPTO_BUFFER_cmp))"

definition take_reference :: "crypto_buffer \<Rightarrow> pool_state \<Rightarrow> pool_state" where
  "take_reference buf st =
     st\<lparr>refs := (refs st)(buf_addr buf := map_option CRYPTO_refcount_inc (refs st (buf_addr buf)))\<rparr>"

text \<open>The first critical section: look the bytes up with a buffer on the stack.\<close>

definition pool_lookup :: "byte list \<Rightarrow> size_t \<Rightarrow> pool_state \<Rightarrow> crypto_buffer option \<times> pool_state" where
  "pool_lookup data len st =
     (let tmp = \<lparr>buf_addr = 0, buf_data = data, buf_len = len, buf_pool = False\<rparr>
      in case lh_retrieve (bufs st) tmp of
           None \<Rightarrow> (None, st)
         | Some duplicate \<Rightarrow> (Some duplicate, take_reference duplicate st))"

abbreviation (input) sizeof_CRYPTO_BUFFER :: nat where "sizeof_CRYPTO_BUFFER \<equiv> 32"

definition buffer_make :: "allocator \<Rightarrow> nat \<Rightarrow> byte list \<Rightarrow> size_t \<Rightarrow> bool \<Rightarrow> crypto_buffer option" where
  "buffer_make A addr data len pool =
     (case OPENSSL_malloc A sizeof_CRYPTO_BUFFER of
        None \<Rightarrow> None
      | Some _ \<Rightarrow>
          (case OPENSSL_memdup A data len of
             None \<Rightarrow> if len \<noteq> 0 then None
                     else Some \<lparr>buf_addr = addr, buf_data = [], buf_len = len, buf_pool = pool\<rparr>
           | Some d \<Rightarrow> Some \<lparr>buf_addr = addr, buf_data = d, buf_len = len, buf_pool = pool\<rparr>))"

text \<open>
  The second critical section: look again, insert, and give the new buffer up when that fails. \<open>None\<close> is the failed
  \<^verbatim>\<open>assert(old == NULL)\<close>.
\<close>

definition pool_insert :: "allocator \<Rightarrow> crypto_buffer \<Rightarrow> pool_state \<Rightarrow> (crypto_buffer option \<times> pool_state) option" where
  "pool_insert A buf st =
     (case lh_retrieve (bufs st) buf of
        None \<Rightarrow>
          (case lh_insert A (bufs st) buf of
             (None, lh) \<Rightarrow> Some (None, st\<lparr>bufs := lh, refs := (refs st)(buf_addr buf := None)\<rparr>)
           | (Some old, lh) \<Rightarrow> if old \<noteq> None then None else Some (Some buf, st\<lparr>bufs := lh\<rparr>))
      | Some duplicate \<Rightarrow>
          (case take_reference duplicate st of
             st \<Rightarrow> Some (Some duplicate, st\<lparr>refs := (refs st)(buf_addr buf := None)\<rparr>)))"

text \<open>\<open>addr\<close> is the address that \<^verbatim>\<open>OPENSSL_malloc\<close> returns for the new object.\<close>

definition CRYPTO_BUFFER_new :: "allocator \<Rightarrow> nat \<Rightarrow> (pool_state \<Rightarrow> pool_state) \<Rightarrow> byte list \<Rightarrow> size_t \<Rightarrow> bool \<Rightarrow>
    pool_state \<Rightarrow> (crypto_buffer option \<times> pool_state) option" where
  "CRYPTO_BUFFER_new A addr others data len pool st =
     (case (if pool then pool_lookup data len st else (None, st)) of
        (Some duplicate, st) \<Rightarrow> Some (Some duplicate, st)
      | (None, st) \<Rightarrow>
          (case buffer_make A addr data len pool of
             None \<Rightarrow> Some (None, st)
           | Some buf \<Rightarrow>
               let st = st\<lparr>refs := (refs st)(addr \<mapsto> 1)\<rparr>
               in if \<not> pool then Some (Some buf, st) else pool_insert A buf (others st)))"

definition CRYPTO_BUFFER_alloc :: "allocator \<Rightarrow> nat \<Rightarrow> size_t \<Rightarrow> pool_state \<Rightarrow> crypto_buffer option \<times> pool_state" where
  "CRYPTO_BUFFER_alloc A addr len st =
     (case OPENSSL_malloc A sizeof_CRYPTO_BUFFER of
        None \<Rightarrow> (None, st)
      | Some _ \<Rightarrow>
          (case OPENSSL_malloc A len of
             None \<Rightarrow> if len \<noteq> 0 then (None, st)
                     else (Some \<lparr>buf_addr = addr, buf_data = [], buf_len = len, buf_pool = False\<rparr>,
                       st\<lparr>refs := (refs st)(addr \<mapsto> 1)\<rparr>)
           | Some d \<Rightarrow> (Some \<lparr>buf_addr = addr, buf_data = blk_body d, buf_len = len, buf_pool = False\<rparr>,
               st\<lparr>refs := (refs st)(addr \<mapsto> 1)\<rparr>)))"

definition CRYPTO_BUFFER_new_from_CBS :: "allocator \<Rightarrow> nat \<Rightarrow> (pool_state \<Rightarrow> pool_state) \<Rightarrow> cbs \<Rightarrow> bool \<Rightarrow>
    pool_state \<Rightarrow> (crypto_buffer option \<times> pool_state) option" where
  "CRYPTO_BUFFER_new_from_CBS A addr others cbs pool st = CRYPTO_BUFFER_new A addr others cbs (CBS_len cbs) pool st"

text \<open>
  Dropping a reference: \<open>None\<close> is the \<^verbatim>\<open>abort()\<close> of the reference counts, the access to a buffer
  that is not allocated, or a failed \<^verbatim>\<open>assert\<close> on the entry found in the pool.
\<close>

definition CRYPTO_BUFFER_free :: "allocator \<Rightarrow> crypto_buffer option \<Rightarrow> pool_state \<Rightarrow> pool_state option" where
  "CRYPTO_BUFFER_free A buf st =
     (case buf of
        None \<Rightarrow> Some st
      | Some buf \<Rightarrow>
          (case Option.bind (refs st (buf_addr buf)) CRYPTO_refcount_dec_and_test_zero of
             None \<Rightarrow> None
           | Some (zero, n) \<Rightarrow>
               if \<not> buf_pool buf
               then Some (st\<lparr>refs := (refs st)(buf_addr buf := (if zero then None else Some n))\<rparr>)
               else if \<not> zero then Some (st\<lparr>refs := (refs st)(buf_addr buf \<mapsto> n)\<rparr>)
               else case lh_delete A (bufs st) buf of
                      (found, lh) \<Rightarrow>
                        if found \<noteq> Some buf then None
                        else Some (st\<lparr>bufs := lh, refs := (refs st)(buf_addr buf := None)\<rparr>)))"

definition CRYPTO_BUFFER_up_ref :: "crypto_buffer \<Rightarrow> pool_state \<Rightarrow> pool_state" where
  "CRYPTO_BUFFER_up_ref buf st = take_reference buf st"

definition CRYPTO_BUFFER_data :: "crypto_buffer \<Rightarrow> byte list" where
  "CRYPTO_BUFFER_data buf = buf_data buf"

definition CRYPTO_BUFFER_len :: "crypto_buffer \<Rightarrow> size_t" where
  "CRYPTO_BUFFER_len buf = buf_len buf"

definition CRYPTO_BUFFER_init_CBS :: "crypto_buffer \<Rightarrow> cbs" where
  "CRYPTO_BUFFER_init_CBS buf = CBS_init (buf_data buf) (buf_len buf)"

section \<open>The table of the pool\<close>

definition buffer_key :: "crypto_buffer \<Rightarrow> size_t \<times> byte list" where
  "buffer_key b = (buf_len b, map ((!) (buf_data b)) [0..<buf_len b])"

lemma OPENSSL_hash32_key: "OPENSSL_hash32 p n = foldl (\<lambda>h x. (h XOR ucast x) * 16777619) 2166136261 (map ((!) p) [0..<n])"
  by (simp add: OPENSSL_hash32_def foldl_map)

interpretation pool: keyed_table CRYPTO_BUFFER_hash CRYPTO_BUFFER_cmp buffer_key
proof unfold_locales
  fix a b
  show "CRYPTO_BUFFER_cmp a b = 0 \<longleftrightarrow> buffer_key a = buffer_key b"
    by (auto simp: CRYPTO_BUFFER_cmp_def buffer_key_def OPENSSL_memcmp_eq_0)
  assume "buffer_key a = buffer_key b"
  then show "CRYPTO_BUFFER_hash a = CRYPTO_BUFFER_hash b"
    unfolding CRYPTO_BUFFER_hash_def OPENSSL_hash32_key buffer_key_def by (metis prod.inject)
qed

definition pooled :: "pool_state \<Rightarrow> crypto_buffer \<Rightarrow> bool" where
  "pooled st b \<longleftrightarrow> table buffer_key (bufs st) (buffer_key b) = Some b"

text \<open>
  The invariant: the table is one of buffers of this pool with their true length, every buffer in it is
  allocated with a positive count, and no two share an address.
\<close>

definition pool_ok :: "pool_state \<Rightarrow> bool" where
  "pool_ok st \<longleftrightarrow>
     lh_ok buffer_key (bufs st) \<and> hash (bufs st) = CRYPTO_BUFFER_hash \<and> comp (bufs st) = CRYPTO_BUFFER_cmp \<and>
     (\<forall>b. pooled st b \<longrightarrow> buf_pool b \<and> buf_len b = length (buf_data b) \<and> (\<exists>n. refs st (buf_addr b) = Some n \<and> n \<noteq> 0)) \<and>
     (\<forall>b c. pooled st b \<and> pooled st c \<and> buf_addr b = buf_addr c \<longrightarrow> b = c)"

lemma table_pooled:
  assumes "lh_ok key lh" "table key lh k = Some b" shows "key b = k"
  using assms by (simp add: table_Some_iff lh_ok_def)

lemma pool_lookup_key: "pool_ok st \<Longrightarrow> lh_retrieve (bufs st) b = table buffer_key (bufs st) (buffer_key b)"
  by (rule pool.retrieve_refines) (simp_all add: pool_ok_def)

lemma buffer_key_eq:
  "buf_len a = length (buf_data a) \<Longrightarrow> buf_len b = length (buf_data b) \<Longrightarrow>
    buffer_key a = buffer_key b \<longleftrightarrow> buf_data a = buf_data b"
  by (metis buffer_key_def map_nth prod.inject)

lemma CRYPTO_refcount_inc_pos: "n \<noteq> 0 \<Longrightarrow> CRYPTO_refcount_inc n \<noteq> 0"
  using unat_refcount_inc [of n] by (auto simp: unat_eq_0)

lemma take_reference_ok:
  assumes "pool_ok st" "pooled st b"
  shows "pool_ok (take_reference b st) \<and> pooled (take_reference b st) b"
proof -
  obtain n where n: "refs st (buf_addr b) = Some n" "n \<noteq> 0" using assms by (auto simp: pool_ok_def)
  have same: "bufs (take_reference b st) = bufs st" "pooled (take_reference b st) = pooled st"
    by (auto simp: take_reference_def pooled_def)
  from n have "\<exists>m. refs (take_reference b st) (buf_addr c) = Some m \<and> m \<noteq> 0" if "pooled st c" for c
    using assms(1) that CRYPTO_refcount_inc_pos [of n] by (auto simp: take_reference_def pool_ok_def)
  with assms show ?thesis by (simp add: pool_ok_def same)
qed

definition fresh :: "nat \<Rightarrow> pool_state \<Rightarrow> bool" where
  "fresh addr st \<longleftrightarrow> (\<forall>b. pooled st b \<longrightarrow> buf_addr b \<noteq> addr)"

lemma set_refs_ok:
  assumes "pool_ok st" "fresh addr st"
  shows "pool_ok (st\<lparr>refs := (refs st)(addr := r)\<rparr>) \<and> fresh addr (st\<lparr>refs := (refs st)(addr := r)\<rparr>)"
  using assms by (auto simp: pool_ok_def fresh_def pooled_def)

text \<open>What the other threads may do to the pool between the two critical sections.\<close>

definition well_behaved :: "nat \<Rightarrow> (pool_state \<Rightarrow> pool_state) \<Rightarrow> bool" where
  "well_behaved addr others \<longleftrightarrow>
     (\<forall>s. pool_ok s \<and> fresh addr s \<longrightarrow>
        pool_ok (others s) \<and> fresh addr (others s) \<and> refs (others s) addr = refs s addr \<and>
        num_items (bufs (others s)) + 1 < SIZE_LIMIT)"

lemma buffer_make_spec:
  assumes "malloc_spec A" "length data + 8 < SIZE_LIMIT" "buffer_make A addr data (length data) pool = Some buf"
  shows "buf = \<lparr>buf_addr = addr, buf_data = data, buf_len = length data, buf_pool = pool\<rparr>"
  using assms OPENSSL_memdup_copy [OF assms(1,2), of data]
  by (auto simp: buffer_make_def split: option.splits if_splits)

text \<open>The second critical section never fails its assertion, and displaces no buffer of the pool.\<close>

lemma pool_insert_effect:
  assumes ok: "pool_ok st" and fr: "fresh (buf_addr b) st" and b: "buf_pool b" "buf_len b = length (buf_data b)"
    and one: "refs st (buf_addr b) = Some n" "n \<noteq> 0" and room: "num_items (bufs st) + 1 < SIZE_LIMIT"
  shows "\<exists>r st'. pool_insert A b st = Some (r, st') \<and> pool_ok st' \<and> (case r of
      None \<Rightarrow> OPENSSL_malloc A sizeof_LHASH_ITEM = None \<and> st' = st\<lparr>refs := (refs st)(buf_addr b := None)\<rparr>
    | Some c \<Rightarrow> pooled st' c \<and> buf_data c = buf_data b \<and>
        (if pooled st c then st' = (take_reference c st)\<lparr>refs := (refs (take_reference c st))(buf_addr b := None)\<rparr>
         else c = b \<and> refs st' = refs st \<and> (\<forall>x. pooled st' x \<longleftrightarrow> x = b \<or> pooled st x) \<and> (\<forall>x. pooled st x \<longrightarrow> buf_data x \<noteq> buf_data b)))"
proof (cases "table buffer_key (bufs st) (buffer_key b)")
  case (Some d)
  have dk: "buffer_key d = buffer_key b" using ok Some by (auto simp: pool_ok_def intro: table_pooled)
  with Some have pd: "pooled st d" by (simp add: pooled_def)
  then have "buf_len d = length (buf_data d)" using ok by (simp add: pool_ok_def)
  then have dd: "buf_data d = buf_data b" using b(2) dk by (simp add: buffer_key_eq)
  have ta: "pool_ok (take_reference d st)" "pooled (take_reference d st) d"
    using take_reference_ok [OF ok pd] by simp_all
  have fr': "fresh (buf_addr b) (take_reference d st)" using fr by (simp add: fresh_def pooled_def take_reference_def)
  have "pool_insert A b st = Some (Some d, (take_reference d st)\<lparr>refs := (refs (take_reference d st))(buf_addr b := None)\<rparr>)"
    using Some by (simp add: pool_insert_def pool_lookup_key [OF ok])
  then show ?thesis using set_refs_ok [OF ta(1) fr', of None] pd dd ta(2) by (simp add: pooled_def)
next
  case None
  obtain x lh where li: "lh_insert A (bufs st) b = (x, lh)" by (rule prod.exhaust)
  note laws = ok [unfolded pool_ok_def]
  have lok: "lh_ok buffer_key (bufs st)" "hash (bufs st) = CRYPTO_BUFFER_hash" "comp (bufs st) = CRYPTO_BUFFER_cmp"
    using laws by simp_all
  note spec = pool.insert_refines [OF lok room li]
  show ?thesis
  proof (cases x)
    case None
    with spec have l: "lh = bufs st" "OPENSSL_malloc A sizeof_LHASH_ITEM = None" by simp_all
    then have "pool_insert A b st = Some (None, st\<lparr>refs := (refs st)(buf_addr b := None)\<rparr>)"
      using None li \<open>table buffer_key (bufs st) (buffer_key b) = None\<close> by (simp add: pool_insert_def pool_lookup_key [OF ok])
    with set_refs_ok [OF ok fr, of None] l(2) show ?thesis by simp
  next
    case (Some old)
    with spec have tab: "table buffer_key lh = (table buffer_key (bufs st))(buffer_key b \<mapsto> b)" "old = None"
      and lh: "lh_ok buffer_key lh" "hash lh = CRYPTO_BUFFER_hash" "comp lh = CRYPTO_BUFFER_cmp"
      using None by simp_all
    let ?st = "st\<lparr>bufs := lh\<rparr>"
    have ins: "pool_insert A b st = Some (Some b, ?st)"
      using li Some None tab(2) by (simp add: pool_insert_def pool_lookup_key [OF ok])
    have p: "pooled ?st c \<longleftrightarrow> c = b \<or> pooled st c" for c
      using None by (auto simp: pooled_def tab(1))
    have "pool_ok ?st" unfolding pool_ok_def p using laws lh b one fr by (auto simp: fresh_def)
    moreover have "\<not> pooled st b" using fr by (auto simp: fresh_def)
    moreover have "buf_data c \<noteq> buf_data b" if c: "pooled st c" for c
    proof
      assume "buf_data c = buf_data b"
      then have "buffer_key c = buffer_key b" using c laws b(2) by (simp add: buffer_key_eq)
      with c None show False by (simp add: pooled_def)
    qed
    ultimately show ?thesis unfolding ins by (simp add: p)
  qed
qed

section \<open>Properties\<close>

lemma pooled_unique:
  assumes "pool_ok st" "pooled st b" "pooled st c" "buf_data c = buf_data b" shows "c = b"
proof -
  have "buf_len b = length (buf_data b)" "buf_len c = length (buf_data c)"
    using assms(1-3) by (simp_all add: pool_ok_def)
  with assms(4) have "buffer_key c = buffer_key b" by (simp add: buffer_key_eq)
  with assms(2,3) show ?thesis by (simp add: pooled_def)
qed

lemma pool_lookup_tmp:
  assumes ok: "pool_ok st"
  shows "pool_lookup data (length data) st = (r, st') \<Longrightarrow>
    (case r of None \<Rightarrow> st' = st \<and> (\<forall>b. pooled st b \<longrightarrow> buf_data b \<noteq> data)
     | Some d \<Rightarrow> pooled st d \<and> buf_data d = data \<and> st' = take_reference d st)"
proof -
  let ?tmp = "\<lparr>buf_addr = 0, buf_data = data, buf_len = length data, buf_pool = False\<rparr>"
  assume l: "pool_lookup data (length data) st = (r, st')"
  have k: "buffer_key b = buffer_key ?tmp \<longleftrightarrow> buf_data b = data" if "pooled st b" for b
    using ok that by (simp add: pool_ok_def buffer_key_eq)
  show ?thesis
  proof (cases "table buffer_key (bufs st) (buffer_key ?tmp)")
    case None
    then have "r = None" "st' = st" using l by (simp_all add: pool_lookup_def Let_def pool_lookup_key [OF ok])
    moreover have "buf_data b \<noteq> data" if "pooled st b" for b using None k [OF that] that by (auto simp: pooled_def)
    ultimately show ?thesis by simp
  next
    case (Some d)
    have "buffer_key d = buffer_key ?tmp" using ok Some by (auto simp: pool_ok_def intro: table_pooled)
    moreover from this Some have "pooled st d" by (simp add: pooled_def)
    moreover have "r = Some d" "st' = take_reference d st"
      using l Some by (simp_all add: pool_lookup_def Let_def pool_lookup_key [OF ok])
    ultimately show ?thesis using k [of d] by simp
  qed
qed

lemma buffer_make_None:
  assumes "malloc_spec A" "length data + 8 < SIZE_LIMIT" "buffer_make A addr data (length data) pool = None"
  shows "\<exists>n. A n = None"
proof (rule ccontr)
  assume "\<not> ?thesis"
  then have A: "A n \<noteq> None" for n by simp
  have m: "OPENSSL_malloc A n \<noteq> None" for n using A [of "size_wrap (n + 8)"] by (auto simp: OPENSSL_malloc_def)
  have "OPENSSL_memdup A data (length data) \<noteq> None \<or> length data = 0"
    using m [of "length data"] by (auto simp: OPENSSL_memdup_def split: option.splits)
  then show False using assms(3) m [of 32] m [of "length data"] 
    by (auto simp: buffer_make_def split: option.splits if_splits simp del: not_None_eq)
qed

text \<open>
  The result \<open>b\<close> and the final state, when other threads turn the pool into \<open>mid\<close> between the two critical sections.
\<close>

definition interned :: "pool_state \<Rightarrow> pool_state \<Rightarrow> nat \<Rightarrow> byte list \<Rightarrow> crypto_buffer \<Rightarrow> pool_state \<Rightarrow> bool" where
  "interned st mid addr data b st' \<longleftrightarrow>
     pooled st' b \<and> buf_data b = data \<and> (\<forall>c. pooled st' c \<and> buf_data c = data \<longrightarrow> c = b) \<and>
     (if pooled st b then st' = take_reference b st
      else if pooled mid b then st' = (take_reference b mid)\<lparr>refs := (refs (take_reference b mid))(addr := None)\<rparr>
      else buf_addr b = addr \<and> refs st' addr = Some 1 \<and> refs st' = refs mid \<and> (\<forall>c. pooled st' c \<longleftrightarrow> c = b \<or> pooled mid c) \<and>
        (\<forall>c. pooled st c \<or> pooled mid c \<longrightarrow> buf_data c \<noteq> data))"

lemma interned_new:
  assumes "interned st mid addr data b st'" and new: "\<not> pooled st b" "\<not> pooled mid b"
  shows "pooled st' b \<and> buf_data b = data \<and> refs st' addr = Some 1"
  using assms(1) unfolding interned_def if_not_P [OF new(1)] if_not_P [OF new(2)] by blast

text \<open>
  C28. \<^verbatim>\<open>CRYPTO_BUFFER_new\<close> with a pool interns, whatever other threads do between its two critical sections (as long
  as they keep the pool's invariant). Its assertion holds. A buffer that was in the pool with these bytes, at the first
  look or put there meanwhile by another thread, is returned with one more reference, the pool is as it was and the new
  object is released; otherwise the new buffer with one reference joins the pool and no buffer leaves it. So the
  result is the one buffer of the pool with these bytes. The call fails only when memory is refused, and then leaves
  the pool as it was.
\<close>

theorem CRYPTO_BUFFER_new_interns:
  assumes ok: "pool_ok st" "fresh addr st" and others: "well_behaved addr others"
    and mem: "malloc_spec A" "length data + 8 < SIZE_LIMIT"
    and mid: "mid = others (st\<lparr>refs := (refs st)(addr \<mapsto> 1)\<rparr>)"
  shows "\<exists>r st'. CRYPTO_BUFFER_new A addr others data (length data) True st = Some (r, st') \<and> pool_ok st' \<and> (case r of
      None \<Rightarrow> (\<exists>n. A n = None) \<and> (st' = st \<or> st' = mid\<lparr>refs := (refs mid)(addr := None)\<rparr>)
    | Some b \<Rightarrow> interned st mid addr data b st')"
proof (cases "pool_lookup data (length data) st")
  case (Pair r0 st0)
  note look = pool_lookup_tmp [OF ok(1) Pair]
  show ?thesis
  proof (cases r0)
    case (Some d)
    then have d: "pooled st d" "buf_data d = data" "st0 = take_reference d st" using look by simp_all
    have "CRYPTO_BUFFER_new A addr others data (length data) True st = Some (Some d, st0)"
      by (simp add: CRYPTO_BUFFER_new_def Pair Some)
    then show ?thesis using take_reference_ok [OF ok(1) d(1)] pooled_unique [of st0 d] d by (auto simp: interned_def)
  next
    case None
    then have n: "st0 = st" "\<forall>b. pooled st b \<longrightarrow> buf_data b \<noteq> data" using look by simp_all
    show ?thesis
    proof (cases "buffer_make A addr data (length data) True")
      case None
      then have "CRYPTO_BUFFER_new A addr others data (length data) True st = Some (None, st)"
        using \<open>r0 = None\<close> n(1) by (simp add: CRYPTO_BUFFER_new_def Pair)
      then show ?thesis using ok(1) buffer_make_None [OF mem None] by simp
    next
      case (Some b)
      have b: "b = \<lparr>buf_addr = addr, buf_data = data, buf_len = length data, buf_pool = True\<rparr>"
        using buffer_make_spec [OF mem Some] .
      have "pool_ok (st\<lparr>refs := (refs st)(addr \<mapsto> 1)\<rparr>) \<and> fresh addr (st\<lparr>refs := (refs st)(addr \<mapsto> 1)\<rparr>)"
        using set_refs_ok [OF ok, of "Some 1"] by simp
      with others have o: "pool_ok mid" "fresh addr mid" "refs mid addr = Some 1" "num_items (bufs mid) + 1 < SIZE_LIMIT"
        by (simp_all add: well_behaved_def mid)
      have f: "fresh (buf_addr b) mid" "buf_pool b" "buf_len b = length (buf_data b)" "refs mid (buf_addr b) = Some 1"
        using o(2,3) by (simp_all add: b)
      have call: "CRYPTO_BUFFER_new A addr others data (length data) True st = pool_insert A b mid"
        using \<open>r0 = None\<close> n(1) Some by (simp add: CRYPTO_BUFFER_new_def Pair mid)
      obtain r st' where e: "pool_insert A b mid = Some (r, st')" "pool_ok st'" "case r of
          None \<Rightarrow> OPENSSL_malloc A sizeof_LHASH_ITEM = None \<and> st' = mid\<lparr>refs := (refs mid)(buf_addr b := None)\<rparr>
        | Some c \<Rightarrow> pooled st' c \<and> buf_data c = buf_data b \<and>
            (if pooled mid c then st' = (take_reference c mid)\<lparr>refs := (refs (take_reference c mid))(buf_addr b := None)\<rparr>
             else c = b \<and> refs st' = refs mid \<and> (\<forall>x. pooled st' x \<longleftrightarrow> x = b \<or> pooled mid x) \<and> (\<forall>x. pooled mid x \<longrightarrow> buf_data x \<noteq> buf_data b))"
        using pool_insert_effect [OF o(1) f one_neq_zero o(4)] by blast
      have bd: "buf_data b = data" "buf_addr b = addr" by (simp_all add: b)
      show ?thesis
      proof (cases r)
        case None
        then have "A (size_wrap (sizeof_LHASH_ITEM + 8)) = None" using e(3) by (simp add: OPENSSL_malloc_def split: option.splits if_splits)
        then show ?thesis using e None unfolding call bd by auto
      next
        case (Some c)
        note c = e(3) [unfolded Some option.case bd]
        have st: "pooled st' c" "buf_data c = data" using c by blast+
        then have old: "\<not> pooled st c" using n(2) by blast
        have u: "\<forall>x. pooled st' x \<and> buf_data x = data \<longrightarrow> x = c" using pooled_unique [OF e(2) st(1)] st(2) by simp
        have "interned st mid addr data c st'"
        proof (cases "pooled mid c")
          case True
          then have "st' = (take_reference c mid)\<lparr>refs := (refs (take_reference c mid))(addr := None)\<rparr>" using c by simp
          then show ?thesis unfolding interned_def if_not_P [OF old] if_P [OF True] using st u by blast
        next
          case False
          then have s: "c = b" "refs st' = refs mid" "\<forall>x. pooled st' x \<longleftrightarrow> x = b \<or> pooled mid x" "\<forall>x. pooled mid x \<longrightarrow> buf_data x \<noteq> data"
            using c by simp_all
          have "buf_addr c = addr" "refs st' addr = Some 1" "\<forall>x. pooled st' x \<longleftrightarrow> x = c \<or> pooled mid x" using s o(3) bd(2) by simp_all
          then show ?thesis unfolding interned_def if_not_P [OF old] if_not_P [OF False] using st u s(2,4) n(2) by blast
        qed
        then show ?thesis unfolding call e(1) Some using e(2) by auto
      qed
    qed
  qed
qed

definition empty_pool :: pool_state where
  "empty_pool = \<lparr>bufs = the (lh_new (\<lambda>n. Some (replicate n 0)) CRYPTO_BUFFER_hash CRYPTO_BUFFER_cmp), refs = \<lambda>_. None\<rparr>"

lemma empty_pool_ok: "pool_ok empty_pool \<and> fresh addr empty_pool \<and> num_items (bufs empty_pool) = 0"
proof -
  obtain lh where lh: "lh_new (\<lambda>n. Some (replicate n (0 :: byte))) CRYPTO_BUFFER_hash CRYPTO_BUFFER_cmp = Some lh"
    using lh_new_total [OF replicate_malloc] by blast
  have "num_items lh = 0" using lh by (auto simp: lh_new_def split: option.splits)
  with pool.new_ok [OF lh] lh show ?thesis by (simp add: empty_pool_def pool_ok_def pooled_def fresh_def)
qed

text \<open>Other threads that drop and insert nothing, in a pool that is not full.\<close>

definition idle :: "pool_state \<Rightarrow> pool_state" where
  "idle s = (if num_items (bufs s) + 1 < SIZE_LIMIT then s else s\<lparr>bufs := bufs empty_pool\<rparr>)"

lemma idle_well_behaved: "well_behaved addr idle"
  using empty_pool_ok by (auto simp: well_behaved_def idle_def pool_ok_def pooled_def fresh_def empty_pool_def)

theorem CRYPTO_BUFFER_new_interns_witness:
  "\<exists>b st'. CRYPTO_BUFFER_new (\<lambda>n. Some (replicate n 0)) 64 idle [1, 2, 3] 3 True empty_pool = Some (Some b, st') \<and>
     pooled st' b \<and> buf_data b = [1, 2, 3] \<and> refs st' 64 = Some 1"
proof -
  have A: "malloc_spec (\<lambda>n. Some (replicate n 0))" by (simp add: malloc_spec_def)
  let ?mid = "idle (empty_pool\<lparr>refs := (refs empty_pool)(64 \<mapsto> 1)\<rparr>)"
  have none: "\<not> pooled empty_pool c" for c using empty_pool_ok [of "buf_addr c"] by (auto simp: fresh_def)
  have "pooled ?mid = pooled empty_pool" by (intro ext) (simp add: idle_def pooled_def)
  then have none': "\<not> pooled ?mid c" for c using none by simp
  have l: "length [1, 2, 3 :: byte] + 8 < SIZE_LIMIT" "length [1, 2, 3 :: byte] = 3" by simp_all
  have e: "pool_ok empty_pool" "fresh 64 empty_pool" using empty_pool_ok by simp_all
  obtain r st' where r: "CRYPTO_BUFFER_new (\<lambda>n. Some (replicate n 0)) 64 idle [1, 2, 3] 3 True empty_pool = Some (r, st')"
    and cs: "case r of
      None \<Rightarrow> (\<exists>n. Some (replicate n (0 :: byte)) = None) \<and> (st' = empty_pool \<or> st' = ?mid\<lparr>refs := (refs ?mid)(64 := None)\<rparr>)
    | Some b \<Rightarrow> interned empty_pool ?mid 64 [1, 2, 3] b st'"
    using CRYPTO_BUFFER_new_interns [OF e idle_well_behaved A l(1) refl, unfolded l(2)] by blast
  obtain b where b: "r = Some b" using cs by (cases r) simp_all
  have "interned empty_pool ?mid 64 [1, 2, 3] b st'" using cs b by simp
  then show ?thesis using r b interned_new [OF _ none none'] by blast
qed

text \<open>
  C29. \<^verbatim>\<open>CRYPTO_BUFFER_free\<close> on a pooled buffer never aborts and its assertions hold: it drops one reference,
  and with the last one takes exactly this buffer out of the pool and releases it; a saturated
  count keeps the buffer for ever.
\<close>

theorem CRYPTO_BUFFER_free_releases:
  assumes ok: "pool_ok st" and p: "pooled st b" and n: "refs st (buf_addr b) = Some n"
  shows "\<exists>st'. CRYPTO_BUFFER_free A (Some b) st = Some st' \<and> pool_ok st' \<and>
    (if n = 1 then refs st' (buf_addr b) = None \<and> (\<forall>c. pooled st' c \<longleftrightarrow> pooled st c \<and> c \<noteq> b)
     else refs st' (buf_addr b) = Some (if n = CRYPTO_REFCOUNT_MAX then n else n - 1) \<and> pooled st' = pooled st)"
proof -
  note laws = ok [unfolded pool_ok_def]
  have b: "buf_pool b" "n \<noteq> 0" using laws p n by auto
  show ?thesis
  proof (cases "n = 1")
    case True
    obtain found lh where del: "lh_delete A (bufs st) b = (found, lh)" by (rule prod.exhaust)
    have "lh_ok buffer_key (bufs st)" "hash (bufs st) = CRYPTO_BUFFER_hash" "comp (bufs st) = CRYPTO_BUFFER_cmp"
      using laws by simp_all
    note spec = pool.delete_refines [OF this del]
    let ?st = "st\<lparr>bufs := lh, refs := (refs st)(buf_addr b := None)\<rparr>"
    have key: "buffer_key c = buffer_key b \<longleftrightarrow> c = b" if "pooled st c" for c
      using p that unfolding pooled_def by (metis option.inject)
    have pd: "pooled ?st c \<longleftrightarrow> pooled st c \<and> c \<noteq> b" for c
      using spec key [of c] by (auto simp: pooled_def)
    have "pool_ok ?st" unfolding pool_ok_def pd using laws spec p by auto
    moreover have "CRYPTO_BUFFER_free A (Some b) st = Some ?st"
      using del n b spec p True
      by (simp add: CRYPTO_BUFFER_free_def CRYPTO_refcount_dec_and_test_zero_def pooled_def)
    ultimately show ?thesis using True pd by auto
  next
    case False
    define m where "m = (if n = CRYPTO_REFCOUNT_MAX then n else n - 1)"
    let ?st = "st\<lparr>refs := (refs st)(buf_addr b \<mapsto> m)\<rparr>"
    have m: "CRYPTO_refcount_dec_and_test_zero n = Some (False, m)" "m \<noteq> 0"
      using b(2) False by (auto simp: CRYPTO_refcount_dec_and_test_zero_def m_def below_refcount_max Let_def)
    have same: "pooled ?st = pooled st" by (auto simp: pooled_def)
    have "pool_ok ?st" unfolding pool_ok_def same using laws m(2) by auto
    moreover have "CRYPTO_BUFFER_free A (Some b) st = Some ?st"
      using n b m by (simp add: CRYPTO_BUFFER_free_def)
    ultimately show ?thesis using False same by (auto simp: m_def)
  qed
qed

lemma insert_one_pooled:
  assumes "pool_ok st" "fresh (buf_addr b) st" "buf_pool b" "buf_len b = length (buf_data b)"
    and "refs st (buf_addr b) = Some n" "n \<noteq> 0" "num_items (bufs st) + 1 < SIZE_LIMIT" "\<forall>c. \<not> pooled st c"
  shows "\<exists>st'. pool_insert (\<lambda>n. Some (replicate n 0)) b st = Some (Some b, st') \<and> pool_ok st' \<and> pooled st' b \<and> refs st' = refs st"
proof -
  let ?A = "\<lambda>n. Some (replicate n (0 :: byte))"
  have m: "OPENSSL_malloc ?A sizeof_LHASH_ITEM \<noteq> None" using replicate_malloc [of 0 24] by simp
  obtain r st' where e: "pool_insert ?A b st = Some (r, st')" "pool_ok st'" "case r of
      None \<Rightarrow> OPENSSL_malloc ?A sizeof_LHASH_ITEM = None \<and> st' = st\<lparr>refs := (refs st)(buf_addr b := None)\<rparr>
    | Some c \<Rightarrow> pooled st' c \<and> buf_data c = buf_data b \<and>
        (if pooled st c then st' = (take_reference c st)\<lparr>refs := (refs (take_reference c st))(buf_addr b := None)\<rparr>
         else c = b \<and> refs st' = refs st \<and> (\<forall>x. pooled st' x \<longleftrightarrow> x = b \<or> pooled st x) \<and> (\<forall>x. pooled st x \<longrightarrow> buf_data x \<noteq> buf_data b))"
    using pool_insert_effect [OF assms(1-7), of ?A] by blast
  then obtain c where "r = Some c" using m by (cases r) auto
  then show ?thesis using e assms(8) by auto
qed

theorem CRYPTO_BUFFER_free_releases_witness:
  "\<exists>st b. pooled st b \<and> refs st (buf_addr b) = Some 1 \<and>
     (\<exists>st'. CRYPTO_BUFFER_free (\<lambda>n. Some (replicate n 0)) (Some b) st = Some st' \<and> refs st' (buf_addr b) = None)"
proof -
  let ?b = "\<lparr>buf_addr = 64, buf_data = [1, 2], buf_len = 2, buf_pool = True\<rparr>"
  let ?st = "empty_pool\<lparr>refs := (refs empty_pool)(64 \<mapsto> 1)\<rparr>"
  have "\<not> pooled empty_pool c" for c using empty_pool_ok [of "buf_addr c"] by (auto simp: fresh_def)
  then have "pool_ok ?st \<and> fresh 64 ?st \<and> (\<forall>c. \<not> pooled ?st c)"
    using set_refs_ok [of empty_pool 64 "Some 1"] empty_pool_ok [of 64] by (simp add: pooled_def)
  then obtain st' where st': "pool_ok st'" "pooled st' ?b" "refs st' = refs ?st"
    using insert_one_pooled [of ?st ?b 1] empty_pool_ok [of 64] by auto
  with CRYPTO_BUFFER_free_releases [of st' ?b 1 "\<lambda>n. Some (replicate n 0)"] show ?thesis
    by (intro exI [of _ st'] exI [of _ ?b]) auto
qed

end
