(* ===== verification/Comparison.thy ===== *)
theory Comparison
  imports Main
begin

text \<open>
  The contract of a C comparison function, as \<^verbatim>\<open>qsort\<close> and the sorted containers rely on it: the sign
  of the result is a total preorder. The clients are \<open>Stack\<close> and \<open>Cbb_Set\<close>; the latter provides
  \<^verbatim>\<open>compare_set_of_element\<close> as an instance.
\<close>

locale comparison =
  fixes cmp :: "'p \<Rightarrow> 'p \<Rightarrow> int"
  assumes cmp_swap: "cmp x y < 0 \<longleftrightarrow> 0 < cmp y x"
    and cmp_trans: "cmp x y \<le> 0 \<Longrightarrow> cmp y z \<le> 0 \<Longrightarrow> cmp x z \<le> 0"
begin

lemma cmp_refl [simp]: "cmp x x = 0"
  using cmp_swap [of x x] by auto

lemma cmp_eq_sym: "cmp x y = 0 \<longleftrightarrow> cmp y x = 0"
  using cmp_swap [of x y] cmp_swap [of y x] by auto

lemma cmp_le_flip: "cmp x y \<le> 0 \<longleftrightarrow> 0 \<le> cmp y x"
  using cmp_swap [of y x] by auto

lemma cmp_above: "0 < cmp p y \<Longrightarrow> cmp x y \<le> 0 \<Longrightarrow> 0 < cmp p x"
  using cmp_trans [of p x y] by (meson not_le)

lemma cmp_below: "cmp p x < 0 \<Longrightarrow> cmp x y \<le> 0 \<Longrightarrow> cmp p y < 0"
  using cmp_trans [of x y p] cmp_swap [of p x] cmp_swap [of p y] cmp_le_flip by (metis not_le)

end

text \<open>What the C library documents of \<^verbatim>\<open>qsort\<close>: with such a comparison, a sorted permutation.\<close>

definition qsort_spec :: "(('p \<Rightarrow> 'p \<Rightarrow> int) \<Rightarrow> 'p list \<Rightarrow> 'p list) \<Rightarrow> bool" where
  "qsort_spec qsort \<longleftrightarrow>
     (\<forall>cmp xs. length (qsort cmp xs) = length xs \<and>
        (comparison cmp \<longrightarrow> (\<forall>x. count_list (qsort cmp xs) x = count_list xs x) \<and>
           sorted_wrt (\<lambda>x y. cmp x y \<le> 0) (qsort cmp xs)))"

lemma qsort_specD:
  assumes "qsort_spec qsort"
  shows "length (qsort cmp xs) = length xs" "comparison cmp \<Longrightarrow> count_list (qsort cmp xs) x = count_list xs x"
    and "comparison cmp \<Longrightarrow> sorted_wrt (\<lambda>x y. cmp x y \<le> 0) (qsort cmp xs)"
  using assms unfolding qsort_spec_def by blast+

text \<open>An insertion sort is one such function.\<close>

fun sort_insert :: "('p \<Rightarrow> 'p \<Rightarrow> int) \<Rightarrow> 'p \<Rightarrow> 'p list \<Rightarrow> 'p list" where
  "sort_insert cmp x [] = [x]"
| "sort_insert cmp x (y # ys) = (if cmp x y \<le> 0 then x # y # ys else y # sort_insert cmp x ys)"

definition insertion_sort :: "('p \<Rightarrow> 'p \<Rightarrow> int) \<Rightarrow> 'p list \<Rightarrow> 'p list" where
  "insertion_sort cmp xs = foldr (sort_insert cmp) xs []"

lemma count_sort_insert: "count_list (sort_insert cmp x ys) z = count_list (x # ys) z"
  by (induction ys) auto

lemma set_sort_insert: "set (sort_insert cmp x ys) = insert x (set ys)"
  by (induction ys) auto

lemma length_sort_insert: "length (sort_insert cmp x ys) = Suc (length ys)"
  by (induction ys) auto

lemma sorted_sort_insert:
  assumes "comparison cmp" "sorted_wrt (\<lambda>x y. cmp x y \<le> 0) ys"
  shows "sorted_wrt (\<lambda>x y. cmp x y \<le> 0) (sort_insert cmp x ys)"
  using assms(2)
proof (induction ys)
  case (Cons y ys)
  have swap: "\<not> cmp x y \<le> 0 \<Longrightarrow> cmp y x \<le> 0" using comparison.cmp_swap [OF assms(1), of y x] by simp
  have "cmp x z \<le> 0" if "cmp x y \<le> 0" "cmp y z \<le> 0" for z using comparison.cmp_trans [OF assms(1) that] .
  with Cons swap show ?case by (auto simp: set_sort_insert)
qed simp

lemma insertion_sort_spec: "qsort_spec (insertion_sort :: ('p \<Rightarrow> 'p \<Rightarrow> int) \<Rightarrow> 'p list \<Rightarrow> 'p list)"
proof -
  have "length (insertion_sort cmp xs) = length xs" for cmp and xs :: "'p list"
    by (induction xs) (simp_all add: insertion_sort_def length_sort_insert)
  moreover have "count_list (insertion_sort cmp xs) x = count_list xs x" for cmp x and xs :: "'p list"
    by (induction xs) (simp_all add: insertion_sort_def count_sort_insert)
  moreover have "sorted_wrt (\<lambda>x y. cmp x y \<le> 0) (insertion_sort cmp xs)" if "comparison cmp" for cmp and xs :: "'p list"
    using that by (induction xs) (simp_all add: insertion_sort_def sorted_sort_insert)
  ultimately show ?thesis by (simp add: qsort_spec_def)
qed

end
