(* ===== verification/Stack.thy ===== *)
theory Stack
  imports Mem Comparison
begin

text \<open>
  Model of \<^verbatim>\<open>crypto/stack/stack.c\<close>, the growable array of pointers. A pointer is an \<open>option\<close>,
  with \<open>None\<close> for \<^verbatim>\<open>NULL\<close>; an argument of type \<^verbatim>\<open>_STACK *\<close> that may be \<^verbatim>\<open>NULL\<close> is an \<open>option\<close>
  too. \<open>data\<close> is the whole allocation, of which the first \<open>num\<close> entries are the elements; \<open>u\<close> gives the
  contents of memory that \<^verbatim>\<open>OPENSSL_realloc\<close> adds. The C library's \<^verbatim>\<open>qsort\<close> is a parameter.
\<close>

section \<open>State and operations\<close>

type_synonym 'a ptr = "'a option"

record 'a stack =
  num :: size_t
  data :: "'a ptr list"
  sorted_flag :: bool
  num_alloc :: size_t
  sk_comp :: "('a ptr \<Rightarrow> 'a ptr \<Rightarrow> int) option"

abbreviation (input) kMinSize :: nat where "kMinSize \<equiv> 4"
abbreviation (input) sizeof_STACK :: nat where "sizeof_STACK \<equiv> 40"
abbreviation (input) sizeof_ptr :: nat where "sizeof_ptr \<equiv> 8"

definition sk_new :: "allocator \<Rightarrow> ('a ptr \<Rightarrow> 'a ptr \<Rightarrow> int) option \<Rightarrow> 'a stack option" where
  "sk_new A cmp =
     (case OPENSSL_malloc A sizeof_STACK of
        None \<Rightarrow> None
      | Some _ \<Rightarrow>
          (case OPENSSL_malloc A (sizeof_ptr * kMinSize) of
             None \<Rightarrow> None
           | Some _ \<Rightarrow> Some \<lparr>num = 0, data = replicate kMinSize None, sorted_flag = False, num_alloc = kMinSize, sk_comp = cmp\<rparr>))"

definition sk_new_null :: "allocator \<Rightarrow> 'a stack option" where
  "sk_new_null A = sk_new A None"

definition sk_num :: "'a stack option \<Rightarrow> size_t" where
  "sk_num sk = (case sk of None \<Rightarrow> 0 | Some sk \<Rightarrow> num sk)"

definition sk_zero :: "'a stack option \<Rightarrow> 'a stack option" where
  "sk_zero sk =
     (case sk of
        None \<Rightarrow> None
      | Some sk \<Rightarrow>
          if num sk = 0 then Some sk
          else Some (sk\<lparr>data := replicate (num sk) None @ drop (num sk) (data sk), num := 0, sorted_flag := False\<rparr>))"

definition sk_value :: "'a stack option \<Rightarrow> size_t \<Rightarrow> 'a ptr" where
  "sk_value sk i = (case sk of None \<Rightarrow> None | Some sk \<Rightarrow> if i \<ge> num sk then None else data sk ! i)"

definition sk_set :: "'a stack option \<Rightarrow> size_t \<Rightarrow> 'a ptr \<Rightarrow> 'a ptr \<times> 'a stack option" where
  "sk_set sk i value =
     (case sk of
        None \<Rightarrow> (None, None)
      | Some sk \<Rightarrow> if i \<ge> num sk then (None, Some sk) else (value, Some (sk\<lparr>data := (data sk)[i := value]\<rparr>)))"

text \<open>The elements handed to the free function, in order.\<close>

definition sk_pop_free_ex :: "'a stack option \<Rightarrow> 'a list" where
  "sk_pop_free_ex sk =
     (case sk of
        None \<Rightarrow> []
      | Some sk \<Rightarrow> [the (data sk ! i). i \<leftarrow> [0..<num sk], data sk ! i \<noteq> None])"

definition realloc_ptrs :: "allocator \<Rightarrow> (nat \<Rightarrow> 'a ptr) \<Rightarrow> 'a ptr list \<Rightarrow> size_t \<Rightarrow> 'a ptr list option" where
  "realloc_ptrs A u old sz =
     (case OPENSSL_malloc A sz of
        None \<Rightarrow> None
      | Some _ \<Rightarrow> Some (map (\<lambda>i. if i < length old then old ! i else u i) [0..<sz div sizeof_ptr]))"

text \<open>\<^verbatim>\<open>memmove\<close> of \<open>n\<close> entries within the array.\<close>

definition move_ptrs :: "'a ptr list \<Rightarrow> nat \<Rightarrow> nat \<Rightarrow> nat \<Rightarrow> 'a ptr list" where
  "move_ptrs d dst src n = take dst d @ take n (drop src d) @ drop (dst + n) d"

text \<open>The growth step of \<^verbatim>\<open>sk_insert\<close>; \<open>None\<close> where it returns 0.\<close>

definition sk_grow :: "allocator \<Rightarrow> (nat \<Rightarrow> 'a ptr) \<Rightarrow> 'a stack \<Rightarrow> 'a stack option" where
  "sk_grow A u sk =
     (if num_alloc sk \<le> size_wrap (num sk + 1) then
        (let new_alloc = size_wrap (num_alloc sk * 2);
             alloc_size = size_wrap (new_alloc * sizeof_ptr);
             overflow = (new_alloc < num_alloc sk \<or> alloc_size div sizeof_ptr \<noteq> new_alloc);
             new_alloc = (if overflow then size_wrap (num_alloc sk + 1) else new_alloc);
             alloc_size = (if overflow then size_wrap (new_alloc * sizeof_ptr) else alloc_size)
         in if new_alloc < num_alloc sk \<or> alloc_size div sizeof_ptr \<noteq> new_alloc then None
            else case realloc_ptrs A u (data sk) alloc_size of
                   None \<Rightarrow> None
                 | Some d \<Rightarrow> Some (sk\<lparr>data := d, num_alloc := new_alloc\<rparr>))
      else Some sk)"

definition sk_insert :: "allocator \<Rightarrow> (nat \<Rightarrow> 'a ptr) \<Rightarrow> 'a stack option \<Rightarrow> 'a ptr \<Rightarrow> size_t \<Rightarrow> size_t \<times> 'a stack option" where
  "sk_insert A u sk p pos =
     (case sk of
        None \<Rightarrow> (0, None)
      | Some sk \<Rightarrow>
          (case sk_grow A u sk of
             None \<Rightarrow> (0, Some sk)
           | Some sk \<Rightarrow>
               let d = (if pos \<ge> num sk then (data sk)[num sk := p]
                        else (move_ptrs (data sk) (pos + 1) pos (num sk - pos))[pos := p]);
                   n = size_wrap (num sk + 1)
               in (n, Some (sk\<lparr>data := d, num := n, sorted_flag := False\<rparr>))))"

definition sk_delete :: "'a stack option \<Rightarrow> size_t \<Rightarrow> 'a ptr \<times> 'a stack option" where
  "sk_delete sk pos =
     (case sk of
        None \<Rightarrow> (None, None)
      | Some sk \<Rightarrow>
          if pos \<ge> num sk then (None, Some sk)
          else
            let ret = data sk ! pos;
                d = (if pos \<noteq> num sk - 1 then move_ptrs (data sk) pos (pos + 1) (num sk - pos - 1)
                     else data sk)
            in (ret, Some (sk\<lparr>data := d, num := num sk - 1\<rparr>)))"

definition sk_delete_ptr :: "'a stack option \<Rightarrow> 'a ptr \<Rightarrow> 'a ptr \<times> 'a stack option" where
  "sk_delete_ptr sk p =
     (case sk of
        None \<Rightarrow> (None, None)
      | Some s \<Rightarrow>
          (case find (\<lambda>i. data s ! i = p) [0..<num s] of
             None \<Rightarrow> (None, sk)
           | Some i \<Rightarrow> sk_delete sk i))"

definition sk_is_sorted :: "'a stack option \<Rightarrow> bool" where
  "sk_is_sorted sk = (case sk of None \<Rightarrow> True | Some sk \<Rightarrow> sorted_flag sk)"

text \<open>The binary search of \<^verbatim>\<open>sk_find\<close> on the half-open interval from \<open>lo\<close> to \<open>hi\<close>; \<open>r x\<close> compares the key with \<open>x\<close>.\<close>

function sk_bsearch :: "('a ptr \<Rightarrow> int) \<Rightarrow> 'a ptr list \<Rightarrow> size_t \<Rightarrow> size_t \<Rightarrow> size_t option" where
  "sk_bsearch r d lo hi =
     (if lo < hi then
        (let mid = lo + (hi - lo - 1) div 2
         in if r (d ! mid) > 0 then sk_bsearch r d (mid + 1) hi
            else if r (d ! mid) < 0 then sk_bsearch r d lo mid
            else if hi - lo = 1 then Some mid
            else sk_bsearch r d lo (mid + 1))
      else None)"
  by pat_completeness auto
termination
proof (relation "measure (\<lambda>(r, d, lo, hi). hi - lo)", goal_cases)
  case (2 r d lo hi mid)
  then show ?case by simp
next
  case (3 r d lo hi mid)
  then have "(hi - lo - 1) div 2 < hi - lo" by linarith
  with 3 show ?case by simp
next
  case (4 r d lo hi mid)
  then have "(hi - lo - 1) div 2 + 1 < hi - lo" by linarith
  with 4 show ?case by simp
qed simp

declare sk_bsearch.simps [simp del]

definition sk_find :: "'a stack option \<Rightarrow> 'a ptr \<Rightarrow> size_t option" where
  "sk_find sk p =
     (case sk of
        None \<Rightarrow> None
      | Some s \<Rightarrow>
          (case sk_comp s of
             None \<Rightarrow> find (\<lambda>i. data s ! i = p) [0..<num s]
           | Some cmp \<Rightarrow>
               if p = None then None
               else if \<not> sk_is_sorted sk then find (\<lambda>i. cmp p (data s ! i) = 0) [0..<num s]
               else sk_bsearch (cmp p) (data s) 0 (num s)))"

definition sk_shift :: "'a stack option \<Rightarrow> 'a ptr \<times> 'a stack option" where
  "sk_shift sk = (case sk of None \<Rightarrow> (None, None) | Some s \<Rightarrow> if num s = 0 then (None, sk) else sk_delete sk 0)"

definition sk_push :: "allocator \<Rightarrow> (nat \<Rightarrow> 'a ptr) \<Rightarrow> 'a stack \<Rightarrow> 'a ptr \<Rightarrow> size_t \<times> 'a stack option" where
  "sk_push A u sk p = sk_insert A u (Some sk) p (num sk)"

definition sk_pop :: "'a stack option \<Rightarrow> 'a ptr \<times> 'a stack option" where
  "sk_pop sk = (case sk of None \<Rightarrow> (None, None) | Some s \<Rightarrow> if num s = 0 then (None, sk) else sk_delete sk (num s - 1))"

definition sk_dup :: "allocator \<Rightarrow> (nat \<Rightarrow> 'a ptr) \<Rightarrow> 'a stack option \<Rightarrow> 'a stack option" where
  "sk_dup A u sk =
     (case sk of
        None \<Rightarrow> None
      | Some sk \<Rightarrow>
          (case sk_new A (sk_comp sk) of
             None \<Rightarrow> None
           | Some ret \<Rightarrow>
               (case realloc_ptrs A u (data ret) (size_wrap (sizeof_ptr * num_alloc sk)) of
                  None \<Rightarrow> None
                | Some s \<Rightarrow> Some (ret\<lparr>data := take (num sk) (data sk) @ drop (num sk) s, num := num sk,
                    sorted_flag := sorted_flag sk, num_alloc := num_alloc sk, sk_comp := sk_comp sk\<rparr>))))"

definition sk_sort :: "(('a ptr \<Rightarrow> 'a ptr \<Rightarrow> int) \<Rightarrow> 'a ptr list \<Rightarrow> 'a ptr list) \<Rightarrow> 'a stack option \<Rightarrow> 'a stack option" where
  "sk_sort qsort sk =
     (case sk of
        None \<Rightarrow> None
      | Some s \<Rightarrow>
          (case sk_comp s of
             None \<Rightarrow> sk
           | Some cmp \<Rightarrow>
               if sorted_flag s then sk
               else if num s \<ge> 2
                 then Some (s\<lparr>data := qsort cmp (take (num s) (data s)) @ drop (num s) (data s), sorted_flag := True\<rparr>)
                 else Some (s\<lparr>sorted_flag := True\<rparr>)))"

text \<open>\<open>same\<close> is the comparison of the two function pointers.\<close>

definition sk_set_cmp_func :: "bool \<Rightarrow> 'a stack \<Rightarrow> ('a ptr \<Rightarrow> 'a ptr \<Rightarrow> int) option \<Rightarrow>
    ('a ptr \<Rightarrow> 'a ptr \<Rightarrow> int) option \<times> 'a stack" where
  "sk_set_cmp_func same sk cmp =
     (sk_comp sk, (if same then sk else sk\<lparr>sorted_flag := False\<rparr>)\<lparr>sk_comp := cmp\<rparr>)"

text \<open>The loop of \<^verbatim>\<open>sk_deep_copy\<close> from index \<open>i\<close>: the array, or the copies freed after a failure.\<close>

function copy_ptrs :: "('a \<Rightarrow> 'a ptr) \<Rightarrow> 'a ptr list \<Rightarrow> nat \<Rightarrow> nat \<Rightarrow> 'a list + 'a ptr list" where
  "copy_ptrs copy d n i =
     (if i < n then
        (case d ! i of
           None \<Rightarrow> copy_ptrs copy d n (i + 1)
         | Some x \<Rightarrow>
             (case copy x of
                None \<Rightarrow> Inl [the (d ! j). j \<leftarrow> [0..<i], d ! j \<noteq> None]
              | Some y \<Rightarrow> copy_ptrs copy (d[i := Some y]) n (i + 1)))
      else Inr d)"
  by pat_completeness auto
termination
  by (relation "measure (\<lambda>(c, d, n, i). n - i)") auto

declare copy_ptrs.simps [simp del]

definition sk_deep_copy :: "allocator \<Rightarrow> (nat \<Rightarrow> 'a ptr) \<Rightarrow> 'a stack option \<Rightarrow> ('a \<Rightarrow> 'a ptr) \<Rightarrow> 'a stack option \<times> 'a list" where
  "sk_deep_copy A u sk copy =
     (case sk_dup A u sk of
        None \<Rightarrow> (None, [])
      | Some ret \<Rightarrow>
          (case copy_ptrs copy (data ret) (num ret) 0 of
             Inl freed \<Rightarrow> (None, freed)
           | Inr d \<Rightarrow> (Some (ret\<lparr>data := d\<rparr>), [])))"

section \<open>The list of the elements\<close>

definition elems :: "'a stack \<Rightarrow> 'a ptr list" where
  "elems sk = take (num sk) (data sk)"

text \<open>The invariant: the array has its length, which the byte count of its allocation expresses, and one entry is free.\<close>

definition stack_ok :: "'a stack \<Rightarrow> bool" where
  "stack_ok sk \<longleftrightarrow> length (data sk) = num_alloc sk \<and> num sk < num_alloc sk \<and> num_alloc sk * 8 < SIZE_LIMIT"

lemma length_elems [simp]: "stack_ok sk \<Longrightarrow> length (elems sk) = num sk"
  by (simp add: elems_def stack_ok_def)

lemma nth_elems: "stack_ok sk \<Longrightarrow> i < num sk \<Longrightarrow> data sk ! i = elems sk ! i"
  by (simp add: elems_def)

lemma sk_new_ok: "sk_new A cmp = Some sk \<Longrightarrow> stack_ok sk \<and> elems sk = [] \<and> \<not> sorted_flag sk \<and> sk_comp sk = cmp"
  by (auto simp: sk_new_def stack_ok_def elems_def split: option.splits)

lemma byte_count_check: "size_wrap (n * 8) div 8 = n \<longleftrightarrow> n * 8 < SIZE_LIMIT"
proof
  assume eq: "size_wrap (n * 8) div 8 = n"
  have "n * 8 = size_wrap (n * 8) div 8 * 8" by (simp only: eq)
  also have "\<dots> \<le> size_wrap (n * 8)" by (rule div_times_less_eq_dividend)
  also have "\<dots> < SIZE_LIMIT" by (rule size_wrap_less)
  finally show "n * 8 < SIZE_LIMIT" .
qed simp

lemma realloc_ptrs_spec:
  assumes "realloc_ptrs A u old (n * 8) = Some d" "length old \<le> n"
  shows "length d = n" "take (length old) d = old"
proof -
  have d: "d = map (\<lambda>i. if i < length old then old ! i else u i) [0..<n]"
    using assms(1) by (simp add: realloc_ptrs_def split: option.splits)
  then show "length d = n" by simp
  show "take (length old) d = old"
    using assms(2) by (intro nth_equalityI) (simp_all add: d)
qed

lemma sk_grow_spec:
  assumes ok: "stack_ok sk" and grow: "sk_grow A u sk = Some sk'"
  shows "stack_ok sk' \<and> num sk' + 1 < num_alloc sk' \<and> num sk' = num sk \<and> elems sk' = elems sk \<and>
    sk_comp sk' = sk_comp sk \<and> sorted_flag sk' = sorted_flag sk"
proof (cases "num_alloc sk \<le> size_wrap (num sk + 1)")
  case False
  moreover have "num sk + 1 < SIZE_LIMIT" using ok by (simp add: stack_ok_def)
  ultimately show ?thesis using grow ok by (auto simp: sk_grow_def)
next
  case True
  have small: "num sk + 1 < SIZE_LIMIT" "num_alloc sk * 2 < SIZE_LIMIT" "num_alloc sk + 1 < SIZE_LIMIT"
    using ok by (simp_all add: stack_ok_def)
  define over where "over = (size_wrap (num_alloc sk * 2 * 8) div 8 \<noteq> num_alloc sk * 2)"
  define n where "n = (if over then num_alloc sk + 1 else num_alloc sk * 2)"
  have "num_alloc sk + 1 \<le> n" using ok by (simp add: n_def stack_ok_def)
  have "sk_grow A u sk = (if size_wrap (n * 8) div 8 \<noteq> n then None else
      case realloc_ptrs A u (data sk) (size_wrap (n * 8)) of None \<Rightarrow> None | Some d \<Rightarrow> Some (sk\<lparr>data := d, num_alloc := n\<rparr>))"
    unfolding sk_grow_def Let_def size_wrap_small [OF small(2)] size_wrap_small [OF small(3)]
      n_def over_def
    by (cases "size_wrap (num_alloc sk * 2 * 8) div 8 = num_alloc sk * 2") (use True in simp_all)
  with grow obtain d where n8: "n * 8 < SIZE_LIMIT" and d: "realloc_ptrs A u (data sk) (n * 8) = Some d"
    and sk': "sk' = sk\<lparr>data := d, num_alloc := n\<rparr>"
    by (auto simp: byte_count_check split: if_splits option.splits)
  have "length (data sk) \<le> n" using ok \<open>num_alloc sk + 1 \<le> n\<close> by (simp add: stack_ok_def)
  note re = realloc_ptrs_spec [OF d this]
  have "take (num sk) d = take (num sk) (data sk)"
    using re ok by (metis stack_ok_def min.strict_order_iff take_take min.commute)
  with re n8 ok \<open>num_alloc sk + 1 \<le> n\<close> show ?thesis by (auto simp: sk' stack_ok_def elems_def)
qed

lemma sk_insert_spec:
  assumes ok: "stack_ok sk" and ins: "sk_insert A u (Some sk) p w = (n, r)"
  shows "(n = 0 \<and> r = Some sk) \<or>
    (\<exists>sk'. r = Some sk' \<and> n = num sk + 1 \<and> stack_ok sk' \<and> elems sk' = take w (elems sk) @ [p] @ drop w (elems sk) \<and>
       \<not> sorted_flag sk' \<and> sk_comp sk' = sk_comp sk)"
proof (cases "sk_grow A u sk")
  case None
  with ins show ?thesis by (simp add: sk_insert_def)
next
  case (Some g)
  note g = sk_grow_spec [OF ok Some]
  define d where "d = (if w \<ge> num g then (data g)[num g := p]
    else (move_ptrs (data g) (w + 1) w (num g - w))[w := p])"
  have "sk_insert A u (Some sk) p w =
      (size_wrap (num g + 1), Some (g\<lparr>data := d, num := size_wrap (num g + 1), sorted_flag := False\<rparr>))"
    by (simp only: sk_insert_def Let_def Some option.case d_def)
  moreover have "num g + 1 < SIZE_LIMIT" using g by (simp add: stack_ok_def)
  ultimately have r: "r = Some (g\<lparr>data := d, num := num g + 1, sorted_flag := False\<rparr>)" "n = num g + 1"
    using ins by simp_all
  have len: "num g + 1 < length (data g)" using g by (simp add: stack_ok_def)
  have d: "take (num g + 1) d = take w (elems g) @ [p] @ drop w (elems g) \<and> length d = length (data g)"
  proof (cases "w \<ge> num g")
    case True
    with len show ?thesis by (simp add: d_def elems_def take_Suc_conv_app_nth)
  next
    case False
    then have w: "w < num g" by simp
    have "take (w + 1) (data g) = take w (data g) @ [data g ! w]" using w len by (simp add: take_Suc_conv_app_nth)
    then have "d = take w (data g) @ p # take (num g - w) (drop w (data g)) @ drop (num g + 1) (data g)"
      using w len by (simp add: d_def move_ptrs_def list_update_append)
    moreover have "drop w (elems g) = take (num g - w) (drop w (data g))" "take w (elems g) = take w (data g)"
      using w by (simp_all add: elems_def drop_take min_def)
    ultimately show ?thesis using w len by (simp add: min_def Suc_diff_le) linarith
  qed
  have "stack_ok (g\<lparr>data := d, num := num g + 1, sorted_flag := False\<rparr>)" using g d by (simp add: stack_ok_def)
  moreover have "elems (g\<lparr>data := d, num := num g + 1, sorted_flag := False\<rparr>) = take (num g + 1) d"
    by (simp add: elems_def)
  ultimately show ?thesis using r g d by simp
qed

lemma sk_delete_spec:
  assumes ok: "stack_ok sk" and del: "sk_delete (Some sk) w = (x, r)" and w: "w < num sk"
  shows "\<exists>sk'. r = Some sk' \<and> x = elems sk ! w \<and> stack_ok sk' \<and> elems sk' = take w (elems sk) @ drop (Suc w) (elems sk) \<and>
    sorted_flag sk' = sorted_flag sk \<and> sk_comp sk' = sk_comp sk"
proof -
  define d where "d = (if w \<noteq> num sk - 1 then move_ptrs (data sk) w (w + 1) (num sk - w - 1) else data sk)"
  have r: "r = Some (sk\<lparr>data := d, num := num sk - 1\<rparr>)" "x = elems sk ! w"
    using del w by (simp_all add: sk_delete_def Let_def d_def elems_def)
  have len: "num sk < length (data sk)" using ok by (simp add: stack_ok_def)
  have "take (num sk - 1) d = take w (elems sk) @ drop (Suc w) (elems sk) \<and> length d = length (data sk)"
  proof (cases "w = num sk - 1")
    case True
    with w len show ?thesis by (simp add: d_def elems_def min_def)
  next
    case False
    then have "Suc w < num sk" using w by simp
    then obtain k where "num sk = Suc (Suc w + k)" using less_imp_Suc_add by blast
    then have k: "num sk = Suc w + Suc k" by simp
    have "d = take w (data sk) @ take (Suc k) (drop (Suc w) (data sk)) @ drop (Suc (w + k)) (data sk)"
      using False by (simp add: d_def move_ptrs_def k)
    moreover have "\<not> length (data sk) - Suc w \<le> Suc k" using len k by simp
    ultimately show ?thesis using len k by (simp add: elems_def drop_take min_def)
  qed
  moreover from this have "stack_ok (sk\<lparr>data := d, num := num sk - 1\<rparr>)" using ok w by (simp add: stack_ok_def) linarith
  ultimately show ?thesis using r by (simp add: elems_def)
qed

section \<open>Searching\<close>

text \<open>
  A search whose comparison runs from positive over zero to negative finds the first zero.
\<close>

definition descending :: "('a ptr \<Rightarrow> int) \<Rightarrow> 'a ptr list \<Rightarrow> nat \<Rightarrow> bool" where
  "descending r d n \<longleftrightarrow> (\<forall>i j. i < j \<and> j < n \<longrightarrow> (r (d ! j) > 0 \<longrightarrow> r (d ! i) > 0) \<and> (r (d ! i) < 0 \<longrightarrow> r (d ! j) < 0))"

lemma find_append: "find P (xs @ ys) = (case find P xs of None \<Rightarrow> find P ys | Some x \<Rightarrow> Some x)"
  by (induction xs) auto

lemma find_none: "\<forall>x \<in> set xs. \<not> P x \<Longrightarrow> find P xs = None"
  by (simp add: find_None_iff)

lemma sk_bsearch_find:
  "descending r d n \<Longrightarrow> hi \<le> n \<Longrightarrow> sk_bsearch r d lo hi = find (\<lambda>i. r (d ! i) = 0) [lo..<hi]"
proof (induction r d lo hi rule: sk_bsearch.induct)
  case (1 r d lo hi)
  show ?case
  proof (cases "lo < hi")
    case False
    then show ?thesis by (subst sk_bsearch.simps) simp
  next
    case True
    define mid where "mid = lo + (hi - lo - 1) div 2"
    have m: "lo \<le> mid" "mid < hi" using True by (auto simp: mid_def)
    have split: "[lo..<hi] = [lo..<Suc mid] @ [Suc mid..<hi]" "[lo..<Suc mid] = [lo..<mid] @ [mid]"
      using m by (metis Suc_leI le_SucI le_add_diff_inverse upt_add_eq_append, simp)
    note desc = "1.prems"(1) [unfolded descending_def, rule_format]
    have step: "sk_bsearch r d lo hi = (if r (d ! mid) > 0 then sk_bsearch r d (mid + 1) hi
        else if r (d ! mid) < 0 then sk_bsearch r d lo mid
        else if hi - lo = 1 then Some mid else sk_bsearch r d lo (mid + 1))"
      using True by (subst sk_bsearch.simps) (simp add: mid_def Let_def)
    consider "r (d ! mid) > 0" | "r (d ! mid) < 0" | "r (d ! mid) = 0" by linarith
    then show ?thesis
    proof cases
      case 1
      then have pos: "r (d ! i) > 0" if "i < Suc mid" for i
        using desc [of i mid] that m "1.prems"(2) by (cases "i = mid") auto
      have "find (\<lambda>i. r (d ! i) = 0) [lo..<Suc mid] = None"
      proof (rule find_none, rule ballI)
        fix i assume "i \<in> set [lo..<Suc mid]"
        with pos [of i] show "r (d ! i) \<noteq> 0" by (simp del: upt_Suc)
      qed
      then have "find (\<lambda>i. r (d ! i) = 0) [lo..<hi] = find (\<lambda>i. r (d ! i) = 0) [Suc mid..<hi]"
        by (simp only: split(1) find_append option.case)
      with step 1 "1.IH"(1) [OF True mid_def 1 "1.prems"] show ?thesis by simp
    next
      case 2
      then have neg: "r (d ! i) < 0" if "mid \<le> i" "i < hi" for i
        using desc [of mid i] that m "1.prems"(2) by (cases "i = mid") auto
      then have "find (\<lambda>i. r (d ! i) = 0) [mid..<hi] = None" by (intro find_none) force
      moreover have "[lo..<hi] = [lo..<mid] @ [mid..<hi]" using m by (metis le_add_diff_inverse less_imp_le upt_add_eq_append)
      ultimately have "find (\<lambda>i. r (d ! i) = 0) [lo..<hi] = find (\<lambda>i. r (d ! i) = 0) [lo..<mid]"
        by (simp add: find_append split: option.splits)
      moreover have "\<not> r (d ! mid) > 0" using 2 by simp
      ultimately show ?thesis
        using step 2 "1.IH"(2) [OF True mid_def _ 2 "1.prems"(1)] m "1.prems"(2) by simp
    next
      case 3
      then have hit: "find (\<lambda>i. r (d ! i) = 0) [lo..<Suc mid] \<noteq> None"
        using m(1) by (auto simp: find_None_iff)
      then have same: "find (\<lambda>i. r (d ! i) = 0) [lo..<hi] = find (\<lambda>i. r (d ! i) = 0) [lo..<Suc mid]"
        by (auto simp only: split(1) find_append split: option.splits)
      show ?thesis
      proof (cases "hi - lo = 1")
        case True
        then have "mid = lo" using m by linarith
        with step 3 same True show ?thesis by simp
      next
        case False
        from 3 have n: "\<not> r (d ! mid) > 0" "\<not> r (d ! mid) < 0" by simp_all
        have "Suc mid \<le> n" using m "1.prems"(2) by simp
        with step 3 same False "1.IH"(3) [OF True mid_def n False "1.prems"(1)] show ?thesis by simp
      qed
    qed
  qed
qed

text \<open>A stack marked as sorted is sorted by its comparison.\<close>

definition sorted_ok :: "'a stack \<Rightarrow> bool" where
  "sorted_ok sk \<longleftrightarrow> (sorted_flag sk \<longrightarrow>
     (\<forall>cmp. sk_comp sk = Some cmp \<longrightarrow> sorted_wrt (\<lambda>x y. cmp x y \<le> 0) (elems sk)))"

lemma sorted_descending:
  assumes "comparison cmp" "stack_ok sk" "sorted_wrt (\<lambda>x y. cmp x y \<le> 0) (elems sk)"
  shows "descending (cmp p) (data sk) (num sk)"
  unfolding descending_def
proof (intro allI impI)
  fix i j assume ij: "i < j \<and> j < num sk"
  then have "cmp (elems sk ! i) (elems sk ! j) \<le> 0"
    using assms(2,3) sorted_wrt_nth_less by (metis length_elems)
  then have "cmp (data sk ! i) (data sk ! j) \<le> 0"
    using ij assms(2) by (simp add: nth_elems)
  then show "(0 < cmp p (data sk ! j) \<longrightarrow> 0 < cmp p (data sk ! i)) \<and> (cmp p (data sk ! i) < 0 \<longrightarrow> cmp p (data sk ! j) < 0)"
    using comparison.cmp_above [OF assms(1)] comparison.cmp_below [OF assms(1)] by blast
qed

lemma sk_find_linear:
  assumes "stack_ok sk" "sorted_ok sk" "sk_comp sk = Some cmp" "comparison cmp" "p \<noteq> None"
  shows "sk_find (Some sk) p = find (\<lambda>i. cmp p (elems sk ! i) = 0) [0..<num sk]"
proof -
  have eq: "find (\<lambda>i. cmp p (data sk ! i) = 0) [0..<num sk] = find (\<lambda>i. cmp p (elems sk ! i) = 0) [0..<num sk]"
    by (rule find_cong) (simp_all add: nth_elems assms(1))
  show ?thesis
  proof (cases "sorted_flag sk")
    case True
    with assms(2,3) have "sorted_wrt (\<lambda>x y. cmp x y \<le> 0) (elems sk)" by (simp add: sorted_ok_def)
    from sk_bsearch_find [OF sorted_descending [OF assms(4,1) this, of p] order_refl, of 0]
    show ?thesis using True assms(3,5) by (auto simp: sk_find_def sk_is_sorted_def eq)
  next
    case False
    with assms(3,5) show ?thesis by (auto simp: sk_find_def sk_is_sorted_def eq)
  qed
qed

lemma find_upt_Some:
  "find P [0..<n] = Some i \<longleftrightarrow> i < n \<and> P i \<and> (\<forall>j < i. \<not> P j)"
  by (auto simp: find_Some_iff)

section \<open>Properties\<close>

text \<open>
  Insertion at any position and deletion are those of lists, and keep the invariant of the array:
  \<^verbatim>\<open>sk_insert\<close> puts the pointer before the element at the position (at the end for a position past it)
  or fails without effect, \<^verbatim>\<open>sk_delete\<close> returns the element it takes out, and deleting what was
  just inserted gives the elements back.
\<close>

theorem sk_insert_delete:
  assumes "stack_ok sk" "sk_insert A u (Some sk) p w = (n, r)"
  shows "(n = 0 \<and> r = Some sk) \<or>
    (\<exists>sk' sk''. r = Some sk' \<and> n = length (elems sk) + 1 \<and> stack_ok sk' \<and>
       elems sk' = take w (elems sk) @ [p] @ drop w (elems sk) \<and>
       sk_delete r (min w (num sk)) = (p, Some sk'') \<and> stack_ok sk'' \<and> elems sk'' = elems sk)"
  using sk_insert_spec [OF assms]
proof
  assume "\<exists>sk'. r = Some sk' \<and> n = num sk + 1 \<and> stack_ok sk' \<and> elems sk' = take w (elems sk) @ [p] @ drop w (elems sk) \<and>
    \<not> sorted_flag sk' \<and> sk_comp sk' = sk_comp sk"
  then obtain sk' where i: "r = Some sk'" "n = num sk + 1" "stack_ok sk'"
    "elems sk' = take w (elems sk) @ [p] @ drop w (elems sk)" by blast
  define k where "k = min w (num sk)"
  have n': "num sk' = num sk + 1"
    using length_elems [OF i(3)] length_elems [OF assms(1)] by (simp add: i(4))
  have tk: "take w (elems sk) = take k (elems sk)" "drop w (elems sk) = drop k (elems sk)"
    using length_elems [OF assms(1)] by (auto simp: k_def min_def)
  obtain x r2 where d: "sk_delete (Some sk') k = (x, r2)" by (rule prod.exhaust)
  have "k < num sk'" "k \<le> length (elems sk)" using length_elems [OF assms(1)] by (auto simp: n' k_def)
  with sk_delete_spec [OF i(3) d] obtain sk'' where del: "r2 = Some sk''" "x = elems sk' ! k" "stack_ok sk''"
    "elems sk'' = take k (elems sk') @ drop (Suc k) (elems sk')" by blast
  then have "x = p" "elems sk'' = elems sk" using \<open>k \<le> length (elems sk)\<close> by (simp_all add: i(4) tk nth_append)
  with i(1) d del have "sk_delete r (min w (num sk)) = (p, Some sk'')" "elems sk'' = elems sk" by (simp_all add: k_def)
  with i del(3) show ?thesis using length_elems [OF assms(1)] by simp
qed simp

theorem sk_insert_delete_witness:
  "\<exists>sk. sk_new (\<lambda>n. Some (replicate n 0)) None = Some sk \<and>
     (\<exists>n r. sk_insert (\<lambda>n. Some (replicate n 0)) (\<lambda>_. None) (Some sk) (Some (7 :: nat)) 3 = (n, r) \<and>
       (n = 0 \<and> r = Some sk \<or> (\<exists>sk'. r = Some sk' \<and> elems sk' = [Some 7])))"
proof -
  let ?A = "\<lambda>n. Some (replicate n (0 :: byte))"
  obtain sk :: "nat stack" where new: "sk_new ?A None = Some sk" by (auto simp: sk_new_def OPENSSL_malloc_def)
  note ok = sk_new_ok [OF new]
  obtain n r where i: "sk_insert ?A (\<lambda>_. None) (Some sk) (Some 7) 3 = (n, r)" by (rule prod.exhaust)
  from sk_insert_delete [OF _ i] ok have "n = 0 \<and> r = Some sk \<or> (\<exists>sk'. r = Some sk' \<and> elems sk' = [Some 7])" by auto
  with new i show ?thesis by blast
qed

lemma sk_sort_spec:
  assumes q: "qsort_spec qsort" and ok: "stack_ok sk" "sorted_ok sk" and c: "sk_comp sk = Some cmp" "comparison cmp"
    and sort: "sk_sort qsort (Some sk) = Some sk'"
  shows "stack_ok sk' \<and> sorted_ok sk' \<and> sorted_flag sk' \<and> sk_comp sk' = Some cmp \<and> num sk' = num sk \<and>
    (\<forall>x. count_list (elems sk') x = count_list (elems sk) x)"
proof (cases "sorted_flag sk \<or> num sk < 2")
  case True
  have "sorted_wrt (\<lambda>x y. cmp x y \<le> 0) (elems sk)" if "num sk < 2"
    using that ok(1) by (cases "elems sk" rule: list.exhaust [case_product list.exhaust])
      (auto simp: less_Suc_eq numeral_2_eq_2 length_Suc_conv dest!: length_elems)
  moreover have "sk' = sk\<lparr>sorted_flag := True\<rparr>" using sort c(1) True by (auto simp: sk_sort_def split: if_splits)
  ultimately show ?thesis using ok c True by (auto simp: stack_ok_def elems_def sorted_ok_def)
next
  case False
  define d where "d = qsort cmp (elems sk)"
  have "length d = num sk" using qsort_specD(1) [OF q] ok(1) by (simp add: d_def)
  moreover have sk': "sk' = sk\<lparr>data := d @ drop (num sk) (data sk), sorted_flag := True\<rparr>"
    using sort c(1) False by (simp add: sk_sort_def d_def elems_def)
  ultimately have "elems sk' = d" by (simp add: elems_def)
  with qsort_specD(2,3) [OF q c(2)] ok sk' c \<open>length d = num sk\<close> show ?thesis
    by (simp add: stack_ok_def sorted_ok_def d_def)
qed

text \<open>
  C38. After \<^verbatim>\<open>sk_sort\<close> the stack has the same elements, in order, and the binary search of \<^verbatim>\<open>sk_find\<close>
  returns the first index whose element compares equal to the key, and fails exactly when there is none.
\<close>

theorem sk_sort_find:
  assumes "qsort_spec qsort" "comparison cmp" "sk_comp sk = Some cmp" "stack_ok sk" "sorted_ok sk"
    and "sk_sort qsort (Some sk) = Some sk'"
  shows "(\<forall>x. count_list (elems sk') x = count_list (elems sk) x) \<and> sorted_wrt (\<lambda>x y. cmp x y \<le> 0) (elems sk') \<and>
    (\<forall>x i. sk_find (Some sk') (Some x) = Some i \<longleftrightarrow>
       i < num sk' \<and> cmp (Some x) (elems sk' ! i) = 0 \<and> (\<forall>j < i. cmp (Some x) (elems sk' ! j) \<noteq> 0)) \<and>
    (\<forall>x. sk_find (Some sk') (Some x) = None \<longleftrightarrow> (\<forall>y \<in> set (elems sk). cmp (Some x) y \<noteq> 0))"
proof -
  note s = sk_sort_spec [OF assms(1,4,5,3,2,6)]
  then have f: "sk_find (Some sk') (Some x) = find (\<lambda>i. cmp (Some x) (elems sk' ! i) = 0) [0..<num sk']" for x
    using assms(2) by (intro sk_find_linear) auto
  have "set (elems sk') = set (elems sk)" using s by (metis count_list_0_iff subsetI subset_antisym)
  moreover have "(\<forall>i < num sk'. cmp (Some x) (elems sk' ! i) \<noteq> 0) \<longleftrightarrow> (\<forall>y \<in> set (elems sk'). cmp (Some x) y \<noteq> 0)" for x
    using s by (metis in_set_conv_nth length_elems)
  ultimately have "sk_find (Some sk') (Some x) = None \<longleftrightarrow> (\<forall>y \<in> set (elems sk). cmp (Some x) y \<noteq> 0)" for x
    by (auto simp: f find_None_iff)
  moreover have "sorted_wrt (\<lambda>x y. cmp x y \<le> 0) (elems sk')" using s by (simp add: sorted_ok_def)
  ultimately show ?thesis using s by (simp add: f find_upt_Some)
qed

definition int_cmp :: "int ptr \<Rightarrow> int ptr \<Rightarrow> int" where
  "int_cmp x y = (case (x, y) of (None, None) \<Rightarrow> 0 | (None, _) \<Rightarrow> -1 | (_, None) \<Rightarrow> 1 | (Some a, Some b) \<Rightarrow> a - b)"

lemma int_cmp_comparison: "comparison int_cmp"
  by unfold_locales (auto simp: int_cmp_def split: option.splits)

theorem sk_sort_find_witness:
  "\<exists>sk'. sk_sort insertion_sort (Some \<lparr>num = 3, data = [Some 5, Some 2, Some 5, None], sorted_flag = False, num_alloc = 4,
      sk_comp = Some int_cmp\<rparr>) = Some sk' \<and> sk_find (Some sk') (Some 7) = None"
proof -
  let ?sk = "\<lparr>num = 3, data = [Some 5, Some 2, Some 5, None], sorted_flag = False, num_alloc = 4, sk_comp = Some int_cmp\<rparr>"
  have ok: "stack_ok ?sk" "sorted_ok ?sk" by (simp_all add: stack_ok_def sorted_ok_def)
  have e: "set (elems ?sk) \<subseteq> {Some 5, Some 2, Some 5, None}" by (auto simp: elems_def dest: in_set_takeD)
  obtain sk' where s: "sk_sort insertion_sort (Some ?sk) = Some sk'" by (simp add: sk_sort_def)
  have "\<forall>y \<in> set (elems ?sk). int_cmp (Some 7) y \<noteq> 0" using e by (auto simp: int_cmp_def)
  with sk_sort_find [OF insertion_sort_spec int_cmp_comparison _ ok s] s show ?thesis by auto
qed

text \<open>
  C39. \<^verbatim>\<open>sk_set\<close> leaves the flag that marks the stack as sorted, so an element stored with it into a sorted
  stack can be missed by \<^verbatim>\<open>sk_find\<close>.
\<close>

theorem sk_set_breaks_search:
  "\<exists>(sk :: int stack) sk'. stack_ok sk \<and> sorted_ok sk \<and> comparison (the (sk_comp sk)) \<and>
     sk_set (Some sk) 1 (Some 0) = (Some 0, Some sk') \<and> sorted_flag sk' \<and>
     Some 0 \<in> set (elems sk') \<and> sk_find (Some sk') (Some 0) = None"
proof -
  let ?sk = "\<lparr>num = 2, data = [Some 1, Some 2, None, None], sorted_flag = True, num_alloc = 4, sk_comp = Some int_cmp\<rparr>"
  let ?sk' = "\<lparr>num = 2, data = [Some 1, Some 0, None, None], sorted_flag = True, num_alloc = 4, sk_comp = Some int_cmp\<rparr>"
  have e: "elems ?sk = [Some 1, Some 2]" "elems ?sk' = [Some 1, Some 0]" by (simp_all add: elems_def numeral_2_eq_2)
  have ok: "stack_ok ?sk" "sorted_ok ?sk" by (simp_all add: stack_ok_def sorted_ok_def e int_cmp_def)
  have "sk_bsearch (int_cmp (Some 0)) [Some 1, Some 0, None, None] 0 2 = None"
    by (subst sk_bsearch.simps, subst (2) sk_bsearch.simps) (simp add: int_cmp_def)
  then have "sk_find (Some ?sk') (Some 0) = None" by (simp add: sk_find_def sk_is_sorted_def)
  with ok e int_cmp_comparison show ?thesis
    by (intro exI [of _ ?sk] exI [of _ ?sk']) (simp add: sk_set_def)
qed

text \<open>Copying: the elements that are not \<^verbatim>\<open>NULL\<close>, and what the copy loop leaves or frees.\<close>

fun somes :: "'a ptr list \<Rightarrow> 'a list" where
  "somes [] = []"
| "somes (None # ps) = somes ps"
| "somes (Some x # ps) = x # somes ps"

lemma somes_append [simp]: "somes (ps @ qs) = somes ps @ somes qs"
  by (induction ps rule: somes.induct) auto

lemma set_somes: "x \<in> set (somes ps) \<longleftrightarrow> Some x \<in> set ps"
  by (induction ps rule: somes.induct) auto

lemma somes_comprehension: "i \<le> length d \<Longrightarrow> [the (d ! j). j \<leftarrow> [0..<i], d ! j \<noteq> None] = somes (take i d)"
proof (induction i)
  case (Suc i)
  then have "somes [d ! i] = (if d ! i \<noteq> None then [the (d ! i)] else [])" by (cases "d ! i") auto
  with Suc show ?case by (simp add: take_Suc_conv_app_nth)
qed simp

lemma copy_ptrs_spec:
  "i \<le> n \<Longrightarrow> n \<le> length d \<Longrightarrow>
    copy_ptrs copy d n i =
      (if \<forall>x \<in> set (somes (drop i (take n d))). copy x \<noteq> None
       then Inr (take i d @ map (\<lambda>p. Option.bind p copy) (drop i (take n d)) @ drop n d)
       else Inl (somes (take i d) @ map (the \<circ> copy) (takeWhile (\<lambda>x. copy x \<noteq> None) (somes (drop i (take n d))))))"
proof (induction copy d n i rule: copy_ptrs.induct)
  case (1 copy d n i)
  show ?case
  proof (cases "i < n")
    case False
    with "1.prems" show ?thesis by (subst copy_ptrs.simps) simp
  next
    case True
    with "1.prems" have dr: "drop i (take n d) = d ! i # drop (Suc i) (take n d)"
      by (simp add: Cons_nth_drop_Suc [symmetric])
    have tk: "take (Suc i) d = take i d @ [d ! i]" using True "1.prems" by (simp add: take_Suc_conv_app_nth)
    show ?thesis
    proof (cases "d ! i")
      case None
      with "1.IH"(1) [OF True None] True "1.prems" show ?thesis
        by (subst copy_ptrs.simps) (simp add: dr tk)
    next
      case (Some x)
      show ?thesis
      proof (cases "copy x")
        case None
        have "i \<le> length d" using True "1.prems" by simp
        note somes_comprehension [OF this]
        with None Some True "1.prems" show ?thesis by (subst copy_ptrs.simps) (simp add: dr)
      next
        case (Some y)
        have up: "take (Suc i) (d[i := Some y]) = take i d @ [Some y]"
          "drop (Suc i) (take n (d[i := Some y])) = drop (Suc i) (take n d)" "drop n (d[i := Some y]) = drop n d"
          using True "1.prems" by (simp_all add: take_Suc_conv_app_nth take_update_swap list_update_append)
        with "1.IH"(2) [OF True \<open>d ! i = Some x\<close> Some] \<open>d ! i = Some x\<close> Some True "1.prems" show ?thesis
          by (subst copy_ptrs.simps) (simp add: dr)
      qed
    qed
  qed
qed

lemma sk_dup_spec:
  assumes "stack_ok sk" "sk_dup A u (Some sk) = Some ret"
  shows "stack_ok ret \<and> elems ret = elems sk \<and> num ret = num sk \<and> sk_comp ret = sk_comp sk \<and> sorted_flag ret = sorted_flag sk"
proof -
  obtain r0 s where r0: "sk_new A (sk_comp sk) = Some r0" and s: "realloc_ptrs A u (data r0) (size_wrap (8 * num_alloc sk)) = Some s"
    and ret: "ret = r0\<lparr>data := take (num sk) (data sk) @ drop (num sk) s, num := num sk,
       sorted_flag := sorted_flag sk, num_alloc := num_alloc sk, sk_comp := sk_comp sk\<rparr>"
    using assms(2) by (auto simp: sk_dup_def split: option.splits)
  have "length s = num_alloc sk"
    using s assms(1) by (simp add: realloc_ptrs_def stack_ok_def mult.commute split: option.splits)
      (metis diff_zero length_map length_upt)
  with assms(1) show ?thesis by (simp add: ret stack_ok_def elems_def)
qed

text \<open>
  C40. \<^verbatim>\<open>sk_deep_copy\<close> copies every element that is not \<^verbatim>\<open>NULL\<close>, or fails and then has released exactly the
  copies it made: those of the elements before the first that cannot be copied.
\<close>

theorem sk_deep_copy_complete:
  assumes "stack_ok sk" "sk_deep_copy A u (Some sk) copy = (r, freed)"
  shows "case r of
      Some sk' \<Rightarrow> stack_ok sk' \<and> elems sk' = map (\<lambda>p. Option.bind p copy) (elems sk) \<and> freed = [] \<and>
        (\<forall>x. Some x \<in> set (elems sk) \<longrightarrow> copy x \<noteq> None)
    | None \<Rightarrow> sk_dup A u (Some sk) = None \<and> freed = [] \<or>
        (\<exists>x. Some x \<in> set (elems sk) \<and> copy x = None) \<and>
        freed = map (the \<circ> copy) (takeWhile (\<lambda>x. copy x \<noteq> None) (somes (elems sk)))"
proof (cases "sk_dup A u (Some sk)")
  case None
  with assms(2) show ?thesis by (auto simp: sk_deep_copy_def)
next
  case (Some ret)
  note d = sk_dup_spec [OF assms(1) Some]
  have set: "x \<in> set (somes (elems sk)) \<longleftrightarrow> Some x \<in> set (elems sk)" for x
    by (rule set_somes)
  have "num ret \<le> length (data ret)" using d by (simp add: stack_ok_def)
  note cp = copy_ptrs_spec [of 0 "num ret" "data ret" copy, simplified, OF this, folded elems_def]
  show ?thesis
  proof (cases "\<forall>x \<in> set (somes (elems sk)). copy x \<noteq> None")
    case True
    with assms(2) Some cp d have r: "freed = []"
      "r = Some (ret\<lparr>data := map (\<lambda>p. Option.bind p copy) (elems sk) @ drop (num ret) (data ret)\<rparr>)"
      by (simp_all add: sk_deep_copy_def)
    have "length (elems sk) = num ret" using d assms(1) by simp
    with True set r d show ?thesis by (simp add: stack_ok_def elems_def)
  next
    case False
    with assms(2) Some cp d have "r = None" "freed = map (the \<circ> copy) (takeWhile (\<lambda>x. copy x \<noteq> None) (somes (elems sk)))"
      by (simp_all add: sk_deep_copy_def if_not_P)
    with False set show ?thesis by auto
  qed
qed

theorem sk_deep_copy_complete_witness:
  "\<exists>r freed. sk_deep_copy (\<lambda>n. Some (replicate n 0)) (\<lambda>_. None)
      (Some \<lparr>num = 3, data = [Some 2, None, Some (3 :: nat), None], sorted_flag = False, num_alloc = 4, sk_comp = None\<rparr>)
      (\<lambda>x. if x = 3 then None else Some (x + 10)) = (r, freed) \<and> r = None \<and> (freed = [] \<or> freed = [12])"
proof -
  let ?sk = "\<lparr>num = 3, data = [Some 2, None, Some (3 :: nat), None], sorted_flag = False, num_alloc = 4, sk_comp = None\<rparr>"
  let ?c = "\<lambda>x. if x = 3 then None else Some (x + 10 :: nat)"
  have e: "elems ?sk = [Some 2, None, Some 3]" by (simp add: elems_def numeral_3_eq_3)
  have ok: "stack_ok ?sk" by (simp add: stack_ok_def)
  obtain r freed where run: "sk_deep_copy (\<lambda>n. Some (replicate n 0)) (\<lambda>_. None) (Some ?sk) ?c = (r, freed)"
    by (rule prod.exhaust)
  have "r = None \<and> (freed = [] \<or> freed = [12])"
    using sk_deep_copy_complete [OF ok run] by (auto simp: e split: option.splits)
  with run show ?thesis by blast
qed

end
