(* ===== verification/Unicode.thy ===== *)
theory Unicode
  imports Cbs Cbb_Ops Der
begin

text \<open>
  Model of \<^verbatim>\<open>crypto/bytestring/unicode.c\<close>: the readers and writers of single code points in UTF-8,
  Latin-1, UCS-2 and UTF-32. A reader consumes from a \<^verbatim>\<open>CBS\<close> also when it fails. \<open>utf8\<close> is the
  encoding of the Unicode standard; \<open>canonical_codec\<close> is interpreted on each of the four pairs.
\<close>

section \<open>Operations\<close>

definition is_valid_code_point :: "u32 \<Rightarrow> bool" where
  "is_valid_code_point v \<longleftrightarrow>
     \<not> (v > 0x10ffff \<or> v AND 0xfffe = 0xfffe \<or> (v \<ge> 0xfdd0 \<and> v \<le> 0xfdef) \<or> (v \<ge> 0xd800 \<and> v \<le> 0xdfff))"

definition BOTTOM_BITS :: "nat \<Rightarrow> byte" where
  "BOTTOM_BITS n = ucast (push_bit n (1 :: u32) - 1)"

definition TOP_BITS :: "nat \<Rightarrow> byte" where
  "TOP_BITS n = NOT (BOTTOM_BITS (8 - n))"

text \<open>The loop over the continuation bytes.\<close>

fun utf8_tail :: "nat \<Rightarrow> u32 \<Rightarrow> cbs \<Rightarrow> u32 option \<times> cbs" where
  "utf8_tail 0 v cbs = (Some v, cbs)"
| "utf8_tail (Suc n) v cbs =
     andthen (CBS_get_u8 cbs) (\<lambda>c cbs.
       if c AND TOP_BITS 2 \<noteq> TOP_BITS 1 then (None, cbs)
       else utf8_tail n (push_bit 6 v OR ucast (c AND BOTTOM_BITS 6)) cbs)"

definition cbs_get_utf8 :: "cbs \<Rightarrow> u32 option \<times> cbs" where
  "cbs_get_utf8 cbs =
     andthen (CBS_get_u8 cbs) (\<lambda>c cbs.
       if c \<le> 0x7f then (Some (ucast c), cbs)
       else
         case (if c AND TOP_BITS 3 = TOP_BITS 2 then Some (ucast (c AND BOTTOM_BITS 5), 1, 0x80)
               else if c AND TOP_BITS 4 = TOP_BITS 3 then Some (ucast (c AND BOTTOM_BITS 4), 2, 0x800)
               else if c AND TOP_BITS 5 = TOP_BITS 4 then Some (ucast (c AND BOTTOM_BITS 3), 3, 0x10000)
               else None) of
           None \<Rightarrow> (None, cbs)
         | Some (v, len, lower_bound) \<Rightarrow>
             andthen (utf8_tail len v cbs) (\<lambda>v cbs.
               if \<not> is_valid_code_point v \<or> v < lower_bound then (None, cbs) else (Some v, cbs)))"

definition cbs_get_latin1 :: "cbs \<Rightarrow> u32 option \<times> cbs" where
  "cbs_get_latin1 cbs = andthen (CBS_get_u8 cbs) (\<lambda>c cbs. (Some (ucast c), cbs))"

definition cbs_get_ucs2_be :: "cbs \<Rightarrow> u32 option \<times> cbs" where
  "cbs_get_ucs2_be cbs =
     andthen (CBS_get_u16 cbs) (\<lambda>c cbs.
       if \<not> is_valid_code_point (ucast c) then (None, cbs) else (Some (ucast c), cbs))"

definition cbs_get_utf32_be :: "cbs \<Rightarrow> u32 option \<times> cbs" where
  "cbs_get_utf32_be cbs =
     andthen (CBS_get_u32 cbs) (\<lambda>v cbs. if is_valid_code_point v then (Some v, cbs) else (None, cbs))"

definition cbb_get_utf8_len :: "u32 \<Rightarrow> size_t" where
  "cbb_get_utf8_len u = (if u \<le> 0x7f then 1 else if u \<le> 0x7ff then 2 else if u \<le> 0xffff then 3 else 4)"

definition cbb_add_utf8 :: "allocator \<Rightarrow> u32 \<Rightarrow> nat \<Rightarrow> cbb \<Rightarrow> unit option \<times> cbb" where
  "cbb_add_utf8 A u d s =
     (if \<not> is_valid_code_point u then (None, s)
      else if u \<le> 0x7f then CBB_add_u8 A (ucast u) d s
      else if u \<le> 0x7ff then
        andthen (CBB_add_u8 A (TOP_BITS 2 OR ucast (drop_bit 6 u)) d s) (\<lambda>_.
          CBB_add_u8 A (TOP_BITS 1 OR ucast u AND BOTTOM_BITS 6) d)
      else if u \<le> 0xffff then
        andthen (CBB_add_u8 A (TOP_BITS 3 OR ucast (drop_bit 12 u)) d s) (\<lambda>_ s.
          andthen (CBB_add_u8 A (TOP_BITS 1 OR ucast (drop_bit 6 u) AND BOTTOM_BITS 6) d s) (\<lambda>_.
            CBB_add_u8 A (TOP_BITS 1 OR ucast u AND BOTTOM_BITS 6) d))
      else if u \<le> 0x10ffff then
        andthen (CBB_add_u8 A (TOP_BITS 4 OR ucast (drop_bit 18 u)) d s) (\<lambda>_ s.
          andthen (CBB_add_u8 A (TOP_BITS 1 OR ucast (drop_bit 12 u) AND BOTTOM_BITS 6) d s) (\<lambda>_ s.
            andthen (CBB_add_u8 A (TOP_BITS 1 OR ucast (drop_bit 6 u) AND BOTTOM_BITS 6) d s) (\<lambda>_.
              CBB_add_u8 A (TOP_BITS 1 OR ucast u AND BOTTOM_BITS 6) d)))
      else (None, s))"

definition cbb_add_latin1 :: "allocator \<Rightarrow> u32 \<Rightarrow> nat \<Rightarrow> cbb \<Rightarrow> unit option \<times> cbb" where
  "cbb_add_latin1 A u d s = (if u \<le> 0xff then CBB_add_u8 A (ucast u) d s else (None, s))"

definition cbb_add_ucs2_be :: "allocator \<Rightarrow> u32 \<Rightarrow> nat \<Rightarrow> cbb \<Rightarrow> unit option \<times> cbb" where
  "cbb_add_ucs2_be A u d s =
     (if u \<le> 0xffff \<and> is_valid_code_point u then CBB_add_u16 A (ucast u) d s else (None, s))"

definition cbb_add_utf32_be :: "allocator \<Rightarrow> u32 \<Rightarrow> nat \<Rightarrow> cbb \<Rightarrow> unit option \<times> cbb" where
  "cbb_add_utf32_be A u d s = (if is_valid_code_point u then CBB_add_u32 A u d s else (None, s))"

section \<open>Bits and numbers\<close>

lemma bits_values:
  "TOP_BITS 1 = 0x80" "TOP_BITS (Suc 0) = 0x80" "TOP_BITS 2 = 0xc0" "TOP_BITS 3 = 0xe0" "TOP_BITS 4 = 0xf0" "TOP_BITS 5 = 0xf8"
  "BOTTOM_BITS 3 = 0x07" "BOTTOM_BITS 4 = 0x0f" "BOTTOM_BITS 5 = 0x1f" "BOTTOM_BITS 6 = 0x3f"
  by code_simp+

lemma lead_byte:
  "c AND 0xe0 = 0xc0 \<longleftrightarrow> 192 \<le> unat c \<and> unat c < 224"
  "c AND 0xf0 = 0xe0 \<longleftrightarrow> 224 \<le> unat c \<and> unat c < 240"
  "c AND 0xf8 = 0xf0 \<longleftrightarrow> 240 \<le> unat c \<and> unat c < 248"
  "c AND 0xc0 = 0x80 \<longleftrightarrow> 128 \<le> unat c \<and> unat c < 192"
  for c :: byte
  by (rule all_bytes [of "\<lambda>c. c AND 0xe0 = 0xc0 \<longleftrightarrow> 192 \<le> unat c \<and> unat c < 224" c], code_simp)
    (rule all_bytes [of "\<lambda>c. c AND 0xf0 = 0xe0 \<longleftrightarrow> 224 \<le> unat c \<and> unat c < 240" c], code_simp,
     rule all_bytes [of "\<lambda>c. c AND 0xf8 = 0xf0 \<longleftrightarrow> 240 \<le> unat c \<and> unat c < 248" c], code_simp,
     rule all_bytes [of "\<lambda>c. c AND 0xc0 = 0x80 \<longleftrightarrow> 128 \<le> unat c \<and> unat c < 192" c], code_simp)

lemma unat_low_bits:
  "unat (c AND 0x07) = unat c mod 8" "unat (c AND 0x0f) = unat c mod 16"
  "unat (c AND 0x1f) = unat c mod 32" "unat (c AND 0x3f) = unat c mod 64"
  for c :: byte
  using unat_and_mask [of c 3] unat_and_mask [of c 4] unat_and_mask [of c 5] unat_and_mask [of c 6]
  by (simp_all add: mask_eq_exp_minus_1)

lemma and_push_bit: "v AND push_bit k m = push_bit k (drop_bit k v AND m)"
  for v :: "'a :: len word"
  by (rule bit_word_eqI) (auto simp: bit_simps)

lemma is_valid_code_point_iff:
  "is_valid_code_point v \<longleftrightarrow> unat v \<le> 0x10ffff \<and> unat v mod 0x10000 < 0xfffe \<and>
     \<not> (0xfdd0 \<le> unat v \<and> unat v \<le> 0xfdef) \<and> \<not> (0xd800 \<le> unat v \<and> unat v \<le> 0xdfff)"
proof -
  have "v AND 0xfffe = push_bit 1 (drop_bit 1 v AND mask 15)"
  proof -
    have "(0xfffe :: u32) = push_bit 1 (mask 15)" by (simp add: mask_eq_exp_minus_1)
    then have "v AND 0xfffe = v AND push_bit 1 (mask 15)" by (simp only:)
    then show ?thesis by (simp only: and_push_bit)
  qed
  moreover define x where "x = drop_bit 1 v AND mask 15"
  moreover have x: "unat x = unat v div 2 mod 32768"
    using unat_and_mask [of "drop_bit 1 v" 15] by (simp add: x_def unat_drop_bit)
  moreover have "unat (push_bit 1 x OR 0) = unat x * 2 ^ 1 + unat (0 :: u32)"
  proof (rule unat_push_bit_or)
    have "unat x < 32768" unfolding x by simp
    then show "unat x * 2 ^ 1 + unat (0 :: u32) < 2 ^ LENGTH(32)" by simp
  qed simp
  ultimately have u: "unat (v AND 0xfffe) = unat v div 2 mod 32768 * 2" by (simp only: or.right_neutral unsigned_0 power_one_right add_0_right)
  have "v AND 0xfffe = 0xfffe \<longleftrightarrow> unat (v AND 0xfffe) = 0xfffe"
    by (simp add: word_unat_eq_iff)
  also have "\<dots> \<longleftrightarrow> \<not> unat v mod 0x10000 < 0xfffe"
  proof -
    have "unat v mod 0x10000 = 2 * (unat v div 2 mod 32768) + unat v mod 2"
      using mod_mult2_eq [of "unat v" 2 32768] by simp
    moreover have "(x * 2 = 65534) = (\<not> m < 65534)" if "m = 2 * x + y" "x < 32768" "y < 2" for m x y :: nat
      using that by arith
    ultimately show ?thesis unfolding u by simp
  qed
  finally show ?thesis
    by (auto simp: is_valid_code_point_def word_less_nat_alt word_le_nat_alt)
qed

section \<open>UTF-8\<close>

definition utf8 :: "nat \<Rightarrow> byte list" where
  "utf8 n =
     (if n < 0x80 then [word_of_nat n]
      else if n < 0x800 then [word_of_nat (192 + n div 64), word_of_nat (128 + n mod 64)]
      else if n < 0x10000 then
        [word_of_nat (224 + n div 4096), word_of_nat (128 + n div 64 mod 64), word_of_nat (128 + n mod 64)]
      else [word_of_nat (240 + n div 262144), word_of_nat (128 + n div 4096 mod 64),
        word_of_nat (128 + n div 64 mod 64), word_of_nat (128 + n mod 64)])"

definition continuation :: "byte \<Rightarrow> bool" where
  "continuation c \<longleftrightarrow> 128 \<le> unat c \<and> unat c < 192"

definition tail_value :: "nat \<Rightarrow> byte list \<Rightarrow> nat" where
  "tail_value = foldl (\<lambda>a c. a * 64 + unat c mod 64)"

lemma tail_step:
  assumes "unat v < 2 ^ 26"
  shows "unat (push_bit 6 v OR ucast (c AND 0x3f) :: u32) = unat v * 64 + unat (c :: byte) mod 64"
proof -
  have c: "unat (ucast (c AND 0x3f) :: u32) = unat c mod 64"
    by (simp add: unat_ucast_up unat_low_bits)
  have "unat (push_bit 6 v OR ucast (c AND 0x3f)) = unat v * 2 ^ 6 + unat (ucast (c AND 0x3f) :: u32)"
  proof (rule unat_push_bit_or)
    have "unat c mod 64 < 64" by simp
    then show "unat (ucast (c AND 0x3f) :: u32) < 2 ^ 6"
      "unat v * 2 ^ 6 + unat (ucast (c AND 0x3f) :: u32) < 2 ^ LENGTH(32)" using assms unfolding c by simp_all
  qed
  then show ?thesis by (simp add: c)
qed

lemma utf8_tail_iff:
  "(unat v + 1) * 64 ^ n \<le> 2 ^ 32 \<Longrightarrow>
    utf8_tail n v bs = (Some w, r) \<longleftrightarrow>
      (\<exists>cs. length cs = n \<and> bs = cs @ r \<and> (\<forall>c \<in> set cs. continuation c) \<and> unat w = tail_value (unat v) cs)"
proof (induction n arbitrary: v bs)
  case 0
  then show ?case by (auto simp: tail_value_def word_unat_eq_iff)
next
  case (Suc n)
  show ?case
  proof (cases bs)
    case Nil
    then show ?thesis by simp
  next
    case (Cons c bs')
    define v' where "v' = push_bit 6 v OR ucast (c AND 0x3f)"
    have "unat v + 1 \<le> 2 ^ 26"
    proof (rule ccontr)
      assume "\<not> ?thesis"
      then have "(2 ^ 26 + 1) * 64 \<le> (unat v + 1) * 64 ^ Suc n" by (intro mult_le_mono) auto
      with Suc.prems show False by simp
    qed
    then have v': "unat v' = unat v * 64 + unat c mod 64" using tail_step [of v c] by (simp add: v'_def)
    have "a * 64 + k + 1 \<le> (a + 1) * 64" if "k < 64" for a k :: nat using that by simp
    from this [of "unat c mod 64" "unat v"] have "unat v' + 1 \<le> (unat v + 1) * 64" unfolding v' by simp
    then have "(unat v' + 1) * 64 ^ n \<le> (unat v + 1) * 64 * 64 ^ n" by (rule mult_le_mono1)
    also have "\<dots> = (unat v + 1) * 64 ^ Suc n" by (simp only: power_Suc mult.assoc)
    also note Suc.prems
    finally have "(unat v' + 1) * 64 ^ n \<le> 2 ^ 32" .
    note IH = Suc.IH [OF this, of bs']
    have "utf8_tail (Suc n) v bs = (if continuation c then utf8_tail n v' bs' else (None, bs'))"
      by (simp add: Cons bits_values lead_byte continuation_def v'_def)
    also have "\<dots> = (Some w, r) \<longleftrightarrow> continuation c \<and>
        (\<exists>cs. length cs = n \<and> bs' = cs @ r \<and> (\<forall>c \<in> set cs. continuation c) \<and> unat w = tail_value (unat v') cs)"
      using IH by simp
    also have "\<dots> \<longleftrightarrow> (\<exists>cs. length cs = Suc n \<and> bs = cs @ r \<and> (\<forall>c \<in> set cs. continuation c) \<and>
        unat w = tail_value (unat v) cs)"
      by (auto simp: Cons length_Suc_conv tail_value_def v')
    finally show ?thesis .
  qed
qed

text \<open>What a lead byte announces: the bits it contributes, the number of continuations, the least value.\<close>

definition lead :: "byte \<Rightarrow> (nat \<times> nat \<times> nat) option" where
  "lead c = (if 192 \<le> unat c \<and> unat c < 224 then Some (unat c - 192, 1, 0x80)
     else if 224 \<le> unat c \<and> unat c < 240 then Some (unat c - 224, 2, 0x800)
     else if 240 \<le> unat c \<and> unat c < 248 then Some (unat c - 240, 3, 0x10000)
     else None)"

lemma lead_bits:
  fixes c :: byte
  shows "192 \<le> unat c \<and> unat c < 224 \<Longrightarrow> unat c mod 32 = unat c - 192"
    and "224 \<le> unat c \<and> unat c < 240 \<Longrightarrow> unat c mod 16 = unat c - 224"
    and "240 \<le> unat c \<and> unat c < 248 \<Longrightarrow> unat c mod 8 = unat c - 240"
proof -
  have "192 \<le> unat c \<and> unat c < 224 \<longrightarrow> unat c mod 32 = unat c - 192"
    by (rule all_bytes [of "\<lambda>c. 192 \<le> unat c \<and> unat c < 224 \<longrightarrow> unat c mod 32 = unat c - 192" c]) code_simp
  then show "192 \<le> unat c \<and> unat c < 224 \<Longrightarrow> unat c mod 32 = unat c - 192" by simp
  have "224 \<le> unat c \<and> unat c < 240 \<longrightarrow> unat c mod 16 = unat c - 224"
    by (rule all_bytes [of "\<lambda>c. 224 \<le> unat c \<and> unat c < 240 \<longrightarrow> unat c mod 16 = unat c - 224" c]) code_simp
  then show "224 \<le> unat c \<and> unat c < 240 \<Longrightarrow> unat c mod 16 = unat c - 224" by simp
  have "240 \<le> unat c \<and> unat c < 248 \<longrightarrow> unat c mod 8 = unat c - 240"
    by (rule all_bytes [of "\<lambda>c. 240 \<le> unat c \<and> unat c < 248 \<longrightarrow> unat c mod 8 = unat c - 240" c]) code_simp
  then show "240 \<le> unat c \<and> unat c < 248 \<Longrightarrow> unat c mod 8 = unat c - 240" by simp
qed

lemma lead_decoded:
  "lead c = map_option (\<lambda>(v :: u32, n, b :: u32). (unat v, n, unat b))
     (if c AND TOP_BITS 3 = TOP_BITS 2 then Some (ucast (c AND BOTTOM_BITS 5), 1, 0x80)
      else if c AND TOP_BITS 4 = TOP_BITS 3 then Some (ucast (c AND BOTTOM_BITS 4), 2, 0x800)
      else if c AND TOP_BITS 5 = TOP_BITS 4 then Some (ucast (c AND BOTTOM_BITS 3), 3, 0x10000)
      else None)"
proof -
  show ?thesis by (simp add: bits_values lead_byte lead_def unat_ucast_up unat_low_bits lead_bits)
qed

lemma cbs_get_utf8_iff_lead:
  "cbs_get_utf8 bs = (Some u, r) \<longleftrightarrow>
     (\<exists>c. unat c < 128 \<and> bs = c # r \<and> unat u = unat c) \<or>
     (\<exists>c v n b cs. 128 \<le> unat c \<and> lead c = Some (v, n, b) \<and> length cs = n \<and> bs = c # cs @ r \<and>
        (\<forall>c \<in> set cs. continuation c) \<and> unat u = tail_value v cs \<and> is_valid_code_point u \<and> b \<le> unat u)"
proof (cases bs)
  case Nil
  then show ?thesis by (simp add: cbs_get_utf8_def)
next
  case (Cons c bs')
  show ?thesis
  proof (cases "unat c < 128")
    case True
    then have "c \<le> 0x7f" by (simp add: word_le_nat_alt)
    with True Cons show ?thesis by (auto simp: cbs_get_utf8_def word_unat_eq_iff unat_ucast_up)
  next
    case False
    then have ge: "128 \<le> unat c" and nle: "\<not> c \<le> 0x7f" by (simp_all add: word_le_nat_alt)
    obtain l :: "(u32 \<times> nat \<times> u32) option" where l: "l = (if c AND TOP_BITS 3 = TOP_BITS 2 then Some (ucast (c AND BOTTOM_BITS 5), 1, 0x80)
      else if c AND TOP_BITS 4 = TOP_BITS 3 then Some (ucast (c AND BOTTOM_BITS 4), 2, 0x800)
      else if c AND TOP_BITS 5 = TOP_BITS 4 then Some (ucast (c AND BOTTOM_BITS 3), 3, 0x10000)
      else None)" by blast
    have run: "cbs_get_utf8 bs = (case l of None \<Rightarrow> (None, bs')
      | Some (v, len, lower_bound) \<Rightarrow> andthen (utf8_tail len v bs') (\<lambda>v cbs.
          if \<not> is_valid_code_point v \<or> v < lower_bound then (None, cbs) else (Some v, cbs)))"
      unfolding l using Cons nle by (simp add: cbs_get_utf8_def)
    have ld: "lead c = map_option (\<lambda>(v, n, b). (unat v, n, unat b)) l" unfolding l by (rule lead_decoded)
    show ?thesis
    proof (cases l)
      case None
      with run ld Cons False show ?thesis by auto
    next
      case (Some vnb)
      obtain v n b where vnb: "vnb = (v, n, b)" by (cases vnb)
      have "(unat v + 1) * 64 ^ n \<le> 2 ^ 32"
        using ld Some vnb by (auto simp: lead_def split: if_splits)
      note tail = utf8_tail_iff [OF this, of bs' _ r]
      have "cbs_get_utf8 bs = (Some u, r) \<longleftrightarrow> utf8_tail n v bs' = (Some u, r) \<and> is_valid_code_point u \<and> unat b \<le> unat u"
        using run Some vnb by (auto simp: andthen_Some_iff word_le_nat_alt not_less split: if_splits)
      then show ?thesis using tail [of u] ld Some vnb Cons False ge by auto
    qed
  qed
qed

lemma digit: "k < 64 \<Longrightarrow> (v * 64 + k) div 64 = v \<and> (v * 64 + k) mod 64 = k" for v k :: nat
  by simp

lemma continuation_digit: "continuation c \<Longrightarrow> unat c mod 64 < 64 \<and> 128 + unat c mod 64 = unat c"
proof -
  have "128 \<le> unat c \<and> unat c < 192 \<longrightarrow> 128 + unat c mod 64 = unat c"
    by (rule all_bytes [of "\<lambda>c. 128 \<le> unat c \<and> unat c < 192 \<longrightarrow> 128 + unat c mod 64 = unat c" c]) code_simp
  then show "continuation c \<Longrightarrow> unat c mod 64 < 64 \<and> 128 + unat c mod 64 = unat c"
    by (simp add: continuation_def)
qed

lemma utf8_digits:
  "utf8 n =
     (if n < 0x80 then [word_of_nat n]
      else if n < 0x800 then [word_of_nat (192 + n div 64), word_of_nat (128 + n mod 64)]
      else if n < 0x10000 then
        [word_of_nat (224 + n div 64 div 64), word_of_nat (128 + n div 64 mod 64), word_of_nat (128 + n mod 64)]
      else [word_of_nat (240 + n div 64 div 64 div 64), word_of_nat (128 + n div 64 div 64 mod 64),
        word_of_nat (128 + n div 64 mod 64), word_of_nat (128 + n mod 64)])"
  by (simp add: utf8_def div_mult2_eq [symmetric])

lemma word_of_nat_byte: "n = unat c \<Longrightarrow> word_of_nat n = (c :: byte)"
  by simp

lemma unat_small_byte: "k < 256 \<Longrightarrow> unat (word_of_nat k :: byte) = k"
  by simp

lemma digits_bound: "v < 16 \<Longrightarrow> x < 64 \<Longrightarrow> y < 64 \<Longrightarrow> (v * 64 + x) * 64 + y < 0x10000" for v x y :: nat
  by simp

lemma utf8_of_lead:
  assumes "lead c = Some (v, length cs, b)" "\<forall>c \<in> set cs. continuation c" "b \<le> tail_value v cs"
  shows "utf8 (tail_value v cs) = c # cs"
proof -
  from assms(1) consider (1) "192 \<le> unat c" "unat c < 224" "v = unat c - 192" "length cs = 1" "b = 0x80"
    | (2) "224 \<le> unat c" "unat c < 240" "v = unat c - 224" "length cs = 2" "b = 0x800"
    | (3) "240 \<le> unat c" "unat c < 248" "v = unat c - 240" "length cs = 3" "b = 0x10000"
    by (auto simp: lead_def split: if_splits)
  then show ?thesis
  proof cases
    case 1
    then obtain d where cs: "cs = [d]" by (auto simp: length_Suc_conv)
    with assms(2) have d: "unat d mod 64 < 64" "128 + unat d mod 64 = unat d" using continuation_digit by auto
    define n where "n = v * 64 + unat d mod 64"
    have n: "tail_value v cs = n" by (simp add: cs tail_value_def n_def)
    have "n < 0x800" "\<not> n < 0x80" using 1 d(1) assms(3) n by (simp_all add: n_def)
    moreover have "192 + n div 64 = unat c" "128 + n mod 64 = unat d"
      unfolding n_def using digit [OF d(1), of v] 1 d(2) by simp_all
    ultimately show ?thesis unfolding n utf8_digits by (simp add: cs)
  next
    case 2
    then obtain d e where cs: "cs = [d, e]" by (auto simp: numeral_2_eq_2 length_Suc_conv)
    with assms(2) have d: "unat d mod 64 < 64" "128 + unat d mod 64 = unat d"
      "unat e mod 64 < 64" "128 + unat e mod 64 = unat e" using continuation_digit by auto
    define m where "m = v * 64 + unat d mod 64"
    define n where "n = m * 64 + unat e mod 64"
    have n: "tail_value v cs = n" by (simp add: cs tail_value_def n_def m_def)
    have "v < 16" using 2 by simp
    then have "n < 0x10000" using d unfolding n_def m_def by (intro digits_bound)
    moreover have "\<not> n < 0x800" using 2 assms(3) n by simp
    moreover have "n div 64 = m" "128 + n mod 64 = unat e" unfolding n_def using digit [OF d(3), of m] d(4) by simp_all
    moreover have "224 + m div 64 = unat c" "128 + m mod 64 = unat d"
      unfolding m_def using digit [OF d(1), of v] 2 d(2) by simp_all
    ultimately show ?thesis unfolding n utf8_digits by (simp add: cs)
  next
    case 3
    then obtain d e f where cs: "cs = [d, e, f]" by (auto simp: numeral_3_eq_3 length_Suc_conv)
    with assms(2) have d: "unat d mod 64 < 64" "128 + unat d mod 64 = unat d"
      "unat e mod 64 < 64" "128 + unat e mod 64 = unat e"
      "unat f mod 64 < 64" "128 + unat f mod 64 = unat f" using continuation_digit by auto
    define m where "m = v * 64 + unat d mod 64"
    define n where "n = m * 64 + unat e mod 64"
    define k where "k = n * 64 + unat f mod 64"
    have k: "tail_value v cs = k" by (simp add: cs tail_value_def n_def m_def k_def)
    have "\<not> k < 0x10000" using 3 assms(3) k by simp
    moreover have "k div 64 = n" "128 + k mod 64 = unat f" unfolding k_def using digit [OF d(5), of n] d(6) by simp_all
    moreover have "n div 64 = m" "128 + n mod 64 = unat e" unfolding n_def using digit [OF d(3), of m] d(4) by simp_all
    moreover have "240 + m div 64 = unat c" "128 + m mod 64 = unat d"
      unfolding m_def using digit [OF d(1), of v] 3 d(2) by simp_all
    ultimately show ?thesis unfolding k utf8_digits by (simp add: cs)
  qed
qed

lemma mod_128: "(128 + m) mod 64 = m mod 64" for m :: nat
  using mod_mult_self1 [of m 2 64] by (simp add: add.commute)

lemma cont_of_nat: "continuation (word_of_nat (128 + n mod 64))" "unat (word_of_nat (128 + n mod 64) :: byte) mod 64 = n mod 64"
proof -
  have "n mod 64 < 64" by simp
  then have "unat (word_of_nat (128 + n mod 64) :: byte) = 128 + n mod 64" by (intro unat_small_byte) linarith
  with \<open>n mod 64 < 64\<close> show "continuation (word_of_nat (128 + n mod 64))" by (simp only: continuation_def) linarith
  show "unat (word_of_nat (128 + n mod 64) :: byte) mod 64 = n mod 64"
    using \<open>unat (word_of_nat (128 + n mod 64) :: byte) = 128 + n mod 64\<close> mod_128 [of "n mod 64"] by (simp only: mod_mod_trivial)
qed

lemma utf8_has_lead:
  assumes "0x80 \<le> n" "n \<le> 0x10ffff"
  shows "\<exists>c v b cs. 128 \<le> unat c \<and> utf8 n = c # cs \<and> lead c = Some (v, length cs, b) \<and>
    (\<forall>c \<in> set cs. continuation c) \<and> n = tail_value v cs \<and> b \<le> n"
proof -
  have val: "n div 64 * 64 + n mod 64 = n" "n div 64 div 64 * 64 + n div 64 mod 64 = n div 64"
    "n div 64 div 64 div 64 * 64 + n div 64 div 64 mod 64 = n div 64 div 64" by simp_all
  consider (1) "n < 0x800" | (2) "0x800 \<le> n" "n < 0x10000" | (3) "0x10000 \<le> n" by linarith
  then show ?thesis
  proof cases
    case 1
    let ?c = "word_of_nat (192 + n div 64) :: byte" and ?cs = "[word_of_nat (128 + n mod 64)]"
    have "n div 64 < 32" using 1 by simp
    then have c: "unat ?c = 192 + n div 64" by (intro unat_small_byte) simp
    have "lead ?c = Some (n div 64, length ?cs, 0x80)" unfolding lead_def c using \<open>n div 64 < 32\<close> by simp
    moreover have "n = tail_value (n div 64) ?cs" by (simp add: tail_value_def cont_of_nat mod_128 val del: of_nat_add)
    moreover have "utf8 n = ?c # ?cs" using assms 1 by (simp add: utf8_digits)
    moreover have "128 \<le> unat ?c" "\<forall>c \<in> set ?cs. continuation c" unfolding c by (simp_all add: cont_of_nat del: of_nat_add)
    ultimately show ?thesis using assms(1) by blast
  next
    case 2
    let ?c = "word_of_nat (224 + n div 64 div 64) :: byte"
      and ?cs = "[word_of_nat (128 + n div 64 mod 64), word_of_nat (128 + n mod 64)]"
    have l: "n div 64 div 64 < 16" using 2 by (simp add: div_mult2_eq [symmetric])
    then have c: "unat ?c = 224 + n div 64 div 64" by (intro unat_small_byte) simp
    have "lead ?c = Some (n div 64 div 64, length ?cs, 0x800)" unfolding lead_def c using l by simp
    moreover have "n = tail_value (n div 64 div 64) ?cs" by (simp add: tail_value_def cont_of_nat mod_128 val del: of_nat_add)
    moreover have "utf8 n = ?c # ?cs" using assms 2 by (simp add: utf8_digits)
    moreover have "128 \<le> unat ?c" "\<forall>c \<in> set ?cs. continuation c" unfolding c by (simp_all add: cont_of_nat del: of_nat_add)
    ultimately show ?thesis using 2 by blast
  next
    case 3
    let ?c = "word_of_nat (240 + n div 64 div 64 div 64) :: byte"
      and ?cs = "[word_of_nat (128 + n div 64 div 64 mod 64), word_of_nat (128 + n div 64 mod 64), word_of_nat (128 + n mod 64)]"
    have l: "n div 64 div 64 div 64 < 8" using assms by (simp add: div_mult2_eq [symmetric])
    then have c: "unat ?c = 240 + n div 64 div 64 div 64" by (intro unat_small_byte) simp
    have "lead ?c = Some (n div 64 div 64 div 64, length ?cs, 0x10000)" unfolding lead_def c using l by simp
    moreover have "n = tail_value (n div 64 div 64 div 64) ?cs" by (simp add: tail_value_def cont_of_nat mod_128 val del: of_nat_add)
    moreover have "utf8 n = ?c # ?cs" using 3 by (simp add: utf8_digits)
    moreover have "128 \<le> unat ?c" "\<forall>c \<in> set ?cs. continuation c" unfolding c by (simp_all add: cont_of_nat del: of_nat_add)
    ultimately show ?thesis using 3 by blast
  qed
qed

lemma cbs_get_utf8_iff:
  "cbs_get_utf8 bs = (Some u, r) \<longleftrightarrow> is_valid_code_point u \<and> bs = utf8 (unat u) @ r"
proof
  assume "cbs_get_utf8 bs = (Some u, r)"
  then consider (ascii) c where "unat c < 128" "bs = c # r" "unat u = unat c"
    | (lead) c v b cs where "lead c = Some (v, length cs, b)" "bs = c # cs @ r" "\<forall>c \<in> set cs. continuation c"
        "unat u = tail_value v cs" "is_valid_code_point u" "b \<le> tail_value v cs"
    unfolding cbs_get_utf8_iff_lead by auto
  then show "is_valid_code_point u \<and> bs = utf8 (unat u) @ r"
  proof cases
    case ascii
    then show ?thesis by (simp add: is_valid_code_point_iff utf8_def)
  next
    case lead
    with utf8_of_lead [OF lead(1,3,6)] show ?thesis by simp
  qed
next
  assume u: "is_valid_code_point u \<and> bs = utf8 (unat u) @ r"
  show "cbs_get_utf8 bs = (Some u, r)"
  proof (cases "unat u < 128")
    case True
    with u have "bs = word_of_nat (unat u) # r" by (simp add: utf8_def)
    moreover have "unat (word_of_nat (unat u) :: byte) = unat u" using True by (intro unat_small_byte) simp
    ultimately show ?thesis using True unfolding cbs_get_utf8_iff_lead by auto
  next
    case False
    then have "0x80 \<le> unat u" "unat u \<le> 0x10ffff" using u by (simp_all add: is_valid_code_point_iff)
    from utf8_has_lead [OF this] u show ?thesis unfolding cbs_get_utf8_iff_lead by auto
  qed
qed

interpretation utf8: canonical_codec "\<lambda>u. utf8 (unat u)" cbs_get_utf8 is_valid_code_point
  by unfold_locales (simp_all add: cbs_get_utf8_iff)

lemma top_or:
  assumes "unat (x :: byte) < 2 ^ k" "r * 2 ^ k + unat x < 256" "t = push_bit k (word_of_nat r)" "r < 256"
  shows "t OR x = word_of_nat (r * 2 ^ k + unat x)"
proof -
  have r: "unat (word_of_nat r :: byte) = r" using assms(4) by (rule unat_small_byte)
  have "unat (t OR x) = r * 2 ^ k + unat x"
    using unat_push_bit_or [of x k "word_of_nat r"] assms(1,2) unfolding assms(3) r by simp
  then show ?thesis by (metis word_of_nat_unat_byte)
qed

lemma tops_pushed:
  "(0xc0 :: byte) = push_bit 5 (word_of_nat 6)" "(0xe0 :: byte) = push_bit 4 (word_of_nat 14)"
  "(0xf0 :: byte) = push_bit 3 (word_of_nat 30)" "(0x80 :: byte) = push_bit 6 (word_of_nat 2)"
  by simp_all

lemma unat_ucast_drop:
  fixes u :: u32 assumes "unat u div 2 ^ k < 256"
  shows "unat (ucast (drop_bit k u) :: byte) = unat u div 2 ^ k"
  using assms by (simp add: unsigned_ucast_eq unat_drop_bit take_bit_eq_mod)

lemma continuation_octet:
  fixes w :: u32 shows "TOP_BITS 1 OR ucast w AND BOTTOM_BITS 6 = word_of_nat (128 + unat w mod 64)"
proof -
  have x: "unat (ucast w AND 0x3f :: byte) = unat w mod 64"
    by (simp add: unat_low_bits unsigned_ucast_eq take_bit_eq_mod mod_mod_cancel)
  have "unat w mod 64 < 64" by simp
  then have "0x80 OR (ucast w AND 0x3f) = (word_of_nat (2 * 2 ^ 6 + unat (ucast w AND 0x3f :: byte)) :: byte)"
    by (intro top_or [OF _ _ tops_pushed(4)]) (simp_all only: x, simp_all)
  then show ?thesis by (simp only: bits_values x) simp
qed

lemma lead_octets:
  fixes u :: u32
  shows "unat u < 0x800 \<Longrightarrow> TOP_BITS 2 OR ucast (drop_bit 6 u) = word_of_nat (192 + unat u div 64)"
    and "unat u < 0x10000 \<Longrightarrow> TOP_BITS 3 OR ucast (drop_bit 12 u) = word_of_nat (224 + unat u div 4096)"
    and "unat u \<le> 0x10ffff \<Longrightarrow> TOP_BITS 4 OR ucast (drop_bit 18 u) = word_of_nat (240 + unat u div 262144)"
proof -
  assume "unat u < 0x800"
  then have b: "unat u div 64 < 32" by simp
  then have x: "unat (ucast (drop_bit 6 u) :: byte) = unat u div 64" using unat_ucast_drop [of u 6] by simp
  have "0xc0 OR ucast (drop_bit 6 u) = (word_of_nat (6 * 2 ^ 5 + unat (ucast (drop_bit 6 u) :: byte)) :: byte)"
    using b by (intro top_or [OF _ _ tops_pushed(1)]) (simp_all only: x, simp_all)
  then show "TOP_BITS 2 OR ucast (drop_bit 6 u) = word_of_nat (192 + unat u div 64)" by (simp only: bits_values x) simp
next
  assume "unat u < 0x10000"
  then have b: "unat u div 4096 < 16" by simp
  then have x: "unat (ucast (drop_bit 12 u) :: byte) = unat u div 4096" using unat_ucast_drop [of u 12] by simp
  have "0xe0 OR ucast (drop_bit 12 u) = (word_of_nat (14 * 2 ^ 4 + unat (ucast (drop_bit 12 u) :: byte)) :: byte)"
    using b by (intro top_or [OF _ _ tops_pushed(2)]) (simp_all only: x, simp_all)
  then show "TOP_BITS 3 OR ucast (drop_bit 12 u) = word_of_nat (224 + unat u div 4096)" by (simp only: bits_values x) simp
next
  assume "unat u \<le> 0x10ffff"
  then have b: "unat u div 262144 < 8" by simp
  then have x: "unat (ucast (drop_bit 18 u) :: byte) = unat u div 262144" using unat_ucast_drop [of u 18] by simp
  have "0xf0 OR ucast (drop_bit 18 u) = (word_of_nat (30 * 2 ^ 3 + unat (ucast (drop_bit 18 u) :: byte)) :: byte)"
    using b by (intro top_or [OF _ _ tops_pushed(3)]) (simp_all only: x, simp_all)
  then show "TOP_BITS 4 OR ucast (drop_bit 18 u) = word_of_nat (240 + unat u div 262144)" by (simp only: bits_values x) simp
qed

lemma appended_Cons:
  assumes "appended A d s [b] r"
    and "\<And>a s'. writable d s' \<Longrightarrow> closed d s' = closed d s @ [b] \<Longrightarrow> cbb_chain s' = take d (cbb_chain s) \<Longrightarrow>
      r = (Some a, s') \<Longrightarrow> appended A d s' bs (k a s')"
  shows "appended A d s (b # bs) (andthen r k)"
proof -
  have "appended A d s ([b] @ bs) (andthen r k)" by (rule appended_andthen [OF assms])
  then show ?thesis by simp
qed

lemma cbb_add_utf8_appends [append_intros]:
  assumes "is_valid_code_point u" "writable d s" "malloc_spec A" "length (closed d s) + 4 \<le> 2 ^ 59"
  shows "appended A d s (utf8 (unat u)) (cbb_add_utf8 A u d s)"
proof -
  have v: "unat u \<le> 0x10ffff" using assms(1) by (simp add: is_valid_code_point_iff)
  note u8 = CBB_add_u8_appends [OF _ assms(3)]
  have dr: "unat (drop_bit 6 u) = unat u div 64" "unat (drop_bit 12 u) = unat u div 4096" by (simp_all add: unat_drop_bit)
  consider (1) "unat u < 0x80" | (2) "0x80 \<le> unat u" "unat u < 0x800" | (3) "0x800 \<le> unat u" "unat u < 0x10000"
    | (4) "0x10000 \<le> unat u" by linarith
  then show ?thesis
  proof cases
    case 1
    then have "appended A d s [ucast u] (CBB_add_u8 A (ucast u) d s)" using assms by (intro u8) simp_all
    moreover have "ucast u = (word_of_nat (unat u) :: byte)" by simp
    moreover have "u \<le> 0x7f" using 1 by (simp add: word_le_nat_alt)
    ultimately show ?thesis using 1 unfolding cbb_add_utf8_def utf8_def by (simp only: assms(1) if_True if_False simp_thms)
  next
    case 2
    then have eq: "cbb_add_utf8 A u d s = andthen (CBB_add_u8 A (word_of_nat (192 + unat u div 64)) d s) (\<lambda>_.
        CBB_add_u8 A (word_of_nat (128 + unat u mod 64)) d)"
      "utf8 (unat u) = [word_of_nat (192 + unat u div 64), word_of_nat (128 + unat u mod 64)]"
      using assms(1) unfolding cbb_add_utf8_def continuation_octet lead_octets(1) [OF 2(2)]
      by (simp_all add: utf8_def word_le_nat_alt)
    show ?thesis unfolding eq by (intro appended_Cons u8) (use assms in simp_all)
  next
    case 3
    then have nle: "\<not> u \<le> 0x7f" "\<not> u \<le> 0x7ff" "u \<le> 0xffff" by (simp_all add: word_le_nat_alt)
    have eq: "cbb_add_utf8 A u d s = andthen (CBB_add_u8 A (word_of_nat (224 + unat u div 4096)) d s) (\<lambda>_ s.
        andthen (CBB_add_u8 A (word_of_nat (128 + unat (drop_bit 6 u) mod 64)) d s) (\<lambda>_.
          CBB_add_u8 A (word_of_nat (128 + unat u mod 64)) d))"
      "utf8 (unat u) = [word_of_nat (224 + unat u div 4096), word_of_nat (128 + unat (drop_bit 6 u) mod 64),
        word_of_nat (128 + unat u mod 64)]"
      unfolding cbb_add_utf8_def continuation_octet lead_octets(2) [OF 3(2)]
      using 3 by (simp_all only: assms(1) nle if_True if_False simp_thms) (simp add: utf8_def dr del: of_nat_add)
    show ?thesis unfolding eq by (intro appended_Cons u8) (use assms in simp_all)
  next
    case 4
    then have nle: "\<not> u \<le> 0x7f" "\<not> u \<le> 0x7ff" "\<not> u \<le> 0xffff" "u \<le> 0x10ffff"
      using v by (simp_all add: word_le_nat_alt)
    have eq: "cbb_add_utf8 A u d s = andthen (CBB_add_u8 A (word_of_nat (240 + unat u div 262144)) d s) (\<lambda>_ s.
        andthen (CBB_add_u8 A (word_of_nat (128 + unat (drop_bit 12 u) mod 64)) d s) (\<lambda>_ s.
          andthen (CBB_add_u8 A (word_of_nat (128 + unat (drop_bit 6 u) mod 64)) d s) (\<lambda>_.
            CBB_add_u8 A (word_of_nat (128 + unat u mod 64)) d)))"
      "utf8 (unat u) = [word_of_nat (240 + unat u div 262144), word_of_nat (128 + unat (drop_bit 12 u) mod 64),
        word_of_nat (128 + unat (drop_bit 6 u) mod 64), word_of_nat (128 + unat u mod 64)]"
      unfolding cbb_add_utf8_def continuation_octet lead_octets(3) [OF v]
      using 4 by (simp_all only: assms(1) nle if_True if_False simp_thms) (simp add: utf8_def dr del: of_nat_add)
    show ?thesis unfolding eq by (intro appended_Cons u8) (use assms in simp_all)
  qed
qed

lemma length_utf8: "is_valid_code_point u \<Longrightarrow> length (utf8 (unat u)) = cbb_get_utf8_len u"
  by (simp add: utf8_def cbb_get_utf8_len_def word_le_nat_alt)

section \<open>The fixed-width encodings\<close>

lemma cbs_get_u_iff:
  "cbs_get_u k bs = (Some v, r) \<longleftrightarrow> (\<exists>xs. length xs = k \<and> bs = xs @ r \<and> v = u64_of_be xs)"
proof -
  have "cbs_get_u k bs = (if length bs < k then (None, bs) else (Some (u64_of_be (take k bs)), drop k bs))"
    by (simp add: cbs_get_u_def cbs_get_def)
  then show ?thesis by (auto intro!: exI [of _ "take k bs"])
qed

lemma fixed_width_iff:
  assumes "k \<le> 8" "LENGTH('a :: len) = 8 * k"
  shows "andthen (cbs_get_u k bs) (\<lambda>v r. (Some (ucast v :: 'a word), r)) = (Some w, r) \<longleftrightarrow> bs = be_bytes k (unat w) @ r"
proof -
  have pow: "(2 :: nat) ^ LENGTH('a) = 256 ^ k" by (simp add: assms(2) power_mult)
  have val: "unat (ucast (u64_of_be xs) :: 'a word) = be_nat xs" if "length xs = k" for xs
    using that assms(1) be_nat_bound [of xs] by (simp add: unsigned_ucast_eq take_bit_eq_mod u64_of_be_unat pow)
  show ?thesis
  proof
    assume "andthen (cbs_get_u k bs) (\<lambda>v r. (Some (ucast v :: 'a word), r)) = (Some w, r)"
    then obtain xs where "length xs = k" "bs = xs @ r" "w = ucast (u64_of_be xs)"
      by (auto simp: andthen_Some_iff cbs_get_u_iff)
    with val show "bs = be_bytes k (unat w) @ r" by (simp add: be_bytes_nat)
  next
    assume bs: "bs = be_bytes k (unat w) @ r"
    have "unat (ucast (u64_of_be (be_bytes k (unat w))) :: 'a word) = unat w"
      using val [of "be_bytes k (unat w)"] unsigned_less [of w, where 'a = nat] by (simp add: pow)
    then have "ucast (u64_of_be (be_bytes k (unat w))) = w" by (simp add: word_unat_eq_iff)
    moreover have "cbs_get_u k bs = (Some (u64_of_be (be_bytes k (unat w))), r)" using bs by (auto simp: cbs_get_u_iff)
    ultimately show "andthen (cbs_get_u k bs) (\<lambda>v r. (Some (ucast v :: 'a word), r)) = (Some w, r)" by simp
  qed
qed

lemma CBS_get_u16_iff: "CBS_get_u16 bs = (Some w, r) \<longleftrightarrow> bs = be_bytes 2 (unat w) @ r"
  unfolding CBS_get_u16_def by (rule fixed_width_iff) simp_all

lemma CBS_get_u32_iff: "CBS_get_u32 bs = (Some w, r) \<longleftrightarrow> bs = be_bytes 4 (unat w) @ r"
  unfolding CBS_get_u32_def by (rule fixed_width_iff) simp_all

text \<open>
  What a conversion between two encodings relies on: a reader that accepts exactly the encodings of
  the code points it can represent, and a writer that appends them.
\<close>

locale text_codec = canonical_codec enc dec valid
  for enc :: "u32 \<Rightarrow> byte list" and dec :: "cbs \<Rightarrow> u32 option \<times> cbs" and valid :: "u32 \<Rightarrow> bool" +
  fixes add :: "allocator \<Rightarrow> u32 \<Rightarrow> nat \<Rightarrow> cbb \<Rightarrow> unit option \<times> cbb"
  assumes add_appends: "valid u \<Longrightarrow> writable d s \<Longrightarrow> malloc_spec A \<Longrightarrow> length (closed d s) + 4 \<le> 2 ^ 59 \<Longrightarrow>
      appended A d s (enc u) (add A u d s)"
    and add_invalid: "\<not> valid u \<Longrightarrow> add A u d s = (None, s)"
    and enc_length: "valid u \<Longrightarrow> 1 \<le> length (enc u) \<and> length (enc u) \<le> 4"

interpretation utf8_text: text_codec "\<lambda>u. utf8 (unat u)" cbs_get_utf8 is_valid_code_point cbb_add_utf8
proof unfold_locales
  fix u A d s
  show "appended A d s (utf8 (unat u)) (cbb_add_utf8 A u d s)"
    if "is_valid_code_point u" "writable d s" "malloc_spec A" "length (closed d s) + 4 \<le> 2 ^ 59"
    using that by (rule cbb_add_utf8_appends)
  show "cbb_add_utf8 A u d s = (None, s)" if "\<not> is_valid_code_point u"
    using that by (simp add: cbb_add_utf8_def)
  show "1 \<le> length (utf8 (unat u)) \<and> length (utf8 (unat u)) \<le> 4" by (simp add: utf8_def)
qed

lemma unat_ucast_le:
  fixes u :: u32
  shows "unat u < 256 \<Longrightarrow> unat (ucast u :: byte) = unat u" "unat u < 65536 \<Longrightarrow> unat (ucast u :: u16) = unat u"
  by (simp_all add: unsigned_ucast_eq take_bit_eq_mod)

interpretation latin1: text_codec "\<lambda>u. [ucast u]" cbs_get_latin1 "\<lambda>u. u \<le> 0xff" cbb_add_latin1
proof unfold_locales
  fix u :: u32 and r bs :: "byte list" and d s A
  show "cbs_get_latin1 ([ucast u] @ r) = (Some u, r)" if "u \<le> 0xff"
    using that unat_ucast_le(1) [of u]
    by (simp add: cbs_get_latin1_def word_unat_eq_iff word_le_nat_alt unat_ucast_up)
  show "u \<le> 0xff \<and> bs = [ucast u] @ r" if "cbs_get_latin1 bs = (Some u, r)"
  proof -
    from that obtain c where "bs = c # r" "u = ucast c" by (cases bs) (auto simp: cbs_get_latin1_def)
    moreover have "ucast (ucast c :: u32) = c"
      using unat_ucast_le(1) [of "ucast c"] unsigned_less [of c, where 'a = nat]
      by (simp add: word_unat_eq_iff unat_ucast_up)
    moreover have "unat c < 256" using unsigned_less [of c, where 'a = nat] by simp
    moreover from this have "unat c \<le> 255" by linarith
    ultimately show ?thesis by (simp add: word_le_nat_alt unat_ucast_up)
  qed
  show "appended A d s [ucast u] (cbb_add_latin1 A u d s)"
    if "u \<le> 0xff" "writable d s" "malloc_spec A" "length (closed d s) + 4 \<le> 2 ^ 59"
    using that CBB_add_u8_appends [of d s A "ucast u"] by (simp add: cbb_add_latin1_def)
qed (simp_all add: cbb_add_latin1_def)

interpretation ucs2: text_codec "\<lambda>u. be_bytes 2 (unat u)" cbs_get_ucs2_be "\<lambda>u. u \<le> 0xffff \<and> is_valid_code_point u" cbb_add_ucs2_be
proof unfold_locales
  fix u :: u32 and r bs :: "byte list" and d s A
  have small: "unat (ucast u :: u16) = unat u" "ucast (ucast u :: u16) = u" if "u \<le> 0xffff"
  proof -
    show 1: "unat (ucast u :: u16) = unat u" using that by (intro unat_ucast_le(2)) (simp add: word_le_nat_alt)
    have "unat (ucast (ucast u :: u16) :: u32) = unat (ucast u :: u16)" by (rule unat_ucast_up) simp
    then show "ucast (ucast u :: u16) = u" by (simp only: 1 word_unat_eq_iff)
  qed
  show "cbs_get_ucs2_be (be_bytes 2 (unat u) @ r) = (Some u, r)" if v: "u \<le> 0xffff \<and> is_valid_code_point u"
  proof -
    have "CBS_get_u16 (be_bytes 2 (unat u) @ r) = (Some (ucast u), r)" using v small by (simp add: CBS_get_u16_iff)
    with v small show ?thesis by (simp add: cbs_get_ucs2_be_def)
  qed
  show "(u \<le> 0xffff \<and> is_valid_code_point u) \<and> bs = be_bytes 2 (unat u) @ r" if "cbs_get_ucs2_be bs = (Some u, r)"
  proof -
    from that obtain w r' where w: "CBS_get_u16 bs = (Some w, r')"
      and w': "(if \<not> is_valid_code_point (ucast w) then (None, r') else (Some (ucast w), r')) = (Some u, r)"
      unfolding cbs_get_ucs2_be_def andthen_Some_iff by blast
    from w' have v: "is_valid_code_point u" "u = ucast w" "r' = r" by (simp_all only: split: if_splits) simp_all
    have uw: "unat u = unat w" unfolding v(2) by (rule unat_ucast_up) simp
    have "unat w < 65536" using unsigned_less [of w, where 'a = nat] by simp
    then have "unat u \<le> 65535" unfolding uw by linarith
    moreover have "bs = be_bytes 2 (unat u) @ r" using w unfolding CBS_get_u16_iff uw v(3) .
    ultimately show ?thesis using v(1) by (simp add: word_le_nat_alt)
  qed
  show "appended A d s (be_bytes 2 (unat u)) (cbb_add_ucs2_be A u d s)"
    if "u \<le> 0xffff \<and> is_valid_code_point u" "writable d s" "malloc_spec A" "length (closed d s) + 4 \<le> 2 ^ 59"
    using that CBB_add_u16_appends [of d s A "ucast u"] small by (simp add: cbb_add_ucs2_be_def)
qed (auto simp: cbb_add_ucs2_be_def)

interpretation utf32: text_codec "\<lambda>u. be_bytes 4 (unat u)" cbs_get_utf32_be is_valid_code_point cbb_add_utf32_be
proof unfold_locales
  fix u :: u32 and r bs :: "byte list" and d s A
  show "cbs_get_utf32_be (be_bytes 4 (unat u) @ r) = (Some u, r)" if v: "is_valid_code_point u"
  proof -
    have "CBS_get_u32 (be_bytes 4 (unat u) @ r) = (Some u, r)" by (simp add: CBS_get_u32_iff)
    with v show ?thesis by (simp add: cbs_get_utf32_be_def)
  qed
  show "is_valid_code_point u \<and> bs = be_bytes 4 (unat u) @ r" if "cbs_get_utf32_be bs = (Some u, r)"
    using that by (auto simp: cbs_get_utf32_be_def andthen_Some_iff CBS_get_u32_iff split: if_splits)
  show "appended A d s (be_bytes 4 (unat u)) (cbb_add_utf32_be A u d s)"
    if "is_valid_code_point u" "writable d s" "malloc_spec A" "length (closed d s) + 4 \<le> 2 ^ 59"
    using that CBB_add_u32_appends [of d s A u] by (simp add: cbb_add_utf32_be_def)
qed (simp_all add: cbb_add_utf32_be_def)

section \<open>Properties\<close>

text \<open>
  C37. \<^verbatim>\<open>cbs_get_utf8\<close> accepts exactly the shortest-form UTF-8 encodings of the code points that
  are neither surrogates nor noncharacters, and returns the code point.
\<close>

theorem cbs_get_utf8_canonical:
  "cbs_get_utf8 bs = (Some u, r) \<longleftrightarrow>
     (unat u \<le> 0x10ffff \<and> unat u mod 0x10000 < 0xfffe \<and> (unat u < 0xfdd0 \<or> 0xfdef < unat u) \<and>
      (unat u < 0xd800 \<or> 0xdfff < unat u)) \<and> bs = utf8 (unat u) @ r"
  by (auto simp: cbs_get_utf8_iff is_valid_code_point_iff)

end
