(* ===== verification/Cbb_Set.thy ===== *)
theory Cbb_Set
  imports Cbb_Asn1 Comparison "HOL-Library.Multiset" "HOL-Library.List_Lexorder"
begin

text \<open>
  Model of \<^verbatim>\<open>CBB_flush_asn1_set_of\<close> in \<^verbatim>\<open>crypto/bytestring/cbb.c\<close>, which reorders the elements a handle
  holds into the DER order of a SET OF. \<^verbatim>\<open>compare_set_of_element\<close> is the lexicographic order, an
  interpretation of \<open>comparison\<close>; the C library's \<^verbatim>\<open>qsort\<close> is a parameter with \<open>qsort_spec\<close>.
\<close>

section \<open>Operations\<close>

definition compare_set_of_element :: "cbs \<Rightarrow> cbs \<Rightarrow> int" where
  "compare_set_of_element a b =
     (let a_len = CBS_len a; b_len = CBS_len b;
          min_len = (if a_len < b_len then a_len else b_len);
          ret = OPENSSL_memcmp a b min_len
      in if ret \<noteq> 0 then ret
         else if a_len = b_len then 0
         else if a_len < b_len then -1 else 1)"

text \<open>An element is at least one byte long, so the loops end.\<close>

lemma any_element_shorter:
  assumes "CBS_get_any_asn1_element cbs = (Some x, cbs')"
  shows "length cbs' < length cbs"
proof -
  obtain out tag hl where x: "x = (out, tag, hl)" by (rule prod_cases3)
  with assms have "cbs = out @ cbs'" "\<exists>c. out = der_element tag c"
    by (auto simp: CBS_get_any_asn1_element_def get_any_asn1_element_iff)
  then show ?thesis by (auto simp: der_element_def)
qed

function count_elements :: "cbs \<Rightarrow> size_t \<Rightarrow> size_t option" where
  "count_elements cbs num_children =
     (if CBS_len cbs = 0 then Some num_children
      else case CBS_get_any_asn1_element cbs of
             (None, _) \<Rightarrow> None
           | (Some _, cbs') \<Rightarrow> count_elements cbs' (size_wrap (num_children + 1)))"
  by pat_completeness auto
termination
  by (relation "measure (\<lambda>(cbs, n). length cbs)") (auto intro: any_element_shorter [OF sym])

declare count_elements.simps [simp del]

fun get_children :: "nat \<Rightarrow> cbs \<Rightarrow> cbs list option" where
  "get_children 0 cbs = Some []"
| "get_children (Suc n) cbs =
     (case CBS_get_any_asn1_element cbs of
        (None, _) \<Rightarrow> None
      | (Some (child, _), cbs) \<Rightarrow> map_option ((#) child) (get_children n cbs))"

fun add_children :: "allocator \<Rightarrow> cbs list \<Rightarrow> nat \<Rightarrow> cbb \<Rightarrow> unit option \<times> cbb" where
  "add_children A [] d s = (Some (), s)"
| "add_children A (child # children) d s =
     andthen (CBB_add_bytes A child d s) (\<lambda>_. add_children A children d)"

text \<open>Rewinding: \<^verbatim>\<open>base->len = offset + pending_len_len\<close>.\<close>

definition cbb_rewind :: "nat \<Rightarrow> cbb \<Rightarrow> cbb" where
  "cbb_rewind d s = s\<lparr>cbb_base := map_option (\<lambda>b. b\<lparr>cb_len := cbb_start d s\<rparr>) (cbb_base s)\<rparr>"

abbreviation (input) sizeof_CBS :: nat where "sizeof_CBS \<equiv> 16"

definition CBB_flush_asn1_set_of :: "allocator \<Rightarrow> ((cbs \<Rightarrow> cbs \<Rightarrow> int) \<Rightarrow> cbs list \<Rightarrow> cbs list) \<Rightarrow> nat \<Rightarrow> cbb \<Rightarrow> unit option \<times> cbb" where
  "CBB_flush_asn1_set_of A qsort d s =
     andthen (CBB_flush A d s) (\<lambda>_ s.
       case count_elements (CBS_init (CBB_data d s) (CBB_len d s)) 0 of
         None \<Rightarrow> (None, s)
       | Some num_children \<Rightarrow>
           if num_children < 2 then (Some (), s)
           else if num_children > (SIZE_LIMIT - 1) div sizeof_CBS then (None, s)
           else
             let buf_len = CBB_len d s
             in case (OPENSSL_memdup A (CBB_data d s) buf_len, OPENSSL_malloc A (num_children * sizeof_CBS)) of
                  (Some buf, Some _) \<Rightarrow>
                    (case get_children num_children (CBS_init buf buf_len) of
                       None \<Rightarrow> (None, s)
                     | Some children \<Rightarrow> add_children A (qsort compare_set_of_element children) d (cbb_rewind d s))
                | _ \<Rightarrow> (None, s))"

section \<open>The order of the elements\<close>

lemma memcmp_Nil: "memcmp a b 0 = 0"
  by (simp add: memcmp_def)

lemma find_of_map: "find P (map f xs) = map_option f (find (\<lambda>x. P (f x)) xs)"
  by (induction xs) auto

lemma memcmp_Cons:
  "memcmp (x # a) (y # b) (Suc n) = (if x \<noteq> y then if x < y then -1 else 1 else memcmp a b n)"
proof -
  have "find (\<lambda>i. (x # a) ! i \<noteq> (y # b) ! i) [0..<Suc n] =
      (if x \<noteq> y then Some 0 else map_option Suc (find (\<lambda>i. a ! i \<noteq> b ! i) [0..<n]))"
    unfolding upt_conv_Cons [OF zero_less_Suc] map_Suc_upt [symmetric]
    by (simp add: find_of_map del: upt_Suc)
  then show ?thesis by (simp add: memcmp_def split: option.splits)
qed

lemma compare_set_of_element_rec:
  "compare_set_of_element [] b = (if b = [] then 0 else -1)"
  "compare_set_of_element (x # a) [] = 1"
  "compare_set_of_element (x # a) (y # b) =
     (if x \<noteq> y then if x < y then -1 else 1 else compare_set_of_element a b)"
proof -
  show "compare_set_of_element (x # a) (y # b) =
     (if x \<noteq> y then if x < y then -1 else 1 else compare_set_of_element a b)"
    by (simp add: compare_set_of_element_def CBS_len_def OPENSSL_memcmp_def memcmp_Cons Let_def memcmp_Nil)
qed (auto simp: compare_set_of_element_def CBS_len_def OPENSSL_memcmp_def Let_def)

lemma compare_set_of_element_order:
  "compare_set_of_element a b = (if a < b then -1 else if a = b then 0 else 1)"
proof (induction a arbitrary: b)
  case Nil
  then show ?case by (cases b) (simp_all add: compare_set_of_element_rec)
next
  case (Cons x a)
  then show ?case by (cases b) (auto simp: compare_set_of_element_rec)
qed

interpretation set_of: comparison compare_set_of_element
  by unfold_locales (auto simp: compare_set_of_element_order split: if_splits)

lemma qsort_set_of:
  assumes "qsort_spec qsort"
  shows "qsort compare_set_of_element xs = sort xs"
proof (rule properties_for_sort [symmetric])
  show "mset (qsort compare_set_of_element xs) = mset xs"
    by (rule multiset_eqI) (simp add: qsort_specD(2) [OF assms set_of.comparison_axioms] count_mset)
  have "sorted_wrt (\<lambda>x y. compare_set_of_element x y \<le> 0) (qsort compare_set_of_element xs)"
    by (rule qsort_specD(3) [OF assms set_of.comparison_axioms])
  then show "sorted (qsort compare_set_of_element xs)"
    by (rule sorted_wrt_mono_rel [rotated]) (auto simp: compare_set_of_element_order split: if_splits)
qed

section \<open>Reading the elements back\<close>

abbreviation element_of :: "u32 \<times> byte list \<Rightarrow> byte list" where
  "element_of x \<equiv> der_element (fst x) (snd x)"

lemma get_element:
  "length c < 2 ^ 32 \<Longrightarrow> \<exists>hl. CBS_get_any_asn1_element (der_element t c @ r) = (Some (der_element t c, t, hl), r)"
  by (intro exI) (simp add: CBS_get_any_asn1_element_def get_any_asn1_element_DER)

lemma der_element_nonempty [simp]: "der_element t c \<noteq> []"
  by (simp add: der_element_def)

lemma count_elements_concat:
  assumes "\<forall>x \<in> set xs. length (snd x) < 2 ^ 32" "n + length xs < SIZE_LIMIT"
  shows "count_elements (concat (map element_of xs)) n = Some (n + length xs)"
  using assms
proof (induction xs arbitrary: n)
  case Nil
  then show ?case by (simp add: count_elements.simps CBS_len_def)
next
  case (Cons x xs)
  then obtain hl where "CBS_get_any_asn1_element (element_of x @ concat (map element_of xs)) =
      (Some (element_of x, fst x, hl), concat (map element_of xs))"
    using get_element [of "snd x" "fst x" "concat (map element_of xs)"] by auto
  moreover have "CBS_len (element_of x @ concat (map element_of xs)) \<noteq> 0"
    by (simp add: CBS_len_def del: der_element_length)
  ultimately show ?case using Cons
    by (subst count_elements.simps) (simp del: der_element_length)
qed

lemma get_children_concat:
  assumes "\<forall>x \<in> set xs. length (snd x) < 2 ^ 32"
  shows "get_children (length xs) (concat (map element_of xs)) = Some (map element_of xs)"
  using assms
proof (induction xs)
  case (Cons x xs)
  then obtain hl where "CBS_get_any_asn1_element (element_of x @ concat (map element_of xs)) =
      (Some (element_of x, fst x, hl), concat (map element_of xs))"
    using get_element [of "snd x" "fst x" "concat (map element_of xs)"] by auto
  with Cons show ?case by simp
qed simp

lemma count_le_concat: "length xs \<le> length (concat (map element_of xs))"
proof (induction xs)
  case (Cons x xs)
  have "0 < length (element_of x)" unfolding length_greater_0_conv by (rule der_element_nonempty)
  with Cons show ?case unfolding list.map concat.simps length_append list.size by linarith
qed simp

lemma length_concat_mset: "mset xs = mset ys \<Longrightarrow> length (concat xs) = length (concat ys)"
  by (simp add: length_concat flip: sum_mset_sum_list)

lemma malloc_None: "OPENSSL_malloc A n = None \<Longrightarrow> \<exists>m. A m = None"
  by (auto simp: OPENSSL_malloc_def split: option.splits)

lemma memdup_None: "OPENSSL_memdup A mem n = None \<Longrightarrow> n \<noteq> 0 \<Longrightarrow> \<exists>m. A m = None"
  by (auto simp: OPENSSL_memdup_def intro: malloc_None split: option.splits if_splits)

section \<open>Writing them in order\<close>

lemma add_children_appends:
  assumes "writable d s" "length (cbb_chain s) = d" "malloc_spec A" "length (closed d s) + length (concat xs) \<le> 2 ^ 59"
  shows "appended A d s (concat xs) (add_children A xs d s)"
  using assms
proof (induction xs arbitrary: s)
  case Nil
  then show ?case by (simp add: appended_skip)
next
  case (Cons x xs)
  have "appended A d s (x @ concat xs) (andthen (CBB_add_bytes A x d s) (\<lambda>_. add_children A xs d))"
  proof (rule appended_andthen)
    show "appended A d s x (CBB_add_bytes A x d s)" using Cons.prems by (intro CBB_add_bytes_appends) simp_all
    fix a s' assume s': "writable d s'" "closed d s' = closed d s @ x" "cbb_chain s' = take d (cbb_chain s)"
    show "appended A d s' (concat xs) (add_children A xs d s')"
      by (rule Cons.IH [OF s'(1)]) (use s' Cons.prems in simp_all)
  qed
  then show ?case by simp
qed

lemma cbb_start_le:
  assumes "writable d s" "length (cbb_chain s) = d" "cbb_base s = Some b"
  shows "cbb_start d s \<le> cb_len b" "chain_ok 0 (cbb_start d s) (cbb_chain s)"
proof -
  have ok: "chain_ok 0 (cb_len b) (cbb_chain s)" using assms by (simp add: writable_def cbb_ok_def)
  have "cbb_start d s \<le> cb_len b \<and> chain_ok 0 (cbb_start d s) (cbb_chain s)"
  proof (cases d)
    case (Suc i)
    then obtain cs c where cs: "cbb_chain s = cs @ [c]" using assms(2) by (cases "cbb_chain s" rule: rev_cases) auto
    then have "cbb_chain s ! i = c" using assms(2) Suc by (auto simp: nth_append)
    then show ?thesis using ok by (simp add: cs Suc cbb_start_def chain_ok_append child_end_def)
  qed (use assms(2) in \<open>simp add: cbb_start_def\<close>)
  then show "cbb_start d s \<le> cb_len b" "chain_ok 0 (cbb_start d s) (cbb_chain s)" by simp_all
qed

lemma cbb_rewind_spec:
  assumes w: "writable d s" and d: "length (cbb_chain s) = d"
  shows "writable d (cbb_rewind d s)" "cbb_chain (cbb_rewind d s) = cbb_chain s" "roomy A (cbb_rewind d s) n \<longleftrightarrow> roomy A s n"
    "closed d (cbb_rewind d s) = take (cbb_start d s) (closed d s)" "grew s (cbb_rewind d s)"
proof -
  from w obtain b where b: "cbb_base s = Some b" "buffer_ok b" "\<not> cb_error b"
    by (auto simp: writable_def cbb_ok_def split: option.splits)
  note start = cbb_start_le [OF w d b(1)]
  show "writable d (cbb_rewind d s)" using start b d by (simp add: cbb_rewind_def writable_def cbb_ok_def buffer_ok_def)
  show chain: "cbb_chain (cbb_rewind d s) = cbb_chain s" by (simp add: cbb_rewind_def)
  show "roomy A (cbb_rewind d s) n \<longleftrightarrow> roomy A s n" by (simp add: cbb_rewind_def roomy_def b room_def)
  show "closed d (cbb_rewind d s) = take (cbb_start d s) (closed d s)"
    using start by (simp add: closed_at_end d chain written_def cbb_rewind_def b contents_def min_absorb1)
  show "grew s (cbb_rewind d s)" by (simp add: grew_def cbb_rewind_def b)
qed

lemma innermost_data:
  assumes "writable d s" "length (cbb_chain s) = d"
  shows "CBS_init (CBB_data d s) (CBB_len d s) = drop (cbb_start d s) (closed d s)"
    "CBB_len d s = length (drop (cbb_start d s) (closed d s))" "CBB_len d s \<le> length (CBB_data d s)"
proof -
  from assms(1) obtain b where b: "cbb_base s = Some b" "buffer_ok b"
    by (auto simp: writable_def cbb_ok_def split: option.splits)
  have "closed d s = take (cb_len b) (cb_buf b)" "cb_len b \<le> length (cb_buf b)"
    using assms(2) b by (simp_all add: closed_at_end written_def contents_def buffer_ok_def)
  then show "CBS_init (CBB_data d s) (CBB_len d s) = drop (cbb_start d s) (closed d s)"
    "CBB_len d s = length (drop (cbb_start d s) (closed d s))" "CBB_len d s \<le> length (CBB_data d s)"
    by (simp_all add: CBS_init_def CBB_data_def CBB_len_def b drop_take)
qed

section \<open>Properties\<close>

text \<open>
  C19. On a handle that holds DER elements, \<^verbatim>\<open>CBB_flush_asn1_set_of\<close> rewrites them in the ascending
  lexicographic order of their encodings (X.690, 11.6) and leaves what is in front of the handle's
  contents as it was; it fails only if an allocation fails, an open child does not fit its prefix,
  or the buffer has no room for that child.
\<close>

theorem CBB_flush_asn1_set_of_sorts:
  assumes w: "writable d s" and A: "malloc_spec A" and q: "qsort_spec qsort"
    and c: "closed d s = pre @ concat (map element_of xs)" "length pre = cbb_start d s"
    and xs: "\<forall>x \<in> set xs. length (snd x) < 2 ^ 32" and small: "length (closed d s) \<le> 2 ^ 55"
  shows "case CBB_flush_asn1_set_of A qsort d s of
      (None, s') \<Rightarrow> \<not> (fits d s \<and> roomy A s (length (closed d s))) \<or> (\<exists>n. A n = None)
    | (Some _, s') \<Rightarrow> writable d s' \<and> cbb_chain s' = take d (cbb_chain s) \<and>
        closed d s' = pre @ concat (sort (map element_of xs))"
proof -
  have fl: "appended A d s [] (CBB_flush A d s)" by (rule CBB_flush_appended [OF w A]) (use small in simp)
  obtain r s1 where s1: "CBB_flush A d s = (r, s1)" by (rule prod.exhaust)
  show ?thesis
  proof (cases r)
    case None
    with fl s1 show ?thesis by (simp add: CBB_flush_asn1_set_of_def appended_def)
  next
    case (Some u)
    with fl s1 have 1: "writable d s1" "cbb_chain s1 = take d (cbb_chain s)" "closed d s1 = closed d s" "fits d s" "grew s s1"
      by (simp_all add: appended_def)
    have d: "length (cbb_chain s1) = d" using 1(2) w by (simp add: writable_def)
    have start: "cbb_start d s1 = length pre" using c(2) w by (cases d) (simp_all add: cbb_start_def 1(2) writable_def)
    let ?es = "map element_of xs"
    have data: "CBS_init (CBB_data d s1) (CBB_len d s1) = concat ?es" "CBB_len d s1 = length (concat ?es)"
      using innermost_data(1,2) [OF 1(1) d] by (simp_all add: start 1(3) c(1))
    have n: "length xs \<le> 2 ^ 55" "length (concat ?es) \<le> 2 ^ 55"
      using count_le_concat [of xs] small by (simp_all add: c(1))
    have count: "count_elements (concat ?es) 0 = Some (length xs)"
      using count_elements_concat [OF xs, of 0] n by simp
    show ?thesis
    proof (cases "length xs < 2")
      case True
      then have "sort ?es = ?es" by (cases xs; cases "tl xs") auto
      with True show ?thesis by (simp add: CBB_flush_asn1_set_of_def s1 Some data(1) count 1 c(1))
    next
      case False
      let ?sorted = "sort ?es"
      define s2 where "s2 = cbb_rewind d s1"
      note rw = cbb_rewind_spec [OF 1(1) d, folded s2_def]
      have concat_len: "length (concat ?sorted) = length (concat ?es)"
        by (rule length_concat_mset) simp
      have "appended A d s2 (concat ?sorted) (add_children A ?sorted d s2)"
        by (rule add_children_appends) (use rw d A n(2) small in \<open>simp_all add: start concat_len 1(3) c(1)\<close>)
      moreover have "closed d s2 = pre" using rw(4) by (simp add: start 1(3) c(1))
      moreover have "CBB_flush_asn1_set_of A qsort d s = (None, s1) \<and> (\<exists>n. A n = None) \<or>
          CBB_flush_asn1_set_of A qsort d s = add_children A ?sorted d s2"
      proof (cases "OPENSSL_memdup A (CBB_data d s1) (CBB_len d s1) = None \<or> OPENSSL_malloc A (length xs * 16) = None")
        case True
        have "\<not> (SIZE_LIMIT - 1) div 16 < length xs" using n(1) by simp
        moreover have "CBB_len d s1 \<noteq> 0" using count_le_concat [of xs] False unfolding data(2) by linarith
        with True have "\<exists>n. A n = None" by (auto dest: memdup_None malloc_None)
        ultimately show ?thesis using False True
          by (simp add: CBB_flush_asn1_set_of_def s1 Some data(1) count Let_def) (auto split: option.splits)
      next
        case ok: False
        then obtain buf blk where mem: "OPENSSL_memdup A (CBB_data d s1) (CBB_len d s1) = Some buf"
          "OPENSSL_malloc A (length xs * 16) = Some blk" by auto
        have "buf = take (CBB_len d s1) (CBB_data d s1)"
          by (rule OPENSSL_memdup_copy [OF A _ mem(1) innermost_data(3) [OF 1(1) d]]) (use n(2) data(2) in simp)
        then have "CBS_init buf (CBB_len d s1) = concat ?es" using data by (simp add: CBS_init_def)
        moreover have "\<not> (SIZE_LIMIT - 1) div 16 < length xs" using n(1) by simp
        ultimately show ?thesis using False
          by (simp add: CBB_flush_asn1_set_of_def s1 Some data(1) count Let_def mem get_children_concat [OF xs]
              qsort_set_of [OF q] s2_def)
      qed
      moreover have "fits d s2" by (rule fits_at_end) (simp add: rw(2) d)
      ultimately show ?thesis
        using 1 rw(2,3,5) roomy_grew [OF 1(5), of A "length (closed d s)"] concat_len
        by (auto simp: appended_def c(1) split: option.splits prod.splits)
    qed
  qed
qed

text \<open>A SET OF with two octet strings, opened in a new object; \<open>insertion_sort\<close> stands for \<^verbatim>\<open>qsort\<close>.\<close>

definition sample_set :: cbb where
  "sample_set = \<lparr>cbb_base = Some \<lparr>cb_buf = [0x31, 0, 4, 1, 9, 4, 1, 7, 0, 0], cb_len = 8, cb_cap = 10, cb_can_resize = False,
     cb_error = False\<rparr>, cbb_chain = [\<lparr>child_offset = 1, pending_len_len = 1, pending_is_asn1 = True\<rparr>]\<rparr>"

theorem CBB_flush_asn1_set_of_sorts_witness:
  "\<exists>s'. CBB_flush_asn1_set_of sample_malloc insertion_sort 1 sample_set = (Some (), s') \<and>
     closed 1 s' = [0x31, 0, 4, 1, 7, 4, 1, 9]"
proof -
  have el: "der_element 4 [x] = [4, 1, x]" for x
    by (simp add: der_element_def der_tag_def tag_number_def tag_class_def der_length_def)
  have w: "writable 1 sample_set" by (simp add: sample_set_def writable_def cbb_ok_def buffer_ok_def child_ok_def child_end_def)
  have c: "closed 1 sample_set = [0x31, 0] @ concat (map element_of [(4, [9]), (4, [7])])"
    by (simp add: closed_def sample_set_def written_def contents_def el)
  have f: "fits 1 sample_set" "roomy sample_malloc sample_set (length (closed 1 sample_set))"
    unfolding c by (simp_all add: fits_def sample_set_def roomy_def room_def el)
  obtain r s' where r: "CBB_flush_asn1_set_of sample_malloc insertion_sort 1 sample_set = (r, s')" by (rule prod.exhaust)
  have "case CBB_flush_asn1_set_of sample_malloc insertion_sort 1 sample_set of
      (None, s') \<Rightarrow> \<not> (fits 1 sample_set \<and> roomy sample_malloc sample_set (length (closed 1 sample_set))) \<or> (\<exists>n. sample_malloc n = None)
    | (Some _, s') \<Rightarrow> writable 1 s' \<and> cbb_chain s' = take 1 (cbb_chain sample_set) \<and>
        closed 1 s' = [0x31, 0] @ concat (sort (map element_of [(4, [9]), (4, [7])]))"
    by (rule CBB_flush_asn1_set_of_sorts [OF w malloc_spec_sample insertion_sort_spec c])
      (simp_all add: sample_set_def cbb_start_def closed_def written_def contents_def)
  with f show ?thesis by (cases r) (simp_all add: r sample_malloc_total el del: One_nat_def)
qed

end
