(* ===== verification/Oid.thy ===== *)
theory Oid
  imports Cbb_Asn1
begin

text \<open>
  Model of the conversions between the text and the DER contents of an object identifier:
  \<^verbatim>\<open>CBB_add_asn1_oid_from_text\<close> in \<^verbatim>\<open>cbb.c\<close> and \<^verbatim>\<open>CBS_asn1_oid_to_text\<close> in \<^verbatim>\<open>cbs.c\<close>. They are specified
  over the list of arcs; \<open>decimal\<close> is also the output of \<^verbatim>\<open>BIO_snprintf\<close> with \<^verbatim>\<open>PRIu64\<close>.
\<close>

section \<open>Operations\<close>

function decimal :: "nat \<Rightarrow> byte list" where
  "decimal n = (if n < 10 then [word_of_nat (48 + n)] else decimal (n div 10) @ [word_of_nat (48 + n mod 10)])"
  by pat_completeness auto
termination by (relation "measure id") auto

declare decimal.simps [simp del]

lemma parse_base128_shorter:
  "parse_base128_integer cbs = (Some v, r) \<Longrightarrow> length r < length cbs"
  using b128.enc_dec [of cbs v r] by (auto simp: der_base128_def)

lemma parse_dotted_shorter:
  "parse_dotted_loop seen out cbs = (Some v, r) \<Longrightarrow> length r \<le> length cbs \<and> (seen \<or> length r < length cbs)"
  by (induction seen out cbs rule: parse_dotted_loop.induct) (auto split: if_splits)

definition add_decimal :: "allocator \<Rightarrow> u64 \<Rightarrow> nat \<Rightarrow> cbb \<Rightarrow> unit option \<times> cbb" where
  "add_decimal A v d s = CBB_add_bytes A (decimal (unat v)) d s"

text \<open>The first two components of the text come from one integer.\<close>

definition oid_text_head :: "allocator \<Rightarrow> u64 \<Rightarrow> cbb \<Rightarrow> unit option \<times> cbb" where
  "oid_text_head A v s =
     (if v \<ge> 80 then andthen (CBB_add_bytes A [50, 46] 0 s) (\<lambda>_. add_decimal A (v - 80) 0)
      else andthen (add_decimal A (v div 40) 0 s) (\<lambda>_ s.
             andthen (CBB_add_u8 A 46 0 s) (\<lambda>_. add_decimal A (v mod 40) 0)))"

function oid_text_rest :: "allocator \<Rightarrow> cbs \<Rightarrow> cbb \<Rightarrow> unit option \<times> cbb" where
  "oid_text_rest A copy s =
     (if CBS_len copy = 0 then (Some (), s)
      else case parse_base128_integer copy of
             (None, _) \<Rightarrow> (None, s)
           | (Some v, copy') \<Rightarrow>
               andthen (CBB_add_u8 A 46 0 s) (\<lambda>_ s.
                 andthen (add_decimal A v 0 s) (\<lambda>_. oid_text_rest A copy')))"
  by pat_completeness auto
termination
  by (relation "measure (\<lambda>(A, copy, s). length copy)") (auto intro: parse_base128_shorter [OF sym])

declare oid_text_rest.simps [simp del]

text \<open>The returned string, with its terminating zero byte.\<close>

definition CBS_asn1_oid_to_text :: "allocator \<Rightarrow> cbs \<Rightarrow> byte list option" where
  "CBS_asn1_oid_to_text A cbs =
     (case CBB_init A 32 of
        None \<Rightarrow> None
      | Some s \<Rightarrow>
          (case parse_base128_integer cbs of
             (None, _) \<Rightarrow> None
           | (Some v, copy) \<Rightarrow>
               map_option (\<lambda>(txt, txt_len). take txt_len txt)
                 (fst (andthen (oid_text_head A v s) (\<lambda>_ s.
                    andthen (oid_text_rest A copy s) (\<lambda>_ s.
                      andthen (CBB_add_u8 A 0 0 s) (\<lambda>_. CBB_finish A True 0)))))))"

function oid_components :: "allocator \<Rightarrow> cbs \<Rightarrow> nat \<Rightarrow> cbb \<Rightarrow> unit option \<times> cbb" where
  "oid_components A cbs d s =
     (if CBS_len cbs > 0 then
        (case parse_dotted_decimal cbs of
           (None, _) \<Rightarrow> (None, s)
         | (Some a, cbs') \<Rightarrow> andthen (add_base128_integer A a d s) (\<lambda>_. oid_components A cbs' d))
      else (Some (), s))"
  by pat_completeness auto
termination
  by (relation "measure (\<lambda>(A, cbs, d, s). length cbs)")
    (auto simp: parse_dotted_decimal_def dest: parse_dotted_shorter [OF sym])

declare oid_components.simps [simp del]

definition CBB_add_asn1_oid_from_text :: "allocator \<Rightarrow> byte list \<Rightarrow> size_t \<Rightarrow> nat \<Rightarrow> cbb \<Rightarrow> unit option \<times> cbb" where
  "CBB_add_asn1_oid_from_text A text len d s =
     andthen (CBB_flush A d s) (\<lambda>_ s.
       case parse_dotted_decimal (CBS_init text len) of
         (None, _) \<Rightarrow> (None, s)
       | (Some a, cbs) \<Rightarrow>
           (case parse_dotted_decimal cbs of
              (None, _) \<Rightarrow> (None, s)
            | (Some b, cbs) \<Rightarrow>
                if a > 2 \<or> (a < 2 \<and> b > 39) \<or> b > - 1 - 80 then (None, s)
                else andthen (add_base128_integer A (40 * a + b) d s) (\<lambda>_. oid_components A cbs d)))"

section \<open>Decimal numbers\<close>

definition digit_val :: "byte \<Rightarrow> nat" where
  "digit_val u = unat u - 48"

definition digits_val :: "nat \<Rightarrow> byte list \<Rightarrow> nat" where
  "digits_val n ds = foldl (\<lambda>n u. n * 10 + digit_val u) n ds"

abbreviation is_digit :: "byte \<Rightarrow> bool" where
  "is_digit u \<equiv> 48 \<le> unat u \<and> unat u \<le> 57"

lemma digits_val_simps [simp]:
  "digits_val n [] = n" "digits_val n (u # ds) = digits_val (n * 10 + digit_val u) ds"
  "digits_val n (ds @ [u]) = digits_val n ds * 10 + digit_val u"
  by (simp_all add: digits_val_def)

lemma digits_val_ge: "n \<le> digits_val n ds"
proof (induction ds rule: rev_induct)
  case (snoc u ds)
  then show ?case by simp
qed simp

text \<open>\<open>decimal\<close> is the inverse of \<open>digits_val\<close> on digit strings without leading zeros.\<close>

lemma decimal_digits: "\<forall>u \<in> set (decimal n). is_digit u"
proof (induction n rule: decimal.induct)
  case (1 n)
  show ?case using 1 by (subst decimal.simps) (auto simp: unat_of_nat simp del: of_nat_add)
qed

lemma decimal_val: "digits_val 0 (decimal n) = n"
proof (induction n rule: decimal.induct)
  case (1 n)
  show ?case using 1 by (subst decimal.simps) (auto simp: digit_val_def simp del: of_nat_add)
qed

lemma decimal_nonempty [simp]: "decimal n \<noteq> []"
  by (subst decimal.simps) simp

lemma decimal_leading: "n > 0 \<Longrightarrow> hd (decimal n) \<noteq> 48"
proof (induction n rule: decimal.induct)
  case (1 n)
  show ?case
  proof (cases "n < 10")
    case True
    then have "unat (word_of_nat (48 + n) :: byte) \<noteq> unat (48 :: byte)" using 1 by (simp del: of_nat_add)
    then have "(word_of_nat (48 + n) :: byte) \<noteq> 48" by metis
    then show ?thesis using True by (subst decimal.simps) (auto simp del: of_nat_add)
  next
    case False
    then have "hd (decimal (n div 10)) \<noteq> 48" using 1 by simp
    then show ?thesis using False by (subst decimal.simps) simp
  qed
qed

lemma decimal_digits_val:
  assumes "\<forall>u \<in> set ds. is_digit u" "is_digit d" "d \<noteq> 48"
  shows "decimal (digits_val 0 (d # ds)) = d # ds"
  using assms
proof (induction ds rule: rev_induct)
  case Nil
  then have "digit_val d < 10" "word_of_nat (48 + digit_val d) = d" by (auto simp: digit_val_def simp del: of_nat_add)
  then show ?case by (subst decimal.simps) simp
next
  case (snoc u ds)
  have "0 < digit_val d" using snoc.prems by (auto simp: digit_val_def word_unat_eq_iff)
  then have ge: "1 \<le> digits_val 0 (d # ds)" using digits_val_ge [of "digit_val d" ds] by simp
  have u: "digit_val u < 10" "word_of_nat (48 + digit_val u) = u"
    using snoc.prems by (auto simp: digit_val_def simp del: of_nat_add)
  let ?n = "digits_val 0 (d # ds)"
  have "digits_val 0 (d # ds @ [u]) = ?n * 10 + digit_val u" using digits_val_simps(3) [of 0 "d # ds" u] by simp
  moreover have "decimal (?n * 10 + digit_val u) = decimal ?n @ [u]"
    using ge u by (subst decimal.simps) (simp del: of_nat_add digits_val_simps(2))
  ultimately show ?case using snoc by simp
qed

section \<open>Components of the text\<close>

lemma dotted_step:
  assumes "is_digit u"
  shows "parse_dotted_loop seen out (u # r) =
    (if (seen \<and> out = 0) \<or> 2 ^ 64 \<le> unat out * 10 + digit_val u then (None, r)
     else parse_dotted_loop True (word_of_nat (unat out * 10 + digit_val u)) r)"
proof -
  let ?d = "ucast (u - 48) :: u64"
  have u: "u \<noteq> 46" "\<not> u < 48" "\<not> u > 57" using assms by (auto simp: word_less_nat_alt)
  have "unat (u - 48) = digit_val u" using assms by (simp add: digit_val_def unat_sub word_le_nat_alt)
  then have d: "unat ?d = digit_val u" by (simp add: unat_ucast_up)
  have d10: "digit_val u < 10" using assms unfolding digit_val_def by linarith
  have max: "unat (- 1 :: u64) = 2 ^ 64 - 1" by (simp add: unsigned_minus_1_eq_mask mask_eq_exp_minus_1)
  have q: "unat ((- 1 :: u64) div 10) = (2 ^ 64 - 1) div 10" by (simp add: unat_div max)
  have rest: "unat (- 1 - ?d) = 2 ^ 64 - 1 - digit_val u"
    using d d10 by (simp add: unat_sub word_le_nat_alt max)
  show ?thesis
  proof (cases "out > (- 1) div 10")
    case True
    then have "(2 ^ 64 - 1) div 10 < unat out" by (simp only: word_less_nat_alt q)
    then have "2 ^ 64 \<le> unat out * 10 + digit_val u" by simp
    with True u show ?thesis by simp
  next
    case False
    then have "unat out \<le> (2 ^ 64 - 1) div 10" by (simp only: word_less_nat_alt q not_less)
    then have small: "unat out * 10 < 2 ^ 64" by simp
    then have ten: "unat (out * 10) = unat out * 10" by (simp add: unat_word_ariths)
    have ov: "out * 10 > - 1 - ?d \<longleftrightarrow> 2 ^ 64 \<le> unat out * 10 + digit_val u"
      using d10 by (simp only: word_less_nat_alt rest ten) auto
    have "out * 10 + ?d = word_of_nat (unat out * 10 + digit_val u)"
    proof -
      have "out * 10 + ?d = word_of_nat (unat (out * 10) + unat ?d)" by simp
      then show ?thesis unfolding ten d .
    qed
    with u False ov show ?thesis by (simp del: of_nat_add of_nat_mult)
  qed
qed

text \<open>A component in front of the rest of the text.\<close>

definition joined :: "u64 \<Rightarrow> byte list \<Rightarrow> byte list" where
  "joined v r = decimal (unat v) @ (if r = [] then [] else 46 # r)"

lemma parse_dotted_loop_iff:
  "parse_dotted_loop True out bs = (Some v, r) \<longleftrightarrow>
     (\<exists>ds. (\<forall>u \<in> set ds. is_digit u) \<and> (out = 0 \<longrightarrow> ds = []) \<and> digits_val (unat out) ds = unat v \<and>
        bs = ds @ (if r = [] then [] else 46 # r))"
proof (induction bs arbitrary: out)
  case Nil
  then show ?case by (auto simp: word_unat_eq_iff)
next
  case (Cons u bs)
  show ?case
  proof (cases "is_digit u")
    case True
    then have u46: "u \<noteq> 46" by auto
    let ?n = "unat out * 10 + digit_val u"
    have split: "(\<exists>ds. (\<forall>u \<in> set ds. is_digit u) \<and> (out = 0 \<longrightarrow> ds = []) \<and> digits_val (unat out) ds = unat v \<and>
        u # bs = ds @ (if r = [] then [] else 46 # r)) \<longleftrightarrow>
      (\<exists>ds. (\<forall>u \<in> set ds. is_digit u) \<and> out \<noteq> 0 \<and> digits_val ?n ds = unat v \<and>
        bs = ds @ (if r = [] then [] else 46 # r))" (is "(\<exists>ds. ?P ds) \<longleftrightarrow> (\<exists>ds. ?Q ds)")
    proof
      assume "\<exists>ds. ?P ds"
      then obtain ds where ds: "?P ds" by blast
      with u46 obtain ds' where "ds = u # ds'" by (cases ds) (auto split: if_splits)
      with ds show "\<exists>ds. ?Q ds" by (intro exI [of _ ds']) auto
    next
      assume "\<exists>ds. ?Q ds"
      then obtain ds where "?Q ds" by blast
      with True show "\<exists>ds. ?P ds" by (intro exI [of _ "u # ds"]) auto
    qed
    show ?thesis
    proof (cases "out = 0 \<or> 2 ^ 64 \<le> ?n")
      case ov: True
      have "digits_val ?n ds \<noteq> unat v" if "2 ^ 64 \<le> ?n" for ds
        using that digits_val_ge [of ?n ds] unsigned_less [of v, where 'a = nat] by simp
      with ov show ?thesis unfolding split dotted_step [OF True] by auto
    next
      case False
      then have n: "unat (word_of_nat ?n :: u64) = ?n" by (simp add: unat_of_nat del: of_nat_add of_nat_mult)
      then have "(word_of_nat ?n :: u64) \<noteq> 0" using False by (auto simp: unat_eq_0 [symmetric] simp del: of_nat_add of_nat_mult unat_eq_0)
      then show ?thesis unfolding split dotted_step [OF True] using False Cons.IH [of "word_of_nat ?n"]
        by (simp add: n del: of_nat_add of_nat_mult)
    qed
  next
    case False
    then have no: "u = 46 \<or> u < 48 \<or> u > 57" by (auto simp: word_less_nat_alt)
    have "(\<exists>ds. (\<forall>u \<in> set ds. is_digit u) \<and> (out = 0 \<longrightarrow> ds = []) \<and> digits_val (unat out) ds = unat v \<and>
        u # bs = ds @ (if r = [] then [] else 46 # r)) \<longleftrightarrow> out = v \<and> u = 46 \<and> r = bs \<and> bs \<noteq> []" (is "(\<exists>ds. ?P ds) \<longleftrightarrow> ?Q")
    proof
      assume "\<exists>ds. ?P ds"
      then obtain ds where ds: "?P ds" by blast
      with False have "ds = []" by (cases ds) auto
      with ds show ?Q by (auto simp: word_unat_eq_iff split: if_splits)
    qed (auto intro: exI [of _ "[]"])
    with no show ?thesis by auto
  qed
qed

lemma parse_dotted_decimal_iff:
  "parse_dotted_decimal bs = (Some v, r) \<longleftrightarrow> bs = joined v r"
proof (cases bs)
  case Nil
  then show ?thesis by (simp add: parse_dotted_decimal_def joined_def)
next
  case (Cons u us)
  show ?thesis
  proof (cases "is_digit u")
    case True
    then have d10: "digit_val u < 10" unfolding digit_val_def by linarith
    have "digit_val u = 0 \<longleftrightarrow> unat u = 48" using True unfolding digit_val_def by linarith
    then have d: "(word_of_nat (digit_val u) :: u64) = 0 \<longleftrightarrow> u = 48"
      using d10 by (simp add: word_unat_eq_iff unat_of_nat)
    have "parse_dotted_decimal bs = (Some v, r) \<longleftrightarrow>
        (\<exists>ds. (\<forall>u \<in> set ds. is_digit u) \<and> (u = 48 \<longrightarrow> ds = []) \<and> digits_val (digit_val u) ds = unat v \<and>
          us = ds @ (if r = [] then [] else 46 # r))"
      unfolding parse_dotted_decimal_def Cons dotted_step [OF True]
      using d d10 by (simp add: parse_dotted_loop_iff unat_of_nat)
    also have "\<dots> \<longleftrightarrow> bs = joined v r"
    proof
      assume "\<exists>ds. (\<forall>u \<in> set ds. is_digit u) \<and> (u = 48 \<longrightarrow> ds = []) \<and> digits_val (digit_val u) ds = unat v \<and>
          us = ds @ (if r = [] then [] else 46 # r)"
      then obtain ds where ds: "\<forall>u \<in> set ds. is_digit u" "u = 48 \<longrightarrow> ds = []" "digits_val (digit_val u) ds = unat v"
          "us = ds @ (if r = [] then [] else 46 # r)" by blast
      have "decimal (unat v) = u # ds"
      proof (cases "u = 48")
        case True
        then have "unat v = 0" using ds by (simp add: digit_val_def)
        then show ?thesis using True ds(2) by (subst decimal.simps) simp
      next
        case False
        with decimal_digits_val [OF ds(1) True False] ds(3) show ?thesis by simp
      qed
      with ds(4) show "bs = joined v r" by (simp add: Cons joined_def)
    next
      assume bs: "bs = joined v r"
      obtain ds where ds: "decimal (unat v) = u # ds" using bs by (cases "decimal (unat v)") (auto simp: Cons joined_def)
      have "ds = []" if "u = 48"
      proof -
        have "unat v = 0" using decimal_leading [of "unat v"] ds that by auto
        then have "decimal (unat v) = [48]" by (subst decimal.simps) simp
        with ds show ?thesis by simp
      qed
      moreover have "\<forall>u \<in> set ds. is_digit u" using decimal_digits [of "unat v"] by (simp add: ds)
      moreover have "digits_val (digit_val u) ds = unat v" using decimal_val [of "unat v"] by (simp add: ds)
      moreover have "us = ds @ (if r = [] then [] else 46 # r)" using bs by (simp add: Cons joined_def ds)
      ultimately show "\<exists>ds. (\<forall>u \<in> set ds. is_digit u) \<and> (u = 48 \<longrightarrow> ds = []) \<and> digits_val (digit_val u) ds = unat v \<and>
          us = ds @ (if r = [] then [] else 46 # r)" by blast
    qed
    finally show ?thesis .
  next
    case False
    then have "u = 46 \<or> u < 48 \<or> u > 57" by (auto simp: word_less_nat_alt)
    then have "parse_dotted_decimal bs \<noteq> (Some v, r)" by (auto simp: parse_dotted_decimal_def Cons)
    moreover have "hd (decimal (unat v)) \<noteq> u" using decimal_digits [of "unat v"] False by (auto dest: bspec [OF _ hd_in_set])
    then have "bs \<noteq> joined v r" by (cases "decimal (unat v)") (auto simp: Cons joined_def)
    ultimately show ?thesis by simp
  qed
qed

section \<open>Object identifiers\<close>

text \<open>An identifier is the list of its arcs; the first two share one integer of the contents.\<close>

primrec dotted :: "u64 list \<Rightarrow> byte list" where
  "dotted [] = []"
| "dotted (v # vs) = joined v (dotted vs)"

definition base128_all :: "u64 list \<Rightarrow> byte list" where
  "base128_all vs = concat (map (\<lambda>v. der_base128 (unat v)) vs)"

definition oid_arcs :: "u64 list \<Rightarrow> bool" where
  "oid_arcs vs \<longleftrightarrow> (\<exists>a b r. vs = a # b # r \<and> unat a \<le> 2 \<and> (unat a < 2 \<longrightarrow> unat b \<le> 39) \<and> unat b < 2 ^ 64 - 80)"

fun oid_contents :: "u64 list \<Rightarrow> byte list" where
  "oid_contents (a # b # r) = der_base128 (40 * unat a + unat b) @ base128_all r"
| "oid_contents _ = []"

lemma joined_nonempty [simp]: "joined v r \<noteq> []"
  by (simp add: joined_def)

lemma parse_dotted [simp]: "parse_dotted_decimal (joined v r) = (Some v, r)"
  by (simp add: parse_dotted_decimal_iff)

lemma joined_eq_iff: "joined v r = joined w r' \<longleftrightarrow> v = w \<and> r = r'"
  using parse_dotted [of v r] parse_dotted [of w r'] by (metis option.inject prod.inject)

lemma der_base128_nonempty [simp]: "der_base128 n \<noteq> []"
  by (simp add: der_base128_def)

lemma base128_all_simps [simp]: "base128_all [] = []" "base128_all (v # vs) = der_base128 (unat v) @ base128_all vs"
  by (simp_all add: base128_all_def)

lemma first_two:
  assumes "unat a \<le> 2" "unat b < 2 ^ 64 - 80"
  shows "unat (40 * a + b :: u64) = 40 * unat a + unat b"
proof -
  have "40 * unat a + unat b < 2 ^ 64" using assms by simp
  then show ?thesis using assms(1) by (simp add: unat_word_ariths mod_simps)
qed

text \<open>Every integer below \<open>2 ^ 64\<close> splits into two such arcs in exactly one way.\<close>

definition split_first :: "u64 \<Rightarrow> u64 \<times> u64" where
  "split_first v = (if 80 \<le> v then (2, v - 80) else (v div 40, v mod 40))"

lemma split_first_spec:
  assumes "split_first v = (a, b)"
  shows "unat a \<le> 2" "unat a < 2 \<longrightarrow> unat b \<le> 39" "unat b < 2 ^ 64 - 80" "40 * unat a + unat b = unat v"
proof -
  have v: "unat v < 2 ^ 64" using unsigned_less [of v, where 'a = nat] by simp
  show "unat a \<le> 2" "unat a < 2 \<longrightarrow> unat b \<le> 39" "unat b < 2 ^ 64 - 80" "40 * unat a + unat b = unat v"
    using assms v unfolding split_first_def
    by (auto simp: word_le_nat_alt unat_sub unat_div unat_mod split: if_splits)
qed

lemma split_first_join:
  assumes "unat a \<le> 2" "unat a < 2 \<longrightarrow> unat b \<le> 39" "unat b < 2 ^ 64 - 80"
  shows "split_first (40 * a + b) = (a, b)"
proof -
  obtain a' b' where s: "split_first (40 * a + b) = (a', b')" by (rule prod.exhaust)
  note S = split_first_spec [OF s]
  have eq: "40 * unat a' + unat b' = 40 * unat a + unat b" using S(4) first_two [OF assms(1,3)] by simp
  have "unat a' = unat a"
  proof (rule ccontr)
    assume "unat a' \<noteq> unat a"
    with S(1,2) assms(1,2) eq show False by linarith
  qed
  with eq s show ?thesis by (simp add: word_unat_eq_iff)
qed

section \<open>From text\<close>

lemma oid_components_appends:
  assumes "writable d s" "length (cbb_chain s) = d" "malloc_spec A" "length (closed d s) + length (base128_all vs) \<le> 2 ^ 59"
  shows "appended A d s (base128_all vs) (oid_components A (dotted vs) d s)"
  using assms
proof (induction vs arbitrary: s)
  case Nil
  then show ?case by (subst oid_components.simps) (simp add: CBS_len_def appended_skip)
next
  case (Cons v vs)
  have "appended A d s (der_base128 (unat v) @ base128_all vs)
      (andthen (add_base128_integer A v d s) (\<lambda>_. oid_components A (dotted vs) d))"
  proof (rule appended_andthen)
    show "appended A d s (der_base128 (unat v)) (add_base128_integer A v d s)"
      using Cons.prems by (intro add_base128_integer_appends) simp_all
    fix a s' assume s': "writable d s'" "closed d s' = closed d s @ der_base128 (unat v)" "cbb_chain s' = take d (cbb_chain s)"
    show "appended A d s' (base128_all vs) (oid_components A (dotted vs) d s')"
      by (rule Cons.IH [OF s'(1)]) (use s' Cons.prems in simp_all)
  qed
  then show ?case by (subst oid_components.simps) (simp add: CBS_len_def)
qed

lemma oid_components_dotted:
  "fst (oid_components A cbs d s) = Some u \<Longrightarrow> \<exists>vs. cbs = dotted vs"
proof (induction A cbs d s rule: oid_components.induct)
  case (1 A cbs d s)
  show ?case
  proof (cases "cbs = []")
    case True
    then show ?thesis by (intro exI [of _ "[]"]) simp
  next
    case False
    obtain x cbs' where x: "parse_dotted_decimal cbs = (x, cbs')" by (rule prod.exhaust)
    with False "1.prems" obtain v where v: "x = Some v"
      by (cases x) (auto simp: oid_components.simps [of A cbs] CBS_len_def)
    obtain y s' where y: "add_base128_integer A v d s = (y, s')" by (rule prod.exhaust)
    with False x v "1.prems" have "fst (oid_components A cbs' d s') = Some u" "y = Some ()"
      by (cases y; simp add: oid_components.simps [of A cbs] CBS_len_def)+
    with "1.IH" [OF _ x [symmetric] v] False y obtain vs where "cbs' = dotted vs" by (auto simp: CBS_len_def)
    moreover have "cbs = joined v cbs'" using x v by (simp add: parse_dotted_decimal_iff)
    ultimately show ?thesis by (intro exI [of _ "v # vs"]) simp
  qed
qed

lemma first_guard:
  fixes a b :: u64
  shows "\<not> (a > 2 \<or> (a < 2 \<and> b > 39) \<or> b > - 1 - 80) \<longleftrightarrow>
    unat a \<le> 2 \<and> (unat a < 2 \<longrightarrow> unat b \<le> 39) \<and> unat b < 2 ^ 64 - 80"
proof -
  have "(- 1 - 80 :: u64) = 18446744073709551535" by simp
  then show ?thesis by (auto simp: word_less_nat_alt)
qed

lemma oid_from_text_appends:
  assumes "oid_arcs vs" "writable d s" "malloc_spec A" "length (closed d s) + length (oid_contents vs) \<le> 2 ^ 59"
  shows "appended A d s (oid_contents vs) (CBB_add_asn1_oid_from_text A (dotted vs) (length (dotted vs)) d s)"
proof -
  from assms(1) obtain a b r where vs: "vs = a # b # r" and ab: "unat a \<le> 2" "unat a < 2 \<longrightarrow> unat b \<le> 39"
    "unat b < 2 ^ 64 - 80" by (auto simp: oid_arcs_def)
  have guard: "\<not> (a > 2 \<or> (a < 2 \<and> b > 39) \<or> b > - 1 - 80)" unfolding first_guard using ab by simp
  let ?v = "40 * a + b"
  note v = first_two [OF ab(1,3)]
  have "appended A d s ([] @ der_base128 (unat ?v) @ base128_all r) (andthen (CBB_flush A d s) (\<lambda>_ s.
      andthen (add_base128_integer A ?v d s) (\<lambda>_. oid_components A (dotted r) d)))"
  proof (rule appended_andthen)
    show "appended A d s [] (CBB_flush A d s)" using assms by (intro CBB_flush_appended) simp_all
    fix s1 assume s1: "writable d s1" "closed d s1 = closed d s @ []" "cbb_chain s1 = take d (cbb_chain s)"
    show "appended A d s1 (der_base128 (unat ?v) @ base128_all r)
        (andthen (add_base128_integer A ?v d s1) (\<lambda>_. oid_components A (dotted r) d))"
    proof (rule appended_andthen)
      show "appended A d s1 (der_base128 (unat ?v)) (add_base128_integer A ?v d s1)"
        by (rule add_base128_integer_appends) (use s1 assms v vs in simp_all)
      fix s2 assume s2: "writable d s2" "closed d s2 = closed d s1 @ der_base128 (unat ?v)" "cbb_chain s2 = take d (cbb_chain s1)"
      show "appended A d s2 (base128_all r) (oid_components A (dotted r) d s2)"
        by (rule oid_components_appends) (use s1 s2 assms v vs in \<open>simp_all add: writable_def\<close>)
    qed
  qed
  moreover have g: "(a > 2) = False" "(a < 2 \<and> b > 39) = False" "(b > - 81) = False" using guard by auto
  ultimately show ?thesis by (simp add: CBB_add_asn1_oid_from_text_def CBS_init_def vs v g)
qed

lemma oid_from_text_arcs:
  assumes "fst (CBB_add_asn1_oid_from_text A text (length text) d s) = Some u"
  shows "\<exists>vs. oid_arcs vs \<and> text = dotted vs"
proof -
  obtain x s1 where x: "CBB_flush A d s = (x, s1)" by (rule prod.exhaust)
  obtain y r1 where y: "parse_dotted_decimal text = (y, r1)" by (rule prod.exhaust)
  obtain z r2 where z: "parse_dotted_decimal r1 = (z, r2)" by (rule prod.exhaust)
  from assms x y z obtain a b where ab: "x = Some ()" "y = Some a" "z = Some b"
    by (cases x; cases y; cases z; simp add: CBB_add_asn1_oid_from_text_def CBS_init_def)
  with assms x y z have guard: "\<not> (a > 2 \<or> (a < 2 \<and> b > 39) \<or> b > - 1 - 80)"
    by (auto simp: CBB_add_asn1_oid_from_text_def CBS_init_def split: if_splits)
  obtain w s2 where w: "add_base128_integer A (40 * a + b) d s1 = (w, s2)" by (rule prod.exhaust)
  have g: "(a > 2) = False" "(a < 2 \<and> b > 39) = False" "(b > - 81) = False" using guard by auto
  from assms x y z ab w have "fst (oid_components A r2 d s2) = Some u"
    by (cases w) (simp_all add: CBB_add_asn1_oid_from_text_def CBS_init_def g)
  then obtain vs where "r2 = dotted vs" by (blast dest: oid_components_dotted)
  then have "text = dotted (a # b # vs)" using y z ab by (simp add: parse_dotted_decimal_iff)
  moreover have "oid_arcs (a # b # vs)" using guard unfolding first_guard by (simp add: oid_arcs_def)
  ultimately show ?thesis by blast
qed

section \<open>To text\<close>

definition text_rest :: "u64 list \<Rightarrow> byte list" where
  "text_rest vs = (if vs = [] then [] else 46 # dotted vs)"

lemma text_rest_simps [simp]: "text_rest [] = []" "text_rest (v # vs) = 46 # decimal (unat v) @ text_rest vs"
  by (cases vs; simp add: text_rest_def joined_def)+

lemma dotted_rest: "dotted (v # vs) = decimal (unat v) @ text_rest vs"
  by (cases vs) (simp_all add: joined_def text_rest_def)

lemma length_decimal: "n < 10 ^ Suc k \<Longrightarrow> length (decimal n) \<le> Suc k"
proof (induction k arbitrary: n)
  case 0
  then show ?case by (subst decimal.simps) simp
next
  case (Suc k)
  then show ?case by (subst decimal.simps) (auto intro: Suc.IH)
qed

lemma length_decimal_u64: "length (decimal (unat (v :: u64))) \<le> 20"
  using length_decimal [of "unat v" 19] unsigned_less [of v, where 'a = nat] by simp

lemma length_text_rest: "length (text_rest vs) \<le> 21 * length vs"
proof (induction vs)
  case (Cons v vs)
  then show ?case using length_decimal_u64 [of v] by simp
qed simp

lemma length_base128_all: "length vs \<le> length (base128_all vs)"
  by (induction vs) (simp_all add: der_base128_def)

lemma add_decimal_appends:
  assumes "writable d s" "malloc_spec A" "length (closed d s) + 20 \<le> 2 ^ 59"
  shows "appended A d s (decimal (unat v)) (add_decimal A v d s)"
  unfolding add_decimal_def by (rule CBB_add_bytes_appends) (use assms length_decimal_u64 [of v] in simp_all)

lemma oid_text_rest_appends:
  assumes "writable 0 s" "cbb_chain s = []" "malloc_spec A" "length (closed 0 s) + 21 * length vs \<le> 2 ^ 59"
  shows "appended A 0 s (text_rest vs) (oid_text_rest A (base128_all vs) s)"
  using assms
proof (induction vs arbitrary: s)
  case Nil
  then show ?case by (subst oid_text_rest.simps) (simp add: CBS_len_def appended_skip)
next
  case (Cons v vs)
  have "appended A 0 s ([46] @ decimal (unat v) @ text_rest vs)
      (andthen (CBB_add_u8 A 46 0 s) (\<lambda>_ s. andthen (add_decimal A v 0 s) (\<lambda>_. oid_text_rest A (base128_all vs))))"
  proof (rule appended_andthen)
    show "appended A 0 s [46] (CBB_add_u8 A 46 0 s)" using Cons.prems by (intro CBB_add_u8_appends) simp_all
    fix s1 assume s1: "writable 0 s1" "closed 0 s1 = closed 0 s @ [46]" "cbb_chain s1 = take 0 (cbb_chain s)"
    show "appended A 0 s1 (decimal (unat v) @ text_rest vs)
        (andthen (add_decimal A v 0 s1) (\<lambda>_. oid_text_rest A (base128_all vs)))"
    proof (rule appended_andthen)
      show "appended A 0 s1 (decimal (unat v)) (add_decimal A v 0 s1)"
        by (rule add_decimal_appends) (use s1 Cons.prems in simp_all)
      fix s2 assume s2: "writable 0 s2" "closed 0 s2 = closed 0 s1 @ decimal (unat v)" "cbb_chain s2 = take 0 (cbb_chain s1)"
      show "appended A 0 s2 (text_rest vs) (oid_text_rest A (base128_all vs) s2)"
        by (rule Cons.IH) (use s1 s2 Cons.prems length_decimal_u64 [of v] in simp_all)
    qed
  qed
  then show ?case using b128.dec_enc [of v "base128_all vs"]
    by (subst oid_text_rest.simps) (simp add: CBS_len_def)
qed

lemma oid_text_rest_contents:
  "fst (oid_text_rest A cbs s) = Some u \<Longrightarrow> \<exists>vs. cbs = base128_all vs"
proof (induction A cbs s rule: oid_text_rest.induct)
  case (1 A cbs s)
  show ?case
  proof (cases "cbs = []")
    case True
    then show ?thesis by (intro exI [of _ "[]"]) simp
  next
    case False
    obtain x cbs' where x: "parse_base128_integer cbs = (x, cbs')" by (rule prod.exhaust)
    with False "1.prems" obtain v where v: "x = Some v"
      by (cases x) (auto simp: oid_text_rest.simps [of A cbs] CBS_len_def)
    obtain y s1 where y: "CBB_add_u8 A 46 0 s = (y, s1)" by (rule prod.exhaust)
    obtain z s2 where z: "add_decimal A v 0 s1 = (z, s2)" by (rule prod.exhaust)
    from False x v y z "1.prems" have "fst (oid_text_rest A cbs' s2) = Some u" "y = Some ()" "z = Some ()"
      by (cases y; cases z; simp add: oid_text_rest.simps [of A cbs] CBS_len_def)+
    with "1.IH" [OF _ x [symmetric] v] y z False obtain vs where "cbs' = base128_all vs" by (auto simp: CBS_len_def)
    moreover have "cbs = der_base128 (unat v) @ cbs'" using b128.enc_dec [of cbs v cbs'] x v by simp
    ultimately show ?thesis by (intro exI [of _ "v # vs"]) simp
  qed
qed

lemma andthen_assoc: "andthen (andthen r k) k' = andthen r (\<lambda>a s. andthen (k a s) k')"
  by (cases "(r, k)" rule: andthen.cases) simp_all

lemma oid_text_head_appends:
  assumes "split_first v = (a, b)" "writable 0 s" "malloc_spec A" "length (closed 0 s) + 100 \<le> 2 ^ 59"
  shows "appended A 0 s (decimal (unat a) @ 46 # decimal (unat b)) (oid_text_head A v s)"
proof (cases "80 \<le> v")
  case True
  then have ab: "a = 2" "b = v - 80" using assms(1) by (simp_all add: split_first_def)
  have "decimal 2 = [50]" by (subst decimal.simps) simp
  moreover have "appended A 0 s ([50, 46] @ decimal (unat b)) (andthen (CBB_add_bytes A [50, 46] 0 s) (\<lambda>_. add_decimal A b 0))"
  proof (rule appended_andthen)
    show "appended A 0 s [50, 46] (CBB_add_bytes A [50, 46] 0 s)" using assms by (intro CBB_add_bytes_appends) simp_all
    fix x s1 assume s1: "writable 0 s1" "closed 0 s1 = closed 0 s @ [50, 46]"
    show "appended A 0 s1 (decimal (unat b)) (add_decimal A b 0 s1)"
      by (rule add_decimal_appends) (use s1 assms in simp_all)
  qed
  ultimately show ?thesis using True by (simp add: oid_text_head_def ab)
next
  case False
  then have ab: "a = v div 40" "b = v mod 40" using assms(1) by (simp_all add: split_first_def)
  have "appended A 0 s (decimal (unat a) @ [46] @ decimal (unat b)) (andthen (add_decimal A a 0 s) (\<lambda>_ s.
      andthen (CBB_add_u8 A 46 0 s) (\<lambda>_. add_decimal A b 0)))"
  proof (rule appended_andthen)
    show "appended A 0 s (decimal (unat a)) (add_decimal A a 0 s)"
      by (rule add_decimal_appends) (use assms in simp_all)
    fix x s1 assume s1: "writable 0 s1" "closed 0 s1 = closed 0 s @ decimal (unat a)"
    show "appended A 0 s1 ([46] @ decimal (unat b)) (andthen (CBB_add_u8 A 46 0 s1) (\<lambda>_. add_decimal A b 0))"
    proof (rule appended_andthen)
      show "appended A 0 s1 [46] (CBB_add_u8 A 46 0 s1)"
        by (rule CBB_add_u8_appends) (use s1 assms length_decimal_u64 [of a] in simp_all)
      fix x s2 assume s2: "writable 0 s2" "closed 0 s2 = closed 0 s1 @ [46]"
      show "appended A 0 s2 (decimal (unat b)) (add_decimal A b 0 s2)"
        by (rule add_decimal_appends) (use s1 s2 assms length_decimal_u64 [of a] in simp_all)
    qed
  qed
  then show ?thesis using False by (simp add: oid_text_head_def ab)
qed

definition oid_text_op :: "allocator \<Rightarrow> u64 \<Rightarrow> cbs \<Rightarrow> nat \<Rightarrow> cbb \<Rightarrow> unit option \<times> cbb" where
  "oid_text_op A v copy d s =
     andthen (oid_text_head A v s) (\<lambda>_ s. andthen (oid_text_rest A copy s) (\<lambda>_. CBB_add_u8 A 0 0))"

lemma oid_to_text_write:
  "CBS_asn1_oid_to_text A cbs =
     (case CBB_init A 32 of
        None \<Rightarrow> None
      | Some s \<Rightarrow> (case parse_base128_integer cbs of
          (None, _) \<Rightarrow> None
        | (Some v, copy) \<Rightarrow> write_value A (oid_text_op A v copy) s))"
  by (simp add: CBS_asn1_oid_to_text_def write_value_def oid_text_op_def andthen_assoc split: option.splits prod.splits)

lemma oid_contents_split:
  assumes "split_first v = (a, b)"
  shows "oid_arcs (a # b # r)" "oid_contents (a # b # r) = der_base128 (unat v) @ base128_all r"
    "dotted (a # b # r) = decimal (unat a) @ 46 # decimal (unat b) @ text_rest r"
  using split_first_spec [OF assms] unfolding dotted_rest by (simp_all add: oid_arcs_def)

lemma oid_arcsE:
  assumes "oid_arcs vs"
  obtains v a b r where "vs = a # b # r" "split_first v = (a, b)"
proof -
  from assms obtain a b r where "vs = a # b # r" "unat a \<le> 2" "unat a < 2 \<longrightarrow> unat b \<le> 39" "unat b < 2 ^ 64 - 80"
    by (auto simp: oid_arcs_def)
  with split_first_join [of a b] show thesis by (intro that)
qed

lemma write_oid_text:
  assumes A: "malloc_spec A" "\<forall>n. A n \<noteq> None" and s: "CBB_init A 32 = Some s"
    and ab: "split_first v = (a, b)" and small: "length (base128_all r) \<le> 2 ^ 50"
  shows "write_value A (oid_text_op A v (base128_all r)) s = Some (dotted (a # b # r) @ [0])"
proof -
  let ?txt = "(decimal (unat a) @ 46 # decimal (unat b)) @ text_rest r @ [0]"
  have len: "length (decimal (unat a) @ 46 # decimal (unat b)) \<le> 41" "length (text_rest r) \<le> 21 * 2 ^ 50"
    using length_decimal_u64 [of a] length_decimal_u64 [of b] length_text_rest [of r] length_base128_all [of r] small by simp_all
  have "write_value A (oid_text_op A v (base128_all r)) s = Some ?txt \<or>
      write_value A (oid_text_op A v (base128_all r)) s = None \<and> (\<exists>m. A m = None)"
  proof (rule write_value_spec [OF A(1) s])
    assume w: "writable 0 s" "closed 0 s = []"
    show "appended A 0 s ?txt (oid_text_op A v (base128_all r) 0 s)" unfolding oid_text_op_def
    proof (rule appended_andthen)
      show "appended A 0 s (decimal (unat a) @ 46 # decimal (unat b)) (oid_text_head A v s)"
        by (rule oid_text_head_appends [OF ab w(1) A(1)]) (simp add: w(2))
      fix x s1 assume s1: "writable 0 s1" "closed 0 s1 = closed 0 s @ decimal (unat a) @ 46 # decimal (unat b)"
        "cbb_chain s1 = take 0 (cbb_chain s)"
      show "appended A 0 s1 (text_rest r @ [0]) (andthen (oid_text_rest A (base128_all r) s1) (\<lambda>_. CBB_add_u8 A 0 0))"
      proof (rule appended_andthen)
        show "appended A 0 s1 (text_rest r) (oid_text_rest A (base128_all r) s1)"
          by (rule oid_text_rest_appends) (use s1 A len length_base128_all [of r] small in \<open>simp_all add: w(2)\<close>)
        fix x s2 assume s2: "writable 0 s2" "closed 0 s2 = closed 0 s1 @ text_rest r"
        show "appended A 0 s2 [0] (CBB_add_u8 A 0 0 s2)"
          by (rule CBB_add_u8_appends) (use s1 s2 A len in \<open>simp_all add: w(2)\<close>)
      qed
    qed
  qed (use len in simp_all)
  then show ?thesis using A(2) unfolding oid_contents_split(3) [OF ab] by auto
qed

lemma oid_to_text_iff:
  assumes A: "malloc_spec A" "\<forall>n. A n \<noteq> None" and small: "length cbs \<le> 2 ^ 50"
  shows "CBS_asn1_oid_to_text A cbs = Some txt \<longleftrightarrow> (\<exists>vs. oid_arcs vs \<and> cbs = oid_contents vs \<and> txt = dotted vs @ [0])"
    (is "?L \<longleftrightarrow> ?R")
proof -
  obtain s where s: "CBB_init A 32 = Some s"
  proof -
    obtain p where "A 40 = Some p" using A(2) by blast
    then show thesis by (intro that) (simp add: CBB_init_def cbb_init_def OPENSSL_malloc_def)
  qed
  have out: "CBS_asn1_oid_to_text A cbs = Some (dotted (a # b # r) @ [0])"
    if "split_first v = (a, b)" "cbs = der_base128 (unat v) @ base128_all r" for v a b r
  proof -
    have "length (base128_all r) \<le> 2 ^ 50" using small that(2) by simp
    from write_oid_text [OF A s that(1) this] show ?thesis
      using b128.dec_enc [of v "base128_all r"] by (simp add: oid_to_text_write s that(2))
  qed
  show ?thesis
  proof
    assume L: ?L
    then obtain v copy where v: "parse_base128_integer cbs = (Some v, copy)"
      and w: "write_value A (oid_text_op A v copy) s = Some txt"
      by (auto simp: oid_to_text_write s split: prod.splits option.splits)
    obtain x s1 where x: "oid_text_head A v s = (x, s1)" by (rule prod.exhaust)
    with w have "fst (oid_text_rest A copy s1) \<noteq> None"
      by (cases x; cases "oid_text_rest A copy s1"; cases "fst (oid_text_rest A copy s1)")
        (simp_all add: write_value_def oid_text_op_def)
    then obtain r where r: "copy = base128_all r" by (auto dest: oid_text_rest_contents)
    obtain a b where ab: "split_first v = (a, b)" by (rule prod.exhaust)
    have "cbs = der_base128 (unat v) @ base128_all r" using b128.enc_dec [OF v] by (simp add: r)
    with out [OF ab this] L oid_contents_split(1,2) [OF ab, of r] show ?R by (intro exI [of _ "a # b # r"]) simp
  next
    assume ?R
    then obtain vs where vs: "oid_arcs vs" "cbs = oid_contents vs" "txt = dotted vs @ [0]" by blast
    from vs(1) obtain v a b r where ab: "vs = a # b # r" "split_first v = (a, b)" by (rule oid_arcsE)
    have "cbs = der_base128 (unat v) @ base128_all r" unfolding vs(2) ab(1) by (rule oid_contents_split(2) [OF ab(2)])
    from out [OF ab(2) this] show ?L unfolding vs(3) ab(1) .
  qed
qed

lemma length_dotted: "length vs \<le> length (dotted vs)"
proof (induction vs)
  case (Cons v vs)
  obtain u ds where "decimal (unat v) = u # ds" using decimal_nonempty by (cases "decimal (unat v)") auto
  with Cons show ?case by (cases "dotted vs = []") (simp_all add: joined_def)
qed simp

lemma length_der_base128_u64: "length (der_base128 (unat (v :: u64))) \<le> 10"
proof -
  have "unat v div 128 < 128 ^ 9" using unsigned_less [of v, where 'a = nat] by simp
  from length_cont128 [OF this] show ?thesis by (simp add: der_base128_def)
qed

lemma length_oid_contents: "oid_arcs vs \<Longrightarrow> length (oid_contents vs) \<le> 10 * length vs"
proof -
  assume "oid_arcs vs"
  then obtain v a b r where ab: "vs = a # b # r" "split_first v = (a, b)" by (rule oid_arcsE)
  have "length (base128_all r) \<le> 10 * length r" for r
  proof (induction r)
    case (Cons w r)
    with length_der_base128_u64 [of w] show ?case by simp
  qed simp
  from this [of r] length_der_base128_u64 [of v] show ?thesis by (simp add: ab(1) oid_contents_split(2) [OF ab(2)] del: oid_contents.simps)
qed

lemma oid_from_text_iff:
  assumes A: "malloc_spec A" "\<forall>n. A n \<noteq> None" and s: "CBB_init A n = Some s" "n \<le> 2 ^ 63"
    and small: "length text \<le> 2 ^ 50"
  shows "write_value A (CBB_add_asn1_oid_from_text A text (length text)) s = Some c \<longleftrightarrow>
    (\<exists>vs. oid_arcs vs \<and> text = dotted vs \<and> c = oid_contents vs)" (is "?L \<longleftrightarrow> ?R")
proof -
  have out: "write_value A (CBB_add_asn1_oid_from_text A text (length text)) s = Some (oid_contents vs)"
    if vs: "oid_arcs vs" "text = dotted vs" for vs
  proof -
    have "length (oid_contents vs) \<le> 2 ^ 59"
      using length_oid_contents [OF vs(1)] length_dotted [of vs] small by (simp add: vs(2))
    with write_value_spec [OF A(1) s, of "oid_contents vs" "CBB_add_asn1_oid_from_text A text (length text)"]
      oid_from_text_appends [OF vs(1) _ A(1)] A(2) show ?thesis by (simp add: vs(2))
  qed
  show ?thesis
  proof
    assume L: ?L
    then have "fst (CBB_add_asn1_oid_from_text A text (length text) 0 s) \<noteq> None"
      by (cases "CBB_add_asn1_oid_from_text A text (length text) 0 s";
          cases "fst (CBB_add_asn1_oid_from_text A text (length text) 0 s)") (simp_all add: write_value_def)
    then obtain vs where "oid_arcs vs" "text = dotted vs" by (auto dest: oid_from_text_arcs)
    with out L show ?R by auto
  next
    assume ?R
    with out show ?L by auto
  qed
qed

section \<open>Properties\<close>

text \<open>
  C20. \<^verbatim>\<open>CBB_add_asn1_oid_from_text\<close> on a new object accepts exactly the texts of identifiers whose
  first two arcs can be joined (0 or 1 with at most 39, or 2) and whose arcs fit their 64 bits, without
  empty components, signs or leading zeros, and writes their base-128 contents.
\<close>

theorem CBB_add_asn1_oid_from_text_exact:
  assumes "malloc_spec A" "\<forall>n. A n \<noteq> None" "CBB_init A n = Some s" "n \<le> 2 ^ 63" "length text \<le> 2 ^ 50"
  shows "write_value A (CBB_add_asn1_oid_from_text A text (length text)) s = Some c \<longleftrightarrow>
    (\<exists>a b r. text = dotted (a # b # r) \<and> unat a \<le> 2 \<and> (unat a < 2 \<longrightarrow> unat b \<le> 39) \<and> unat b < 2 ^ 64 - 80 \<and>
       c = der_base128 (40 * unat a + unat b) @ concat (map (\<lambda>v. der_base128 (unat v)) r))"
proof -
  have "(\<exists>vs. oid_arcs vs \<and> text = dotted vs \<and> c = oid_contents vs) \<longleftrightarrow>
      (\<exists>a b r. oid_arcs (a # b # r) \<and> text = dotted (a # b # r) \<and> c = oid_contents (a # b # r))"
    by (blast elim: oid_arcsE)
  moreover have "oid_arcs (a # b # r) \<longleftrightarrow> unat a \<le> 2 \<and> (unat a < 2 \<longrightarrow> unat b \<le> 39) \<and> unat b < 2 ^ 64 - 80" for a b r
    by (simp add: oid_arcs_def)
  ultimately show ?thesis unfolding oid_from_text_iff [OF assms] by (simp only: oid_contents.simps base128_all_def) blast
qed

theorem CBB_add_asn1_oid_from_text_exact_witness:
  "write_value sample_malloc (CBB_add_asn1_oid_from_text sample_malloc [49, 46, 50, 46, 56, 52, 48] 7)
     (the (CBB_init sample_malloc 3)) = Some [42, 0x86, 0x48]"
proof -
  have d: "decimal 1 = [49]" "decimal 2 = [50]" "decimal 840 = [56, 52, 48]"
    by (simp_all add: decimal.simps del: One_nat_def)
  have b: "der_base128 42 = [42]" "der_base128 840 = [0x86, 0x48]"
    by (simp_all add: der_base128_def cont128.simps)
  let ?text = "[49, 46, 50, 46, 56, 52, 48] :: byte list" and ?c = "[42, 0x86, 0x48] :: byte list"
  have t: "dotted (1 # 2 # [840]) = ?text" by (simp add: joined_def d del: One_nat_def)
  have tot: "\<forall>n. sample_malloc n \<noteq> None" by (simp add: sample_malloc_total)
  have ex: "?text = dotted (1 # 2 # [840]) \<and> unat (1 :: u64) \<le> 2 \<and> (unat (1 :: u64) < 2 \<longrightarrow> unat (2 :: u64) \<le> 39) \<and>
      unat (2 :: u64) < 2 ^ 64 - 80 \<and>
      ?c = der_base128 (40 * unat (1 :: u64) + unat (2 :: u64)) @ concat (map (\<lambda>v :: u64. der_base128 (unat v)) [840])"
    unfolding t by (simp add: b)
  have "write_value sample_malloc (CBB_add_asn1_oid_from_text sample_malloc ?text (length ?text)) (the (CBB_init sample_malloc 3)) = Some ?c"
    by (rule CBB_add_asn1_oid_from_text_exact [OF malloc_spec_sample tot CBB_init_sample_Some, THEN iffD2, OF _ _ exI, OF _ _ exI, OF _ _ exI, OF _ _ ex])
      simp_all
  moreover have "length ?text = 7" by simp
  ultimately show ?thesis by (simp only:)
qed

text \<open>
  C21. The two conversions are inverse: writing the contents of an identifier from a text gives \<open>c\<close>
  exactly when \<^verbatim>\<open>CBS_asn1_oid_to_text\<close> turns \<open>c\<close> back into that text (with its terminating zero).
\<close>

theorem oid_text_roundtrip:
  assumes "malloc_spec A" "\<forall>n. A n \<noteq> None" "CBB_init A n = Some s" "n \<le> 2 ^ 63"
    and "length text \<le> 2 ^ 50" "length c \<le> 2 ^ 50"
  shows "write_value A (CBB_add_asn1_oid_from_text A text (length text)) s = Some c \<longleftrightarrow>
    CBS_asn1_oid_to_text A c = Some (text @ [0])"
  unfolding oid_from_text_iff [OF assms(1-5)] oid_to_text_iff [OF assms(1,2,6)] by auto

theorem oid_text_roundtrip_witness:
  "CBS_asn1_oid_to_text sample_malloc [42] = Some ([49, 46, 50] @ [0])"
proof -
  have d: "decimal 1 = [49]" "decimal 2 = [50]" by (simp_all add: decimal.simps del: One_nat_def)
  have b: "der_base128 42 = [42]" by (simp add: der_base128_def cont128.simps)
  have init: "CBB_init sample_malloc 3 = Some (the (CBB_init sample_malloc 3))" by (rule CBB_init_sample_Some)
  have t: "oid_arcs [1, 2]" "[49, 46, 50] = dotted [1, 2]" "[42] = oid_contents [1, 2]"
    by (simp_all add: oid_arcs_def joined_def d b del: One_nat_def)
  have tot: "\<forall>n. sample_malloc n \<noteq> None" by (simp add: sample_malloc_total)
  have small: "length ([49, 46, 50] :: byte list) \<le> 2 ^ 50" "length ([42] :: byte list) \<le> 2 ^ 50" "(3 :: nat) \<le> 2 ^ 63" by simp_all
  have "write_value sample_malloc (CBB_add_asn1_oid_from_text sample_malloc [49, 46, 50] (length [49, 46, 50 :: byte]))
      (the (CBB_init sample_malloc 3)) = Some [42]"
    unfolding oid_from_text_iff [OF malloc_spec_sample tot init small(3,1)] using t by blast
  then show ?thesis unfolding oid_text_roundtrip [OF malloc_spec_sample tot init small(3,1,2)] .
qed

end
