(* ===== verification/Bio_Pair.thy ===== *)
theory Bio_Pair
  imports Mem
begin

text \<open>
  Model of \<^verbatim>\<open>crypto/bio/pair.c\<close>, two channel ends that each own a ring buffer the other end reads from,
  and of the read and write calls of \<^verbatim>\<open>bio.c\<close> on top of them. The objects live in a store indexed by
  address, since each end updates the other through its pointer. \<open>None\<close> is a call that does not
  return: an \<^verbatim>\<open>assert\<close> that fails or a copy loop without progress.
\<close>

section \<open>State\<close>

datatype retry = No_Retry | Retry_Read | Retry_Write

text \<open>\<open>bio\<close> is the object together with its \<^verbatim>\<open>bio_bio_st\<close>; \<open>bb_peer\<close> and \<open>bb_buf\<close> are \<open>None\<close> for \<^verbatim>\<open>NULL\<close>.\<close>

record bio =
  bio_init :: bool
  bio_shutdown :: int
  bio_flags :: retry
  bio_num_read :: nat
  bio_num_write :: nat
  bb_peer :: "nat option"
  bb_closed :: bool
  bb_len :: size_t
  bb_offset :: size_t
  bb_size :: size_t
  bb_buf :: "byte list option"
  bb_request :: size_t

type_synonym bios = "nat \<Rightarrow> bio"

abbreviation (input) sizeof_BIO :: nat where "sizeof_BIO \<equiv> 80"
abbreviation (input) sizeof_bio_bio_st :: nat where "sizeof_bio_bio_st \<equiv> 56"

definition bio_new :: "allocator \<Rightarrow> bio option" where
  "bio_new A =
     (case OPENSSL_malloc A sizeof_BIO of
        None \<Rightarrow> None
      | Some _ \<Rightarrow>
          (case OPENSSL_malloc A sizeof_bio_bio_st of
             None \<Rightarrow> None
           | Some _ \<Rightarrow> Some \<lparr>bio_init = False, bio_shutdown = 1, bio_flags = No_Retry, bio_num_read = 0, bio_num_write = 0,
               bb_peer = None, bb_closed = False, bb_len = 0, bb_offset = 0, bb_size = 17 * 1024, bb_buf = None,
               bb_request = 0\<rparr>))"

definition bio_destroy_pair :: "nat \<Rightarrow> bios \<Rightarrow> bios" where
  "bio_destroy_pair i st =
     (case bb_peer (st i) of
        None \<Rightarrow> st
      | Some j \<Rightarrow>
          let st = st(j := (st j)\<lparr>bb_peer := None, bio_init := False, bb_len := 0, bb_offset := 0\<rparr>)
          in st(i := (st i)\<lparr>bb_peer := None, bio_init := False, bb_len := 0, bb_offset := 0\<rparr>))"

text \<open>The memory of the object itself is released, which the store does not show.\<close>

definition bio_free :: "nat \<Rightarrow> bios \<Rightarrow> bios" where
  "bio_free i st = (if bb_peer (st i) \<noteq> None then bio_destroy_pair i st else st)"

section \<open>The copy loops\<close>

partial_function (option) ring_read :: "byte list \<Rightarrow> size_t \<Rightarrow> size_t \<Rightarrow> size_t \<Rightarrow> size_t \<Rightarrow> (byte list \<times> size_t \<times> size_t) option" where
  "ring_read mem sz rest offset len =
     (let chunk = (if size_wrap (offset + rest) \<le> sz then rest else sz - offset);
          out = take chunk (drop offset mem);
          len' = len - chunk;
          next = size_wrap (offset + chunk);
          offset' = (if len' \<noteq> 0 then if next = sz then 0 else next else 0);
          rest' = rest - chunk
      in if rest > len \<or> (len' = 0 \<and> chunk \<noteq> rest) then None
         else if rest' = 0 then Some (out, offset', len')
         else Option.bind (ring_read mem sz rest' offset' len') (\<lambda>(out', r). Some (out @ out', r)))"

partial_function (option) ring_write :: "byte list \<Rightarrow> size_t \<Rightarrow> size_t \<Rightarrow> size_t \<Rightarrow> byte list \<Rightarrow> (byte list \<times> size_t) option" where
  "ring_write mem sz offset len bytes =
     (let rest = length bytes;
          pos = size_wrap (offset + len);
          write_offset = (if pos \<ge> sz then pos - sz else pos);
          chunk = (if size_wrap (write_offset + rest) \<le> sz then rest else sz - write_offset);
          mem' = poke mem write_offset (take chunk bytes);
          len' = size_wrap (len + chunk)
      in if \<not> size_wrap (len + rest) \<le> sz then None
         else if rest - chunk = 0 then Some (mem', len')
         else ring_write mem' sz offset len' (drop chunk bytes))"

section \<open>Reading and writing\<close>

text \<open>A \<^verbatim>\<open>size_t\<close> from an \<^verbatim>\<open>int\<close> argument, and the \<^verbatim>\<open>int\<close> a \<^verbatim>\<open>size_t\<close> is returned as.\<close>

definition size_of_int :: "int \<Rightarrow> size_t" where
  "size_of_int z = nat (z mod int SIZE_LIMIT)"

definition int_of_size :: "size_t \<Rightarrow> int" where
  "int_of_size n = sint (word_of_nat n :: u32)"

text \<open>\<open>valid\<close> says that \<^verbatim>\<open>buf\<close> is not \<^verbatim>\<open>NULL\<close>; the bytes stored in it are returned.\<close>

definition bio_read :: "nat \<Rightarrow> bool \<Rightarrow> int \<Rightarrow> bios \<Rightarrow> (int \<times> byte list \<times> bios) option" where
  "bio_read i valid sz st =
     (let n = size_of_int sz;
          st = st(i := (st i)\<lparr>bio_flags := No_Retry\<rparr>)
      in if \<not> bio_init (st i) then Some (0, [], st)
         else
           Option.bind (bb_peer (st i)) (\<lambda>j.
           Option.bind (bb_buf (st j)) (\<lambda>mem.
             let st = st(j := (st j)\<lparr>bb_request := 0\<rparr>)
             in if \<not> valid \<or> n = 0 then Some (0, [], st)
                else if bb_len (st j) = 0 then
                  (if bb_closed (st j) then Some (0, [], st)
                   else
                     let st = st(i := (st i)\<lparr>bio_flags := Retry_Read\<rparr>);
                         st = st(j := (st j)\<lparr>bb_request := (if n \<le> bb_size (st j) then n else bb_size (st j))\<rparr>)
                     in Some (-1, [], st))
                else
                  let n = (if bb_len (st j) < n then bb_len (st j) else n)
                  in map_option (\<lambda>(out, offset, len).
                       (int_of_size n, out, st(j := (st j)\<lparr>bb_offset := offset, bb_len := len\<rparr>)))
                     (ring_read mem (bb_size (st j)) n (bb_offset (st j)) (bb_len (st j))))))"

text \<open>\<open>buf\<close> is \<open>None\<close> for \<^verbatim>\<open>NULL\<close>; of the bytes it points to the first \<^verbatim>\<open>num\<close> are to be written.\<close>

definition bio_write :: "nat \<Rightarrow> byte list option \<Rightarrow> int \<Rightarrow> bios \<Rightarrow> (int \<times> bios) option" where
  "bio_write i buf num st =
     (let n = size_of_int num;
          st = st(i := (st i)\<lparr>bio_flags := No_Retry\<rparr>)
      in if \<not> bio_init (st i) \<or> buf = None \<or> n = 0 then Some (0, st)
         else if bb_peer (st i) = None then None
         else
           Option.bind (bb_buf (st i)) (\<lambda>mem.
             let st = st(i := (st i)\<lparr>bb_request := 0\<rparr>); b = st i
             in if bb_closed b then Some (-1, st)
                else if bb_len b > bb_size b then None
                else if bb_len b = bb_size b then Some (-1, st(i := b\<lparr>bio_flags := Retry_Write\<rparr>))
                else
                  let n = (if n > bb_size b - bb_len b then bb_size b - bb_len b else n)
                  in map_option (\<lambda>(mem, len). (int_of_size n, st(i := b\<lparr>bb_buf := Some mem, bb_len := len\<rparr>)))
                       (ring_write mem (bb_size b) (bb_offset b) (bb_len b) (take n (the buf)))))"

section \<open>Pairs and control\<close>

definition pair_buffer :: "allocator \<Rightarrow> size_t \<Rightarrow> bio \<Rightarrow> bio option \<times> bio" where
  "pair_buffer A writebuf_len b =
     (if bb_buf b = None then
        let b = (if writebuf_len \<noteq> 0 then b\<lparr>bb_size := writebuf_len\<rparr> else b)
        in case OPENSSL_malloc A (bb_size b) of
             None \<Rightarrow> (None, b)
           | Some blk \<Rightarrow> (Some (b\<lparr>bb_buf := Some (blk_body blk), bb_len := 0, bb_offset := 0\<rparr>), b)
      else (Some b, b))"

definition bio_make_pair :: "allocator \<Rightarrow> nat \<Rightarrow> nat \<Rightarrow> size_t \<Rightarrow> size_t \<Rightarrow> bios \<Rightarrow> bool \<times> bios" where
  "bio_make_pair A i j writebuf1_len writebuf2_len st =
     (if bb_peer (st i) \<noteq> None \<or> bb_peer (st j) \<noteq> None then (False, st)
      else case pair_buffer A writebuf1_len (st i) of
        (None, b) \<Rightarrow> (False, st(i := b))
      | (Some b1, _) \<Rightarrow>
          let st = st(i := b1)
          in case pair_buffer A writebuf2_len (st j) of
               (None, b) \<Rightarrow> (False, st(j := b))
             | (Some b2, _) \<Rightarrow>
                 let st = st(j := b2);
                     st = st(i := (st i)\<lparr>bb_peer := Some j, bb_closed := False, bb_request := 0\<rparr>);
                     st = st(j := (st j)\<lparr>bb_peer := Some i, bb_closed := False, bb_request := 0\<rparr>);
                     st = st(i := (st i)\<lparr>bio_init := True\<rparr>)
                 in (True, st(j := (st j)\<lparr>bio_init := True\<rparr>)))"

text \<open>\<open>i\<close> and \<open>j\<close> are the addresses of the two new objects.\<close>

definition BIO_new_bio_pair :: "allocator \<Rightarrow> nat \<Rightarrow> nat \<Rightarrow> size_t \<Rightarrow> size_t \<Rightarrow> bios \<Rightarrow> bool \<times> bios" where
  "BIO_new_bio_pair A i j writebuf1_len writebuf2_len st =
     (case (bio_new A, bio_new A) of
        (Some b1, Some b2) \<Rightarrow> bio_make_pair A i j writebuf1_len writebuf2_len (st(i := b1, j := b2))
      | _ \<Rightarrow> (False, st))"

datatype bio_cmd =
    GET_WRITE_BUF_SIZE | GET_WRITE_GUARANTEE | GET_READ_REQUEST | RESET_READ_REQUEST | SHUTDOWN_WR
  | GET_CLOSE | SET_CLOSE int | PENDING | WPENDING | FLUSH | EOF "nat option" | OTHER int

definition bio_ctrl :: "nat \<Rightarrow> bio_cmd \<Rightarrow> bios \<Rightarrow> int \<times> bios" where
  "bio_ctrl i cmd st =
     (let b = st i
      in case cmd of
           GET_WRITE_BUF_SIZE \<Rightarrow> (int (bb_size b), st)
         | GET_WRITE_GUARANTEE \<Rightarrow> (if bb_peer b = None \<or> bb_closed b then 0 else int (bb_size b) - int (bb_len b), st)
         | GET_READ_REQUEST \<Rightarrow> (int (bb_request b), st)
         | RESET_READ_REQUEST \<Rightarrow> (1, st(i := b\<lparr>bb_request := 0\<rparr>))
         | SHUTDOWN_WR \<Rightarrow> (1, st(i := b\<lparr>bb_closed := True\<rparr>))
         | GET_CLOSE \<Rightarrow> (bio_shutdown b, st)
         | SET_CLOSE num \<Rightarrow> (1, st(i := b\<lparr>bio_shutdown := num\<rparr>))
         | PENDING \<Rightarrow> (case bb_peer b of None \<Rightarrow> 0 | Some j \<Rightarrow> int (bb_len (st j)), st)
         | WPENDING \<Rightarrow> (if bb_buf b \<noteq> None then int (bb_len b) else 0, st)
         | FLUSH \<Rightarrow> (1, st)
         | EOF other \<Rightarrow>
             (case other of None \<Rightarrow> 1 | Some j \<Rightarrow> if bb_len (st j) = 0 \<and> bb_closed (st j) then 1 else 0, st)
         | OTHER _ \<Rightarrow> (0, st))"

definition BIO_ctrl_get_read_request :: "nat \<Rightarrow> bios \<Rightarrow> int" where
  "BIO_ctrl_get_read_request i st = fst (bio_ctrl i GET_READ_REQUEST st)"

definition BIO_ctrl_get_write_guarantee :: "nat \<Rightarrow> bios \<Rightarrow> int" where
  "BIO_ctrl_get_write_guarantee i st = fst (bio_ctrl i GET_WRITE_GUARANTEE st)"

definition BIO_shutdown_wr :: "nat \<Rightarrow> bios \<Rightarrow> int \<times> bios" where
  "BIO_shutdown_wr i st = bio_ctrl i SHUTDOWN_WR st"

section \<open>The calls of bio.c\<close>

text \<open>On an object whose method is the pair's.\<close>

definition BIO_read :: "nat \<Rightarrow> bool \<Rightarrow> int \<Rightarrow> bios \<Rightarrow> (int \<times> byte list \<times> bios) option" where
  "BIO_read i valid len st =
     (if \<not> bio_init (st i) then Some (-2, [], st)
      else if len \<le> 0 then Some (0, [], st)
      else map_option (\<lambda>(ret, out, st).
             (ret, out, if ret > 0 then st(i := (st i)\<lparr>bio_num_read := size_wrap (bio_num_read (st i) + nat ret)\<rparr>) else st))
           (bio_read i valid len st))"

definition BIO_write :: "nat \<Rightarrow> byte list option \<Rightarrow> int \<Rightarrow> bios \<Rightarrow> (int \<times> bios) option" where
  "BIO_write i buf inl st =
     (if \<not> bio_init (st i) then Some (-2, st)
      else if inl \<le> 0 then Some (0, st)
      else map_option (\<lambda>(ret, st).
             (ret, if ret > 0 then st(i := (st i)\<lparr>bio_num_write := size_wrap (bio_num_write (st i) + nat ret)\<rparr>) else st))
           (bio_write i buf inl st))"

text \<open>The loop of \<^verbatim>\<open>BIO_write_all\<close> over a write call \<open>wr\<close>.\<close>

abbreviation (input) INT_MAX :: nat where "INT_MAX \<equiv> 2147483647"

partial_function (option) BIO_write_all :: "(byte list \<Rightarrow> int \<Rightarrow> 's \<Rightarrow> (int \<times> 's) option) \<Rightarrow> byte list \<Rightarrow> 's \<Rightarrow> (bool \<times> 's) option" where
  "BIO_write_all wr data s =
     (if length data > 0 then
        Option.bind (wr data (if length data > INT_MAX then int INT_MAX else int (length data)) s) (\<lambda>(ret, s).
          if ret \<le> 0 then Some (False, s) else BIO_write_all wr (drop (nat ret) data) s)
      else Some (True, s))"

section \<open>The ring buffer as a sequence\<close>

definition ring :: "byte list \<Rightarrow> size_t \<Rightarrow> size_t \<Rightarrow> size_t \<Rightarrow> byte list" where
  "ring mem sz off len = map (\<lambda>k. mem ! ((off + k) mod sz)) [0..<len]"

lemma length_ring [simp]: "length (ring mem sz off len) = len"
  by (simp add: ring_def)

lemma ring_add: "ring mem sz off (a + b) = ring mem sz off a @ ring mem sz ((off + a) mod sz) b"
  by (rule nth_equalityI) (auto simp: ring_def nth_append mod_add_left_eq mod_add_right_eq add.assoc)

lemma ring_split: "n \<le> len \<Longrightarrow> ring mem sz off len = ring mem sz off n @ ring mem sz ((off + n) mod sz) (len - n)"
  using ring_add [of mem sz off n "len - n"] by simp

lemma ring_flat:
  assumes "off + len \<le> sz" "length mem = sz"
  shows "take len (drop off mem) = ring mem sz off len"
  using assms by (intro nth_equalityI) (auto simp: ring_def)

lemma nth_poke:
  assumes "w + length xs \<le> length mem" "i < length mem"
  shows "poke mem w xs ! i = (if w \<le> i \<and> i < w + length xs then xs ! (i - w) else mem ! i)"
  using assms by (auto simp: poke_def nth_append)

lemma ring_poke:
  assumes len: "length mem = sz" "len + length xs \<le> sz" and w: "w = (off + len) mod sz" "w + length xs \<le> sz"
  shows "ring (poke mem w xs) sz off (len + length xs) = ring mem sz off len @ xs"
proof (cases "xs = []")
  case True
  then show ?thesis by (simp add: poke_def)
next
  case False
  with len(2) have sz: "0 < sz" by (cases xs) auto
  have pos: "(off + (len + m)) mod sz = w + m" if "m < length xs" for m
  proof -
    have "(off + (len + m)) mod sz = (w + m) mod sz" unfolding w(1) by (simp add: mod_simps add.assoc)
    then show ?thesis using that w(2) by simp
  qed
  show ?thesis
  proof (rule nth_equalityI)
    fix k assume "k < length (ring (poke mem w xs) sz off (len + length xs))"
    then have k: "k < len + length xs" by simp
    have idx: "(off + k) mod sz < length mem" using sz len(1) by simp
    show "ring (poke mem w xs) sz off (len + length xs) ! k = (ring mem sz off len @ xs) ! k"
    proof (cases "k < len")
      case True
      have "\<not> (w \<le> (off + k) mod sz \<and> (off + k) mod sz < w + length xs)"
      proof
        assume "w \<le> (off + k) mod sz \<and> (off + k) mod sz < w + length xs"
        then obtain m where m: "(off + k) mod sz = w + m" "m < length xs" by (metis add_less_cancel_left le_Suc_ex)
        then have "(off + k) mod sz = (off + (len + m)) mod sz" using pos by simp
        moreover have "off + k < off + (len + m)" "off + (len + m) - (off + k) < sz" using True m(2) len(2) by simp_all
        ultimately show False by (metis mod_eq_dvd_iff_nat nat_dvd_not_less less_imp_le zero_less_diff)
      qed
      then have "poke mem w xs ! ((off + k) mod sz) = mem ! ((off + k) mod sz)"
        using nth_poke [OF _ idx, of w xs] w(2) len(1) by (simp only: if_False)
      with True k show ?thesis by (simp add: ring_def nth_append)
    next
      case False
      then obtain m where m: "k = len + m" "m < length xs" using k by (metis le_Suc_ex not_less nat_add_left_cancel_less)
      have "poke mem w xs ! (w + m) = xs ! m" using nth_poke [of w xs mem "w + m"] w(2) len(1) m(2) by simp
      with m show ?thesis by (simp add: ring_def nth_append pos)
    qed
  qed (use len in simp)
qed

lemma ring_read_flat:
  assumes "length mem = sz" "sz \<le> 2 ^ 62" "off < sz" "0 < rest" "rest \<le> len" "len \<le> sz" "off + rest \<le> sz"
  shows "ring_read mem sz rest off len = Some (ring mem sz off rest, if len = rest then 0 else (off + rest) mod sz, len - rest)"
  using assms by (subst ring_read.simps) (auto simp: Let_def ring_flat)

lemma ring_read_spec:
  assumes "length mem = sz" "sz \<le> 2 ^ 62" "off < sz" "0 < rest" "rest \<le> len" "len \<le> sz"
  shows "ring_read mem sz rest off len = Some (ring mem sz off rest, if len = rest then 0 else (off + rest) mod sz, len - rest)"
proof (cases "off + rest \<le> sz")
  case True
  then show ?thesis by (rule ring_read_flat [OF assms])
next
  case False
  let ?c = "sz - off"
  have c: "?c < rest" "off + ?c = sz" using False assms(3) by simp_all
  have second: "ring_read mem sz (rest - ?c) 0 (len - ?c) =
      Some (ring mem sz 0 (rest - ?c), if len - ?c = rest - ?c then 0 else (0 + (rest - ?c)) mod sz, len - ?c - (rest - ?c))"
    by (rule ring_read_flat) (use assms c in linarith)+
  have out: "take ?c (drop off mem) = ring mem sz off ?c" by (rule ring_flat) (use assms c in simp_all)
  have join: "ring mem sz off ?c @ ring mem sz 0 (rest - ?c) = ring mem sz off rest"
    using ring_split [of ?c rest mem sz off] c by simp
  have off: "(off + rest) mod sz = rest - ?c"
  proof -
    have "off + rest = (rest - ?c) + sz" using c by linarith
    moreover have "rest - ?c < sz" using assms c by linarith
    ultimately show ?thesis by (simp only: mod_add_self2 mod_less)
  qed
  have "(rest - ?c) mod sz = rest - ?c" using assms c by (intro mod_less) linarith
  moreover have "size_wrap (off + rest) = off + rest" "size_wrap (off + ?c) = sz" using assms c by (simp_all add: c(2))
  moreover have "len - ?c \<noteq> 0" "rest - ?c \<noteq> 0" "\<not> len < rest" using assms c by linarith+
  ultimately show ?thesis
    using second False assms(3,5) off c
    by (subst ring_read.simps) (auto simp: Let_def out join [symmetric])
qed

lemma ring_write_flat:
  assumes "length mem = sz" "sz \<le> 2 ^ 62" "off < sz" "xs \<noteq> []" "len + length xs \<le> sz" "(off + len) mod sz + length xs \<le> sz"
  shows "\<exists>mem'. ring_write mem sz off len xs = Some (mem', len + length xs) \<and> length mem' = sz \<and>
    ring mem' sz off (len + length xs) = ring mem sz off len @ xs"
proof -
  let ?w = "(off + len) mod sz"
  have w: "(if size_wrap (off + len) \<ge> sz then size_wrap (off + len) - sz else size_wrap (off + len)) = ?w"
    using assms(2,3,5) by (simp add: mod_if)
  have "ring_write mem sz off len xs = Some (poke mem ?w xs, len + length xs)"
    using assms(1,2,5,6) by (subst ring_write.simps) (simp add: Let_def w)
  moreover have "length (poke mem ?w xs) = sz" using assms by simp
  moreover have "ring (poke mem ?w xs) sz off (len + length xs) = ring mem sz off len @ xs"
    by (rule ring_poke) (use assms in simp_all)
  ultimately show ?thesis by blast
qed

lemma ring_write_spec:
  assumes "length mem = sz" "sz \<le> 2 ^ 62" "off < sz" "xs \<noteq> []" "len + length xs \<le> sz"
  shows "\<exists>mem'. ring_write mem sz off len xs = Some (mem', len + length xs) \<and> length mem' = sz \<and>
    ring mem' sz off (len + length xs) = ring mem sz off len @ xs"
proof (cases "(off + len) mod sz + length xs \<le> sz")
  case True
  with ring_write_flat [OF assms] show ?thesis .
next
  case False
  define w where "w = (off + len) mod sz"
  define c where "c = sz - w"
  have "w < sz" using assms(3) by (simp add: w_def)
  with False have c: "0 < c" "c < length xs" "w + c = sz" unfolding c_def w_def [symmetric] by linarith+
  have w: "(if size_wrap (off + len) \<ge> sz then size_wrap (off + len) - sz else size_wrap (off + len)) = w"
    using assms(2,3,5) by (simp add: w_def mod_if)
  let ?ys = "take c xs" and ?zs = "drop c xs" and ?mem = "poke mem w (take c xs)"
  have lys: "length ?ys = c" using c by simp
  have r1: "ring ?mem sz off (len + c) = ring mem sz off len @ ?ys"
    using ring_poke [OF assms(1), of len ?ys w off] lys assms(5) c by (simp add: w_def)
  have z: "(off + (len + c)) mod sz = 0"
  proof -
    have "(off + (len + c)) mod sz = (w + c) mod sz" by (simp add: w_def mod_simps add.assoc)
    then show ?thesis using c(3) by simp
  qed
  have "\<exists>mem'. ring_write ?mem sz off (len + c) ?zs = Some (mem', (len + c) + length ?zs) \<and> length mem' = sz \<and>
      ring mem' sz off ((len + c) + length ?zs) = ring ?mem sz off (len + c) @ ?zs"
  proof (rule ring_write_flat)
    show "(off + (len + c)) mod sz + length ?zs \<le> sz" unfolding z using assms(5) by simp
    show "length ?mem = sz" using c(3) lys assms(1) by (subst length_poke) simp_all
    show "len + c + length ?zs \<le> sz" using assms(5) c(2) by simp
    show "?zs \<noteq> []" using c(2) by simp
  qed (use assms in simp_all)
  then obtain mem' where m: "ring_write ?mem sz off (len + c) ?zs = Some (mem', len + length xs)" "length mem' = sz"
      "ring mem' sz off (len + length xs) = ring mem sz off len @ xs"
    using c(2) by (auto simp: r1)
  have "sz < w + length xs" "\<not> length xs - c = 0" "size_wrap (w + length xs) = w + length xs"
    "size_wrap (len + c) = len + c" "size_wrap (len + length xs) = len + length xs"
    using assms(2,5) c by simp_all
  then have "ring_write mem sz off len xs = ring_write ?mem sz off (len + c) ?zs"
    using assms(5) by (subst ring_write.simps) (simp add: Let_def w c_def [symmetric])
  with m show ?thesis by auto
qed

section \<open>The abstract channel\<close>

text \<open>One direction of a pair: the bytes in flight, whether the writer has closed, the capacity, and what a reader waits for.\<close>

record chan =
  queue :: "byte list"
  closed_wr :: bool
  capacity :: nat
  wanted :: nat

definition send :: "byte list \<Rightarrow> chan \<Rightarrow> int \<times> chan" where
  "send xs c =
     (if xs = [] then (0, c)
      else if closed_wr c \<or> length (queue c) = capacity c then (-1, c\<lparr>wanted := 0\<rparr>)
      else let n = min (length xs) (capacity c - length (queue c))
        in (int n, c\<lparr>queue := queue c @ take n xs, wanted := 0\<rparr>))"

definition recv :: "nat \<Rightarrow> chan \<Rightarrow> (int \<times> byte list) \<times> chan" where
  "recv n c =
     (if n = 0 then ((0, []), c)
      else if queue c = [] then
        (if closed_wr c then ((0, []), c\<lparr>wanted := 0\<rparr>) else ((-1, []), c\<lparr>wanted := min n (capacity c)\<rparr>))
      else ((int (min n (length (queue c))), take n (queue c)), c\<lparr>queue := drop n (queue c), wanted := 0\<rparr>))"

definition end_ok :: "bio \<Rightarrow> bool" where
  "end_ok b \<longleftrightarrow> bb_buf b \<noteq> None \<and> length (the (bb_buf b)) = bb_size b \<and>
     0 < bb_size b \<and> bb_size b \<le> 2 ^ 62 \<and> bb_len b \<le> bb_size b \<and> bb_offset b < bb_size b"

definition paired :: "nat \<Rightarrow> nat \<Rightarrow> bios \<Rightarrow> bool" where
  "paired i j st \<longleftrightarrow> i \<noteq> j \<and> bb_peer (st i) = Some j \<and> bb_peer (st j) = Some i \<and> bio_init (st i) \<and> bio_init (st j) \<and>
     end_ok (st i) \<and> end_ok (st j)"

definition chan_of :: "bio \<Rightarrow> chan" where
  "chan_of b = \<lparr>queue = ring (the (bb_buf b)) (bb_size b) (bb_offset b) (bb_len b), closed_wr = bb_closed b,
     capacity = bb_size b, wanted = bb_request b\<rparr>"

lemma paired_sym: "paired i j st \<longleftrightarrow> paired j i st"
  by (auto simp: paired_def)

lemma int_of_size_small: "n \<le> INT_MAX \<Longrightarrow> int_of_size n = int n"
proof -
  assume n: "n \<le> INT_MAX"
  have "unat (word_of_nat n :: u32) = n" using n by (simp add: unat_of_nat)
  then show ?thesis using n by (simp add: int_of_size_def sint_uint uint_nat signed_take_bit_int_eq_self)
qed

lemma size_of_int_small: "size_of_int (int n) = n" if "n \<le> INT_MAX"
  using that by (simp add: size_of_int_def)

lemma BIO_write_spec:
  assumes p: "paired i j st" and n: "length xs \<le> INT_MAX" and ys: "xs = take (length xs) ys"
  shows "\<exists>st'. BIO_write i (Some ys) (int (length xs)) st = Some (fst (send xs (chan_of (st i))), st') \<and> paired i j st' \<and>
    chan_of (st' i) = snd (send xs (chan_of (st i))) \<and> chan_of (st' j) = chan_of (st j)"
proof (cases "xs = []")
  case True
  then show ?thesis using p by (auto simp: BIO_write_def send_def paired_def)
next
  case False
  from p obtain mem where b: "bb_buf (st i) = Some mem" "length mem = bb_size (st i)" "0 < bb_size (st i)" "bb_size (st i) \<le> 2 ^ 62"
    "bb_len (st i) \<le> bb_size (st i)" "bb_offset (st i) < bb_size (st i)" and ij: "i \<noteq> j" "bb_peer (st i) = Some j" "bio_init (st i)"
    by (auto simp: paired_def end_ok_def)
  show ?thesis
  proof (cases "bb_closed (st i) \<or> bb_len (st i) = bb_size (st i)")
    case True
    with False b ij n p show ?thesis
      by (auto simp: BIO_write_def bio_write_def size_of_int_small Let_def send_def chan_of_def paired_def end_ok_def)
  next
    case room: False
    define n where "n = min (length xs) (bb_size (st i) - bb_len (st i))"
    have nn: "(if length xs > bb_size (st i) - bb_len (st i) then bb_size (st i) - bb_len (st i) else length xs) = n" by (simp add: n_def)
    have le: "n \<le> length xs" "n \<le> INT_MAX" "0 < n" "bb_len (st i) + n \<le> bb_size (st i)"
      using assms(2) False room b(5) by (auto simp: n_def)
    have lx: "length (take n xs) = n" using le(1) by simp
    with le(3) have "take n xs \<noteq> []" by (metis less_irrefl list.size(3))
    then obtain mem' where m: "ring_write mem (bb_size (st i)) (bb_offset (st i)) (bb_len (st i)) (take n xs) = Some (mem', bb_len (st i) + n)"
      "length mem' = bb_size (st i)"
      "ring mem' (bb_size (st i)) (bb_offset (st i)) (bb_len (st i) + n) = ring mem (bb_size (st i)) (bb_offset (st i)) (bb_len (st i)) @ take n xs"
      using ring_write_spec [OF b(2,4,6), of "take n xs" "bb_len (st i)"] le(4) unfolding lx by blast
    have int: "int_of_size n = int n" by (rule int_of_size_small [OF le(2)])
    have tk: "take n ys = take n xs" by (subst ys) (simp add: min_absorb1 le(1))
    let ?b = "(st i)\<lparr>bio_flags := No_Retry, bb_request := 0, bb_buf := Some mem', bb_len := bb_len (st i) + n\<rparr>"
    have wr: "bio_write i (Some ys) (int (length xs)) st = Some (int n, st(i := ?b))"
      using False room b(1,5) ij assms(2) by (simp add: bio_write_def size_of_int_small Let_def nn tk m(1) int cong: if_cong)
    have sd: "send xs (chan_of (st i)) = (int n, chan_of ?b)"
      using False room b(1) by (simp add: send_def chan_of_def m(3) n_def [symmetric])
    have pos: "int (length xs) > 0" "int n > 0" using le(3) False by simp_all
    show ?thesis unfolding sd using pos ij p m(2) le(4)
      by (simp add: BIO_write_def wr chan_of_def paired_def end_ok_def)
  qed
qed

lemma BIO_read_spec:
  assumes p: "paired i j st" and n: "n \<le> INT_MAX"
  shows "\<exists>st'. BIO_read i True (int n) st = Some (fst (fst (recv n (chan_of (st j)))), snd (fst (recv n (chan_of (st j)))), st') \<and>
    paired i j st' \<and> chan_of (st' j) = snd (recv n (chan_of (st j))) \<and> chan_of (st' i) = chan_of (st i)"
proof (cases "n = 0")
  case True
  then show ?thesis using p by (auto simp: BIO_read_def recv_def paired_def)
next
  case False
  from p obtain mem where b: "bb_buf (st j) = Some mem" "length mem = bb_size (st j)" "0 < bb_size (st j)" "bb_size (st j) \<le> 2 ^ 62"
    "bb_len (st j) \<le> bb_size (st j)" "bb_offset (st j) < bb_size (st j)" and ij: "i \<noteq> j" "bb_peer (st i) = Some j" "bio_init (st i)"
    by (auto simp: paired_def end_ok_def)
  show ?thesis
  proof (cases "bb_len (st j) = 0")
    case True
    with False b ij n p show ?thesis
      by (auto simp: BIO_read_def bio_read_def size_of_int_small Let_def recv_def chan_of_def paired_def end_ok_def ring_def min_def)
  next
    case some: False
    let ?n = "min n (bb_len (st j))" and ?off = "bb_offset (st j)" and ?sz = "bb_size (st j)" and ?len = "bb_len (st j)"
    have nn: "(if ?len < n then ?len else n) = ?n" by simp
    have le: "0 < ?n" "?n \<le> ?len" "?n \<le> INT_MAX" using False some n by auto
    let ?off' = "if ?len = ?n then 0 else (?off + ?n) mod ?sz"
    have rd: "ring_read mem ?sz ?n ?off ?len = Some (ring mem ?sz ?off ?n, ?off', ?len - ?n)"
      by (rule ring_read_spec [OF b(2,4,6) le(1,2) b(5)])
    have off: "?off' < ?sz" using b(3) by simp
    have "ring mem ?sz ?off ?len = ring mem ?sz ?off ?n @ ring mem ?sz ((?off + ?n) mod ?sz) (?len - ?n)"
      by (rule ring_split [OF le(2)])
    moreover have "ring mem ?sz ((?off + ?n) mod ?sz) (?len - ?n) = ring mem ?sz ?off' (?len - ?n)"
      by (simp add: ring_def)
    ultimately have sp: "ring mem ?sz ?off ?len = ring mem ?sz ?off ?n @ ring mem ?sz ?off' (?len - ?n)" by (simp only:)
    have q: "take n (ring mem ?sz ?off ?len) = ring mem ?sz ?off ?n \<and> drop n (ring mem ?sz ?off ?len) = ring mem ?sz ?off' (?len - ?n)"
    proof (cases "n \<le> ?len")
      case True
      then have l: "length (ring mem ?sz ?off ?n) = n" by simp
      show ?thesis unfolding sp take_append drop_append l by simp
    next
      case False
      then have l: "length (ring mem ?sz ?off ?len) \<le> n" "?n = ?len" "?len - ?n = 0" by simp_all
      show ?thesis unfolding take_all [OF l(1)] drop_all [OF l(1)] l(3) unfolding l(2) by (simp add: ring_def)
    qed
    have ne: "ring mem ?sz ?off ?len \<noteq> []" using some by (metis length_ring list.size(3))
    have int: "int_of_size ?n = int ?n" by (rule int_of_size_small [OF le(3)])
    have read: "bio_read i True (int n) st = Some (int ?n, ring mem ?sz ?off ?n,
        (let st = st(i := (st i)\<lparr>bio_flags := No_Retry\<rparr>); st = st(j := (st j)\<lparr>bb_request := 0\<rparr>)
         in st(j := (st j)\<lparr>bb_offset := ?off', bb_len := ?len - ?n\<rparr>)))"
      using False some b(1) ij n by (simp add: bio_read_def size_of_int_small Let_def nn rd int cong: if_cong)
    have rv: "recv n (chan_of (st j)) = ((int ?n, ring mem ?sz ?off ?n),
        chan_of ((st j)\<lparr>bb_request := 0, bb_offset := ?off', bb_len := ?len - ?n\<rparr>))"
      using False ne by (simp add: recv_def chan_of_def b(1) q del: length_greater_0_conv)
    have pos: "int n > 0" "int ?n > 0" using le(1) by simp_all
    show ?thesis unfolding rv
      using pos ij p off b(5) by (simp add: BIO_read_def read Let_def chan_of_def paired_def end_ok_def)
  qed
qed

section \<open>Runs of a pair\<close>

text \<open>Calls on the two ends: \<open>True\<close> is the end at \<open>i\<close>, \<open>False\<close> the one at \<open>j\<close>.\<close>

datatype pair_call =
    Write bool "byte list" | Read bool nat | Shutdown bool | Guarantee bool | Pending bool | Request bool | Reset bool

definition call :: "nat \<Rightarrow> nat \<Rightarrow> pair_call \<Rightarrow> bios \<Rightarrow> ((int \<times> byte list) \<times> bios) option" where
  "call i j op st =
     (let at = (\<lambda>e. if e then i else j); ctrl = (\<lambda>(r, st). Some ((r, []), st))
      in case op of
           Write e xs \<Rightarrow> map_option (\<lambda>(r, st). ((r, []), st)) (BIO_write (at e) (Some xs) (int (length xs)) st)
         | Read e n \<Rightarrow> map_option (\<lambda>(r, out, st). ((r, out), st)) (BIO_read (at e) True (int n) st)
         | Shutdown e \<Rightarrow> ctrl (bio_ctrl (at e) SHUTDOWN_WR st)
         | Guarantee e \<Rightarrow> ctrl (bio_ctrl (at e) GET_WRITE_GUARANTEE st)
         | Pending e \<Rightarrow> ctrl (bio_ctrl (at e) PENDING st)
         | Request e \<Rightarrow> ctrl (bio_ctrl (at e) GET_READ_REQUEST st)
         | Reset e \<Rightarrow> ctrl (bio_ctrl (at e) RESET_READ_REQUEST st))"

fun calls :: "nat \<Rightarrow> nat \<Rightarrow> pair_call list \<Rightarrow> bios \<Rightarrow> ((int \<times> byte list) list \<times> bios) option" where
  "calls i j [] st = Some ([], st)"
| "calls i j (op # ops) st =
     Option.bind (call i j op st) (\<lambda>(r, st). map_option (\<lambda>(rs, st). (r # rs, st)) (calls i j ops st))"

text \<open>The same calls on two channels, one per direction; the end \<open>e\<close> writes to channel \<open>e\<close> and reads from the other.\<close>

definition chan_call :: "pair_call \<Rightarrow> (bool \<Rightarrow> chan) \<Rightarrow> (int \<times> byte list) \<times> (bool \<Rightarrow> chan)" where
  "chan_call op c =
     (case op of
        Write e xs \<Rightarrow> ((fst (send xs (c e)), []), c(e := snd (send xs (c e))))
      | Read e n \<Rightarrow> (fst (recv n (c (\<not> e))), c((\<not> e) := snd (recv n (c (\<not> e)))))
      | Shutdown e \<Rightarrow> ((1, []), c(e := (c e)\<lparr>closed_wr := True\<rparr>))
      | Guarantee e \<Rightarrow> ((if closed_wr (c e) then 0 else int (capacity (c e)) - int (length (queue (c e))), []), c)
      | Pending e \<Rightarrow> ((int (length (queue (c (\<not> e)))), []), c)
      | Request e \<Rightarrow> ((int (wanted (c e)), []), c)
      | Reset e \<Rightarrow> ((1, []), c(e := (c e)\<lparr>wanted := 0\<rparr>)))"

fun chan_calls :: "pair_call list \<Rightarrow> (bool \<Rightarrow> chan) \<Rightarrow> (int \<times> byte list) list \<times> (bool \<Rightarrow> chan)" where
  "chan_calls [] c = ([], c)"
| "chan_calls (op # ops) c = (case chan_call op c of (r, c) \<Rightarrow> (case chan_calls ops c of (rs, c) \<Rightarrow> (r # rs, c)))"

definition chans :: "nat \<Rightarrow> nat \<Rightarrow> bios \<Rightarrow> bool \<Rightarrow> chan" where
  "chans i j st e = chan_of (st (if e then i else j))"

text \<open>Lengths are those an \<^verbatim>\<open>int\<close> argument can name.\<close>

fun call_ok :: "pair_call \<Rightarrow> bool" where
  "call_ok (Write e xs) = (length xs \<le> INT_MAX)"
| "call_ok (Read e n) = (n \<le> INT_MAX)"
| "call_ok _ = True"

lemma chans_update:
  assumes "i \<noteq> j"
  shows "chan_of (st i) = c \<Longrightarrow> chan_of (st j) = chans i j st0 False \<Longrightarrow> chans i j st = (chans i j st0)(True := c)"
    "chan_of (st j) = c \<Longrightarrow> chan_of (st i) = chans i j st0 True \<Longrightarrow> chans i j st = (chans i j st0)(False := c)"
  using assms by (auto simp: chans_def fun_eq_iff)

lemma call_refines:
  assumes p: "paired i j st" and ok: "call_ok op"
  shows "\<exists>st'. call i j op st = Some (fst (chan_call op (chans i j st)), st') \<and> paired i j st' \<and>
    chans i j st' = snd (chan_call op (chans i j st))"
proof -
  from p have ij: "i \<noteq> j" "j \<noteq> i" by (auto simp: paired_def)
  have q: "paired j i st" using p by (simp add: paired_sym)
  have c: "chans i j st True = chan_of (st i)" "chans i j st False = chan_of (st j)" by (simp_all add: chans_def)
  show ?thesis
  proof (cases op)
    case (Write e xs)
    then have n: "length xs \<le> INT_MAX" using ok by simp
    show ?thesis
    proof (cases e)
      case True
      with BIO_write_spec [OF p n, of xs] Write show ?thesis
        by (auto simp: call_def chan_call_def c intro!: chans_update [OF ij(1)])
    next
      case False
      with BIO_write_spec [OF q n, of xs] Write show ?thesis
        by (auto simp: call_def chan_call_def c paired_sym [of j i] intro!: chans_update [OF ij(1)])
    qed
  next
    case (Read e n)
    then have n: "n \<le> INT_MAX" using ok by simp
    show ?thesis
    proof (cases e)
      case True
      with BIO_read_spec [OF p n] Read show ?thesis
        by (auto simp: call_def chan_call_def c intro!: chans_update [OF ij(1)])
    next
      case False
      with BIO_read_spec [OF q n] Read show ?thesis
        by (auto simp: call_def chan_call_def c paired_sym [of j i] intro!: chans_update [OF ij(1)])
    qed
  next
    case (Shutdown e)
    then show ?thesis using p ij
      by (cases e) (auto simp: call_def chan_call_def bio_ctrl_def paired_def end_ok_def c intro!: chans_update [OF ij(1)]; simp add: chan_of_def c)+
  next
    case (Reset e)
    then show ?thesis using p ij
      by (cases e) (auto simp: call_def chan_call_def bio_ctrl_def paired_def end_ok_def c intro!: chans_update [OF ij(1)]; simp add: chan_of_def c)+
  next
    case (Guarantee e)
    then show ?thesis using p by (cases e) (simp_all add: call_def chan_call_def bio_ctrl_def c chan_of_def paired_def Let_def)
  next
    case (Pending e)
    then show ?thesis using p by (cases e) (simp_all add: call_def chan_call_def bio_ctrl_def c chan_of_def paired_def Let_def)
  next
    case (Request e)
    then show ?thesis using p by (cases e) (simp_all add: call_def chan_call_def bio_ctrl_def c chan_of_def Let_def)
  qed
qed

lemma calls_refine:
  assumes "paired i j st" "\<forall>op \<in> set ops. call_ok op"
  shows "\<exists>st'. calls i j ops st = Some (fst (chan_calls ops (chans i j st)), st') \<and> paired i j st' \<and>
    chans i j st' = snd (chan_calls ops (chans i j st))"
  using assms
proof (induction ops arbitrary: st)
  case (Cons op ops)
  from call_refines [OF Cons.prems(1), of op] Cons.prems(2) obtain st1 where
    1: "call i j op st = Some (fst (chan_call op (chans i j st)), st1)" "paired i j st1"
       "chans i j st1 = snd (chan_call op (chans i j st))" by auto
  from Cons.IH [OF 1(2)] Cons.prems(2) obtain st2 where
    2: "calls i j ops st1 = Some (fst (chan_calls ops (chans i j st1)), st2)" "paired i j st2"
       "chans i j st2 = snd (chan_calls ops (chans i j st1))" by auto
  show ?case using 1 2 by (simp add: case_prod_beta)
qed auto

lemma malloc_total: "\<forall>n. A n \<noteq> None \<Longrightarrow> \<exists>blk. OPENSSL_malloc A k = Some blk"
  unfolding OPENSSL_malloc_def by (drule spec [of _ "size_wrap (k + 8)"]) auto

text \<open>A new pair: two empty channels.\<close>

lemma new_pair:
  assumes "malloc_spec A" "\<forall>n. A n \<noteq> None" "i \<noteq> j" "n \<le> 2 ^ 62" "m \<le> 2 ^ 62"
  shows "\<exists>st'. BIO_new_bio_pair A i j n m st = (True, st') \<and> paired i j st' \<and>
    chans i j st' = (\<lambda>e. \<lparr>queue = [], closed_wr = False,
      capacity = (let k = if e then n else m in if k = 0 then 17 * 1024 else k), wanted = 0\<rparr>)"
proof -
  obtain b where b: "bio_new A = Some b" "bb_peer b = None" "bb_buf b = None" "bb_size b = 17 * 1024"
    using malloc_total [OF assms(2), of 80] malloc_total [OF assms(2), of 56] by (auto simp: bio_new_def)
  have buf: "\<exists>c. pair_buffer A k b = (Some c, b') \<and> bb_peer c = None \<and> bb_len c = 0 \<and> bb_offset c = 0 \<and>
      bb_size c = (if k = 0 then 17 * 1024 else k) \<and> (\<exists>mem. bb_buf c = Some mem \<and> length mem = bb_size c)"
    if "k \<le> 2 ^ 62" "b' = snd (pair_buffer A k b)" for k b'
  proof -
    let ?k = "if k = 0 then 17 * 1024 else k"
    obtain blk where blk: "OPENSSL_malloc A ?k = Some blk" using malloc_total [OF assms(2)] by blast
    have "length (blk_body blk) = ?k" using OPENSSL_malloc_size [OF assms(1) _ blk] that(1) by simp
    with blk that(2) b show ?thesis by (cases "k = 0") (simp_all add: pair_buffer_def Let_def)
  qed
  from buf [OF assms(4) refl] obtain c where c: "fst (pair_buffer A n b) = Some c" "bb_peer c = None" "bb_len c = 0" "bb_offset c = 0"
    "bb_size c = (if n = 0 then 17 * 1024 else n)" "\<exists>mem. bb_buf c = Some mem \<and> length mem = bb_size c" by (metis fst_conv)
  from buf [OF assms(5) refl] obtain d where d: "fst (pair_buffer A m b) = Some d" "bb_peer d = None" "bb_len d = 0" "bb_offset d = 0"
    "bb_size d = (if m = 0 then 17 * 1024 else m)" "\<exists>mem. bb_buf d = Some mem \<and> length mem = bb_size d" by (metis fst_conv)
  let ?c = "c\<lparr>bb_peer := Some j, bb_closed := False, bb_request := 0, bio_init := True\<rparr>"
    and ?d = "d\<lparr>bb_peer := Some i, bb_closed := False, bb_request := 0, bio_init := True\<rparr>"
  have "BIO_new_bio_pair A i j n m st = (True, st(i := ?c, j := ?d))"
    using c(1,2) d(1,2) assms(3) b(1,2)
    by (cases "pair_buffer A n b"; cases "pair_buffer A m b")
      (auto simp: BIO_new_bio_pair_def bio_make_pair_def Let_def fun_eq_iff)
  moreover have "end_ok ?c" "end_ok ?d" using c d assms(4,5) by (auto simp: end_ok_def)
  moreover have "chan_of ?c = \<lparr>queue = [], closed_wr = False, capacity = if n = 0 then 17 * 1024 else n, wanted = 0\<rparr>"
    "chan_of ?d = \<lparr>queue = [], closed_wr = False, capacity = if m = 0 then 17 * 1024 else m, wanted = 0\<rparr>"
    using c d by (simp_all add: chan_of_def ring_def)
  ultimately show ?thesis using assms(3) b(1) c(2) d(2)
    by (intro exI [of _ "st(i := ?c, j := ?d)"] conjI ext) (simp_all add: paired_def chans_def Let_def)
qed

section \<open>Clients of a byte sink\<close>

text \<open>
  What \<^verbatim>\<open>BIO_write_all\<close> relies on: a write call returns, and what it took is a prefix of the bytes, as
  long as its positive result says.
\<close>

locale byte_sink =
  fixes wr :: "byte list \<Rightarrow> int \<Rightarrow> 's \<Rightarrow> (int \<times> 's) option"
    and sent :: "'s \<Rightarrow> byte list"
    and ok :: "'s \<Rightarrow> bool"
  assumes wr_returns: "ok s \<Longrightarrow> 0 < n \<Longrightarrow> n \<le> INT_MAX \<Longrightarrow> n \<le> length xs \<Longrightarrow>
      \<exists>r s'. wr xs (int n) s = Some (r, s') \<and> ok s' \<and> nat r \<le> n \<and> sent s' = sent s @ take (nat r) xs"
begin

lemma write_all_spec:
  assumes "ok s"
  shows "\<exists>b s' k. BIO_write_all wr xs s = Some (b, s') \<and> ok s' \<and> sent s' = sent s @ take k xs \<and> (b \<longrightarrow> k = length xs)"
  using assms
proof (induction "length xs" arbitrary: xs s rule: less_induct)
  case less
  show ?case
  proof (cases "xs = []")
    case True
    with less.prems show ?thesis by (subst BIO_write_all.simps) auto
  next
    case False
    let ?n = "if length xs > INT_MAX then INT_MAX else length xs"
    have n: "0 < ?n" "?n \<le> INT_MAX" "?n \<le> length xs" using False by auto
    from wr_returns [OF less.prems n] obtain r s1 where
      r: "wr xs (int ?n) s = Some (r, s1)" "ok s1" "nat r \<le> ?n" "sent s1 = sent s @ take (nat r) xs" by blast
    have wr: "wr xs (if length xs > INT_MAX then int INT_MAX else int (length xs)) s = Some (r, s1)"
      using r(1) by (simp split: if_splits)
    show ?thesis
    proof (cases "r \<le> 0")
      case True
      with False wr r show ?thesis by (subst BIO_write_all.simps) (auto intro!: exI [of _ 0])
    next
      case pos: False
      then have "length (drop (nat r) xs) < length xs" using False by simp
      from less.hyps [OF this r(2)] obtain b s2 k where
        k: "BIO_write_all wr (drop (nat r) xs) s1 = Some (b, s2)" "ok s2" "sent s2 = sent s1 @ take k (drop (nat r) xs)"
           "b \<longrightarrow> k = length (drop (nat r) xs)" by blast
      have "BIO_write_all wr xs s = Some (b, s2)"
        using False wr pos k(1) by (subst BIO_write_all.simps) simp
      moreover have "sent s2 = sent s @ take (nat r + k) xs" using k(3) r(4) by (simp add: take_add)
      moreover have "b \<longrightarrow> nat r + k = length xs" using k(4) r(3) n(3) by auto
      ultimately show ?thesis using k(2) by blast
    qed
  qed
qed

end

interpretation pair_sink: byte_sink "\<lambda>xs n. BIO_write i (Some xs) n" "\<lambda>st. queue (chan_of (st i))" "paired i j" for i j
proof
  fix st :: bios and n :: nat and xs :: "byte list"
  assume p: "paired i j st" and n: "0 < n" "n \<le> INT_MAX" "n \<le> length xs"
  let ?xs = "take n xs"
  have len: "length ?xs = n" using n(3) by simp
  from BIO_write_spec [OF p, of ?xs xs] n obtain st' where
    w: "BIO_write i (Some xs) (int n) st = Some (fst (send ?xs (chan_of (st i))), st')" "paired i j st'"
       "chan_of (st' i) = snd (send ?xs (chan_of (st i)))"
    by (auto simp: len)
  have ne: "?xs \<noteq> []" using n by auto
  have "nat (fst (send ?xs (chan_of (st i)))) \<le> n \<and>
      queue (chan_of (st' i)) = queue (chan_of (st i)) @ take (nat (fst (send ?xs (chan_of (st i))))) xs"
    unfolding w(3) using ne len by (auto simp: send_def Let_def min_def)
  with w(1,2) show "\<exists>r s'. BIO_write i (Some xs) (int n) st = Some (r, s') \<and> paired i j s' \<and> nat r \<le> n \<and>
      queue (chan_of (s' i)) = queue (chan_of (st i)) @ take (nat r) xs" by blast
qed

section \<open>Properties\<close>

text \<open>
  C31. A new pair behaves as two independent bounded FIFO channels: every sequence of reads, writes,
  shutdowns and queries on the two ends returns (no assertion fails, no copy loop hangs) and gives the
  results of the channels, wherever the ring buffers wrap around.
\<close>

theorem bio_pair_refines_channels:
  assumes "malloc_spec A" "\<forall>n. A n \<noteq> None" "i \<noteq> j" "n \<le> 2 ^ 62" "m \<le> 2 ^ 62" "\<forall>op \<in> set ops. call_ok op"
  shows "\<exists>st' st''. BIO_new_bio_pair A i j n m st = (True, st') \<and>
    calls i j ops st' = Some (fst (chan_calls ops (\<lambda>e. \<lparr>queue = [], closed_wr = False,
      capacity = (let k = if e then n else m in if k = 0 then 17 * 1024 else k), wanted = 0\<rparr>)), st'')"
proof -
  from new_pair [OF assms(1-5)] obtain st' where n: "BIO_new_bio_pair A i j n m st = (True, st')" "paired i j st'"
    "chans i j st' = (\<lambda>e. \<lparr>queue = [], closed_wr = False,
      capacity = (let k = if e then n else m in if k = 0 then 17 * 1024 else k), wanted = 0\<rparr>)" by blast
  from calls_refine [OF n(2) assms(6)] n(1) show ?thesis unfolding n(3) by blast
qed

definition plenty :: allocator where
  "plenty n = Some (replicate n 0)"

lemma plenty: "malloc_spec plenty" "\<forall>n. plenty n \<noteq> None"
  by (simp_all add: plenty_def malloc_spec_def)

theorem bio_pair_refines_channels_witness:
  "\<exists>st' st''. BIO_new_bio_pair plenty 0 1 3 0 (\<lambda>_. undefined) = (True, st') \<and>
     calls 0 1 [Write True [1, 2, 3, 4], Read False 2, Write True [5, 6], Shutdown True, Read False 9, Read False 9] st' =
       Some ([(3, []), (2, [1, 2]), (2, []), (1, []), (3, [3, 5, 6]), (0, [])], st'')"
proof -
  let ?ops = "[Write True [1, 2, 3, 4], Read False 2, Write True [5, 6], Shutdown True, Read False 9, Read False 9]"
  have "fst (chan_calls ?ops (\<lambda>e. \<lparr>queue = [], closed_wr = False,
      capacity = (let k = if e then 3 else 0 in if k = 0 then 17 * 1024 else k), wanted = 0\<rparr>)) =
    [(3, []), (2, [1, 2]), (2, []), (1, []), (3, [3, 5, 6]), (0, [])]"
    by (simp add: chan_call_def send_def recv_def)
  with bio_pair_refines_channels [OF plenty, of 0 1 3 0 ?ops "\<lambda>_. undefined"] show ?thesis by simp
qed

text \<open>
  C32. \<^verbatim>\<open>BIO_write_all\<close> on one end of a pair returns, whatever the buffers hold; it reports success only
  when every byte is in flight, and otherwise a prefix of them is.
\<close>

theorem BIO_write_all_on_pair:
  assumes "paired i j st"
  shows "\<exists>ok st' k. BIO_write_all (\<lambda>xs n. BIO_write i (Some xs) n) data st = Some (ok, st') \<and> paired i j st' \<and>
    queue (chan_of (st' i)) = queue (chan_of (st i)) @ take k data \<and> (ok \<longrightarrow> k = length data)"
  by (rule pair_sink.write_all_spec [OF assms])

definition sample_bios :: bios where
  "sample_bios = (\<lambda>i. \<lparr>bio_init = True, bio_shutdown = 1, bio_flags = No_Retry, bio_num_read = 0, bio_num_write = 0,
     bb_peer = Some (1 - i), bb_closed = False, bb_len = 1, bb_offset = 2, bb_size = 3, bb_buf = Some [7, 8, 9], bb_request = 0\<rparr>)"

lemma sample_bios_paired: "paired 0 1 sample_bios"
  by (simp add: sample_bios_def paired_def end_ok_def)

theorem BIO_write_all_on_pair_witness:
  "\<exists>ok st' k. BIO_write_all (\<lambda>xs n. BIO_write 0 (Some xs) n) [1, 2, 3] sample_bios = Some (ok, st') \<and> paired 0 1 st' \<and>
     queue (chan_of (st' 0)) = [9] @ take k [1, 2, 3] \<and> (ok \<longrightarrow> k = 3)"
proof -
  have "queue (chan_of (sample_bios 0)) = [9]" by (simp add: sample_bios_def chan_of_def ring_def)
  with BIO_write_all_on_pair [OF sample_bios_paired, of "[1, 2, 3]"] show ?thesis by (simp add: numeral_3_eq_3)
qed

text \<open>
  C33. What \<^verbatim>\<open>BIO_ctrl_get_write_guarantee\<close> promises is kept: a write of no more bytes than that is
  taken whole, and the peer then reads what was pending and these bytes, in order, in one call.
\<close>

theorem bio_pair_delivers:
  assumes "paired i j st" "xs \<noteq> []" "int (length xs) \<le> BIO_ctrl_get_write_guarantee i st" "bb_size (st i) \<le> INT_MAX"
  shows "\<exists>st' st''. BIO_write i (Some xs) (int (length xs)) st = Some (int (length xs), st') \<and>
    BIO_read j True (fst (bio_ctrl j PENDING st')) st' =
      Some (int (length (queue (chan_of (st i)) @ xs)), queue (chan_of (st i)) @ xs, st'')"
proof -
  have g: "\<not> bb_closed (st i)" "bb_len (st i) + length xs \<le> bb_size (st i)"
    using assms(2,3) by (auto simp: BIO_ctrl_get_write_guarantee_def bio_ctrl_def Let_def split: if_splits)
  from BIO_write_spec [OF assms(1), of xs xs] g assms(4) obtain st' where w:
    "BIO_write i (Some xs) (int (length xs)) st = Some (fst (send xs (chan_of (st i))), st')" "paired i j st'"
    "chan_of (st' i) = snd (send xs (chan_of (st i)))" by auto
  have s: "send xs (chan_of (st i)) = (int (length xs), (chan_of (st i))\<lparr>queue := queue (chan_of (st i)) @ xs, wanted := 0\<rparr>)"
    using assms(2) g by (auto simp: send_def chan_of_def min_def)
  let ?q = "queue (chan_of (st i)) @ xs"
  have q: "queue (chan_of (st' i)) = ?q" using w(3) s by simp
  then have len: "bb_len (st' i) = length ?q" by (metis chan.select_convs(1) chan_of_def length_ring)
  have small: "length ?q \<le> INT_MAX" using g(2) assms(4) by (simp add: chan_of_def)
  have pend: "fst (bio_ctrl j PENDING st') = int (length ?q)"
    using w(2) len by (simp add: bio_ctrl_def paired_def Let_def)
  have "recv (length ?q) (chan_of (st' i)) = ((int (length ?q), ?q), (chan_of (st' i))\<lparr>queue := [], wanted := 0\<rparr>)"
    using assms(2) by (simp add: recv_def q)
  with BIO_read_spec [of j i st' "length ?q"] w(2) small have "\<exists>st''. BIO_read j True (int (length ?q)) st' = Some (int (length ?q), ?q, st'')"
    by (auto simp: paired_sym [of j i])
  with w(1) s pend show ?thesis by auto
qed

theorem bio_pair_delivers_witness:
  "\<exists>st' st''. BIO_write 0 (Some [5, 6]) 2 sample_bios = Some (2, st') \<and>
     BIO_read 1 True (fst (bio_ctrl 1 PENDING st')) st' = Some (3, [9, 5, 6], st'')"
proof -
  have "queue (chan_of (sample_bios 0)) = [9]" by (simp add: sample_bios_def chan_of_def ring_def)
  moreover have "int (length [5, 6 :: byte]) \<le> BIO_ctrl_get_write_guarantee 0 sample_bios"
    "bb_size (sample_bios 0) \<le> INT_MAX"
    by (simp_all add: sample_bios_def BIO_ctrl_get_write_guarantee_def bio_ctrl_def)
  ultimately show ?thesis using bio_pair_delivers [OF sample_bios_paired, of "[5, 6]"] by simp
qed

end
