(* ===== verification/Constant_Time.thy ===== *)
theory Constant_Time
  imports JS_Prelude
begin

text \<open>
  Model of the constant-time helpers of \<^verbatim>\<open>crypto/internal.h\<close>, which compute comparisons and choices
  with masks instead of branches, and their equivalence with ordinary comparisons. A value barrier is
  the identity. A \<^verbatim>\<open>crypto_word_t\<close> has 64 bits; an \<^verbatim>\<open>int\<close> is sign-extended to one.
\<close>

named_theorems constant_time

definition constant_time_msb_w :: "u64 \<Rightarrow> u64" where
  "constant_time_msb_w a = 0 - drop_bit (8 * 8 - 1) a"

definition constant_time_lt_w :: "u64 \<Rightarrow> u64 \<Rightarrow> u64" where
  "constant_time_lt_w a b = constant_time_msb_w (a XOR ((a XOR b) OR ((a - b) XOR a)))"

definition constant_time_lt_8 :: "u64 \<Rightarrow> u64 \<Rightarrow> byte" where
  "constant_time_lt_8 a b = ucast (constant_time_lt_w a b)"

definition constant_time_ge_w :: "u64 \<Rightarrow> u64 \<Rightarrow> u64" where
  "constant_time_ge_w a b = NOT (constant_time_lt_w a b)"

definition constant_time_ge_8 :: "u64 \<Rightarrow> u64 \<Rightarrow> byte" where
  "constant_time_ge_8 a b = ucast (constant_time_ge_w a b)"

definition constant_time_is_zero_w :: "u64 \<Rightarrow> u64" where
  "constant_time_is_zero_w a = constant_time_msb_w (NOT a AND (a - 1))"

definition constant_time_is_zero_8 :: "u64 \<Rightarrow> byte" where
  "constant_time_is_zero_8 a = ucast (constant_time_is_zero_w a)"

definition constant_time_eq_w :: "u64 \<Rightarrow> u64 \<Rightarrow> u64" where
  "constant_time_eq_w a b = constant_time_is_zero_w (a XOR b)"

definition constant_time_eq_8 :: "u64 \<Rightarrow> u64 \<Rightarrow> byte" where
  "constant_time_eq_8 a b = ucast (constant_time_eq_w a b)"

definition constant_time_eq_int :: "32 word \<Rightarrow> 32 word \<Rightarrow> u64" where
  "constant_time_eq_int a b = constant_time_eq_w (scast a) (scast b)"

definition constant_time_eq_int_8 :: "32 word \<Rightarrow> 32 word \<Rightarrow> byte" where
  "constant_time_eq_int_8 a b = constant_time_eq_8 (scast a) (scast b)"

definition constant_time_select_w :: "u64 \<Rightarrow> u64 \<Rightarrow> u64 \<Rightarrow> u64" where
  "constant_time_select_w m a b = (m AND a) OR (NOT m AND b)"

definition constant_time_select_8 :: "byte \<Rightarrow> byte \<Rightarrow> byte \<Rightarrow> byte" where
  "constant_time_select_8 m a b = ucast (constant_time_select_w (ucast m) (ucast a) (ucast b))"

definition constant_time_select_int :: "u64 \<Rightarrow> 32 word \<Rightarrow> 32 word \<Rightarrow> 32 word" where
  "constant_time_select_int m a b = ucast (constant_time_select_w m (scast a) (scast b))"

section \<open>As comparisons\<close>

text \<open>A condition as a mask of all ones or all zeros.\<close>

definition mask_of :: "bool \<Rightarrow> 'a :: len word" where
  "mask_of p = (if p then - 1 else 0)"

lemma mask_of_simps [simp]: "mask_of True = (- 1 :: 'a :: len word)" "mask_of False = (0 :: 'a :: len word)"
  "NOT (mask_of p) = (mask_of (\<not> p) :: 'a :: len word)" "mask_of p = (0 :: 'a :: len word) \<longleftrightarrow> \<not> p"
  by (simp_all add: mask_of_def)

lemma bit_mask_of: "bit (mask_of p :: 'a :: len word) n \<longleftrightarrow> p \<and> n < LENGTH('a)"
  by (cases p) simp_all

lemma ucast_mask_of [simp]: "ucast (mask_of p :: u64) = (mask_of p :: byte)"
  by (rule bit_word_eqI) (simp add: bit_ucast_iff bit_mask_of)

lemma mask_of_and_or [simp]: "mask_of p AND mask_of q = mask_of (p \<and> q)" "mask_of p OR mask_of q = mask_of (p \<or> q)"
  by (simp_all add: mask_of_def)

lemma msb_of: "constant_time_msb_w a = mask_of (2 ^ 63 \<le> unat a)"
proof -
  have "unat (drop_bit 63 a) = (if 2 ^ 63 \<le> unat a then 1 else 0)"
    using unsigned_less [of a, where 'a = nat] by (simp add: unat_drop_bit div_eq_0_iff div_nat_eqI)
  then have "drop_bit 63 a = (if 2 ^ 63 \<le> unat a then 1 else 0)" by (simp add: word_unat_eq_iff)
  then show ?thesis by (simp add: constant_time_msb_w_def mask_of_def)
qed

lemma bit_63: "bit a 63 \<longleftrightarrow> 2 ^ 63 \<le> unat (a :: u64)"
proof -
  have "bit a 63 \<longleftrightarrow> bit (unat a) 63" by (simp add: bit_unsigned_iff)
  moreover have "unat a div 2 ^ 63 = (if 2 ^ 63 \<le> unat a then 1 else 0)"
    using unsigned_less [of a, where 'a = nat] by (simp add: div_eq_0_iff div_nat_eqI)
  ultimately show ?thesis by (simp add: bit_iff_odd)
qed

lemma unat_word_minus:
  "unat (a - b) = (if unat b \<le> unat a then unat a - unat b else unat a + 2 ^ LENGTH(64) - unat (b :: u64))"
  by (rule unat_sub_if')

lemma lt_w [constant_time]: "constant_time_lt_w a b = mask_of (a < b)"
proof -
  have "bit (a XOR ((a XOR b) OR ((a - b) XOR a))) 63 \<longleftrightarrow> a < b"
    unfolding bit_xor_iff bit_or_iff unfolding bit_63 unat_word_minus word_less_nat_alt
    using unsigned_less [of a, where 'a = nat] unsigned_less [of b, where 'a = nat] by auto
  then show ?thesis by (simp only: constant_time_lt_w_def msb_of bit_63)
qed

lemma is_zero_w [constant_time]: "constant_time_is_zero_w a = mask_of (a = 0)"
proof (cases "a = 0")
  case True
  then show ?thesis by (simp add: constant_time_is_zero_w_def msb_of unsigned_minus_1_eq_mask mask_eq_exp_minus_1)
next
  case False
  then have "unat a \<noteq> 0" by (simp add: unat_eq_0)
  then have "unat (a - 1) = unat a - 1" by (simp add: unat_word_minus)
  then have "\<not> bit (NOT a AND (a - 1)) 63" unfolding bit_and_iff bit_not_iff unfolding bit_63 by auto
  then show ?thesis using False by (simp only: constant_time_is_zero_w_def msb_of bit_63 mask_of_simps)
qed

lemma eq_w [constant_time]: "constant_time_eq_w a b = mask_of (a = b)"
  by (simp add: constant_time_eq_w_def is_zero_w xor_eq_zero_iff)

lemma select_w [constant_time]: "constant_time_select_w (mask_of p) a b = (if p then a else b)"
  by (simp add: constant_time_select_w_def)

lemma ucast_byte_inject: "ucast a = (ucast b :: u64) \<longleftrightarrow> a = (b :: byte)"
  by (simp add: word_unat_eq_iff unat_ucast_up)

lemma select_8 [constant_time]: "constant_time_select_8 (mask_of p) a b = (if p then a else b)"
  by (cases p) (rule bit_word_eqI, auto simp: constant_time_select_8_def constant_time_select_w_def bit_simps)+

lemma masks_8 [constant_time]:
  "constant_time_lt_8 a b = mask_of (a < b)" "constant_time_ge_8 a b = mask_of (b \<le> a)" "constant_time_ge_w a b = mask_of (b \<le> a)"
  "constant_time_is_zero_8 a = mask_of (a = 0)" "constant_time_eq_8 a b = mask_of (a = b)"
  by (simp_all add: constant_time_lt_8_def constant_time_ge_8_def constant_time_ge_w_def constant_time_is_zero_8_def
      constant_time_eq_8_def lt_w is_zero_w eq_w not_less)

lemma ucast_scast [simp]: "ucast (scast a :: u64) = (a :: 32 word)"
  by (rule bit_word_eqI) (auto simp: bit_simps)

lemma scast_word_eq_iff: "scast a = (scast b :: u64) \<longleftrightarrow> a = (b :: 32 word)"
  by (metis ucast_scast)

lemma eq_int [constant_time]: "constant_time_eq_int a b = mask_of (a = b)" "constant_time_eq_int_8 a b = mask_of (a = b)"
  by (simp_all add: constant_time_eq_int_def constant_time_eq_int_8_def constant_time scast_word_eq_iff)

lemma select_int [constant_time]: "constant_time_select_int (mask_of p) a b = (if p then a else b)"
  by (simp add: constant_time_select_int_def constant_time)

text \<open>
  C36. The constant-time helpers are the comparisons and choices they stand for: each comparison is all
  ones when it holds and zero when it does not, for all values of its arguments, and selecting with such
  a mask is the conditional.
\<close>

theorem constant_time_as_branches:
  "constant_time_lt_w a b = (if a < b then - 1 else 0) \<and> constant_time_lt_8 a b = (if a < b then - 1 else 0) \<and>
   constant_time_ge_w a b = (if a \<ge> b then - 1 else 0) \<and> constant_time_ge_8 a b = (if a \<ge> b then - 1 else 0) \<and>
   constant_time_is_zero_w a = (if a = 0 then - 1 else 0) \<and> constant_time_is_zero_8 a = (if a = 0 then - 1 else 0) \<and>
   constant_time_eq_w a b = (if a = b then - 1 else 0) \<and> constant_time_eq_8 a b = (if a = b then - 1 else 0) \<and>
   constant_time_eq_int i j = (if i = j then - 1 else 0) \<and> constant_time_eq_int_8 i j = (if i = j then - 1 else 0) \<and>
   constant_time_select_w (constant_time_lt_w a b) x y = (if a < b then x else y) \<and>
   constant_time_select_8 (constant_time_eq_8 a b) u v = (if a = b then u else v) \<and>
   constant_time_select_int (constant_time_ge_w a b) i j = (if a \<ge> b then i else j)"
  by (simp add: constant_time)

end
