(* ===== verification/Base64.thy ===== *)
theory Base64
  imports Constant_Time
begin

text \<open>
  Model of \<^verbatim>\<open>crypto/base64/base64.c\<close>: the encoder and decoder of whole blocks and the streaming ones
  over an \<^verbatim>\<open>EVP_ENCODE_CTX\<close>. A call returns the bytes it stores through \<^verbatim>\<open>out\<close>, without the zero byte
  that \<^verbatim>\<open>EVP_EncodeBlock\<close> adds behind them.
\<close>

section \<open>Characters\<close>

definition constant_time_lt_args_8 :: "byte \<Rightarrow> byte \<Rightarrow> byte" where
  "constant_time_lt_args_8 a b = (let aw = ucast a; bw = ucast b in ucast (constant_time_msb_w (aw - bw)))"

definition constant_time_in_range_8 :: "byte \<Rightarrow> byte \<Rightarrow> byte \<Rightarrow> byte" where
  "constant_time_in_range_8 a mn mx = (let a = a - mn in constant_time_lt_args_8 a (mx - mn + 1))"

definition conv_bin2ascii :: "byte \<Rightarrow> byte" where
  "conv_bin2ascii a =
     (let a = a AND 0x3f;
          ret = constant_time_select_8 (constant_time_eq_8 (ucast a) 62) 43 47;
          ret = constant_time_select_8 (constant_time_lt_args_8 a 62) (a - 52 + 48) ret;
          ret = constant_time_select_8 (constant_time_lt_args_8 a 52) (a - 26 + 97) ret;
          ret = constant_time_select_8 (constant_time_lt_args_8 a 26) (a + 65) ret
      in ret)"

definition base64_ascii_to_bin :: "byte \<Rightarrow> byte" where
  "base64_ascii_to_bin a =
     (let is_upper = constant_time_in_range_8 a 65 90;
          is_lower = constant_time_in_range_8 a 97 122;
          is_digit = constant_time_in_range_8 a 48 57;
          is_plus = constant_time_eq_8 (ucast a) 43;
          is_slash = constant_time_eq_8 (ucast a) 47;
          is_equals = constant_time_eq_8 (ucast a) 61;
          ret = 0xff;
          ret = constant_time_select_8 is_upper (a - 65) ret;
          ret = constant_time_select_8 is_lower (a - 97 + 26) ret;
          ret = constant_time_select_8 is_digit (a - 48 + 52) ret;
          ret = constant_time_select_8 is_plus 62 ret;
          ret = constant_time_select_8 is_slash 63 ret;
          ret = constant_time_select_8 is_equals 0 ret
      in ret)"

section \<open>Encoding\<close>

definition EVP_EncodedLength :: "size_t \<Rightarrow> size_t option" where
  "EVP_EncodedLength len =
     (if size_wrap (len + 2) < len then None
      else
        let len = size_wrap (len + 2) div 3
        in if size_wrap (len * 4) div 4 \<noteq> len then None
           else
             let len = size_wrap (len * 4)
             in if size_wrap (len + 1) < len then None else Some (size_wrap (len + 1)))"

fun EVP_EncodeBlock :: "byte list \<Rightarrow> byte list" where
  "EVP_EncodeBlock [] = []"
| "EVP_EncodeBlock [a] =
     (let l = push_bit 16 (ucast a) :: u32
      in [conv_bin2ascii (ucast (drop_bit 18 l)), conv_bin2ascii (ucast (drop_bit 12 l)), 61, 61])"
| "EVP_EncodeBlock [a, b] =
     (let l = push_bit 16 (ucast a) OR push_bit 8 (ucast b) :: u32
      in [conv_bin2ascii (ucast (drop_bit 18 l)), conv_bin2ascii (ucast (drop_bit 12 l)),
          conv_bin2ascii (ucast (drop_bit 6 l)), 61])"
| "EVP_EncodeBlock (a # b # c # src) =
     (let l = (push_bit 16 (ucast a) OR push_bit 8 (ucast b)) OR ucast c :: u32
      in [conv_bin2ascii (ucast (drop_bit 18 l)), conv_bin2ascii (ucast (drop_bit 12 l)),
          conv_bin2ascii (ucast (drop_bit 6 l)), conv_bin2ascii (ucast l)] @ EVP_EncodeBlock src)"

text \<open>\<open>ctx_data\<close> is the array of 48 bytes, of which the first \<open>data_used\<close> count.\<close>

record evp_encode_ctx =
  data_used :: nat
  ctx_data :: "byte list"
  eof_seen :: bool
  error_encountered :: bool

definition EVP_EncodeInit :: evp_encode_ctx where
  "EVP_EncodeInit = \<lparr>data_used = 0, ctx_data = replicate 48 0, eof_seen = False, error_encountered = False\<rparr>"

abbreviation (input) INT_MAX :: nat where "INT_MAX \<equiv> 2147483647"

text \<open>
  The loop over whole lines of \<^verbatim>\<open>EVP_EncodeUpdate\<close>: the output, and \<open>None\<close> for the return when the
  total would wrap, or the rest of the input with the total.
\<close>

function encode_lines :: "byte list \<Rightarrow> size_t \<Rightarrow> byte list \<times> (byte list \<times> size_t) option" where
  "encode_lines src tot =
     (if length src \<ge> 48 then
        (let enc = EVP_EncodeBlock (take 48 src); encoded = length enc
         in if size_wrap (tot + encoded + 1) < tot then (enc @ [10], None)
            else case encode_lines (drop 48 src) (size_wrap (tot + encoded + 1)) of
                   (out, r) \<Rightarrow> (enc @ [10] @ out, r))
      else ([], Some (src, tot)))"
  by pat_completeness auto
termination by (relation "measure (\<lambda>(src, tot). length src)") auto

declare encode_lines.simps [simp del]

definition EVP_EncodeUpdate :: "evp_encode_ctx \<Rightarrow> byte list \<Rightarrow> byte list \<times> nat \<times> evp_encode_ctx" where
  "EVP_EncodeUpdate ctx src =
     (let in_len = length src
      in if in_len = 0 then ([], 0, ctx)
         else if 48 - data_used ctx > in_len then
           ([], 0, ctx\<lparr>ctx_data := poke (ctx_data ctx) (data_used ctx) src, data_used := data_used ctx + in_len\<rparr>)
         else
           let todo = 48 - data_used ctx;
               first = (if data_used ctx \<noteq> 0 then
                  (let d = poke (ctx_data ctx) (data_used ctx) (take todo src); enc = EVP_EncodeBlock d
                   in (enc @ [10], length enc + 1, drop todo src, ctx\<lparr>ctx_data := d, data_used := 0\<rparr>))
                else ([], 0, src, ctx))
           in case first of (out, tot, src, ctx) \<Rightarrow>
                (case encode_lines src tot of
                   (out', None) \<Rightarrow> (out @ out', 0, ctx)
                 | (out', Some (rest, tot)) \<Rightarrow>
                     let ctx = (if length rest \<noteq> 0 then ctx\<lparr>ctx_data := poke (ctx_data ctx) 0 rest\<rparr> else ctx);
                         tot = (if tot > INT_MAX then 0 else tot)
                     in (out @ out', tot, ctx\<lparr>data_used := length rest\<rparr>)))"

definition EVP_EncodeFinal :: "evp_encode_ctx \<Rightarrow> byte list \<times> nat \<times> evp_encode_ctx" where
  "EVP_EncodeFinal ctx =
     (if data_used ctx = 0 then ([], 0, ctx)
      else
        let out = EVP_EncodeBlock (take (data_used ctx) (ctx_data ctx)) @ [10]
        in (out, length out, ctx\<lparr>data_used := 0\<rparr>))"

section \<open>Decoding\<close>

definition EVP_DecodedLength :: "size_t \<Rightarrow> size_t option" where
  "EVP_DecodedLength len = (if len mod 4 \<noteq> 0 then None else Some ((len div 4) * 3))"

definition EVP_DecodeInit :: evp_encode_ctx where
  "EVP_DecodeInit = \<lparr>data_used = 0, ctx_data = replicate 48 0, eof_seen = False, error_encountered = False\<rparr>"

text \<open>The bytes written; their number is \<^verbatim>\<open>*out_num_bytes\<close>.\<close>

definition base64_decode_quad :: "byte \<Rightarrow> byte \<Rightarrow> byte \<Rightarrow> byte \<Rightarrow> byte list option" where
  "base64_decode_quad in0 in1 in2 in3 =
     (let a = base64_ascii_to_bin in0; b = base64_ascii_to_bin in1;
          c = base64_ascii_to_bin in2; d = base64_ascii_to_bin in3
      in if a = 0xff \<or> b = 0xff \<or> c = 0xff \<or> d = 0xff then None
         else
           let v = ((push_bit 18 (ucast a) OR push_bit 12 (ucast b)) OR push_bit 6 (ucast c)) OR ucast d :: u32;
               padding_pattern = of_bool (in0 = 61) * 8 + of_bool (in1 = 61) * 4 + of_bool (in2 = 61) * 2 + of_bool (in3 = 61) :: nat
           in if padding_pattern = 0 then Some [ucast (drop_bit 16 v), ucast (drop_bit 8 v), ucast v]
              else if padding_pattern = 1 then Some [ucast (drop_bit 16 v), ucast (drop_bit 8 v)]
              else if padding_pattern = 3 then Some [ucast (drop_bit 16 v)]
              else None)"

text \<open>Space, tab, carriage return and newline.\<close>

definition is_blank :: "byte \<Rightarrow> bool" where
  "is_blank c \<longleftrightarrow> c = 32 \<or> c = 9 \<or> c = 13 \<or> c = 10"

text \<open>The loop of \<^verbatim>\<open>EVP_DecodeUpdate\<close>; the first component is whether it ended without an error.\<close>

fun decode_chars :: "byte list \<Rightarrow> evp_encode_ctx \<Rightarrow> bool \<times> byte list \<times> evp_encode_ctx" where
  "decode_chars [] ctx = (True, [], ctx)"
| "decode_chars (c # src) ctx =
     (if is_blank c then decode_chars src ctx
      else if eof_seen ctx then (False, [], ctx\<lparr>error_encountered := True\<rparr>)
      else
        let d = (ctx_data ctx)[data_used ctx := c]; ctx = ctx\<lparr>ctx_data := d, data_used := data_used ctx + 1\<rparr>
        in if data_used ctx = 4 then
             (case base64_decode_quad (d ! 0) (d ! 1) (d ! 2) (d ! 3) of
                None \<Rightarrow> (False, [], ctx\<lparr>error_encountered := True\<rparr>)
              | Some bs \<Rightarrow>
                  (case decode_chars src (ctx\<lparr>data_used := 0, eof_seen := eof_seen ctx \<or> length bs < 3\<rparr>) of
                     (ok, out, ctx) \<Rightarrow> (ok, bs @ out, ctx)))
           else decode_chars src ctx)"

text \<open>The result is the return value, \<^verbatim>\<open>*out_len\<close>, the bytes written and the context.\<close>

definition EVP_DecodeUpdate :: "evp_encode_ctx \<Rightarrow> byte list \<Rightarrow> int \<times> nat \<times> byte list \<times> evp_encode_ctx" where
  "EVP_DecodeUpdate ctx src =
     (if error_encountered ctx then (-1, 0, [], ctx)
      else case decode_chars src ctx of
             (False, out, ctx) \<Rightarrow> (-1, 0, out, ctx)
           | (True, out, ctx) \<Rightarrow>
               if length out > INT_MAX then (-1, 0, out, ctx\<lparr>error_encountered := True\<rparr>)
               else (if eof_seen ctx then 0 else 1, length out, out, ctx))"

definition EVP_DecodeFinal :: "evp_encode_ctx \<Rightarrow> int" where
  "EVP_DecodeFinal ctx = (if error_encountered ctx \<or> data_used ctx \<noteq> 0 then -1 else 1)"

text \<open>The loop of \<^verbatim>\<open>EVP_DecodeBase64\<close> over the quads of the input.\<close>

fun decode_quads :: "byte list \<Rightarrow> byte list option" where
  "decode_quads (a # b # c # d # src) =
     (case base64_decode_quad a b c d of
        None \<Rightarrow> None
      | Some bs \<Rightarrow> if length bs \<noteq> 3 \<and> src \<noteq> [] then None else map_option ((@) bs) (decode_quads src))"
| "decode_quads _ = Some []"

definition EVP_DecodeBase64 :: "size_t \<Rightarrow> byte list \<Rightarrow> byte list option" where
  "EVP_DecodeBase64 max_out src =
     (if length src mod 4 \<noteq> 0 then None
      else case EVP_DecodedLength (length src) of
             None \<Rightarrow> None
           | Some max_len \<Rightarrow> if max_out < max_len then None else decode_quads src)"

definition EVP_DecodeBlock :: "byte list \<Rightarrow> byte list option" where
  "EVP_DecodeBlock src =
     (let src = dropWhile (\<lambda>c. c = 32 \<or> c = 9) src;
          src = rev (dropWhile is_blank (rev src))
      in case EVP_DecodedLength (length src) of
           None \<Rightarrow> None
         | Some dst_len \<Rightarrow>
             if dst_len > INT_MAX then None
             else map_option (\<lambda>out. out @ replicate ((3 - length out mod 3) mod 3) 0) (EVP_DecodeBase64 dst_len src))"

section \<open>The alphabet\<close>

lemma lt_args_8 [constant_time]: "constant_time_lt_args_8 a b = mask_of (a < b)"
proof -
  have u: "unat (ucast a - ucast b :: u64) =
      (if unat b \<le> unat a then unat a - unat b else unat a + 2 ^ LENGTH(64) - unat b)"
    unfolding unat_word_minus by (simp add: unat_ucast_up)
  have "2 ^ 63 \<le> unat (ucast a - ucast b :: u64) \<longleftrightarrow> unat a < unat b"
  proof (cases "unat b \<le> unat a")
    case True
    then have "unat (ucast a - ucast b :: u64) < 256" unfolding u if_P [OF True] using unat_byte_less [of a] by linarith
    with True show ?thesis by simp
  next
    case False
    then have "2 ^ 63 \<le> unat (ucast a - ucast b :: u64)" unfolding u if_not_P [OF False] using unat_byte_less [of b] by (simp del: unat_byte_less)
    with False show ?thesis by simp
  qed
  then have "2 ^ 63 \<le> unat (ucast a - ucast b :: u64) \<longleftrightarrow> a < b" by (simp only: word_less_nat_alt)
  then show ?thesis by (simp add: constant_time_lt_args_8_def msb_of)
qed

lemma in_range_8 [constant_time]: "constant_time_in_range_8 a mn mx = mask_of (a - mn < mx - mn + 1)"
  by (simp add: constant_time_in_range_8_def lt_args_8)

definition alphabet :: "byte list" where
  "alphabet = map word_of_nat ([65..<91] @ [97..<123] @ [48..<58] @ [43, 47])"

text \<open>The value of a character, 0 for the padding and 255 for a character outside the alphabet.\<close>

definition char_value :: "byte \<Rightarrow> byte" where
  "char_value a =
     (if a = 61 then 0 else if a = 47 then 63 else if a = 43 then 62
      else if a - 48 < 10 then a - 48 + 52 else if a - 97 < 26 then a - 97 + 26
      else if a - 65 < 26 then a - 65 else 0xff)"

lemma all_sextets:
  assumes "list_all (\<lambda>n. P (word_of_nat n :: byte)) [0..<64]"
  shows "P (a AND 0x3f)"
proof -
  have "unat (a AND 0x3f) < 64" using unat_and_mask [of a 6] by (simp add: mask_eq_exp_minus_1)
  then have "unat (a AND 0x3f) \<in> set [0..<64]" by simp
  then have "P (word_of_nat (unat (a AND 0x3f)))" using assms unfolding list_all_iff by (rule bspec [rotated])
  then show ?thesis by simp
qed

lemma conv_bin2ascii_alphabet: "conv_bin2ascii a = alphabet ! unat (a AND 0x3f)"
proof -
  have "conv_bin2ascii a =
     (let a = a AND 0x3f
      in if a < 26 then a + 65 else if a < 52 then a - 26 + 97 else if a < 62 then a - 52 + 48
         else if a = 62 then 43 else 47)"
    using ucast_byte_inject [of "a AND 0x3f" 62] by (simp add: conv_bin2ascii_def constant_time Let_def)
  also have "\<dots> = alphabet ! unat (a AND 0x3f)"
    unfolding Let_def
    by (rule all_sextets [of "\<lambda>a. (if a < 26 then a + 65 else if a < 52 then a - 26 + 97 else if a < 62 then a - 52 + 48
         else if a = 62 then 43 else 47) = alphabet ! unat a"]) code_simp
  finally show ?thesis .
qed

lemma base64_ascii_to_bin_value: "base64_ascii_to_bin a = char_value a"
proof -
  have eq: "ucast a = (61 :: u64) \<longleftrightarrow> a = 61" "ucast a = (47 :: u64) \<longleftrightarrow> a = 47" "ucast a = (43 :: u64) \<longleftrightarrow> a = 43"
    using ucast_byte_inject [of a 61] ucast_byte_inject [of a 47] ucast_byte_inject [of a 43] by simp_all
  show ?thesis by (simp add: base64_ascii_to_bin_def char_value_def constant_time Let_def eq)
qed

lemma char_value_alphabet: "char_value (conv_bin2ascii a) = a AND 0x3f"
  unfolding conv_bin2ascii_alphabet
  by (rule all_sextets [of "\<lambda>a. char_value (alphabet ! unat a) = a"]) code_simp

lemma conv_bin2ascii_neq: "conv_bin2ascii a \<noteq> 61" "\<not> is_blank (conv_bin2ascii a)"
  unfolding conv_bin2ascii_alphabet
  by (rule all_sextets [of "\<lambda>a. alphabet ! unat a \<noteq> 61"], code_simp)
    (rule all_sextets [of "\<lambda>a. \<not> is_blank (alphabet ! unat a)"], code_simp)

section \<open>The standard encoding\<close>

text \<open>
  RFC 4648: the bits of the input, most significant first, padded with zero bits to a multiple of six,
  each group of six through the alphabet, and padding characters to a multiple of four.
\<close>

definition byte_bits :: "byte \<Rightarrow> bool list" where
  "byte_bits b = map (bit b) (rev [0..<8])"

definition sextet :: "bool list \<Rightarrow> byte" where
  "sextet bs = horner_sum of_bool 2 (rev (take 6 (bs @ replicate 6 False)))"

function sextets :: "bool list \<Rightarrow> byte list" where
  "sextets bs = (if bs = [] then [] else sextet bs # sextets (drop 6 bs))"
  by pat_completeness auto
termination by (relation "measure length") auto

declare sextets.simps [simp del]

definition rfc4648 :: "byte list \<Rightarrow> byte list" where
  "rfc4648 src =
     (let ds = sextets (concat (map byte_bits src))
      in map (\<lambda>d. alphabet ! unat d) ds @ replicate ((4 - length ds mod 4) mod 4) 61)"

lemma sextets_step [simp]:
  "sextets (a # b # c # d # e # f # bs) = sextet [a, b, c, d, e, f] # sextets bs"
  "sextets [] = []"
  "sextets [a, b] = [sextet [a, b]]" "sextets [a, b, c, d] = [sextet [a, b, c, d]]"
  by (subst sextets.simps, simp add: sextet_def sextets.simps [of "[]"])+

lemma byte_bits_list [simp]: "byte_bits b = [bit b 7, bit b 6, bit b 5, bit b 4, bit b 3, bit b 2, bit b 1, bit b 0]"
  by (simp add: byte_bits_def upt_rec eval_nat_numeral)

lemma bit_sextet: "bit (sextet bs) n \<longleftrightarrow> n < 6 \<and> (bs @ replicate 6 False) ! (5 - n)"
proof -
  define cs where "cs = take 6 (bs @ replicate 6 False)"
  have cs: "length cs = 6" "n < 6 \<Longrightarrow> cs ! (5 - n) = (bs @ replicate 6 False) ! (5 - n)"
    unfolding cs_def by simp (rule nth_take, simp)
  have "bit (sextet bs) n \<longleftrightarrow> n < 6 \<and> rev cs ! n"
    unfolding sextet_def cs_def [symmetric] bit_horner_sum_bit_word_iff length_rev cs(1) by auto
  then show ?thesis using cs by (auto simp: rev_nth)
qed

lemma less_8_cases: "n < 8 \<Longrightarrow> n \<in> {0, 1, 2, 3, 4, 5, 6, 7 :: nat}"
  by auto

lemma byte_eqI:
  assumes "\<And>n. n \<in> {0, 1, 2, 3, 4, 5, 6, 7} \<Longrightarrow> bit a n \<longleftrightarrow> bit b n"
  shows "a = (b :: byte)"
  by (rule bit_word_eqI, rule assms, rule less_8_cases) simp

lemma and_3f: "a AND 0x3f = take_bit 6 (a :: byte)"
  by (simp add: take_bit_eq_mask mask_eq_exp_minus_1)

lemma sextet_pad:
  "sextet [a, b] = sextet [a, b, False, False, False, False]" "sextet [a, b, c, d] = sextet [a, b, c, d, False, False]"
  by (simp_all add: sextet_def eval_nat_numeral)

text \<open>A group of bits of the shift register is the sextet of the standard.\<close>

lemma encode_sextet:
  fixes l :: u32
  assumes "\<And>n. n < 6 \<Longrightarrow> bit l (n + k) \<longleftrightarrow> (bs @ replicate 6 False) ! (5 - n)" and k: "k \<le> 18"
  shows "conv_bin2ascii (ucast (drop_bit k l)) = alphabet ! unat (sextet bs)"
proof -
  have "ucast (drop_bit k l) AND 0x3f = sextet bs"
    by (rule bit_word_eqI) (use k in \<open>auto simp: bit_simps and_3f bit_sextet assms(1) add.commute\<close>)
  then show ?thesis by (simp add: conv_bin2ascii_alphabet)
qed

lemma less_6_cases: "n < 6 \<Longrightarrow> n \<in> {0, 1, 2, 3, 4, 5 :: nat}"
  by auto

lemma byte_bit_high: "8 \<le> n \<Longrightarrow> \<not> bit (b :: byte) n"
  by (auto dest: bit_imp_le_length)

lemma encode_quad:
  fixes a b c :: byte
  defines "l \<equiv> (push_bit 16 (ucast a) OR push_bit 8 (ucast b)) OR ucast c :: u32"
  shows "conv_bin2ascii (ucast (drop_bit 18 l)) = alphabet ! unat (sextet [bit a 7, bit a 6, bit a 5, bit a 4, bit a 3, bit a 2])"
    "conv_bin2ascii (ucast (drop_bit 12 l)) = alphabet ! unat (sextet [bit a 1, bit a 0, bit b 7, bit b 6, bit b 5, bit b 4])"
    "conv_bin2ascii (ucast (drop_bit 6 l)) = alphabet ! unat (sextet [bit b 3, bit b 2, bit b 1, bit b 0, bit c 7, bit c 6])"
    "conv_bin2ascii (ucast (drop_bit 0 l)) = alphabet ! unat (sextet [bit c 5, bit c 4, bit c 3, bit c 2, bit c 1, bit c 0])"
  by (rule encode_sextet, drule less_6_cases, elim insertE emptyE,
      (simp add: l_def bit_simps byte_bit_high numeral_2_eq_2 numeral_3_eq_3; fail)+)+

lemma encode_block_standard: "EVP_EncodeBlock src = rfc4648 src"
proof (induction src rule: EVP_EncodeBlock.induct)
  case (4 a b c src)
  then show ?case using encode_quad [of a b c]
    by (simp add: rfc4648_def Let_def)
next
  case (3 a b)
  show ?case using encode_quad [of a b 0]
    by (simp add: rfc4648_def Let_def sextet_pad)
next
  case (2 a)
  show ?case using encode_quad [of a 0 0]
    by (simp add: rfc4648_def Let_def sextet_pad numeral_2_eq_2)
qed (simp add: rfc4648_def)

text \<open>
  \<^verbatim>\<open>EVP_EncodeBlock\<close> is the encoding of RFC 4648 for every input, computed with shifts and
  constant-time masks instead of the bit string and the alphabet of the standard.
\<close>

theorem EVP_EncodeBlock_standard: "EVP_EncodeBlock src = rfc4648 src"
  by (rule encode_block_standard)

end
