(* ===== verification/Base64_Spec.thy ===== *)
theory Base64_Spec
  imports Base64
begin

text \<open>
  The decoders of \<^verbatim>\<open>crypto/base64/base64.c\<close> invert the encoders: whole blocks, and streams that are
  cut into chunks at any place on either side.
\<close>

section \<open>Decoding what was encoded\<close>

lemma take_bit_6_neq: "take_bit 6 a \<noteq> (0xff :: byte)"
proof
  assume "take_bit 6 a = 0xff"
  then have "bit (take_bit 6 a) 7 = bit (0xff :: byte) 7" by (rule arg_cong)
  then show False by (simp add: bit_take_bit_iff)
qed

lemma quad_register:
  fixes l :: u32
  shows "((push_bit 18 (ucast (take_bit 6 (ucast (drop_bit 18 l) :: byte))) OR
     push_bit 12 (ucast (take_bit 6 (ucast (drop_bit 12 l) :: byte)))) OR
     push_bit 6 (ucast (take_bit 6 (ucast (drop_bit 6 l) :: byte)))) OR
     ucast (take_bit 6 (ucast l :: byte)) = take_bit 24 l" (is "?v = _")
proof (rule bit_word_eqI)
  fix n :: nat
  consider "n < 6" | "6 \<le> n" "n < 12" | "12 \<le> n" "n < 18" | "18 \<le> n" "n < 24" | "24 \<le> n" by linarith
  then show "bit ?v n \<longleftrightarrow> bit (take_bit 24 l) n"
    by cases (simp_all add: bit_simps, linarith+)
qed

lemma register_bytes:
  fixes a b c :: byte
  defines "l \<equiv> (push_bit 16 (ucast a) OR push_bit 8 (ucast b)) OR ucast c :: u32"
  shows "ucast (drop_bit 16 (take_bit 24 l)) = a" "ucast (drop_bit 8 (take_bit 24 l)) = b" "ucast (take_bit 24 l) = c"
  by (rule bit_word_eqI, force simp: l_def bit_simps byte_bit_high)+

definition quad :: "byte \<Rightarrow> byte \<Rightarrow> byte \<Rightarrow> byte list" where
  "quad a b c = (let l = (push_bit 16 (ucast a) OR push_bit 8 (ucast b)) OR ucast c :: u32
     in map (\<lambda>k. conv_bin2ascii (ucast (drop_bit k l))) [18, 12, 6, 0])"

text \<open>The four characters of a block of \<open>n\<close> bytes, with padding for the missing ones.\<close>

definition padded_quad :: "nat \<Rightarrow> byte list \<Rightarrow> byte list" where
  "padded_quad n src = take (n + 1) (quad (src ! 0) (if 1 < n then src ! 1 else 0) (if 2 < n then src ! 2 else 0)) @ replicate (3 - n) 61"

lemma encode_block_step: "EVP_EncodeBlock (a # b # c # src) = padded_quad 3 [a, b, c] @ EVP_EncodeBlock src"
  "EVP_EncodeBlock [a, b] = padded_quad 2 [a, b]" "EVP_EncodeBlock [a] = padded_quad 1 [a]"
  by (simp_all add: padded_quad_def quad_def Let_def eval_nat_numeral)

lemma char_value_pad: "char_value 61 = 0"
  by (simp add: char_value_def)

lemmas quad_decode = base64_decode_quad_def base64_ascii_to_bin_value char_value_alphabet char_value_pad conv_bin2ascii_neq
  and_3f take_bit_6_neq

lemma decode_quad_3: "base64_decode_quad (quad a b c ! 0) (quad a b c ! 1) (quad a b c ! 2) (quad a b c ! 3) = Some [a, b, c]"
  using register_bytes [of a b c]
  by (simp add: quad_def Let_def quad_decode quad_register del: drop_bit_or)

lemma register_pad:
  "take_bit 6 (ucast (push_bit 16 (ucast a) OR push_bit 8 (ucast b) :: u32) :: byte) = 0"
  "take_bit 6 (ucast (push_bit 16 (ucast (a :: byte)) :: u32) :: byte) = 0"
  "take_bit 6 (ucast (drop_bit 6 (push_bit 16 (ucast (a :: byte)) :: u32)) :: byte) = 0"
  by (rule bit_word_eqI, force simp: bit_simps)+

lemma decode_quad_2: "base64_decode_quad (quad a b 0 ! 0) (quad a b 0 ! 1) (quad a b 0 ! 2) 61 = Some [a, b]"
  using register_bytes [of a b 0] quad_register [of "push_bit 16 (ucast a) OR push_bit 8 (ucast b)"]
  by (simp add: quad_def Let_def quad_decode register_pad del: drop_bit_or)

lemma decode_quad_1: "base64_decode_quad (quad a 0 0 ! 0) (quad a 0 0 ! 1) 61 61 = Some [a]"
  using register_bytes [of a 0 0] quad_register [of "push_bit 16 (ucast a)"]
  by (simp add: quad_def Let_def quad_decode register_pad del: drop_bit_or)

text \<open>A block of the encoder is four characters that the decoder keeps and reads as the same bytes.\<close>

lemma quad_list: "quad a b c = [quad a b c ! 0, quad a b c ! 1, quad a b c ! 2, quad a b c ! 3]"
  by (simp add: quad_def Let_def)

lemma quad_not_blank: "x \<in> set (quad a b c) \<Longrightarrow> \<not> is_blank x"
  by (auto simp: quad_def Let_def conv_bin2ascii_neq)

lemma quad_chars:
  assumes "length src = n" "n \<in> {1, 2, 3}"
  obtains a b c d where "padded_quad n src = [a, b, c, d]" "base64_decode_quad a b c d = Some src"
    "\<forall>x \<in> {a, b, c, d}. \<not> is_blank x"
proof -
  define q where "q = quad (src ! 0) (if 1 < n then src ! 1 else 0) (if 2 < n then src ! 2 else 0)"
  have q: "q = [q ! 0, q ! 1, q ! 2, q ! 3]" "\<not> is_blank (q ! 0)" "\<not> is_blank (q ! 1)" "\<not> is_blank (q ! 2)" "\<not> is_blank (q ! 3)"
    using quad_list quad_not_blank unfolding q_def by (metis (no_types) list.set_intros)+
  have p: "padded_quad n src = take (n + 1) [q ! 0, q ! 1, q ! 2, q ! 3] @ replicate (3 - n) 61"
    unfolding padded_quad_def q_def [symmetric] using q(1) by simp
  have pad: "\<not> is_blank 61" by (simp add: is_blank_def)
  from assms(2) consider "n = 1" | "n = 2" | "n = 3" by auto
  then show ?thesis
  proof cases
    case 1
    with assms(1) obtain x where x: "src = [x]" by (auto simp: length_Suc_conv)
    show ?thesis
    proof (rule that [of "q ! 0" "q ! 1" 61 61])
      show "padded_quad n src = [q ! 0, q ! 1, 61, 61]" using p by (simp add: 1 eval_nat_numeral)
      show "base64_decode_quad (q ! 0) (q ! 1) 61 61 = Some src" using decode_quad_1 [of x] by (simp add: q_def 1 x)
    qed (use q pad in auto)
  next
    case 2
    with assms(1) obtain x y where x: "src = [x, y]" by (auto simp: length_Suc_conv numeral_2_eq_2)
    show ?thesis
    proof (rule that [of "q ! 0" "q ! 1" "q ! 2" 61])
      show "padded_quad n src = [q ! 0, q ! 1, q ! 2, 61]" using p by (simp add: 2 eval_nat_numeral)
      show "base64_decode_quad (q ! 0) (q ! 1) (q ! 2) 61 = Some src" using decode_quad_2 [of x y] by (simp add: q_def 2 x)
    qed (use q pad in auto)
  next
    case 3
    with assms(1) obtain x y z where x: "src = [x, y, z]" by (auto simp: length_Suc_conv numeral_3_eq_3)
    show ?thesis
    proof (rule that [of "q ! 0" "q ! 1" "q ! 2" "q ! 3"])
      show "padded_quad n src = [q ! 0, q ! 1, q ! 2, q ! 3]" using p by (simp add: 3 eval_nat_numeral)
      show "base64_decode_quad (q ! 0) (q ! 1) (q ! 2) (q ! 3) = Some src" using decode_quad_3 [of x y z] by (simp add: q_def 3 x)
    qed (use q in auto)
  qed
qed

lemma encode_block_cases:
  "src = [] \<or> length src \<in> {1, 2} \<and> EVP_EncodeBlock src = padded_quad (length src) src \<or>
   (\<exists>xs ys. length xs = 3 \<and> src = xs @ ys \<and> EVP_EncodeBlock src = padded_quad 3 xs @ EVP_EncodeBlock ys)"
proof (cases src rule: EVP_EncodeBlock.cases)
  case (4 a b c src')
  then have "length [a, b, c] = 3 \<and> src = [a, b, c] @ src' \<and> EVP_EncodeBlock src = padded_quad 3 [a, b, c] @ EVP_EncodeBlock src'"
    by (simp add: encode_block_step del: EVP_EncodeBlock.simps)
  then show ?thesis by blast
qed (simp_all add: encode_block_step numeral_2_eq_2 del: EVP_EncodeBlock.simps)

lemma block_induct [case_names Nil part full]:
  assumes "P []" "\<And>src. length src \<in> {1, 2} \<Longrightarrow> EVP_EncodeBlock src = padded_quad (length src) src \<Longrightarrow> P src"
    "\<And>xs ys. length xs = 3 \<Longrightarrow> EVP_EncodeBlock (xs @ ys) = padded_quad 3 xs @ EVP_EncodeBlock ys \<Longrightarrow> P ys \<Longrightarrow> P (xs @ ys)"
  shows "P src"
proof (induction "length src" arbitrary: src rule: less_induct)
  case less
  from encode_block_cases [of src] consider "src = []" | "length src \<in> {1, 2}" "EVP_EncodeBlock src = padded_quad (length src) src"
    | xs ys where "length xs = 3" "src = xs @ ys" "EVP_EncodeBlock src = padded_quad 3 xs @ EVP_EncodeBlock ys" by blast
  then show ?case
  proof cases
    case 3
    then have "P ys" by (intro less) simp
    with 3 assms(3) show ?thesis by simp
  qed (use assms in simp_all)
qed

lemma length_padded_quad: "n \<in> {1, 2, 3} \<Longrightarrow> length (padded_quad n src) = 4"
  by (auto simp: padded_quad_def quad_def Let_def eval_nat_numeral)

lemma length_encode_block: "length (EVP_EncodeBlock src) = (length src + 2) div 3 * 4"
proof (induction src rule: block_induct)
  case (full xs ys)
  have "(3 + (length ys + 2)) div 3 = Suc ((length ys + 2) div 3)" by simp
  moreover have "length (xs @ ys) + 2 = 3 + (length ys + 2)" using full(1) by simp
  ultimately have "(length (xs @ ys) + 2) div 3 = Suc ((length ys + 2) div 3)" by (simp only:)
  with full show ?case by (simp only: length_append length_padded_quad) (simp add: length_padded_quad)
qed (auto simp: length_padded_quad)

lemma encode_block_Nil_iff: "EVP_EncodeBlock src = [] \<longleftrightarrow> src = []"
  using length_encode_block [of src] by (cases src) (auto simp: div_eq_0_iff)

lemma decode_quads_encode: "decode_quads (EVP_EncodeBlock src) = Some src"
proof (induction src rule: block_induct)
  case (part src)
  then have "length src \<in> {1, 2, 3}" by auto
  from quad_chars [OF refl this] obtain a b c d where
    "padded_quad (length src) src = [a, b, c, d]" "base64_decode_quad a b c d = Some src" .
  with part(2) show ?case by simp
next
  case (full xs ys)
  have "3 \<in> {1, 2, 3 :: nat}" by simp
  from quad_chars [OF full(1) this] obtain a b c d where
    "padded_quad 3 xs = [a, b, c, d]" "base64_decode_quad a b c d = Some xs" .
  with full show ?case by simp
qed simp

lemma encoded_length: "length src < SIZE_LIMIT - 2 \<Longrightarrow> (length src + 2) div 3 * 4 < SIZE_LIMIT - 1 \<Longrightarrow>
    EVP_EncodedLength (length src) = Some (length (EVP_EncodeBlock src) + 1)"
  by (simp add: EVP_EncodedLength_def length_encode_block Let_def)

lemma decode_base64_encode:
  assumes "(length src + 2) div 3 * 3 \<le> max_out"
  shows "EVP_DecodeBase64 max_out (EVP_EncodeBlock src) = Some src"
  using assms by (simp add: EVP_DecodeBase64_def EVP_DecodedLength_def length_encode_block decode_quads_encode)

section \<open>Streams\<close>

text \<open>What a caller collects: the bytes each call says it wrote.\<close>

fun encode_chunks :: "evp_encode_ctx \<Rightarrow> byte list list \<Rightarrow> byte list \<times> evp_encode_ctx" where
  "encode_chunks ctx [] = ([], ctx)"
| "encode_chunks ctx (c # cs) =
     (case EVP_EncodeUpdate ctx c of
        (out, n, ctx) \<Rightarrow> case encode_chunks ctx cs of (out', ctx) \<Rightarrow> (take n out @ out', ctx))"

definition encode_stream :: "byte list list \<Rightarrow> byte list" where
  "encode_stream cs =
     (case encode_chunks EVP_EncodeInit cs of
        (out, ctx) \<Rightarrow> case EVP_EncodeFinal ctx of (out', n, _) \<Rightarrow> out @ take n out')"

fun decode_chunks :: "evp_encode_ctx \<Rightarrow> byte list list \<Rightarrow> (byte list \<times> evp_encode_ctx) option" where
  "decode_chunks ctx [] = Some ([], ctx)"
| "decode_chunks ctx (c # cs) =
     (case EVP_DecodeUpdate ctx c of
        (r, n, out, ctx) \<Rightarrow>
          if r < 0 then None else map_option (\<lambda>(out', ctx). (take n out @ out', ctx)) (decode_chunks ctx cs))"

definition decode_stream :: "byte list list \<Rightarrow> byte list option" where
  "decode_stream cs =
     (case decode_chunks EVP_DecodeInit cs of
        None \<Rightarrow> None
      | Some (out, ctx) \<Rightarrow> if EVP_DecodeFinal ctx = 1 then Some out else None)"

text \<open>The text of a whole input: lines of 48 bytes, each encoded and ended by a newline.\<close>

function base64_text :: "byte list \<Rightarrow> byte list" where
  "base64_text src = (if src = [] then [] else rfc4648 (take 48 src) @ [10] @ base64_text (drop 48 src))"
  by pat_completeness auto
termination by (relation "measure length") auto

text \<open>The full lines at the front of an input, and what is left.\<close>

function full_lines :: "byte list \<Rightarrow> byte list \<times> byte list" where
  "full_lines src =
     (if length src \<ge> 48 then
        (case full_lines (drop 48 src) of (out, r) \<Rightarrow> (EVP_EncodeBlock (take 48 src) @ [10] @ out, r))
      else ([], src))"
  by pat_completeness auto
termination by (relation "measure length") auto

declare base64_text.simps [simp del] full_lines.simps [simp del]

lemma full_lines_less [simp]: "length src < 48 \<Longrightarrow> full_lines src = ([], src)"
  by (simp add: full_lines.simps)

lemma full_lines_line: "length l = 48 \<Longrightarrow> full_lines (l @ r) = (case full_lines r of (out, r') \<Rightarrow> (EVP_EncodeBlock l @ [10] @ out, r'))"
  by (subst full_lines.simps) simp

lemma full_lines_append:
  "full_lines (xs @ ys) =
     (case full_lines xs of (out, r) \<Rightarrow> case full_lines (r @ ys) of (out', r') \<Rightarrow> (out @ out', r'))"
proof (induction xs rule: full_lines.induct)
  case (1 xs)
  show ?case
  proof (cases "48 \<le> length xs")
    case True
    then have l: "length (take 48 xs) = 48" by simp
    have e: "take 48 xs @ drop 48 xs @ ys = xs @ ys" by (simp flip: append_assoc)
    from full_lines_line [OF l, of "drop 48 xs"] full_lines_line [OF l, of "drop 48 xs @ ys", unfolded e] 1 [OF True]
    show ?thesis by (simp split: prod.splits)
  qed (simp split: prod.splits)
qed

lemma full_lines_lengths: "length (fst (full_lines src)) = length src div 48 * 65 \<and> length (snd (full_lines src)) < 48"
proof (induction src rule: full_lines.induct)
  case (1 src)
  show ?case
  proof (cases "48 \<le> length src")
    case True
    then have "length src div 48 = Suc (length (drop 48 src) div 48)" by (simp add: le_div_geq)
    moreover obtain out r where "full_lines (drop 48 src) = (out, r)" by (rule prod.exhaust)
    ultimately show ?thesis using 1 [OF True] True
      by (subst (1 2) full_lines.simps) (simp add: length_encode_block split: prod.splits)
  qed simp
qed

lemma base64_text_full_lines:
  "base64_text src = (case full_lines src of (out, r) \<Rightarrow> out @ (if r = [] then [] else EVP_EncodeBlock r @ [10]))"
proof (induction src rule: base64_text.induct)
  case (1 src)
  show ?case
  proof (cases "48 \<le> length src")
    case True
    then have "src \<noteq> []" by auto
    with 1 True show ?thesis
      by (subst base64_text.simps, subst full_lines.simps) (simp add: encode_block_standard split: prod.splits)
  next
    case False
    then show ?thesis
      by (subst base64_text.simps) (simp add: encode_block_standard base64_text.simps [of "[]"])
  qed
qed

subsection \<open>The encoder\<close>

text \<open>The context holds the input that no line was written for.\<close>

definition pending :: "evp_encode_ctx \<Rightarrow> byte list \<Rightarrow> bool" where
  "pending ctx p \<longleftrightarrow> length (ctx_data ctx) = 48 \<and> data_used ctx = length p \<and> length p < 48 \<and> take (length p) (ctx_data ctx) = p"

lemma encode_lines_full:
  assumes "tot + (length src div 48) * 65 < SIZE_LIMIT"
  shows "encode_lines src tot = (case full_lines src of (out, r) \<Rightarrow> (out, Some (r, tot + length out)))"
  using assms
proof (induction src tot rule: encode_lines.induct)
  case (1 src tot)
  show ?case
  proof (cases "48 \<le> length src")
    case True
    then have d: "length src div 48 = Suc (length (drop 48 src) div 48)" by (simp add: le_div_geq)
    obtain out r where f: "full_lines (drop 48 src) = (out, r)" by (rule prod.exhaust)
    have e: "length (EVP_EncodeBlock (take 48 src)) = 64" using True by (simp add: length_encode_block)
    have w: "size_wrap (tot + 64 + 1) = 65 + tot" using "1.prems" d by (intro size_wrap_small [THEN trans]) simp_all
    then have w': "size_wrap (65 + tot) = 65 + tot" by (simp add: add.commute)
    have "encode_lines (drop 48 src) (65 + tot) = (out, Some (r, 65 + tot + length out))"
      using "1.IH" [OF True refl refl] "1.prems" d f by (simp add: e w)
    then show ?thesis using True by (subst encode_lines.simps, subst full_lines.simps) (simp add: f e w' Let_def)
  qed (simp add: encode_lines.simps)
qed

lemma pending_poke:
  assumes "pending ctx p" "length p + length src \<le> 48"
  shows "length (poke (ctx_data ctx) (length p) src) = 48" "take (length p + length src) (poke (ctx_data ctx) (length p) src) = p @ src"
  using assms by (auto simp: pending_def poke_def)

text \<open>The end of \<^verbatim>\<open>EVP_EncodeUpdate\<close>, once a pending line is out.\<close>

lemma pending_rest:
  assumes "length (ctx_data ctx) = 48" "length r < 48"
  shows "pending ((if length r \<noteq> 0 then ctx\<lparr>ctx_data := poke (ctx_data ctx) 0 r\<rparr> else ctx)\<lparr>data_used := length r\<rparr>) r"
  using assms by (simp add: pending_def poke_def)

lemma encode_update:
  assumes p: "pending ctx p" and small: "(47 + length src) div 48 * 65 \<le> INT_MAX"
    and f: "full_lines (p @ src) = (out, r)"
  shows "\<exists>ctx'. EVP_EncodeUpdate ctx src = (out, length out, ctx') \<and> pending ctx' r"
proof (cases "48 - data_used ctx > length src")
  case True
  with p have "length (p @ src) < 48" by (simp add: pending_def)
  then have "out = []" "r = p @ src" using f by simp_all
  then show ?thesis using True p pending_poke [OF p, of src]
    by (cases "src = []") (simp_all add: EVP_EncodeUpdate_def pending_def)
next
  case False
  have p': "length (ctx_data ctx) = 48" "data_used ctx = length p" "length p < 48" "take (length p) (ctx_data ctx) = p"
    using p by (simp_all add: pending_def)
  have "length (p @ src) div 48 \<le> (47 + length src) div 48" using p' by (intro div_le_mono) simp
  then have small': "length (p @ src) div 48 * 65 \<le> INT_MAX" using small by simp
  have out: "length out \<le> INT_MAX" "length r < 48" using full_lines_lengths [of "p @ src"] f small' by simp_all
  have src: "length src \<noteq> 0" using False p' by linarith
  show ?thesis
  proof (cases "p = []")
    case True
    have "encode_lines src 0 = (out, Some (r, length out))"
      using encode_lines_full [of 0 src] small' f True by simp
    then show ?thesis using True False p' src out pending_rest [OF p'(1) out(2)]
      by (simp add: EVP_EncodeUpdate_def Let_def)
  next
    case False2: False
    define todo where "todo = 48 - length p"
    define l where "l = p @ take todo src"
    have l: "length l = 48" "p @ src = l @ drop todo src" using False p' by (simp_all add: l_def todo_def)
    have d: "poke (ctx_data ctx) (length p) (take todo src) = l"
      using p' False by (simp add: poke_def l_def todo_def)
    obtain out' where o: "full_lines (drop todo src) = (out', r)" "out = EVP_EncodeBlock l @ [10] @ out'"
      using f unfolding l(2) full_lines_line [OF l(1)] by (auto split: prod.splits)
    have e: "length (EVP_EncodeBlock l) = 64" using l(1) by (simp add: length_encode_block)
    have "length out = length (p @ src) div 48 * 65" using full_lines_lengths [of "p @ src"] f by simp
    moreover have "length out' = length (drop todo src) div 48 * 65" using full_lines_lengths [of "drop todo src"] o by simp
    ultimately have "65 + length (drop todo src) div 48 * 65 < SIZE_LIMIT" using o(2) e small' by simp
    from encode_lines_full [OF this] have lines: "encode_lines (drop todo src) 65 = (out', Some (r, 65 + length out'))"
      by (simp add: o)
    let ?ctx = "ctx\<lparr>ctx_data := l, data_used := 0\<rparr>"
    have "pending ((if length r \<noteq> 0 then ?ctx\<lparr>ctx_data := poke (ctx_data ?ctx) 0 r\<rparr> else ?ctx)\<lparr>data_used := length r\<rparr>) r"
      by (rule pending_rest) (simp_all add: l out)
    then show ?thesis using False False2 p' src out lines o(2) e
      by (cases "r = []") (simp_all add: EVP_EncodeUpdate_def Let_def d flip: todo_def)
  qed
qed

lemma encode_chunks_full:
  assumes "pending ctx p" "\<forall>c \<in> set cs. (47 + length c) div 48 * 65 \<le> INT_MAX" "full_lines (p @ concat cs) = (out, r)"
  shows "\<exists>ctx'. encode_chunks ctx cs = (out, ctx') \<and> pending ctx' r"
  using assms
proof (induction cs arbitrary: ctx p out r)
  case Nil
  then show ?case by (simp add: pending_def)
next
  case (Cons c cs)
  obtain o1 r1 where f1: "full_lines (p @ c) = (o1, r1)" by (rule prod.exhaust)
  obtain o2 r2 where f2: "full_lines (r1 @ concat cs) = (o2, r2)" by (rule prod.exhaust)
  have eq: "out = o1 @ o2" "r = r2" using full_lines_append [of "p @ c" "concat cs"] f1 f2 Cons.prems(3) by simp_all
  obtain ctx1 where u: "EVP_EncodeUpdate ctx c = (o1, length o1, ctx1)" "pending ctx1 r1"
    using encode_update [OF Cons.prems(1) _ f1] Cons.prems(2) by auto
  obtain ctx2 where "encode_chunks ctx1 cs = (o2, ctx2)" "pending ctx2 r2"
    using Cons.IH [OF u(2) _ f2] Cons.prems(2) by auto
  with u eq show ?case by simp
qed

lemma encode_stream_text:
  assumes "\<forall>c \<in> set cs. (47 + length c) div 48 * 65 \<le> INT_MAX"
  shows "encode_stream cs = base64_text (concat cs)"
proof -
  obtain out r where f: "full_lines (concat cs) = (out, r)" by (rule prod.exhaust)
  have "pending EVP_EncodeInit []" by (simp add: pending_def EVP_EncodeInit_def)
  from encode_chunks_full [OF this assms, of out r] f obtain ctx where
    c: "encode_chunks EVP_EncodeInit cs = (out, ctx)" "pending ctx r" by auto
  then show ?thesis
    by (simp add: encode_stream_def EVP_EncodeFinal_def base64_text_full_lines f pending_def Let_def)
qed

subsection \<open>The decoder\<close>

definition ready :: "evp_encode_ctx \<Rightarrow> bool \<Rightarrow> bool" where
  "ready ctx e \<longleftrightarrow> length (ctx_data ctx) = 48 \<and> data_used ctx = 0 \<and> eof_seen ctx = e \<and> \<not> error_encountered ctx"

lemma decode_chars_append:
  "decode_chars (xs @ ys) ctx =
     (case decode_chars xs ctx of
        (False, out, ctx) \<Rightarrow> (False, out, ctx)
      | (True, out, ctx) \<Rightarrow> case decode_chars ys ctx of (ok, out', ctx) \<Rightarrow> (ok, out @ out', ctx))"
  by (induction xs ctx rule: decode_chars.induct) (auto simp: Let_def split: prod.splits bool.splits option.splits)

lemma decode_chars_error: "decode_chars xs ctx = (True, out, ctx') \<Longrightarrow> error_encountered ctx' = error_encountered ctx"
  by (induction xs ctx arbitrary: out rule: decode_chars.induct)
    (auto simp: Let_def split: prod.splits bool.splits option.splits if_splits)

lemma decode_quad_length: "base64_decode_quad a b c d = Some bs \<Longrightarrow> length bs \<le> 3"
  by (auto simp: base64_decode_quad_def Let_def split: if_splits)

lemma decode_chars_quad:
  assumes "ready ctx False" "\<forall>x \<in> {a, b, c, d}. \<not> is_blank x" "base64_decode_quad a b c d = Some bs"
  shows "\<exists>ctx'. ready ctx' (length bs < 3) \<and> decode_chars [a, b, c, d] ctx = (True, bs, ctx')"
  using assms by (simp add: ready_def Let_def numeral_2_eq_2 numeral_3_eq_3)

declare decode_chars.simps(2) [simp del]

lemma decode_chars_block:
  assumes "ready ctx False"
  shows "\<exists>ctx'. ready ctx' (length src mod 3 \<noteq> 0) \<and> decode_chars (EVP_EncodeBlock src) ctx = (True, src, ctx')"
  using assms
proof (induction src arbitrary: ctx rule: block_induct)
  case Nil
  then show ?case by (simp add: ready_def)
next
  case (part src)
  then have "length src \<in> {1, 2, 3}" by auto
  from quad_chars [OF refl this] obtain a b c d where
    q: "padded_quad (length src) src = [a, b, c, d]" "base64_decode_quad a b c d = Some src" "\<forall>x \<in> {a, b, c, d}. \<not> is_blank x" .
  from decode_chars_quad [OF part(3) q(3,2)] show ?case using part(1,2) q(1) by auto
next
  case (full xs ys)
  have "3 \<in> {1, 2, 3 :: nat}" by simp
  from quad_chars [OF full(1) this] obtain a b c d where
    q: "padded_quad 3 xs = [a, b, c, d]" "base64_decode_quad a b c d = Some xs" "\<forall>x \<in> {a, b, c, d}. \<not> is_blank x" .
  from decode_chars_quad [OF full(4) q(3,2)] full(1) obtain ctx1 where
    1: "ready ctx1 False" "decode_chars [a, b, c, d] ctx = (True, xs, ctx1)" by auto
  from full(3) [OF 1(1)] obtain ctx2 where
    2: "ready ctx2 (length ys mod 3 \<noteq> 0)" "decode_chars (EVP_EncodeBlock ys) ctx1 = (True, ys, ctx2)" by auto
  have "decode_chars (EVP_EncodeBlock (xs @ ys)) ctx = (True, xs @ ys, ctx2)"
    using decode_chars_append [of "[a, b, c, d]" "EVP_EncodeBlock ys" ctx] full(2) q(1) 1(2) 2(2) by simp
  moreover have "length (xs @ ys) mod 3 = length ys mod 3" using full(1) by simp
  ultimately show ?case using 2(1) by auto
qed

lemma decode_chars_newline: "decode_chars [10] ctx = (True, [], ctx)"
  by (simp add: decode_chars.simps is_blank_def)

lemma decode_chars_text:
  assumes "ready ctx False"
  shows "\<exists>ctx' e. ready ctx' e \<and> decode_chars (base64_text src) ctx = (True, src, ctx')"
  using assms
proof (induction src arbitrary: ctx rule: base64_text.induct)
  case (1 src)
  show ?case
  proof (cases "src = []")
    case True
    with 1 show ?thesis by (auto simp: base64_text.simps [of "[]"])
  next
    case False
    obtain ctx1 where 1: "ready ctx1 (length (take 48 src) mod 3 \<noteq> 0)"
      "decode_chars (rfc4648 (take 48 src)) ctx = (True, take 48 src, ctx1)"
      using decode_chars_block [OF "1.prems", of "take 48 src"] by (auto simp: encode_block_standard)
    have "\<exists>ctx2 e. ready ctx2 e \<and> decode_chars (base64_text (drop 48 src)) ctx1 = (True, drop 48 src, ctx2)"
    proof (cases "drop 48 src = []")
      case True
      with 1(1) show ?thesis by (auto simp: base64_text.simps [of "[]"])
    next
      case longer: False
      then have "ready ctx1 False" using 1(1) by (simp add: min_def split: if_splits)
      then show ?thesis by (rule "1.IH" [OF False])
    qed
    then obtain ctx2 e where 2: "ready ctx2 e" "decode_chars (base64_text (drop 48 src)) ctx1 = (True, drop 48 src, ctx2)" by blast
    have "decode_chars (base64_text src) ctx = (True, src, ctx2)"
      unfolding base64_text.simps [of src] if_not_P [OF False] decode_chars_append [of "rfc4648 (take 48 src)"] 1(2)
      by (simp only: decode_chars_append [of "[10]"] decode_chars_newline 2(2) prod.case bool.case append_take_drop_id append_Nil)
    with 2(1) show ?thesis by blast
  qed
qed

lemma decode_chars_length:
  "decode_chars xs ctx = (True, out, ctx') \<Longrightarrow> data_used ctx < 4 \<Longrightarrow>
   data_used ctx' < 4 \<and> length out + data_used ctx' \<le> length xs + data_used ctx"
proof (induction xs ctx arbitrary: out rule: decode_chars.induct)
  case (2 c src ctx)
  define d where "d = (ctx_data ctx)[data_used ctx := c]"
  show ?case
  proof (cases "is_blank c")
    case True
    with "2.IH"(1) [OF True] "2.prems" show ?thesis by (fastforce simp: decode_chars.simps)
  next
    case False
    with "2.prems" have e: "\<not> eof_seen ctx" by (auto simp: decode_chars.simps)
    show ?thesis
    proof (cases "data_used ctx = 3")
      case True
      with "2.prems" False e obtain bs o1 where
        1: "base64_decode_quad (d ! 0) (d ! 1) (d ! 2) (d ! 3) = Some bs" "out = bs @ o1"
        "decode_chars src (ctx\<lparr>ctx_data := d, data_used := 0, eof_seen := length bs < 3\<rparr>) = (True, o1, ctx')"
        by (auto simp: decode_chars.simps Let_def d_def split: prod.splits option.splits)
      have "data_used ctx' < 4 \<and> length o1 + data_used ctx' \<le> length src + 0"
        using "2.IH"(2) [OF False e refl refl _ 1(1) [unfolded d_def]] 1(3) True e by (simp add: d_def)
      with 1(1,2) True decode_quad_length [OF 1(1)] show ?thesis by simp
    next
      case more: False
      with "2.prems" False e show ?thesis
        using "2.IH"(3) [OF False e refl refl] by (fastforce simp: decode_chars.simps Let_def)
    qed
  qed
qed simp

lemma decode_chunks_concat:
  assumes "decode_chars (concat cs) ctx = (True, out, ctx')" "\<not> error_encountered ctx" "data_used ctx < 4"
    "\<forall>c \<in> set cs. length c + 3 \<le> INT_MAX"
  shows "decode_chunks ctx cs = Some (out, ctx')"
  using assms
proof (induction cs arbitrary: ctx out)
  case (Cons c cs)
  obtain o1 ctx1 where 1: "decode_chars c ctx = (True, o1, ctx1)"
    using Cons.prems(1) by (auto simp: decode_chars_append split: prod.splits bool.splits)
  obtain o2 where 2: "decode_chars (concat cs) ctx1 = (True, o2, ctx')" "out = o1 @ o2"
    using Cons.prems(1) 1 by (auto simp: decode_chars_append split: prod.splits)
  have e: "\<not> error_encountered ctx1" using decode_chars_error [OF 1] Cons.prems(2) by simp
  from decode_chars_length [OF 1 Cons.prems(3)] Cons.prems(3,4) have l: "data_used ctx1 < 4" "length o1 \<le> INT_MAX" by simp_all
  have "decode_chunks ctx1 cs = Some (o2, ctx')" using Cons.prems(4) by (intro Cons.IH 2(1) e l(1)) simp
  then show ?case using 1 2 l(2) Cons.prems(2) by (simp add: EVP_DecodeUpdate_def)
qed simp

lemma decode_stream_text:
  assumes "concat cs = base64_text src" "\<forall>c \<in> set cs. length c + 3 \<le> INT_MAX"
  shows "decode_stream cs = Some src"
proof -
  have "ready EVP_DecodeInit False" by (simp add: ready_def EVP_DecodeInit_def)
  from decode_chars_text [OF this, of src] obtain ctx e where
    1: "ready ctx e" "decode_chars (concat cs) EVP_DecodeInit = (True, src, ctx)" unfolding assms(1) by blast
  have "\<not> error_encountered EVP_DecodeInit" "data_used EVP_DecodeInit < 4" by (simp_all add: EVP_DecodeInit_def)
  from decode_chunks_concat [OF 1(2) this assms(2)] 1(1) show ?thesis
    by (simp add: decode_stream_def EVP_DecodeFinal_def ready_def)
qed

section \<open>Properties\<close>

text \<open>
  C35. Whole blocks: \<^verbatim>\<open>EVP_EncodedLength\<close> is the room the encoder needs with its zero byte,
  \<^verbatim>\<open>EVP_DecodedLength\<close> of that text is at least the length of the input and less than three above it, and
  \<^verbatim>\<open>EVP_DecodeBase64\<close> with so much room returns the input.
\<close>

theorem base64_block_roundtrip:
  assumes "length src \<le> 2 ^ 63"
  shows "EVP_EncodedLength (length src) = Some (length (EVP_EncodeBlock src) + 1) \<and>
    (\<exists>m. EVP_DecodedLength (length (EVP_EncodeBlock src)) = Some m \<and> length src \<le> m \<and> m < length src + 3 \<and>
       EVP_DecodeBase64 m (EVP_EncodeBlock src) = Some src)"
proof -
  have "(length src + 2) div 3 \<le> (2 ^ 63 + 2) div 3" using assms by (intro div_le_mono) simp
  then have "EVP_EncodedLength (length src) = Some (length (EVP_EncodeBlock src) + 1)" using assms by (intro encoded_length) simp_all
  moreover have "EVP_DecodedLength (length (EVP_EncodeBlock src)) = Some ((length src + 2) div 3 * 3)"
    by (simp add: EVP_DecodedLength_def length_encode_block)
  moreover have "length src \<le> (length src + 2) div 3 * 3" "(length src + 2) div 3 * 3 < length src + 3" by linarith+
  ultimately show ?thesis using decode_base64_encode [OF order_refl, of src] by blast
qed

theorem base64_block_roundtrip_witness:
  "EVP_EncodedLength (length [1, 2, 3, 4 :: byte]) = Some (length (EVP_EncodeBlock [1, 2, 3, 4]) + 1) \<and>
    (\<exists>m. EVP_DecodedLength (length (EVP_EncodeBlock [1, 2, 3, 4])) = Some m \<and> length [1, 2, 3, 4 :: byte] \<le> m \<and>
       m < length [1, 2, 3, 4 :: byte] + 3 \<and> EVP_DecodeBase64 m (EVP_EncodeBlock [1, 2, 3, 4]) = Some [1, 2, 3, 4])"
  by (rule base64_block_roundtrip) simp

text \<open>
  C34. Streams: whatever the chunks the input is encoded in and the chunks the text is decoded in, the
  text is the same, lines of 48 bytes with a newline each, and decoding it ends without an error and
  returns the input.
\<close>

theorem base64_stream_roundtrip:
  assumes "\<forall>c \<in> set cs. (47 + length c) div 48 * 65 \<le> INT_MAX" "\<forall>c \<in> set ds. length c + 3 \<le> INT_MAX"
    and "concat ds = encode_stream cs"
  shows "encode_stream cs = base64_text (concat cs) \<and> decode_stream ds = Some (concat cs)"
  using encode_stream_text [OF assms(1)] decode_stream_text [of ds "concat cs"] assms(2,3) by simp

theorem base64_stream_roundtrip_witness:
  "encode_stream [[1, 2], [3, 4]] = base64_text [1, 2, 3, 4] \<and>
   decode_stream (map (\<lambda>b. [b]) (encode_stream [[1, 2], [3, 4]])) = Some [1, 2, 3, 4]"
proof -
  have "encode_stream [[1, 2], [3, 4]] = base64_text (concat [[1, 2], [3, 4]]) \<and>
    decode_stream (map (\<lambda>b. [b]) (encode_stream [[1, 2], [3, 4]])) = Some (concat [[1, 2], [3, 4]])"
    by (rule base64_stream_roundtrip) simp_all
  from this [unfolded concat.simps append.simps append_Nil2] show ?thesis .
qed

end
