(* ===== verification/Bn_Words.thy ===== *)
theory Bn_Words
  imports Constant_Time
begin

text \<open>
  Arrays of 64-bit words as numbers: the routines of \<^verbatim>\<open>fipsmodule/bn/generic.c\<close>, compiled with
  \<^verbatim>\<open>OPENSSL_NO_ASM\<close> and a 128-bit \<^verbatim>\<open>BN_ULLONG\<close>, and the word routines of \<^verbatim>\<open>bn.c\<close> and \<^verbatim>\<open>div.c\<close> that
  work on equal widths. A routine returns the words it stores through \<^verbatim>\<open>r\<close> with its result; each reads a
  word before it writes the one at its place, so \<^verbatim>\<open>r\<close> may be one of the operands.
\<close>

type_synonym limb = u64
type_synonym ullong = "128 word"

section \<open>Loops over words\<close>

text \<open>
  The loops of \<^verbatim>\<open>generic.c\<close> handle four words a turn while as many are left, then one a turn. \<open>f\<close> is the
  body for one word with the state it threads, the carry.
\<close>

fun words4 :: "('x \<Rightarrow> 's \<Rightarrow> 'w \<times> 's) \<Rightarrow> 'x list \<Rightarrow> 's \<Rightarrow> 'w list \<times> 's" where
  "words4 f (x0 # x1 # x2 # x3 # xs) s =
     (case f x0 s of (r0, s) \<Rightarrow> case f x1 s of (r1, s) \<Rightarrow> case f x2 s of (r2, s) \<Rightarrow> case f x3 s of (r3, s) \<Rightarrow>
      case words4 f xs s of (rs, s) \<Rightarrow> (r0 # r1 # r2 # r3 # rs, s))"
| "words4 f (x # xs) s = (case f x s of (r, s) \<Rightarrow> case words4 f xs s of (rs, s) \<Rightarrow> (r # rs, s))"
| "words4 f [] s = ([], s)"

fun words1 :: "('x \<Rightarrow> 's \<Rightarrow> 'w \<times> 's) \<Rightarrow> 'x list \<Rightarrow> 's \<Rightarrow> 'w list \<times> 's" where
  "words1 f (x # xs) s = (case f x s of (r, s) \<Rightarrow> case words1 f xs s of (rs, s) \<Rightarrow> (r # rs, s))"
| "words1 f [] s = ([], s)"

lemma words4_rolled: "words4 f xs s = words1 f xs s"
  by (induction f xs s rule: words4.induct) (simp_all split: prod.splits)

lemma words1_append:
  "words1 f (xs @ ys) s = (case words1 f xs s of (rs, s) \<Rightarrow> case words1 f ys s of (rs', s) \<Rightarrow> (rs @ rs', s))"
  by (induction xs arbitrary: s) (simp_all split: prod.splits)

section \<open>The routines of generic.c\<close>

definition Lw :: "ullong \<Rightarrow> limb" where "Lw t = ucast t"
definition Hw :: "ullong \<Rightarrow> limb" where "Hw t = ucast (drop_bit 64 t)"

definition mul_add :: "limb \<Rightarrow> limb \<times> limb \<Rightarrow> limb \<Rightarrow> limb \<times> limb" where
  "mul_add w ra c = (case ra of (r, a) \<Rightarrow> let t = ucast w * ucast a + ucast r + ucast c in (Lw t, Hw t))"

definition mul_w :: "limb \<Rightarrow> limb \<Rightarrow> limb \<Rightarrow> limb \<times> limb" where
  "mul_w w a c = (let t = ucast w * ucast a + ucast c in (Lw t, Hw t))"

definition sqr_w :: "limb \<Rightarrow> limb \<times> limb" where
  "sqr_w a = (let t = ucast a * ucast a in (Lw t, Hw t))"

definition bn_mul_add_words :: "limb list \<Rightarrow> limb list \<Rightarrow> limb \<Rightarrow> limb list \<times> limb" where
  "bn_mul_add_words rp ap w = words4 (mul_add w) (zip rp ap) 0"

definition bn_mul_words :: "limb list \<Rightarrow> limb \<Rightarrow> limb list \<times> limb" where
  "bn_mul_words ap w = words4 (mul_w w) ap 0"

fun bn_sqr_words :: "limb list \<Rightarrow> limb list" where
  "bn_sqr_words (a0 # a1 # a2 # a3 # a) =
     (case sqr_w a0 of (r0, r1) \<Rightarrow> case sqr_w a1 of (r2, r3) \<Rightarrow> case sqr_w a2 of (r4, r5) \<Rightarrow> case sqr_w a3 of (r6, r7) \<Rightarrow>
      [r0, r1, r2, r3, r4, r5, r6, r7] @ bn_sqr_words a)"
| "bn_sqr_words (a0 # a) = (case sqr_w a0 of (r0, r1) \<Rightarrow> [r0, r1] @ bn_sqr_words a)"
| "bn_sqr_words [] = []"

definition add_step :: "limb \<times> limb \<Rightarrow> ullong \<Rightarrow> limb \<times> ullong" where
  "add_step ab ll = (case ab of (a, b) \<Rightarrow> let ll = ll + (ucast a + ucast b) in (ucast ll, drop_bit 64 ll))"

definition bn_add_words :: "limb list \<Rightarrow> limb list \<Rightarrow> limb list \<times> limb" where
  "bn_add_words a b = (case words4 add_step (zip a b) 0 of (r, ll) \<Rightarrow> (r, ucast ll))"

definition sub_step :: "limb \<times> limb \<Rightarrow> limb \<Rightarrow> limb \<times> limb" where
  "sub_step ab c = (case ab of (t1, t2) \<Rightarrow> (t1 - t2 - c, if t1 \<noteq> t2 then if t1 < t2 then 1 else 0 else c))"

definition bn_sub_words :: "limb list \<Rightarrow> limb list \<Rightarrow> limb list \<times> limb" where
  "bn_sub_words a b = words4 sub_step (zip a b) 0"

definition bn_select_words :: "limb \<Rightarrow> limb list \<Rightarrow> limb list \<Rightarrow> limb list" where
  "bn_select_words m a b = map2 (constant_time_select_w m) a b"

section \<open>Words as numbers\<close>

definition radix :: int where
  "radix = 2 ^ 64"

lemma radix_pos [simp]: "0 < radix" "0 \<le> radix" "1 < radix" "1 \<le> radix" "radix \<noteq> 0"
  by (simp_all add: radix_def)

lemma radix_power_pos [simp]: "0 < radix ^ n"
  by simp

lemma uint_limb [simp]: "0 \<le> uint (w :: limb)" "uint (w :: limb) < radix"
  using uint_lt2p [of w] by (simp_all add: radix_def)

lemma uint_limb_le: "uint (w :: limb) \<le> radix - 1"
  using uint_limb(2) [of w] by linarith

fun bn_val :: "limb list \<Rightarrow> int" where
  "bn_val [] = 0"
| "bn_val (w # ws) = uint w + radix * bn_val ws"

fun weighted :: "('x \<Rightarrow> int) \<Rightarrow> 'x list \<Rightarrow> int" where
  "weighted v [] = 0"
| "weighted v (x # xs) = v x + radix * weighted v xs"

lemma bn_val_weighted: "bn_val = weighted uint"
proof
  fix ws show "bn_val ws = weighted uint ws" by (induction ws) simp_all
qed

lemma bn_val_append: "bn_val (xs @ ys) = bn_val xs + radix ^ length xs * bn_val ys"
  by (induction xs) (simp_all add: algebra_simps)

lemma bn_val_nonneg [simp]: "0 \<le> bn_val ws"
  by (induction ws) simp_all

lemma bn_val_bound: "bn_val ws < radix ^ length ws"
proof (induction ws)
  case (Cons w ws)
  have "uint w + radix * bn_val ws \<le> (radix - 1) + radix * (radix ^ length ws - 1)"
    using Cons uint_limb_le [of w] by (intro add_mono mult_left_mono) simp_all
  then show ?case by (simp add: algebra_simps)
qed simp

lemma bn_val_replicate_0 [simp]: "bn_val (replicate n 0) = 0"
  by (induction n) simp_all

lemma bn_val_zero_iff: "bn_val ws = 0 \<longleftrightarrow> (\<forall>w \<in> set ws. w = 0)"
proof (induction ws)
  case (Cons w ws)
  have "uint w + radix * bn_val ws = 0 \<longleftrightarrow> uint w = 0 \<and> bn_val ws = 0"
    by (simp add: add_nonneg_eq_0_iff)
  with Cons show ?case by (simp add: unsigned_eq_0_iff)
qed simp

lemma bn_val_inject: "length xs = length ys \<Longrightarrow> bn_val xs = bn_val ys \<Longrightarrow> xs = ys"
proof (induction xs ys rule: list_induct2)
  case (Cons x xs y ys)
  have "uint x = (uint x + radix * bn_val xs) mod radix" by simp
  also have "\<dots> = (uint y + radix * bn_val ys) mod radix" using Cons.prems by simp
  also have "\<dots> = uint y" by simp
  finally have "x = y" by (rule unsigned_word_eqI)
  with Cons show ?case by simp
qed simp

lemma weighted_zip:
  assumes "length xs = length ys"
  shows "weighted (\<lambda>(x, y). f x + g y) (zip xs ys) = weighted f xs + weighted g ys"
  using assms by (induction xs ys rule: list_induct2) (simp_all add: algebra_simps)

lemma weighted_scale: "weighted (\<lambda>x. k * f x) xs = k * weighted f xs"
  by (induction xs) (simp_all add: algebra_simps)

section \<open>Carry chains\<close>

text \<open>
  One turn of a loop with a carry: the word stored and the carry out are worth the contribution of the
  input and the carry in. \<open>ok\<close> is the bound on the carry that keeps the turn from wrapping.
\<close>

locale carry_chain =
  fixes step :: "'x \<Rightarrow> 's \<Rightarrow> limb \<times> 's"
    and input :: "'x \<Rightarrow> int"
    and carry :: "'s \<Rightarrow> int"
    and ok :: "'s \<Rightarrow> bool"
  assumes step: "ok s \<Longrightarrow> step x s = (r, s') \<Longrightarrow> ok s' \<and> uint r + radix * carry s' = input x + carry s"
begin

lemma chain:
  "ok s \<Longrightarrow> words1 step xs s = (rs, s') \<Longrightarrow>
   ok s' \<and> length rs = length xs \<and> bn_val rs + radix ^ length xs * carry s' = weighted input xs + carry s"
proof (induction xs arbitrary: s rs s')
  case (Cons x xs)
  obtain r s1 where 1: "step x s = (r, s1)" by (rule prod.exhaust)
  obtain rs1 s2 where 2: "words1 step xs s1 = (rs1, s2)" by (rule prod.exhaust)
  have eq: "rs = r # rs1" "s' = s2" using Cons.prems(2) 1 2 by simp_all
  from step [OF Cons.prems(1) 1] have s: "ok s1" "uint r + radix * carry s1 = input x + carry s" by simp_all
  from Cons.IH [OF s(1) 2] have ih: "ok s2" "length rs1 = length xs"
    "bn_val rs1 + radix ^ length xs * carry s2 = weighted input xs + carry s1" by simp_all
  have "bn_val rs + radix ^ length (x # xs) * carry s' = uint r + radix * (bn_val rs1 + radix ^ length xs * carry s2)"
    by (simp add: eq algebra_simps)
  also have "\<dots> = (uint r + radix * carry s1) + radix * weighted input xs" unfolding ih(3) by (simp add: algebra_simps)
  also have "\<dots> = weighted input (x # xs) + carry s" unfolding s(2) by simp
  finally show ?case using ih eq by simp
qed simp

lemmas chain4 = chain [folded words4_rolled]

end

lemma uint_ucast_limb: "uint (ucast (a :: limb) :: ullong) = uint a"
  by (simp add: uint_up_ucast is_up)

text \<open>A double word in halves.\<close>

lemma ullong_halves:
  fixes t :: ullong
  shows "uint (Lw t) = uint t mod radix" "uint (Hw t) = uint t div radix" "uint (drop_bit 64 t) = uint t div radix"
proof -
  show "uint (Lw t) = uint t mod radix" by (simp add: Lw_def radix_def unsigned_ucast_eq take_bit_eq_mod)
  have "take_bit 128 (uint t) = uint t" using uint_lt2p [of t] by (simp add: take_bit_int_eq_self)
  then show d: "uint (drop_bit 64 t) = uint t div radix"
    unfolding unsigned_drop_bit_eq by (simp add: radix_def drop_bit_eq_div)
  have "uint t < radix * radix" using uint_lt2p [of t] by (simp add: radix_def)
  then have "uint t div radix < radix" by (simp add: radix_def)
  moreover have "0 \<le> uint t div radix" by (simp add: pos_imp_zdiv_nonneg_iff)
  ultimately show "uint (Hw t) = uint t div radix"
    by (simp add: Hw_def unsigned_ucast_eq take_bit_eq_mod d) (simp add: radix_def)
qed

lemma ullong_mod: "0 \<le> n \<Longrightarrow> n < radix * radix \<Longrightarrow> n mod 2 ^ 128 = n"
  by (simp add: radix_def)

lemma limb_product: "uint (a :: limb) * uint (b :: limb) \<le> (radix - 1) * (radix - 1)"
  using uint_limb_le [of a] uint_limb_le [of b] by (intro mult_mono) simp_all

lemma uint_mul_add: "uint (ucast (w :: limb) * ucast (a :: limb) + ucast (r :: limb) + ucast (c :: limb) :: ullong) = uint w * uint a + uint r + uint c"
proof -
  have "uint w * uint a + uint r + uint c \<le> (radix - 1) * (radix - 1) + (radix - 1) + (radix - 1)"
    using limb_product [of w a] uint_limb_le [of r] uint_limb_le [of c] by linarith
  then have "uint w * uint a + uint r + uint c < radix * radix" by (simp add: algebra_simps)
  then have "(uint w * uint a + uint r + uint c) mod 2 ^ 128 = uint w * uint a + uint r + uint c" by (intro ullong_mod) simp_all
  then show ?thesis by (simp add: uint_word_ariths uint_ucast_limb mod_simps)
qed

lemma Lw_Hw: "uint (Lw t) + radix * uint (Hw t) = uint t"
  by (simp add: ullong_halves)

lemma mul_add_val: "mul_add w (r, a) c = (x, c') \<Longrightarrow> uint x + radix * uint c' = uint r + uint w * uint a + uint c"
  using Lw_Hw [of "ucast w * ucast a + ucast r + ucast c"] unfolding uint_mul_add by (auto simp: mul_add_def Let_def)

lemma mul_w_val: "mul_w w a c = (x, c') \<Longrightarrow> uint x + radix * uint c' = uint w * uint a + uint c"
  using mul_add_val [of w 0 a c] by (simp add: mul_add_def mul_w_def)

lemma sqr_w_val: "sqr_w a = (x, y) \<Longrightarrow> uint x + radix * uint y = uint a * uint a"
  using mul_add_val [of a 0 a 0] by (simp add: mul_add_def sqr_w_def)

interpretation mul_add: carry_chain "mul_add w" "\<lambda>(r, a). uint r + uint w * uint a" uint "\<lambda>_. True"
  for w
  by unfold_locales (auto dest: mul_add_val)

interpretation mul: carry_chain "mul_w w" "\<lambda>a. uint w * uint a" uint "\<lambda>_. True"
  for w
  by unfold_locales (auto dest: mul_w_val)

lemma bn_mul_words_val:
  assumes "bn_mul_words ap w = (rp, c)"
  shows "length rp = length ap" "bn_val rp + radix ^ length ap * uint c = uint w * bn_val ap"
  using mul.chain4 [OF _ assms [unfolded bn_mul_words_def]] by (simp_all add: weighted_scale bn_val_weighted)

lemma bn_mul_add_words_val:
  assumes "bn_mul_add_words rp ap w = (rs, c)" and l: "length rp = length ap"
  shows "length rs = length ap" "bn_val rs + radix ^ length ap * uint c = bn_val rp + uint w * bn_val ap"
  using mul_add.chain4 [OF _ assms(1) [unfolded bn_mul_add_words_def]] l
  by (simp_all add: weighted_zip weighted_scale bn_val_weighted)

lemma bn_sqr_words_rolled: "bn_sqr_words a = concat (map (\<lambda>x. case sqr_w x of (r0, r1) \<Rightarrow> [r0, r1]) a)"
  by (induction a rule: bn_sqr_words.induct) (simp_all split: prod.splits)

lemma bn_sqr_words_val:
  "length (bn_sqr_words a) = 2 * length a \<and> bn_val (bn_sqr_words a) = foldr (\<lambda>x n. uint x * uint x + radix * radix * n) a 0"
proof (induction a)
  case (Cons x a)
  obtain r0 r1 where r: "sqr_w x = (r0, r1)" by (rule prod.exhaust)
  have "bn_val (bn_sqr_words (x # a)) = (uint r0 + radix * uint r1) + radix * radix * bn_val (bn_sqr_words a)"
    by (simp add: bn_sqr_words_rolled r algebra_simps)
  with Cons show ?case unfolding sqr_w_val [OF r] by (simp add: bn_sqr_words_rolled r)
qed simp

subsection \<open>Addition and subtraction\<close>

interpretation add: carry_chain add_step "\<lambda>(a, b). uint a + uint b" uint "\<lambda>ll. uint ll \<le> 1"
proof (unfold_locales, goal_cases)
  case (1 ll ab r ll')
  obtain a b where ab: "ab = (a, b)" by (rule prod.exhaust)
  have small: "uint ll + (uint a + uint b) \<le> 1 + ((radix - 1) + (radix - 1))"
    using 1(1) uint_limb_le [of a] uint_limb_le [of b] by linarith
  also have "\<dots> < radix * radix" by (simp add: radix_def)
  finally have "(uint ll + (uint a + uint b)) mod 2 ^ 128 = uint ll + (uint a + uint b)" by (intro ullong_mod) simp_all
  then have t: "uint (ll + (ucast a + ucast b)) = uint ll + (uint a + uint b)"
    by (simp add: uint_word_ariths uint_ucast_limb mod_simps)
  have r: "r = Lw (ll + (ucast a + ucast b))" "ll' = drop_bit 64 (ll + (ucast a + ucast b))"
    using 1(2) by (simp_all add: ab add_step_def Lw_def Let_def)
  have "uint ll' \<le> 1" using small by (simp add: r ullong_halves t radix_def)
  then show ?case by (simp add: r ullong_halves t ab add.commute)
qed

lemma bn_add_words_val:
  assumes "bn_add_words a b = (r, c)" and l: "length a = length b"
  shows "length r = length a" "uint c \<le> 1" "bn_val r + radix ^ length a * uint c = bn_val a + bn_val b"
proof -
  obtain ll where ll: "words4 add_step (zip a b) 0 = (r, ll)" "c = ucast ll"
    using assms(1) by (auto simp: bn_add_words_def split: prod.splits)
  from add.chain4 [OF _ ll(1)] l have c: "uint ll \<le> 1" "length r = length a"
    "bn_val r + radix ^ length a * uint ll = bn_val a + bn_val b" by (simp_all add: weighted_zip bn_val_weighted)
  have "uint c = uint ll" using c(1) ll(2)
    by (simp add: unsigned_ucast_eq take_bit_eq_mod)
  with c show "length r = length a" "uint c \<le> 1" "bn_val r + radix ^ length a * uint c = bn_val a + bn_val b" by simp_all
qed

lemma limb_0_1: "uint (c :: limb) \<le> 1 \<Longrightarrow> c = 0 \<or> c = 1"
proof -
  assume "uint c \<le> 1"
  moreover have "0 \<le> uint c" by simp
  ultimately have "uint c = 0 \<or> uint c = 1" by linarith
  then have "uint c = uint (0 :: limb) \<or> uint c = uint (1 :: limb)" by simp
  then show ?thesis by (blast intro: unsigned_word_eqI)
qed

lemma mod_borrow: "- radix \<le> x \<Longrightarrow> x < radix \<Longrightarrow> x mod radix = (if x < 0 then x + radix else x)"
  using mod_add_self2 [of x radix] by (cases "x < 0") (simp_all del: mod_add_self2)

lemma sub_step_val:
  assumes "uint c \<le> 1" "sub_step (a, b) c = (r, c')"
  shows "uint c' \<le> 1 \<and> uint r - radix * uint c' = uint a - uint b - uint c"
proof -
  have r: "r = a - b - c" "c' = (if a \<noteq> b then if a < b then 1 else 0 else c)" using assms(2) by (simp_all add: sub_step_def)
  have "uint r = (uint a - uint b - uint c) mod radix"
    by (simp add: r radix_def uint_word_ariths mod_simps)
  moreover have "- radix \<le> uint a - uint b - uint c" "uint a - uint b - uint c < radix"
    using assms(1) uint_limb [of a] uint_limb_le [of b] uint_limb(1) [of b] uint_limb(1) [of c] by linarith+
  ultimately have ur: "uint r = (if uint a - uint b - uint c < 0 then uint a - uint b - uint c + radix else uint a - uint b - uint c)"
    by (simp add: mod_borrow)
  have "uint c' = (if uint a - uint b - uint c < 0 then 1 else 0)"
  proof (cases "a = b")
    case True
    then show ?thesis using limb_0_1 [OF assms(1)] r(2) by auto
  next
    case False
    then have "uint a \<noteq> uint b" by (auto dest: unsigned_word_eqI)
    moreover have "0 \<le> uint c" by simp
    ultimately have "uint a - uint b - uint c < 0 \<longleftrightarrow> uint a < uint b" using assms(1) by linarith
    then show ?thesis using False r(2) by (simp add: word_less_def)
  qed
  with ur show ?thesis by simp
qed

interpretation sub: carry_chain sub_step "\<lambda>(a, b). uint a - uint b" "\<lambda>c. - uint c" "\<lambda>c. uint c \<le> 1"
  by unfold_locales (auto dest: sub_step_val)

lemma weighted_diff: "length xs = length ys \<Longrightarrow> weighted (\<lambda>(x, y). f x - g y) (zip xs ys) = weighted f xs - weighted g ys"
  by (induction xs ys rule: list_induct2) (simp_all add: right_diff_distrib)

lemma bn_sub_words_val:
  assumes "bn_sub_words a b = (r, c)" and l: "length a = length b"
  shows "length r = length a" "uint c \<le> 1" "bn_val r - radix ^ length a * uint c = bn_val a - bn_val b"
  using sub.chain4 [OF _ assms(1) [unfolded bn_sub_words_def]] l by (simp_all add: weighted_diff bn_val_weighted)

lemma bn_select_words_mask:
  "length a = length b \<Longrightarrow> bn_select_words (mask_of p) a b = (if p then a else b)"
  by (induction a b rule: list_induct2) (simp_all add: bn_select_words_def constant_time)

end
