(* ===== verification/Bn.thy ===== *)
theory Bn
  imports Bn_Words Mem
begin

text \<open>
  Model of \<^verbatim>\<open>fipsmodule/bn/bn.c\<close>. A \<^verbatim>\<open>BIGNUM\<close> has an array \<open>bn_d\<close> of \<^verbatim>\<open>dmax\<close> words, of which the first
  \<open>bn_width\<close> count; its value is the integer \<open>bn_int\<close>. An operation that writes a \<^verbatim>\<open>BIGNUM\<close> returns it
  with \<open>None\<close> for the return value 0. Operands are passed by value: each operation reads its operands
  before it overwrites them, so a call whose result is also an operand is the call on its value.
\<close>

record bignum =
  bn_d :: "limb list"
  bn_width :: nat
  bn_neg :: bool
  bn_static :: bool

section \<open>Memory\<close>

text \<open>The words of a block, in little-endian order.\<close>

definition words_of_bytes :: "byte list \<Rightarrow> limb list" where
  "words_of_bytes bs = map (\<lambda>i. word_of_nat (le_nat (take 8 (drop (8 * i) bs)))) [0..<length bs div 8]"

definition store :: "'a list \<Rightarrow> nat \<Rightarrow> 'a list \<Rightarrow> 'a list" where
  "store mem off xs = take off mem @ xs @ drop (off + length xs) mem"

lemma length_words_of_bytes [simp]: "length (words_of_bytes bs) = length bs div 8"
  by (simp add: words_of_bytes_def)

lemma length_store [simp]: "off + length xs \<le> length mem \<Longrightarrow> length (store mem off xs) = length mem"
  by (simp add: store_def)

lemma take_store: "off = 0 \<Longrightarrow> length xs \<le> n \<Longrightarrow> length xs \<le> length mem \<Longrightarrow> take n (store mem off xs) = xs @ take (n - length xs) (drop (length xs) mem)"
  by (simp add: store_def)

lemma take_store_0 [simp]: "take (length xs) (store mem 0 xs) = xs"
  by (simp add: store_def)

section \<open>Allocation and width\<close>

abbreviation (input) sizeof_BIGNUM :: nat where "sizeof_BIGNUM \<equiv> 24"
abbreviation (input) INT_LIMIT :: nat where "INT_LIMIT \<equiv> 2147483647"

definition BN_init :: bignum where
  "BN_init = \<lparr>bn_d = [], bn_width = 0, bn_neg = False, bn_static = False\<rparr>"

definition BN_new :: "allocator \<Rightarrow> bignum option" where
  "BN_new A = (case OPENSSL_malloc A sizeof_BIGNUM of None \<Rightarrow> None | Some _ \<Rightarrow> Some BN_init)"

definition bn_wexpand :: "allocator \<Rightarrow> bignum \<Rightarrow> size_t \<Rightarrow> unit option \<times> bignum" where
  "bn_wexpand A bn words =
     (if words \<le> length (bn_d bn) then (Some (), bn)
      else if words > INT_LIMIT div (4 * 64) then (None, bn)
      else if bn_static bn then (None, bn)
      else case OPENSSL_malloc A (8 * words) of
             None \<Rightarrow> (None, bn)
           | Some a \<Rightarrow> (Some (), bn\<lparr>bn_d := store (words_of_bytes (blk_body a)) 0 (take (bn_width bn) (bn_d bn))\<rparr>))"

definition bn_expand :: "allocator \<Rightarrow> bignum \<Rightarrow> size_t \<Rightarrow> unit option \<times> bignum" where
  "bn_expand A bn bits =
     (if size_wrap (bits + 64 - 1) < bits then (None, bn)
      else bn_wexpand A bn (size_wrap (bits + 64 - 1) div 64))"

definition BN_copy :: "allocator \<Rightarrow> bignum \<Rightarrow> bignum \<Rightarrow> unit option \<times> bignum" where
  "BN_copy A dest src =
     andthen (bn_wexpand A dest (bn_width src)) (\<lambda>_ dest.
       (Some (), dest\<lparr>bn_d := store (bn_d dest) 0 (take (bn_width src) (bn_d src)),
                      bn_width := bn_width src, bn_neg := bn_neg src\<rparr>))"

definition BN_dup :: "allocator \<Rightarrow> bignum \<Rightarrow> bignum option" where
  "BN_dup A src =
     (case BN_new A of
        None \<Rightarrow> None
      | Some copy \<Rightarrow> (case BN_copy A copy src of (None, _) \<Rightarrow> None | (Some _, copy) \<Rightarrow> Some copy))"

definition BN_clear :: "bignum \<Rightarrow> bignum" where
  "BN_clear bn = bn\<lparr>bn_d := replicate (length (bn_d bn)) 0, bn_width := 0, bn_neg := False\<rparr>"

definition BN_value_one :: bignum where
  "BN_value_one = \<lparr>bn_d = [1], bn_width = 1, bn_neg = False, bn_static = True\<rparr>"

definition BN_zero :: "bignum \<Rightarrow> bignum" where
  "BN_zero bn = bn\<lparr>bn_width := 0, bn_neg := False\<rparr>"

definition BN_set_word :: "allocator \<Rightarrow> bignum \<Rightarrow> limb \<Rightarrow> unit option \<times> bignum" where
  "BN_set_word A bn value =
     (if value = 0 then (Some (), BN_zero bn)
      else andthen (bn_wexpand A bn 1) (\<lambda>_ bn.
             (Some (), bn\<lparr>bn_neg := False, bn_d := (bn_d bn)[0 := value], bn_width := 1\<rparr>)))"

definition BN_one :: "allocator \<Rightarrow> bignum \<Rightarrow> unit option \<times> bignum" where
  "BN_one A bn = BN_set_word A bn 1"

definition BN_set_u64 :: "allocator \<Rightarrow> bignum \<Rightarrow> u64 \<Rightarrow> unit option \<times> bignum" where
  "BN_set_u64 A bn value = BN_set_word A bn value"

definition bn_set_words :: "allocator \<Rightarrow> bignum \<Rightarrow> limb list \<Rightarrow> unit option \<times> bignum" where
  "bn_set_words A bn words =
     andthen (bn_wexpand A bn (length words)) (\<lambda>_ bn.
       (Some (), bn\<lparr>bn_d := store (bn_d bn) 0 words, bn_width := length words, bn_neg := False\<rparr>))"

definition bn_fits_in_words :: "bignum \<Rightarrow> size_t \<Rightarrow> bool" where
  "bn_fits_in_words bn num = (foldl (OR) 0 (drop num (take (bn_width bn) (bn_d bn))) = 0)"

definition bn_copy_words :: "size_t \<Rightarrow> bignum \<Rightarrow> limb list option" where
  "bn_copy_words num bn =
     (if bn_neg bn then None
      else if bn_width bn > num \<and> \<not> bn_fits_in_words bn num then None
      else let w = (if bn_width bn > num then num else bn_width bn)
           in Some (store (replicate num 0) 0 (take w (bn_d bn))))"

definition BN_is_negative :: "bignum \<Rightarrow> bool" where
  "BN_is_negative bn = bn_neg bn"

definition BN_is_zero :: "bignum \<Rightarrow> bool" where
  "BN_is_zero bn = bn_fits_in_words bn 0"

definition BN_set_negative :: "bignum \<Rightarrow> bool \<Rightarrow> bignum" where
  "BN_set_negative bn sg = (if sg \<and> \<not> BN_is_zero bn then bn\<lparr>bn_neg := True\<rparr> else bn\<lparr>bn_neg := False\<rparr>)"

definition bn_resize_words :: "allocator \<Rightarrow> bignum \<Rightarrow> size_t \<Rightarrow> unit option \<times> bignum" where
  "bn_resize_words A bn words =
     (if bn_width bn \<le> words then
        andthen (bn_wexpand A bn words) (\<lambda>_ bn.
          (Some (), bn\<lparr>bn_d := store (bn_d bn) (bn_width bn) (replicate (words - bn_width bn) 0), bn_width := words\<rparr>))
      else if \<not> bn_fits_in_words bn words then (None, bn)
      else (Some (), bn\<lparr>bn_width := words\<rparr>))"

fun minimal_width_loop :: "limb list \<Rightarrow> nat \<Rightarrow> nat" where
  "minimal_width_loop d 0 = 0"
| "minimal_width_loop d (Suc ret) = (if d ! ret = 0 then minimal_width_loop d ret else Suc ret)"

definition bn_minimal_width :: "bignum \<Rightarrow> nat" where
  "bn_minimal_width bn = minimal_width_loop (bn_d bn) (bn_width bn)"

definition bn_set_minimal_width :: "bignum \<Rightarrow> bignum" where
  "bn_set_minimal_width bn =
     (let bn = bn\<lparr>bn_width := bn_minimal_width bn\<rparr>
      in if bn_width bn = 0 then bn\<lparr>bn_neg := False\<rparr> else bn)"

section \<open>Bit lengths\<close>

text \<open>One block of \<^verbatim>\<open>BN_num_bits_word\<close>, for the shift \<open>k\<close>.\<close>

definition num_bits_block :: "nat \<Rightarrow> nat \<times> limb \<Rightarrow> nat \<times> limb" where
  "num_bits_block k st =
     (case st of (bits, l) \<Rightarrow>
        let x = drop_bit k l;
            m = 0 - x;
            m = 0 - drop_bit (64 - 1) m
        in (bits + unat (word_of_nat k AND m), l XOR ((x XOR l) AND m)))"

definition BN_num_bits_word :: "limb \<Rightarrow> nat" where
  "BN_num_bits_word l =
     (let st = (if l \<noteq> 0 then 1 else 0, l);
          st = num_bits_block 32 st; st = num_bits_block 16 st; st = num_bits_block 8 st;
          st = num_bits_block 4 st; st = num_bits_block 2 st
      in fst (num_bits_block 1 st))"

definition BN_num_bits :: "bignum \<Rightarrow> nat" where
  "BN_num_bits bn =
     (let w = bn_minimal_width bn
      in if w = 0 then 0 else (w - 1) * 64 + BN_num_bits_word (bn_d bn ! (w - 1)))"

definition BN_num_bytes :: "bignum \<Rightarrow> nat" where
  "BN_num_bytes bn = (BN_num_bits bn + 7) div 8"

section \<open>As an integer\<close>

definition bn_ok :: "bignum \<Rightarrow> bool" where
  "bn_ok bn \<longleftrightarrow> bn_width bn \<le> length (bn_d bn)"

definition bn_limbs :: "bignum \<Rightarrow> limb list" where
  "bn_limbs bn = take (bn_width bn) (bn_d bn)"

definition bn_abs :: "bignum \<Rightarrow> int" where
  "bn_abs bn = bn_val (bn_limbs bn)"

definition bn_int :: "bignum \<Rightarrow> int" where
  "bn_int bn = (if bn_neg bn then - bn_abs bn else bn_abs bn)"

lemma length_bn_limbs [simp]: "bn_ok bn \<Longrightarrow> length (bn_limbs bn) = bn_width bn"
  by (simp add: bn_ok_def bn_limbs_def)

lemma bn_abs_nonneg [simp]: "0 \<le> bn_abs bn"
  by (simp add: bn_abs_def)

lemma bn_abs_bound: "bn_ok bn \<Longrightarrow> bn_abs bn < radix ^ bn_width bn"
  using bn_val_bound [of "bn_limbs bn"] by (simp add: bn_abs_def)

named_theorems bn_simps

lemma bn_zero [bn_simps]: "bn_ok (BN_zero bn)" "bn_int (BN_zero bn) = 0" "bn_abs (BN_zero bn) = 0" "\<not> bn_neg (BN_zero bn)"
  by (simp_all add: bn_ok_def BN_zero_def bn_int_def bn_abs_def bn_limbs_def)

lemma bn_init [bn_simps]: "bn_ok BN_init" "bn_int BN_init = 0" "\<not> bn_static BN_init" "\<not> bn_neg BN_init"
  by (simp_all add: BN_init_def bn_ok_def bn_int_def bn_abs_def bn_limbs_def)

lemma bn_value_one [bn_simps]: "bn_ok BN_value_one" "bn_int BN_value_one = 1"
  by (simp_all add: BN_value_one_def bn_ok_def bn_int_def bn_abs_def bn_limbs_def)

text \<open>What \<^verbatim>\<open>bn_wexpand\<close> keeps, and when it succeeds.\<close>

lemma bn_wexpand_Some:
  assumes "bn_wexpand A bn n = (Some u, bn')" and A: "malloc_spec A" and ok: "bn_ok bn"
  shows "bn_ok bn'" "n \<le> length (bn_d bn')" "bn_limbs bn' = bn_limbs bn" "bn_width bn' = bn_width bn"
    "bn_neg bn' = bn_neg bn" "bn_static bn' = bn_static bn"
proof -
  consider "n \<le> length (bn_d bn)" "bn' = bn"
    | a where "length (bn_d bn) < n" "n \<le> INT_LIMIT div (4 * 64)" "OPENSSL_malloc A (8 * n) = Some a"
      "bn' = bn\<lparr>bn_d := store (words_of_bytes (blk_body a)) 0 (take (bn_width bn) (bn_d bn))\<rparr>"
    using assms(1) by (auto simp: bn_wexpand_def split: if_splits option.splits)
  then have "bn_ok bn' \<and> n \<le> length (bn_d bn') \<and> bn_limbs bn' = bn_limbs bn \<and> bn_width bn' = bn_width bn \<and>
    bn_neg bn' = bn_neg bn \<and> bn_static bn' = bn_static bn"
  proof cases
    case 1
    with ok show ?thesis by simp
  next
    case 2
    have "length (blk_body a) = 8 * n" using OPENSSL_malloc_size [OF A _ 2(3)] 2(2) by simp
    then show ?thesis using 2 ok by (simp add: bn_ok_def bn_limbs_def take_store)
  qed
  then show "bn_ok bn'" "n \<le> length (bn_d bn')" "bn_limbs bn' = bn_limbs bn" "bn_width bn' = bn_width bn"
    "bn_neg bn' = bn_neg bn" "bn_static bn' = bn_static bn" by simp_all
qed

lemma bn_wexpand_None: "bn_wexpand A bn n = (None, bn') \<Longrightarrow> bn' = bn"
  by (auto simp: bn_wexpand_def split: if_splits option.splits)

lemma bn_wexpand_total:
  assumes "\<forall>n. A n \<noteq> None" "\<not> bn_static bn" "n \<le> 8388607"
  shows "\<exists>bn'. bn_wexpand A bn n = (Some (), bn')"
proof -
  obtain blk where "A (size_wrap (8 * n + 8)) = Some blk" using assms(1) by blast
  then show ?thesis using assms(2,3) by (simp add: bn_wexpand_def OPENSSL_malloc_def)
qed

text \<open>The usual end of an operation: the words of a result are stored in a \<^verbatim>\<open>BIGNUM\<close> with the room for them.\<close>

lemma bn_stored [simp]:
  assumes "length ws \<le> length (bn_d bn)"
  shows "bn_ok (bn\<lparr>bn_d := store (bn_d bn) 0 ws, bn_width := length ws, bn_neg := s\<rparr>)"
    "bn_limbs (bn\<lparr>bn_d := store (bn_d bn) 0 ws, bn_width := length ws, bn_neg := s\<rparr>) = ws"
    "bn_ok (bn\<lparr>bn_d := store (bn_d bn) 0 ws, bn_width := length ws\<rparr>)"
    "bn_limbs (bn\<lparr>bn_d := store (bn_d bn) 0 ws, bn_width := length ws\<rparr>) = ws"
  using assms by (simp_all add: bn_ok_def bn_limbs_def)

section \<open>Widths\<close>

lemma foldl_or_zero: "foldl (OR) m ws = 0 \<longleftrightarrow> m = 0 \<and> (\<forall>w \<in> set ws. w = (0 :: 'a :: len word))"
  by (induction ws arbitrary: m) (auto simp: or_eq_0_iff)

lemma bn_fits_in_words: "bn_ok bn \<Longrightarrow> bn_fits_in_words bn n \<longleftrightarrow> bn_abs bn < radix ^ n"
proof -
  assume ok: "bn_ok bn"
  define hi lo where "hi = drop n (bn_limbs bn)" and "lo = take n (bn_limbs bn)"
  have v: "bn_abs bn = bn_val lo + radix ^ length lo * bn_val hi"
    using bn_val_append [of lo hi] by (simp add: bn_abs_def hi_def lo_def)
  have f: "bn_fits_in_words bn n \<longleftrightarrow> bn_val hi = 0"
    by (simp add: bn_fits_in_words_def foldl_or_zero bn_val_zero_iff hi_def bn_limbs_def)
  show ?thesis
  proof (cases "bn_width bn \<le> n")
    case True
    then have "hi = []" "length lo \<le> n" using ok by (simp_all add: hi_def lo_def)
    moreover have "radix ^ length lo \<le> radix ^ n" using \<open>length lo \<le> n\<close> by (intro power_increasing) simp_all
    then have "bn_val lo < radix ^ n" using bn_val_bound [of lo] by linarith
    ultimately show ?thesis using f v by simp
  next
    case False
    then have l: "length lo = n" using ok by (simp add: lo_def)
    have "radix ^ n \<le> bn_abs bn" if "bn_val hi \<noteq> 0"
    proof -
      have "1 \<le> bn_val hi" using that bn_val_nonneg [of hi] by linarith
      then have "radix ^ n * 1 \<le> radix ^ n * bn_val hi" by (intro mult_left_mono) simp_all
      then show ?thesis using v [unfolded l] bn_val_nonneg [of lo] by linarith
    qed
    moreover have "bn_val hi = 0 \<Longrightarrow> bn_abs bn < radix ^ n" using v l bn_val_bound [of lo] by simp
    ultimately show ?thesis using f by fastforce
  qed
qed

lemma bn_is_zero [bn_simps]: "bn_ok bn \<Longrightarrow> BN_is_zero bn \<longleftrightarrow> bn_abs bn = 0"
  using bn_fits_in_words [of bn 0] bn_abs_nonneg [of bn] by (auto simp: BN_is_zero_def simp del: bn_abs_nonneg)

lemma minimal_width_loop:
  "n \<le> length d \<Longrightarrow> minimal_width_loop d n \<le> n \<and> bn_val (take (minimal_width_loop d n) d) = bn_val (take n d) \<and>
   (minimal_width_loop d n > 0 \<longrightarrow> d ! (minimal_width_loop d n - 1) \<noteq> 0)"
proof (induction n)
  case (Suc n)
  then show ?case by (auto simp: take_Suc_conv_app_nth bn_val_append)
qed simp

lemma bn_minimal_width:
  assumes "bn_ok bn"
  shows "bn_minimal_width bn \<le> bn_width bn" "bn_val (take (bn_minimal_width bn) (bn_d bn)) = bn_abs bn"
    "bn_minimal_width bn > 0 \<Longrightarrow> bn_d bn ! (bn_minimal_width bn - 1) \<noteq> 0"
  using minimal_width_loop [of "bn_width bn" "bn_d bn"] assms
  by (simp_all add: bn_minimal_width_def bn_ok_def bn_abs_def bn_limbs_def)

lemma bn_minimal_width_zero_iff: "bn_ok bn \<Longrightarrow> bn_minimal_width bn = 0 \<longleftrightarrow> bn_abs bn = 0"
proof
  assume ok: "bn_ok bn" and z: "bn_abs bn = 0"
  show "bn_minimal_width bn = 0"
  proof (rule ccontr)
    assume nz: "bn_minimal_width bn \<noteq> 0"
    then have "bn_d bn ! (bn_minimal_width bn - 1) \<in> set (take (bn_minimal_width bn) (bn_d bn))"
      using bn_minimal_width(1) [OF ok] ok by (intro in_set_conv_nth [THEN iffD2] exI [of _ "bn_minimal_width bn - 1"]) (simp add: bn_ok_def)
    with nz bn_minimal_width(2,3) [OF ok] z bn_val_zero_iff [of "take (bn_minimal_width bn) (bn_d bn)"] show False by simp
  qed
next
  assume "bn_ok bn" "bn_minimal_width bn = 0"
  then show "bn_abs bn = 0" using bn_minimal_width(2) [of bn] by simp
qed

lemma bn_set_minimal_width [bn_simps]:
  assumes "bn_ok bn"
  shows "bn_ok (bn_set_minimal_width bn)" "bn_abs (bn_set_minimal_width bn) = bn_abs bn"
    "bn_int (bn_set_minimal_width bn) = bn_int bn" "bn_static (bn_set_minimal_width bn) = bn_static bn"
    "bn_d (bn_set_minimal_width bn) = bn_d bn" "bn_width (bn_set_minimal_width bn) = bn_minimal_width bn"
    "bn_neg (bn_set_minimal_width bn) \<longleftrightarrow> bn_neg bn \<and> bn_abs bn \<noteq> 0"
proof -
  note m = bn_minimal_width [OF assms] bn_minimal_width_zero_iff [OF assms]
  show ok: "bn_ok (bn_set_minimal_width bn)" using m(1) assms by (simp add: bn_set_minimal_width_def bn_ok_def Let_def)
  show a: "bn_abs (bn_set_minimal_width bn) = bn_abs bn"
    unfolding bn_abs_def [of "bn_set_minimal_width bn"] using m(2,4) by (simp add: bn_set_minimal_width_def bn_limbs_def Let_def)
  show "bn_neg (bn_set_minimal_width bn) \<longleftrightarrow> bn_neg bn \<and> bn_abs bn \<noteq> 0" using m(4) by (simp add: bn_set_minimal_width_def Let_def)
  then show "bn_int (bn_set_minimal_width bn) = bn_int bn" using a by (simp add: bn_int_def)
  show "bn_static (bn_set_minimal_width bn) = bn_static bn" "bn_d (bn_set_minimal_width bn) = bn_d bn"
    "bn_width (bn_set_minimal_width bn) = bn_minimal_width bn" by (simp_all add: bn_set_minimal_width_def Let_def)
qed

section \<open>The operations as integer operations\<close>

lemma BN_copy_Some:
  assumes "BN_copy A dest src = (Some u, r)" "malloc_spec A" "bn_ok dest" "bn_ok src"
  shows "bn_ok r" "bn_limbs r = bn_limbs src" "bn_int r = bn_int src" "bn_width r = bn_width src" "bn_neg r = bn_neg src"
proof -
  obtain d where d: "bn_wexpand A dest (bn_width src) = (Some (), d)"
    "r = d\<lparr>bn_d := store (bn_d d) 0 (bn_limbs src), bn_width := bn_width src, bn_neg := bn_neg src\<rparr>"
    using assms(1) by (auto simp: BN_copy_def bn_limbs_def elim!: andthen_SomeE)
  have l: "length (bn_limbs src) = bn_width src" using assms(4) by simp
  note w = bn_wexpand_Some [OF d(1) assms(2,3)]
  show "bn_ok r" "bn_limbs r = bn_limbs src" "bn_width r = bn_width src" "bn_neg r = bn_neg src"
    using bn_stored(1,2) [of "bn_limbs src" d "bn_neg src"] w(2) by (simp_all add: l d(2))
  then show "bn_int r = bn_int src" by (simp add: bn_int_def bn_abs_def)
qed

lemma BN_set_word_Some:
  assumes "BN_set_word A bn v = (Some u, r)" "malloc_spec A" "bn_ok bn"
  shows "bn_ok r" "bn_int r = uint v"
proof -
  have "bn_ok r \<and> bn_int r = uint v"
  proof (cases "v = 0")
    case True
    with assms show ?thesis by (auto simp: BN_set_word_def bn_simps)
  next
    case False
    then obtain d where d: "bn_wexpand A bn 1 = (Some (), d)" "r = d\<lparr>bn_neg := False, bn_d := (bn_d d)[0 := v], bn_width := 1\<rparr>"
      using assms(1) by (auto simp: BN_set_word_def elim!: andthen_SomeE)
    have "1 \<le> length (bn_d d)" using bn_wexpand_Some(2) [OF d(1) assms(2,3)] .
    then show ?thesis by (cases "bn_d d") (simp_all add: d(2) bn_ok_def bn_int_def bn_abs_def bn_limbs_def)
  qed
  then show "bn_ok r" "bn_int r = uint v" by simp_all
qed

lemma bn_set_words_Some:
  assumes "bn_set_words A bn ws = (Some u, r)" "malloc_spec A" "bn_ok bn"
  shows "bn_ok r" "bn_int r = bn_val ws" "bn_limbs r = ws"
proof -
  obtain d where d: "bn_wexpand A bn (length ws) = (Some (), d)"
    "r = d\<lparr>bn_d := store (bn_d d) 0 ws, bn_width := length ws, bn_neg := False\<rparr>"
    using assms(1) by (auto simp: bn_set_words_def elim!: andthen_SomeE)
  show "bn_ok r" "bn_limbs r = ws" using bn_stored(1,2) [of ws d False] bn_wexpand_Some(2) [OF d(1) assms(2,3)] by (simp_all add: d(2))
  then show "bn_int r = bn_val ws" by (simp add: bn_int_def bn_abs_def d(2))
qed

lemma bn_copy_words_exact:
  assumes "bn_ok bn"
  shows "bn_copy_words num bn = Some ws \<longleftrightarrow> \<not> bn_neg bn \<and> length ws = num \<and> bn_val ws = bn_int bn"
proof -
  define w where "w = (if bn_width bn > num then num else bn_width bn)"
  define ls where "ls = take w (bn_d bn)"
  have w: "w \<le> num" "length ls = w" using assms by (simp_all add: w_def ls_def bn_ok_def)
  have val: "bn_val (store (replicate num 0) 0 ls) = bn_val ls" "length (store (replicate num 0) 0 ls) = num"
    using w by (simp_all add: store_def bn_val_append)
  have bound: "bn_fits_in_words bn num \<longleftrightarrow> bn_abs bn < radix ^ num" by (rule bn_fits_in_words [OF assms])
  have ls: "bn_val ls = bn_abs bn" if "bn_abs bn < radix ^ num"
  proof (cases "bn_width bn > num")
    case True
    then have "bn_fits_in_words bn num" using that bound by simp
    then have "bn_val (drop num (bn_limbs bn)) = 0" by (simp add: bn_fits_in_words_def foldl_or_zero bn_val_zero_iff bn_limbs_def)
    moreover have "bn_limbs bn = ls @ drop num (bn_limbs bn)"
      using True append_take_drop_id [of num "bn_limbs bn"] by (simp add: ls_def w_def bn_limbs_def min_def)
    ultimately show ?thesis unfolding bn_abs_def using bn_val_append [of ls "drop num (bn_limbs bn)"] by simp
  qed (simp add: ls_def w_def bn_abs_def bn_limbs_def)
  have fits: "bn_width bn \<le> num \<Longrightarrow> bn_abs bn < radix ^ num"
    using bn_abs_bound [OF assms] power_increasing [of "bn_width bn" num radix] by (meson less_le_trans radix_pos)
  have r: "bn_copy_words num bn =
    (if \<not> bn_neg bn \<and> bn_abs bn < radix ^ num then Some (store (replicate num 0) 0 ls) else None)"
    using bound fits by (auto simp: bn_copy_words_def Let_def ls_def w_def)
  show ?thesis
  proof
    assume "bn_copy_words num bn = Some ws"
    with r val ls show "\<not> bn_neg bn \<and> length ws = num \<and> bn_val ws = bn_int bn" by (auto simp: bn_int_def split: if_splits)
  next
    assume ws: "\<not> bn_neg bn \<and> length ws = num \<and> bn_val ws = bn_int bn"
    then have "bn_abs bn < radix ^ num" using bn_val_bound [of ws] by (simp add: bn_int_def)
    with ws r val ls show "bn_copy_words num bn = Some ws" using bn_val_inject [of "store (replicate num 0) 0 ls" ws] by (simp add: bn_int_def)
  qed
qed

section \<open>Lengths\<close>

fun bit_length :: "nat \<Rightarrow> nat" where
  "bit_length n = (if n = 0 then 0 else Suc (bit_length (n div 2)))"

declare bit_length.simps [simp del]

lemma bit_length_0 [simp]: "bit_length 0 = 0"
  by (simp add: bit_length.simps)

lemma bit_length_shift: "n div 2 ^ k \<noteq> 0 \<Longrightarrow> bit_length n = k + bit_length (n div 2 ^ k)"
proof (induction k arbitrary: n)
  case (Suc k)
  then have "(n div 2) div 2 ^ k \<noteq> 0" by (simp add: div_mult2_eq)
  moreover from this have "n \<noteq> 0" by (metis div_0)
  ultimately have "(n div 2) div 2 ^ k \<noteq> 0" "n \<noteq> 0" .
  with Suc.IH [of "n div 2"] show ?case by (subst bit_length.simps) (simp add: div_mult2_eq)
qed simp

lemma bit_length_bounds: "n < 2 ^ bit_length n \<and> (n \<noteq> 0 \<longrightarrow> 2 ^ (bit_length n - 1) \<le> n)"
proof (induction n rule: bit_length.induct)
  case (1 n)
  show ?case
  proof (cases "n = 0")
    case False
    define k where "k = bit_length (n div 2)"
    have b: "bit_length n = Suc k" using False by (simp add: bit_length.simps [of n] k_def)
    have "n div 2 < 2 ^ k" using 1 [OF False] by (simp add: k_def)
    then have "n < 2 ^ Suc k" by simp
    moreover have "2 ^ k \<le> n"
    proof (cases "n div 2 = 0")
      case True
      then show ?thesis using False by (simp add: k_def)
    next
      case h: False
      then have "2 ^ (k - 1) \<le> n div 2" using 1 [OF False] by (simp add: k_def)
      moreover have "k > 0" using h by (simp add: k_def bit_length.simps [of "n div 2"])
      ultimately show ?thesis by (cases k) simp_all
    qed
    ultimately show ?thesis using b by simp
  qed simp
qed

lemma bit_length_unique: "n < 2 ^ k \<Longrightarrow> 0 < k \<Longrightarrow> 2 ^ (k - 1) \<le> n \<Longrightarrow> bit_length n = k"
proof -
  assume a: "n < 2 ^ k" "0 < k" "2 ^ (k - 1) \<le> n"
  then have n: "n \<noteq> 0" by (metis not_one_le_zero one_le_numeral one_le_power order_trans)
  note b = bit_length_bounds [of n]
  have "(2 :: nat) ^ (k - 1) < 2 ^ bit_length n" "(2 :: nat) ^ (bit_length n - 1) < 2 ^ k"
    using a b n by (metis order_le_less_trans)+
  then have "k - 1 < bit_length n" "bit_length n - 1 < k" by simp_all
  then show ?thesis using a(2) by linarith
qed

lemma num_bits_block:
  assumes "unat l < 2 ^ (2 * k)" "0 < k" "k \<le> 32"
  shows "num_bits_block k (bits, l) = (if unat l < 2 ^ k then (bits, l) else (bits + k, drop_bit k l))"
    "unat l < 2 ^ k \<or> unat (drop_bit k l) < 2 ^ k"
proof -
  define x where "x = drop_bit k l"
  have x: "unat x = unat l div 2 ^ k" by (simp add: x_def unat_drop_bit)
  have "unat l < 2 ^ k * 2 ^ k" using assms(1) by (simp add: mult_2 flip: power_add)
  then have xl: "unat x < 2 ^ k" unfolding x by (simp add: less_mult_imp_div_less)
  then show "unat l < 2 ^ k \<or> unat (drop_bit k l) < 2 ^ k" by (simp add: x_def)
  have "(2 :: nat) ^ k \<le> 2 ^ 32" using assms(3) by (intro power_increasing) simp_all
  with xl have x32: "unat x < 2 ^ 32" by linarith
  have m: "0 - drop_bit 63 (0 - x) = mask_of (x \<noteq> 0)"
  proof -
    have "unat (0 - x) = (if x = 0 then 0 else 2 ^ 64 - unat x)" using unat_word_minus [of 0 x] by (auto simp: unat_eq_0)
    then have "2 ^ 63 \<le> unat (0 - x) \<longleftrightarrow> x \<noteq> 0" using x32 by auto
    then show ?thesis using msb_of [of "0 - x"] by (simp add: constant_time_msb_w_def)
  qed
  have x0: "x = 0 \<longleftrightarrow> unat l < 2 ^ k" by (simp add: x_def drop_bit_zero_iff)
  have "num_bits_block k (bits, l) = (bits + unat (word_of_nat k AND mask_of (x \<noteq> 0) :: limb), l XOR ((x XOR l) AND mask_of (x \<noteq> 0)))"
    unfolding num_bits_block_def x_def [symmetric] prod.case Let_def using m by simp
  moreover have "unat (word_of_nat k :: limb) = k" using assms(3) by (simp add: unat_of_nat)
  ultimately show "num_bits_block k (bits, l) = (if unat l < 2 ^ k then (bits, l) else (bits + k, drop_bit k l))"
    using x0 by (simp add: x_def xor.commute xor.left_commute)
qed

text \<open>A block keeps the number of bits counted and still to count, and halves the bound on the rest.\<close>

lemma num_bits_block_count:
  assumes "unat l < 2 ^ (2 * k)" "0 < k" "k \<le> 32" "num_bits_block k (bits, l) = (bits', l')"
    and "l \<noteq> 0"
  shows "unat l' < 2 ^ k \<and> bits' + bit_length (unat l') = bits + bit_length (unat l) \<and> l' \<noteq> 0"
proof (cases "unat l < 2 ^ k")
  case True
  with assms num_bits_block(1) [OF assms(1-3), of bits] show ?thesis by simp
next
  case False
  then have "drop_bit k l \<noteq> 0" by (simp add: drop_bit_zero_iff)
  moreover from this have "unat l div 2 ^ k \<noteq> 0" by (simp flip: unat_drop_bit add: unat_eq_0)
  ultimately show ?thesis using False assms(4) num_bits_block(1) [OF assms(1-3), of bits] num_bits_block(2) [OF assms(1-3)] bit_length_shift [of "unat l" k]
    by (auto simp: unat_drop_bit)
qed

lemma BN_num_bits_word: "BN_num_bits_word l = bit_length (unat l)"
proof (cases "l = 0")
  case True
  then show ?thesis by (simp add: BN_num_bits_word_def num_bits_block_def Let_def)
next
  case False
  have l: "unat l < 2 ^ (2 * 32)" using unsigned_less [of l, where 'a = nat] by simp
  obtain b1 l1 where 1: "num_bits_block 32 (1, l) = (b1, l1)" by (rule prod.exhaust)
  obtain b2 l2 where 2: "num_bits_block 16 (b1, l1) = (b2, l2)" by (rule prod.exhaust)
  obtain b3 l3 where 3: "num_bits_block 8 (b2, l2) = (b3, l3)" by (rule prod.exhaust)
  obtain b4 l4 where 4: "num_bits_block 4 (b3, l3) = (b4, l4)" by (rule prod.exhaust)
  obtain b5 l5 where 5: "num_bits_block 2 (b4, l4) = (b5, l5)" by (rule prod.exhaust)
  obtain b6 l6 where 6: "num_bits_block 1 (b5, l5) = (b6, l6)" by (rule prod.exhaust)
  note n1 = num_bits_block_count [OF l _ _ 1 False]
  note n2 = num_bits_block_count [of l1 16, OF _ _ _ 2]
  note n3 = num_bits_block_count [of l2 8, OF _ _ _ 3]
  note n4 = num_bits_block_count [of l3 4, OF _ _ _ 4]
  note n5 = num_bits_block_count [of l4 2, OF _ _ _ 5]
  note n6 = num_bits_block_count [of l5 1, OF _ _ _ 6]
  have r: "unat l6 < 2 \<and> l6 \<noteq> 0 \<and> b6 + bit_length (unat l6) = 1 + bit_length (unat l)"
    using n1 n2 n3 n4 n5 n6 by simp
  then have "unat l6 = 1" using unat_eq_0 [of l6] by linarith
  moreover have "bit_length 1 = 1" by (subst bit_length.simps) simp
  moreover have "BN_num_bits_word l = b6" using False by (simp add: BN_num_bits_word_def Let_def 1 2 3 4 5 6 del: One_nat_def)
  ultimately show ?thesis using r by simp
qed

lemma radix_power: "radix ^ k = 2 ^ (64 * k)"
  by (simp add: radix_def power_mult)

lemma bit_length_mult_add:
  assumes "h \<noteq> 0" "m < 2 ^ k"
  shows "bit_length (h * 2 ^ k + m) = k + bit_length h"
  using assms bit_length_shift [of "h * 2 ^ k + m" k] by simp

lemma BN_num_bits:
  assumes "bn_ok bn"
  shows "BN_num_bits bn = bit_length (nat (bn_abs bn))"
proof (cases "bn_minimal_width bn = 0")
  case True
  then show ?thesis using bn_minimal_width_zero_iff [OF assms] by (simp add: BN_num_bits_def)
next
  case False
  define k where "k = bn_minimal_width bn - 1"
  define top where "top = bn_d bn ! k"
  define lo where "lo = take k (bn_d bn)"
  note m = bn_minimal_width [OF assms]
  have k: "bn_minimal_width bn = Suc k" "k < length (bn_d bn)" using False m(1) assms by (simp_all add: k_def bn_ok_def)
  have nz: "top \<noteq> 0" using m(3) False by (simp add: top_def k_def)
  have l: "length lo = k" using k by (simp add: lo_def)
  have "bn_abs bn = bn_val (lo @ [top])" using m(2) k by (simp add: lo_def top_def take_Suc_conv_app_nth)
  then have v: "bn_abs bn = bn_val lo + radix ^ k * uint top" by (simp add: bn_val_append l)
  have "int (nat (bn_val lo)) < int (2 ^ (64 * k))" using bn_val_bound [of lo] by (simp add: l radix_power)
  then have "nat (bn_val lo) < 2 ^ (64 * k)" unfolding of_nat_less_iff .
  moreover have "bn_abs bn = int (unat top * 2 ^ (64 * k) + nat (bn_val lo))"
    unfolding v radix_power by (simp add: mult.commute)
  then have "nat (bn_abs bn) = unat top * 2 ^ (64 * k) + nat (bn_val lo)" by (simp only: nat_int)
  moreover have "BN_num_bits bn = 64 * k + bit_length (unat top)"
    by (simp add: BN_num_bits_def k(1) Let_def BN_num_bits_word top_def)
  moreover have "unat top \<noteq> 0" using nz by (simp add: unat_eq_0)
  ultimately show ?thesis using bit_length_mult_add by simp
qed

section \<open>Sample numbers\<close>

definition sample_bn :: "limb list \<Rightarrow> bool \<Rightarrow> bignum" where
  "sample_bn ws s = \<lparr>bn_d = ws, bn_width = length ws, bn_neg = s, bn_static = False\<rparr>"

lemma sample_bn: "bn_ok (sample_bn ws s)" "bn_abs (sample_bn ws s) = bn_val ws" "\<not> bn_static (sample_bn ws s)"
  "bn_width (sample_bn ws s) = length ws" "bn_neg (sample_bn ws s) = s"
  by (simp_all add: sample_bn_def bn_ok_def bn_abs_def bn_limbs_def)

definition zero_malloc :: allocator where
  "zero_malloc n = Some (replicate n 0)"

lemma zero_malloc: "malloc_spec zero_malloc" "\<forall>n. zero_malloc n \<noteq> None"
  by (simp_all add: malloc_spec_def zero_malloc_def)

end
