(* ===== verification/Bn_Cmp.thy ===== *)
theory Bn_Cmp
  imports Bn
begin

text \<open>
  Model of \<^verbatim>\<open>fipsmodule/bn/cmp.c\<close>: comparisons of numbers whose widths need not be minimal, without
  branches on their words. A C \<^verbatim>\<open>int\<close> result is a 32-bit word.
\<close>

section \<open>The operations\<close>

definition bn_cmp_words_consttime :: "limb list \<Rightarrow> limb list \<Rightarrow> 32 word" where
  "bn_cmp_words_consttime a b =
     (let ret = foldl (\<lambda>ret (x, y).
            let eq = constant_time_eq_w x y; lt = constant_time_lt_w x y
            in constant_time_select_int eq ret (constant_time_select_int lt (- 1) 1)) 0 (zip a b)
      in if length a < length b then
           constant_time_select_int (constant_time_is_zero_w (foldl (OR) 0 (drop (length a) b))) ret (- 1)
         else if length b < length a then
           constant_time_select_int (constant_time_is_zero_w (foldl (OR) 0 (drop (length b) a))) ret 1
         else ret)"

definition BN_ucmp :: "bignum \<Rightarrow> bignum \<Rightarrow> 32 word" where
  "BN_ucmp a b = bn_cmp_words_consttime (take (bn_width a) (bn_d a)) (take (bn_width b) (bn_d b))"

definition BN_cmp :: "bignum option \<Rightarrow> bignum option \<Rightarrow> 32 word" where
  "BN_cmp a b =
     (case (a, b) of
        (Some a, None) \<Rightarrow> - 1
      | (None, Some b) \<Rightarrow> 1
      | (None, None) \<Rightarrow> 0
      | (Some a, Some b) \<Rightarrow>
          if bn_neg a \<noteq> bn_neg b then if bn_neg a then - 1 else 1
          else let ret = BN_ucmp a b in if bn_neg a then - ret else ret)"

definition bn_less_than_words :: "limb list \<Rightarrow> limb list \<Rightarrow> bool" where
  "bn_less_than_words a b = (bn_cmp_words_consttime a b <s 0)"

definition BN_abs_is_word :: "bignum \<Rightarrow> limb \<Rightarrow> bool" where
  "BN_abs_is_word bn w =
     (if bn_width bn = 0 then w = 0
      else foldl (OR) (bn_d bn ! 0 XOR w) (drop 1 (take (bn_width bn) (bn_d bn))) = 0)"

definition BN_cmp_word :: "bignum \<Rightarrow> limb \<Rightarrow> 32 word" where
  "BN_cmp_word a b =
     (let b_bn = BN_init\<lparr>bn_d := [b], bn_width := (if b > 0 then 1 else 0), bn_static := True\<rparr>
      in BN_cmp (Some a) (Some b_bn))"

definition BN_is_one :: "bignum \<Rightarrow> bool" where
  "BN_is_one bn \<longleftrightarrow> \<not> bn_neg bn \<and> BN_abs_is_word bn 1"

definition BN_is_word :: "bignum \<Rightarrow> limb \<Rightarrow> bool" where
  "BN_is_word bn w \<longleftrightarrow> BN_abs_is_word bn w \<and> (w = 0 \<or> \<not> bn_neg bn)"

definition BN_is_odd :: "bignum \<Rightarrow> bool" where
  "BN_is_odd bn \<longleftrightarrow> bn_width bn > 0 \<and> bn_d bn ! 0 AND 1 = 1"

definition BN_is_pow2 :: "bignum \<Rightarrow> bool" where
  "BN_is_pow2 bn =
     (let w = bn_minimal_width bn
      in if w = 0 \<or> bn_neg bn then False
         else if \<exists>x \<in> set (take (w - 1) (bn_d bn)). x \<noteq> 0 then False
         else bn_d bn ! (w - 1) AND (bn_d bn ! (w - 1) - 1) = 0)"

definition BN_equal_consttime :: "bignum \<Rightarrow> bignum \<Rightarrow> bool" where
  "BN_equal_consttime a b =
     (let da = take (bn_width a) (bn_d a); db = take (bn_width b) (bn_d b);
          m = foldl (OR) 0 (drop (bn_width a) db);
          m = foldl (OR) m (drop (bn_width b) da);
          m = foldl (\<lambda>m (x, y). m OR (x XOR y)) m (zip da db);
          m = m OR (if bn_neg a \<noteq> bn_neg b then 1 else 0)
      in m = 0)"

section \<open>As comparisons of integers\<close>

definition cmp_result :: "int \<Rightarrow> int \<Rightarrow> 32 word" where
  "cmp_result x y = (if x < y then - 1 else if x = y then 0 else 1)"

text \<open>A word in front of the others decides only between numbers that agree in the others.\<close>

lemma val_less_iff:
  fixes x y X Y :: int
  assumes "0 \<le> x" "x < radix" "0 \<le> y" "y < radix"
  shows "x + radix * X < y + radix * Y \<longleftrightarrow> X < Y \<or> X = Y \<and> x < y"
    "x + radix * X = y + radix * Y \<longleftrightarrow> X = Y \<and> x = y"
proof -
  have *: "u + radix * U < v + radix * V" if "U < V" "u < radix" "0 \<le> v" for u v U V :: int
  proof -
    have "radix * (U + 1) \<le> radix * V" using that(1) by (intro mult_left_mono) simp_all
    then show ?thesis using that by (simp add: algebra_simps)
  qed
  show "x + radix * X < y + radix * Y \<longleftrightarrow> X < Y \<or> X = Y \<and> x < y"
    using * [of X Y x y] * [of Y X y x] assms by (cases X Y rule: linorder_cases) auto
  show "x + radix * X = y + radix * Y \<longleftrightarrow> X = Y \<and> x = y"
    using * [of X Y x y] * [of Y X y x] assms by (cases X Y rule: linorder_cases) auto
qed

lemma cmp_words_loop:
  assumes "length a = length b"
  shows "foldl (\<lambda>ret (x, y).
      let eq = constant_time_eq_w x y; lt = constant_time_lt_w x y
      in constant_time_select_int eq ret (constant_time_select_int lt (- 1) 1)) r (zip a b) =
    (if bn_val a = bn_val b then r else cmp_result (bn_val a) (bn_val b))"
  using assms
proof (induction a b arbitrary: r rule: list_induct2)
  case (Cons x xs y ys)
  have "uint x = uint y \<longleftrightarrow> x = y" by (auto dest: unsigned_word_eqI)
  with Cons show ?case
    by (auto simp: constant_time Let_def val_less_iff cmp_result_def word_less_def)
qed simp

lemma bn_val_split:
  assumes "length a \<le> length b"
  shows "bn_val b = bn_val (take (length a) b) + radix ^ length a * bn_val (drop (length a) b)"
  using bn_val_append [of "take (length a) b" "drop (length a) b"] assms by (simp add: min_def)

lemma cmp_words: "bn_cmp_words_consttime a b = cmp_result (bn_val a) (bn_val b)"
proof -
  have z: "foldl (OR) 0 ws = 0 \<longleftrightarrow> bn_val ws = 0" for ws :: "limb list"
    by (simp add: foldl_or_zero bn_val_zero_iff)
  have beyond: "bn_val a < bn_val b" if "length a < length b" "bn_val (drop (length a) b) \<noteq> 0" for a b
  proof -
    have "1 \<le> bn_val (drop (length a) b)" using that(2) bn_val_nonneg [of "drop (length a) b"] by linarith
    then have "radix ^ length a * 1 \<le> radix ^ length a * bn_val (drop (length a) b)" by (intro mult_left_mono) simp_all
    then show ?thesis using bn_val_split [of a b] that(1) bn_val_bound [of a] bn_val_nonneg [of "take (length a) b"] by linarith
  qed
  consider "length a = length b" | "length a < length b" | "length b < length a" by linarith
  then show ?thesis
  proof cases
    case 1
    then show ?thesis using cmp_words_loop [OF 1, of 0] by (simp add: bn_cmp_words_consttime_def cmp_result_def)
  next
    case 2
    have l: "length a = length (take (length a) b)" using 2 by simp
    have zip: "zip a b = zip a (take (length a) b)" by (rule nth_equalityI) simp_all
    show ?thesis
    proof (cases "bn_val (drop (length a) b) = 0")
      case True
      then show ?thesis using 2 cmp_words_loop [OF l, of 0] bn_val_split [of a b]
        by (simp only: bn_cmp_words_consttime_def zip constant_time z) (simp add: cmp_result_def constant_time)
    next
      case False
      then show ?thesis using 2 beyond [OF 2]
        by (simp only: bn_cmp_words_consttime_def constant_time z) (simp add: cmp_result_def constant_time)
    qed
  next
    case 3
    have l: "length (take (length b) a) = length b" using 3 by simp
    have zip: "zip a b = zip (take (length b) a) b" by (rule nth_equalityI) simp_all
    show ?thesis
    proof (cases "bn_val (drop (length b) a) = 0")
      case True
      then show ?thesis using 3 cmp_words_loop [OF l, of 0] bn_val_split [of b a]
        by (simp only: bn_cmp_words_consttime_def zip constant_time z) (simp add: cmp_result_def constant_time)
    next
      case False
      then show ?thesis using 3 beyond [OF 3]
        by (simp only: bn_cmp_words_consttime_def constant_time z) (simp add: cmp_result_def constant_time)
    qed
  qed
qed

lemma BN_ucmp: "BN_ucmp a b = cmp_result (bn_abs a) (bn_abs b)"
  by (simp add: BN_ucmp_def cmp_words bn_abs_def bn_limbs_def)

lemma cmp_result_neg: "- cmp_result x y = cmp_result (- x) (- y)"
  by (simp add: cmp_result_def)

text \<open>The signed reading of a result.\<close>

lemma cmp_result_signed [simp]:
  "cmp_result x y <s 0 \<longleftrightarrow> x < y" "cmp_result x y = 0 \<longleftrightarrow> x = y" "sint (cmp_result x y) = (if x < y then - 1 else if x = y then 0 else 1)"
  unfolding word_sless_alt by (simp_all add: cmp_result_def)

text \<open>A negative number is not zero; every operation of the library keeps that.\<close>

definition bn_norm :: "bignum \<Rightarrow> bool" where
  "bn_norm bn \<longleftrightarrow> bn_ok bn \<and> (bn_neg bn \<longrightarrow> bn_abs bn \<noteq> 0)"

lemma bn_norm_ok: "bn_norm bn \<Longrightarrow> bn_ok bn"
  by (simp add: bn_norm_def)

lemma bn_int_sign: "bn_norm a \<Longrightarrow> bn_neg a \<longleftrightarrow> bn_int a < 0"
  using bn_abs_nonneg [of a] by (auto simp: bn_norm_def bn_int_def simp del: bn_abs_nonneg)

lemma BN_cmp_int:
  assumes "bn_norm a" "bn_norm b"
  shows "BN_cmp (Some a) (Some b) = cmp_result (bn_int a) (bn_int b)"
proof (cases "bn_neg a = bn_neg b")
  case True
  then show ?thesis by (simp add: BN_cmp_def BN_ucmp cmp_result_neg bn_int_def Let_def)
next
  case False
  then show ?thesis using bn_int_sign [OF assms(1)] bn_int_sign [OF assms(2)] by (auto simp: BN_cmp_def cmp_result_def)
qed

lemma BN_abs_is_word: "bn_ok bn \<Longrightarrow> BN_abs_is_word bn w \<longleftrightarrow> bn_abs bn = uint w"
proof -
  assume ok: "bn_ok bn"
  show ?thesis
  proof (cases "bn_limbs bn")
    case Nil
    then have "bn_width bn = 0" "bn_abs bn = 0" using ok by (auto simp: bn_limbs_def bn_abs_def bn_ok_def)
    then show ?thesis by (auto simp: BN_abs_is_word_def unsigned_eq_0_iff)
  next
    case (Cons x xs)
    then have w: "bn_width bn \<noteq> 0" "bn_d bn ! 0 = x" "drop 1 (take (bn_width bn) (bn_d bn)) = xs"
      by (cases "bn_d bn"; cases "bn_width bn"; simp add: bn_limbs_def)+
    have "uint x = uint w \<longleftrightarrow> x = w" by (auto dest: unsigned_word_eqI)
    then have "bn_abs bn = uint w \<longleftrightarrow> bn_val xs = 0 \<and> x = w"
      using val_less_iff(2) [of "uint x" "uint w" "bn_val xs" 0] Cons by (simp add: bn_abs_def)
    then show ?thesis using w by (auto simp: BN_abs_is_word_def foldl_or_zero bn_val_zero_iff xor_eq_zero_iff)
  qed
qed

lemma BN_is_one: "bn_ok bn \<Longrightarrow> BN_is_one bn \<longleftrightarrow> bn_int bn = 1"
  using bn_abs_nonneg [of bn] by (auto simp: BN_is_one_def BN_abs_is_word bn_int_def simp del: bn_abs_nonneg)

lemma BN_is_word: "bn_ok bn \<Longrightarrow> BN_is_word bn w \<longleftrightarrow> bn_int bn = uint w"
proof -
  assume ok: "bn_ok bn"
  define v u where "v = bn_abs bn" and "u = uint w"
  have "0 \<le> v" "0 \<le> u" "w = 0 \<longleftrightarrow> u = 0" by (simp_all add: v_def u_def unsigned_eq_0_iff)
  then show ?thesis using BN_abs_is_word [OF ok, of w] by (auto simp: BN_is_word_def bn_int_def simp flip: v_def u_def)
qed

lemma BN_cmp_word_int: "bn_norm a \<Longrightarrow> BN_cmp_word a b = cmp_result (bn_int a) (uint b)"
proof -
  assume a: "bn_norm a"
  define b_bn where "b_bn = BN_init\<lparr>bn_d := [b], bn_width := (if b > 0 then 1 else 0), bn_static := True\<rparr>"
  have "bn_norm b_bn" "bn_int b_bn = uint b"
    by (auto simp: b_bn_def bn_norm_def bn_ok_def BN_init_def bn_int_def bn_abs_def bn_limbs_def word_gt_0)
  then show ?thesis using BN_cmp_int [OF a, of b_bn] by (simp add: BN_cmp_word_def flip: b_bn_def)
qed

lemma BN_is_odd: "bn_ok bn \<Longrightarrow> BN_is_odd bn \<longleftrightarrow> odd (bn_int bn)"
proof -
  assume ok: "bn_ok bn"
  have "even radix" by (simp add: radix_def)
  show ?thesis
  proof (cases "bn_limbs bn")
    case Nil
    then show ?thesis using ok by (auto simp: BN_is_odd_def bn_limbs_def bn_int_def bn_abs_def bn_ok_def)
  next
    case (Cons x xs)
    then have w: "bn_width bn > 0" "bn_d bn ! 0 = x"
      by (cases "bn_d bn"; cases "bn_width bn"; simp add: bn_limbs_def)+
    have "odd x \<longleftrightarrow> odd (uint x)" by (simp flip: bit_0 add: bit_unsigned_iff)
    then have "x AND 1 = 1 \<longleftrightarrow> odd (uint x)" by (simp add: and_one_eq mod_2_eq_odd)
    then show ?thesis using w Cons \<open>even radix\<close> by (simp add: BN_is_odd_def bn_int_def bn_abs_def)
  qed
qed

lemma bn_less_than_words: "bn_less_than_words a b \<longleftrightarrow> bn_val a < bn_val b"
  by (simp add: bn_less_than_words_def cmp_words)

lemma foldl_or_map: "foldl (\<lambda>m (x, y). m OR (x XOR y)) m xys = foldl (OR) m (map (\<lambda>(x, y). x XOR y) xys)"
  by (induction xys arbitrary: m) auto

lemma equal_words:
  "bn_val (drop (length a) b) = 0 \<and> bn_val (drop (length b) a) = 0 \<and> (\<forall>(x, y) \<in> set (zip a b). x = y) \<longleftrightarrow> bn_val a = bn_val b"
proof (induction a b rule: list_induct2')
  case (4 x xs y ys)
  have "uint x = uint y \<longleftrightarrow> x = y" by (auto dest: unsigned_word_eqI)
  with 4 show ?case by (auto simp: val_less_iff)
qed auto

lemma BN_equal_consttime_int:
  assumes "bn_norm a" "bn_norm b"
  shows "BN_equal_consttime a b \<longleftrightarrow> bn_int a = bn_int b"
proof -
  define da db where "da = bn_limbs a" and "db = bn_limbs b"
  have l: "length da = bn_width a" "length db = bn_width b" using assms by (simp_all add: da_def db_def bn_norm_ok)
  have x: "(\<forall>w \<in> set (map (\<lambda>(x, y). x XOR y) (zip da db)). w = 0) \<longleftrightarrow> (\<forall>(x, y) \<in> set (zip da db). x = y)"
    by (simp add: case_prod_unfold xor_eq_zero_iff)
  have "BN_equal_consttime a b \<longleftrightarrow> bn_neg a = bn_neg b \<and> bn_val (drop (length da) db) = 0 \<and> bn_val (drop (length db) da) = 0 \<and>
    (\<forall>(x, y) \<in> set (zip da db). x = y)"
    unfolding BN_equal_consttime_def Let_def foldl_or_map or_eq_0_iff foldl_or_zero bn_val_zero_iff
      bn_limbs_def [symmetric] da_def [symmetric] db_def [symmetric]
    unfolding l [symmetric] x by (cases "bn_neg a"; cases "bn_neg b") simp_all
  also have "\<dots> \<longleftrightarrow> bn_neg a = bn_neg b \<and> bn_val da = bn_val db"
    by (simp only: equal_words [of da db, symmetric])
  also have "\<dots> \<longleftrightarrow> bn_int a = bn_int b"
    using bn_int_sign [OF assms(1)] bn_int_sign [OF assms(2)] by (auto simp: bn_int_def bn_abs_def da_def db_def)
  finally show ?thesis .
qed

end
