(* ===== verification/Bn_Add.thy ===== *)
theory Bn_Add
  imports Bn_Cmp
begin

text \<open>
  Model of \<^verbatim>\<open>fipsmodule/bn/add.c\<close>: addition and subtraction of numbers and of a number and a word, and
  the proof that they are those of the integers. \<^verbatim>\<open>BN_usub\<close> overwrites the words of its result even
  when it fails, and \<^verbatim>\<open>BN_uadd\<close> leaves its sign alone; the models say so.
\<close>

section \<open>Addition\<close>

definition carry_step :: "limb \<Rightarrow> limb \<Rightarrow> limb \<times> limb" where
  "carry_step a carry = (let tmp = carry + a in (tmp, if tmp < a then 1 else 0))"

definition bn_uadd_consttime :: "allocator \<Rightarrow> bignum \<Rightarrow> bignum \<Rightarrow> bignum \<Rightarrow> unit option \<times> bignum" where
  "bn_uadd_consttime A r a b =
     (case (if bn_width a < bn_width b then (b, a) else (a, b)) of (a, b) \<Rightarrow>
        let mx = bn_width a; mn = bn_width b
        in andthen (bn_wexpand A r (mx + 1)) (\<lambda>_ r.
             case bn_add_words (take mn (bn_d a)) (take mn (bn_d b)) of (lo, carry) \<Rightarrow>
             case words1 carry_step (drop mn (take mx (bn_d a))) carry of (hi, carry) \<Rightarrow>
               (Some (), r\<lparr>bn_d := store (bn_d r) 0 (lo @ hi @ [carry]), bn_width := mx + 1\<rparr>)))"

definition BN_uadd :: "allocator \<Rightarrow> bignum \<Rightarrow> bignum \<Rightarrow> bignum \<Rightarrow> unit option \<times> bignum" where
  "BN_uadd A r a b = andthen (bn_uadd_consttime A r a b) (\<lambda>_ r. (Some (), bn_set_minimal_width r))"

section \<open>Subtraction\<close>

definition borrow_step :: "limb \<Rightarrow> limb \<Rightarrow> limb \<times> limb" where
  "borrow_step a borrow = (let r = a - borrow in (r, if a < r then 1 else 0))"

definition bn_usub_consttime :: "allocator \<Rightarrow> bignum \<Rightarrow> bignum \<Rightarrow> bignum \<Rightarrow> unit option \<times> bignum" where
  "bn_usub_consttime A r a b =
     (if bn_width b > bn_width a \<and> \<not> bn_fits_in_words b (bn_width a) then (None, r)
      else
        let b_width = (if bn_width b > bn_width a then bn_width a else bn_width b)
        in andthen (bn_wexpand A r (bn_width a)) (\<lambda>_ r.
             case bn_sub_words (take b_width (bn_d a)) (take b_width (bn_d b)) of (lo, borrow) \<Rightarrow>
             case words1 borrow_step (drop b_width (take (bn_width a) (bn_d a))) borrow of (hi, borrow) \<Rightarrow>
               let r = r\<lparr>bn_d := store (bn_d r) 0 (lo @ hi)\<rparr>
               in if borrow \<noteq> 0 then (None, r) else (Some (), r\<lparr>bn_width := bn_width a, bn_neg := False\<rparr>)))"

definition BN_usub :: "allocator \<Rightarrow> bignum \<Rightarrow> bignum \<Rightarrow> bignum \<Rightarrow> unit option \<times> bignum" where
  "BN_usub A r a b = andthen (bn_usub_consttime A r a b) (\<lambda>_ r. (Some (), bn_set_minimal_width r))"

text \<open>The end of \<^verbatim>\<open>BN_add\<close> and \<^verbatim>\<open>BN_sub\<close>, where both operands count as positive.\<close>

definition sub_compared :: "allocator \<Rightarrow> bignum \<Rightarrow> bignum \<Rightarrow> bignum \<Rightarrow> unit option \<times> bignum" where
  "sub_compared A r a b =
     (if BN_ucmp a b <s 0 then andthen (BN_usub A r b a) (\<lambda>_ r. (Some (), r\<lparr>bn_neg := True\<rparr>))
      else andthen (BN_usub A r a b) (\<lambda>_ r. (Some (), r\<lparr>bn_neg := False\<rparr>)))"

definition BN_add :: "allocator \<Rightarrow> bignum \<Rightarrow> bignum \<Rightarrow> bignum \<Rightarrow> unit option \<times> bignum" where
  "BN_add A r a b =
     (let a_neg = bn_neg a
      in if a_neg \<noteq> bn_neg b then
           case (if a_neg then (b, a) else (a, b)) of (a, b) \<Rightarrow> sub_compared A r a b
         else case BN_uadd A r a b of (ret, r) \<Rightarrow> (ret, r\<lparr>bn_neg := a_neg\<rparr>))"

definition BN_sub :: "allocator \<Rightarrow> bignum \<Rightarrow> bignum \<Rightarrow> bignum \<Rightarrow> unit option \<times> bignum" where
  "BN_sub A r a b =
     (case (if bn_neg a then if bn_neg b then (b, a, None) else (a, b, Some True)
            else if bn_neg b then (a, b, Some False) else (a, b, None)) of
        (a, b, Some s) \<Rightarrow> andthen (BN_uadd A r a b) (\<lambda>_ r. (Some (), r\<lparr>bn_neg := s\<rparr>))
      | (a, b, None) \<Rightarrow> sub_compared A r a b)"

section \<open>Words\<close>

fun add_word_loop :: "limb list \<Rightarrow> limb \<Rightarrow> limb list \<times> limb" where
  "add_word_loop [] w = ([], w)"
| "add_word_loop (x # xs) w =
     (if w = 0 then (x # xs, 0)
      else let l = x + w in case add_word_loop xs (if w > l then 1 else 0) of (rs, w) \<Rightarrow> (l # rs, w))"

text \<open>\<open>None\<close> when the loop leaves the array. The position is that of the last word written.\<close>

fun sub_word_loop :: "limb list \<Rightarrow> limb \<Rightarrow> (limb list \<times> nat) option" where
  "sub_word_loop [] w = None"
| "sub_word_loop (x # xs) w =
     (if x \<ge> w then Some ((x - w) # xs, 0)
      else map_option (\<lambda>(rs, i). ((x - w) # rs, i + 1)) (sub_word_loop xs 1))"

function BN_add_word :: "allocator \<Rightarrow> bignum \<Rightarrow> limb \<Rightarrow> unit option \<times> bignum"
  and BN_sub_word :: "allocator \<Rightarrow> bignum \<Rightarrow> limb \<Rightarrow> unit option \<times> bignum" where
  "BN_add_word A a w =
     (if w = 0 then (Some (), a)
      else if BN_is_zero a then BN_set_word A a w
      else if bn_neg a then
        (case BN_sub_word A (a\<lparr>bn_neg := False\<rparr>) w of
           (i, a) \<Rightarrow> (i, if \<not> BN_is_zero a then a\<lparr>bn_neg := \<not> bn_neg a\<rparr> else a))
      else
        (case add_word_loop (take (bn_width a) (bn_d a)) w of (ws, w) \<Rightarrow>
           let a = a\<lparr>bn_d := store (bn_d a) 0 ws\<rparr>
           in if w \<noteq> 0 then
                andthen (bn_wexpand A a (bn_width a + 1)) (\<lambda>_ a.
                  (Some (), a\<lparr>bn_d := (bn_d a)[bn_width a := w], bn_width := bn_width a + 1\<rparr>))
              else (Some (), a)))"
| "BN_sub_word A a w =
     (if w = 0 then (Some (), a)
      else if BN_is_zero a then
        (case BN_set_word A a w of (i, a) \<Rightarrow> (i, if i \<noteq> None then BN_set_negative a True else a))
      else if bn_neg a then
        (case BN_add_word A (a\<lparr>bn_neg := False\<rparr>) w of (i, a) \<Rightarrow> (i, a\<lparr>bn_neg := True\<rparr>))
      else if bn_minimal_width a = 1 \<and> bn_d a ! 0 < w then
        (Some (), a\<lparr>bn_d := (bn_d a)[0 := w - bn_d a ! 0], bn_neg := True\<rparr>)
      else
        (case sub_word_loop (take (bn_width a) (bn_d a)) w of
           None \<Rightarrow> (None, a)
         | Some (ws, i) \<Rightarrow>
             let a = a\<lparr>bn_d := store (bn_d a) 0 ws\<rparr>
             in (Some (), if bn_d a ! i = 0 \<and> i = bn_width a - 1 then a\<lparr>bn_width := bn_width a - 1\<rparr> else a)))"
  by pat_completeness auto
termination
  by (relation "measure (case_sum (\<lambda>(A, a, w). if bn_neg a then 1 else 0) (\<lambda>(A, a, w). if bn_neg a then 1 else 0))") auto

declare BN_add_word.simps [simp del] BN_sub_word.simps [simp del]

section \<open>Sums\<close>

lemma uint_plus: "uint (a + b) = (if uint a + uint b < radix then uint a + uint b else uint a + uint (b :: limb) - radix)"
proof -
  have s: "uint (a + b) = (uint a + uint b) mod radix" by (simp add: radix_def uint_word_ariths)
  show ?thesis
  proof (cases "uint a + uint b < radix")
    case False
    have "(uint a + uint b) mod radix = (uint a + uint b - radix) mod radix" by simp
    also have "\<dots> = uint a + uint b - radix"
      using False uint_limb [of a] uint_limb [of b] by (intro mod_pos_pos_trivial) linarith+
    finally show ?thesis using s False by simp
  qed (simp add: s)
qed

lemma uint_minus: "uint (a - b) = (if uint a < uint b then uint a - uint b + radix else uint a - uint (b :: limb))"
proof -
  have "uint (a - b) = (uint a - uint b) mod radix" by (simp add: radix_def uint_word_ariths)
  moreover have "- radix \<le> uint a - uint b" "uint a - uint b < radix"
    using uint_limb_le [of a] uint_limb_le [of b] uint_limb(1) [of a] uint_limb(1) [of b] by linarith+
  ultimately show ?thesis by (simp add: mod_borrow)
qed

interpretation propagate: carry_chain carry_step uint uint "\<lambda>c. uint c \<le> 1"
proof (unfold_locales, goal_cases)
  case (1 c a r c')
  have r: "r = c + a" "c' = (if r < a then 1 else 0)" using 1(2) by (auto simp: carry_step_def Let_def)
  have c: "0 \<le> uint c" "uint c < radix" by simp_all
  have "uint c' = (if uint c + uint a < radix then 0 else 1)"
    unfolding r(2) word_less_def r(1) uint_plus using c by simp
  then show ?case by (simp add: r(1) uint_plus)
qed

interpretation borrow: carry_chain borrow_step uint "\<lambda>c. - uint c" "\<lambda>c. uint c \<le> 1"
proof (unfold_locales, goal_cases)
  case (1 c a r c')
  have r: "r = a - c" "c' = (if a < r then 1 else 0)" using 1(2) by (auto simp: borrow_step_def Let_def)
  have c: "0 \<le> uint c" "uint c < radix" by simp_all
  have "uint c' = (if uint a < uint c then 1 else 0)"
    unfolding r(2) word_less_def r(1) uint_minus using c by simp
  then show ?case by (simp add: r(1) uint_minus)
qed

text \<open>Words of two widths: the common ones first, then the carry through the others.\<close>

lemma add_two_widths:
  assumes "length a = n" "bn_add_words a b = (lo, c1)" "length b = n" "words1 carry_step hi_a c1 = (hi, c2)"
  shows "length (lo @ hi @ [c2]) = n + length hi_a + 1 \<and> bn_val (lo @ hi @ [c2]) = bn_val (a @ hi_a) + bn_val b"
proof -
  have 1: "length lo = n" "uint c1 \<le> 1" "bn_val lo + radix ^ n * uint c1 = bn_val a + bn_val b"
    using bn_add_words_val [OF assms(2)] assms(1,3) by simp_all
  from propagate.chain [OF 1(2) assms(4)] have 2: "length hi = length hi_a"
    "bn_val hi + radix ^ length hi_a * uint c2 = bn_val hi_a + uint c1" by (simp_all add: bn_val_weighted)
  have "bn_val (lo @ hi @ [c2]) = bn_val lo + radix ^ n * (bn_val hi + radix ^ length hi_a * uint c2)"
    by (simp add: bn_val_append 1(1) 2(1))
  also have "\<dots> = (bn_val lo + radix ^ n * uint c1) + radix ^ n * bn_val hi_a" unfolding 2(2) by (simp add: algebra_simps)
  also have "\<dots> = bn_val (a @ hi_a) + bn_val b" unfolding 1(3) by (simp add: bn_val_append assms(1))
  finally show ?thesis using 1(1) 2(1) by simp
qed

lemma sub_two_widths:
  assumes "length a = n" "bn_sub_words a b = (lo, c1)" "length b = n" "words1 borrow_step hi_a c1 = (hi, c2)"
  shows "length (lo @ hi) = n + length hi_a \<and> uint c2 \<le> 1 \<and>
    bn_val (lo @ hi) - radix ^ (n + length hi_a) * uint c2 = bn_val (a @ hi_a) - bn_val b"
proof -
  have 1: "length lo = n" "uint c1 \<le> 1" "bn_val lo - radix ^ n * uint c1 = bn_val a - bn_val b"
    using bn_sub_words_val [OF assms(2)] assms(1,3) by simp_all
  from borrow.chain [OF 1(2) assms(4)] have 2: "uint c2 \<le> 1" "length hi = length hi_a"
    "bn_val hi - radix ^ length hi_a * uint c2 = bn_val hi_a - uint c1" by (simp_all add: bn_val_weighted)
  have "bn_val (lo @ hi) - radix ^ (n + length hi_a) * uint c2 = bn_val lo + radix ^ n * (bn_val hi - radix ^ length hi_a * uint c2)"
    by (simp add: bn_val_append 1(1) power_add algebra_simps)
  also have "\<dots> = (bn_val lo - radix ^ n * uint c1) + radix ^ n * bn_val hi_a" unfolding 2(3) by (simp add: algebra_simps)
  also have "\<dots> = bn_val (a @ hi_a) - bn_val b" unfolding 1(3) by (simp add: bn_val_append assms(1))
  finally show ?thesis using 1(1) 2(1,2) by simp
qed

text \<open>The words of a number, cut at a width.\<close>

lemma limbs_split:
  assumes "bn_ok a" "n \<le> bn_width a"
  shows "take n (bn_d a) @ drop n (take (bn_width a) (bn_d a)) = bn_limbs a" "length (take n (bn_d a)) = n"
    "length (drop n (take (bn_width a) (bn_d a))) = bn_width a - n"
  using assms append_take_drop_id [of n "bn_limbs a"] by (simp_all add: bn_limbs_def bn_ok_def min_def)

lemma bn_uadd_consttime_Some:
  assumes "bn_uadd_consttime A r a b = (Some u, r')" and A: "malloc_spec A" and ok: "bn_ok r" "bn_ok a" "bn_ok b"
  shows "bn_ok r' \<and> bn_abs r' = bn_abs a + bn_abs b \<and> bn_neg r' = bn_neg r \<and> bn_width r' = max (bn_width a) (bn_width b) + 1 \<and>
    bn_static r' = bn_static r"
proof -
  obtain a1 b1 where sw: "(if bn_width a < bn_width b then (b, a) else (a, b)) = (a1, b1)" by (rule prod.exhaust)
  then have ab: "bn_width b1 \<le> bn_width a1" "bn_ok a1" "bn_ok b1" "bn_abs a1 + bn_abs b1 = bn_abs a + bn_abs b"
    "bn_width a1 = max (bn_width a) (bn_width b)"
    using ok by (auto split: if_splits)
  obtain d where d: "bn_wexpand A r (bn_width a1 + 1) = (Some (), d)"
    using assms(1) by (auto simp: bn_uadd_consttime_def sw Let_def elim!: andthen_SomeE)
  obtain lo c1 where lo: "bn_add_words (take (bn_width b1) (bn_d a1)) (take (bn_width b1) (bn_d b1)) = (lo, c1)" by (rule prod.exhaust)
  obtain hi c2 where hi: "words1 carry_step (drop (bn_width b1) (take (bn_width a1) (bn_d a1))) c1 = (hi, c2)" by (rule prod.exhaust)
  have r': "r' = d\<lparr>bn_d := store (bn_d d) 0 (lo @ hi @ [c2]), bn_width := bn_width a1 + 1\<rparr>"
    using assms(1) d by (simp add: bn_uadd_consttime_def sw Let_def lo hi)
  note w = bn_wexpand_Some [OF d A ok(1)]
  have "length (lo @ hi @ [c2]) = bn_width a1 + 1 \<and> bn_val (lo @ hi @ [c2]) = bn_abs a1 + bn_abs b1"
    using add_two_widths [OF limbs_split(2) lo _ hi] ab limbs_split [OF ab(2,1)] limbs_split(2) [OF ab(3)]
    by (simp add: bn_abs_def bn_limbs_def)
  then have len: "bn_width a1 + 1 = length (lo @ hi @ [c2])" and val: "bn_val (lo @ hi @ [c2]) = bn_abs a + bn_abs b"
    using ab(4) by simp_all
  have room: "length (lo @ hi @ [c2]) \<le> length (bn_d d)" using w(2) unfolding len .
  have "bn_width r' = max (bn_width a) (bn_width b) + 1" "bn_neg r' = bn_neg r" "bn_static r' = bn_static r"
    using w(5,6) ab(5) by (simp_all add: r')
  moreover have "bn_ok r'" "bn_limbs r' = lo @ hi @ [c2]" using bn_stored(3,4) [OF room] unfolding r' len by simp_all
  ultimately show ?thesis using val by (simp add: bn_abs_def)
qed

lemma bn_usub_consttime_cases:
  assumes A: "malloc_spec A" and ok: "bn_ok r" "bn_ok a" "bn_ok b"
  shows "case bn_usub_consttime A r a b of
      (Some u, r') \<Rightarrow> bn_ok r' \<and> bn_abs r' = bn_abs a - bn_abs b \<and> \<not> bn_neg r' \<and> bn_width r' = bn_width a \<and> bn_static r' = bn_static r
    | (None, r') \<Rightarrow> bn_abs a < bn_abs b \<or> fst (bn_wexpand A r (bn_width a)) = None"
proof (cases "bn_width b > bn_width a \<and> \<not> bn_fits_in_words b (bn_width a)")
  case True
  then have "radix ^ bn_width a \<le> bn_abs b" using bn_fits_in_words [OF ok(3)] by simp
  then have "bn_abs a < bn_abs b" using bn_abs_bound [OF ok(2)] by linarith
  with True show ?thesis by (simp add: bn_usub_consttime_def)
next
  case False
  define n where "n = (if bn_width b > bn_width a then bn_width a else bn_width b)"
  have n: "n \<le> bn_width a" "n \<le> bn_width b" by (simp_all add: n_def)
  have b: "bn_val (take n (bn_d b)) = bn_abs b"
  proof (cases "bn_width b > bn_width a")
    case True
    then have "bn_fits_in_words b n" using False by (simp add: n_def)
    then have "bn_val (drop n (bn_limbs b)) = 0" by (simp add: bn_fits_in_words_def foldl_or_zero bn_val_zero_iff bn_limbs_def)
    then show ?thesis using limbs_split(1) [OF ok(3) n(2)] bn_val_append [of "take n (bn_d b)" "drop n (bn_limbs b)"]
      by (simp add: bn_abs_def bn_limbs_def)
  qed (simp add: n_def bn_abs_def bn_limbs_def)
  obtain lo c1 where lo: "bn_sub_words (take n (bn_d a)) (take n (bn_d b)) = (lo, c1)" by (rule prod.exhaust)
  obtain hi c2 where hi: "words1 borrow_step (drop n (take (bn_width a) (bn_d a))) c1 = (hi, c2)" by (rule prod.exhaust)
  have v: "length (lo @ hi) = bn_width a" "uint c2 \<le> 1" "bn_val (lo @ hi) - radix ^ bn_width a * uint c2 = bn_abs a - bn_abs b"
    using sub_two_widths [OF limbs_split(2) [OF ok(2) n(1)] lo limbs_split(2) [OF ok(3) n(2)] hi]
      limbs_split(1,3) [OF ok(2) n(1)] n(1) by (simp_all add: b bn_abs_def)
  show ?thesis
  proof (cases "bn_wexpand A r (bn_width a)")
    case (Pair w d)
    show ?thesis
    proof (cases w)
      case None
      then show ?thesis using False Pair by (simp add: bn_usub_consttime_def flip: n_def)
    next
      case (Some u)
      note d = bn_wexpand_Some [OF Pair [unfolded Some] A ok(1)]
      have e: "bn_usub_consttime A r a b =
        (let r = d\<lparr>bn_d := store (bn_d d) 0 (lo @ hi)\<rparr>
         in if c2 \<noteq> 0 then (None, r) else (Some (), r\<lparr>bn_width := bn_width a, bn_neg := False\<rparr>))"
        unfolding bn_usub_consttime_def if_not_P [OF False] n_def [symmetric] by (simp add: lo hi Pair Some)
      show ?thesis
      proof (cases "c2 = 0")
        case True
        have "bn_ok (d\<lparr>bn_d := store (bn_d d) 0 (lo @ hi), bn_width := bn_width a, bn_neg := False\<rparr>)"
          "bn_limbs (d\<lparr>bn_d := store (bn_d d) 0 (lo @ hi), bn_width := bn_width a, bn_neg := False\<rparr>) = lo @ hi"
          using bn_stored(1,2) [of "lo @ hi" d False] d(2) unfolding v(1) by simp_all
        then show ?thesis using v(3) True d(6) by (simp add: e bn_abs_def)
      next
        case c2: False
        then have "1 \<le> uint c2" using uint_limb(1) [of c2] unsigned_eq_0_iff [of c2, where 'a = int] by linarith
        then have "uint c2 = 1" using v(2) by linarith
        then have "bn_abs a < bn_abs b" using v(3) bn_val_bound [of "lo @ hi"] v(1) by simp
        then show ?thesis using c2 by (simp add: e)
      qed
    qed
  qed
qed

lemma BN_usub_Some:
  assumes "malloc_spec A" "bn_ok r" "bn_ok a" "bn_ok b" "BN_usub A r a b = (Some u, r')"
  shows "bn_norm r' \<and> bn_abs r' = bn_abs a - bn_abs b \<and> \<not> bn_neg r'"
  using bn_usub_consttime_cases [OF assms(1-4)] assms(5)
  by (auto simp: BN_usub_def bn_norm_def bn_simps andthen_Some_iff)

lemma BN_usub_total:
  assumes "malloc_spec A" "bn_ok r" "bn_ok a" "bn_ok b" "bn_abs b \<le> bn_abs a" "\<forall>n. A n \<noteq> None" "\<not> bn_static r" "bn_width a \<le> 8388607"
  shows "\<exists>r'. BN_usub A r a b = (Some (), r')"
  using bn_usub_consttime_cases [OF assms(1-4)] bn_wexpand_total [OF assms(6-8)] assms(5)
  by (cases "bn_usub_consttime A r a b" rule: prod.exhaust; cases "fst (bn_usub_consttime A r a b)") (auto simp: BN_usub_def)

lemma BN_uadd_Some:
  assumes "malloc_spec A" "bn_ok r" "bn_ok a" "bn_ok b" "BN_uadd A r a b = (Some u, r')"
  shows "bn_ok r' \<and> bn_abs r' = bn_abs a + bn_abs b \<and> (bn_neg r' \<longleftrightarrow> bn_neg r \<and> bn_abs r' \<noteq> 0)"
proof -
  obtain s where s: "bn_uadd_consttime A r a b = (Some (), s)" "r' = bn_set_minimal_width s"
    using assms(5) by (auto simp: BN_uadd_def elim!: andthen_SomeE)
  from bn_uadd_consttime_Some [OF s(1) assms(1-4)] show ?thesis by (simp add: s(2) bn_simps)
qed

lemma bn_uadd_consttime_total:
  assumes "\<forall>n. A n \<noteq> None" "\<not> bn_static r" "bn_width a < 8388607" "bn_width b < 8388607"
  shows "\<exists>r'. bn_uadd_consttime A r a b = (Some (), r')"
proof -
  obtain a1 b1 where sw: "(if bn_width a < bn_width b then (b, a) else (a, b)) = (a1, b1)" by (rule prod.exhaust)
  then have "bn_width a1 + 1 \<le> 8388607" using assms(3,4) by (auto split: if_splits)
  then obtain d where "bn_wexpand A r (bn_width a1 + 1) = (Some (), d)" using bn_wexpand_total [OF assms(1,2)] by blast
  then show ?thesis by (simp add: bn_uadd_consttime_def sw Let_def split: prod.splits)
qed

lemma BN_uadd_total:
  assumes "\<forall>n. A n \<noteq> None" "\<not> bn_static r" "bn_width a < 8388607" "bn_width b < 8388607"
  shows "\<exists>r'. BN_uadd A r a b = (Some (), r')"
  using bn_uadd_consttime_total [OF assms] by (auto simp: BN_uadd_def)

lemma sub_compared_Some:
  assumes "malloc_spec A" "bn_ok r" "bn_ok a" "bn_ok b" "sub_compared A r a b = (Some u, r')"
  shows "bn_norm r' \<and> bn_int r' = bn_abs a - bn_abs b"
proof (cases "bn_abs a < bn_abs b")
  case True
  then obtain s where s: "BN_usub A r b a = (Some (), s)" "r' = s\<lparr>bn_neg := True\<rparr>"
    using assms(5) by (auto simp: sub_compared_def BN_ucmp elim!: andthen_SomeE)
  from BN_usub_Some [OF assms(1,2,4,3) s(1)] True show ?thesis
    by (simp add: s(2) bn_norm_def bn_ok_def bn_int_def bn_abs_def bn_limbs_def)
next
  case False
  then obtain s where s: "BN_usub A r a b = (Some (), s)" "r' = s\<lparr>bn_neg := False\<rparr>"
    using assms(5) by (auto simp: sub_compared_def BN_ucmp elim!: andthen_SomeE)
  from BN_usub_Some [OF assms(1-4) s(1)] show ?thesis
    by (simp add: s(2) bn_norm_def bn_ok_def bn_int_def bn_abs_def bn_limbs_def)
qed

lemma sub_compared_total:
  assumes "malloc_spec A" "bn_ok r" "bn_ok a" "bn_ok b" "\<forall>n. A n \<noteq> None" "\<not> bn_static r" "bn_width a \<le> 8388607" "bn_width b \<le> 8388607"
  shows "\<exists>r'. sub_compared A r a b = (Some (), r')"
proof (cases "bn_abs a < bn_abs b")
  case True
  then show ?thesis using BN_usub_total [OF assms(1,2,4,3) _ assms(5,6,8)] by (auto simp: sub_compared_def BN_ucmp)
next
  case False
  then show ?thesis using BN_usub_total [OF assms(1-4) _ assms(5-7)] by (auto simp: sub_compared_def BN_ucmp)
qed

lemma bn_set_neg:
  assumes "bn_ok r" "s \<longrightarrow> bn_abs r \<noteq> 0"
  shows "bn_norm (r\<lparr>bn_neg := s\<rparr>)" "bn_int (r\<lparr>bn_neg := s\<rparr>) = (if s then - bn_abs r else bn_abs r)"
  using assms by (simp_all add: bn_norm_def bn_ok_def bn_int_def bn_abs_def bn_limbs_def)

lemma abs_sum_pos: "bn_norm a \<Longrightarrow> bn_neg a \<Longrightarrow> bn_abs a + bn_abs b \<noteq> 0"
  using bn_abs_nonneg [of a] bn_abs_nonneg [of b] unfolding bn_norm_def by linarith

lemma BN_add_int:
  assumes A: "malloc_spec A" and ok: "bn_ok r" "bn_norm a" "bn_norm b" and r': "BN_add A r a b = (Some u, r')"
  shows "bn_norm r' \<and> bn_int r' = bn_int a + bn_int b"
proof (cases "bn_neg a = bn_neg b")
  case True
  then obtain s where s: "BN_uadd A r a b = (Some u, s)" "r' = s\<lparr>bn_neg := bn_neg a\<rparr>"
    using r' by (auto simp: BN_add_def Let_def split: prod.splits)
  from BN_uadd_Some [OF A ok(1) bn_norm_ok [OF ok(2)] bn_norm_ok [OF ok(3)] s(1)]
  have "bn_ok s" "bn_abs s = bn_abs a + bn_abs b" by simp_all
  with True bn_set_neg [of s "bn_neg a"] abs_sum_pos [OF ok(2), of b] show ?thesis by (auto simp: s(2) bn_int_def)
next
  case False
  then have "sub_compared A r (if bn_neg a then b else a) (if bn_neg a then a else b) = (Some u, r')"
    using r' by (auto simp: BN_add_def Let_def split: if_splits)
  from sub_compared_Some [OF A ok(1) _ _ this] ok False show ?thesis by (auto simp: bn_norm_ok bn_int_def)
qed

lemma BN_sub_int:
  assumes A: "malloc_spec A" and ok: "bn_ok r" "bn_norm a" "bn_norm b" and r': "BN_sub A r a b = (Some u, r')"
  shows "bn_norm r' \<and> bn_int r' = bn_int a - bn_int b"
proof (cases "bn_neg a = bn_neg b")
  case True
  then have "sub_compared A r (if bn_neg a then b else a) (if bn_neg a then a else b) = (Some u, r')"
    using r' by (auto simp: BN_sub_def split: if_splits)
  from sub_compared_Some [OF A ok(1) _ _ this] ok True show ?thesis by (auto simp: bn_norm_ok bn_int_def)
next
  case False
  then obtain s where s: "BN_uadd A r a b = (Some (), s)" "r' = s\<lparr>bn_neg := bn_neg a\<rparr>"
    using r' by (auto simp: BN_sub_def elim!: andthen_SomeE split: if_splits)
  from BN_uadd_Some [OF A ok(1) bn_norm_ok [OF ok(2)] bn_norm_ok [OF ok(3)] s(1)]
  have "bn_ok s" "bn_abs s = bn_abs a + bn_abs b" by simp_all
  with False bn_set_neg [of s "bn_neg a"] abs_sum_pos [OF ok(2), of b] show ?thesis by (auto simp: s(2) bn_int_def)
qed

section \<open>Sums with words\<close>

lemma add_word_loop:
  "add_word_loop xs w = (rs, w') \<Longrightarrow> length rs = length xs \<and> bn_val rs + radix ^ length xs * uint w' = bn_val xs + uint w"
proof (induction xs w arbitrary: rs w' rule: add_word_loop.induct)
  case (2 x xs w)
  show ?case
  proof (cases "w = 0")
    case False
    define l c where "l = x + w" and "c = (if w > l then 1 else (0 :: limb))"
    obtain rs1 where r: "add_word_loop xs c = (rs1, w')" "rs = l # rs1"
      using "2.prems" False by (auto simp: l_def c_def Let_def split: prod.splits)
    have "uint x < radix" "0 \<le> uint x" by simp_all
    then have l: "uint l + radix * uint c = uint x + uint w" by (simp add: c_def word_less_def l_def uint_plus)
    have ih: "length rs1 = length xs" "bn_val rs1 + radix ^ length xs * uint w' = bn_val xs + uint c"
      using "2.IH" [OF False l_def] r(1) by (simp_all add: c_def)
    have "bn_val rs + radix ^ length (x # xs) * uint w' = uint l + radix * (bn_val rs1 + radix ^ length xs * uint w')"
      by (simp add: r(2) algebra_simps)
    also have "\<dots> = (uint l + radix * uint c) + radix * bn_val xs" unfolding ih(2) by (simp add: algebra_simps)
    finally show ?thesis using ih(1) r(2) l by simp
  qed (use "2.prems" in auto)
qed simp

lemma sub_word_loop:
  "sub_word_loop xs w = Some (rs, i) \<Longrightarrow> length rs = length xs \<and> i < length xs \<and> bn_val rs = bn_val xs - uint w"
proof (induction xs w arbitrary: rs i rule: sub_word_loop.induct)
  case (2 x xs w)
  show ?case
  proof (cases "x \<ge> w")
    case True
    then have "uint w \<le> uint x" by (simp add: word_le_def)
    with True "2.prems" show ?thesis by (auto simp: uint_minus)
  next
    case False
    then have "uint x < uint w" by (simp add: word_le_def)
    then have m: "uint (x - w) = uint x - uint w + radix" by (simp add: uint_minus)
    obtain rs1 j where r: "sub_word_loop xs 1 = Some (rs1, j)" "rs = (x - w) # rs1" "i = j + 1"
      using "2.prems" False by auto
    have ih: "length rs1 = length xs" "j < length xs" "bn_val rs1 = bn_val xs - 1" using "2.IH" [OF False r(1)] by simp_all
    show ?thesis using ih(1,2) by (simp add: r m ih(3) algebra_simps)
  qed
qed simp

lemma sub_word_loop_total: "uint w \<le> bn_val xs \<Longrightarrow> xs \<noteq> [] \<Longrightarrow> sub_word_loop xs w \<noteq> None"
proof (induction xs w rule: sub_word_loop.induct)
  case (2 x xs w)
  show ?case
  proof (cases "x \<ge> w")
    case False
    then have "uint x < uint w" by (simp add: word_le_def)
    then have "0 < radix * bn_val xs" using "2.prems"(1) by simp
    then have "bn_val xs \<noteq> 0" by auto
    then have "1 \<le> bn_val xs" "xs \<noteq> []" using bn_val_nonneg [of xs] by (linarith, auto)
    then show ?thesis using "2.IH" [OF False] False by auto
  qed simp
qed simp

lemma store_full: "length ws = n \<Longrightarrow> n \<le> length d \<Longrightarrow> take n (store d 0 ws) = ws"
  by (auto simp: store_def)

lemma add_word_pos:
  assumes A: "malloc_spec A" and ok: "bn_ok a" "\<not> bn_neg a" and nz: "w \<noteq> 0" "\<not> BN_is_zero a"
    and r: "BN_add_word A a w = (Some u, r)"
  shows "bn_norm r \<and> \<not> bn_neg r \<and> bn_int r = bn_int a + uint w"
proof -
  obtain ws c where l: "add_word_loop (bn_limbs a) w = (ws, c)" by (rule prod.exhaust)
  note v = add_word_loop [OF l, unfolded length_bn_limbs [OF ok(1)]]
  define a' where "a' = a\<lparr>bn_d := store (bn_d a) 0 ws\<rparr>"
  have a': "bn_ok a'" "bn_limbs a' = ws" "bn_width a' = bn_width a" "\<not> bn_neg a'"
    using v ok store_full [of ws "bn_width a" "bn_d a"] by (simp_all add: a'_def bn_ok_def bn_limbs_def)
  have e: "(if c \<noteq> 0 then
      andthen (bn_wexpand A a' (bn_width a' + 1)) (\<lambda>_ a. (Some (), a\<lparr>bn_d := (bn_d a)[bn_width a := c], bn_width := bn_width a + 1\<rparr>))
     else (Some (), a')) = (Some u, r)"
    using r nz ok(2) l by (cases "c = 0") (simp_all add: BN_add_word.simps [of A a w] bn_limbs_def a'_def Let_def)
  have val: "bn_val ws + radix ^ bn_width a * uint c = bn_int a + uint w" using v ok(2) by (simp add: bn_int_def bn_abs_def)
  show ?thesis
  proof (cases "c = 0")
    case True
    then show ?thesis using e a' val by (auto simp: bn_norm_def bn_int_def bn_abs_def)
  next
    case False
    then obtain b where b: "bn_wexpand A a' (bn_width a' + 1) = (Some (), b)"
      "r = b\<lparr>bn_d := (bn_d b)[bn_width b := c], bn_width := bn_width b + 1\<rparr>" using e by (auto elim!: andthen_SomeE)
    note w = bn_wexpand_Some [OF b(1) A a'(1)]
    have "bn_limbs r = bn_limbs b @ [c]" using w(2,4) by (simp add: b(2) bn_limbs_def take_Suc_conv_app_nth)
    then have "bn_abs r = bn_val ws + radix ^ bn_width a * uint c" using w(3) a'(2) v by (simp add: bn_abs_def bn_val_append)
    moreover have "bn_ok r" "\<not> bn_neg r" using w a'(4) by (simp_all add: b(2) bn_ok_def)
    ultimately show ?thesis using val by (simp add: bn_norm_def bn_int_def)
  qed
qed

lemma sub_word_pos:
  assumes ok: "bn_ok a" "\<not> bn_neg a" and nz: "w \<noteq> 0" "\<not> BN_is_zero a"
  shows "\<exists>r. BN_sub_word A a w = (Some (), r) \<and> bn_norm r \<and> bn_int r = bn_int a - uint w"
proof (cases "bn_minimal_width a = 1 \<and> bn_d a ! 0 < w")
  case True
  define r where "r = a\<lparr>bn_d := (bn_d a)[0 := w - bn_d a ! 0], bn_neg := True\<rparr>"
  have e: "BN_sub_word A a w = (Some (), r)" using True nz ok(2) by (simp add: BN_sub_word.simps r_def)
  have pos: "0 < bn_width a" "bn_width a \<le> length (bn_d a)" using bn_minimal_width(1) [OF ok(1)] True ok(1) by (simp_all add: bn_ok_def)
  then obtain x xs where d: "bn_d a = x # xs" by (cases "bn_d a") auto
  have a: "bn_abs a = uint x" using bn_minimal_width(2) [OF ok(1)] True d by simp
  obtain k where k: "bn_width a = Suc k" using pos(1) by (cases "bn_width a") auto
  then have "bn_abs a = uint x + radix * bn_val (take k xs)" by (simp add: bn_abs_def bn_limbs_def d)
  then have z: "bn_val (take k xs) = 0" using a by simp
  have "x < w" using True d by simp
  then have "uint x < uint w" by (simp add: word_less_def)
  then have "bn_abs r = uint w - uint x" "bn_abs r \<noteq> 0" using z
    by (simp_all add: r_def bn_abs_def bn_limbs_def d k uint_minus)
  then show ?thesis using e pos a ok(2) by (simp add: r_def bn_norm_def bn_ok_def bn_int_def)
next
  case False
  have m0: "bn_minimal_width a \<noteq> 0" using nz(2) ok(1) by (simp add: bn_minimal_width_zero_iff bn_simps)
  note m = bn_minimal_width [OF ok(1)]
  have "uint w \<le> bn_abs a"
  proof (cases "bn_minimal_width a = 1")
    case True
    then have "bn_d a \<noteq> []" using m(1) ok(1) by (auto simp: bn_ok_def)
    then have "bn_abs a = uint (bn_d a ! 0)" using m(2) True by (cases "bn_d a") simp_all
    then show ?thesis using False True by (simp add: word_less_def)
  next
    case more: False
    define k where "k = bn_minimal_width a - 1"
    have k: "bn_minimal_width a = Suc k" "0 < k" using m0 more by (simp_all add: k_def)
    have "k < length (bn_d a)" using k m(1) ok(1) by (simp add: bn_ok_def)
    then have "bn_abs a = bn_val (take k (bn_d a)) + radix ^ k * uint (bn_d a ! k)"
      using m(2) by (simp add: k take_Suc_conv_app_nth bn_val_append)
    moreover have "bn_d a ! k \<noteq> 0" using m(3) k by simp
    then have "1 \<le> uint (bn_d a ! k)" using uint_limb(1) [of "bn_d a ! k"] unsigned_eq_0_iff [of "bn_d a ! k", where 'a = int] by linarith
    then have "radix ^ k * 1 \<le> radix ^ k * uint (bn_d a ! k)" by (intro mult_left_mono) simp_all
    moreover have "radix ^ 1 \<le> radix ^ k" using k(2) by (intro power_increasing) simp_all
    then have "radix \<le> radix ^ k" by simp
    ultimately show ?thesis using uint_limb(2) [of w] bn_val_nonneg [of "take k (bn_d a)"] by linarith
  qed
  moreover have "bn_limbs a \<noteq> []" using m0 m(1) ok(1) by (auto simp: bn_limbs_def bn_ok_def)
  ultimately obtain ws i where l: "sub_word_loop (bn_limbs a) w = Some (ws, i)"
    using sub_word_loop_total [of w "bn_limbs a"] by (auto simp: bn_abs_def)
  have v: "length ws = bn_width a" "i < bn_width a" "bn_val ws = bn_abs a - uint w"
    using sub_word_loop [OF l] ok(1) by (simp_all add: bn_abs_def)
  define b where "b = a\<lparr>bn_d := store (bn_d a) 0 ws\<rparr>"
  have b: "bn_ok b" "bn_limbs b = ws" "\<not> bn_neg b" "bn_width b = bn_width a"
    using v(1) ok store_full [of ws "bn_width a" "bn_d a"] by (simp_all add: b_def bn_ok_def bn_limbs_def)
  define r where "r = (if bn_d b ! i = 0 \<and> i = bn_width b - 1 then b\<lparr>bn_width := bn_width b - 1\<rparr> else b)"
  have "BN_sub_word A a w = (Some (), r)"
    unfolding BN_sub_word.simps [of A a w] if_not_P [OF nz(1)] if_not_P [OF nz(2)] if_not_P [OF ok(2)] if_not_P [OF False]
      bn_limbs_def [symmetric] l by (simp only: option.case prod.case Let_def r_def b_def)
  moreover have "bn_norm r \<and> bn_abs r = bn_val ws \<and> \<not> bn_neg r"
  proof (cases "bn_d b ! i = 0 \<and> i = bn_width b - 1")
    case True
    have i: "i < length (bn_d b)" using v(2) b(1,4) by (simp add: bn_ok_def)
    have "bn_d b ! i = 0" using True by blast
    then have "take (Suc i) (bn_d b) = take i (bn_d b) @ [0]" unfolding take_Suc_conv_app_nth [OF i] by simp
    moreover have wi: "bn_width b = Suc i" using True v(2) b(4) by simp
    ultimately have "ws = take i (bn_d b) @ [0]" using b(2) by (simp add: bn_limbs_def)
    then have "bn_val ws = bn_val (take i (bn_d b))" by (simp add: bn_val_append)
    then show ?thesis using b(3) i unfolding r_def if_P [OF True] by (simp add: bn_norm_def bn_ok_def bn_abs_def bn_limbs_def wi)
  qed (use b in \<open>auto simp: r_def bn_norm_def bn_abs_def\<close>)
  ultimately show ?thesis using v(3) ok(2) by (simp add: bn_int_def)
qed

lemma bn_neg_clear:
  assumes "bn_norm a"
  shows "bn_ok (a\<lparr>bn_neg := False\<rparr>)" "bn_abs (a\<lparr>bn_neg := False\<rparr>) = bn_abs a" "BN_is_zero (a\<lparr>bn_neg := False\<rparr>) = BN_is_zero a"
  using assms by (simp_all add: bn_norm_def bn_ok_def bn_abs_def bn_limbs_def BN_is_zero_def bn_fits_in_words_def)

lemma BN_add_word_int:
  assumes A: "malloc_spec A" and a: "bn_norm a" and r: "BN_add_word A a w = (Some u, r)"
  shows "bn_norm r \<and> bn_int r = bn_int a + uint w"
proof -
  note ok = bn_norm_ok [OF a]
  consider "w = 0" | "w \<noteq> 0" "BN_is_zero a" | "w \<noteq> 0" "\<not> BN_is_zero a" "\<not> bn_neg a" | "w \<noteq> 0" "\<not> BN_is_zero a" "bn_neg a" by blast
  then show ?thesis
  proof cases
    case 1
    then show ?thesis using r a by (simp add: BN_add_word.simps)
  next
    case 2
    then have "BN_set_word A a w = (Some u, r)" using r by (simp add: BN_add_word.simps)
    then have "bn_ok r \<and> bn_int r = uint w" using BN_set_word_Some [OF _ A ok] by blast
    moreover have "bn_int a = 0" using 2 ok by (simp add: bn_simps bn_int_def)
    moreover have "\<not> bn_neg r" using \<open>BN_set_word A a w = (Some u, r)\<close> 2(1) by (auto simp: BN_set_word_def elim!: andthen_SomeE)
    ultimately show ?thesis by (simp add: bn_norm_def)
  next
    case 3
    then show ?thesis using add_word_pos [OF A ok] r by blast
  next
    case 4
    note c = bn_neg_clear [OF a]
    obtain s where s: "BN_sub_word A (a\<lparr>bn_neg := False\<rparr>) w = (Some (), s)" "bn_norm s" "bn_int s = bn_abs a - uint w"
      using sub_word_pos [OF c(1) _ 4(1)] c 4(2) by (auto simp: bn_int_def)
    then have r': "r = (if \<not> BN_is_zero s then s\<lparr>bn_neg := \<not> bn_neg s\<rparr> else s)" using r 4 by (simp add: BN_add_word.simps [of A a w])
    have "bn_int r = - bn_int s \<and> bn_norm r"
      using s(2) by (auto simp: r' bn_norm_def bn_simps bn_int_def bn_ok_def bn_abs_def bn_limbs_def)
    then show ?thesis using s(3) 4(3) by (simp add: bn_int_def)
  qed
qed

lemma BN_sub_word_int:
  assumes A: "malloc_spec A" and a: "bn_norm a" and r: "BN_sub_word A a w = (Some u, r)"
  shows "bn_norm r \<and> bn_int r = bn_int a - uint w"
proof -
  note ok = bn_norm_ok [OF a]
  consider "w = 0" | "w \<noteq> 0" "BN_is_zero a" | "w \<noteq> 0" "\<not> BN_is_zero a" "\<not> bn_neg a" | "w \<noteq> 0" "\<not> BN_is_zero a" "bn_neg a" by blast
  then show ?thesis
  proof cases
    case 1
    then show ?thesis using r a by (simp add: BN_sub_word.simps)
  next
    case 2
    then obtain s where s: "BN_set_word A a w = (Some (), s)" "r = BN_set_negative s True"
      using r by (auto simp: BN_sub_word.simps split: prod.splits)
    note v = BN_set_word_Some [OF s(1) A ok]
    have "\<not> bn_neg s" using s(1) 2(1) by (auto simp: BN_set_word_def elim!: andthen_SomeE)
    moreover have "bn_int a = 0" using 2 ok by (simp add: bn_simps bn_int_def)
    moreover have "uint w \<noteq> 0" using 2(1) by (simp add: unsigned_eq_0_iff)
    ultimately show ?thesis using v by (auto simp: s(2) BN_set_negative_def bn_simps bn_norm_def bn_int_def bn_ok_def bn_abs_def bn_limbs_def)
  next
    case 3
    then show ?thesis using sub_word_pos [OF ok 3(3,1,2), of A] r by auto
  next
    case 4
    note c = bn_neg_clear [OF a]
    obtain s where s: "BN_add_word A (a\<lparr>bn_neg := False\<rparr>) w = (Some u, s)" "r = s\<lparr>bn_neg := True\<rparr>"
      using r 4 by (auto simp: BN_sub_word.simps [of A a w] split: prod.splits)
    have v: "bn_norm s" "\<not> bn_neg s" "bn_int s = bn_abs a + uint w"
      using add_word_pos [OF A c(1) _ 4(1) _ s(1)] c 4(2) by (auto simp: bn_int_def)
    have "bn_abs a \<noteq> 0" using 4(2) ok by (simp add: bn_simps)
    moreover have "bn_abs s = bn_abs a + uint w" using v(2,3) by (simp add: bn_int_def)
    ultimately have "bn_abs s \<noteq> 0" using bn_abs_nonneg [of a] uint_limb(1) [of w] by linarith
    then show ?thesis using v 4(3) by (auto simp: s(2) bn_norm_def bn_int_def bn_ok_def bn_abs_def bn_limbs_def)
  qed
qed

section \<open>Properties\<close>

lemma BN_add_total:
  assumes "malloc_spec A" "bn_ok r" "bn_ok a" "bn_ok b" "\<forall>n. A n \<noteq> None" "\<not> bn_static r" "bn_width a < 8388607" "bn_width b < 8388607"
  shows "\<exists>r'. BN_add A r a b = (Some (), r')" "\<exists>r'. BN_sub A r a b = (Some (), r')"
proof -
  have u: "\<exists>r'. BN_uadd A r a b = (Some (), r')" using BN_uadd_total assms(5-8) by blast
  have s: "\<exists>r'. sub_compared A r a b = (Some (), r')" "\<exists>r'. sub_compared A r b a = (Some (), r')"
    using sub_compared_total [OF assms(1-6)] sub_compared_total [OF assms(1,2,4,3,5,6)] assms(7,8) by auto
  show "\<exists>r'. BN_add A r a b = (Some (), r')" "\<exists>r'. BN_sub A r a b = (Some (), r')"
    using u s by (auto simp: BN_add_def BN_sub_def Let_def)
qed

text \<open>
  C2. \<^verbatim>\<open>BN_add\<close> and \<^verbatim>\<open>BN_sub\<close> compute the sum and the difference of the integers, whatever the signs,
  the widths and the old contents of the result; what they return is no negative zero. They fail only for
  want of memory.
\<close>

theorem BN_add_sub_exact:
  assumes "malloc_spec A" "bn_ok r" "bn_norm a" "bn_norm b"
  shows "(BN_add A r a b = (Some (), s) \<longrightarrow> bn_norm s \<and> bn_int s = bn_int a + bn_int b) \<and>
    (BN_sub A r a b = (Some (), s) \<longrightarrow> bn_norm s \<and> bn_int s = bn_int a - bn_int b) \<and>
    ((\<forall>n. A n \<noteq> None) \<and> \<not> bn_static r \<and> bn_width a < 8388607 \<and> bn_width b < 8388607 \<longrightarrow>
       fst (BN_add A r a b) = Some () \<and> fst (BN_sub A r a b) = Some ())"
proof -
  have "(\<forall>n. A n \<noteq> None) \<and> \<not> bn_static r \<and> bn_width a < 8388607 \<and> bn_width b < 8388607 \<longrightarrow>
       fst (BN_add A r a b) = Some () \<and> fst (BN_sub A r a b) = Some ()"
    using BN_add_total [OF assms(1,2) assms(3,4) [THEN bn_norm_ok]] by auto
  then show ?thesis using BN_add_int [OF assms] BN_sub_int [OF assms] by blast
qed

text \<open>A carry out of the top word, and a difference below zero.\<close>

theorem BN_add_sub_exact_witness:
  "\<exists>s t. BN_add zero_malloc BN_init (sample_bn [- 1] False) (sample_bn [1] False) = (Some (), s) \<and> bn_int s = 2 ^ 64 \<and>
     BN_sub zero_malloc BN_init (sample_bn [1] False) (sample_bn [0, 1] False) = (Some (), t) \<and> bn_int t = 1 - 2 ^ 64"
proof -
  let ?a = "sample_bn [- 1] False" and ?b = "sample_bn [1] False" and ?c = "sample_bn [0, 1] False"
  have n: "bn_norm ?a" "bn_norm ?b" "bn_norm ?c" "bn_int ?a = 2 ^ 64 - 1" "bn_int ?b = 1" "bn_int ?c = 2 ^ 64"
    by (simp_all add: bn_norm_def sample_bn bn_int_def radix_def unsigned_minus_1_eq_mask mask_eq_exp_minus_1)
  note add = BN_add_sub_exact [OF zero_malloc(1) bn_init(1) n(1,2)]
  note sub = BN_add_sub_exact [OF zero_malloc(1) bn_init(1) n(2,3)]
  obtain s where s: "BN_add zero_malloc BN_init ?a ?b = (Some (), s)"
    using add [of BN_init] zero_malloc(2) bn_init(3) by (cases "BN_add zero_malloc BN_init ?a ?b") (auto simp: sample_bn)
  obtain t where t: "BN_sub zero_malloc BN_init ?b ?c = (Some (), t)"
    using sub [of BN_init] zero_malloc(2) bn_init(3) by (cases "BN_sub zero_malloc BN_init ?b ?c") (auto simp: sample_bn)
  show ?thesis using s t add [of s] sub [of t] n(4-6) by auto
qed

text \<open>The sign that \<^verbatim>\<open>BN_uadd\<close> finds in its result stays: here one and one make minus two.\<close>

lemma BN_uadd_keeps_sign:
  "\<exists>s. BN_uadd zero_malloc (sample_bn [1] True) (sample_bn [1] False) (sample_bn [1] False) = (Some (), s) \<and> bn_int s = - 2"
proof -
  obtain s where s: "BN_uadd zero_malloc (sample_bn [1] True) (sample_bn [1] False) (sample_bn [1] False) = (Some (), s)"
    using BN_uadd_total [OF zero_malloc(2), of "sample_bn [1] True" "sample_bn [1] False" "sample_bn [1] False"]
    by (auto simp: sample_bn)
  from BN_uadd_Some [OF zero_malloc(1) sample_bn(1,1,1) s] show ?thesis using s by (auto simp: sample_bn bn_int_def)
qed

end
