(* ===== verification/Bn_Shift.thy ===== *)
theory Bn_Shift
  imports Bn_Add "HOL-Library.Signed_Division"
begin

text \<open>
  Model of \<^verbatim>\<open>fipsmodule/bn/shift.c\<close>: shifts and single bits of numbers, with the proof that they are the
  shifts and bits of the integers. A C \<^verbatim>\<open>int\<close> argument is an \<open>int\<close>.
\<close>

section \<open>The operations\<close>

text \<open>The loop of \<^verbatim>\<open>BN_lshift\<close> from the top word down, for a shift by \<open>lb > 0\<close> bits and \<open>nw\<close> words.\<close>

fun lshift_loop :: "limb list \<Rightarrow> nat \<Rightarrow> nat \<Rightarrow> nat \<Rightarrow> limb list \<Rightarrow> limb list" where
  "lshift_loop f lb nw 0 t = t"
| "lshift_loop f lb nw (Suc i) t =
     (let l = f ! i;
          t = t[nw + i + 1 := t ! (nw + i + 1) OR drop_bit (64 - lb) l];
          t = t[nw + i := push_bit lb l]
      in lshift_loop f lb nw i t)"

definition BN_lshift :: "allocator \<Rightarrow> bignum \<Rightarrow> bignum \<Rightarrow> int \<Rightarrow> unit option \<times> bignum" where
  "BN_lshift A r a n =
     (if n < 0 then (None, r)
      else
        let r = r\<lparr>bn_neg := bn_neg a\<rparr>; nw = nat n div 64
        in andthen (bn_wexpand A r (bn_width a + nw + 1)) (\<lambda>_ r.
             let lb = nat n mod 64; f = bn_d a;
                 t = (bn_d r)[bn_width a + nw := 0];
                 t = (if lb = 0 then store t nw (take (bn_width a) f) else lshift_loop f lb nw (bn_width a) t);
                 t = store t 0 (replicate nw 0)
             in (Some (), bn_set_minimal_width (r\<lparr>bn_d := t, bn_width := bn_width a + nw + 1\<rparr>))))"

definition lshift1_step :: "limb \<Rightarrow> limb \<Rightarrow> limb \<times> limb" where
  "lshift1_step t c = (push_bit 1 t OR c, drop_bit (64 - 1) t)"

definition BN_lshift1 :: "allocator \<Rightarrow> bignum \<Rightarrow> bignum \<Rightarrow> unit option \<times> bignum" where
  "BN_lshift1 A r a =
     (let r = r\<lparr>bn_neg := bn_neg a\<rparr>
      in andthen (bn_wexpand A r (bn_width a + 1)) (\<lambda>_ r.
           case words1 lshift1_step (take (bn_width a) (bn_d a)) 0 of (ws, c) \<Rightarrow>
             let d = store (bn_d r) 0 ws
             in if c \<noteq> 0 then (Some (), r\<lparr>bn_d := d[bn_width a := 1], bn_width := bn_width a + 1\<rparr>)
                else (Some (), r\<lparr>bn_d := d, bn_width := bn_width a\<rparr>)))"

definition bn_rshift_words :: "limb list \<Rightarrow> nat \<Rightarrow> limb list" where
  "bn_rshift_words a shift =
     (let num = length a; shift_bits = shift mod 64; shift_words = shift div 64
      in if shift_words \<ge> num then replicate num 0
         else
           (if shift_bits = 0 then drop shift_words a
            else map (\<lambda>i. drop_bit shift_bits (a ! i) OR push_bit (64 - shift_bits) (a ! (i + 1))) [shift_words..<num - 1] @
                 [drop_bit shift_bits (a ! (num - 1))]) @ replicate shift_words 0)"

definition BN_rshift :: "allocator \<Rightarrow> bignum \<Rightarrow> bignum \<Rightarrow> int \<Rightarrow> unit option \<times> bignum" where
  "BN_rshift A r a n =
     (if n < 0 then (None, r)
      else andthen (bn_wexpand A r (bn_width a)) (\<lambda>_ r.
        let d = store (bn_d r) 0 (bn_rshift_words (take (bn_width a) (bn_d a)) (nat n))
        in (Some (), bn_set_minimal_width (r\<lparr>bn_d := d, bn_width := bn_width a, bn_neg := bn_neg a\<rparr>))))"

text \<open>\<open>tmp\<close> is the scratch number from the context, or \<open>None\<close>.\<close>

function secret_shift_loop :: "nat \<Rightarrow> nat \<Rightarrow> nat \<Rightarrow> limb list \<Rightarrow> limb list" where
  "secret_shift_loop max_bits n i r =
     (if max_bits div 2 ^ i = 0 then r
      else
        let m = 0 - (word_of_nat ((n div 2 ^ i) mod 2) :: limb);
            tmp = bn_rshift_words r (2 ^ i)
        in secret_shift_loop max_bits n (i + 1) (bn_select_words m tmp r))"
  by pat_completeness auto
termination
proof (relation "measure (\<lambda>(max_bits, n, i, r). max_bits - i)", goal_cases)
  case (2 max_bits n i r m tmp)
  then have "2 ^ i \<le> max_bits" by (simp add: div_eq_0_iff)
  then have "i < max_bits" using less_exp [of i] by linarith
  then show ?case by simp
qed simp

declare secret_shift_loop.simps [simp del]

definition bn_rshift_secret_shift :: "allocator \<Rightarrow> bignum option \<Rightarrow> bignum \<Rightarrow> bignum \<Rightarrow> nat \<Rightarrow> unit option \<times> bignum" where
  "bn_rshift_secret_shift A tmp r a n =
     (case tmp of
        None \<Rightarrow> (None, r)
      | Some tmp \<Rightarrow>
          andthen (BN_copy A r a) (\<lambda>_ r.
            case bn_wexpand A tmp (bn_width r) of
              (None, _) \<Rightarrow> (None, r)
            | (Some _, _) \<Rightarrow>
                (Some (), r\<lparr>bn_d := store (bn_d r) 0 (secret_shift_loop (64 * bn_width r) n 0 (take (bn_width r) (bn_d r)))\<rparr>)))"

definition bn_rshift1_words :: "limb list \<Rightarrow> limb list" where
  "bn_rshift1_words a =
     (if length a = 0 then []
      else map (\<lambda>i. drop_bit 1 (a ! i) OR push_bit (64 - 1) (a ! (i + 1))) [0..<length a - 1] @ [drop_bit 1 (a ! (length a - 1))])"

definition BN_rshift1 :: "allocator \<Rightarrow> bignum \<Rightarrow> bignum \<Rightarrow> unit option \<times> bignum" where
  "BN_rshift1 A r a =
     andthen (bn_wexpand A r (bn_width a)) (\<lambda>_ r.
       let d = store (bn_d r) 0 (bn_rshift1_words (take (bn_width a) (bn_d a)))
       in (Some (), bn_set_minimal_width (r\<lparr>bn_d := d, bn_width := bn_width a, bn_neg := bn_neg a\<rparr>)))"

definition BN_set_bit :: "allocator \<Rightarrow> bignum \<Rightarrow> int \<Rightarrow> unit option \<times> bignum" where
  "BN_set_bit A a n =
     (if n < 0 then (None, a)
      else
        let i = nat n div 64; j = nat n mod 64
        in andthen
             (if bn_width a \<le> i then
                andthen (bn_wexpand A a (i + 1)) (\<lambda>_ a.
                  (Some (), a\<lparr>bn_d := store (bn_d a) (bn_width a) (replicate (i + 1 - bn_width a) 0), bn_width := i + 1\<rparr>))
              else (Some (), a))
             (\<lambda>_ a. (Some (), a\<lparr>bn_d := (bn_d a)[i := bn_d a ! i OR push_bit j 1]\<rparr>)))"

definition BN_clear_bit :: "bignum \<Rightarrow> int \<Rightarrow> unit option \<times> bignum" where
  "BN_clear_bit a n =
     (if n < 0 then (None, a)
      else
        let i = nat n div 64; j = nat n mod 64
        in if bn_width a \<le> i then (None, a)
           else (Some (), bn_set_minimal_width (a\<lparr>bn_d := (bn_d a)[i := bn_d a ! i AND NOT (push_bit j 1)]\<rparr>)))"

definition bn_is_bit_set_words :: "limb list \<Rightarrow> nat \<Rightarrow> bool" where
  "bn_is_bit_set_words a k =
     (let i = k div 64; j = k mod 64 in if i \<ge> length a then False else drop_bit j (a ! i) AND 1 \<noteq> 0)"

definition BN_is_bit_set :: "bignum \<Rightarrow> int \<Rightarrow> bool" where
  "BN_is_bit_set a n = (if n < 0 then False else bn_is_bit_set_words (take (bn_width a) (bn_d a)) (nat n))"

definition BN_mask_bits :: "bignum \<Rightarrow> int \<Rightarrow> unit option \<times> bignum" where
  "BN_mask_bits a n =
     (if n < 0 then (None, a)
      else
        let w = nat n div 64; b = nat n mod 64
        in if w \<ge> bn_width a then (Some (), a)
           else
             let a = (if b = 0 then a\<lparr>bn_width := w\<rparr>
                      else a\<lparr>bn_width := w + 1, bn_d := (bn_d a)[w := bn_d a ! w AND NOT (push_bit b (- 1))]\<rparr>)
             in (Some (), bn_set_minimal_width a))"

text \<open>One block of \<^verbatim>\<open>bn_count_low_zero_bits_word\<close>, for the half-width \<open>k\<close>.\<close>

definition low_zero_block :: "nat \<Rightarrow> nat \<times> limb \<Rightarrow> nat \<times> limb" where
  "low_zero_block k st =
     (case st of (bits, l) \<Rightarrow>
        let m = constant_time_is_zero_w (push_bit (64 - k) l)
        in (bits + unat (word_of_nat k AND m), constant_time_select_w m (drop_bit k l) l))"

definition bn_count_low_zero_bits_word :: "limb \<Rightarrow> nat" where
  "bn_count_low_zero_bits_word l =
     fst (low_zero_block 1 (low_zero_block 2 (low_zero_block 4 (low_zero_block 8 (low_zero_block 16 (low_zero_block 32 (0, l)))))))"

fun low_zero_loop :: "nat \<Rightarrow> limb list \<Rightarrow> limb \<times> limb \<Rightarrow> limb \<times> limb" where
  "low_zero_loop i [] st = st"
| "low_zero_loop i (w # ws) (ret, saw_nonzero) =
     (let nonzero = NOT (constant_time_is_zero_w w);
          first_nonzero = NOT saw_nonzero AND nonzero;
          bits = bn_count_low_zero_bits_word w
      in low_zero_loop (i + 1) ws (ret OR (first_nonzero AND word_of_nat (i * 64 + bits)), saw_nonzero OR nonzero))"

definition BN_count_low_zero_bits :: "bignum \<Rightarrow> nat" where
  "BN_count_low_zero_bits bn = unat (fst (low_zero_loop 0 (take (bn_width bn) (bn_d bn)) (0, 0)))"

section \<open>The bits of a number\<close>

lemma bn_val_concat: "bn_val (w # ws) = concat_bit 64 (uint w) (bn_val ws)"
proof -
  have "take_bit 64 (uint w) = uint w" using uint_lt2p [of w] by (simp add: take_bit_int_eq_self)
  then show ?thesis by (simp add: concat_bit_eq push_bit_eq_mult radix_def)
qed

lemma bit_bn_val: "bit (bn_val ws) n \<longleftrightarrow> n div 64 < length ws \<and> bit (ws ! (n div 64)) (n mod 64)"
proof (induction ws arbitrary: n)
  case (Cons w ws)
  show ?case
  proof (cases "n < 64")
    case True
    then show ?thesis unfolding bn_val_concat by (simp add: bit_concat_bit_iff bit_uint_iff)
  next
    case False
    then have "n div 64 = Suc ((n - 64) div 64)" "n mod 64 = (n - 64) mod 64" by (simp_all add: le_div_geq le_mod_geq)
    then show ?thesis using False unfolding bn_val_concat by (simp add: bit_concat_bit_iff Cons)
  qed
qed simp

lemma bit_limbs_beyond: "64 \<le> n \<Longrightarrow> \<not> bit (w :: limb) n"
  by (auto dest: bit_imp_le_length)

text \<open>Words are equal as numbers when their bits are.\<close>

lemma bn_val_bitI:
  assumes "\<And>n. n div 64 < length ws \<Longrightarrow> bit (ws ! (n div 64)) (n mod 64) \<longleftrightarrow> bit x n" "\<And>n. \<not> n div 64 < length ws \<Longrightarrow> \<not> bit x n"
  shows "bn_val ws = x"
  by (rule bit_eqI) (use assms in \<open>auto simp: bit_bn_val\<close>)

lemma bn_rshift_words_length: "length (bn_rshift_words a n) = length a"
  by (auto simp: bn_rshift_words_def Let_def)

lemma rshift_bit:
  assumes "0 < b" "b < 64" "k < 64" "Suc i < length a"
  shows "bit (drop_bit b (a ! i) OR push_bit (64 - b) (a ! Suc i) :: limb) k \<longleftrightarrow>
    bit (a ! ((64 * i + b + k) div 64)) ((64 * i + b + k) mod 64)"
proof (cases "b + k < 64")
  case True
  then have "(64 * i + b + k) div 64 = i" "(64 * i + b + k) mod 64 = b + k" by (simp_all add: add.assoc)
  then show ?thesis using assms True by (auto simp: bit_or_iff bit_drop_bit_eq bit_push_bit_iff)
next
  case False
  then have e: "64 * i + b + k = (b + k - 64) + Suc i * 64" and l: "b + k - 64 < 64" using assms by simp_all
  have "(64 * i + b + k) div 64 = Suc i" "(64 * i + b + k) mod 64 = b + k - 64" unfolding e using l by (simp_all del: mult_Suc)
  moreover have "\<not> bit (a ! i) (b + k)" using False by (intro bit_limbs_beyond) simp
  moreover have "k - (64 - b) = b + k - 64" "64 - b \<le> k" using False assms by simp_all
  ultimately show ?thesis using assms by (auto simp: bit_or_iff bit_drop_bit_eq bit_push_bit_iff)
qed

lemma bn_rshift_words_nth:
  assumes "i < length a"
  shows "bn_rshift_words a n ! i =
    (let b = n mod 64; j = n div 64 + i
     in if j < length a then
          if b = 0 then a ! j else if Suc j < length a then drop_bit b (a ! j) OR push_bit (64 - b) (a ! Suc j) else drop_bit b (a ! j)
        else 0)"
proof -
  define b sw where "b = n mod 64" and "sw = n div 64"
  show ?thesis
  proof (cases "sw < length a")
    case False
    then show ?thesis using assms by (simp add: bn_rshift_words_def Let_def flip: b_def sw_def)
  next
    case True
    define hi where "hi = (if b = 0 then drop sw a
      else map (\<lambda>i. drop_bit b (a ! i) OR push_bit (64 - b) (a ! (i + 1))) [sw..<length a - 1] @ [drop_bit b (a ! (length a - 1))])"
    have r: "bn_rshift_words a n = hi @ replicate sw 0" "length hi = length a - sw"
      using True by (auto simp: bn_rshift_words_def Let_def hi_def simp flip: b_def sw_def)
    show ?thesis
    proof (cases "sw + i < length a")
      case False
      then have "i - (length a - sw) < sw" "\<not> i < length a - sw" using assms True by simp_all
      then show ?thesis using False by (simp add: r nth_append Let_def flip: b_def sw_def)
    next
      case j: True
      then have "i < length hi" unfolding r(2) by linarith
      then have ri: "bn_rshift_words a n ! i = hi ! i" unfolding r(1) by (simp add: nth_append)
      show ?thesis
      proof (cases "Suc (sw + i) < length a")
        case True
        then have "i < length a - Suc sw" by linarith
        then show ?thesis using j True by (simp add: ri hi_def Let_def nth_append flip: b_def sw_def)
      next
        case False
        then have "length a - 1 = sw + i" using j by simp
        then show ?thesis using j False by (simp add: ri hi_def Let_def nth_append flip: b_def sw_def)
      qed
    qed
  qed
qed

lemma bn_rshift_words_val: "bn_val (bn_rshift_words a n) = drop_bit n (bn_val a)"
proof (rule bn_val_bitI)
  fix m :: nat
  define i k where "i = m div 64" and "k = m mod 64"
  have m: "m = 64 * i + k" "k < 64" by (simp_all add: i_def k_def)
  define b j where "b = n mod 64" and "j = n div 64 + i"
  have n: "n + m = 64 * j + b + k" "b < 64" by (simp_all add: b_def j_def m(1))
  assume "m div 64 < length (bn_rshift_words a n)"
  then have il: "i < length a" by (simp add: i_def bn_rshift_words_length)
  have "bit (bn_rshift_words a n ! i) k \<longleftrightarrow> bit (bn_val a) (64 * j + b + k)"
  proof (cases "j < length a")
    case False
    have "j \<le> (64 * j + (b + k)) div 64" by simp
    with False show ?thesis by (simp add: bn_rshift_words_nth [OF il] Let_def bit_bn_val flip: b_def j_def) (simp add: add.assoc)
  next
    case j: True
    show ?thesis
    proof (cases "b = 0")
      case True
      then show ?thesis using j m(2) by (simp add: bn_rshift_words_nth [OF il] Let_def bit_bn_val flip: b_def j_def)
    next
      case b: False
      show ?thesis
      proof (cases "Suc j < length a")
        case True
        have "(64 * j + b + k) div 64 < length a" using True m(2) n(2) by (simp add: less_mult_imp_div_less)
        then show ?thesis using rshift_bit [of b k j a] b n(2) m(2) True
          by (simp add: bn_rshift_words_nth [OF il] Let_def bit_bn_val flip: b_def j_def)
      next
        case last: False
        then have w: "bn_rshift_words a n ! i = drop_bit b (a ! j)"
          using j b by (simp add: bn_rshift_words_nth [OF il] Let_def flip: b_def j_def)
        show ?thesis
        proof (cases "b + k < 64")
          case True
          then have "(64 * j + b + k) div 64 = j" "(64 * j + b + k) mod 64 = b + k" by (simp_all add: add.assoc)
          then show ?thesis using j by (simp add: w bit_bn_val bit_drop_bit_eq)
        next
          case False
          then have "Suc j \<le> (64 * j + b + k) div 64" by (simp add: less_eq_div_iff_mult_less_eq)
          then show ?thesis using False last j by (simp add: w bit_bn_val bit_drop_bit_eq bit_limbs_beyond)
        qed
      qed
    qed
  qed
  then show "bit (bn_rshift_words a n ! (m div 64)) (m mod 64) \<longleftrightarrow> bit (drop_bit n (bn_val a)) m"
    by (simp add: bit_drop_bit_eq n(1) flip: i_def k_def)
next
  fix m :: nat
  assume "\<not> m div 64 < length (bn_rshift_words a n)"
  then have "length a \<le> m div 64" by (simp add: bn_rshift_words_length)
  also have "\<dots> \<le> (n + m) div 64" by (intro div_le_mono) simp
  finally show "\<not> bit (drop_bit n (bn_val a)) m" by (simp add: bit_drop_bit_eq bit_bn_val)
qed

lemma bn_rshift1_words_shift: "bn_rshift1_words a = bn_rshift_words a 1"
  by (auto simp: bn_rshift1_words_def bn_rshift_words_def Let_def)

section \<open>Shifts of numbers\<close>

lemma drop_bit_nonneg_int: "drop_bit n (x :: int) = x div 2 ^ n"
  by (rule drop_bit_eq_div)

text \<open>The end shared by the operations that store as many words as the operand has.\<close>

lemma bn_store_result:
  assumes d: "bn_wexpand A r n = (Some u, d)" and A: "malloc_spec A" and ok: "bn_ok r" and l: "length ws = n"
  shows "bn_norm (bn_set_minimal_width (d\<lparr>bn_d := store (bn_d d) 0 ws, bn_width := n, bn_neg := s\<rparr>))"
    "bn_int (bn_set_minimal_width (d\<lparr>bn_d := store (bn_d d) 0 ws, bn_width := n, bn_neg := s\<rparr>)) = (if s then - bn_val ws else bn_val ws)"
    "bn_abs (bn_set_minimal_width (d\<lparr>bn_d := store (bn_d d) 0 ws, bn_width := n, bn_neg := s\<rparr>)) = bn_val ws"
proof -
  let ?r = "d\<lparr>bn_d := store (bn_d d) 0 ws, bn_width := n, bn_neg := s\<rparr>"
  have "bn_ok ?r" "bn_limbs ?r = ws" using bn_stored(1,2) [of ws d s] bn_wexpand_Some(2) [OF d A ok] unfolding l by simp_all
  then show "bn_norm (bn_set_minimal_width ?r)" "bn_int (bn_set_minimal_width ?r) = (if s then - bn_val ws else bn_val ws)"
    "bn_abs (bn_set_minimal_width ?r) = bn_val ws"
    by (simp_all only: bn_set_minimal_width [OF \<open>bn_ok ?r\<close>] bn_norm_def bn_int_def [of ?r] bn_abs_def [of ?r]) simp_all
qed

lemma BN_rshift_int:
  assumes A: "malloc_spec A" and ok: "bn_ok r" "bn_ok a" and r': "BN_rshift A r a n = (Some u, r')"
  shows "0 \<le> n \<and> bn_norm r' \<and> bn_abs r' = bn_abs a div 2 ^ nat n \<and> (bn_neg r' \<longrightarrow> bn_neg a) \<and>
    bn_int r' = (if bn_neg a then - (bn_abs a div 2 ^ nat n) else bn_abs a div 2 ^ nat n)"
proof -
  obtain d where d: "0 \<le> n" "bn_wexpand A r (bn_width a) = (Some (), d)"
    "r' = bn_set_minimal_width (d\<lparr>bn_d := store (bn_d d) 0 (bn_rshift_words (bn_limbs a) (nat n)), bn_width := bn_width a, bn_neg := bn_neg a\<rparr>)"
    using r' by (auto simp: BN_rshift_def bn_limbs_def Let_def elim!: andthen_SomeE split: if_splits)
  have l: "length (bn_rshift_words (bn_limbs a) (nat n)) = bn_width a" using ok(2) by (simp add: bn_rshift_words_length)
  have ok': "bn_ok (d\<lparr>bn_d := store (bn_d d) 0 (bn_rshift_words (bn_limbs a) (nat n)), bn_width := bn_width a, bn_neg := bn_neg a\<rparr>)"
    using bn_stored(1) [of "bn_rshift_words (bn_limbs a) (nat n)" d "bn_neg a"] bn_wexpand_Some(2) [OF d(2) A ok(1)] unfolding l by simp
  have "bn_neg r' \<longrightarrow> bn_neg a" using bn_set_minimal_width(7) [OF ok'] by (simp add: d(3))
  then show ?thesis using d(1) bn_store_result [OF d(2) A ok(1) l, of "bn_neg a", folded d(3)]
    by (simp add: bn_rshift_words_val drop_bit_nonneg_int flip: bn_abs_def)
qed

lemma BN_rshift1_shift: "BN_rshift1 A r a = BN_rshift A r a 1"
  by (auto simp: BN_rshift1_def BN_rshift_def bn_rshift1_words_shift Let_def intro!: arg_cong2 [where f = andthen] ext)

text \<open>Shifting by the powers of two in the binary digits of a secret number.\<close>

lemma select_bit: "bn_select_words (0 - (word_of_nat (k mod 2) :: limb)) a b = (if odd k then a else b)" if "length a = length b"
proof -
  have "(0 :: limb) - word_of_nat (k mod 2) = mask_of (odd k)" by (cases "odd k") (simp_all add: odd_iff_mod_2_eq_one)
  then show ?thesis using bn_select_words_mask [OF that, of "odd k"] by simp
qed

lemma bit_length_le_iff: "bit_length n \<le> i \<longleftrightarrow> n < 2 ^ i"
proof (cases "n = 0")
  case False
  note b = bit_length_bounds [of n]
  show ?thesis
  proof
    assume "bit_length n \<le> i"
    then have "(2 :: nat) ^ bit_length n \<le> 2 ^ i" by (intro power_increasing) simp_all
    then show "n < 2 ^ i" using b by linarith
  next
    assume "n < 2 ^ i"
    then have "(2 :: nat) ^ (bit_length n - 1) < 2 ^ i" using b False by linarith
    then have "bit_length n - 1 < i" by simp
    then show "bit_length n \<le> i" by linarith
  qed
qed simp

lemma mod_pow2_Suc: "n mod 2 ^ Suc i = n mod 2 ^ i + (n div 2 ^ i mod 2) * 2 ^ i" for n :: nat
  unfolding power_Suc2 mod_mult2_eq by simp

lemma mod_pow2_mono: "i \<le> j \<Longrightarrow> n mod 2 ^ i \<le> n mod 2 ^ j" for n :: nat
  by (induction j rule: dec_induct) (use mod_pow2_Suc in auto)

lemma secret_shift_loop:
  "length r = w \<Longrightarrow> i \<le> bit_length max_bits \<Longrightarrow>
   length (secret_shift_loop max_bits n i r) = w \<and>
   bn_val (secret_shift_loop max_bits n i r) = drop_bit (n mod 2 ^ bit_length max_bits - n mod 2 ^ i) (bn_val r)"
proof (induction max_bits n i r rule: secret_shift_loop.induct)
  case (1 max_bits n i r)
  show ?case
  proof (cases "max_bits div 2 ^ i = 0")
    case True
    then have "bit_length max_bits = i" using "1.prems"(2) bit_length_le_iff [of max_bits i] by (simp add: div_eq_0_iff)
    then show ?thesis using True "1.prems" by (simp add: secret_shift_loop.simps)
  next
    case False
    then have i: "Suc i \<le> bit_length max_bits" using bit_length_le_iff [of max_bits i] by (simp add: div_eq_0_iff)
    define k where "k = n div 2 ^ i"
    define r1 where "r1 = (if odd k then bn_rshift_words r (2 ^ i) else r)"
    have s: "bn_select_words (0 - (word_of_nat (k mod 2) :: limb)) (bn_rshift_words r (2 ^ i)) r = r1"
      unfolding r1_def by (rule select_bit) (simp add: bn_rshift_words_length)
    have e: "secret_shift_loop max_bits n i r = secret_shift_loop max_bits n (Suc i) r1"
      using False s by (subst secret_shift_loop.simps) (simp add: Let_def k_def)
    have l: "length r1 = w" using "1.prems"(1) by (simp add: r1_def bn_rshift_words_length)
    have v: "bn_val r1 = drop_bit ((k mod 2) * 2 ^ i) (bn_val r)"
      by (simp add: r1_def bn_rshift_words_val odd_iff_mod_2_eq_one)
    have "length (secret_shift_loop max_bits n (Suc i) r1) = w \<and>
      bn_val (secret_shift_loop max_bits n (Suc i) r1) = drop_bit (n mod 2 ^ bit_length max_bits - n mod 2 ^ Suc i) (bn_val r1)"
      using "1.IH" [OF False refl refl, unfolded k_def [symmetric] s] l i by simp
    moreover have "(n mod 2 ^ bit_length max_bits - n mod 2 ^ Suc i) + (k mod 2) * 2 ^ i = n mod 2 ^ bit_length max_bits - n mod 2 ^ i"
      using mod_pow2_mono [OF i, of n] by (simp only: mod_pow2_Suc k_def)
    ultimately show ?thesis unfolding e v drop_bit_drop_bit by simp
  qed
qed

lemma bn_rshift_secret_shift_abs:
  assumes A: "malloc_spec A" and ok: "bn_ok r" "bn_ok a" and r': "bn_rshift_secret_shift A tmp r a n = (Some u, r')"
  shows "bn_ok r' \<and> bn_neg r' = bn_neg a \<and> bn_width r' = bn_width a \<and>
    bn_abs r' = bn_abs a div 2 ^ (n mod 2 ^ bit_length (64 * bn_width a))"
proof -
  obtain d where d: "BN_copy A r a = (Some (), d)"
    "r' = d\<lparr>bn_d := store (bn_d d) 0 (secret_shift_loop (64 * bn_width d) n 0 (bn_limbs d))\<rparr>"
    using r' by (auto simp: bn_rshift_secret_shift_def bn_limbs_def elim!: andthen_SomeE split: option.splits prod.splits)
  note c = BN_copy_Some [OF d(1) A ok]
  define ws where "ws = secret_shift_loop (64 * bn_width a) n 0 (bn_limbs a)"
  have ws: "length ws = bn_width a" "bn_val ws = drop_bit (n mod 2 ^ bit_length (64 * bn_width a)) (bn_abs a)"
    using secret_shift_loop [of "bn_limbs a" "bn_width a" 0 "64 * bn_width a" n] ok(2) by (simp_all add: ws_def bn_abs_def)
  have "r' = d\<lparr>bn_d := store (bn_d d) 0 ws\<rparr>" using d(2) c(2,4) by (simp add: ws_def)
  then have "bn_ok r' \<and> bn_limbs r' = ws \<and> bn_width r' = bn_width a \<and> bn_neg r' = bn_neg a"
    using c ws(1) by (simp add: bn_ok_def bn_limbs_def store_full)
  then show ?thesis using ws(2) by (simp add: bn_abs_def [of r'] drop_bit_nonneg_int)
qed

subsection \<open>Shifts to the left\<close>

lemma uint_push_drop:
  assumes "b < 64"
  shows "uint (push_bit b l :: limb) + radix * uint (drop_bit (64 - b) l) = 2 ^ b * uint l"
proof -
  have "push_bit b (uint l) = concat_bit 64 (uint (push_bit b l)) (uint (drop_bit (64 - b) l))"
  proof (rule bit_eqI)
    fix n
    show "bit (push_bit b (uint l)) n \<longleftrightarrow> bit (concat_bit 64 (uint (push_bit b l)) (uint (drop_bit (64 - b) l))) n"
      using assms by (cases "n < 64")
        (auto simp: bit_push_bit_iff bit_concat_bit_iff bit_uint_iff bit_drop_bit_eq bit_simps dest: bit_imp_le_length)
  qed
  also have "\<dots> = uint (push_bit b l) + radix * uint (drop_bit (64 - b) l)"
    using uint_lt2p [of "push_bit b l"] by (simp add: concat_bit_eq push_bit_eq_mult radix_def take_bit_int_eq_self)
  finally show ?thesis by (simp add: push_bit_eq_mult mult.commute)
qed

lemma uint_or_disjoint: "a AND b = 0 \<Longrightarrow> uint (a OR b) = uint a + uint (b :: limb)"
proof -
  assume "a AND b = 0"
  then have "uint a AND uint b = 0" by (simp flip: unsigned_and_eq)
  then show ?thesis by (simp add: unsigned_or_eq disjunctive_add_eq_or)
qed

text \<open>The loop from the top: the words from \<open>i\<close> on hold the shifted words from \<open>i\<close> on, with room at the bottom.\<close>

lemma drop_update_at: "i < length t \<Longrightarrow> drop i (t[i := x]) = x # drop (Suc i) t"
  by (simp add: drop_update_swap Cons_nth_drop_Suc [symmetric])

lemma lshift_loop:
  assumes "0 < lb" "lb < 64" "i \<le> length f" "length t = nw + length f + 1"
    and "bn_val (drop (nw + i) t) = 2 ^ lb * bn_val (drop i f)" "take_bit lb (t ! (nw + i)) = 0"
  shows "length (lshift_loop f lb nw i t) = length t \<and> bn_val (drop nw (lshift_loop f lb nw i t)) = 2 ^ lb * bn_val f"
  using assms(3-6)
proof (induction i arbitrary: t)
  case (Suc i)
  define l x where "l = f ! i" and "x = t ! (nw + Suc i) OR drop_bit (64 - lb) l"
  define t' where "t' = t[nw + i + 1 := x, nw + i := push_bit lb l]"
  have len: "nw + Suc i < length t" using Suc.prems(1,2) by simp
  have d: "drop (nw + i) t' = push_bit lb l # x # drop (Suc (nw + Suc i)) t"
    using len by (simp add: t'_def drop_update_at list_update_swap [of "nw + i + 1" "nw + i"])
  have "drop_bit (64 - lb) l AND t ! (nw + Suc i) = 0"
  proof (rule bit_word_eqI)
    fix n
    have "\<not> bit (t ! (nw + Suc i)) n" if "n < lb"
      using that arg_cong [OF Suc.prems(4), of "\<lambda>w. bit w n"] by (simp add: bit_take_bit_iff)
    moreover have "\<not> bit (drop_bit (64 - lb) l) n" if "\<not> n < lb"
      using that assms(2) by (simp add: bit_drop_bit_eq bit_limbs_beyond)
    ultimately show "bit (drop_bit (64 - lb) l AND t ! (nw + Suc i)) n \<longleftrightarrow> bit 0 n" by (auto simp: bit_and_iff)
  qed
  then have x: "uint x = uint (t ! (nw + Suc i)) + uint (drop_bit (64 - lb) l)"
    by (simp add: x_def uint_or_disjoint and.commute)
  have "drop (nw + Suc i) t = t ! (nw + Suc i) # drop (Suc (nw + Suc i)) t" using len by (simp add: Cons_nth_drop_Suc)
  then have "bn_val (drop (nw + Suc i) t) = uint (t ! (nw + Suc i)) + radix * bn_val (drop (Suc (nw + Suc i)) t)" by simp
  then have "bn_val (drop (nw + i) t') = (uint (push_bit lb l) + radix * uint (drop_bit (64 - lb) l)) + radix * bn_val (drop (nw + Suc i) t)"
    unfolding d by (simp add: x algebra_simps)
  also have "\<dots> = 2 ^ lb * (uint l + radix * bn_val (drop (Suc i) f))"
    unfolding uint_push_drop [OF assms(2)] Suc.prems(3) by (simp add: algebra_simps)
  also have "uint l + radix * bn_val (drop (Suc i) f) = bn_val (drop i f)"
    using Suc.prems(1) by (simp add: l_def Cons_nth_drop_Suc [symmetric])
  finally have v: "bn_val (drop (nw + i) t') = 2 ^ lb * bn_val (drop i f)" .
  have "t' ! (nw + i) = push_bit lb l" using len by (simp add: t'_def)
  then have z: "take_bit lb (t' ! (nw + i)) = 0" by (simp add: bit_eq_iff bit_simps)
  have "length t' = nw + length f + 1" using Suc.prems(2) by (simp add: t'_def)
  from Suc.IH [OF _ this v z] Suc.prems(1) have
    "length (lshift_loop f lb nw i t') = length t' \<and> bn_val (drop nw (lshift_loop f lb nw i t')) = 2 ^ lb * bn_val f" by simp
  moreover have "lshift_loop f lb nw (Suc i) t = lshift_loop f lb nw i t'" by (simp add: t'_def x_def l_def Let_def)
  moreover have "length t' = length t" by (simp add: t'_def)
  ultimately show ?case by simp
qed simp

lemma lshift_loop_within:
  "i \<le> length f \<Longrightarrow> nw + i < length t \<Longrightarrow> lshift_loop (f @ g) lb nw i (t @ u) = lshift_loop f lb nw i t @ u"
  by (induction i arbitrary: t) (simp_all add: Let_def nth_append list_update_append1)

lemma length_lshift_loop [simp]: "length (lshift_loop f lb nw i t) = length t"
  by (induction i arbitrary: t) (simp_all add: Let_def)

lemma BN_lshift_int:
  assumes A: "malloc_spec A" and ok: "bn_ok r" "bn_ok a" and r': "BN_lshift A r a n = (Some u, r')"
  shows "0 \<le> n \<and> bn_norm r' \<and> bn_abs r' = bn_abs a * 2 ^ nat n \<and> bn_int r' = bn_int a * 2 ^ nat n"
proof -
  define nw lb w where "nw = nat n div 64" and "lb = nat n mod 64" and "w = bn_width a"
  have n: "nat n = 64 * nw + lb" "lb < 64" by (simp_all add: nw_def lb_def)
  let ?r = "r\<lparr>bn_neg := bn_neg a\<rparr>"
  obtain d where d: "0 \<le> n" "bn_wexpand A ?r (w + nw + 1) = (Some (), d)"
    "r' = bn_set_minimal_width (d\<lparr>bn_d := store (if lb = 0 then store ((bn_d d)[w + nw := 0]) nw (bn_limbs a)
        else lshift_loop (bn_d a) lb nw w ((bn_d d)[w + nw := 0])) 0 (replicate nw 0), bn_width := w + nw + 1\<rparr>)"
    using r' by (auto simp: BN_lshift_def bn_limbs_def Let_def nw_def lb_def w_def elim!: andthen_SomeE split: if_splits)
  have okr: "bn_ok ?r" using ok(1) by (simp add: bn_ok_def)
  note x = bn_wexpand_Some [OF d(2) A okr]
  define t0 rest where "t0 = (take (w + nw + 1) (bn_d d))[w + nw := 0]" and "rest = drop (w + nw + 1) (bn_d d)"
  have t0: "length t0 = nw + w + 1" using x(2) by (simp add: t0_def)
  have dd: "(bn_d d)[w + nw := 0] = t0 @ rest"
    using x(2) append_take_drop_id [of "w + nw + 1" "bn_d d"] list_update_append1 [of "w + nw" "take (w + nw + 1) (bn_d d)" "drop (w + nw + 1) (bn_d d)" 0]
    by (simp add: t0_def rest_def)
  have la: "length (bn_limbs a) = w" using ok(2) by (simp add: w_def)
  have top: "t0 ! (nw + w) = 0" using x(2) by (simp add: t0_def add.commute)
  then have dt: "drop (nw + w) t0 = [0]" using t0 by (simp add: Cons_nth_drop_Suc [symmetric])
  define t where "t = (if lb = 0 then store t0 nw (bn_limbs a) else lshift_loop (bn_limbs a) lb nw w t0)"
  have t: "length t = nw + w + 1" "bn_val (drop nw t) = 2 ^ lb * bn_abs a"
  proof -
    have "length t = nw + w + 1 \<and> bn_val (drop nw t) = 2 ^ lb * bn_abs a"
    proof (cases "lb = 0")
      case True
      have "drop nw t = bn_limbs a @ drop (nw + w) t0" using True t0 la by (simp add: t_def store_def min_def)
      then have "bn_val (drop nw t) = bn_abs a" by (simp add: dt bn_abs_def bn_val_append)
      then show ?thesis using True t0 la by (simp add: t_def)
    next
      case False
      then show ?thesis using lshift_loop [of lb w "bn_limbs a" t0 nw] n(2) la t0 dt top by (simp add: t_def bn_abs_def)
    qed
    then show "length t = nw + w + 1" "bn_val (drop nw t) = 2 ^ lb * bn_abs a" by simp_all
  qed
  have st: "(if lb = 0 then store (t0 @ rest) nw (bn_limbs a) else lshift_loop (bn_d a) lb nw w (t0 @ rest)) = t @ rest"
    using lshift_loop_within [of w "bn_limbs a" nw t0 "drop w (bn_d a)" lb rest] la t0
    by (auto simp: t_def store_def bn_limbs_def w_def)
  define ws where "ws = replicate nw 0 @ drop nw t"
  have ws: "length ws = w + nw + 1" "store (t @ rest) 0 (replicate nw 0) = store (bn_d d) 0 ws"
    using t(1) by (simp_all add: ws_def store_def rest_def add.commute [of w nw])
  have e: "r' = bn_set_minimal_width (d\<lparr>bn_d := store (bn_d d) 0 ws, bn_width := w + nw + 1, bn_neg := bn_neg a\<rparr>)"
    using x(5) bignum.surjective [of d] unfolding d(3) dd st ws(2) by (cases d) simp
  have "bn_val ws = radix ^ nw * (2 ^ lb * bn_abs a)" by (simp add: ws_def bn_val_append t(2))
  also have "\<dots> = bn_abs a * 2 ^ nat n" by (simp add: n(1) radix_power power_add)
  finally have v: "bn_val ws = bn_abs a * 2 ^ nat n" .
  show ?thesis using d(1) bn_store_result [OF d(2) A okr ws(1), of "bn_neg a", folded e] by (simp add: v bn_int_def [of a])
qed

interpretation lshift1: carry_chain lshift1_step "\<lambda>t. 2 * uint t" uint "\<lambda>c. uint c \<le> 1"
proof (unfold_locales, goal_cases)
  case (1 c t r c')
  have r: "r = push_bit 1 t OR c" "c' = drop_bit (64 - 1) t" using 1(2) by (simp_all add: lshift1_step_def)
  have v: "uint (push_bit 1 t) + radix * uint c' = 2 * uint t" using uint_push_drop [of 1 t] by (simp add: r(2))
  have "push_bit 1 t AND 1 = 0" by (rule bit_word_eqI) (auto simp: bit_and_iff bit_push_bit_iff bit_1_iff simp del: push_bit_Suc push_bit_of_1)
  then have "push_bit 1 t AND c = 0" using limb_0_1 [OF 1(1)] by auto
  then have "uint r = uint (push_bit 1 t) + uint c" unfolding r(1) by (rule uint_or_disjoint)
  moreover have "uint c' \<le> 1"
  proof (rule ccontr)
    assume "\<not> uint c' \<le> 1"
    then have "radix * 2 \<le> radix * uint c'" by (intro mult_left_mono) simp_all
    moreover have "0 \<le> uint (push_bit 1 t)" by simp
    ultimately show False using v uint_limb(2) [of t] by linarith
  qed
  ultimately show ?case using v by simp
qed

lemma BN_lshift1_int:
  assumes A: "malloc_spec A" and ok: "bn_ok r" "bn_norm a" and r': "BN_lshift1 A r a = (Some u, r')"
  shows "bn_norm r' \<and> bn_int r' = 2 * bn_int a"
proof -
  let ?r = "r\<lparr>bn_neg := bn_neg a\<rparr>"
  obtain d where d: "bn_wexpand A ?r (bn_width a + 1) = (Some (), d)"
    using r' by (auto simp: BN_lshift1_def Let_def elim!: andthen_SomeE)
  obtain ws c where w: "words1 lshift1_step (bn_limbs a) 0 = (ws, c)" by (rule prod.exhaust)
  have okr: "bn_ok ?r" using ok(1) by (simp add: bn_ok_def)
  note x = bn_wexpand_Some [OF d A okr]
  note oka = bn_norm_ok [OF ok(2)]
  from lshift1.chain [OF _ w] oka have l: "length ws = bn_width a" "uint c \<le> 1"
    "bn_val ws + radix ^ bn_width a * uint c = 2 * bn_abs a" by (simp_all add: weighted_scale bn_val_weighted bn_abs_def)
  have e: "r' = (if c \<noteq> 0 then d\<lparr>bn_d := (store (bn_d d) 0 ws)[bn_width a := 1], bn_width := bn_width a + 1\<rparr>
      else d\<lparr>bn_d := store (bn_d d) 0 ws, bn_width := bn_width a\<rparr>)"
    using r' d w by (cases "c = 0") (simp_all add: BN_lshift1_def Let_def bn_limbs_def)
  have "bn_ok r' \<and> bn_abs r' = 2 * bn_abs a"
  proof (cases "c = 0")
    case True
    have "bn_ok r'" "bn_limbs r' = ws" using e True bn_stored(3,4) [of ws d] x(2) l(1) by simp_all
    then show ?thesis using l(3) True by (simp add: bn_abs_def [of r'])
  next
    case False
    then have c: "c = 1" using limb_0_1 [OF l(2)] by simp
    have st: "(store (bn_d d) 0 ws)[bn_width a := 1] = store (bn_d d) 0 (ws @ [1])"
      using x(2) l(1) by (simp add: store_def list_update_append Cons_nth_drop_Suc [symmetric])
    have "bn_ok r'" "bn_limbs r' = ws @ [1]"
      using e False bn_stored(3,4) [of "ws @ [1]" d] x(2) l(1) by (simp_all add: st)
    then show ?thesis using l(1,3) by (simp add: bn_abs_def [of r'] bn_val_append c)
  qed
  moreover have "bn_neg r' = bn_neg a" using e x(5) by simp
  ultimately show ?thesis using ok(2) by (simp add: bn_norm_def bn_int_def)
qed

section \<open>Bits of numbers\<close>

lemma bit_bn_abs: "bn_ok a \<Longrightarrow> bit (bn_abs a) n \<longleftrightarrow> n div 64 < bn_width a \<and> bit (bn_d a ! (n div 64)) (n mod 64)"
  by (auto simp: bn_abs_def bit_bn_val) (auto simp: bn_limbs_def bn_ok_def)

lemma bn_is_bit_set_words: "bn_is_bit_set_words ws n \<longleftrightarrow> bit (bn_val ws) n"
proof -
  have "drop_bit j (w :: limb) AND 1 \<noteq> 0 \<longleftrightarrow> bit w j" for j w
    by (simp add: and_one_eq odd_iff_mod_2_eq_one [symmetric] bit_iff_odd_drop_bit)
  then show ?thesis by (simp add: bn_is_bit_set_words_def bit_bn_val Let_def not_le)
qed

lemma BN_is_bit_set: "BN_is_bit_set a n \<longleftrightarrow> 0 \<le> n \<and> bit (bn_abs a) (nat n)"
  by (simp add: BN_is_bit_set_def bn_is_bit_set_words bn_abs_def bn_limbs_def)

text \<open>A number of which one word changes.\<close>

lemma bit_update_word:
  assumes "bn_ok a" "i < bn_width a"
  shows "bit (bn_abs (a\<lparr>bn_d := (bn_d a)[i := x]\<rparr>)) n \<longleftrightarrow> (if n div 64 = i then bit x (n mod 64) else bit (bn_abs a) n)"
  using assms by (auto simp: bit_bn_abs bn_ok_def nth_list_update)

lemma bit_or_single: "j < 64 \<Longrightarrow> n < 64 \<Longrightarrow> bit ((w :: limb) OR push_bit j 1) n \<longleftrightarrow> bit w n \<or> n = j"
  by (auto simp: bit_or_iff bit_exp_iff)

lemma bit_and_single: "j < 64 \<Longrightarrow> n < 64 \<Longrightarrow> bit ((w :: limb) AND NOT (push_bit j 1)) n \<longleftrightarrow> bit w n \<and> n \<noteq> j"
  by (auto simp: bit_and_iff bit_not_iff bit_exp_iff)

lemma BN_set_bit_abs:
  assumes A: "malloc_spec A" and ok: "bn_ok a" and r': "BN_set_bit A a n = (Some u, r')"
  shows "0 \<le> n \<and> bn_ok r' \<and> bn_neg r' = bn_neg a \<and> bn_abs r' = Bit_Operations.set_bit (nat n) (bn_abs a)"
proof -
  define i j where "i = nat n div 64" and "j = nat n mod 64"
  have n: "nat n = 64 * i + j" "j < 64" by (simp_all add: i_def j_def)
  obtain b where b: "0 \<le> n" "(if bn_width a \<le> i then
                andthen (bn_wexpand A a (i + 1)) (\<lambda>_ a.
                  (Some (), a\<lparr>bn_d := store (bn_d a) (bn_width a) (replicate (i + 1 - bn_width a) 0), bn_width := i + 1\<rparr>))
              else (Some (), a)) = (Some (), b)" "r' = b\<lparr>bn_d := (bn_d b)[i := bn_d b ! i OR push_bit j 1]\<rparr>"
    using r' by (auto simp: BN_set_bit_def Let_def i_def j_def elim!: andthen_SomeE split: if_splits)
  have b': "bn_ok b \<and> i < bn_width b \<and> bn_abs b = bn_abs a \<and> bn_neg b = bn_neg a"
  proof (cases "bn_width a \<le> i")
    case True
    then obtain d where d: "bn_wexpand A a (i + 1) = (Some (), d)"
      "b = d\<lparr>bn_d := store (bn_d d) (bn_width d) (replicate (i + 1 - bn_width d) 0), bn_width := i + 1\<rparr>"
      using b(2) by (auto elim!: andthen_SomeE)
    note x = bn_wexpand_Some [OF d(1) A ok]
    have "bn_limbs b = bn_limbs d @ replicate (i + 1 - bn_width d) 0"
      using x(1,2,4) True by (simp add: d(2) bn_limbs_def store_def min_def bn_ok_def)
    then have "bn_abs b = bn_abs a" by (simp add: bn_abs_def bn_val_append x(3))
    then show ?thesis using x True by (simp add: d(2) bn_ok_def)
  next
    case False
    then show ?thesis using b(2) ok by simp
  qed
  have "bn_abs r' = Bit_Operations.set_bit (nat n) (bn_abs a)"
  proof (rule bit_eqI)
    fix k
    have kn: "k = nat n \<longleftrightarrow> k div 64 = i \<and> k mod 64 = j" using n(1) by (metis div_mult_mod_eq mult.commute i_def j_def)
    have bk: "bit (bn_abs a) k = (k div 64 < bn_width b \<and> bit (bn_d b ! (k div 64)) (k mod 64))"
      using b' bit_bn_abs [of b k] by simp
    have wk: "bit (bn_d b ! i OR push_bit j 1) (k mod 64) = (bit (bn_d b ! i) (k mod 64) \<or> k mod 64 = j)"
      by (rule bit_or_single) (simp_all add: n(2))
    have up: "bit (bn_abs r') k = (if k div 64 = i then bit (bn_d b ! i) (k mod 64) \<or> k mod 64 = j else bit (bn_abs a) k)"
      using b' bit_update_word [of b i "bn_d b ! i OR push_bit j 1" k] unfolding b(3) wk by simp
    show "bit (bn_abs r') k \<longleftrightarrow> bit (Bit_Operations.set_bit (nat n) (bn_abs a)) k"
    proof (cases "k div 64 = i")
      case True
      then show ?thesis using b' kn unfolding up bit_set_bit_iff bk by auto
    next
      case False
      then have "k \<noteq> nat n" using kn by blast
      then show ?thesis using False unfolding up bit_set_bit_iff by simp
    qed
  qed
  then show ?thesis using b(1,3) b' by (simp add: bn_ok_def)
qed

lemma BN_clear_bit_abs:
  assumes ok: "bn_ok a" and n: "0 \<le> n"
  shows "BN_clear_bit a n = (if nat n div 64 < bn_width a then (Some (), snd (BN_clear_bit a n)) else (None, a))"
    "nat n div 64 < bn_width a \<Longrightarrow> bn_ok (snd (BN_clear_bit a n)) \<and>
      bn_abs (snd (BN_clear_bit a n)) = unset_bit (nat n) (bn_abs a)"
proof -
  define i j where "i = nat n div 64" and "j = nat n mod 64"
  show "BN_clear_bit a n = (if nat n div 64 < bn_width a then (Some (), snd (BN_clear_bit a n)) else (None, a))"
    using n by (simp add: BN_clear_bit_def Let_def)
  assume lt: "nat n div 64 < bn_width a"
  let ?a = "a\<lparr>bn_d := (bn_d a)[i := bn_d a ! i AND NOT (push_bit j 1)]\<rparr>"
  have e: "snd (BN_clear_bit a n) = bn_set_minimal_width ?a" using n lt by (simp add: BN_clear_bit_def Let_def i_def j_def)
  have okA: "bn_ok ?a" using ok by (simp add: bn_ok_def)
  have "bn_abs ?a = unset_bit (nat n) (bn_abs a)"
  proof (rule bit_eqI)
    fix k
    have j: "j < 64" "i < bn_width a" using lt by (simp_all add: j_def i_def)
    have kn: "k = nat n \<longleftrightarrow> k div 64 = i \<and> k mod 64 = j" unfolding i_def j_def by (metis div_mult_mod_eq)
    have wk: "bit (bn_d a ! i AND NOT (push_bit j 1)) (k mod 64) = (bit (bn_d a ! i) (k mod 64) \<and> k mod 64 \<noteq> j)"
      by (rule bit_and_single) (simp_all add: j(1))
    show "bit (bn_abs ?a) k \<longleftrightarrow> bit (unset_bit (nat n) (bn_abs a)) k"
    proof (cases "k div 64 = i")
      case True
      then show ?thesis using j(2) kn unfolding bit_update_word [OF ok j(2)] bit_unset_bit_iff wk bit_bn_abs [OF ok] by auto
    next
      case False
      then have "k \<noteq> nat n" using kn by blast
      then show ?thesis using False unfolding bit_update_word [OF ok j(2)] bit_unset_bit_iff by simp
    qed
  qed
  then show "bn_ok (snd (BN_clear_bit a n)) \<and> bn_abs (snd (BN_clear_bit a n)) = unset_bit (nat n) (bn_abs a)"
    using bn_set_minimal_width [OF okA] by (simp add: e)
qed

lemma BN_mask_bits_abs:
  assumes ok: "bn_ok a" and n: "0 \<le> n"
  shows "fst (BN_mask_bits a n) = Some () \<and> bn_ok (snd (BN_mask_bits a n)) \<and>
    bn_abs (snd (BN_mask_bits a n)) = take_bit (nat n) (bn_abs a)"
proof -
  define w b where "w = nat n div 64" and "b = nat n mod 64"
  have nn: "nat n = 64 * w + b" "b < 64" by (simp_all add: w_def b_def)
  show ?thesis
  proof (cases "bn_width a \<le> w")
    case True
    have "bn_abs a < 2 ^ (64 * bn_width a)"
      using ok bn_val_bound [of "bn_limbs a"] by (simp add: bn_abs_def radix_power [symmetric] bn_limbs_def bn_ok_def)
    also have "\<dots> \<le> 2 ^ nat n" using True nn(1) by (intro power_increasing) simp_all
    finally have "take_bit (nat n) (bn_abs a) = bn_abs a" by (simp add: take_bit_int_eq_self bn_abs_def)
    then show ?thesis using True n ok by (simp add: BN_mask_bits_def w_def [symmetric])
  next
    case False
    define a' where "a' = (if b = 0 then a\<lparr>bn_width := w\<rparr>
                      else a\<lparr>bn_width := w + 1, bn_d := (bn_d a)[w := bn_d a ! w AND NOT (push_bit b (- 1))]\<rparr>)"
    have e: "BN_mask_bits a n = (Some (), bn_set_minimal_width a')"
      using False n unfolding BN_mask_bits_def Let_def w_def [symmetric] b_def [symmetric] a'_def by simp
    have ok': "bn_ok a'" using ok False by (auto simp: a'_def bn_ok_def)
    have "bn_abs a' = take_bit (nat n) (bn_abs a)"
    proof (rule bit_eqI)
      fix k :: nat
      have k: "k = 64 * (k div 64) + k mod 64" "k mod 64 < 64" by simp_all
      show "bit (bn_abs a') k \<longleftrightarrow> bit (take_bit (nat n) (bn_abs a)) k"
      proof (cases "b = 0")
        case True
        have "k < nat n \<longleftrightarrow> k div 64 < w" using True nn(1) k by linarith
        then show ?thesis using True False unfolding bit_bn_abs [OF ok'] bit_take_bit_iff bit_bn_abs [OF ok] by (auto simp: a'_def)
      next
        case b: False
        have m: "bit (bn_d a ! w AND NOT (push_bit b (- 1))) (k mod 64) = (bit (bn_d a ! w) (k mod 64) \<and> k mod 64 < b)"
          by (auto simp: bit_and_iff bit_not_iff bit_push_bit_iff bit_mask_iff)
        have kn: "k < nat n \<longleftrightarrow> k div 64 < w \<or> k div 64 = w \<and> k mod 64 < b" using nn k by linarith
        have nth: "w < length (bn_d a)" using False ok by (simp add: bn_ok_def)
        show ?thesis using b False nth m unfolding bit_bn_abs [OF ok'] bit_take_bit_iff bit_bn_abs [OF ok] kn
          by (cases "k div 64 = w") (auto simp: a'_def)
      qed
    qed
    then show ?thesis using bn_set_minimal_width(1,2) [OF ok'] by (simp add: e)
  qed
qed

section \<open>The lowest set bit\<close>

definition first_bit :: "'a :: semiring_bits \<Rightarrow> nat \<Rightarrow> bool" where
  "first_bit a n \<longleftrightarrow> bit a n \<and> (\<forall>i<n. \<not> bit a i)"

lemma push_bit_zero_iff: "k \<le> 64 \<Longrightarrow> push_bit (64 - k) (l :: limb) = 0 \<longleftrightarrow> (\<forall>i<k. \<not> bit l i)"
proof (intro iffI allI impI)
  fix i assume "k \<le> 64" "push_bit (64 - k) l = 0" "i < k"
  then have "\<not> bit (push_bit (64 - k) l) (64 - k + i)" by simp
  then show "\<not> bit l i" using \<open>k \<le> 64\<close> \<open>i < k\<close> by (simp add: bit_push_bit_iff)
next
  assume "k \<le> 64" "\<forall>i<k. \<not> bit l i"
  then show "push_bit (64 - k) l = 0" by (intro bit_word_eqI) (auto simp: bit_push_bit_iff)
qed

lemma low_zero_block:
  assumes "first_bit l j" "j < 2 * k" "0 < k" "k \<le> 32" "low_zero_block k (bits, l) = (bits', l')"
  shows "\<exists>j'. first_bit l' j' \<and> j' < k \<and> bits' + j' = bits + j"
proof (cases "j < k")
  case True
  then have "push_bit (64 - k) l \<noteq> 0" using assms(1,4) push_bit_zero_iff [of k l] by (auto simp: first_bit_def)
  then have "bits' = bits" "l' = l" using assms(5) by (simp_all add: low_zero_block_def constant_time)
  with assms(1) True show ?thesis by blast
next
  case False
  then have "\<forall>i<k. \<not> bit l i" using assms(1) by (simp add: first_bit_def)
  then have "push_bit (64 - k) l = 0" using assms(4) push_bit_zero_iff [of k l] by simp
  moreover have "unat (word_of_nat k :: limb) = k" using assms(4) by (simp add: unat_of_nat)
  ultimately have "bits' = bits + k" "l' = drop_bit k l" using assms(5) by (simp_all add: low_zero_block_def constant_time)
  moreover have "first_bit (drop_bit k l) (j - k)" using assms(1) False by (auto simp: first_bit_def bit_drop_bit_eq)
  ultimately show ?thesis using False assms(2) by (intro exI [of _ "j - k"]) auto
qed

lemma bn_count_low_zero_bits_word:
  assumes "first_bit l j" "j < 64"
  shows "bn_count_low_zero_bits_word l = j"
proof -
  obtain b1 l1 where 1: "low_zero_block 32 (0, l) = (b1, l1)" by (rule prod.exhaust)
  obtain b2 l2 where 2: "low_zero_block 16 (b1, l1) = (b2, l2)" by (rule prod.exhaust)
  obtain b3 l3 where 3: "low_zero_block 8 (b2, l2) = (b3, l3)" by (rule prod.exhaust)
  obtain b4 l4 where 4: "low_zero_block 4 (b3, l3) = (b4, l4)" by (rule prod.exhaust)
  obtain b5 l5 where 5: "low_zero_block 2 (b4, l4) = (b5, l5)" by (rule prod.exhaust)
  obtain b6 l6 where 6: "low_zero_block 1 (b5, l5) = (b6, l6)" by (rule prod.exhaust)
  obtain j1 where j1: "first_bit l1 j1" "j1 < 32" "b1 + j1 = j" using low_zero_block [OF assms(1) _ _ _ 1] assms(2) by auto
  obtain j2 where j2: "first_bit l2 j2" "j2 < 16" "b2 + j2 = j" using low_zero_block [OF j1(1) _ _ _ 2] j1(2,3) by auto
  obtain j3 where j3: "first_bit l3 j3" "j3 < 8" "b3 + j3 = j" using low_zero_block [OF j2(1) _ _ _ 3] j2(2,3) by auto
  obtain j4 where j4: "first_bit l4 j4" "j4 < 4" "b4 + j4 = j" using low_zero_block [OF j3(1) _ _ _ 4] j3(2,3) by auto
  obtain j5 where j5: "first_bit l5 j5" "j5 < 2" "b5 + j5 = j" using low_zero_block [OF j4(1) _ _ _ 5] j4(2,3) by auto
  obtain j6 where j6: "j6 < 1" "b6 + j6 = j" using low_zero_block [OF j5(1) _ _ _ 6] j5(2,3) by auto
  show ?thesis using j6 by (simp add: bn_count_low_zero_bits_word_def 1 2 3 4 5 6 del: One_nat_def)
qed

lemma bit_bn_val_Cons: "bit (bn_val (w # ws)) n = (if n < 64 then bit w n else bit (bn_val ws) (n - 64))"
  unfolding bn_val_concat bit_concat_bit_iff by (auto simp: bit_uint_iff)

lemma low_zero_loop_seen: "low_zero_loop i ws (ret, - 1) = (ret, - 1)"
  by (induction ws arbitrary: i) (simp_all add: Let_def)

lemma low_zero_loop:
  "first_bit (bn_val ws) j \<Longrightarrow> fst (low_zero_loop i ws (0, 0)) = word_of_nat (i * 64 + j)"
proof (induction ws arbitrary: i j)
  case (Cons w ws)
  note fb = Cons.prems [unfolded first_bit_def bit_bn_val_Cons]
  show ?case
  proof (cases "w = 0")
    case True
    then have j: "64 \<le> j" using fb by (auto split: if_splits)
    moreover have "first_bit (bn_val ws) (j - 64)" unfolding first_bit_def
    proof (intro conjI allI impI)
      show "bit (bn_val ws) (j - 64)" using fb j by simp
      fix i assume "i < j - 64"
      then show "\<not> bit (bn_val ws) i" using fb by (auto dest: spec [of _ "i + 64"])
    qed
    ultimately show ?thesis using True Cons.IH [of "j - 64" "i + 1"] by (simp add: constant_time algebra_simps)
  next
    case False
    then obtain m where m: "bit w m" by (metis bit_eq_iff bit_0_eq bot_apply bot_bool_def)
    have "m < 64" using bit_imp_le_length [OF m] by simp
    then have "j \<le> m" using fb m by (metis not_le)
    then have j: "j < 64" "first_bit w j" using fb \<open>m < 64\<close> by (auto simp: first_bit_def)
    then show ?thesis using False by (simp add: constant_time bn_count_low_zero_bits_word low_zero_loop_seen algebra_simps Let_def)
  qed
qed (simp add: first_bit_def)

lemma BN_count_low_zero_bits:
  assumes ok: "bn_ok a" "64 * bn_width a < 2 ^ 64"
  shows "bn_abs a = 0 \<Longrightarrow> BN_count_low_zero_bits a = 0"
    "first_bit (bn_abs a) j \<Longrightarrow> BN_count_low_zero_bits a = j"
proof -
  have z: "low_zero_loop i ws (0, 0) = (0, 0)" if "\<forall>w \<in> set ws. w = 0" for i ws
    using that by (induction ws arbitrary: i) (simp_all add: constant_time Let_def)
  show "BN_count_low_zero_bits a = 0" if "bn_abs a = 0"
    using z [of "bn_limbs a"] that by (simp add: BN_count_low_zero_bits_def bn_abs_def bn_val_zero_iff bn_limbs_def)
  assume j: "first_bit (bn_abs a) j"
  then have "j div 64 < bn_width a" using bit_bn_abs [OF ok(1), of j] by (simp add: first_bit_def)
  then have "j < 2 ^ 64" using ok(2) by (simp add: less_mult_imp_div_less div_less_iff_less_mult)
  then show "BN_count_low_zero_bits a = j"
    using low_zero_loop [of "bn_limbs a" j 0] j by (simp add: BN_count_low_zero_bits_def bn_abs_def bn_limbs_def unat_of_nat)
qed

section \<open>Shifts as products and quotients\<close>

lemma BN_shift_total:
  assumes A: "\<forall>n. A n \<noteq> None" and st: "\<not> bn_static r" and n: "0 \<le> n" "bn_width a + nat n div 64 < 8388607"
  shows "fst (BN_lshift A r a n) = Some () \<and> fst (BN_rshift A r a n) = Some ()"
proof -
  obtain d where "bn_wexpand A (r\<lparr>bn_neg := bn_neg a\<rparr>) (bn_width a + nat n div 64 + 1) = (Some (), d)"
    using bn_wexpand_total [OF A, of "r\<lparr>bn_neg := bn_neg a\<rparr>" "bn_width a + nat n div 64 + 1"] st n by auto
  moreover obtain e where "bn_wexpand A r (bn_width a) = (Some (), e)"
    using bn_wexpand_total [OF A st, of "bn_width a"] n by auto
  ultimately show ?thesis using n(1) by (simp add: BN_lshift_def BN_rshift_def Let_def)
qed

text \<open>C9. \<^verbatim>\<open>BN_lshift\<close> multiplies by a power of two and \<^verbatim>\<open>BN_rshift\<close> divides by it, rounding towards zero as
  the division of C does; neither returns a negative zero, and both succeed when the allocator provides
  the memory.\<close>

theorem BN_shift_exact:
  assumes A: "malloc_spec A" and ok: "bn_ok r" "bn_norm a" and n: "0 \<le> n"
  shows "(\<forall>p. BN_lshift A r a n = (Some (), p) \<longrightarrow> bn_norm p \<and> bn_int p = bn_int a * 2 ^ nat n) \<and>
    (\<forall>p. BN_rshift A r a n = (Some (), p) \<longrightarrow> bn_norm p \<and> bn_int p = bn_int a sdiv 2 ^ nat n) \<and>
    ((\<forall>k. A k \<noteq> None) \<and> \<not> bn_static r \<and> bn_width a + nat n div 64 < 8388607 \<longrightarrow>
       fst (BN_lshift A r a n) = Some () \<and> fst (BN_rshift A r a n) = Some ())"
proof -
  have "bn_int a sdiv 2 ^ nat n = (if bn_neg a then - (bn_abs a div 2 ^ nat n) else bn_abs a div 2 ^ nat n)"
    using ok(2) bn_abs_nonneg [of a] by (auto simp: bn_norm_def bn_int_def signed_divide_int_def sgn_if simp del: bn_abs_nonneg)
  then show ?thesis
    using BN_lshift_int [OF A ok(1) bn_norm_ok [OF ok(2)]] BN_rshift_int [OF A ok(1) bn_norm_ok [OF ok(2)]] BN_shift_total [OF _ _ n] by auto
qed

theorem BN_shift_exact_witness:
  "\<exists>p q. BN_lshift zero_malloc BN_init (sample_bn [5] True) 65 = (Some (), p) \<and> bn_int p = - 5 * 2 ^ 65 \<and>
     BN_rshift zero_malloc BN_init (sample_bn [5] True) 1 = (Some (), q) \<and> bn_int q = - 2"
proof -
  let ?a = "sample_bn [5] True"
  have a: "bn_norm ?a" "bn_int ?a = - 5" by (simp_all add: bn_norm_def sample_bn bn_int_def)
  note l = BN_shift_exact [OF zero_malloc(1) bn_init(1) a(1), of 65] and r = BN_shift_exact [OF zero_malloc(1) bn_init(1) a(1), of 1]
  obtain p where "BN_lshift zero_malloc BN_init ?a 65 = (Some (), p)"
    using l zero_malloc(2) bn_init(3) by (cases "BN_lshift zero_malloc BN_init ?a 65") (auto simp: sample_bn(4))
  moreover obtain q where "BN_rshift zero_malloc BN_init ?a 1 = (Some (), q)"
    using r zero_malloc(2) bn_init(3) by (cases "BN_rshift zero_malloc BN_init ?a 1") (auto simp: sample_bn(4))
  ultimately show ?thesis using l r a(2) by (auto simp: signed_divide_int_def)
qed

end
