(* ===== verification/Bn_Bytes.thy ===== *)
theory Bn_Bytes
  imports Bn_Cmp
begin

text \<open>
  Model of \<^verbatim>\<open>fipsmodule/bn/bytes.c\<close>: numbers read from and written to byte strings. The code copies
  the array of words byte by byte on the little-endian platforms it supports; \<open>bytes_of_words\<close> is that
  view of the array. A destination is the list of the bytes written, from its start.
\<close>

section \<open>The operations\<close>

definition bytes_of_words :: "limb list \<Rightarrow> byte list" where
  "bytes_of_words ws = concat (map (\<lambda>w. le_bytes 8 (unat w)) ws)"

text \<open>The loop of \<^verbatim>\<open>BN_bin2bn\<close>: \<open>m\<close> bytes of the current word are missing, \<open>k\<close> is \<^verbatim>\<open>num_words\<close>.\<close>

fun bin2bn_loop :: "byte list \<Rightarrow> nat \<Rightarrow> limb \<Rightarrow> nat \<Rightarrow> limb list \<Rightarrow> limb list" where
  "bin2bn_loop [] m word k d = d"
| "bin2bn_loop (b # bs) m word k d =
     (let word = push_bit 8 word OR ucast b
      in if m = 0 then bin2bn_loop bs (8 - 1) 0 (k - 1) (d[k - 1 := word])
         else bin2bn_loop bs (m - 1) word k d)"

definition BN_bin2bn :: "allocator \<Rightarrow> byte list \<Rightarrow> bignum option \<Rightarrow> bignum option" where
  "BN_bin2bn A inp ret =
     (case (case ret of None \<Rightarrow> BN_new A | Some ret \<Rightarrow> Some ret) of
        None \<Rightarrow> None
      | Some ret \<Rightarrow>
          if inp = [] then Some (ret\<lparr>bn_width := 0\<rparr>)
          else
            let num_words = (length inp - 1) div 8 + 1; m = (length inp - 1) mod 8
            in (case bn_wexpand A ret num_words of
                  (None, _) \<Rightarrow> None
                | (Some _, ret) \<Rightarrow>
                    Some (ret\<lparr>bn_d := bin2bn_loop inp m 0 num_words (bn_d ret), bn_width := num_words, bn_neg := False\<rparr>)))"

definition BN_le2bn :: "allocator \<Rightarrow> byte list \<Rightarrow> bignum option \<Rightarrow> bignum option" where
  "BN_le2bn A inp ret =
     (case (case ret of None \<Rightarrow> BN_new A | Some ret \<Rightarrow> Some ret) of
        None \<Rightarrow> None
      | Some ret \<Rightarrow>
          if inp = [] then Some (ret\<lparr>bn_width := 0, bn_neg := False\<rparr>)
          else
            let num_words = (length inp - 1) div 8 + 1
            in (case bn_wexpand A ret num_words of
                  (None, _) \<Rightarrow> None
                | (Some _, ret) \<Rightarrow>
                    let d = (bn_d ret)[num_words - 1 := 0];
                        d = words_of_bytes (store (bytes_of_words d) 0 inp)
                    in Some (ret\<lparr>bn_d := d, bn_width := num_words\<rparr>)))"

definition BN_bn2bin :: "bignum \<Rightarrow> byte list" where
  "BN_bn2bin inp = map (\<lambda>i. ucast (drop_bit (8 * (i mod 8)) (bn_d inp ! (i div 8))) AND 0xff) (rev [0..<BN_num_bytes inp])"

definition fits_in_bytes :: "byte list \<Rightarrow> nat \<Rightarrow> nat \<Rightarrow> bool" where
  "fits_in_bytes bytes num_bytes n = (foldl (OR) 0 (drop n (take num_bytes bytes)) = 0)"

definition BN_bn2le_padded :: "nat \<Rightarrow> bignum \<Rightarrow> byte list option" where
  "BN_bn2le_padded n inp =
     (let bytes = bytes_of_words (bn_d inp); num_bytes = bn_width inp * 8
      in if n < num_bytes \<and> \<not> fits_in_bytes bytes num_bytes n then None
         else
           let num_bytes = (if n < num_bytes then n else num_bytes)
           in Some (take num_bytes bytes @ replicate (n - num_bytes) 0))"

definition BN_bn2bin_padded :: "nat \<Rightarrow> bignum \<Rightarrow> byte list option" where
  "BN_bn2bin_padded n inp =
     (let bytes = bytes_of_words (bn_d inp); num_bytes = bn_width inp * 8
      in if n < num_bytes \<and> \<not> fits_in_bytes bytes num_bytes n then None
         else
           let num_bytes = (if n < num_bytes then n else num_bytes)
           in Some (replicate (n - num_bytes) 0 @ rev (take num_bytes bytes)))"

definition BN_get_word :: "bignum \<Rightarrow> limb" where
  "BN_get_word bn =
     (if bn_minimal_width bn = 0 then 0 else if bn_minimal_width bn = 1 then bn_d bn ! 0 else - 1)"

definition BN_get_u64 :: "bignum \<Rightarrow> u64 option" where
  "BN_get_u64 bn =
     (if bn_minimal_width bn = 0 then Some 0 else if bn_minimal_width bn = 1 then Some (bn_d bn ! 0) else None)"

section \<open>Bytes of numbers\<close>

lemma le_nat_append: "le_nat (xs @ ys) = le_nat xs + 256 ^ length xs * le_nat ys"
  by (induction xs) (simp_all add: algebra_simps)

lemma be_nat_rev: "be_nat (rev bs) = le_nat bs"
  by (induction bs) (simp_all add: be_nat_append)

lemma be_bytes_rev: "be_bytes k n = rev (le_bytes k n)"
  by (induction k arbitrary: n) simp_all

lemma le_bytes_zero_iff: "(\<forall>b \<in> set (le_bytes k n). b = 0) \<longleftrightarrow> n mod 256 ^ k = 0"
proof
  assume "\<forall>b \<in> set (le_bytes k n). b = 0"
  then have "le_bytes k n = replicate k 0" by (intro replicate_eqI) simp_all
  then have "le_nat (le_bytes k n) = le_nat (le_bytes k 0)" by (simp add: le_bytes_0)
  then show "n mod 256 ^ k = 0" by simp
next
  assume "n mod 256 ^ k = 0"
  then have "le_bytes k (le_nat (le_bytes k n)) = le_bytes k 0" by simp
  then have "le_bytes k n = replicate k 0" unfolding le_bytes_nat [OF length_le_bytes] by (simp add: le_bytes_0)
  then show "\<forall>b \<in> set (le_bytes k n). b = 0" by simp
qed

lemma length_bytes_of_words [simp]: "length (bytes_of_words ws) = 8 * length ws"
  by (induction ws) (simp_all add: bytes_of_words_def)

lemma bytes_of_words_append: "bytes_of_words (xs @ ys) = bytes_of_words xs @ bytes_of_words ys"
  by (simp add: bytes_of_words_def)

lemma radix_256: "radix ^ k = 256 ^ (8 * k)"
proof -
  have "radix = 256 ^ 8" by (simp add: radix_def)
  then show ?thesis by (simp add: power_mult)
qed

lemma int_le_nat_bytes: "int (le_nat (bytes_of_words ws)) = bn_val ws"
proof (induction ws)
  case (Cons w ws)
  have "unat w < 256 ^ 8" using unsigned_less [of w, where 'a = nat] by simp
  then have "le_nat (le_bytes 8 (unat w)) = unat w" by (simp del: le_bytes.simps)
  moreover have "bytes_of_words (w # ws) = le_bytes 8 (unat w) @ bytes_of_words ws" by (simp add: bytes_of_words_def)
  ultimately have "le_nat (bytes_of_words (w # ws)) = unat w + 256 ^ 8 * le_nat (bytes_of_words ws)"
    by (simp add: le_nat_append del: le_bytes.simps)
  with Cons show ?case by (simp add: radix_def)
qed (simp add: bytes_of_words_def)

lemma bytes_of_words_eq: "bytes_of_words ws = le_bytes (8 * length ws) (nat (bn_val ws))"
proof -
  have "le_nat (bytes_of_words ws) = nat (bn_val ws)" by (simp flip: int_le_nat_bytes)
  then show ?thesis using le_bytes_nat [of "bytes_of_words ws" "8 * length ws"] by simp
qed

lemma take_bytes_of_words: "take (8 * n) (bytes_of_words ws) = bytes_of_words (take n ws)"
proof (cases "n \<le> length ws")
  case True
  have "bytes_of_words ws = bytes_of_words (take n ws) @ bytes_of_words (drop n ws)"
    by (simp flip: bytes_of_words_append)
  then show ?thesis using True by simp
qed simp

lemma nth_bytes_of_words: "i < 8 * length ws \<Longrightarrow> bytes_of_words ws ! i = ucast (drop_bit (8 * (i mod 8)) (ws ! (i div 8)))"
proof (induction ws arbitrary: i)
  case (Cons w ws)
  have c: "bytes_of_words (w # ws) = le_bytes 8 (unat w) @ bytes_of_words ws" by (simp add: bytes_of_words_def)
  show ?case
  proof (cases "i < 8")
    case True
    have "unat w div 256 ^ i = unat (drop_bit (8 * i) w)" by (simp add: unat_drop_bit power_mult)
    then have "word_of_nat (unat w div 256 ^ i) = (ucast (drop_bit (8 * i) w) :: byte)" by (simp add: word_unat_eq_iff unsigned_ucast_eq take_bit_eq_mod unat_of_nat del: unsigned_drop_bit_eq)
    then show ?thesis using True unfolding c by (simp add: nth_append nth_le_bytes del: le_bytes.simps)
  next
    case False
    then have "i mod 8 = (i - 8) mod 8" "i div 8 = Suc ((i - 8) div 8)" by (simp_all add: le_mod_geq le_div_geq)
    then show ?thesis using False Cons unfolding c by (simp add: nth_append del: le_bytes.simps)
  qed
qed simp

section \<open>Reading bytes\<close>

lemma bin2bn_loop:
  assumes "length bs + (7 - m) = 8 * k" "m \<le> 7" "k \<le> length d" "unat word < 256 ^ (7 - m)"
  shows "\<exists>ws. bin2bn_loop bs m word k d = store d 0 ws \<and> length ws = k \<and>
    bn_val ws = int (unat word * 256 ^ length bs + be_nat bs)"
  using assms
proof (induction bs m word k d rule: bin2bn_loop.induct)
  case (1 m word k d)
  then have "k = 0" by (cases k) simp_all
  moreover from this have "m = 7" using 1 by simp
  ultimately show ?case using 1 by (intro exI [of _ "[]"]) (simp add: store_def)
next
  case (2 b bs m word k d)
  define w' where "w' = push_bit 8 word OR ucast b"
  have "unat word < 256 ^ 7" using 2(6,4) power_increasing [of "7 - m" 7 "256 :: nat"] by linarith
  then have w': "unat w' = unat word * 256 + unat b"
    using unat_byte_less [of b] unfolding w'_def by (subst unat_push_bit_or) (simp_all add: unat_ucast_up del: unat_byte_less)
  show ?case
  proof (cases "m = 0")
    case True
    then obtain k' where k': "k = Suc k'" using 2(3) by (cases k) simp_all
    from True obtain ws where ws: "bin2bn_loop bs 7 0 k' (d[k' := w']) = store (d[k' := w']) 0 ws" "length ws = k'"
      "bn_val ws = int (be_nat bs)"
      using 2(1) [OF w'_def True] 2(3,5) k' by auto
    have bs: "length bs = 8 * k'" using 2(3) True k' by simp
    have "store (d[k' := w']) 0 ws = store d 0 (ws @ [w'])"
      using 2(5) k' ws(2) by (simp add: store_def Cons_nth_drop_Suc [symmetric])
    moreover have "bn_val (ws @ [w']) = int (unat word * 256 ^ length (b # bs) + be_nat (b # bs))"
      using ws by (simp add: bn_val_append radix_256 bs be_nat_Cons w' uint_nat [of w'] algebra_simps)
    ultimately show ?thesis using True ws(1,2) k'
      by (intro exI [of _ "ws @ [w']"]) (simp add: w'_def [symmetric])
  next
    case False
    have e: "7 - (m - 1) = Suc (7 - m)" using False 2(4) by linarith
    have "unat word * 256 + unat b < 256 ^ Suc (7 - m)"
    proof -
      have "unat word + 1 \<le> 256 ^ (7 - m)" using 2(6) by simp
      then have "(unat word + 1) * 256 \<le> 256 ^ (7 - m) * 256" by (intro mult_le_mono1)
      then show ?thesis using unat_byte_less [of b] by (simp del: unat_byte_less)
    qed
    then have "\<exists>ws. bin2bn_loop bs (m - 1) w' k d = store d 0 ws \<and> length ws = k \<and>
        bn_val ws = int (unat w' * 256 ^ length bs + be_nat bs)"
      using 2(2) [OF w'_def False] 2(3-6) False unfolding e w' by simp
    then show ?thesis using False by (simp add: w'_def [symmetric] be_nat_Cons w' algebra_simps)
  qed
qed

lemma BN_bin2bn_Some:
  assumes A: "malloc_spec A" and r: "BN_bin2bn A inp ret = Some r" and ok: "\<And>a. ret = Some a \<Longrightarrow> bn_ok a"
  shows "bn_ok r" "bn_abs r = int (be_nat inp)" "bn_neg r \<longleftrightarrow> inp = [] \<and> (\<exists>a. ret = Some a \<and> bn_neg a)"
proof -
  obtain a where a: "(case ret of None \<Rightarrow> BN_new A | Some ret \<Rightarrow> Some ret) = Some a"
    using r by (auto simp: BN_bin2bn_def split: option.splits)
  have a': "bn_ok a" "ret = Some a \<or> ret = None \<and> \<not> bn_neg a"
    using a ok by (auto simp: BN_new_def bn_init split: option.splits)
  have "bn_ok r \<and> bn_abs r = int (be_nat inp) \<and> (bn_neg r \<longleftrightarrow> inp = [] \<and> bn_neg a)"
  proof (cases "inp = []")
    case True
    then show ?thesis using r by (simp add: BN_bin2bn_def a bn_ok_def bn_abs_def bn_limbs_def) (auto simp: bn_limbs_def)
  next
    case False
    define nw where "nw = (length inp - 1) div 8 + 1"
    have l: "length inp + (7 - (length inp - 1) mod 8) = 8 * nw"
      using False by (cases "length inp") (simp_all add: nw_def, presburger)
    have m7: "(length inp - 1) mod 8 \<le> 7" using mod_less_divisor [of 8 "length inp - 1"] by linarith
    obtain b where b: "bn_wexpand A a nw = (Some (), b)"
      "r = b\<lparr>bn_d := bin2bn_loop inp ((length inp - 1) mod 8) 0 nw (bn_d b), bn_width := nw, bn_neg := False\<rparr>"
      using r False by (auto simp: BN_bin2bn_def a nw_def Let_def split: prod.splits option.splits)
    note x = bn_wexpand_Some [OF b(1) A a'(1)]
    obtain ws where "bin2bn_loop inp ((length inp - 1) mod 8) 0 nw (bn_d b) = store (bn_d b) 0 ws" "length ws = nw"
      "bn_val ws = int (be_nat inp)"
      using bin2bn_loop [OF l m7 x(2), of 0] by auto
    then show ?thesis using False x(2) bn_stored(1,2) [of ws b False] by (simp add: b(2) bn_abs_def)
  qed
  then show "bn_ok r" "bn_abs r = int (be_nat inp)" "bn_neg r \<longleftrightarrow> inp = [] \<and> (\<exists>a. ret = Some a \<and> bn_neg a)"
    using a' by auto
qed

lemma BN_bin2bn_total:
  assumes "\<forall>n. A n \<noteq> None" "\<not> bn_static r" "length inp \<le> 67108856"
  shows "\<exists>r'. BN_bin2bn A inp (Some r) = Some r'"
proof (cases "inp = []")
  case False
  have "(length inp - 1) div 8 + 1 \<le> 8388607" using assms(3) by linarith
  from bn_wexpand_total [OF assms(1,2) this] show ?thesis using False by (auto simp: BN_bin2bn_def Let_def)
qed (simp add: BN_bin2bn_def)

text \<open>\<^verbatim>\<open>BN_le2bn\<close> copies the bytes over the array, whose last word it cleared.\<close>

lemma words_of_bytes_append:
  assumes "length xs = 8"
  shows "words_of_bytes (xs @ bs) = word_of_nat (le_nat xs) # words_of_bytes bs"
proof (rule nth_equalityI)
  show "length (words_of_bytes (xs @ bs)) = length (word_of_nat (le_nat xs) # words_of_bytes bs)" using assms by simp
  fix i assume "i < length (words_of_bytes (xs @ bs))"
  moreover have "(8 + length bs) div 8 = Suc (length bs div 8)" by simp
  ultimately show "words_of_bytes (xs @ bs) ! i = (word_of_nat (le_nat xs) # words_of_bytes bs) ! i"
    using assms by (cases i) (simp_all add: words_of_bytes_def del: upt_Suc)
qed

lemma words_of_bytes_val: "length bs = 8 * k \<Longrightarrow> bn_val (words_of_bytes bs) = int (le_nat bs)"
proof (induction k arbitrary: bs)
  case 0
  then show ?case by (simp add: words_of_bytes_def)
next
  case (Suc k)
  define xs ys where "xs = take 8 bs" and "ys = drop 8 bs"
  have bs: "bs = xs @ ys" "length xs = 8" "length ys = 8 * k" using Suc.prems by (simp_all add: xs_def ys_def)
  have "le_nat xs < 256 ^ 8" using le_nat_bound [of xs] by (simp add: bs(2))
  then have "uint (word_of_nat (le_nat xs) :: limb) = int (le_nat xs)" by (simp add: uint_nat unat_of_nat)
  then show ?case using Suc.IH [OF bs(3)] bs(2)
    by (simp add: bs(1) words_of_bytes_append le_nat_append radix_def)
qed

lemma take_words_of_bytes: "8 * k \<le> length bs \<Longrightarrow> take k (words_of_bytes bs) = words_of_bytes (take (8 * k) bs)"
proof (rule nth_equalityI)
  assume k: "8 * k \<le> length bs"
  then have kd: "k \<le> length bs div 8" by linarith
  then show "length (take k (words_of_bytes bs)) = length (words_of_bytes (take (8 * k) bs))" using k by simp
  fix i assume "i < length (take k (words_of_bytes bs))"
  then have "i < k" "8 + 8 * i \<le> 8 * k" by simp_all
  then show "take k (words_of_bytes bs) ! i = words_of_bytes (take (8 * k) bs) ! i"
    using k kd by (simp add: words_of_bytes_def take_drop)
qed

lemma le_nat_replicate_0 [simp]: "le_nat (replicate k 0) = 0"
  by (induction k) simp_all

lemma BN_le2bn_Some:
  assumes A: "malloc_spec A" and r: "BN_le2bn A inp ret = Some r" and ok: "\<And>a. ret = Some a \<Longrightarrow> bn_ok a"
  shows "bn_ok r" "bn_abs r = int (le_nat inp)" "bn_neg r \<longleftrightarrow> inp \<noteq> [] \<and> (\<exists>a. ret = Some a \<and> bn_neg a)"
proof -
  obtain a where a: "(case ret of None \<Rightarrow> BN_new A | Some ret \<Rightarrow> Some ret) = Some a"
    using r by (auto simp: BN_le2bn_def split: option.splits)
  have a': "bn_ok a" "ret = Some a \<or> ret = None \<and> \<not> bn_neg a"
    using a ok by (auto simp: BN_new_def bn_init split: option.splits)
  have "bn_ok r \<and> bn_abs r = int (le_nat inp) \<and> (bn_neg r \<longleftrightarrow> inp \<noteq> [] \<and> bn_neg a)"
  proof (cases "inp = []")
    case True
    then show ?thesis using r by (auto simp: BN_le2bn_def a bn_ok_def bn_abs_def bn_limbs_def)
  next
    case False
    define nw where "nw = (length inp - 1) div 8 + 1"
    have l: "8 * (nw - 1) < length inp" "length inp \<le> 8 * nw"
      using False by (cases "length inp"; simp add: nw_def; presburger)+
    obtain b where b: "bn_wexpand A a nw = (Some (), b)"
      "r = b\<lparr>bn_d := words_of_bytes (store (bytes_of_words ((bn_d b)[nw - 1 := 0])) 0 inp), bn_width := nw\<rparr>"
      using r False by (auto simp: BN_le2bn_def a nw_def Let_def split: prod.splits option.splits)
    note x = bn_wexpand_Some [OF b(1) A a'(1)]
    define B where "B = bytes_of_words ((bn_d b)[nw - 1 := 0])"
    note b2 = b(2) [folded B_def]
    have lB: "length B = 8 * length (bn_d b)" by (simp add: B_def)
    have nw: "0 < nw" by (simp add: nw_def)
    have t: "take nw ((bn_d b)[nw - 1 := 0]) = take (nw - 1) (bn_d b) @ [0]"
      using nw x(2) by (cases nw) (simp_all add: take_Suc_conv_app_nth)
    have "take (8 * nw) B = bytes_of_words (take (nw - 1) (bn_d b)) @ replicate 8 0"
      unfolding B_def take_bytes_of_words t bytes_of_words_append by (simp add: bytes_of_words_def le_bytes_0 del: le_bytes.simps)
    moreover have "length (bytes_of_words (take (nw - 1) (bn_d b))) = 8 * (nw - 1)" using x(2) by simp
    ultimately have "drop (length inp) (take (8 * nw) B) = replicate (8 * nw - length inp) 0"
      using l nw by (simp add: drop_append)
    then have tb: "take (8 * nw) (store B 0 inp) = inp @ replicate (8 * nw - length inp) 0"
      unfolding store_def drop_take using l by simp
    have lr: "bn_limbs r = words_of_bytes (inp @ replicate (8 * nw - length inp) 0)"
      using x(2) l by (simp add: b2 bn_limbs_def take_words_of_bytes tb lB)
    have "bn_abs r = int (le_nat inp)" unfolding bn_abs_def lr
      using l by (subst words_of_bytes_val [of _ nw]) (simp_all add: le_nat_append)
    then show ?thesis using False x(2,5) l by (simp add: b2 bn_ok_def lB)
  qed
  then show "bn_ok r" "bn_abs r = int (le_nat inp)" "bn_neg r \<longleftrightarrow> inp \<noteq> [] \<and> (\<exists>a. ret = Some a \<and> bn_neg a)"
    using a' by auto
qed

section \<open>Writing bytes\<close>

lemma BN_num_bytes_bound:
  assumes "bn_ok a"
  shows "BN_num_bytes a \<le> 8 * bn_width a" "nat (bn_abs a) < 256 ^ BN_num_bytes a"
proof -
  define V where "V = nat (bn_abs a)"
  have n: "BN_num_bytes a = (bit_length V + 7) div 8" by (simp add: BN_num_bytes_def BN_num_bits [OF assms] V_def)
  have "bn_abs a < 2 ^ (64 * bn_width a)" using bn_abs_bound [OF assms] by (simp add: radix_power)
  then have b: "V < 2 ^ (64 * bn_width a)" by (simp add: V_def nat_less_iff)
  have "bit_length V \<le> 64 * bn_width a"
  proof (cases "V = 0")
    case False
    then have "(2 :: nat) ^ (bit_length V - 1) < 2 ^ (64 * bn_width a)" using bit_length_bounds [of V] b by linarith
    then show ?thesis by simp
  qed simp
  then show "BN_num_bytes a \<le> 8 * bn_width a" unfolding n by linarith
  have "V < 2 ^ bit_length V" using bit_length_bounds by blast
  also have "\<dots> \<le> 2 ^ (8 * BN_num_bytes a)" unfolding n by (intro power_increasing) simp_all
  finally show "nat (bn_abs a) < 256 ^ BN_num_bytes a" by (simp add: V_def power_mult)
qed

lemma bytes_of_limbs: "bn_ok a \<Longrightarrow> take (8 * bn_width a) (bytes_of_words (bn_d a)) = le_bytes (8 * bn_width a) (nat (bn_abs a))"
  by (simp add: take_bytes_of_words bytes_of_words_eq [of "bn_limbs a"] bn_abs_def flip: bn_limbs_def)

lemma BN_bn2bin_bytes:
  assumes ok: "bn_ok a"
  shows "BN_bn2bin a = be_bytes (BN_num_bytes a) (nat (bn_abs a))"
proof -
  define n where "n = BN_num_bytes a"
  note b = BN_num_bytes_bound [OF ok, folded n_def]
  have m: "w AND 0xff = w" for w :: byte by (rule all_bytes [of "\<lambda>w. w AND 0xff = w" w]) code_simp
  have "map (\<lambda>i. ucast (drop_bit (8 * (i mod 8)) (bn_d a ! (i div 8))) AND 0xff) [0..<n] = le_bytes n (nat (bn_abs a))"
  proof (rule nth_equalityI)
    fix i assume "i < length (map (\<lambda>i. (ucast (drop_bit (8 * (i mod 8)) (bn_d a ! (i div 8))) AND 0xff) :: byte) [0..<n])"
    then have i: "i < n" by simp
    then have "i < 8 * bn_width a" "i < 8 * length (bn_d a)" using b ok by (simp_all add: bn_ok_def)
    then have "ucast (drop_bit (8 * (i mod 8)) (bn_d a ! (i div 8))) = take (8 * bn_width a) (bytes_of_words (bn_d a)) ! i"
      by (simp add: nth_bytes_of_words)
    also have "\<dots> = le_bytes n (nat (bn_abs a)) ! i"
      using i \<open>i < 8 * bn_width a\<close> unfolding bytes_of_limbs [OF ok] by (simp add: nth_le_bytes)
    finally show "map (\<lambda>i. ucast (drop_bit (8 * (i mod 8)) (bn_d a ! (i div 8))) AND 0xff) [0..<n] ! i = le_bytes n (nat (bn_abs a)) ! i"
      using i by (simp add: m)
  qed simp
  then show ?thesis by (simp add: BN_bn2bin_def rev_map [symmetric] be_bytes_rev flip: n_def)
qed

lemma fits_in_bytes: "bn_ok a \<Longrightarrow> fits_in_bytes (bytes_of_words (bn_d a)) (bn_width a * 8) n \<longleftrightarrow>
    bn_width a * 8 \<le> n \<or> nat (bn_abs a) < 256 ^ n"
proof -
  assume ok: "bn_ok a"
  have "nat (bn_abs a) < 256 ^ (8 * bn_width a)" using bn_abs_bound [OF ok] by (simp add: radix_256 nat_less_iff)
  then have V: "nat (bn_abs a) div 256 ^ n < 256 ^ (8 * bn_width a - n)" if "n \<le> 8 * bn_width a"
    using that by (intro less_mult_imp_div_less) (simp flip: power_add)
  show ?thesis
  proof (cases "bn_width a * 8 \<le> n")
    case True
    then show ?thesis using ok by (simp add: fits_in_bytes_def)
  next
    case False
    then show ?thesis using V
      by (simp add: fits_in_bytes_def foldl_or_zero mult.commute [of _ 8] bytes_of_limbs [OF ok] drop_le_bytes le_bytes_zero_iff div_eq_0_iff)
  qed
qed

lemma le_bytes_pad: "v < 256 ^ k \<Longrightarrow> k \<le> n \<Longrightarrow> le_bytes n v = le_bytes k v @ replicate (n - k) 0"
  using append_take_drop_id [of k "le_bytes n v"] by (simp add: take_le_bytes_min drop_le_bytes le_bytes_0 min_def del: append_take_drop_id)

lemma BN_bn2le_padded_bytes:
  assumes ok: "bn_ok a"
  shows "BN_bn2le_padded n a = (if bn_abs a < 256 ^ n then Some (le_bytes n (nat (bn_abs a))) else None)"
proof (cases "n < bn_width a * 8")
  case True
  have "take n (bytes_of_words (bn_d a)) = take n (take (8 * bn_width a) (bytes_of_words (bn_d a)))" using True by simp
  then have "take n (bytes_of_words (bn_d a)) = le_bytes n (nat (bn_abs a))" using True
    unfolding bytes_of_limbs [OF ok] take_le_bytes_min by (simp add: min_def)
  then show ?thesis using True by (simp add: BN_bn2le_padded_def fits_in_bytes [OF ok] nat_less_iff)
next
  case False
  have V: "nat (bn_abs a) < 256 ^ (8 * bn_width a)" using bn_abs_bound [OF ok] by (simp add: radix_256 nat_less_iff)
  also have "(256 :: nat) ^ (8 * bn_width a) \<le> 256 ^ n" using False by (intro power_increasing) simp_all
  finally have "bn_abs a < 256 ^ n" by (simp add: nat_less_iff)
  then show ?thesis using False le_bytes_pad [OF V, of n]
    by (simp add: BN_bn2le_padded_def mult.commute [of _ 8] bytes_of_limbs [OF ok] Let_def)
qed

lemma BN_bn2bin_padded_rev: "BN_bn2bin_padded n a = map_option rev (BN_bn2le_padded n a)"
  by (simp add: BN_bn2bin_padded_def BN_bn2le_padded_def Let_def)

lemma BN_bn2bin_padded_bytes:
  "bn_ok a \<Longrightarrow> BN_bn2bin_padded n a = (if bn_abs a < 256 ^ n then Some (be_bytes n (nat (bn_abs a))) else None)"
  by (simp add: BN_bn2bin_padded_rev BN_bn2le_padded_bytes be_bytes_rev)

lemma BN_get_word_val:
  assumes ok: "bn_ok a"
  shows "BN_get_word a = (if bn_abs a < radix then word_of_int (bn_abs a) else - 1)"
    "BN_get_u64 a = (if bn_abs a < radix then Some (word_of_int (bn_abs a)) else None)"
proof -
  define w where "w = bn_minimal_width a"
  note m = bn_minimal_width [OF ok, folded w_def] bn_minimal_width_zero_iff [OF ok, folded w_def]
  have le: "w \<le> length (bn_d a)" using m(1) ok by (simp add: bn_ok_def)
  consider "w = 0" "bn_abs a = 0" | "w = 1" "bn_abs a = uint (bn_d a ! 0)" | "1 < w" "radix \<le> bn_abs a"
  proof (cases "w \<le> 1")
    case True
    then have "w = 0 \<or> w = 1" by linarith
    then show ?thesis
    proof
      assume w: "w = 1"
      then have "take 1 (bn_d a) = [bn_d a ! 0]" using le by (cases "bn_d a") simp_all
      then show ?thesis using m(2) w that(2) by simp
    qed (use m that in auto)
  next
    case False
    define ws where "ws = take (w - 1) (bn_d a)"
    have lw: "length ws = w - 1" using False le by (simp add: ws_def)
    have tw: "take w (bn_d a) = ws @ [bn_d a ! (w - 1)]"
      using False le by (cases w) (simp_all add: ws_def take_Suc_conv_app_nth)
    have v: "bn_abs a = bn_val ws + radix ^ (w - 1) * uint (bn_d a ! (w - 1))"
      unfolding m(2) [symmetric] tw bn_val_append lw by simp
    have "uint (bn_d a ! (w - 1)) \<noteq> 0" using m(3) False by (auto dest: unsigned_word_eqI [of _ "0 :: limb", simplified])
    moreover have "0 \<le> uint (bn_d a ! (w - 1))" by (rule uint_limb)
    ultimately have "1 \<le> uint (bn_d a ! (w - 1))" by linarith
    then have "radix ^ 1 * 1 \<le> radix ^ (w - 1) * uint (bn_d a ! (w - 1))"
      using False by (intro mult_mono power_increasing) simp_all
    then have "radix \<le> radix ^ (w - 1) * uint (bn_d a ! (w - 1))" by (simp only: power_one_right mult_1_right)
    then have "radix \<le> bn_abs a" using v bn_val_nonneg [of ws] by linarith
    then show ?thesis using False that(3) by simp
  qed
  then have "BN_get_word a = (if bn_abs a < radix then word_of_int (bn_abs a) else - 1) \<and>
    BN_get_u64 a = (if bn_abs a < radix then Some (word_of_int (bn_abs a)) else None)"
    by cases (simp_all add: BN_get_word_def BN_get_u64_def w_def [symmetric])
  then show "BN_get_word a = (if bn_abs a < radix then word_of_int (bn_abs a) else - 1)"
    "BN_get_u64 a = (if bn_abs a < radix then Some (word_of_int (bn_abs a)) else None)" by simp_all
qed

lemma power_256_le: "8 * n \<le> k \<Longrightarrow> 256 ^ n \<le> (2 :: nat) ^ k"
  using power_increasing [of "8 * n" k "2 :: nat"] by (simp add: power_mult)

section \<open>The bytes of a number and back\<close>

text \<open>C10. \<^verbatim>\<open>BN_bn2bin\<close> writes the big-endian bytes of the magnitude without leading zeros, and
  \<^verbatim>\<open>BN_bn2bin_padded\<close> the same bytes at a fixed length, failing exactly when they do not fit;
  \<^verbatim>\<open>BN_bin2bn\<close> reads either back to the magnitude, whatever the destination held.\<close>

theorem BN_bytes_roundtrip:
  assumes A: "malloc_spec A" and ok: "bn_ok a" "bn_ok r"
  shows "be_nat (BN_bn2bin a) = nat (bn_abs a) \<and>
    (BN_bn2bin a \<noteq> [] \<longrightarrow> hd (BN_bn2bin a) \<noteq> 0) \<and>
    BN_bn2bin_padded n a = (if bn_abs a < 256 ^ n then Some (replicate (n - BN_num_bytes a) 0 @ BN_bn2bin a) else None) \<and>
    (\<forall>r'. BN_bin2bn A (BN_bn2bin a) (Some r) = Some r' \<longrightarrow> bn_ok r' \<and> bn_abs r' = bn_abs a) \<and>
    ((\<forall>k. A k \<noteq> None) \<and> \<not> bn_static r \<and> BN_num_bytes a \<le> 67108856 \<longrightarrow> (\<exists>r'. BN_bin2bn A (BN_bn2bin a) (Some r) = Some r')) \<and>
    (\<forall>r' out. BN_bn2bin_padded n a = Some out \<and> BN_bin2bn A out (Some r) = Some r' \<longrightarrow> bn_ok r' \<and> bn_abs r' = bn_abs a)"
proof -
  define V k where "V = nat (bn_abs a)" and "k = BN_num_bytes a"
  have b: "BN_bn2bin a = be_bytes k V" by (simp add: BN_bn2bin_bytes [OF ok(1)] V_def k_def)
  have V: "V < 256 ^ k" using BN_num_bytes_bound(2) [OF ok(1)] by (simp add: V_def k_def)
  have kb: "k = (bit_length V + 7) div 8" by (simp add: k_def V_def BN_num_bytes_def BN_num_bits [OF ok(1)])
  have hd: "hd (BN_bn2bin a) \<noteq> 0" if "BN_bn2bin a \<noteq> []"
  proof -
    have k0: "0 < k" using that b by (cases k) simp_all
    then have bl: "8 * (k - 1) \<le> bit_length V - 1" "bit_length V \<noteq> 0" unfolding kb by linarith+
    then have "V \<noteq> 0" by (metis bit_length_0)
    have "256 ^ (k - 1) \<le> (2 :: nat) ^ (bit_length V - 1)" using bl(1) by (rule power_256_le)
    also have "\<dots> \<le> V" using bit_length_bounds [of V] \<open>V \<noteq> 0\<close> by simp
    finally have lo: "256 ^ (k - 1) \<le> V" .
    have "V < 256 * 256 ^ (k - 1)" using V k0 by (cases k) simp_all
    then have "V div 256 ^ (k - 1) < 256" by (simp add: less_mult_imp_div_less)
    moreover have "0 < V div 256 ^ (k - 1)" using lo by (simp add: div_greater_zero_iff)
    ultimately have "(word_of_nat (V div 256 ^ (k - 1)) :: byte) \<noteq> 0" by (simp add: word_of_nat_eq_0_iff nat_dvd_not_less)
    then show ?thesis using that k0 by (simp add: b be_bytes_rev hd_rev last_conv_nth nth_le_bytes flip: length_0_conv)
  qed
  have pad: "be_bytes n V = replicate (n - k) 0 @ be_bytes k V" if "V < 256 ^ n"
  proof -
    have "k \<le> n"
    proof (rule ccontr)
      assume "\<not> k \<le> n"
      then have "8 * n < bit_length V" unfolding kb by linarith
      then have "256 ^ n \<le> (2 :: nat) ^ (bit_length V - 1)" by (intro power_256_le) simp
      also have "\<dots> \<le> V" using bit_length_bounds [of V] \<open>8 * n < bit_length V\<close> by (cases "V = 0") simp_all
      finally show False using that by simp
    qed
    from le_bytes_pad [OF V this] show ?thesis by (simp add: be_bytes_rev)
  qed
  have Vi: "bn_abs a < 256 ^ n \<longleftrightarrow> V < 256 ^ n" "int V = bn_abs a" by (simp_all add: V_def nat_less_iff)
  have p: "BN_bn2bin_padded n a = (if bn_abs a < 256 ^ n then Some (be_bytes n V) else None)"
    unfolding BN_bn2bin_padded_bytes [OF ok(1)] by (simp add: V_def)
  have rd: "bn_ok r' \<and> bn_abs r' = int (be_nat inp)" if "BN_bin2bn A inp (Some r) = Some r'" for inp r'
    using BN_bin2bn_Some [OF A that] ok(2) by simp
  have total: "\<exists>r'. BN_bin2bn A (BN_bn2bin a) (Some r) = Some r'"
    if "\<forall>k. A k \<noteq> None" "\<not> bn_static r" "BN_num_bytes a \<le> 67108856"
    using that b by (intro BN_bin2bn_total) (simp_all add: k_def)
  show ?thesis
  proof (intro conjI)
    show "be_nat (BN_bn2bin a) = nat (bn_abs a)" using V by (simp add: b V_def)
    show "BN_bn2bin_padded n a = (if bn_abs a < 256 ^ n then Some (replicate (n - BN_num_bytes a) 0 @ BN_bn2bin a) else None)"
      using pad by (simp add: p b Vi(1) k_def [symmetric])
    have again: "bn_ok r' \<and> bn_abs r' = bn_abs a" if "BN_bin2bn A (be_bytes m V) (Some r) = Some r'" "V < 256 ^ m" for m r'
      using rd [OF that(1)] that(2) Vi(2) by simp
    show "\<forall>r'. BN_bin2bn A (BN_bn2bin a) (Some r) = Some r' \<longrightarrow> bn_ok r' \<and> bn_abs r' = bn_abs a"
      using again V unfolding b by blast
    show "\<forall>r' out. BN_bn2bin_padded n a = Some out \<and> BN_bin2bn A out (Some r) = Some r' \<longrightarrow> bn_ok r' \<and> bn_abs r' = bn_abs a"
      using again [of n] unfolding p Vi(1) by (auto split: if_splits simp del: be_bytes.simps)
    show "(\<forall>k. A k \<noteq> None) \<and> \<not> bn_static r \<and> BN_num_bytes a \<le> 67108856 \<longrightarrow> (\<exists>r'. BN_bin2bn A (BN_bn2bin a) (Some r) = Some r')"
      using total by (simp add: k_def)
    show "BN_bn2bin a \<noteq> [] \<longrightarrow> hd (BN_bn2bin a) \<noteq> 0" using hd by simp
  qed
qed

theorem BN_bytes_roundtrip_witness:
  "\<exists>r'. be_nat (BN_bn2bin (sample_bn [258] False)) = 258 \<and> BN_bn2bin_padded 1 (sample_bn [258] False) = None \<and>
     BN_bin2bn zero_malloc (BN_bn2bin (sample_bn [258] False)) (Some (sample_bn [] True)) = Some r' \<and> bn_abs r' = 258"
proof -
  let ?a = "sample_bn [258] False"
  have a: "bn_abs ?a = 258" by (simp add: sample_bn)
  note t = BN_bytes_roundtrip [OF zero_malloc(1) sample_bn(1) sample_bn(1), of "[258]" False 1 "[]" True]
  have "BN_num_bytes ?a \<le> 67108856" using BN_num_bytes_bound(1) [OF sample_bn(1), of "[258]" False] by (simp add: sample_bn)
  then show ?thesis using t a zero_malloc(2) by (auto simp: sample_bn(3))
qed

text \<open>The sign of the destination survives \<^verbatim>\<open>BN_bin2bn\<close> of no bytes and \<^verbatim>\<open>BN_le2bn\<close> of some: the number
  read is then negative.\<close>

lemma BN_bin2bn_keeps_sign:
  "\<exists>r'. BN_bin2bn zero_malloc [] (Some (sample_bn [1] True)) = Some r' \<and> bn_neg r' \<and> bn_abs r' = 0"
  by (simp add: BN_bin2bn_def sample_bn_def bn_abs_def bn_limbs_def)

lemma BN_le2bn_keeps_sign:
  "\<exists>r'. BN_le2bn zero_malloc [5] (Some (sample_bn [1] True)) = Some r' \<and> bn_int r' = - 5"
proof -
  obtain r' where r': "BN_le2bn zero_malloc [5] (Some (sample_bn [1] True)) = Some r'"
    by (simp add: BN_le2bn_def sample_bn_def bn_wexpand_def)
  then show ?thesis using BN_le2bn_Some [OF zero_malloc(1) r'] sample_bn(1,5) by (auto simp: bn_int_def)
qed

end
