(* ===== verification/Bn_Comba.thy ===== *)
theory Bn_Comba
  imports Bn_Words
begin

text \<open>
  The unrolled products of \<^verbatim>\<open>generic.c\<close>: \<^verbatim>\<open>bn_mul_comba4\<close>, \<^verbatim>\<open>bn_mul_comba8\<close> and the squares. The code is a
  straight line of macro calls that add products to a number of three words; after the products of a column
  it stores the low word and clears it, and the three variables change places. The lists below are the calls
  of the code in its order, a column each; \<open>comba_loop\<close> is what happens between columns.
\<close>

section \<open>The operations\<close>

type_synonym triple = "limb \<times> limb \<times> limb"

definition add_high :: "limb \<Rightarrow> limb \<times> limb \<Rightarrow> limb \<times> limb" where
  "add_high hi c = (case c of (c1, c2) \<Rightarrow> let c1 = c1 + hi in if c1 < hi then (c1, c2 + 1) else (c1, c2))"

definition mul_add_c :: "limb \<Rightarrow> limb \<Rightarrow> triple \<Rightarrow> triple" where
  "mul_add_c a b c =
     (case c of (c0, c1, c2) \<Rightarrow>
        let t = (ucast a :: ullong) * ucast b; t = t + ucast c0
        in (Lw t, add_high (Hw t) (c1, c2)))"

definition mul_add_c2 :: "limb \<Rightarrow> limb \<Rightarrow> triple \<Rightarrow> triple" where
  "mul_add_c2 a b c =
     (case c of (c0, c1, c2) \<Rightarrow>
        let t = (ucast a :: ullong) * ucast b; tt = t + ucast c0
        in case (Lw tt, add_high (Hw tt) (c1, c2)) of (c0, c1, c2) \<Rightarrow>
          let t = t + ucast c0
          in (Lw t, add_high (Hw t) (c1, c2)))"

definition sqr_add_c :: "limb list \<Rightarrow> nat \<Rightarrow> triple \<Rightarrow> triple" where
  "sqr_add_c a i c =
     (case c of (c0, c1, c2) \<Rightarrow>
        let t = (ucast (a ! i) :: ullong) * ucast (a ! i); t = t + ucast c0
        in (Lw t, add_high (Hw t) (c1, c2)))"

definition sqr_add_c2 :: "limb list \<Rightarrow> nat \<Rightarrow> nat \<Rightarrow> triple \<Rightarrow> triple" where
  "sqr_add_c2 a i j = mul_add_c2 (a ! i) (a ! j)"

fun comba_loop :: "(triple \<Rightarrow> triple) list list \<Rightarrow> triple \<Rightarrow> limb list" where
  "comba_loop [] (c1, c2, c3) = [c1]"
| "comba_loop (col # cols) c = (case fold (\<lambda>f c. f c) col c of (c1, c2, c3) \<Rightarrow> c1 # comba_loop cols (c2, c3, 0))"

definition bn_mul_comba8 :: "limb list \<Rightarrow> limb list \<Rightarrow> limb list" where
  "bn_mul_comba8 a b = comba_loop
    [[mul_add_c (a ! 0) (b ! 0)],
     [mul_add_c (a ! 0) (b ! 1), mul_add_c (a ! 1) (b ! 0)],
     [mul_add_c (a ! 2) (b ! 0), mul_add_c (a ! 1) (b ! 1), mul_add_c (a ! 0) (b ! 2)],
     [mul_add_c (a ! 0) (b ! 3), mul_add_c (a ! 1) (b ! 2), mul_add_c (a ! 2) (b ! 1), mul_add_c (a ! 3) (b ! 0)],
     [mul_add_c (a ! 4) (b ! 0), mul_add_c (a ! 3) (b ! 1), mul_add_c (a ! 2) (b ! 2), mul_add_c (a ! 1) (b ! 3),
      mul_add_c (a ! 0) (b ! 4)],
     [mul_add_c (a ! 0) (b ! 5), mul_add_c (a ! 1) (b ! 4), mul_add_c (a ! 2) (b ! 3), mul_add_c (a ! 3) (b ! 2),
      mul_add_c (a ! 4) (b ! 1), mul_add_c (a ! 5) (b ! 0)],
     [mul_add_c (a ! 6) (b ! 0), mul_add_c (a ! 5) (b ! 1), mul_add_c (a ! 4) (b ! 2), mul_add_c (a ! 3) (b ! 3),
      mul_add_c (a ! 2) (b ! 4), mul_add_c (a ! 1) (b ! 5), mul_add_c (a ! 0) (b ! 6)],
     [mul_add_c (a ! 0) (b ! 7), mul_add_c (a ! 1) (b ! 6), mul_add_c (a ! 2) (b ! 5), mul_add_c (a ! 3) (b ! 4),
      mul_add_c (a ! 4) (b ! 3), mul_add_c (a ! 5) (b ! 2), mul_add_c (a ! 6) (b ! 1), mul_add_c (a ! 7) (b ! 0)],
     [mul_add_c (a ! 7) (b ! 1), mul_add_c (a ! 6) (b ! 2), mul_add_c (a ! 5) (b ! 3), mul_add_c (a ! 4) (b ! 4),
      mul_add_c (a ! 3) (b ! 5), mul_add_c (a ! 2) (b ! 6), mul_add_c (a ! 1) (b ! 7)],
     [mul_add_c (a ! 2) (b ! 7), mul_add_c (a ! 3) (b ! 6), mul_add_c (a ! 4) (b ! 5), mul_add_c (a ! 5) (b ! 4),
      mul_add_c (a ! 6) (b ! 3), mul_add_c (a ! 7) (b ! 2)],
     [mul_add_c (a ! 7) (b ! 3), mul_add_c (a ! 6) (b ! 4), mul_add_c (a ! 5) (b ! 5), mul_add_c (a ! 4) (b ! 6),
      mul_add_c (a ! 3) (b ! 7)],
     [mul_add_c (a ! 4) (b ! 7), mul_add_c (a ! 5) (b ! 6), mul_add_c (a ! 6) (b ! 5), mul_add_c (a ! 7) (b ! 4)],
     [mul_add_c (a ! 7) (b ! 5), mul_add_c (a ! 6) (b ! 6), mul_add_c (a ! 5) (b ! 7)],
     [mul_add_c (a ! 6) (b ! 7), mul_add_c (a ! 7) (b ! 6)],
     [mul_add_c (a ! 7) (b ! 7)]] (0, 0, 0)"

definition bn_mul_comba4 :: "limb list \<Rightarrow> limb list \<Rightarrow> limb list" where
  "bn_mul_comba4 a b = comba_loop
    [[mul_add_c (a ! 0) (b ! 0)],
     [mul_add_c (a ! 0) (b ! 1), mul_add_c (a ! 1) (b ! 0)],
     [mul_add_c (a ! 2) (b ! 0), mul_add_c (a ! 1) (b ! 1), mul_add_c (a ! 0) (b ! 2)],
     [mul_add_c (a ! 0) (b ! 3), mul_add_c (a ! 1) (b ! 2), mul_add_c (a ! 2) (b ! 1), mul_add_c (a ! 3) (b ! 0)],
     [mul_add_c (a ! 3) (b ! 1), mul_add_c (a ! 2) (b ! 2), mul_add_c (a ! 1) (b ! 3)],
     [mul_add_c (a ! 2) (b ! 3), mul_add_c (a ! 3) (b ! 2)],
     [mul_add_c (a ! 3) (b ! 3)]] (0, 0, 0)"

definition bn_sqr_comba8 :: "limb list \<Rightarrow> limb list" where
  "bn_sqr_comba8 a = comba_loop
    [[sqr_add_c a 0],
     [sqr_add_c2 a 1 0],
     [sqr_add_c a 1, sqr_add_c2 a 2 0],
     [sqr_add_c2 a 3 0, sqr_add_c2 a 2 1],
     [sqr_add_c a 2, sqr_add_c2 a 3 1, sqr_add_c2 a 4 0],
     [sqr_add_c2 a 5 0, sqr_add_c2 a 4 1, sqr_add_c2 a 3 2],
     [sqr_add_c a 3, sqr_add_c2 a 4 2, sqr_add_c2 a 5 1, sqr_add_c2 a 6 0],
     [sqr_add_c2 a 7 0, sqr_add_c2 a 6 1, sqr_add_c2 a 5 2, sqr_add_c2 a 4 3],
     [sqr_add_c a 4, sqr_add_c2 a 5 3, sqr_add_c2 a 6 2, sqr_add_c2 a 7 1],
     [sqr_add_c2 a 7 2, sqr_add_c2 a 6 3, sqr_add_c2 a 5 4],
     [sqr_add_c a 5, sqr_add_c2 a 6 4, sqr_add_c2 a 7 3],
     [sqr_add_c2 a 7 4, sqr_add_c2 a 6 5],
     [sqr_add_c a 6, sqr_add_c2 a 7 5],
     [sqr_add_c2 a 7 6],
     [sqr_add_c a 7]] (0, 0, 0)"

definition bn_sqr_comba4 :: "limb list \<Rightarrow> limb list" where
  "bn_sqr_comba4 a = comba_loop
    [[sqr_add_c a 0],
     [sqr_add_c2 a 1 0],
     [sqr_add_c a 1, sqr_add_c2 a 2 0],
     [sqr_add_c2 a 3 0, sqr_add_c2 a 2 1],
     [sqr_add_c a 2, sqr_add_c2 a 3 1],
     [sqr_add_c2 a 3 2],
     [sqr_add_c a 3]] (0, 0, 0)"

section \<open>Their products\<close>

fun triple_val :: "triple \<Rightarrow> int" where
  "triple_val (c0, c1, c2) = uint c0 + radix * (uint c1 + radix * uint c2)"

text \<open>A call adds \<open>v\<close> to the three words as long as they hold the sum.\<close>

definition adds :: "(triple \<Rightarrow> triple) \<Rightarrow> int \<Rightarrow> bool" where
  "adds f v \<longleftrightarrow> (\<forall>c. triple_val c + v < radix ^ 3 \<longrightarrow> triple_val (f c) = triple_val c + v)"

lemma uint_add_limb: "uint (a + b :: limb) = (uint a + uint b) mod radix"
  by (simp add: uint_word_ariths radix_def)

lemma add_high_val:
  assumes "uint c1 + radix * uint c2 + uint hi < radix * radix" "add_high hi (c1, c2) = (d1, d2)"
  shows "uint d1 + radix * uint d2 = uint c1 + radix * uint c2 + uint hi"
proof -
  have d: "d1 = c1 + hi" "d2 = (if c1 + hi < hi then c2 + 1 else c2)"
    using assms(2) by (auto simp: add_high_def Let_def split: if_splits)
  show ?thesis
  proof (cases "uint c1 + uint hi < radix")
    case True
    then have u: "uint (c1 + hi) = uint c1 + uint hi" unfolding uint_add_limb by (intro mod_pos_pos_trivial) simp_all
    then have "\<not> c1 + hi < hi" by (simp add: word_less_def)
    then show ?thesis using d u by simp
  next
    case False
    have "uint (c1 + hi) = (uint c1 + uint hi - radix) mod radix" unfolding uint_add_limb by simp
    also have "\<dots> = uint c1 + uint hi - radix"
      using False uint_limb(2) [of c1] uint_limb(2) [of hi] by (intro mod_pos_pos_trivial) linarith+
    finally have u: "uint (c1 + hi) = uint c1 + uint hi - radix" .
    then have lt: "c1 + hi < hi" using uint_limb(2) [of c1] unfolding word_less_def by linarith
    have "uint c2 \<noteq> radix - 1"
    proof
      assume "uint c2 = radix - 1"
      then have "radix * uint c2 = radix * radix - radix" by (simp add: right_diff_distrib)
      then show False using assms(1) False by linarith
    qed
    then have "uint c2 + 1 < radix" using uint_limb_le [of c2] by linarith
    then have "uint (c2 + 1) = uint c2 + 1" unfolding uint_add_limb [of c2 1] by (simp add: mod_pos_pos_trivial)
    then show ?thesis using d lt u by (simp add: algebra_simps)
  qed
qed

lemma product_add_limb: "uint ((ucast (a :: limb) * ucast (b :: limb)) + ucast (c :: limb) :: ullong) = uint a * uint b + uint c"
  using uint_mul_add [of a b c 0] by simp

lemma add_product_val:
  fixes a b c0 :: limb
  assumes "t = (ucast a :: ullong) * ucast b + ucast c0" "triple_val (c0, c1, c2) + uint a * uint b < radix ^ 3"
  shows "triple_val (Lw t, add_high (Hw t) (c1, c2)) = triple_val (c0, c1, c2) + uint a * uint b"
proof -
  obtain d1 d2 where d: "add_high (Hw t) (c1, c2) = (d1, d2)" by (rule prod.exhaust)
  have t: "uint (Lw t) + radix * uint (Hw t) = uint a * uint b + uint c0"
    unfolding Lw_Hw by (simp add: assms(1) product_add_limb)
  have "uint (Lw t) + radix * (uint c1 + radix * uint c2 + uint (Hw t)) = triple_val (c0, c1, c2) + uint a * uint b"
    using t by (simp add: algebra_simps)
  moreover have "radix ^ 3 = radix * (radix * radix)" by (simp add: power3_eq_cube)
  ultimately have "radix * (uint c1 + radix * uint c2 + uint (Hw t)) < radix * (radix * radix)"
    using assms(2) uint_limb(1) [of "Lw t"] by linarith
  then have "uint c1 + radix * uint c2 + uint (Hw t) < radix * radix" by simp
  from add_high_val [OF this d] show ?thesis using t by (simp add: d algebra_simps)
qed

lemma adds_mul_add_c: "adds (mul_add_c a b) (uint a * uint b)"
  using add_product_val [OF refl] by (auto simp: adds_def mul_add_c_def Let_def simp del: triple_val.simps)

lemma adds_sqr_add_c: "adds (sqr_add_c a i) (uint (a ! i) * uint (a ! i))"
  using add_product_val [OF refl] by (auto simp: adds_def sqr_add_c_def Let_def simp del: triple_val.simps)

lemma adds_mul_add_c2: "adds (mul_add_c2 a b) (2 * (uint a * uint b))"
  unfolding adds_def
proof (intro allI impI)
  fix c assume s: "triple_val c + 2 * (uint a * uint b) < radix ^ 3"
  obtain c0 c1 c2 where c: "c = (c0, c1, c2)" by (rule prod_cases3)
  define tt where "tt = (ucast a :: ullong) * ucast b + ucast c0"
  obtain d1 d2 where d: "add_high (Hw tt) (c1, c2) = (d1, d2)" by (rule prod.exhaust)
  have p: "0 \<le> uint a * uint b" by simp
  have 1: "triple_val (Lw tt, d1, d2) = triple_val (c0, c1, c2) + uint a * uint b"
    using add_product_val [OF tt_def, of c1 c2] s p unfolding d c by linarith
  have "triple_val (Lw tt, d1, d2) + uint a * uint b < radix ^ 3" using s 1 by (simp add: c del: triple_val.simps)
  from add_product_val [OF refl this] show "triple_val (mul_add_c2 a b c) = triple_val c + 2 * (uint a * uint b)"
    using 1 by (simp add: mul_add_c2_def c Let_def d flip: tt_def del: triple_val.simps)
qed

lemma adds_sqr_add_c2: "adds (sqr_add_c2 a i j) (2 * (uint (a ! i) * uint (a ! j)))"
  unfolding sqr_add_c2_def by (rule adds_mul_add_c2)

text \<open>A column of at most \<open>n\<close> products, and the columns from one on.\<close>

definition col_adds :: "(triple \<Rightarrow> triple) list \<Rightarrow> nat \<Rightarrow> int \<Rightarrow> bool" where
  "col_adds col n v \<longleftrightarrow> 0 \<le> v \<and> v \<le> int n * (2 * radix ^ 2) \<and>
     (\<forall>c. triple_val c + v < radix ^ 3 \<longrightarrow> triple_val (fold (\<lambda>f c. f c) col c) = triple_val c + v)"

definition cols_add :: "(triple \<Rightarrow> triple) list list \<Rightarrow> int \<Rightarrow> bool" where
  "cols_add cols v \<longleftrightarrow> (\<forall>c1 c2. length (comba_loop cols (c1, c2, 0)) = length cols + 1 \<and>
     bn_val (comba_loop cols (c1, c2, 0)) = (uint c1 + radix * uint c2 + v) mod radix ^ (length cols + 1))"

lemma col_adds_Nil: "col_adds [] 0 0"
  by (simp add: col_adds_def)

lemma col_adds_Cons:
  assumes "adds f u" "0 \<le> u" "u \<le> 2 * radix ^ 2" "col_adds col n v"
  shows "col_adds (f # col) (Suc n) (u + v)"
proof -
  have "triple_val (fold (\<lambda>f c. f c) (f # col) c) = triple_val c + (u + v)" if s: "triple_val c + (u + v) < radix ^ 3" for c
  proof -
    have "0 \<le> v" using assms(4) by (simp add: col_adds_def)
    then have 1: "triple_val (f c) = triple_val c + u" using assms(1) [unfolded adds_def, THEN spec [of _ c]] s by linarith
    then have "triple_val (fold (\<lambda>f c. f c) col (f c)) = triple_val (f c) + v"
      using assms(4) [unfolded col_adds_def, THEN conjunct2, THEN conjunct2, THEN spec [of _ "f c"]] s by linarith
    then show ?thesis using 1 by simp
  qed
  then show ?thesis using assms(2-4) by (simp add: col_adds_def algebra_simps)
qed

lemma limb_product_le: "0 \<le> uint (a :: limb) * uint (b :: limb)" "uint a * uint b \<le> 2 * radix ^ 2"
  "2 * (uint a * uint b) \<le> 2 * radix ^ 2"
proof -
  have "uint a * uint b \<le> radix * radix" using uint_limb(2) [of a] uint_limb(2) [of b] by (intro mult_mono) (simp_all add: less_imp_le)
  moreover have "0 \<le> radix ^ 2" by simp
  ultimately show "uint a * uint b \<le> 2 * radix ^ 2" "2 * (uint a * uint b) \<le> 2 * radix ^ 2" unfolding power2_eq_square by linarith+
qed simp

lemma col_adds:
  "col_adds col n v \<Longrightarrow> col_adds (mul_add_c a b # col) (Suc n) (uint a * uint b + v)"
  "col_adds col n v \<Longrightarrow> col_adds (sqr_add_c as i # col) (Suc n) (uint (as ! i) * uint (as ! i) + v)"
  "col_adds col n v \<Longrightarrow> col_adds (sqr_add_c2 as i j # col) (Suc n) (2 * (uint (as ! i) * uint (as ! j)) + v)"
  by (intro col_adds_Cons adds_mul_add_c adds_sqr_add_c adds_sqr_add_c2; (rule limb_product_le | simp add: limb_product_le(1)))+

lemma triple_val_low: "triple_val (c1, c2, 0) < radix ^ 2"
proof -
  have "uint c1 + radix * uint c2 \<le> (radix - 1) + radix * (radix - 1)"
    using uint_limb_le [of c1] uint_limb_le [of c2] by (intro add_mono mult_left_mono) simp_all
  then show ?thesis by (simp add: power2_eq_square algebra_simps)
qed

lemma cols_add_Nil: "cols_add [] 0"
  by (simp add: cols_add_def)

lemma radix_mod_step: "(uint (d :: limb) + radix * w) mod (radix * radix ^ k) = uint d + radix * (w mod radix ^ k)"
  by (subst zmod_zmult2_eq) simp_all

lemma cols_add_Cons:
  assumes c: "col_adds col n u" "n < 100" and v: "cols_add cols v"
  shows "cols_add (col # cols) (u + radix * v)"
  unfolding cols_add_def
proof (intro allI)
  fix c1 c2 :: limb
  obtain d1 d2 d3 where d: "fold (\<lambda>f c. f c) col (c1, c2, 0) = (d1, d2, d3)" by (rule prod_cases3)
  have "u \<le> 99 * (2 * radix ^ 2)"
  proof -
    have "u \<le> int n * (2 * radix ^ 2)" using c(1) by (simp add: col_adds_def)
    also have "\<dots> \<le> 99 * (2 * radix ^ 2)" using c(2) by (intro mult_right_mono) simp_all
    finally show ?thesis .
  qed
  moreover have "radix ^ 2 + 99 * (2 * radix ^ 2) < radix ^ 3" by (simp add: radix_def)
  ultimately have "triple_val (c1, c2, 0) + u < radix ^ 3" using triple_val_low [of c1 c2] by linarith
  then have t: "triple_val (d1, d2, d3) = triple_val (c1, c2, 0) + u" using c(1) [unfolded col_adds_def, THEN conjunct2, THEN conjunct2, THEN spec [of _ "(c1, c2, 0)"]] unfolding d by blast
  define L W where "L = length cols + 1" and "W = bn_val (comba_loop cols (d2, d3, 0))"
  have w: "W = (uint d2 + radix * uint d3 + v) mod radix ^ L" "length (comba_loop cols (d2, d3, 0)) = L"
    using v by (simp_all add: cols_add_def L_def W_def)
  have "uint d1 + radix * W = (uint d1 + radix * (uint d2 + radix * uint d3 + v)) mod (radix * radix ^ L)"
    unfolding w(1) by (rule radix_mod_step [symmetric])
  also have "uint d1 + radix * (uint d2 + radix * uint d3 + v) = uint c1 + radix * uint c2 + (u + radix * v)"
    using t by (simp add: algebra_simps)
  finally show "length (comba_loop (col # cols) (c1, c2, 0)) = length (col # cols) + 1 \<and>
    bn_val (comba_loop (col # cols) (c1, c2, 0)) =
      (uint c1 + radix * uint c2 + (u + radix * v)) mod radix ^ (length (col # cols) + 1)"
    using w(2) by (simp add: d W_def L_def)
qed

lemma cols_add_val:
  assumes "cols_add cols v" "0 \<le> v" "v < radix ^ (length cols + 1)"
  shows "length (comba_loop cols (0, 0, 0)) = length cols + 1 \<and> bn_val (comba_loop cols (0, 0, 0)) = v"
  using assms by (simp add: cols_add_def mod_pos_pos_trivial)

lemmas comba = cols_add_Cons cols_add_Nil col_adds col_adds_Nil

lemma comba_product:
  assumes "cols_add cols v" "length cols + 1 = k" "length a + length b = k" "v = bn_val a * bn_val b"
  shows "length (comba_loop cols (0, 0, 0)) = k \<and> bn_val (comba_loop cols (0, 0, 0)) = bn_val a * bn_val b"
proof -
  have "bn_val a * bn_val b < radix ^ length a * radix ^ length b"
    using bn_val_bound [of a] bn_val_bound [of b] by (intro mult_strict_mono') simp_all
  then show ?thesis using cols_add_val [OF assms(1)] assms(2-4) by (simp add: power_add [symmetric] del: One_nat_def)
qed

lemma words_of_length:
  "length a = 4 \<Longrightarrow> a = [a ! 0, a ! 1, a ! 2, a ! 3]"
  "length a = 8 \<Longrightarrow> a = [a ! 0, a ! 1, a ! 2, a ! 3, a ! 4, a ! 5, a ! 6, a ! 7]"
  by (auto intro!: nth_equalityI simp: less_Suc_eq numeral_eq_Suc)

lemma bn_val_words:
  "length a = 4 \<Longrightarrow> bn_val a = uint (a ! 0) + radix * (uint (a ! 1) + radix * (uint (a ! 2) + radix * uint (a ! 3)))"
  "length a = 8 \<Longrightarrow> bn_val a = uint (a ! 0) + radix * (uint (a ! 1) + radix * (uint (a ! 2) + radix * (uint (a ! 3) +
     radix * (uint (a ! 4) + radix * (uint (a ! 5) + radix * (uint (a ! 6) + radix * uint (a ! 7)))))))"
  by (subst words_of_length; simp)+

lemma bn_mul_comba4_val:
  "length a = 4 \<Longrightarrow> length b = 4 \<Longrightarrow> length (bn_mul_comba4 a b) = 8 \<and> bn_val (bn_mul_comba4 a b) = bn_val a * bn_val b"
  unfolding bn_mul_comba4_def
  by (rule comba_product [where a = a and b = b], ((rule comba)+, simp)+, simp, simp add: bn_val_words algebra_simps)

lemma bn_mul_comba8_val:
  "length a = 8 \<Longrightarrow> length b = 8 \<Longrightarrow> length (bn_mul_comba8 a b) = 16 \<and> bn_val (bn_mul_comba8 a b) = bn_val a * bn_val b"
  unfolding bn_mul_comba8_def
  by (rule comba_product [where a = a and b = b], ((rule comba)+, simp)+, simp, simp add: bn_val_words algebra_simps)

lemma bn_sqr_comba4_val:
  "length a = 4 \<Longrightarrow> length (bn_sqr_comba4 a) = 8 \<and> bn_val (bn_sqr_comba4 a) = bn_val a * bn_val a"
  unfolding bn_sqr_comba4_def
  by (rule comba_product [where a = a and b = a], ((rule comba)+, simp)+, simp, simp add: bn_val_words algebra_simps)

lemma bn_sqr_comba8_val:
  "length a = 8 \<Longrightarrow> length (bn_sqr_comba8 a) = 16 \<and> bn_val (bn_sqr_comba8 a) = bn_val a * bn_val a"
  unfolding bn_sqr_comba8_def
  by (rule comba_product [where a = a and b = a], ((rule comba)+, simp)+, simp, simp add: bn_val_words algebra_simps)

end
