(* ===== verification/Bn_Mul.thy ===== *)
theory Bn_Mul
  imports Bn_Comba
begin

text \<open>
  The quadratic products and squares of \<^verbatim>\<open>fipsmodule/bn/mul.c\<close>, and the subtraction of arrays of different
  widths that its recursive products use. Each routine is proved to return the words of the product.
\<close>

section \<open>The operations\<close>

definition bn_abs_sub_words :: "limb list \<Rightarrow> limb list \<Rightarrow> limb list" where
  "bn_abs_sub_words a b =
     (case bn_sub_words a b of (tmp, borrow) \<Rightarrow> bn_select_words (0 - borrow) (fst (bn_sub_words b a)) tmp)"

text \<open>\<open>k\<close> is the place in \<open>r\<close> that the moving pointer has reached; the code handles four words of \<open>b\<close> a turn.\<close>

fun mul_normal_loop :: "limb list \<Rightarrow> limb list \<Rightarrow> nat \<Rightarrow> limb list \<Rightarrow> limb list" where
  "mul_normal_loop a [] k r = r"
| "mul_normal_loop a (w # b) k r =
     (case bn_mul_add_words (drop k r) a w of (ws, c) \<Rightarrow> mul_normal_loop a b (k + 1) (take k r @ ws @ [c]))"

definition bn_mul_normal :: "limb list \<Rightarrow> limb list \<Rightarrow> limb list" where
  "bn_mul_normal a b =
     (let (a, b) = (if length a < length b then (b, a) else (a, b))
      in if b = [] then replicate (length a) 0
         else case bn_mul_words a (b ! 0) of (r, c) \<Rightarrow> mul_normal_loop a (tl b) 1 (r @ [c]))"

text \<open>
  \<^verbatim>\<open>bn_sub_part_words\<close>: \<open>a\<close> or \<open>b\<close> has \<open>cl\<close> words and the other \<open>\<bar>dl\<bar>\<close> more. Over those of \<open>a\<close>, the code
  leaves the loop of \<^verbatim>\<open>while (c)\<close>, whose body handles four words, for copying as soon as the borrow is gone;
  the \<^verbatim>\<open>switch\<close> between them is not reached, as \<^verbatim>\<open>save_dl\<close> differs from \<^verbatim>\<open>dl\<close> only once \<^verbatim>\<open>dl\<close> is used up.
\<close>

definition sub_from_zero :: "limb \<Rightarrow> limb \<Rightarrow> limb \<times> limb" where
  "sub_from_zero t c = (0 - t - c, if t \<noteq> 0 then 1 else c)"

definition sub_borrow :: "limb \<Rightarrow> limb \<Rightarrow> limb \<times> limb" where
  "sub_borrow t c = (t - c, if t \<noteq> 0 then 0 else c)"

fun sub_tail :: "limb list \<Rightarrow> limb \<Rightarrow> limb list \<times> limb" where
  "sub_tail [] c = ([], c)"
| "sub_tail (x # xs) c =
     (if c = 0 then (x # xs, c)
      else case words1 sub_borrow (take 4 (x # xs)) c of (rs, c) \<Rightarrow>
             case sub_tail (drop 4 (x # xs)) c of (rs', c) \<Rightarrow> (rs @ rs', c))"

definition bn_sub_part_words :: "limb list \<Rightarrow> limb list \<Rightarrow> nat \<Rightarrow> int \<Rightarrow> limb list \<times> limb" where
  "bn_sub_part_words a b cl dl =
     (case bn_sub_words (take cl a) (take cl b) of (r, c) \<Rightarrow>
        if dl = 0 then (r, c)
        else if dl < 0 then case words4 sub_from_zero (take (nat (- dl)) (drop cl b)) c of (rs, c) \<Rightarrow> (r @ rs, c)
        else case sub_tail (take (nat dl) (drop cl a)) c of (rs, c) \<Rightarrow> (r @ rs, c))"

definition bn_abs_sub_part_words :: "limb list \<Rightarrow> limb list \<Rightarrow> nat \<Rightarrow> int \<Rightarrow> limb list \<times> limb" where
  "bn_abs_sub_part_words a b cl dl =
     (case bn_sub_part_words a b cl dl of (tmp, borrow) \<Rightarrow>
        let r = fst (bn_sub_part_words b a cl (- dl)); borrow = 0 - borrow
        in (bn_select_words borrow r tmp, borrow))"

definition bn_mul_small :: "nat \<Rightarrow> limb list \<Rightarrow> limb list \<Rightarrow> limb list option" where
  "bn_mul_small num_r a b =
     (if num_r \<noteq> length a + length b then None
      else if length a = 8 \<and> length b = 8 then Some (bn_mul_comba8 a b)
      else Some (bn_mul_normal a b))"

text \<open>The products of different words, with \<open>p\<close> the place of the moving pointer.\<close>

fun sqr_normal_loop :: "limb list \<Rightarrow> nat \<Rightarrow> limb list \<Rightarrow> limb list" where
  "sqr_normal_loop [] p r = r"
| "sqr_normal_loop [w] p r = r"
| "sqr_normal_loop (w # ap) p r =
     (case bn_mul_add_words (drop p r) ap w of (ws, c) \<Rightarrow> sqr_normal_loop ap (p + 2) (take p r @ ws @ [c]))"

definition bn_sqr_normal :: "limb list \<Rightarrow> limb list" where
  "bn_sqr_normal a =
     (if length a = 0 then []
      else
        let r = (if length a > 1
                 then case bn_mul_words (tl a) (a ! 0) of (ws, c) \<Rightarrow> sqr_normal_loop (tl a) 3 ([0] @ ws @ [c])
                 else [0]) @ [0];
            r = fst (bn_add_words r r)
        in fst (bn_add_words r (bn_sqr_words a)))"

abbreviation (input) BN_SMALL_MAX_WORDS :: nat where "BN_SMALL_MAX_WORDS \<equiv> 9"

definition bn_sqr_small :: "nat \<Rightarrow> limb list \<Rightarrow> limb list option" where
  "bn_sqr_small num_r a =
     (if num_r \<noteq> 2 * length a \<or> length a > BN_SMALL_MAX_WORDS then None
      else if length a = 4 then Some (bn_sqr_comba4 a)
      else if length a = 8 then Some (bn_sqr_comba8 a)
      else Some (bn_sqr_normal a))"

section \<open>Differences\<close>

lemma neg_mask: "uint (c :: limb) \<le> 1 \<Longrightarrow> 0 - c = mask_of (c = 1)"
  using limb_0_1 [of c] by (auto simp: mask_of_def)

lemma borrow_value:
  fixes c :: limb
  assumes "uint c \<le> 1" "bn_val r - R * uint c = x - y" "0 \<le> x" "y \<le> R" "0 \<le> y" "x < R" "bn_val r < R"
  shows "c = 1 \<longleftrightarrow> x < y" "\<not> x < y \<Longrightarrow> bn_val r = x - y"
proof -
  have "c = 1 \<longleftrightarrow> x < y"
  proof
    assume "c = 1" then show "x < y" using assms(2,7) by simp
  next
    assume "x < y"
    show "c = 1"
    proof (rule ccontr)
      assume "c \<noteq> 1"
      then have "c = 0" using limb_0_1 [OF assms(1)] by simp
      then have "bn_val r = x - y" using assms(2) by simp
      then show False using \<open>x < y\<close> bn_val_nonneg [of r] by linarith
    qed
  qed
  then show "c = 1 \<longleftrightarrow> x < y" "\<not> x < y \<Longrightarrow> bn_val r = x - y"
    using limb_0_1 [OF assms(1)] assms(2) by auto
qed

lemma bn_sub_words_order:
  assumes "bn_sub_words a b = (r, c)" "length a = length b"
  shows "c = (if bn_val a < bn_val b then 1 else 0)" "\<not> bn_val a < bn_val b \<Longrightarrow> bn_val r = bn_val a - bn_val b"
    "length r = length a" "0 - c = mask_of (bn_val a < bn_val b)"
proof -
  note v = bn_sub_words_val [OF assms]
  have b: "bn_val a < radix ^ length a" "bn_val b \<le> radix ^ length a" "bn_val r < radix ^ length a"
    using bn_val_bound [of a] bn_val_bound [of b] bn_val_bound [of r] assms(2) v(1) by simp_all
  note o = borrow_value [OF v(2,3) bn_val_nonneg b(2) bn_val_nonneg b(1,3)]
  show "c = (if bn_val a < bn_val b then 1 else 0)" using o(1) limb_0_1 [OF v(2)] by auto
  then show "0 - c = mask_of (bn_val a < bn_val b)" by (simp add: mask_of_def)
  show "length r = length a" by (rule v(1))
qed (use borrow_value [OF bn_sub_words_val(2,3) [OF assms]] bn_val_bound [of a] bn_val_bound [of b] bn_val_bound [of r]
      bn_sub_words_val(1) [OF assms] assms(2) in simp)

lemma bn_abs_sub_words_val:
  assumes "length a = length b"
  shows "length (bn_abs_sub_words a b) = length a \<and> bn_val (bn_abs_sub_words a b) = \<bar>bn_val a - bn_val b\<bar>"
proof -
  obtain x c where x: "bn_sub_words a b = (x, c)" by (rule prod.exhaust)
  obtain y d where y: "bn_sub_words b a = (y, d)" by (rule prod.exhaust)
  note ox = bn_sub_words_order [OF x assms] and oy = bn_sub_words_order [OF y assms [symmetric]]
  have "bn_select_words (0 - c) y x = (if bn_val a < bn_val b then y else x)"
    unfolding ox(4) using ox(3) oy(3) assms by (simp add: bn_select_words_mask)
  then have "bn_abs_sub_words a b = (if bn_val a < bn_val b then y else x)" by (simp add: bn_abs_sub_words_def x y)
  then show ?thesis using ox(2,3) oy(2,3) assms by auto
qed

text \<open>The loops for the longer operand are the subtraction of words with zeros for the missing ones.\<close>

lemma sub_from_zero: "sub_from_zero t c = sub_step (0, t) c"
  by (auto simp: sub_from_zero_def sub_step_def word_less_nat_alt unat_eq_0 intro: gr0I)

lemma sub_borrow: "sub_borrow t c = sub_step (t, 0) c"
  by (simp add: sub_borrow_def sub_step_def)

lemma words1_cong: "(\<And>x s. x \<in> set xs \<Longrightarrow> f x s = g (h x) s) \<Longrightarrow> words1 f xs s = words1 g (map h xs) s"
  by (induction xs arbitrary: s) (simp_all split: prod.splits)

lemma words1_no_borrow: "words1 sub_step (map (\<lambda>t. (t, 0)) xs) 0 = (xs, 0)"
  by (induction xs) (simp_all add: sub_step_def)

lemma sub_tail: "sub_tail xs c = words1 sub_step (map (\<lambda>t. (t, 0)) xs) c"
proof (induction xs c rule: sub_tail.induct)
  case (2 x xs c)
  show ?case
  proof (cases "c = 0")
    case True
    then show ?thesis using words1_no_borrow [of "x # xs"] by simp
  next
    case False
    obtain rs c1 where 1: "words1 sub_borrow (take 4 (x # xs)) c = (rs, c1)" by (rule prod.exhaust)
    have w: "words1 sub_step (map (\<lambda>t. (t, 0)) (take 4 (x # xs))) c = (rs, c1)"
      using 1 words1_cong [of "take 4 (x # xs)" sub_borrow sub_step "\<lambda>t. (t, 0)" c] by (simp add: sub_borrow)
    have "words1 sub_step (map (\<lambda>t. (t, 0)) (x # xs)) c =
        (case words1 sub_step (map (\<lambda>t. (t, 0)) (take 4 (x # xs))) c of (rs, s) \<Rightarrow>
           case words1 sub_step (map (\<lambda>t. (t, 0)) (drop 4 (x # xs))) s of (rs', s) \<Rightarrow> (rs @ rs', s))"
      by (subst words1_append [symmetric]) (simp flip: map_append)
    also have "\<dots> = sub_tail (x # xs) c" using False 2 [OF False 1 [symmetric]] by (simp add: w 1 del: take_Suc_Cons drop_Suc_Cons take_Cons_numeral drop_Cons_numeral)
    finally show ?thesis by simp
  qed
qed simp

definition pad :: "nat \<Rightarrow> limb list \<Rightarrow> limb list" where
  "pad n ws = ws @ replicate (n - length ws) 0"

lemma pad_simps [simp]: "length ws \<le> n \<Longrightarrow> length (pad n ws) = n" "bn_val (pad n ws) = bn_val ws"
  by (simp_all add: pad_def bn_val_append)

lemma zip_pad_left: "length xs \<le> length ys \<Longrightarrow>
  zip (pad (length ys) xs) ys = zip xs (take (length xs) ys) @ map (\<lambda>t. (0, t)) (drop (length xs) ys)"
  by (auto simp: pad_def zip_append1 zip_replicate1 min_def)

lemma zip_pad_right: "length ys \<le> length xs \<Longrightarrow>
  zip xs (pad (length xs) ys) = zip (take (length ys) xs) ys @ map (\<lambda>t. (t, 0)) (drop (length ys) xs)"
  by (auto simp: pad_def zip_append2 zip_replicate2 min_def)

lemma bn_sub_part_words_pad:
  assumes cl: "cl = min (length a) (length b)" and dl: "dl = int (length a) - int (length b)"
  defines "n \<equiv> max (length a) (length b)"
  shows "bn_sub_part_words a b cl dl = bn_sub_words (pad n a) (pad n b)"
proof -
  obtain r c where r: "bn_sub_words (take cl a) (take cl b) = (r, c)" by (rule prod.exhaust)
  have r1: "words1 sub_step (zip (take cl a) (take cl b)) 0 = (r, c)" using r by (simp add: bn_sub_words_def words4_rolled)
  consider "length a = length b" | "length a < length b" | "length b < length a" by linarith
  then show ?thesis
  proof cases
    case 1
    then show ?thesis using r cl dl by (simp add: bn_sub_part_words_def pad_def n_def)
  next
    case 2
    have c: "cl = length a" "n = length b" "nat (- dl) = length b - length a" "dl < 0" "pad n b = b" using 2 cl dl by (simp_all add: n_def pad_def)
    have t: "take (length b - length a) (drop (length a) b) = drop (length a) b" by simp
    have m: "words1 sub_from_zero xs s = words1 sub_step (map (\<lambda>t. (0, t)) xs) s" for xs s
      by (rule words1_cong) (rule sub_from_zero)
    have z: "zip (pad n a) (pad n b) = zip a (take (length a) b) @ map (\<lambda>t. (0, t)) (drop (length a) b)"
      using zip_pad_left [OF less_imp_le [OF 2]] c(2,5) by simp
    show ?thesis using 2 r r1 unfolding bn_sub_part_words_def bn_sub_words_def words4_rolled z words1_append m
      by (simp add: c dl t split: prod.splits)
  next
    case 3
    have c: "cl = length b" "n = length a" "nat dl = length a - length b" "\<not> dl < 0" "dl \<noteq> 0" "pad n a = a" using 3 cl dl by (simp_all add: n_def pad_def)
    have t: "take (length a - length b) (drop (length b) a) = drop (length b) a" by simp
    have z: "zip (pad n a) (pad n b) = zip (take (length b) a) b @ map (\<lambda>t. (t, 0)) (drop (length b) a)"
      using zip_pad_right [OF less_imp_le [OF 3]] c(2,6) by simp
    show ?thesis using 3 r r1 unfolding bn_sub_part_words_def bn_sub_words_def words4_rolled z words1_append sub_tail
      by (simp add: c dl t split: prod.splits)
  qed
qed

lemma bn_abs_sub_part_words_val:
  assumes cl: "cl = min (length a) (length b)" and dl: "dl = int (length a) - int (length b)"
    and r: "bn_abs_sub_part_words a b cl dl = (r, m)"
  shows "length r = max (length a) (length b)" "bn_val r = \<bar>bn_val a - bn_val b\<bar>" "m = mask_of (bn_val a < bn_val b)"
proof -
  define n where "n = max (length a) (length b)"
  have l: "length a \<le> n" "length b \<le> n" by (simp_all add: n_def)
  obtain x c where x: "bn_sub_words (pad n a) (pad n b) = (x, c)" by (rule prod.exhaust)
  obtain y d where y: "bn_sub_words (pad n b) (pad n a) = (y, d)" by (rule prod.exhaust)
  have lp: "length (pad n a) = length (pad n b)" using l by simp
  note ps = pad_simps(1) [OF l(1)] pad_simps(1) [OF l(2)] pad_simps(2)
  note ox = bn_sub_words_order [OF x lp, unfolded ps] and oy = bn_sub_words_order [OF y lp [symmetric], unfolded ps]
  have "bn_sub_part_words a b cl dl = (x, c)" using bn_sub_part_words_pad [OF cl dl] x by (simp add: n_def)
  moreover have "bn_sub_part_words b a cl (- dl) = (y, d)"
    using bn_sub_part_words_pad [of cl b a "- dl"] cl dl y by (simp add: n_def min.commute max.commute)
  moreover have "bn_select_words (0 - c) y x = (if bn_val a < bn_val b then y else x)"
    unfolding ox(4) using ox(3) oy(3) by (simp add: bn_select_words_mask)
  ultimately have "r = (if bn_val a < bn_val b then y else x)" "m = mask_of (bn_val a < bn_val b)"
    using r ox(4) by (simp_all add: bn_abs_sub_part_words_def Let_def)
  then show "length r = max (length a) (length b)" "bn_val r = \<bar>bn_val a - bn_val b\<bar>" "m = mask_of (bn_val a < bn_val b)"
    using ox(2,3) oy(2,3) by (auto simp: n_def)
qed

section \<open>Products\<close>

lemma mul_normal_loop:
  assumes "length r = length a + k"
  shows "length (mul_normal_loop a b k r) = length a + k + length b \<and>
    bn_val (mul_normal_loop a b k r) = bn_val r + radix ^ k * (bn_val a * bn_val b)"
  using assms
proof (induction b arbitrary: k r)
  case (Cons w b)
  obtain ws c where w: "bn_mul_add_words (drop k r) a w = (ws, c)" by (rule prod.exhaust)
  have "length (drop k r) = length a" using Cons.prems by simp
  note v = bn_mul_add_words_val [OF w this]
  have l: "length (take k r) = k" using Cons.prems by simp
  have "bn_val (take k r @ ws @ [c]) = bn_val (take k r) + radix ^ k * (bn_val ws + radix ^ length a * uint c)"
    using l v(1) by (simp add: bn_val_append algebra_simps)
  also have "\<dots> = bn_val (take k r) + radix ^ k * bn_val (drop k r) + radix ^ k * (uint w * bn_val a)"
    unfolding v(2) by (simp add: algebra_simps)
  also have "bn_val (take k r) + radix ^ k * bn_val (drop k r) = bn_val r"
    using bn_val_append [of "take k r" "drop k r"] l by simp
  finally have n: "bn_val (take k r @ ws @ [c]) = bn_val r + radix ^ k * (uint w * bn_val a)" .
  have "length (take k r @ ws @ [c]) = length a + (k + 1)" using l v(1) by simp
  from Cons.IH [OF this] show ?case by (simp add: w n algebra_simps del: append_assoc)
qed simp

lemma bn_mul_normal_val: "length (bn_mul_normal a b) = length a + length b \<and> bn_val (bn_mul_normal a b) = bn_val a * bn_val b"
proof -
  define x y where "x = (if length a < length b then b else a)" and "y = (if length a < length b then a else b)"
  have e: "bn_mul_normal a b = (if y = [] then replicate (length x) 0
      else case bn_mul_words x (y ! 0) of (r, c) \<Rightarrow> mul_normal_loop x (tl y) 1 (r @ [c]))"
    unfolding bn_mul_normal_def x_def y_def Let_def by (cases "length a < length b") simp_all
  have "length (bn_mul_normal a b) = length x + length y \<and> bn_val (bn_mul_normal a b) = bn_val x * bn_val y"
  proof (cases y)
    case Nil
    then show ?thesis by (simp add: e)
  next
    case (Cons w ys)
    obtain r c where r: "bn_mul_words x w = (r, c)" by (rule prod.exhaust)
    note v = bn_mul_words_val [OF r]
    show ?thesis using mul_normal_loop [of "r @ [c]" x 1 ys] v
      by (simp add: e Cons r bn_val_append) (simp add: algebra_simps)
  qed
  then show ?thesis by (auto simp: x_def y_def mult.commute)
qed

lemma bn_mul_small_val:
  "bn_mul_small n a b = Some r \<Longrightarrow> length r = n \<and> n = length a + length b \<and> bn_val r = bn_val a * bn_val b"
  using bn_mul_comba8_val [of a b] bn_mul_normal_val [of a b] by (auto simp: bn_mul_small_def split: if_splits)

section \<open>Squares\<close>

fun cross :: "limb list \<Rightarrow> int" where
  "cross [] = 0"
| "cross (w # ap) = uint w * bn_val ap + radix * cross ap * radix"

lemma sqr_normal_loop:
  assumes "length r + 1 = length ap + p" "ap \<noteq> []"
  shows "length (sqr_normal_loop ap p r) + 1 = 2 * length ap - 1 + p \<and> bn_val (sqr_normal_loop ap p r) = bn_val r + radix ^ p * cross ap"
  using assms
proof (induction ap p r rule: sqr_normal_loop.induct)
  case (3 w v ap p r)
  obtain ws c where w: "bn_mul_add_words (drop p r) (v # ap) w = (ws, c)" by (rule prod.exhaust)
  have "length (drop p r) = length (v # ap)" using 3(2) by simp
  note vv = bn_mul_add_words_val [OF w this]
  have l: "length (take p r) = p" using 3(2) by simp
  have "bn_val (take p r @ ws @ [c]) = bn_val (take p r) + radix ^ p * (bn_val ws + radix ^ length (v # ap) * uint c)"
    using l vv(1) by (simp add: bn_val_append algebra_simps)
  also have "\<dots> = bn_val (take p r) + radix ^ p * bn_val (drop p r) + radix ^ p * (uint w * bn_val (v # ap))"
    unfolding vv(2) by (simp add: distrib_left del: bn_val.simps)
  also have "bn_val (take p r) + radix ^ p * bn_val (drop p r) = bn_val r"
    using bn_val_append [of "take p r" "drop p r"] l by simp
  finally have n: "bn_val (take p r @ ws @ [c]) = bn_val r + radix ^ p * (uint w * bn_val (v # ap))" .
  have "length (take p r @ ws @ [c]) + 1 = length (v # ap) + (p + 2)" using l vv(1) by simp
  from 3(1) [OF w [symmetric] this] n
  show ?case by (simp add: w algebra_simps del: append_assoc bn_val.simps)
qed simp_all

lemma square_split: "bn_val a * bn_val a = 2 * radix * cross a + bn_val (bn_sqr_words a)"
proof (induction a)
  case (Cons w a)
  obtain r0 r1 where r: "sqr_w w = (r0, r1)" by (rule prod.exhaust)
  have "bn_val (bn_sqr_words (w # a)) = uint w * uint w + radix * radix * bn_val (bn_sqr_words a)"
    using sqr_w_val [OF r] by (simp add: bn_sqr_words_rolled r algebra_simps)
  then show ?case using Cons by (simp add: algebra_simps)
qed (simp add: bn_sqr_words_val)

lemma square_bound: "bn_val a * bn_val a < radix ^ (2 * length a)"
  using mult_strict_mono' [OF bn_val_bound [of a] bn_val_bound [of a]] by (simp add: power_add [symmetric] mult_2)

lemma bn_add_words_fits:
  assumes "bn_val a + bn_val b < radix ^ length a" "length a = length b"
  shows "length (fst (bn_add_words a b)) = length a" "bn_val (fst (bn_add_words a b)) = bn_val a + bn_val b"
    "snd (bn_add_words a b) = 0"
proof -
  obtain r c where r: "bn_add_words a b = (r, c)" by (rule prod.exhaust)
  note v = bn_add_words_val [OF r assms(2)]
  have "c = 0"
  proof (rule ccontr)
    assume "c \<noteq> 0"
    then have "c = 1" using limb_0_1 [OF v(2)] by simp
    then show False using v(3) assms(1) bn_val_nonneg [of r] by simp
  qed
  then show "length (fst (bn_add_words a b)) = length a" "bn_val (fst (bn_add_words a b)) = bn_val a + bn_val b"
    "snd (bn_add_words a b) = 0" using v by (simp_all add: r)
qed

lemma bn_sqr_normal_val: "length (bn_sqr_normal a) = 2 * length a \<and> bn_val (bn_sqr_normal a) = bn_val a * bn_val a"
proof (cases "a = []")
  case False
  define r where "r = (if length a > 1
                 then case bn_mul_words (tl a) (a ! 0) of (ws, c) \<Rightarrow> sqr_normal_loop (tl a) 3 ([0] @ ws @ [c])
                 else [0]) @ [0]"
  have r: "length r = 2 * length a \<and> bn_val r = radix * cross a"
  proof (cases a)
    case (Cons w ap)
    show ?thesis
    proof (cases "ap = []")
      case False
      obtain ws c where w: "bn_mul_words ap w = (ws, c)" by (rule prod.exhaust)
      note v = bn_mul_words_val [OF w]
      have "bn_val ([0] @ ws @ [c]) = radix * (uint w * bn_val ap)" using v by (simp add: bn_val_append)
      moreover have "length ([0] @ ws @ [c]) + 1 = length ap + 3" using v by simp
      ultimately show ?thesis using sqr_normal_loop [of "[0] @ ws @ [c]" ap 3] False
        by (simp add: r_def Cons w bn_val_append power3_eq_cube algebra_simps)
    qed (simp add: r_def Cons)
  qed (use \<open>a \<noteq> []\<close> in simp)
  define s where "s = fst (bn_add_words r r)"
  have b: "2 * radix * cross a + bn_val (bn_sqr_words a) < radix ^ (2 * length a)"
    using square_bound [of a] by (simp add: square_split)
  moreover have "bn_val r + bn_val r = 2 * radix * cross a" using r by (simp add: algebra_simps)
  ultimately have "bn_val r + bn_val r < radix ^ length r"
    using r bn_val_nonneg [of "bn_sqr_words a"] by (simp del: bn_val_nonneg)
  from bn_add_words_fits [OF this refl] have s: "length s = 2 * length a" "bn_val s = 2 * radix * cross a"
    using r by (simp_all add: s_def)
  have "bn_val s + bn_val (bn_sqr_words a) < radix ^ length s" using b s by simp
  from bn_add_words_fits [OF this] s bn_sqr_words_val [of a]
  have "length (fst (bn_add_words s (bn_sqr_words a))) = 2 * length a"
    "bn_val (fst (bn_add_words s (bn_sqr_words a))) = bn_val a * bn_val a" by (simp_all add: square_split)
  moreover have "bn_sqr_normal a = fst (bn_add_words s (bn_sqr_words a))"
    using False unfolding bn_sqr_normal_def Let_def s_def r_def by simp
  ultimately show ?thesis by simp
qed (simp add: bn_sqr_normal_def)

lemma bn_sqr_small_val: "bn_sqr_small n a = Some r \<Longrightarrow> length r = n \<and> n = 2 * length a \<and> bn_val r = bn_val a * bn_val a"
  using bn_sqr_comba4_val [of a] bn_sqr_comba8_val [of a] bn_sqr_normal_val [of a] by (auto simp: bn_sqr_small_def split: if_splits)

end
