(* ===== verification/Bn_Karatsuba.thy ===== *)
theory Bn_Karatsuba
  imports Bn_Mul Bn_Bytes Bn_Add
begin

text \<open>
  The recursive products of \<^verbatim>\<open>fipsmodule/bn/mul.c\<close> and \<^verbatim>\<open>BN_mul\<close>, \<^verbatim>\<open>BN_sqr\<close> and \<^verbatim>\<open>BN_mul_word\<close> over them.
  The halves of the result \<^verbatim>\<open>r\<close> and of the scratch space \<^verbatim>\<open>t\<close> are values here, named as in the code:
  \<open>t0\<close>, \<open>t1\<close> the differences of the halves of \<open>a\<close> and \<open>b\<close>, \<open>t2,t3\<close> their product. The lengths \<^verbatim>\<open>n2 + dna\<close>
  and \<^verbatim>\<open>n2 + dnb\<close> are those of the lists.
\<close>

section \<open>The recursive routines\<close>

definition prop_step :: "limb \<Rightarrow> limb \<Rightarrow> limb \<times> limb" where
  "prop_step old c = (let r = old + c in (r, if r < old then 1 else 0))"

text \<open>\<^verbatim>\<open>r1,r2,c = r1,r2 + t2,t3,c\<close> and the carry into \<^verbatim>\<open>r3\<close>.\<close>

definition karatsuba_add :: "nat \<Rightarrow> limb list \<Rightarrow> limb list \<Rightarrow> limb \<Rightarrow> limb list" where
  "karatsuba_add n r t c =
     (let n2 = 2 * n
      in case bn_add_words (take n2 (drop n r)) t of (m, c') \<Rightarrow>
           take n r @ m @ fst (words1 prop_step (drop (n + n2) r) (c + c')))"

definition karatsuba_combine :: "nat \<Rightarrow> limb list \<Rightarrow> limb list \<Rightarrow> limb \<Rightarrow> limb list" where
  "karatsuba_combine n r t neg =
     (let n2 = 2 * n
      in case bn_add_words (take n2 r) (drop n2 r) of (t01, c) \<Rightarrow>
         case bn_sub_words t01 t of (t_neg, borrow) \<Rightarrow>
         case bn_add_words t01 t of (t_pos, carry) \<Rightarrow>
           let c_neg = c - borrow; c_pos = c + carry;
               t = bn_select_words neg t_neg t_pos;
               c = constant_time_select_w neg c_neg c_pos
           in karatsuba_add n r t c)"

abbreviation (input) BN_MUL_RECURSIVE_SIZE_NORMAL :: nat where "BN_MUL_RECURSIVE_SIZE_NORMAL \<equiv> 16"

function bn_mul_recursive :: "nat \<Rightarrow> limb list \<Rightarrow> limb list \<Rightarrow> limb list" where
  "bn_mul_recursive n2 a b =
     (if n2 = 8 \<and> length a = n2 \<and> length b = n2 then bn_mul_comba8 a b
      else if n2 < BN_MUL_RECURSIVE_SIZE_NORMAL
      then bn_mul_normal a b @ replicate (2 * n2 - (length a + length b)) 0
      else
        let n = n2 div 2; tna = length a - n; tnb = length b - n;
            (t0, neg) = bn_abs_sub_part_words (take n a) (drop n a) tna (int n - int tna);
            (t1, neg') = bn_abs_sub_part_words (drop n b) (take n b) tnb (int tnb - int n);
            full = (length a = n2 \<and> length b = n2);
            (t, r) =
              (if n = 4 \<and> full
               then (bn_mul_comba4 t0 t1, bn_mul_comba4 (take n a) (take n b) @ bn_mul_comba4 (drop n a) (drop n b))
               else if n = 8 \<and> full
               then (bn_mul_comba8 t0 t1, bn_mul_comba8 (take n a) (take n b) @ bn_mul_comba8 (drop n a) (drop n b))
               else (bn_mul_recursive n t0 t1,
                     bn_mul_recursive n (take n a) (take n b) @ bn_mul_recursive n (drop n a) (drop n b)))
        in karatsuba_combine n r t (neg XOR neg'))"
  by pat_completeness auto
termination by (relation "measure (\<lambda>(n2, a, b). n2)") auto

declare bn_mul_recursive.simps [simp del]

text \<open>The search for the power of two below the top parts; true if a top part is longer than it.\<close>

function part_split :: "nat \<Rightarrow> nat \<Rightarrow> nat \<Rightarrow> bool \<times> nat" where
  "part_split i tna tnb =
     (let i = i div 2
      in if i < tna \<or> i < tnb then (True, i)
         else if i = tna \<or> i = tnb then (False, i)
         else part_split i tna tnb)"
  by pat_completeness auto
termination
proof (relation "measure (\<lambda>(i, tna, tnb). i)", goal_cases)
  case (2 i tna tnb x)
  then have "0 < i" by (cases "i = 0") auto
  then show ?case using 2(1) by simp
qed simp

declare part_split.simps [simp del]

lemma part_split_le: "snd (part_split i tna tnb) \<le> i div 2"
proof (induction i tna tnb rule: part_split.induct)
  case (1 i tna tnb)
  show ?case by (subst part_split.simps) (use 1 [OF refl] in \<open>auto simp: Let_def intro: order_trans\<close>)
qed

text \<open>
  \<open>old\<close> is what \<^verbatim>\<open>r\<close> held. The \<^verbatim>\<open>memset\<close> for short operands is given a number of words as its number of
  bytes.
\<close>

function bn_mul_part_recursive :: "nat \<Rightarrow> limb list \<Rightarrow> limb list \<Rightarrow> limb list \<Rightarrow> limb list" where
  "bn_mul_part_recursive n a b old =
     (let tna = length a - n; tnb = length b - n; n2 = n * 2
      in if n < 8
         then (let p = bn_mul_normal a b; rest = drop (n2 + tna + tnb) old
               in p @ words_of_bytes (store (bytes_of_words rest) 0 (replicate (n2 - tna - tnb) 0)))
         else
           let (t0, neg) = bn_abs_sub_part_words (take n a) (drop n a) tna (int n - int tna);
               (t1, neg') = bn_abs_sub_part_words (drop n b) (take n b) tnb (int tnb - int n);
               (t, r) =
                 (if n = 8
                  then (bn_mul_comba8 t0 t1,
                        bn_mul_comba8 (take n a) (take n b) @
                        bn_mul_normal (drop n a) (drop n b) @ replicate (n2 - tna - tnb) 0)
                  else
                    (bn_mul_recursive n t0 t1,
                     bn_mul_recursive n (take n a) (take n b) @
                     (let zero = replicate n2 0
                      in if tna < BN_MUL_RECURSIVE_SIZE_NORMAL \<and> tnb < BN_MUL_RECURSIVE_SIZE_NORMAL
                         then store zero 0 (bn_mul_normal (drop n a) (drop n b))
                         else case part_split n tna tnb of
                                (True, i) \<Rightarrow> store zero 0 (bn_mul_part_recursive i (drop n a) (drop n b) (take (4 * i) zero))
                              | (False, i) \<Rightarrow> store zero 0 (bn_mul_recursive i (drop n a) (drop n b)))))
           in karatsuba_combine n r t (neg XOR neg'))"
  by pat_completeness auto
termination
proof (relation "measure (\<lambda>(n, a, b, old). n)", goal_cases)
  case (2 n a b old tna tnb n2)
  have less: "(p, i) = part_split n x y \<Longrightarrow> \<not> n < 8 \<Longrightarrow> i < n" for p i x y
    using part_split_le [of n x y] by (cases "part_split n x y") auto
  from 2 show ?case by (auto intro: less)
qed simp

declare bn_mul_part_recursive.simps [simp del]

lemma length_words1: "length (fst (words1 f xs s)) = length xs"
  by (induction xs arbitrary: s) (simp_all split: prod.splits, metis fst_conv)

lemma length_bn_abs_sub_words: "length (bn_abs_sub_words a b) = min (length a) (length b)"
  using length_words1 [of sub_step "zip a b" 0] length_words1 [of sub_step "zip b a" 0]
  by (auto simp: bn_abs_sub_words_def bn_select_words_def bn_sub_words_def words4_rolled split: prod.splits)

function bn_sqr_recursive :: "limb list \<Rightarrow> limb list" where
  "bn_sqr_recursive a =
     (let n2 = length a
      in if n2 = 4 then bn_sqr_comba4 a
         else if n2 = 8 then bn_sqr_comba8 a
         else if n2 < BN_MUL_RECURSIVE_SIZE_NORMAL then bn_sqr_normal a
         else
           let n = n2 div 2;
               t = bn_sqr_recursive (bn_abs_sub_words (take n a) (drop n a));
               r = bn_sqr_recursive (take n a) @ bn_sqr_recursive (drop n a)
           in case bn_add_words (take n2 r) (drop n2 r) of (t01, c) \<Rightarrow>
              case bn_sub_words t01 t of (t, borrow) \<Rightarrow> karatsuba_add n r t (c - borrow))"
  by pat_completeness auto
termination
  by (relation "measure length") (auto simp: length_bn_abs_sub_words)

declare bn_sqr_recursive.simps [simp del]

section \<open>The middle term\<close>

interpretation propagate: carry_chain prop_step uint uint "\<lambda>_. True"
proof (unfold_locales, goal_cases)
  case (1 c old r c')
  have r: "r = old + c" "c' = (if old + c < old then 1 else 0)" using 1(2) by (auto simp: prop_step_def Let_def)
  show ?case
  proof (cases "uint old + uint c < radix")
    case True
    then have u: "uint (old + c) = uint old + uint c" unfolding uint_add_limb by (intro mod_pos_pos_trivial) simp_all
    then have "\<not> old + c < old" by (simp add: word_less_def)
    then show ?thesis using r u by simp
  next
    case False
    have "uint (old + c) = (uint old + uint c - radix) mod radix" unfolding uint_add_limb by simp
    also have "\<dots> = uint old + uint c - radix"
      using False uint_limb(2) [of old] uint_limb(2) [of c] by (intro mod_pos_pos_trivial) linarith+
    finally have u: "uint (old + c) = uint old + uint c - radix" .
    then have "old + c < old" using uint_limb(2) [of c] unfolding word_less_def by linarith
    then show ?thesis using r u by simp
  qed
qed

lemma karatsuba_add:
  assumes l: "length r = 4 * n" "length t = 2 * n" and c: "uint c \<le> 2"
    and fits: "bn_val r + radix ^ n * (bn_val t + radix ^ (2 * n) * uint c) < radix ^ (4 * n)"
  shows "length (karatsuba_add n r t c) = 4 * n \<and>
    bn_val (karatsuba_add n r t c) = bn_val r + radix ^ n * (bn_val t + radix ^ (2 * n) * uint c)"
proof -
  define r0 rm r3 where "r0 = take n r" and "rm = take (2 * n) (drop n r)" and "r3 = drop (n + 2 * n) r"
  have lr: "length r0 = n" "length rm = 2 * n" "length r3 = n" using l by (simp_all add: r0_def rm_def r3_def)
  have "r = r0 @ rm @ r3" unfolding r0_def rm_def r3_def
    by (metis append_take_drop_id drop_drop add.commute)
  then have vr: "bn_val r = bn_val r0 + radix ^ n * (bn_val rm + radix ^ (2 * n) * bn_val r3)"
    by (simp add: bn_val_append lr)
  obtain m c' where m: "bn_add_words rm t = (m, c')" by (rule prod.exhaust)
  note v = bn_add_words_val [OF m, unfolded lr l(2), OF refl]
  obtain q d where q: "words1 prop_step r3 (c + c') = (q, d)" by (rule prod.exhaust)
  from propagate.chain [OF TrueI q] lr(3) have w: "length q = n" "bn_val q + radix ^ n * uint d = bn_val r3 + uint (c + c')"
    by (simp_all add: bn_val_weighted)
  have "uint c + uint c' < radix" using c v(2) by (simp add: radix_def)
  then have cc: "uint (c + c') = uint c + uint c'" unfolding uint_add_limb by (intro mod_pos_pos_trivial) simp_all
  have k: "karatsuba_add n r t c = r0 @ m @ q"
    unfolding karatsuba_add_def Let_def r0_def [symmetric] rm_def [symmetric] r3_def [symmetric] m prod.case q by simp
  have "bn_val (r0 @ m @ q) + radix ^ (4 * n) * uint d =
      bn_val r0 + radix ^ n * (bn_val m + radix ^ (2 * n) * (bn_val q + radix ^ n * uint d))"
    using lr v(1) w(1) by (simp add: bn_val_append algebra_simps) (simp flip: power_add)
  also have "\<dots> = bn_val r0 + radix ^ n * ((bn_val m + radix ^ (2 * n) * uint c') + radix ^ (2 * n) * (bn_val r3 + uint c))"
    unfolding w(2) cc by (simp add: algebra_simps)
  also have "\<dots> = bn_val r + radix ^ n * (bn_val t + radix ^ (2 * n) * uint c)"
    unfolding v(3) vr by (simp add: algebra_simps)
  finally have tot: "bn_val (r0 @ m @ q) + radix ^ (4 * n) * uint d = bn_val r + radix ^ n * (bn_val t + radix ^ (2 * n) * uint c)" .
  have "uint d = 0"
  proof (rule ccontr)
    assume "uint d \<noteq> 0"
    then have "1 \<le> uint d" using uint_limb(1) [of d] by linarith
    then have "radix ^ (4 * n) * 1 \<le> radix ^ (4 * n) * uint d" by (intro mult_left_mono) simp_all
    then show False using tot fits bn_val_nonneg [of "r0 @ m @ q"] by linarith
  qed
  then show ?thesis using tot lr v(1) w(1) by (simp add: k)
qed

lemma karatsuba_combine:
  assumes l: "length r = 4 * n" "length t = 2 * n"
    and M: "bn_val (take (2 * n) r) + bn_val (drop (2 * n) r) + (if neg then - bn_val t else bn_val t) = M" "0 \<le> M"
    and fits: "bn_val r + radix ^ n * M < radix ^ (4 * n)"
  shows "length (karatsuba_combine n r t (mask_of neg)) = 4 * n \<and> bn_val (karatsuba_combine n r t (mask_of neg)) = bn_val r + radix ^ n * M"
proof -
  define R where "R = radix ^ (2 * n)"
  obtain t01 c where a: "bn_add_words (take (2 * n) r) (drop (2 * n) r) = (t01, c)" by (rule prod.exhaust)
  have "length (take (2 * n) r) = 2 * n" "length (drop (2 * n) r) = 2 * n" using l by simp_all
  note va = bn_add_words_val [OF a, unfolded this, OF refl, folded R_def]
  have lt: "length t01 = length t" using va(1) l(2) by simp
  obtain d borrow where s: "bn_sub_words t01 t = (d, borrow)" by (rule prod.exhaust)
  note vs = bn_sub_words_val [OF s lt, unfolded va(1), folded R_def]
  obtain p carry where q: "bn_add_words t01 t = (p, carry)" by (rule prod.exhaust)
  note vq = bn_add_words_val [OF q lt, unfolded va(1), folded R_def]
  define t' c' where "t' = (if neg then d else p)" and "c' = (if neg then c - borrow else c + carry)"
  have k: "karatsuba_combine n r t (mask_of neg) = karatsuba_add n r t' c'"
    using vs(1) vq(1) by (simp add: karatsuba_combine_def a s q Let_def t'_def c'_def bn_select_words_mask constant_time)
  have l': "length t' = 2 * n" using vs(1) vq(1) by (simp add: t'_def)
  have R: "bn_val d < R" "bn_val p < R" using bn_val_bound [of d] bn_val_bound [of p] vs(1) vq(1) by (simp_all add: R_def)
  have "uint c' \<le> 2 \<and> bn_val t' + R * uint c' = M"
  proof (cases neg)
    case True
    have M': "bn_val d + R * (uint c - uint borrow) = M" using M(1) va(3) vs(3) True by (simp add: algebra_simps)
    have "uint borrow \<le> uint c"
    proof (rule ccontr)
      assume "\<not> uint borrow \<le> uint c"
      then have "uint c - uint borrow \<le> - 1" by linarith
      then have "R * (uint c - uint borrow) \<le> R * - 1" by (intro mult_left_mono) (simp_all add: R_def)
      then show False using M' M(2) R(1) by linarith
    qed
    then have "uint (c - borrow) = uint c - uint borrow" by (simp add: uint_minus)
    moreover have "uint c - uint borrow \<le> 2" using va(2) uint_limb(1) [of borrow] by linarith
    ultimately show ?thesis using M' True by (simp add: t'_def c'_def)
  next
    case False
    have "uint c + uint carry < radix" using va(2) vq(2) by (simp add: radix_def)
    then have "uint (c + carry) = uint c + uint carry" unfolding uint_add_limb by (intro mod_pos_pos_trivial) simp_all
    then show ?thesis using M(1) va(2,3) vq(2,3) False by (simp add: t'_def c'_def algebra_simps)
  qed
  then show ?thesis using karatsuba_add [OF l(1) l'] fits unfolding k R_def by simp
qed

text \<open>The differences of the halves and the product put together.\<close>

lemma mask_of_xor: "mask_of p XOR mask_of q = (mask_of (p \<noteq> q) :: limb)"
  by (simp add: mask_of_def)

lemma halves: "n \<le> length a \<Longrightarrow> bn_val a = bn_val (take n a) + radix ^ n * bn_val (drop n a)"
  using bn_val_append [of "take n a" "drop n a"] by simp

lemma product_fits:
  assumes "length a + length b \<le> k"
  shows "bn_val a * bn_val b < radix ^ k"
proof -
  have "bn_val a * bn_val b < radix ^ length a * radix ^ length b"
    using bn_val_bound [of a] bn_val_bound [of b] by (intro mult_strict_mono') simp_all
  also have "\<dots> \<le> radix ^ k" unfolding power_add [symmetric] using assms by (intro power_increasing) simp_all
  finally show ?thesis .
qed

lemma differences:
  assumes a: "n \<le> length a" "length a \<le> 2 * n" and b: "n \<le> length b" "length b \<le> 2 * n"
    and t0: "bn_abs_sub_part_words (take n a) (drop n a) (length a - n) (int n - int (length a - n)) = (t0, m0)"
    and t1: "bn_abs_sub_part_words (drop n b) (take n b) (length b - n) (int (length b - n) - int n) = (t1, m1)"
  shows "length t0 = n" "bn_val t0 = \<bar>bn_val (take n a) - bn_val (drop n a)\<bar>" "m0 = mask_of (bn_val (take n a) < bn_val (drop n a))"
    "length t1 = n" "bn_val t1 = \<bar>bn_val (drop n b) - bn_val (take n b)\<bar>" "m1 = mask_of (bn_val (drop n b) < bn_val (take n b))"
  using bn_abs_sub_part_words_val [OF _ _ t0] bn_abs_sub_part_words_val [OF _ _ t1] a b by simp_all

lemma karatsuba_product:
  assumes a: "n \<le> length a" "length a \<le> 2 * n" and b: "n \<le> length b" "length b \<le> 2 * n"
    and t0: "bn_abs_sub_part_words (take n a) (drop n a) (length a - n) (int n - int (length a - n)) = (t0, m0)"
    and t1: "bn_abs_sub_part_words (drop n b) (take n b) (length b - n) (int (length b - n) - int n) = (t1, m1)"
    and t: "length t = 2 * n \<and> bn_val t = bn_val t0 * bn_val t1"
    and r0: "length r0 = 2 * n \<and> bn_val r0 = bn_val (take n a) * bn_val (take n b)"
    and r1: "length r1 = 2 * n \<and> bn_val r1 = bn_val (drop n a) * bn_val (drop n b)"
  shows "length (karatsuba_combine n (r0 @ r1) t (m0 XOR m1)) = 4 * n \<and>
    bn_val (karatsuba_combine n (r0 @ r1) t (m0 XOR m1)) = bn_val a * bn_val b"
proof -
  define A0 A1 B0 B1 X where "A0 = bn_val (take n a)" and "A1 = bn_val (drop n a)" and "B0 = bn_val (take n b)"
    and "B1 = bn_val (drop n b)" and "X = radix ^ n"
  note d = differences [OF a b t0 t1, folded A0_def A1_def B0_def B1_def]
  have pos: "0 \<le> A0" "0 \<le> A1" "0 \<le> B0" "0 \<le> B1" by (simp_all add: A0_def A1_def B0_def B1_def)
  define neg where "neg = ((A0 < A1) \<noteq> (B1 < B0))"
  have m: "m0 XOR m1 = mask_of neg" unfolding d(3,6) mask_of_xor neg_def ..
  have sg: "(if neg then - bn_val t else bn_val t) = (A0 - A1) * (B1 - B0)"
    using t unfolding d(2,5) neg_def by (cases "A0 < A1"; cases "B1 < B0") (simp_all add: algebra_simps)
  define M where "M = A0 * B1 + A1 * B0"
  have "A0 * B0 + A1 * B1 + (A0 - A1) * (B1 - B0) = M" by (simp add: M_def algebra_simps)
  then have M: "bn_val (take (2 * n) (r0 @ r1)) + bn_val (drop (2 * n) (r0 @ r1)) + (if neg then - bn_val t else bn_val t) = M"
    using r0 r1 by (simp add: sg A0_def A1_def B0_def B1_def)
  have "0 \<le> M" using pos by (simp add: M_def)
  have ab: "bn_val (r0 @ r1) + radix ^ n * M = bn_val a * bn_val b"
    using r0 r1 unfolding halves [OF a(1)] halves [OF b(1)]
    by (simp add: bn_val_append M_def A0_def A1_def B0_def B1_def algebra_simps) (simp flip: power_add add: mult_2)
  have "bn_val a * bn_val b < radix ^ (4 * n)" using a b by (intro product_fits) simp
  then have fits: "bn_val (r0 @ r1) + radix ^ n * M < radix ^ (4 * n)" by (simp add: ab)
  have "length (r0 @ r1) = 4 * n" using r0 r1 by simp
  from karatsuba_combine [OF this conjunct1 [OF t] M \<open>0 \<le> M\<close> fits] show ?thesis by (simp add: m ab)
qed

section \<open>The products\<close>

lemma bn_val_pad: "bn_val (ws @ replicate k 0) = bn_val ws"
  by (simp add: bn_val_append)

lemma bn_mul_recursive_val:
  assumes "n2 = 2 ^ k" "length a \<le> n2" "length b \<le> n2" "n2 \<le> length a + 8" "n2 \<le> length b + 8"
  shows "length (bn_mul_recursive n2 a b) = 2 * n2 \<and> bn_val (bn_mul_recursive n2 a b) = bn_val a * bn_val b"
  using assms
proof (induction k arbitrary: n2 a b)
  case 0
  then show ?case using bn_mul_normal_val [of a b] by (simp add: bn_mul_recursive.simps bn_val_pad)
next
  case (Suc k)
  define n where "n = n2 div 2"
  have n: "n2 = 2 * n" "n = 2 ^ k" using Suc.prems(1) by (simp_all add: n_def)
  consider "n2 = 8 \<and> length a = n2 \<and> length b = n2" | "\<not> (n2 = 8 \<and> length a = n2 \<and> length b = n2)" "n2 < 16" | "16 \<le> n2"
    by linarith
  then show ?case
  proof cases
    case 1
    then show ?thesis using bn_mul_comba8_val [of a b] by (simp add: bn_mul_recursive.simps)
  next
    case 2
    then have "bn_mul_recursive n2 a b = bn_mul_normal a b @ replicate (2 * n2 - (length a + length b)) 0"
      by (subst bn_mul_recursive.simps) (simp only: if_not_P if_P if_False if_True)
    then show ?thesis using bn_mul_normal_val [of a b] Suc.prems(2,3) by (simp add: bn_val_pad)
  next
    case 3
    obtain t0 m0 where t0: "bn_abs_sub_part_words (take n a) (drop n a) (length a - n) (int n - int (length a - n)) = (t0, m0)"
      by (rule prod.exhaust)
    obtain t1 m1 where t1: "bn_abs_sub_part_words (drop n b) (take n b) (length b - n) (int (length b - n) - int n) = (t1, m1)"
      by (rule prod.exhaust)
    have a: "n \<le> length a" "length a \<le> 2 * n" and b: "n \<le> length b" "length b \<le> 2 * n"
      using Suc.prems 3 n(1) by linarith+
    note d = differences [OF a b t0 t1]
    have rec: "length (bn_mul_recursive n x y) = 2 * n \<and> bn_val (bn_mul_recursive n x y) = bn_val x * bn_val y"
      if "length x \<le> n" "length y \<le> n" "n \<le> length x + 8" "n \<le> length y + 8" for x y
      using Suc.IH [OF n(2) that] by simp
    define full where "full = (length a = n2 \<and> length b = n2)"
    define t r0 r1 where "t = (if n = 8 \<and> full then bn_mul_comba8 t0 t1 else bn_mul_recursive n t0 t1)"
      and "r0 = (if n = 8 \<and> full then bn_mul_comba8 (take n a) (take n b) else bn_mul_recursive n (take n a) (take n b))"
      and "r1 = (if n = 8 \<and> full then bn_mul_comba8 (drop n a) (drop n b) else bn_mul_recursive n (drop n a) (drop n b))"
    have e: "bn_mul_recursive n2 a b = karatsuba_combine n (r0 @ r1) t (m0 XOR m1)"
      using 3 n(1) unfolding t_def r0_def r1_def full_def
      by (subst bn_mul_recursive.simps) (simp add: Let_def t0 t1 flip: n_def)
    have f: "n = 8 \<and> full \<Longrightarrow> length a = 16 \<and> length b = 16" using n(1) by (simp add: full_def)
    have "length t = 2 * n \<and> bn_val t = bn_val t0 * bn_val t1"
      using bn_mul_comba8_val [of t0 t1] rec [of t0 t1] d(1,4) by (simp add: t_def)
    moreover have "length r0 = 2 * n \<and> bn_val r0 = bn_val (take n a) * bn_val (take n b)"
      using bn_mul_comba8_val [of "take n a" "take n b"] rec [of "take n a" "take n b"] a b by (simp add: r0_def)
    moreover have "length r1 = 2 * n \<and> bn_val r1 = bn_val (drop n a) * bn_val (drop n b)"
      using bn_mul_comba8_val [of "drop n a" "drop n b"] rec [of "drop n a" "drop n b"] a b f Suc.prems n(1) by (auto simp: r1_def)
    ultimately show ?thesis unfolding e using karatsuba_product [OF a b t0 t1, of t r0 r1] n(1) by simp
  qed
qed

lemma part_split:
  assumes "n = 2 ^ k" "x < n" "y < n" "16 \<le> x \<or> 16 \<le> y" "part_split n x y = (p, i)"
  shows "(\<exists>j. i = 2 ^ j) \<and> 8 \<le> i \<and> i \<le> n div 2 \<and> x < 2 * i \<and> y < 2 * i \<and>
    (if p then i < x \<or> i < y else x \<le> i \<and> y \<le> i \<and> (x = i \<or> y = i))"
  using assms
proof (induction k arbitrary: n)
  case 0
  then show ?case by auto
next
  case (Suc k)
  define m where "m = n div 2"
  have m: "m = 2 ^ k" "n = 2 * m" using Suc.prems(1) by (simp_all add: m_def)
  have e: "part_split n x y = (if m < x \<or> m < y then (True, m) else if m = x \<or> m = y then (False, m) else part_split m x y)"
    by (subst part_split.simps) (simp add: Let_def m_def)
  consider "m < x \<or> m < y" | "\<not> (m < x \<or> m < y)" "m = x \<or> m = y" | "\<not> (m < x \<or> m < y)" "\<not> (m = x \<or> m = y)" by blast
  then show ?case
  proof cases
    case 1
    then have "p" "i = m" using Suc.prems(5) by (simp_all add: e)
    then show ?thesis using 1 m Suc.prems by auto
  next
    case 2
    then have "\<not> p" "i = m" using Suc.prems(5) by (simp_all add: e)
    then show ?thesis using 2 m Suc.prems by auto
  next
    case 3
    then have "part_split m x y = (p, i)" using Suc.prems(5) by (simp add: e)
    from Suc.IH [OF m(1) _ _ Suc.prems(4) this] 3 show ?thesis using m(2) by auto
  qed
qed

lemma store_zero:
  "length ws \<le> k \<Longrightarrow> length (store (replicate k 0) 0 ws) = k \<and> bn_val (store (replicate k 0) 0 ws) = bn_val ws"
  by (simp add: store_def bn_val_append)

lemma bn_mul_part_recursive_val:
  assumes "n = 2 ^ k" "8 \<le> n" "n \<le> length a" "length a < 2 * n" "n \<le> length b" "length b < 2 * n"
    "length a \<le> length b + 1" "length b \<le> length a + 1"
  shows "length (bn_mul_part_recursive n a b old) = 4 * n \<and> bn_val (bn_mul_part_recursive n a b old) = bn_val a * bn_val b"
  using assms
proof (induction n arbitrary: k a b old rule: less_induct)
  case (less n)
  define x y where "x = length a - n" and "y = length b - n"
  obtain t0 m0 where t0: "bn_abs_sub_part_words (take n a) (drop n a) x (int n - int x) = (t0, m0)"
    by (rule prod.exhaust)
  obtain t1 m1 where t1: "bn_abs_sub_part_words (drop n b) (take n b) y (int y - int n) = (t1, m1)"
    by (rule prod.exhaust)
  have a: "n \<le> length a" "length a \<le> 2 * n" and b: "n \<le> length b" "length b \<le> 2 * n" using less.prems by simp_all
  have xy: "length (drop n a) = x" "length (drop n b) = y" "x < n" "y < n" "x \<le> y + 1" "y \<le> x + 1"
    using less.prems by (simp_all add: x_def y_def)
  note d = differences [OF a b t0 [unfolded x_def] t1 [unfolded y_def]]
  define high where "high = (if x < 16 \<and> y < 16 then store (replicate (n * 2) 0) 0 (bn_mul_normal (drop n a) (drop n b))
       else case part_split n x y of
              (True, i) \<Rightarrow> store (replicate (n * 2) 0) 0 (bn_mul_part_recursive i (drop n a) (drop n b) (take (4 * i) (replicate (n * 2) 0)))
            | (False, i) \<Rightarrow> store (replicate (n * 2) 0) 0 (bn_mul_recursive i (drop n a) (drop n b)))"
  define t r0 r1 where "t = (if n = 8 then bn_mul_comba8 t0 t1 else bn_mul_recursive n t0 t1)"
    and "r0 = (if n = 8 then bn_mul_comba8 (take n a) (take n b) else bn_mul_recursive n (take n a) (take n b))"
    and "r1 = (if n = 8 then bn_mul_normal (drop n a) (drop n b) @ replicate (n * 2 - x - y) 0 else high)"
  have e: "bn_mul_part_recursive n a b old = karatsuba_combine n (r0 @ r1) t (m0 XOR m1)"
    using less.prems(2) unfolding t_def r0_def r1_def high_def
    by (subst bn_mul_part_recursive.simps) (simp add: Let_def t0 t1 flip: x_def y_def)
  have rec: "length (bn_mul_recursive n x y) = 2 * n \<and> bn_val (bn_mul_recursive n x y) = bn_val x * bn_val y"
    if "length x = n" "length y = n" for x y
    using bn_mul_recursive_val [OF less.prems(1)] that by simp
  have high: "length high = 2 * n \<and> bn_val high = bn_val (drop n a) * bn_val (drop n b)"
  proof (cases "x < 16 \<and> y < 16")
    case True
    then show ?thesis using bn_mul_normal_val [of "drop n a" "drop n b"] xy store_zero [of "bn_mul_normal (drop n a) (drop n b)" "n * 2"]
      by (simp add: high_def)
  next
    case False
    obtain p i where p: "part_split n x y = (p, i)" by (rule prod.exhaust)
    have "16 \<le> x \<or> 16 \<le> y" using False by linarith
    from part_split [OF less.prems(1) xy(3,4) this p]
    obtain j where j: "i = 2 ^ j" "8 \<le> i" "i \<le> n div 2" "x < 2 * i" "y < 2 * i"
      "if p then i < x \<or> i < y else x \<le> i \<and> y \<le> i \<and> (x = i \<or> y = i)" by auto
    define h where "h = (if p then bn_mul_part_recursive i (drop n a) (drop n b) (take (4 * i) (replicate (n * 2) 0))
      else bn_mul_recursive i (drop n a) (drop n b))"
    have "high = store (replicate (n * 2) 0) 0 h" unfolding high_def h_def if_not_P [OF False] p by (cases p) simp_all
    moreover have "length h \<le> n * 2 \<and> bn_val h = bn_val (drop n a) * bn_val (drop n b)"
    proof (cases p)
      case True
      then have "i \<le> x" "i \<le> y" using j(6) xy(5,6) by auto
      moreover have "i < n" using j(3) less.prems(2) by linarith
      ultimately have "length (bn_mul_part_recursive i (drop n a) (drop n b) (take (4 * i) (replicate (n * 2) 0))) = 4 * i \<and>
          bn_val (bn_mul_part_recursive i (drop n a) (drop n b) (take (4 * i) (replicate (n * 2) 0))) = bn_val (drop n a) * bn_val (drop n b)"
        using xy j by (intro less.IH [of i j]) simp_all
      then show ?thesis using True j(3) by (simp add: h_def)
    next
      case False
      then have "x \<le> i" "y \<le> i" "i \<le> x + 8" "i \<le> y + 8" using j(6) xy(5,6) by auto
      then show ?thesis using False j(3) bn_mul_recursive_val [OF j(1), of "drop n a" "drop n b"] xy by (simp add: h_def)
    qed
    ultimately show ?thesis using store_zero [of h "n * 2"] by simp
  qed
  have "length t = 2 * n \<and> bn_val t = bn_val t0 * bn_val t1"
    using bn_mul_comba8_val [of t0 t1] rec [of t0 t1] d(1,4) by (simp add: t_def)
  moreover have "length r0 = 2 * n \<and> bn_val r0 = bn_val (take n a) * bn_val (take n b)"
    using bn_mul_comba8_val [of "take n a" "take n b"] rec [of "take n a" "take n b"] a b by (simp add: r0_def)
  moreover have "length r1 = 2 * n \<and> bn_val r1 = bn_val (drop n a) * bn_val (drop n b)"
  proof (cases "n = 8")
    case True
    show ?thesis unfolding r1_def if_P [OF True] using bn_mul_normal_val [of "drop n a" "drop n b"] xy by (simp add: bn_val_pad)
  qed (use high in \<open>simp add: r1_def\<close>)
  ultimately show ?case using karatsuba_product [OF a b t0 [unfolded x_def] t1 [unfolded y_def], of t r0 r1] by (simp add: e)
qed

lemma bn_sqr_recursive_val:
  "length a = 2 ^ k \<Longrightarrow> length (bn_sqr_recursive a) = 2 * length a \<and> bn_val (bn_sqr_recursive a) = bn_val a * bn_val a"
proof (induction k arbitrary: a)
  case 0
  then show ?case using bn_sqr_normal_val [of a] by (simp add: bn_sqr_recursive.simps)
next
  case (Suc k)
  define n where "n = length a div 2"
  have n: "length a = 2 * n" "n = 2 ^ k" using Suc.prems by (simp_all add: n_def)
  consider "length a = 4" | "length a = 8" | "length a < 16" "length a \<noteq> 4" "length a \<noteq> 8" | "16 \<le> length a" by linarith
  then show ?case
  proof cases
    case 4
    define d t where "d = bn_abs_sub_words (take n a) (drop n a)" and "t = bn_sqr_recursive d"
    define r0 r1 where "r0 = bn_sqr_recursive (take n a)" and "r1 = bn_sqr_recursive (drop n a)"
    have d: "length d = n" "bn_val d = \<bar>bn_val (take n a) - bn_val (drop n a)\<bar>"
      using bn_abs_sub_words_val [of "take n a" "drop n a"] n(1) by (simp_all add: d_def)
    have t: "length t = 2 * n" "bn_val t = (bn_val (take n a) - bn_val (drop n a)) * (bn_val (take n a) - bn_val (drop n a))"
      using Suc.IH [of d] d n(2) by (simp_all add: t_def)
    have r: "length r0 = 2 * n" "bn_val r0 = bn_val (take n a) * bn_val (take n a)"
      "length r1 = 2 * n" "bn_val r1 = bn_val (drop n a) * bn_val (drop n a)"
      using Suc.IH [of "take n a"] Suc.IH [of "drop n a"] n by (simp_all add: r0_def r1_def)
    obtain t01 c where a1: "bn_add_words r0 r1 = (t01, c)" by (rule prod.exhaust)
    obtain e borrow where s1: "bn_sub_words t01 t = (e, borrow)" by (rule prod.exhaust)
    obtain p carry where p1: "bn_add_words t01 t = (p, carry)" by (rule prod.exhaust)
    have lt: "length t01 = length t" using bn_add_words_val(1) [OF a1] r(1,3) t(1) by simp
    have "bn_sqr_recursive a = karatsuba_add n (r0 @ r1) e (c - borrow)"
      using 4 r(1,3) n(1) by (subst bn_sqr_recursive.simps) (simp add: Let_def a1 s1 flip: n_def d_def t_def r0_def r1_def)
    moreover have "karatsuba_combine n (r0 @ r1) t (mask_of True) = karatsuba_add n (r0 @ r1) e (c - borrow)"
      unfolding karatsuba_combine_def Let_def using r(1,3) lt bn_sub_words_val(1) [OF s1 lt] bn_add_words_val(1) [OF p1 lt]
      by (simp add: a1 s1 p1 bn_select_words_mask [of e p True, simplified] constant_time_select_w_def)
    moreover have "length (karatsuba_combine n (r0 @ r1) t (mask_of True)) = 4 * n \<and>
        bn_val (karatsuba_combine n (r0 @ r1) t (mask_of True)) = bn_val (r0 @ r1) + radix ^ n * (2 * (bn_val (take n a) * bn_val (drop n a)))"
    proof (rule karatsuba_combine)
      have "bn_val (r0 @ r1) + radix ^ n * (2 * (bn_val (take n a) * bn_val (drop n a))) = bn_val a * bn_val a"
        using halves [of n a] r n(1) by (simp add: bn_val_append algebra_simps) (simp flip: power_add add: mult_2)
      moreover have "bn_val a * bn_val a < radix ^ (4 * n)" using n(1) by (intro product_fits) simp
      ultimately show "bn_val (r0 @ r1) + radix ^ n * (2 * (bn_val (take n a) * bn_val (drop n a))) < radix ^ (4 * n)" by simp
    qed (use r t in \<open>simp_all add: algebra_simps\<close>)
    moreover have "bn_val (r0 @ r1) + radix ^ n * (2 * (bn_val (take n a) * bn_val (drop n a))) = bn_val a * bn_val a"
      using halves [of n a] r n(1) by (simp add: bn_val_append algebra_simps) (simp flip: power_add add: mult_2)
    ultimately show ?thesis using n(1) by simp
  qed (use bn_sqr_comba4_val [of a] bn_sqr_comba8_val [of a] bn_sqr_normal_val [of a] in \<open>simp_all add: bn_sqr_recursive.simps\<close>)
qed

end
