(* ===== verification/Bn_Product.thy ===== *)
theory Bn_Product
  imports Bn_Karatsuba
begin

text \<open>
  \<^verbatim>\<open>BN_mul\<close>, \<^verbatim>\<open>BN_sqr\<close> and \<^verbatim>\<open>BN_mul_word\<close> of \<^verbatim>\<open>fipsmodule/bn/mul.c\<close>. The numbers that the code takes from its
  context are parameters, \<open>None\<close> where \<^verbatim>\<open>BN_CTX_get\<close> fails; \<open>shared\<close> says that \<^verbatim>\<open>r\<close> is one of the operands.
\<close>

section \<open>The operations\<close>

definition bn_abs_sub_consttime :: "allocator \<Rightarrow> bignum option \<Rightarrow> bignum \<Rightarrow> bignum \<Rightarrow> bignum \<Rightarrow> unit option \<times> bignum" where
  "bn_abs_sub_consttime A tmp r a b =
     (let cl = (if bn_width a < bn_width b then bn_width a else bn_width b);
          dl = int (bn_width a) - int (bn_width b);
          r_len = (if bn_width a < bn_width b then bn_width b else bn_width a)
      in case tmp of
           None \<Rightarrow> (None, r)
         | Some tmp \<Rightarrow>
             andthen (bn_wexpand A r r_len) (\<lambda>_ r.
               case bn_wexpand A tmp r_len of
                 (None, _) \<Rightarrow> (None, r)
               | (Some _, _) \<Rightarrow>
                   (Some (), r\<lparr>bn_d := store (bn_d r) 0 (fst (bn_abs_sub_part_words (take (bn_width a) (bn_d a)) (take (bn_width b) (bn_d b)) cl dl)),
                               bn_width := r_len\<rparr>)))"

text \<open>The body of \<^verbatim>\<open>bn_mul_impl\<close>, which writes the product to \<^verbatim>\<open>rr\<close>.\<close>

definition mul_into :: "allocator \<Rightarrow> bignum option \<Rightarrow> bignum \<Rightarrow> bignum \<Rightarrow> bignum \<Rightarrow> unit option \<times> bignum" where
  "mul_into A t rr a b =
     (let al = bn_width a; bl = bn_width b;
          x = take al (bn_d a); y = take bl (bn_d b);
          i = int al - int bl; tot = al + bl
      in if i = 0 \<and> al = 8
         then andthen (bn_wexpand A rr 16) (\<lambda>_ rr.
                (Some (), rr\<lparr>bn_d := store (bn_d rr) 0 (bn_mul_comba8 x y), bn_width := 16\<rparr>))
         else if al \<ge> 16 \<and> bl \<ge> 16 \<and> - 1 \<le> i \<and> i \<le> 1
         then
           let j = BN_num_bits_word (word_of_nat (if i \<ge> 0 then al else bl)); j = 2 ^ (j - 1)
           in case t of
                None \<Rightarrow> (None, rr)
              | Some t \<Rightarrow>
                  if al > j \<or> bl > j
                  then (case bn_wexpand A t (j * 8) of
                          (None, _) \<Rightarrow> (None, rr)
                        | (Some _, _) \<Rightarrow>
                            andthen (bn_wexpand A rr (j * 4)) (\<lambda>_ rr.
                              (Some (), rr\<lparr>bn_d := store (bn_d rr) 0 (bn_mul_part_recursive j x y (take (4 * j) (bn_d rr))), bn_width := tot\<rparr>)))
                  else (case bn_wexpand A t (j * 4) of
                          (None, _) \<Rightarrow> (None, rr)
                        | (Some _, _) \<Rightarrow>
                            andthen (bn_wexpand A rr (j * 2)) (\<lambda>_ rr.
                              (Some (), rr\<lparr>bn_d := store (bn_d rr) 0 (bn_mul_recursive j x y), bn_width := tot\<rparr>)))
         else andthen (bn_wexpand A rr tot) (\<lambda>_ rr.
                (Some (), rr\<lparr>bn_d := store (bn_d rr) 0 (bn_mul_normal x y), bn_width := tot\<rparr>)))"

definition bn_mul_impl :: "allocator \<Rightarrow> bool \<Rightarrow> bignum option \<Rightarrow> bignum option \<Rightarrow> bignum \<Rightarrow> bignum \<Rightarrow> bignum \<Rightarrow> unit option \<times> bignum" where
  "bn_mul_impl A shared ctx t r a b =
     (if bn_width a = 0 \<or> bn_width b = 0 then (Some (), BN_zero r)
      else case (if shared then ctx else Some r) of
             None \<Rightarrow> (None, r)
           | Some rr \<Rightarrow>
               (case mul_into A t (rr\<lparr>bn_neg := (bn_neg a \<noteq> bn_neg b)\<rparr>) a b of
                  (None, rr) \<Rightarrow> (None, if shared then r else rr)
                | (Some _, rr) \<Rightarrow> if shared then BN_copy A r rr else (Some (), rr)))"

definition BN_mul :: "allocator \<Rightarrow> bool \<Rightarrow> bignum option \<Rightarrow> bignum option \<Rightarrow> bignum \<Rightarrow> bignum \<Rightarrow> bignum \<Rightarrow> unit option \<times> bignum" where
  "BN_mul A shared ctx t r a b = andthen (bn_mul_impl A shared ctx t r a b) (\<lambda>_ r. (Some (), bn_set_minimal_width r))"

definition bn_mul_consttime :: "allocator \<Rightarrow> bool \<Rightarrow> bignum option \<Rightarrow> bignum option \<Rightarrow> bignum \<Rightarrow> bignum \<Rightarrow> bignum \<Rightarrow> unit option \<times> bignum" where
  "bn_mul_consttime A shared ctx t r a b =
     (if bn_neg a \<or> bn_neg b then (None, r) else bn_mul_impl A shared ctx t r a b)"

definition BN_mul_word :: "allocator \<Rightarrow> bignum \<Rightarrow> limb \<Rightarrow> unit option \<times> bignum" where
  "BN_mul_word A bn w =
     (if bn_width bn = 0 then (Some (), bn)
      else if w = 0 then (Some (), BN_zero bn)
      else case bn_mul_words (take (bn_width bn) (bn_d bn)) w of (ws, ll) \<Rightarrow>
             let bn = bn\<lparr>bn_d := store (bn_d bn) 0 ws\<rparr>
             in if ll \<noteq> 0
                then andthen (bn_wexpand A bn (bn_width bn + 1)) (\<lambda>_ bn.
                       (Some (), bn\<lparr>bn_d := (bn_d bn)[bn_width bn := ll], bn_width := bn_width bn + 1\<rparr>))
                else (Some (), bn))"

text \<open>The body of \<^verbatim>\<open>bn_sqr_consttime\<close>, which writes the square to \<^verbatim>\<open>rr\<close>.\<close>

definition sqr_into :: "allocator \<Rightarrow> bignum \<Rightarrow> bignum \<Rightarrow> bignum \<Rightarrow> unit option \<times> bignum" where
  "sqr_into A tmp rr a =
     (let al = bn_width a; x = take al (bn_d a); m = 2 * al;
          store_r = (\<lambda>rr ws. (Some (), rr\<lparr>bn_d := store (bn_d rr) 0 ws, bn_width := m, bn_neg := False\<rparr>))
      in andthen (bn_wexpand A rr m) (\<lambda>_ rr.
           if al = 4 then store_r rr (bn_sqr_comba4 x)
           else if al = 8 then store_r rr (bn_sqr_comba8 x)
           else if al < BN_MUL_RECURSIVE_SIZE_NORMAL then store_r rr (bn_sqr_normal x)
           else if al \<noteq> 0 \<and> al AND (al - 1) = 0
           then (case bn_wexpand A tmp (al * 4) of
                   (None, _) \<Rightarrow> (None, rr)
                 | (Some _, _) \<Rightarrow> store_r rr (bn_sqr_recursive x))
           else (case bn_wexpand A tmp m of
                   (None, _) \<Rightarrow> (None, rr)
                 | (Some _, _) \<Rightarrow> store_r rr (bn_sqr_normal x))))"

definition bn_sqr_consttime :: "allocator \<Rightarrow> bool \<Rightarrow> bignum option \<Rightarrow> bignum option \<Rightarrow> bignum \<Rightarrow> bignum \<Rightarrow> unit option \<times> bignum" where
  "bn_sqr_consttime A shared ctx tmp r a =
     (if bn_width a = 0 then (Some (), r\<lparr>bn_width := 0, bn_neg := False\<rparr>)
      else case (if shared then ctx else Some r, tmp) of
             (Some rr, Some tmp) \<Rightarrow>
               (case sqr_into A tmp rr a of
                  (None, rr) \<Rightarrow> (None, if shared then r else rr)
                | (Some _, rr) \<Rightarrow> if shared then BN_copy A r rr else (Some (), rr))
           | _ \<Rightarrow> (None, r))"

definition BN_sqr :: "allocator \<Rightarrow> bool \<Rightarrow> bignum option \<Rightarrow> bignum option \<Rightarrow> bignum \<Rightarrow> bignum \<Rightarrow> unit option \<times> bignum" where
  "BN_sqr A shared ctx tmp r a = andthen (bn_sqr_consttime A shared ctx tmp r a) (\<lambda>_ r. (Some (), bn_set_minimal_width r))"

section \<open>Differences\<close>

lemma bn_abs_sub_consttime_Some:
  assumes A: "malloc_spec A" and ok: "bn_ok r" "bn_ok a" "bn_ok b" and r': "bn_abs_sub_consttime A tmp r a b = (Some u, r')"
  shows "bn_ok r' \<and> bn_abs r' = \<bar>bn_abs a - bn_abs b\<bar> \<and> bn_neg r' = bn_neg r"
proof -
  define r_len where "r_len = (if bn_width a < bn_width b then bn_width b else bn_width a)"
  define cl where "cl = (if bn_width a < bn_width b then bn_width a else bn_width b)"
  obtain ws m where w: "bn_abs_sub_part_words (bn_limbs a) (bn_limbs b) cl (int (bn_width a) - int (bn_width b)) = (ws, m)"
    by (rule prod.exhaust)
  have v: "length ws = r_len" "bn_val ws = \<bar>bn_abs a - bn_abs b\<bar>"
    using bn_abs_sub_part_words_val(1,2) [OF _ _ w] ok by (simp_all add: cl_def r_len_def bn_abs_def max_def)
  obtain d where d: "bn_wexpand A r r_len = (Some (), d)" "r' = d\<lparr>bn_d := store (bn_d d) 0 ws, bn_width := r_len\<rparr>"
    using r' w by (auto simp: bn_abs_sub_consttime_def Let_def r_len_def cl_def bn_limbs_def elim!: andthen_SomeE
      split: option.splits prod.splits if_splits)
  note x = bn_wexpand_Some [OF d(1) A ok(1)]
  show ?thesis using bn_stored(3,4) [of ws d] x(2,5) unfolding v(1) by (simp add: d(2) bn_abs_def [of "d\<lparr>bn_d := _, bn_width := _\<rparr>"] v(2))
qed

section \<open>Products\<close>

lemma bn_val_take: "bn_val ws < radix ^ k \<Longrightarrow> bn_val (take k ws) = bn_val ws"
proof (cases "k \<le> length ws")
  case True
  assume "bn_val ws < radix ^ k"
  moreover have "bn_val ws = bn_val (take k ws) + radix ^ k * bn_val (drop k ws)" using True by (rule halves)
  moreover have "radix ^ k * 1 \<le> radix ^ k * bn_val (drop k ws)" if "bn_val (drop k ws) \<noteq> 0"
    using that bn_val_nonneg [of "drop k ws"] by (intro mult_left_mono) (linarith, simp)
  ultimately show ?thesis using bn_val_nonneg [of "take k ws"] by (cases "bn_val (drop k ws) = 0") (simp, linarith)
qed simp

text \<open>The end of a product: more words are stored than count, and the others are zero.\<close>

lemma product_stored:
  assumes "bn_wexpand A rr n = (Some u, d)" "malloc_spec A" "bn_ok rr"
    and ws: "length ws = n" "tot \<le> n" "bn_val ws < radix ^ tot"
  shows "bn_ok (d\<lparr>bn_d := store (bn_d d) 0 ws, bn_width := tot\<rparr>) \<and>
    bn_abs (d\<lparr>bn_d := store (bn_d d) 0 ws, bn_width := tot\<rparr>) = bn_val ws \<and> bn_neg d = bn_neg rr"
proof -
  note x = bn_wexpand_Some [OF assms(1-3)]
  have "take tot (store (bn_d d) 0 ws) = take tot ws" using x(2) ws(1,2) by (simp add: store_def)
  then show ?thesis using x(2,5) ws bn_val_take [OF ws(3)] by (simp add: bn_ok_def bn_abs_def bn_limbs_def)
qed

lemma power_below: "n \<noteq> 0 \<Longrightarrow> 2 ^ (bit_length n - 1) \<le> n \<and> n < 2 * 2 ^ (bit_length n - 1)"
  using bit_length_bounds [of n] by (cases "bit_length n") simp_all

lemma mul_into_val:
  assumes A: "malloc_spec A" and ok: "bn_ok rr" "bn_ok a" "bn_ok b" and w: "bn_width a < 2 ^ 64" "bn_width b < 2 ^ 64"
    and r': "mul_into A t rr a b = (Some u, r')"
  shows "bn_ok r' \<and> bn_abs r' = bn_abs a * bn_abs b \<and> bn_neg r' = bn_neg rr"
proof -
  define x y where "x = bn_limbs a" and "y = bn_limbs b"
  have l: "length x = bn_width a" "length y = bn_width b" using ok by (simp_all add: x_def y_def)
  have v: "bn_val x = bn_abs a" "bn_val y = bn_abs b" by (simp_all add: x_def y_def bn_abs_def)
  have fits: "bn_val x * bn_val y < radix ^ (length x + length y)" by (rule product_fits) simp
  have stored: ?thesis if "bn_wexpand A rr n = (Some u', d)" "r' = d\<lparr>bn_d := store (bn_d d) 0 ws, bn_width := tot\<rparr>"
    "length ws = n" "tot = length x + length y" "tot \<le> n" "bn_val ws = bn_val x * bn_val y" for n d ws tot u'
    using product_stored [OF that(1) A ok(1) that(3,5)] fits that(2,4,6) v by simp
  consider (comba) "length x = 8" "length y = 8"
    | (rec) "16 \<le> length x" "16 \<le> length y" "length x \<le> length y + 1" "length y \<le> length x + 1"
    | (normal) "\<not> (length x = 8 \<and> length y = 8)" "\<not> (16 \<le> length x \<and> 16 \<le> length y \<and> length x \<le> length y + 1 \<and> length y \<le> length x + 1)"
    by linarith
  then show ?thesis
  proof cases
    case comba
    then have g: "int (bn_width a) - int (bn_width b) = 0 \<and> bn_width a = 8" using l by simp
    from r' obtain d where "bn_wexpand A rr 16 = (Some (), d)" "r' = d\<lparr>bn_d := store (bn_d d) 0 (bn_mul_comba8 x y), bn_width := 16\<rparr>"
      unfolding mul_into_def Let_def if_P [OF g] bn_limbs_def [of a, symmetric] bn_limbs_def [of b, symmetric]
        x_def [symmetric] y_def [symmetric] by (auto elim!: andthen_SomeE)
    then show ?thesis by (rule stored) (simp_all add: comba bn_mul_comba8_val [OF comba])
  next
    case normal
    obtain d where "bn_wexpand A rr (length x + length y) = (Some (), d)"
      "r' = d\<lparr>bn_d := store (bn_d d) 0 (bn_mul_normal x y), bn_width := length x + length y\<rparr>"
    proof -
      have g: "\<not> (int (bn_width a) - int (bn_width b) = 0 \<and> bn_width a = 8)"
        "\<not> (bn_width a \<ge> 16 \<and> bn_width b \<ge> 16 \<and> - 1 \<le> int (bn_width a) - int (bn_width b) \<and> int (bn_width a) - int (bn_width b) \<le> 1)"
        using normal l by linarith+
      from r' show ?thesis using that
        unfolding mul_into_def Let_def if_not_P [OF g(1)] if_not_P [OF g(2)] l bn_limbs_def [of a, symmetric] bn_limbs_def [of b, symmetric]
        by (auto simp: x_def y_def elim!: andthen_SomeE)
    qed
    then show ?thesis by (rule stored) (simp_all add: bn_mul_normal_val)
  next
    case rec
    define n where "n = max (length x) (length y)"
    define j :: nat where "j = 2 ^ (bit_length n - 1)"
    have "n \<noteq> 0" using rec(1) by (auto simp: n_def max_def)
    then have j: "j \<le> n" "n < 2 * j" using power_below [of n] by (simp_all add: j_def)
    have n64: "n < 2 ^ 64" using w l by (simp add: n_def)
    have nx: "(if int (bn_width a) - int (bn_width b) \<ge> 0 then bn_width a else bn_width b) = n" using l by (simp add: n_def max_def)
    have nb: "BN_num_bits_word (word_of_nat n) = bit_length n" using n64 by (simp add: BN_num_bits_word unat_of_nat)
    have g: "\<not> (int (bn_width a) - int (bn_width b) = 0 \<and> bn_width a = 8)"
      "bn_width a \<ge> 16 \<and> bn_width b \<ge> 16 \<and> - 1 \<le> int (bn_width a) - int (bn_width b) \<and> int (bn_width a) - int (bn_width b) \<le> 1"
      using rec l by linarith+
    have j8: "8 \<le> j" using j rec by (simp add: n_def)
    note u = r' [unfolded mul_into_def Let_def if_not_P [OF g(1)] if_P [OF g(2)] nx nb j_def [symmetric]
        bn_limbs_def [of a, symmetric] bn_limbs_def [of b, symmetric] x_def [symmetric] y_def [symmetric]]
    show ?thesis
    proof (cases "length x > j \<or> length y > j")
      case True
      then obtain d where d: "bn_wexpand A rr (j * 4) = (Some (), d)"
        "r' = d\<lparr>bn_d := store (bn_d d) 0 (bn_mul_part_recursive j x y (take (4 * j) (bn_d d))), bn_width := length x + length y\<rparr>"
        using u l by (auto elim!: andthen_SomeE split: option.splits prod.splits)
      have "length x < 2 * j" "length y < 2 * j" "j \<le> length x" "j \<le> length y"
        using True j rec by (auto simp: n_def)
      then show ?thesis using stored [OF d] bn_mul_part_recursive_val [OF j_def j8, of x y] rec(3,4) by simp
    next
      case False
      then obtain d where d: "bn_wexpand A rr (j * 2) = (Some (), d)"
        "r' = d\<lparr>bn_d := store (bn_d d) 0 (bn_mul_recursive j x y), bn_width := length x + length y\<rparr>"
        using u l by (auto elim!: andthen_SomeE split: option.splits prod.splits)
      have "length x \<le> j" "length y \<le> j" "j \<le> length x + 8" "j \<le> length y + 8"
        using False j rec by (auto simp: n_def)
      then show ?thesis using stored [OF d] bn_mul_recursive_val [OF j_def, of x y] by simp
    qed
  qed
qed

lemma bn_mul_impl_Some:
  assumes A: "malloc_spec A" and ok: "bn_ok r" "bn_ok a" "bn_ok b" "\<And>c. ctx = Some c \<Longrightarrow> bn_ok c"
    and w: "bn_width a < 2 ^ 64" "bn_width b < 2 ^ 64" and r': "bn_mul_impl A shared ctx t r a b = (Some u, r')"
  shows "bn_ok r' \<and> bn_abs r' = bn_abs a * bn_abs b \<and> bn_int r' = bn_int a * bn_int b"
proof (cases "bn_width a = 0 \<or> bn_width b = 0")
  case True
  then have "bn_abs a = 0 \<or> bn_abs b = 0" by (auto simp: bn_abs_def bn_limbs_def)
  moreover from this have "bn_int a = 0 \<or> bn_int b = 0" by (auto simp: bn_int_def)
  ultimately show ?thesis using True r' by (auto simp: bn_mul_impl_def bn_simps)
next
  case False
  obtain rr d where rr: "(if shared then ctx else Some r) = Some rr"
    "mul_into A t (rr\<lparr>bn_neg := (bn_neg a \<noteq> bn_neg b)\<rparr>) a b = (Some (), d)"
    "if shared then BN_copy A r d = (Some (), r') else r' = d"
    using r' False unfolding bn_mul_impl_def by (cases shared) (auto split: option.splits prod.splits)
  have "bn_ok (rr\<lparr>bn_neg := (bn_neg a \<noteq> bn_neg b)\<rparr>)" using rr(1) ok(1,4) by (auto simp: bn_ok_def split: if_splits)
  from mul_into_val [OF A this ok(2,3) w rr(2)]
  have d: "bn_ok d" "bn_abs d = bn_abs a * bn_abs b" "bn_neg d = (bn_neg a \<noteq> bn_neg b)" by simp_all
  have i: "bn_int d = bn_int a * bn_int b"
    using d(2,3) by (cases "bn_neg a"; cases "bn_neg b") (simp_all add: bn_int_def)
  show ?thesis
  proof (cases shared)
    case True
    then have c: "BN_copy A r d = (Some (), r')" using rr(3) by simp
    note x = BN_copy_Some [OF c A ok(1) d(1)]
    then show ?thesis using d(2) i by (simp add: bn_abs_def)
  next
    case False
    then show ?thesis using rr(3) d i by simp
  qed
qed

lemma BN_mul_Some:
  assumes "malloc_spec A" "bn_ok r" "bn_ok a" "bn_ok b" "\<And>c. ctx = Some c \<Longrightarrow> bn_ok c" "bn_width a < 2 ^ 64" "bn_width b < 2 ^ 64"
    and r': "BN_mul A shared ctx t r a b = (Some u, r')"
  shows "bn_norm r' \<and> bn_int r' = bn_int a * bn_int b"
proof -
  obtain d where d: "bn_mul_impl A shared ctx t r a b = (Some (), d)" "r' = bn_set_minimal_width d"
    using r' by (auto simp: BN_mul_def elim!: andthen_SomeE)
  from bn_mul_impl_Some [OF assms(1-7) d(1)] show ?thesis
    by (auto simp: d(2) bn_norm_def bn_set_minimal_width)
qed

lemma BN_mul_word_Some:
  assumes A: "malloc_spec A" and ok: "bn_ok a" and r': "BN_mul_word A a w = (Some u, r')"
  shows "bn_ok r' \<and> bn_int r' = bn_int a * uint w"
proof -
  consider "bn_width a = 0" | "bn_width a \<noteq> 0" "w = 0" | "bn_width a \<noteq> 0" "w \<noteq> 0" by blast
  then show ?thesis
  proof cases
    case 1
    then show ?thesis using r' ok by (simp add: BN_mul_word_def bn_int_def bn_abs_def bn_limbs_def)
  next
    case 2
    then show ?thesis using r' by (auto simp: BN_mul_word_def bn_simps)
  next
    case 3
    obtain ws ll where w: "bn_mul_words (bn_limbs a) w = (ws, ll)" by (rule prod.exhaust)
    note v = bn_mul_words_val [OF w, unfolded length_bn_limbs [OF ok]]
    define b where "b = a\<lparr>bn_d := store (bn_d a) 0 ws\<rparr>"
    have lb: "bn_ok b" "bn_limbs b = ws" "bn_width b = bn_width a" "bn_neg b = bn_neg a"
      using v(1) ok by (simp_all add: b_def bn_ok_def bn_limbs_def store_def)
    have r: "r' = b \<and> ll = 0 \<or> ll \<noteq> 0 \<and> (\<exists>d. bn_wexpand A b (bn_width a + 1) = (Some (), d) \<and>
        r' = d\<lparr>bn_d := (bn_d d)[bn_width d := ll], bn_width := bn_width d + 1\<rparr>)"
      using r' 3 lb(3) unfolding BN_mul_word_def bn_limbs_def [symmetric] w Let_def prod.case b_def [symmetric]
      by (auto elim!: andthen_SomeE split: if_splits)
    have "bn_ok r' \<and> bn_abs r' = bn_abs a * uint w \<and> bn_neg r' = bn_neg a"
    proof (cases "ll = 0")
      case True
      then show ?thesis using r lb v(2) by (simp add: bn_abs_def mult.commute)
    next
      case False
      then obtain d where d: "bn_wexpand A b (bn_width a + 1) = (Some (), d)"
        "r' = d\<lparr>bn_d := (bn_d d)[bn_width d := ll], bn_width := bn_width d + 1\<rparr>" using r by blast
      note x = bn_wexpand_Some [OF d(1) A lb(1)]
      have "bn_limbs r' = bn_limbs d @ [ll]" using x(2,4) lb(3) by (simp add: d(2) bn_limbs_def take_Suc_conv_app_nth)
      then have l: "bn_limbs r' = ws @ [ll]" using x(3) lb(2) by simp
      show ?thesis using x lb l v by (simp add: d(2) bn_ok_def) (simp add: d(2) [symmetric] bn_abs_def bn_val_append mult.commute)
    qed
    then show ?thesis by (simp add: bn_int_def)
  qed
qed

lemma power_of_two: "n \<noteq> 0 \<Longrightarrow> n AND (n - 1) = 0 \<Longrightarrow> \<exists>k. n = 2 ^ k" for n :: nat
proof (induction n rule: less_induct)
  case (less n)
  show ?case
  proof (cases "odd n")
    case True
    then obtain m where m: "n = 2 * m + 1" by (elim oddE)
    have "n AND (n - 1) = 2 * m"
    proof (rule bit_eqI)
      fix j show "bit (n AND (n - 1)) j = bit (2 * m) j" unfolding m bit_and_iff by (cases j) (simp_all add: bit_Suc bit_0)
    qed
    then have "m = 0" using less.prems(2) by simp
    then show ?thesis using m by (intro exI [of _ 0]) simp
  next
    case False
    then obtain m where m: "n = 2 * m" by (auto elim: evenE)
    have "m AND (m - 1) = 0"
    proof (rule bit_eqI)
      fix j
      have n1: "n - 1 = 2 * (m - 1) + 1" using m less.prems(1) by simp
      have "bit (n AND (n - 1)) (Suc j) = bit (m AND (m - 1)) j" unfolding bit_and_iff n1 unfolding m by (simp add: bit_Suc)
      then show "bit (m AND (m - 1)) j = bit 0 j" using less.prems(2) by simp
    qed
    moreover have "m < n" "m \<noteq> 0" using m less.prems(1) by simp_all
    ultimately obtain k where "m = 2 ^ k" using less.IH by blast
    then show ?thesis using m by (intro exI [of _ "Suc k"]) simp
  qed
qed

lemma bn_sqr_consttime_Some:
  assumes A: "malloc_spec A" and ok: "bn_ok r" "bn_ok a" "\<And>c. ctx = Some c \<Longrightarrow> bn_ok c"
    and r': "bn_sqr_consttime A shared ctx tmp r a = (Some u, r')"
  shows "bn_ok r' \<and> bn_abs r' = bn_abs a * bn_abs a \<and> \<not> bn_neg r'"
proof (cases "bn_width a = 0")
  case True
  then show ?thesis using r' by (auto simp: bn_sqr_consttime_def bn_ok_def bn_abs_def bn_limbs_def)
next
  case False
  define x where "x = bn_limbs a"
  have l: "length x = bn_width a" using ok(2) by (simp add: x_def)
  define ws where "ws = (if bn_width a = 4 then bn_sqr_comba4 x else if bn_width a = 8 then bn_sqr_comba8 x
    else if bn_width a < 16 then bn_sqr_normal x
    else if bn_width a \<noteq> 0 \<and> bn_width a AND (bn_width a - 1) = 0 then bn_sqr_recursive x else bn_sqr_normal x)"
  have v: "length ws = 2 * bn_width a \<and> bn_val ws = bn_val x * bn_val x"
    using bn_sqr_comba4_val [of x] bn_sqr_comba8_val [of x] bn_sqr_normal_val [of x] bn_sqr_recursive_val [of x] power_of_two [of "bn_width a"] l
    by (auto simp: ws_def)
  obtain rr t d where s: "(if shared then ctx else Some r) = Some rr" "sqr_into A t rr a = (Some (), d)"
    "if shared then BN_copy A r d = (Some (), r') else r' = d"
    using r' False unfolding bn_sqr_consttime_def by (cases shared) (auto split: option.splits prod.splits)
  obtain e where d: "bn_wexpand A rr (2 * bn_width a) = (Some (), e)"
    "d = e\<lparr>bn_d := store (bn_d e) 0 ws, bn_width := 2 * bn_width a, bn_neg := False\<rparr>"
    using s(2) unfolding sqr_into_def Let_def bn_limbs_def [symmetric] x_def [symmetric] ws_def
    by (auto elim!: andthen_SomeE split: option.splits prod.splits if_splits)
  have "bn_ok rr" using s(1) ok(1,3) by (auto split: if_splits)
  note y = bn_wexpand_Some [OF d(1) A this]
  have dd: "bn_ok d" "bn_abs d = bn_abs a * bn_abs a" "\<not> bn_neg d"
    using bn_stored(1,2) [of ws e False] y(2) v by (simp_all add: d(2) bn_abs_def x_def)
  show ?thesis
  proof (cases shared)
    case True
    then have c: "BN_copy A r d = (Some (), r')" using s(3) by simp
    from BN_copy_Some [OF c A ok(1) dd(1)] dd show ?thesis by (simp add: bn_abs_def)
  next
    case False
    then show ?thesis using s(3) dd by simp
  qed
qed

lemma BN_sqr_Some:
  assumes "malloc_spec A" "bn_ok r" "bn_ok a" "\<And>c. ctx = Some c \<Longrightarrow> bn_ok c"
    and r': "BN_sqr A shared ctx tmp r a = (Some u, r')"
  shows "bn_norm r' \<and> bn_int r' = bn_int a * bn_int a"
proof -
  obtain d where d: "bn_sqr_consttime A shared ctx tmp r a = (Some (), d)" "r' = bn_set_minimal_width d"
    using r' by (auto simp: BN_sqr_def elim!: andthen_SomeE)
  from bn_sqr_consttime_Some [OF assms(1-4) d(1)] show ?thesis
    by (auto simp: d(2) bn_norm_def bn_set_minimal_width bn_int_def)
qed

section \<open>The product\<close>

lemma mul_into_total:
  assumes A: "\<forall>n. A n \<noteq> None" and st: "\<not> bn_static rr" "\<not> bn_static t"
    and w: "bn_width a + bn_width b \<le> 1000000"
  shows "fst (mul_into A (Some t) rr a b) = Some ()"
proof -
  have x: "fst (bn_wexpand A rr n) = Some ()" if "n \<le> 8388607" for n using bn_wexpand_total [OF A st(1) that] by auto
  have y: "fst (bn_wexpand A t n) = Some ()" if "n \<le> 8388607" for n using bn_wexpand_total [OF A st(2) that] by auto
  have k: "fst (andthen (bn_wexpand A rr n) (\<lambda>_ rr. (Some (), f rr))) = Some ()" if "n \<le> 8388607" for n f
    using x [OF that] by (cases "bn_wexpand A rr n") auto
  define n where "n = (if int (bn_width a) - int (bn_width b) \<ge> 0 then bn_width a else bn_width b)"
  define j :: nat where "j = 2 ^ (BN_num_bits_word (word_of_nat n) - 1)"
  have n: "n \<le> 1000000" using w by (simp add: n_def)
  have "j \<le> 1000000" if "16 \<le> bn_width a"
  proof -
    have "BN_num_bits_word (word_of_nat n) = bit_length n" using n by (simp add: BN_num_bits_word unat_of_nat)
    moreover have "n \<noteq> 0" using that by (auto simp: n_def)
    ultimately show ?thesis using power_below [of n] n by (simp add: j_def)
  qed
  then show ?thesis
    unfolding mul_into_def Let_def n_def [symmetric] j_def [symmetric]
    using w k y [of "j * 8"] y [of "j * 4"] by (auto split: option.splits prod.splits)
qed

lemma BN_copy_total:
  assumes "\<forall>n. A n \<noteq> None" "\<not> bn_static r" "bn_width a \<le> 8388607"
  shows "fst (BN_copy A r a) = Some ()"
  using bn_wexpand_total [OF assms] by (auto simp: BN_copy_def)

lemma BN_mul_total:
  assumes A: "malloc_spec A" "\<forall>n. A n \<noteq> None" and ok: "bn_ok r" "bn_ok a" "bn_ok b" "bn_ok ctx"
    and st: "\<not> bn_static r" "\<not> bn_static ctx" "\<not> bn_static t" and w: "bn_width a + bn_width b \<le> 1000000"
  shows "fst (BN_mul A shared (Some ctx) (Some t) r a b) = Some ()"
proof -
  have "fst (bn_mul_impl A shared (Some ctx) (Some t) r a b) = Some ()"
  proof (cases "bn_width a = 0 \<or> bn_width b = 0")
    case False
    define rr where "rr = (if shared then ctx else r)\<lparr>bn_neg := (bn_neg a \<noteq> bn_neg b)\<rparr>"
    have "\<not> bn_static rr" "bn_ok rr" using st ok(1,4) by (simp_all add: rr_def bn_ok_def)
    then obtain d where d: "mul_into A (Some t) rr a b = (Some (), d)"
      using mul_into_total [OF A(2) _ st(3) w, of rr] by (cases "mul_into A (Some t) rr a b") auto
    have "bn_width d \<le> 8388607"
      using d w by (auto simp: mul_into_def Let_def elim!: andthen_SomeE split: if_splits prod.splits option.splits)
    from BN_copy_total [OF A(2) st(1) this] show ?thesis
      using False d by (cases shared) (simp_all add: bn_mul_impl_def rr_def)
  qed (simp add: bn_mul_impl_def)
  then show ?thesis by (cases "bn_mul_impl A shared (Some ctx) (Some t) r a b") (simp add: BN_mul_def)
qed

lemma BN_sqr_total:
  assumes A: "\<forall>n. A n \<noteq> None" and st: "\<not> bn_static r" "\<not> bn_static ctx" "\<not> bn_static t" and w: "bn_width a \<le> 1000000"
  shows "fst (BN_sqr A shared (Some ctx) (Some t) r a) = Some ()"
proof -
  have "fst (bn_sqr_consttime A shared (Some ctx) (Some t) r a) = Some ()"
  proof (cases "bn_width a = 0")
    case False
    define rr where "rr = (if shared then ctx else r)"
    have "\<not> bn_static rr" using st by (simp add: rr_def)
    then obtain e where e: "bn_wexpand A rr (2 * bn_width a) = (Some (), e)" using bn_wexpand_total [OF A, of rr "2 * bn_width a"] w by auto
    have t: "fst (bn_wexpand A t n) = Some ()" if "n \<le> 8388607" for n using bn_wexpand_total [OF A st(3) that] by auto
    have "\<exists>d. sqr_into A t rr a = (Some (), d) \<and> bn_width d = 2 * bn_width a"
      using t [of "bn_width a * 4"] t [of "2 * bn_width a"] w unfolding sqr_into_def Let_def e
      by (auto split: option.splits prod.splits)
    then obtain d where d: "sqr_into A t rr a = (Some (), d)" "bn_width d = 2 * bn_width a" by blast
    have "bn_width d \<le> 8388607" using d(2) w by simp
    from BN_copy_total [OF A st(1) this] show ?thesis
      using False d by (cases shared) (simp_all add: bn_sqr_consttime_def rr_def)
  qed (simp add: bn_sqr_consttime_def)
  then show ?thesis by (cases "bn_sqr_consttime A shared (Some ctx) (Some t) r a") (simp add: BN_sqr_def)
qed

text \<open>C1. \<^verbatim>\<open>BN_mul\<close> computes the product of its operands, whichever of the routines for products the widths
  select -- the unrolled one of eight words, the quadratic one, or Karatsuba's for equal or nearly equal
  widths -- and whether or not its result is one of the operands; and \<^verbatim>\<open>BN_sqr\<close> computes the square.
  The result is never a negative zero. The product is computed when the
  allocator provides the memory.\<close>

theorem BN_mul_exact:
  assumes A: "malloc_spec A" and ok: "bn_ok r" "bn_ok a" "bn_ok b" "bn_ok ctx" "bn_ok t"
    and w: "bn_width a + bn_width b \<le> 1000000"
  shows "(\<forall>p. BN_mul A shared (Some ctx) (Some t) r a b = (Some (), p) \<longrightarrow> bn_norm p \<and> bn_int p = bn_int a * bn_int b) \<and>
    (\<forall>p. BN_sqr A shared (Some ctx) (Some t) r a = (Some (), p) \<longrightarrow> bn_norm p \<and> bn_int p = bn_int a * bn_int a) \<and>
    ((\<forall>n. A n \<noteq> None) \<and> \<not> bn_static r \<and> \<not> bn_static ctx \<and> \<not> bn_static t \<longrightarrow>
       fst (BN_mul A shared (Some ctx) (Some t) r a b) = Some () \<and> fst (BN_sqr A shared (Some ctx) (Some t) r a) = Some ())"
proof (intro conjI allI impI)
  have w': "bn_width a < 2 ^ 64" "bn_width b < 2 ^ 64" using w by simp_all
  show "bn_norm p" "bn_int p = bn_int a * bn_int b" if "BN_mul A shared (Some ctx) (Some t) r a b = (Some (), p)" for p
    using BN_mul_Some [OF A ok(1-3) _ w' that] ok(4) by simp_all
  show "bn_norm p" "bn_int p = bn_int a * bn_int a" if "BN_sqr A shared (Some ctx) (Some t) r a = (Some (), p)" for p
    using BN_sqr_Some [OF A ok(1,2) _ that] ok(4) by simp_all
next
  assume h: "(\<forall>n. A n \<noteq> None) \<and> \<not> bn_static r \<and> \<not> bn_static ctx \<and> \<not> bn_static t"
  then show "fst (BN_mul A shared (Some ctx) (Some t) r a b) = Some ()" using BN_mul_total [OF A _ ok(1-4)] w by blast
  have "bn_width a \<le> 1000000" using w by simp
  then show "fst (BN_sqr A shared (Some ctx) (Some t) r a) = Some ()" using BN_sqr_total h by blast
qed

theorem BN_mul_exact_witness:
  "\<exists>p q. BN_mul zero_malloc True (Some BN_init) (Some BN_init) BN_init (sample_bn [- 1] True) (sample_bn [- 1, 1] False) = (Some (), p) \<and>
     bn_int p = - ((2 ^ 64 - 1) * (2 ^ 65 - 1)) \<and>
     BN_sqr zero_malloc False (Some BN_init) (Some BN_init) BN_init (sample_bn [- 1] True) = (Some (), q) \<and> bn_int q = (2 ^ 64 - 1) ^ 2"
proof -
  let ?a = "sample_bn [- 1] True" and ?b = "sample_bn [- 1, 1] False"
  have v: "bn_int ?a = - (2 ^ 64 - 1)" "bn_int ?b = 2 ^ 65 - 1"
    by (simp_all add: sample_bn bn_int_def radix_def unsigned_minus_1_eq_mask mask_eq_exp_minus_1)
  note m = BN_mul_exact [OF zero_malloc(1) bn_init(1) sample_bn(1) sample_bn(1) bn_init(1) bn_init(1), of "[- 1]" True "[- 1, 1]" False]
  from m [of True] obtain p where p: "BN_mul zero_malloc True (Some BN_init) (Some BN_init) BN_init ?a ?b = (Some (), p)" "bn_int p = bn_int ?a * bn_int ?b"
    using zero_malloc(2) bn_init(3) by (cases "BN_mul zero_malloc True (Some BN_init) (Some BN_init) BN_init ?a ?b") (auto simp: sample_bn(4))
  from m [of False] obtain q where q: "BN_sqr zero_malloc False (Some BN_init) (Some BN_init) BN_init ?a = (Some (), q)" "bn_int q = bn_int ?a * bn_int ?a"
    using zero_malloc(2) bn_init(3) by (cases "BN_sqr zero_malloc False (Some BN_init) (Some BN_init) BN_init ?a") (auto simp: sample_bn(4))
  show ?thesis using p q by (simp add: v power2_eq_square)
qed

end
