(* ===== verification/Bn_Canonical.thy ===== *)
theory Bn_Canonical
  imports Bn_Product Bn_Shift
begin

text \<open>
  The canonical form of a \<^verbatim>\<open>BIGNUM\<close>: no zero word on top and no negative zero. It determines the words and the
  sign, it is what the arithmetic returns, and it bounds the width by the value, which is what the calls that
  compose several operations need to succeed.
\<close>

lemma split_top: "Suc n = length ws \<Longrightarrow> bn_val ws = bn_val (take n ws) + radix ^ n * uint (ws ! n)"
  using bn_val_append [of "take n ws" "[ws ! n]"] by (simp add: take_Suc_conv_app_nth [symmetric])

lemma top_word_bound: "ws \<noteq> [] \<Longrightarrow> ws ! (length ws - 1) \<noteq> 0 \<Longrightarrow> radix ^ (length ws - 1) \<le> bn_val ws"
proof -
  assume ws: "ws \<noteq> []" "ws ! (length ws - 1) \<noteq> 0"
  then obtain m where m: "length ws = Suc m" by (cases ws) auto
  have "uint (ws ! m) \<noteq> 0" using ws(2) m by (simp add: unsigned_eq_0_iff)
  then have "1 \<le> uint (ws ! m)" using uint_limb(1) [of "ws ! m"] by linarith
  then have "radix ^ m * 1 \<le> radix ^ m * uint (ws ! m)" by (intro mult_left_mono) simp_all
  moreover have "bn_val ws = bn_val (take m ws) + radix ^ m * uint (ws ! m)" using m by (simp add: split_top)
  ultimately have "radix ^ m \<le> bn_val ws" using bn_val_nonneg [of "take m ws"] by linarith
  then show ?thesis using m by simp
qed

lemma bn_static_kept: "bn_static (bn_set_minimal_width r) = bn_static r" "bn_wexpand A r n = (u, r') \<Longrightarrow> bn_static r' = bn_static r"
  by (auto simp: bn_set_minimal_width_def bn_wexpand_def Let_def split: if_splits option.splits)

definition trimmed :: "bignum \<Rightarrow> bool" where
  "trimmed bn \<longleftrightarrow> bn_width bn = 0 \<or> bn_d bn ! (bn_width bn - 1) \<noteq> 0"

definition bn_canonical :: "bignum \<Rightarrow> bool" where
  "bn_canonical bn \<longleftrightarrow> bn_norm bn \<and> trimmed bn"

lemma minimal_width_top: "minimal_width_loop d n = 0 \<or> d ! (minimal_width_loop d n - 1) \<noteq> 0"
  by (induction n) simp_all

lemma trimmed [simp]: "trimmed (bn_set_minimal_width bn)" "trimmed (bn\<lparr>bn_neg := s\<rparr>) = trimmed bn" "trimmed (BN_zero bn)"
  using minimal_width_top [of "bn_d bn" "bn_width bn"]
  by (auto simp: trimmed_def bn_set_minimal_width_def bn_minimal_width_def BN_zero_def Let_def)

lemma trimmed_abs: "bn_ok a \<Longrightarrow> trimmed a \<Longrightarrow> bn_width a \<noteq> 0 \<Longrightarrow> radix ^ (bn_width a - 1) \<le> bn_abs a"
  using top_word_bound [of "bn_limbs a"] by (cases "bn_limbs a = []") (auto simp: trimmed_def bn_abs_def bn_limbs_def bn_ok_def)

lemma trimmed_width:
  assumes "bn_ok a" "trimmed a" "bn_abs a < radix ^ k"
  shows "bn_width a \<le> k"
proof (cases "bn_width a = 0")
  case False
  from trimmed_abs [OF assms(1,2) this] have "radix ^ (bn_width a - 1) < radix ^ k" using assms(3) by linarith
  then have "bn_width a - 1 < k" by (rule power_less_imp_less_exp [OF radix_pos(3)])
  then show ?thesis by simp
qed simp

text \<open>Equal integers have equal words and signs.\<close>

lemma bn_canonical_unique:
  assumes "bn_canonical a" "bn_canonical b" "bn_int a = bn_int b"
  shows "bn_limbs a = bn_limbs b \<and> bn_neg a = bn_neg b"
proof -
  have ok: "bn_ok a" "bn_ok b" and n: "bn_norm a" "bn_norm b" and t: "trimmed a" "trimmed b" using assms(1,2) by (simp_all add: bn_canonical_def bn_norm_ok)
  have neg: "bn_neg a = bn_neg b" using n assms(3) by (simp add: bn_int_sign)
  then have e: "bn_abs a = bn_abs b" using assms(3) by (simp add: bn_int_def split: if_splits)
  have "bn_width a = bn_width b"
    using trimmed_width [OF ok(1) t(1), of "bn_width b"] trimmed_width [OF ok(2) t(2), of "bn_width a"]
      bn_abs_bound [OF ok(1)] bn_abs_bound [OF ok(2)] by (simp add: e)
  then have "bn_limbs a = bn_limbs b" using e ok by (intro bn_val_inject) (simp_all add: bn_abs_def)
  with neg show ?thesis by simp
qed

section \<open>Results\<close>

lemma BN_uadd_trimmed: "BN_uadd A r a b = (Some u, r') \<Longrightarrow> trimmed r'" "BN_usub A r a b = (Some u, r') \<Longrightarrow> trimmed r'"
  by (auto simp: BN_uadd_def BN_usub_def elim!: andthen_SomeE)

lemma sub_compared_trimmed: "sub_compared A r a b = (Some u, r') \<Longrightarrow> trimmed r'"
  by (auto simp: sub_compared_def BN_uadd_trimmed(2) elim!: andthen_SomeE split: if_splits)

lemma BN_add_trimmed: "BN_add A r a b = (Some u, r') \<Longrightarrow> trimmed r'"
  by (auto simp: BN_add_def Let_def BN_uadd_trimmed(1) dest: sub_compared_trimmed split: if_splits prod.splits)

lemma BN_sub_trimmed: "BN_sub A r a b = (Some u, r') \<Longrightarrow> trimmed r'"
  by (auto simp: BN_sub_def BN_uadd_trimmed(1) dest: sub_compared_trimmed elim!: andthen_SomeE split: if_splits)

lemma BN_shift_trimmed: "BN_lshift A r a n = (Some u, r') \<Longrightarrow> trimmed r'" "BN_rshift A r a n = (Some u, r') \<Longrightarrow> trimmed r'"
  by (auto simp: BN_lshift_def BN_rshift_def Let_def elim!: andthen_SomeE split: if_splits)

lemma BN_mul_trimmed: "BN_mul A shared c t r a b = (Some u, r') \<Longrightarrow> trimmed r'" "BN_sqr A shared c t r a = (Some u, r') \<Longrightarrow> trimmed r'"
  by (auto simp: BN_mul_def BN_sqr_def elim!: andthen_SomeE)

lemma BN_rshift_static: "BN_rshift A r a n = (Some u, r') \<Longrightarrow> bn_static r' = bn_static r"
  by (auto simp: BN_rshift_def Let_def bn_static_kept(1) dest: bn_static_kept(2) elim!: andthen_SomeE split: if_splits)

end
