(* ===== verification/Bn_Div.thy ===== *)
theory Bn_Div
  imports Bn_Canonical
begin

text \<open>
  Model of \<^verbatim>\<open>BN_div\<close> in \<^verbatim>\<open>fipsmodule/bn/div.c\<close>, the long division of Knuth's algorithm D, with \<^verbatim>\<open>BN_ULLONG\<close> and
  \<^verbatim>\<open>BN_CAN_DIVIDE_ULLONG\<close>. The loop that corrects a quotient word has no bound in the code, so it is a partial
  function, and the outer \<open>None\<close> of the results is a call that does not return.
\<close>

section \<open>The operations\<close>

definition bn_div_rem_words :: "limb \<Rightarrow> limb \<Rightarrow> limb \<Rightarrow> limb \<times> limb" where
  "bn_div_rem_words n0 n1 d0 =
     (let n = push_bit 64 (ucast n0 :: ullong) OR ucast n1;
          quot = (ucast (n div ucast d0) :: limb)
      in (quot, n1 - quot * d0))"

text \<open>The correction of a quotient word by the second word \<open>d1\<close> of the divisor.\<close>

partial_function (option) correct_q :: "limb \<Rightarrow> limb \<Rightarrow> limb \<Rightarrow> limb \<Rightarrow> limb \<Rightarrow> ullong \<Rightarrow> limb option" where
  "correct_q d0 d1 n2 q rm t2 =
     (if t2 \<le> (push_bit 64 (ucast rm) OR ucast n2) then Some q
      else
        let q = q - 1; rm = rm + d0
        in if rm < d0 then Some q else correct_q d0 d1 n2 q rm (t2 - ucast d1))"

definition estimate_q :: "limb \<Rightarrow> limb \<Rightarrow> limb \<Rightarrow> limb \<Rightarrow> limb \<Rightarrow> limb option" where
  "estimate_q n0 n1 n2 d0 d1 =
     (if n0 = d0 then Some (- 1)
      else case bn_div_rem_words n0 n1 d0 of (q, rm) \<Rightarrow> correct_q d0 d1 n2 q rm (ucast d1 * ucast q))"

text \<open>One turn of the main loop, for the window of \<open>snum\<close> that starts at the word \<open>j\<close>.\<close>

definition div_step :: "limb list \<Rightarrow> limb \<Rightarrow> limb \<Rightarrow> nat \<Rightarrow> limb list \<Rightarrow> (limb \<times> limb list) option" where
  "div_step dv d0 d1 j snum =
     (let div_n = length dv; p = j + div_n
      in case estimate_q (snum ! p) (snum ! (p - 1)) (snum ! (p - 2)) d0 d1 of
           None \<Rightarrow> None
         | Some q \<Rightarrow>
             (case bn_mul_words dv q of (tmp, l0) \<Rightarrow>
              case bn_sub_words (take (div_n + 1) (drop j snum)) (tmp @ [l0]) of (w, borrow) \<Rightarrow>
                if borrow \<noteq> 0
                then (case bn_add_words (take div_n w) dv of (w', c) \<Rightarrow>
                        Some (q - 1, store snum j (w' @ [if c \<noteq> 0 then w ! div_n + 1 else w ! div_n])))
                else Some (q, store snum j w)))"

text \<open>The words of the quotient are stored from the top down.\<close>

fun div_loop :: "limb list \<Rightarrow> limb \<Rightarrow> limb \<Rightarrow> nat \<Rightarrow> limb list \<Rightarrow> limb list \<Rightarrow> (limb list \<times> limb list) option" where
  "div_loop dv d0 d1 0 snum resp = Some (resp, snum)"
| "div_loop dv d0 d1 (Suc j) snum resp =
     (case div_step dv d0 d1 (Suc j) snum of
        None \<Rightarrow> None
      | Some (q, snum) \<Rightarrow> div_loop dv d0 d1 j snum (q # resp))"

text \<open>\<^verbatim>\<open>snum\<close> with zeros above it, so that it has at least two words more than the divisor.\<close>

definition pad_snum :: "allocator \<Rightarrow> nat \<Rightarrow> bignum \<Rightarrow> unit option \<times> bignum" where
  "pad_snum A div_n snum =
     (if bn_width snum \<le> div_n + 1
      then andthen (bn_wexpand A snum (div_n + 2)) (\<lambda>_ snum.
             (Some (), snum\<lparr>bn_d := store (bn_d snum) (bn_width snum) (replicate (div_n + 2 - bn_width snum) 0), bn_width := div_n + 2\<rparr>))
      else andthen (bn_wexpand A snum (bn_width snum + 1)) (\<lambda>_ snum.
             (Some (), snum\<lparr>bn_d := (bn_d snum)[bn_width snum := 0], bn_width := bn_width snum + 1\<rparr>)))"

text \<open>The divisor and the numerator as the loop divides them, and how far they have been shifted.\<close>

definition div_normalise :: "allocator \<Rightarrow> bignum \<Rightarrow> bignum \<Rightarrow> bignum \<Rightarrow> bignum \<Rightarrow> (bignum \<times> bignum \<times> nat) option" where
  "div_normalise A dv snum numerator divisor =
     (let norm_shift = 64 - BN_num_bits divisor mod 64
      in case BN_lshift A dv divisor (int norm_shift) of
           (None, _) \<Rightarrow> None
         | (Some _, dv) \<Rightarrow>
             (let dv = (bn_set_minimal_width dv)\<lparr>bn_neg := False\<rparr>; norm_shift = norm_shift + 64
              in case BN_lshift A snum numerator (int norm_shift) of
                   (None, _) \<Rightarrow> None
                 | (Some _, snum) \<Rightarrow>
                     (case pad_snum A (bn_width dv) ((bn_set_minimal_width snum)\<lparr>bn_neg := False\<rparr>) of
                        (None, _) \<Rightarrow> None
                      | (Some _, snum) \<Rightarrow> Some (dv, snum, norm_shift))))"

text \<open>
  \<open>ctx\<close> are the numbers that \<^verbatim>\<open>BN_CTX_get\<close> still returns. \<open>quot\<close> and \<open>rem\<close> are \<open>None\<close> for \<^verbatim>\<open>NULL\<close>, and
  \<open>al\<close> says that \<^verbatim>\<open>quotient\<close> is \<^verbatim>\<open>numerator\<close>, whose sign is then gone when the sign of the remainder is set (the
  other sharings change nothing). The value is what a successful call leaves in the two; the inner \<open>None\<close> is the
  return value 0, after which their contents are unspecified.
\<close>

definition BN_div :: "allocator \<Rightarrow> bool \<Rightarrow> bignum list \<Rightarrow> bignum option \<Rightarrow> bignum option \<Rightarrow> bignum \<Rightarrow> bignum \<Rightarrow>
    (bignum option \<times> bignum option) option option" where
  "BN_div A al ctx quot rem numerator divisor =
     (let numerator_width = bn_minimal_width numerator; divisor_width = bn_minimal_width divisor
      in if numerator_width > 0 \<and> bn_d numerator ! (numerator_width - 1) = 0 \<or>
            divisor_width > 0 \<and> bn_d divisor ! (divisor_width - 1) = 0 then Some None
         else if BN_is_zero divisor then Some None
         else if length ctx < (if quot = None then 4 else 3) then Some None
         else
           let tmp = ctx ! 0; res = (case quot of None \<Rightarrow> ctx ! 3 | Some q \<Rightarrow> q)
           in case div_normalise A (ctx ! 2) (ctx ! 1) numerator divisor of None \<Rightarrow> Some None | Some (dv, snum, norm_shift) \<Rightarrow>
           let div_n = bn_width dv; num_n = bn_width snum; loop = num_n - div_n;
               d0 = bn_d dv ! (div_n - 1);
               d1 = (if div_n = 1 then 0 else bn_d dv ! (div_n - 2));
               res = res\<lparr>bn_neg := (bn_neg numerator \<noteq> bn_neg divisor)\<rparr>
           in case bn_wexpand A res (loop + 1) of (None, _) \<Rightarrow> Some None | (Some _, res) \<Rightarrow>
           let res = res\<lparr>bn_width := loop - 1\<rparr>
           in case bn_wexpand A tmp (div_n + 1) of (None, _) \<Rightarrow> Some None | (Some _, tmp) \<Rightarrow>
           let res = (if bn_width res = 0 then res\<lparr>bn_neg := False\<rparr> else res)
           in case div_loop (take div_n (bn_d dv)) d0 d1 (loop - 1) (take num_n (bn_d snum)) [] of None \<Rightarrow> None | Some (q, n) \<Rightarrow>
           let res = res\<lparr>bn_d := store (bn_d res) 0 q\<rparr>;
               snum = bn_set_minimal_width (snum\<lparr>bn_d := store (bn_d snum) 0 n\<rparr>)
           in case rem of
                None \<Rightarrow> Some (Some (map_option (\<lambda>_. bn_set_minimal_width res) quot, None))
              | Some rem \<Rightarrow>
                  (let neg = (if al then bn_neg res else bn_neg numerator)
                   in case BN_rshift A rem snum (int norm_shift) of
                        (None, _) \<Rightarrow> Some None
                      | (Some _, rem) \<Rightarrow>
                          let rem = (if \<not> BN_is_zero rem then rem\<lparr>bn_neg := neg\<rparr> else rem)
                          in Some (Some (map_option (\<lambda>_. bn_set_minimal_width res) quot, Some rem))))"

section \<open>Quotient words\<close>

lemma int_le_div: "a \<le> b div c \<longleftrightarrow> a * c \<le> b" if "0 < c" for a b c :: int
proof
  assume "a \<le> b div c"
  then have "a * c \<le> b div c * c" using that by (intro mult_right_mono) simp_all
  also have "\<dots> \<le> b" using that pos_mod_sign [of c b] div_mult_mod_eq [of b c] by linarith
  finally show "a * c \<le> b" .
next
  assume "a * c \<le> b"
  then have "a * c div c \<le> b div c" using that by (intro zdiv_mono1) simp_all
  then show "a \<le> b div c" using that by simp
qed

lemma int_div_less: "b div c < a \<longleftrightarrow> b < a * c" if "0 < c" for a b c :: int
  using int_le_div [OF that, of a b] by linarith

lemma int_div_mult_le: "0 < c \<Longrightarrow> b div c * c \<le> b" for b c :: int
  using int_le_div [of c "b div c" b] by simp

lemma uint_double: "uint (push_bit 64 (ucast h :: ullong) OR ucast l) = uint (h :: limb) * radix + uint (l :: limb)"
proof -
  have l: "unat (ucast l :: ullong) = unat l" "unat (ucast h :: ullong) = unat h" by (simp_all add: unat_ucast_up)
  have b: "unat l < 2 ^ 64" "unat h < 2 ^ 64" using unsigned_less [of l, where 'a = nat] unsigned_less [of h, where 'a = nat] by simp_all
  then have "unat h * 2 ^ 64 + unat l < 2 ^ 64 * 2 ^ 64" by simp
  then have "unat (push_bit 64 (ucast h :: ullong) OR ucast l) = unat h * 2 ^ 64 + unat l"
    using b(1) l by (subst unat_push_bit_or) simp_all
  then have "int (unat (push_bit 64 (ucast h :: ullong) OR ucast l)) = int (unat h * 2 ^ 64 + unat l)" by simp
  then show ?thesis by (simp add: radix_def)
qed

lemma bn_div_rem_words:
  assumes n0: "uint n0 < uint d0" and r: "bn_div_rem_words n0 n1 d0 = (q, rm)"
  shows "uint n0 * radix + uint n1 = uint q * uint d0 + uint rm" "uint rm < uint d0"
proof -
  define N where "N = uint n0 * radix + uint n1"
  have "uint n0 \<le> uint d0 - 1" using n0 by linarith
  then have "uint n0 * radix \<le> (uint d0 - 1) * radix" by (intro mult_right_mono) simp_all
  then have "uint n0 * radix \<le> uint d0 * radix - radix" by (simp add: left_diff_distrib)
  then have "N < uint d0 * radix" using uint_limb(2) [of n1] unfolding N_def by linarith
  have d0: "0 < uint d0" using n0 uint_limb(1) [of n0] by linarith
  have N0: "0 \<le> N" by (simp add: N_def)
  have qr: "N div uint d0 < radix" using \<open>N < uint d0 * radix\<close> int_div_less [OF d0, of N radix] by (simp add: mult.commute)
  have q0: "0 \<le> N div uint d0" using N0 d0 by (simp add: pos_imp_zdiv_nonneg_iff)
  have "uint ((push_bit 64 (ucast n0 :: ullong) OR ucast n1) div ucast d0) = N div uint d0"
    unfolding uint_div_distrib uint_double uint_ucast_limb N_def ..
  moreover have "q = ucast ((push_bit 64 (ucast n0 :: ullong) OR ucast n1) div ucast d0)"
    using r by (auto simp: bn_div_rem_words_def Let_def)
  ultimately have "uint q = N div uint d0 mod 2 ^ 64" by (simp add: unsigned_ucast_eq take_bit_eq_mod)
  also have "\<dots> = N div uint d0" using q0 qr by (simp add: radix_def)
  finally have q: "uint q = N div uint d0" .
  have rm: "rm = n1 - q * d0" using r by (auto simp: bn_div_rem_words_def Let_def)
  have m: "N - uint q * uint d0 = N mod uint d0" unfolding q by (simp add: minus_div_mult_eq_mod)
  have b: "0 \<le> N mod uint d0" "N mod uint d0 < uint d0" using d0 by simp_all
  have "uint rm = (uint n1 - uint q * uint d0) mod radix"
    unfolding rm by (simp add: uint_word_ariths mod_simps radix_def)
  also have "\<dots> = (N - uint q * uint d0) mod radix"
  proof -
    have "N - uint q * uint d0 = (uint n1 - uint q * uint d0) + uint n0 * radix" by (simp add: N_def)
    then show ?thesis by (simp only: mod_mult_self1)
  qed
  also have "\<dots> = N mod uint d0" unfolding m using b uint_limb(2) [of d0] by (intro mod_pos_pos_trivial) linarith+
  finally have "uint rm = N mod uint d0" .
  then show "uint n0 * radix + uint n1 = uint q * uint d0 + uint rm" "uint rm < uint d0"
    using b m by (simp_all add: N_def)
qed

text \<open>The loop ends with the quotient of the first three words by the first two.\<close>

lemma correct_q:
  assumes "radix \<le> uint rm + int k * uint d0" "X = uint q * uint d0 + uint rm" "uint t2 = uint q * uint d1"
    and "0 < uint d0" "(X * radix + uint n2) div (uint d0 * radix + uint d1) \<le> uint q"
  shows "\<exists>q'. correct_q d0 d1 n2 q rm t2 = Some q' \<and> uint q' = (X * radix + uint n2) div (uint d0 * radix + uint d1)"
  using assms
proof (induction k arbitrary: q rm t2)
  case 0
  then show ?case using uint_limb(2) [of rm] by simp
next
  case (Suc k)
  define N D where "N = X * radix + uint n2" and "D = uint d0 * radix + uint d1"
  have D: "0 < D" using Suc.prems(4) uint_limb(1) [of d1] by (simp add: D_def add_pos_nonneg)
  note low = Suc.prems(5) [folded N_def D_def]
  have fits: "y * D \<le> N \<Longrightarrow> N div D \<le> y \<Longrightarrow> y = N div D" for y
    using int_le_div [OF D, of y N] by linarith
  have qD: "uint q * D \<le> N \<longleftrightarrow> uint q * uint d1 \<le> uint rm * radix + uint n2"
    by (simp add: N_def D_def Suc.prems(2) algebra_simps)
  have cond: "t2 \<le> (push_bit 64 (ucast rm) OR ucast n2) \<longleftrightarrow> uint q * D \<le> N"
    unfolding word_le_def uint_double Suc.prems(3) qD ..
  show ?case
  proof (cases "uint q * D \<le> N")
    case True
    then show ?thesis using cond fits [OF True low] by (subst correct_q.simps) (simp add: N_def D_def)
  next
    case False
    then have "N div D < uint q" using int_div_less [OF D, of N] by simp
    moreover have "0 \<le> N div D"
      using D Suc.prems(2) uint_limb(1) by (simp add: N_def pos_imp_zdiv_nonneg_iff)
    ultimately have q1: "uint (q - 1) = uint q - 1" "N div D \<le> uint (q - 1)" by (simp_all add: uint_minus)
    show ?thesis
    proof (cases "uint rm + uint d0 < radix")
      case True
      then have rm: "uint (rm + d0) = uint rm + uint d0" unfolding uint_add_limb by (intro mod_pos_pos_trivial) simp_all
      then have nlt: "\<not> rm + d0 < d0" by (simp add: word_less_def)
      have "uint q * uint d1 - uint d1 = (uint q - 1) * uint d1" by (simp add: left_diff_distrib)
      moreover have "0 \<le> (uint q - 1) * uint d1" using q1(1) uint_limb(1) [of "q - 1"] by (intro mult_nonneg_nonneg) simp_all
      moreover have "(uint q - 1) * uint d1 < radix * radix"
        using uint_limb(2) [of "q - 1"] uint_limb(2) [of d1] q1(1) \<open>0 \<le> N div D\<close> q1(2) by (intro mult_strict_mono') simp_all
      ultimately have t2: "uint (t2 - ucast d1) = uint (q - 1) * uint d1"
        unfolding q1(1) by (simp add: uint_word_ariths uint_ucast_limb Suc.prems(3) mod_simps radix_def)
      have "\<exists>q'. correct_q d0 d1 n2 (q - 1) (rm + d0) (t2 - ucast d1) = Some q' \<and> uint q' = N div D"
        unfolding N_def D_def
      proof (rule Suc.IH)
        show "radix \<le> uint (rm + d0) + int k * uint d0" using Suc.prems(1) unfolding rm by (simp add: algebra_simps)
        show "X = uint (q - 1) * uint d0 + uint (rm + d0)" using Suc.prems(2) unfolding rm q1(1) by (simp add: algebra_simps)
      qed (use t2 Suc.prems(4) q1(2) in \<open>simp_all add: N_def D_def\<close>)
      then show ?thesis using False cond nlt by (subst correct_q.simps) (simp add: Let_def N_def D_def)
    next
      case ov: False
      have "uint (rm + d0) = (uint rm + uint d0 - radix) mod radix" unfolding uint_add_limb by simp
      also have "\<dots> = uint rm + uint d0 - radix"
        using ov uint_limb(2) [of rm] uint_limb(2) [of d0] by (intro mod_pos_pos_trivial) linarith+
      finally have "rm + d0 < d0" using uint_limb(2) [of rm] unfolding word_less_def by linarith
      moreover have "uint (q - 1) * D \<le> N"
      proof -
        have "uint (q - 1) * uint d1 \<le> radix * radix"
          using uint_limb(2) [of "q - 1"] uint_limb(2) [of d1] by (intro mult_mono) (simp_all add: less_imp_le)
        also have "\<dots> \<le> (uint rm + uint d0) * radix" using ov by (intro mult_right_mono) simp_all
        finally have "uint (q - 1) * uint d1 \<le> (uint rm + uint d0) * radix + uint n2" using uint_limb(1) [of n2] by linarith
        moreover have "X = uint (q - 1) * uint d0 + (uint rm + uint d0)" using Suc.prems(2) by (simp add: q1(1) algebra_simps)
        ultimately show ?thesis by (simp add: N_def D_def algebra_simps)
      qed
      ultimately show ?thesis using False cond fits [OF _ q1(2)] by (subst correct_q.simps) (simp add: Let_def N_def D_def)
    qed
  qed
qed

lemma knuth_estimate:
  fixes D W L L' M D2 N3 q :: int
  assumes D: "D = L + M * D2" "0 \<le> L" "L < M" and W: "W = L' + M * N3" "0 \<le> L'" "L' < M"
    and q: "q = N3 div D2" "0 \<le> N3" "q \<le> D2" "0 < D2"
  shows "W div D \<le> q" "q \<le> W div D + 1"
proof -
  have M: "0 < M" using D by linarith
  then have D0: "0 < D" using D q(4) by (simp add: add_nonneg_pos)
  have W0: "0 \<le> W" using W q(2) M by simp
  define t where "t = W div D"
  have t0: "0 \<le> t" using W0 D0 by (simp add: t_def pos_imp_zdiv_nonneg_iff)
  have "t * (M * D2) \<le> t * D" using D t0 by (intro mult_left_mono) simp_all
  also have "\<dots> \<le> W" unfolding t_def using D0 by (rule int_div_mult_le)
  also have "\<dots> < M * (N3 + 1)" using W by (simp add: algebra_simps)
  finally have "M * (t * D2) < M * (N3 + 1)" by (simp add: ac_simps)
  then have "t * D2 \<le> N3" using M by simp
  then show "W div D \<le> q" unfolding q(1) t_def [symmetric] using int_le_div [OF q(4)] by simp
  have qN: "q * D2 \<le> N3" unfolding q(1) using q(4) by (rule int_div_mult_le)
  have "(q - 1) * D \<le> W"
  proof (cases "q \<ge> 1")
    case True
    have "(q - 1) * D \<le> (q - 1) * (M + M * D2)" using D True by (intro mult_left_mono) simp_all
    also have "\<dots> = M * (q * D2 - D2 + q - 1)" by (simp add: algebra_simps)
    also have "\<dots> \<le> M * N3" using qN q(3) M by (intro mult_left_mono) simp_all
    also have "\<dots> \<le> W" using W by simp
    finally show ?thesis .
  next
    case False
    then have "(q - 1) * D \<le> 0" using D0 by (simp add: mult_le_0_iff)
    then show ?thesis using W0 by linarith
  qed
  then have "q - 1 \<le> W div D" using int_le_div [OF D0] by simp
  then show "q \<le> W div D + 1" by simp
qed

text \<open>The divisor is normalised: the top bit of its top word is set.\<close>

definition normalised :: "limb list \<Rightarrow> bool" where
  "normalised dv \<longleftrightarrow> dv \<noteq> [] \<and> radix \<le> 2 * uint (dv ! (length dv - 1))"

lemma estimate_q:
  assumes n: "normalised dv" "length dv = k" and ww: "length ww = k + 1" "bn_val ww < radix * bn_val dv"
    and d: "d0 = dv ! (k - 1)" "d1 = (if k = 1 then 0 else dv ! (k - 2))"
    and nn: "n0 = ww ! k" "n1 = ww ! (k - 1)" "k \<noteq> 1 \<Longrightarrow> n2 = ww ! (k - 2)"
  shows "\<exists>q. estimate_q n0 n1 n2 d0 d1 = Some q \<and> bn_val ww div bn_val dv \<le> uint q \<and> uint q \<le> bn_val ww div bn_val dv + 1"
proof -
  have k0: "0 < k" using n by (auto simp: normalised_def)
  have d0: "radix \<le> 2 * uint d0" "0 < uint d0" using n by (auto simp: normalised_def d(1) radix_def)
  define D W where "D = bn_val dv" and "W = bn_val ww"
  have lt: "W < radix * D" using ww(2) by (simp add: D_def W_def)
  show ?thesis
  proof (cases "k = 1")
    case True
    obtain w0 w1 where w: "ww = [w0, w1]" using ww(1) True by (auto simp: length_Suc_conv)
    obtain x where x: "dv = [x]" using n(2) True by (auto simp: length_Suc_conv)
    have D: "D = uint d0" using x d(1) True by (simp add: D_def)
    have W: "W = uint n0 * radix + uint n1" using w nn True by (simp add: W_def)
    have "radix * uint n0 < radix * uint d0" using lt uint_limb(1) [of n1] unfolding D W by (simp only: mult.commute)
    then have n0: "uint n0 < uint d0" by simp
    obtain q rm where q: "bn_div_rem_words n0 n1 d0 = (q, rm)" by (rule prod.exhaust)
    note v = bn_div_rem_words [OF n0 q]
    have "estimate_q n0 n1 n2 d0 d1 = Some q"
      using n0 True by (auto simp: estimate_q_def q d(2) correct_q.simps)
    moreover have "W div D = uint q"
    proof (rule antisym)
      show "uint q \<le> W div D" unfolding D using v d0(2) by (simp add: int_le_div W)
      have "W < (uint q + 1) * D" unfolding D W using v by (simp add: algebra_simps)
      then show "W div D \<le> uint q" using d0(2) int_div_less [of D W "uint q + 1"] D by simp
    qed
    ultimately show ?thesis by (simp add: D_def W_def)
  next
    case False
    define m where "m = k - 2"
    have k: "k = m + 2" "k - 1 = m + 1" using False k0 by (simp_all add: m_def)
    define M where "M = radix ^ m"
    have M: "0 < M" by (simp add: M_def)
    define L L' where "L = bn_val (take m dv)" and "L' = bn_val (take m ww)"
    define D2 N3 where "D2 = uint d0 * radix + uint d1" and "N3 = (uint n0 * radix + uint n1) * radix + uint n2"
    have "bn_val dv = bn_val (take (m + 1) dv) + radix ^ (m + 1) * uint d0" using split_top [of "m + 1" dv] n(2) k by (simp add: d(1))
    moreover have "bn_val (take (m + 1) dv) = L + M * uint d1"
      using split_top [of m "take (m + 1) dv"] n(2) k False by (simp add: L_def M_def d(2) min_def)
    ultimately have D: "D = L + M * D2" by (simp add: D_def D2_def M_def algebra_simps)
    have "bn_val ww = bn_val (take (m + 2) ww) + radix ^ (m + 2) * uint n0" using split_top [of "m + 2" ww] ww(1) k by (simp add: nn(1))
    moreover have "bn_val (take (m + 2) ww) = bn_val (take (m + 1) ww) + radix ^ (m + 1) * uint n1"
      using split_top [of "m + 1" "take (m + 2) ww"] ww(1) k by (simp add: nn(2) min_def)
    moreover have "bn_val (take (m + 1) ww) = L' + M * uint n2"
      using split_top [of m "take (m + 1) ww"] ww(1) k False by (simp add: L'_def M_def nn(3) min_def)
    ultimately have W: "W = L' + M * N3" by (simp add: W_def N3_def M_def algebra_simps)
    have L: "0 \<le> L" "L < M" "0 \<le> L'" "L' < M"
      using bn_val_bound [of "take m dv"] bn_val_bound [of "take m ww"] n(2) ww(1) k by (simp_all add: L_def L'_def M_def min_def)
    have D0: "0 < D2" "radix \<le> D2"
    proof -
      have "1 * radix \<le> uint d0 * radix" using d0(2) by (intro mult_right_mono) simp_all
      then show "radix \<le> D2" using uint_limb(1) [of d1] unfolding D2_def by linarith
      then show "0 < D2" using radix_pos(1) by linarith
    qed
    have "M * D2 \<le> D" "D < M * (D2 + 1)" using D L by (simp_all add: algebra_simps)
    have "M * N3 < M * (radix * (D2 + 1))"
    proof -
      have "M * N3 \<le> W" using W L by simp
      also have "\<dots> < radix * D" by (rule lt)
      also have "\<dots> \<le> radix * (M * (D2 + 1))" using \<open>D < M * (D2 + 1)\<close> by (intro mult_left_mono) simp_all
      finally show ?thesis by (simp add: ac_simps)
    qed
    then have N3: "N3 < radix * (D2 + 1)" using M by simp
    have "uint n0 * (radix * radix) \<le> N3" by (simp add: N3_def algebra_simps)
    have D2_le: "D2 + 1 \<le> (uint d0 + 1) * radix" using uint_limb_le [of d1] unfolding D2_def distrib_right by linarith
    have "uint n0 * (radix * radix) \<le> N3" by (simp add: N3_def algebra_simps)
    also note N3
    also have "radix * (D2 + 1) \<le> radix * ((uint d0 + 1) * radix)" using D2_le by (intro mult_left_mono) simp_all
    also have "\<dots> = (uint d0 + 1) * (radix * radix)" by simp
    finally have "uint n0 * (radix * radix) < (uint d0 + 1) * (radix * radix)" .
    then have n0: "uint n0 \<le> uint d0" by (simp add: mult_less_cancel_right)
    show ?thesis
    proof (cases "n0 = d0")
      case True
      have q: "uint (- 1 :: limb) = radix - 1" by (simp add: radix_def unsigned_minus_1_eq_mask mask_eq_exp_minus_1)
      have DD: "0 < D" using \<open>M * D2 \<le> D\<close> M D0(1) mult_pos_pos [of M D2] by linarith
      have "W div D \<le> radix - 1" using lt int_div_less [OF DD, of W radix] by simp
      moreover have "(radix - 2) * D \<le> W"
      proof -
        have "(radix - 2) * D \<le> (radix - 2) * (M * ((uint d0 + 1) * radix))"
        proof (intro mult_left_mono)
          have "M * (D2 + 1) \<le> M * ((uint d0 + 1) * radix)"
            using D2_le M by (intro mult_left_mono) simp_all
          then show "D \<le> M * ((uint d0 + 1) * radix)" using \<open>D < M * (D2 + 1)\<close> by linarith
        qed (simp add: radix_def)
        also have "\<dots> = (M * radix) * ((radix - 2) * (uint d0 + 1))" by (simp add: ac_simps)
        also have "\<dots> \<le> (M * radix) * (uint d0 * radix)"
          using d0(1) M by (intro mult_left_mono) (simp_all add: algebra_simps)
        also have "\<dots> = M * (uint n0 * (radix * radix))" by (simp add: True ac_simps)
        also have "\<dots> \<le> M * N3" using \<open>uint n0 * (radix * radix) \<le> N3\<close> M by (intro mult_left_mono) simp_all
        also have "\<dots> \<le> W" using W L by simp
        finally show ?thesis .
      qed
      then have "radix - 2 \<le> W div D" using int_le_div [OF DD] by simp
      ultimately show ?thesis using True by (simp add: estimate_q_def q flip: D_def W_def)
    next
      case False
      then have lt0: "uint n0 < uint d0" using n0 by (auto simp: order_le_less dest: unsigned_word_eqI)
      obtain q rm where q: "bn_div_rem_words n0 n1 d0 = (q, rm)" by (rule prod.exhaust)
      note v = bn_div_rem_words [OF lt0 q]
      have N0: "0 \<le> N3" by (simp add: N3_def)
      have "N3 div D2 \<le> uint q"
      proof -
        have "(uint n0 * radix + uint n1 + 1) * radix \<le> ((uint q + 1) * uint d0) * radix"
          using v by (intro mult_right_mono) (simp_all add: algebra_simps)
        also have "\<dots> \<le> (uint q + 1) * D2" by (simp add: D2_def algebra_simps)
        finally have "(uint n0 * radix + uint n1) * radix + radix \<le> (uint q + 1) * D2" by (simp only: distrib_right mult_1)
        then have "N3 < (uint q + 1) * D2" using uint_limb(2) [of n2] unfolding N3_def by linarith
        then show ?thesis using int_div_less [OF D0(1), of N3 "uint q + 1"] by simp
      qed
      moreover have "uint (ucast d1 * ucast q :: ullong) = uint q * uint d1"
        using uint_mul_add [of d1 q 0 0] by (simp add: mult.commute)
      moreover have "radix \<le> uint rm + int 2 * uint d0" using d0(1) uint_limb(1) [of rm] by linarith
      ultimately obtain q' where q': "correct_q d0 d1 n2 q rm (ucast d1 * ucast q) = Some q'" "uint q' = N3 div D2"
        using correct_q [of rm 2 d0 "uint n0 * radix + uint n1" q "ucast d1 * ucast q" d1 n2] v d0(2)
        unfolding N3_def D2_def by blast
      have "uint q' \<le> D2" using D0(2) uint_limb(2) [of q'] by linarith
      from knuth_estimate [OF D L(1,2) W L(3,4) q'(2) N0 this D0(1)] show ?thesis
        using False q' by (simp add: estimate_q_def q flip: D_def W_def)
    qed
  qed
qed

section \<open>The main loop\<close>

lemma drop_store: "length xs = n \<Longrightarrow> j + n \<le> length ws \<Longrightarrow> drop j (store ws j xs) = xs @ drop (j + n) ws"
  by (simp add: store_def)

lemma take_store_upto: "off + length xs \<le> length ws \<Longrightarrow> take (off + length xs) (store ws off xs) = take off ws @ xs"
  by (simp add: store_def)

lemma take_store_below: "j \<le> length ws \<Longrightarrow> take j (store ws j xs) = take j ws"
  by (simp add: store_def)

text \<open>The words above a number below \<^verbatim>\<open>radix ^ k\<close> do not count.\<close>

lemma bn_val_window:
  assumes "bn_val ws < radix ^ k" "length xs = k" "k \<le> length ws"
  shows "bn_val (xs @ drop k ws) = bn_val xs"
proof -
  have "bn_val (take k ws) = bn_val ws" using assms(1) by (rule bn_val_take)
  then have "bn_val (drop k ws) = 0" using halves [OF assms(3)] by simp
  then show ?thesis using assms(2) by (simp add: bn_val_append)
qed

lemma div_correct:
  fixes q :: limb
  assumes sub: "bn_sub_words ww (tmp @ [l0]) = (w, borrow)" "length ww = Suc k" "length tmp = k" "bn_val (tmp @ [l0]) = uint q * D"
    and D: "D = bn_val dv" "length dv = k" "0 < D" and q: "bn_val ww div D \<le> uint q" "uint q \<le> bn_val ww div D + 1"
  shows "\<exists>q' w'. (if borrow \<noteq> 0
           then (case bn_add_words (take k w) dv of (w', c) \<Rightarrow> (q - 1, w' @ [if c \<noteq> 0 then w ! k + 1 else w ! k]))
           else (q, w)) = (q', w') \<and>
      length w' = Suc k \<and> uint q' = bn_val ww div D \<and> bn_val w' = bn_val ww mod D"
proof -
  define W where "W = bn_val ww"
  have w: "length w = Suc k" "uint borrow \<le> 1" "bn_val w - radix ^ Suc k * uint borrow = W - uint q * D"
    using bn_sub_words_val [OF sub(1)] sub(2-4) by (simp_all add: W_def)
  have m: "0 \<le> W mod D" "W mod D < D" "W = W div D * D + W mod D" using D(3) by simp_all
  have Dk: "D < radix ^ k" using bn_val_bound [of dv] D by simp
  have wb: "0 \<le> bn_val w" "bn_val w < radix ^ Suc k" using bn_val_bound [of w] w(1) by simp_all
  consider "uint q = W div D" | "uint q = W div D + 1" using q unfolding W_def by linarith
  then show ?thesis
  proof cases
    case 1
    then have v: "bn_val w - radix ^ Suc k * uint borrow = W mod D" using w(3) unfolding 1 by (simp add: minus_div_mult_eq_mod)
    have "uint borrow = 0"
    proof (rule ccontr)
      assume "uint borrow \<noteq> 0"
      then have "uint borrow = 1" using w(2) uint_limb(1) [of borrow] by linarith
      then show False using v wb(2) m(1) by simp
    qed
    then have "borrow = 0" "bn_val w = W mod D" using v by (simp_all add: unsigned_eq_0_iff)
    then show ?thesis using w(1) 1 by (simp add: W_def)
  next
    case 2
    then have v: "bn_val w - radix ^ Suc k * uint borrow = W mod D - D" using w(3) minus_div_mult_eq_mod [of W D] unfolding 2 distrib_right by linarith
    have "uint borrow \<noteq> 0"
    proof
      assume "uint borrow = 0"
      then have "bn_val w = W mod D - D" using v by simp
      then show False using wb(1) m(2) by linarith
    qed
    then have b: "uint borrow = 1" using w(2) uint_limb(1) [of borrow] by linarith
    then have b0: "borrow \<noteq> 0" by auto
    obtain w' c where a: "bn_add_words (take k w) dv = (w', c)" by (rule prod.exhaust)
    have w': "length w' = k" "bn_val w' + radix ^ k * uint c = bn_val (take k w) + D"
      using bn_add_words_val [OF a] w(1) D by simp_all
    have "bn_val w = bn_val (take k w) + radix ^ k * uint (w ! k)" using split_top [of k w] w(1) by simp
    then have t: "bn_val w' + radix ^ k * (uint (w ! k) + uint c) = W mod D + radix ^ k * radix"
      using v b w'(2) by (simp add: algebra_simps)
    have "bn_val w' < radix ^ k" using bn_val_bound [of w'] w'(1) by simp
    then have e: "bn_val w' = W mod D" "uint (w ! k) + uint c = radix"
    proof -
      assume l: "bn_val w' < radix ^ k"
      have "(bn_val w' + radix ^ k * (uint (w ! k) + uint c)) div radix ^ k = uint (w ! k) + uint c" using l by simp
      moreover have "(W mod D + radix ^ k * radix) div radix ^ k = radix" using m Dk by simp
      ultimately show u: "uint (w ! k) + uint c = radix" using t by simp
      show "bn_val w' = W mod D" using t unfolding u by simp
    qed
    have "uint c \<le> 1" using bn_add_words_val(2) [OF a] w(1) D by simp
    then have c: "uint c = 1" using e(2) uint_limb(2) [of "w ! k"] by linarith
    then have "uint (w ! k + 1) = 0" using e(2) by (simp add: uint_add_limb)
    then have top: "c \<noteq> 0" "w ! k + 1 = 0" using c by (auto simp: unsigned_eq_0_iff)
    have "0 \<le> W div D" using D(3) by (simp add: W_def pos_imp_zdiv_nonneg_iff)
    then have "uint (q - 1) = W div D" using 2 uint_minus [of q 1] by simp
    then show ?thesis using b0 a top w'(1) e(1) by (simp add: bn_val_append W_def)
  qed
qed

lemma div_step:
  assumes n: "normalised dv" and j: "j + length dv < length snum" and lt: "bn_val (drop (Suc j) snum) < bn_val dv"
    and d: "d0 = dv ! (length dv - 1)" "d1 = (if length dv = 1 then 0 else dv ! (length dv - 2))"
  shows "\<exists>q snum'. div_step dv d0 d1 j snum = Some (q, snum') \<and> length snum' = length snum \<and> take j snum' = take j snum \<and>
    bn_val (drop j snum) = uint q * bn_val dv + bn_val (drop j snum') \<and> bn_val (drop j snum') < bn_val dv"
proof -
  define k where "k = length dv"
  define ww where "ww = take (Suc k) (drop j snum)"
  have k: "0 < k" using n by (auto simp: normalised_def k_def)
  have D: "bn_val dv < radix ^ k" using bn_val_bound [of dv] by (simp add: k_def)
  have ww: "length ww = Suc k" "\<And>i. i \<le> k \<Longrightarrow> ww ! i = snum ! (j + i)" using j by (simp_all add: ww_def k_def)
  have "drop j snum = snum ! j # drop (Suc j) snum" using j by (simp add: Cons_nth_drop_Suc)
  then have W: "bn_val (drop j snum) = uint (snum ! j) + radix * bn_val (drop (Suc j) snum)" by simp
  have "radix * bn_val (drop (Suc j) snum) \<le> radix * (bn_val dv - 1)" using lt by (intro mult_left_mono) simp_all
  then have W_lt: "bn_val (drop j snum) < radix * bn_val dv" using uint_limb(2) [of "snum ! j"] unfolding W right_diff_distrib by linarith
  also have "\<dots> < radix ^ Suc k" using D by simp
  finally have Wk: "bn_val (drop j snum) < radix ^ Suc k" .
  then have W_ww: "bn_val (drop j snum) = bn_val ww" unfolding ww_def by (simp only: bn_val_take)
  have nn: "snum ! (j + k) = ww ! k" "snum ! (j + k - 1) = ww ! (k - 1)" "k \<noteq> 1 \<Longrightarrow> snum ! (j + k - 2) = ww ! (k - 2)"
    using ww(2) [of k] ww(2) [of "k - 1"] ww(2) [of "k - 2"] k by simp_all
  obtain q where q: "estimate_q (snum ! (j + k)) (snum ! (j + k - 1)) (snum ! (j + k - 2)) d0 d1 = Some q"
      "bn_val ww div bn_val dv \<le> uint q" "uint q \<le> bn_val ww div bn_val dv + 1"
    using estimate_q [OF n k_def [symmetric] _ _ d [folded k_def] nn] ww(1) W_lt unfolding W_ww Suc_eq_plus1 by blast
  obtain tmp l0 where t: "bn_mul_words dv q = (tmp, l0)" by (rule prod.exhaust)
  obtain w borrow where w: "bn_sub_words ww (tmp @ [l0]) = (w, borrow)" by (rule prod.exhaust)
  have tv: "length tmp = k" "bn_val (tmp @ [l0]) = uint q * bn_val dv"
    using bn_mul_words_val [OF t] by (simp_all add: bn_val_append k_def)
  have "0 < bn_val dv"
  proof -
    have "uint (dv ! (k - 1)) \<noteq> 0" using n radix_pos(1) by (auto simp: normalised_def k_def simp del: radix_pos)
    moreover have "dv ! (k - 1) \<in> set dv" using k by (intro nth_mem) (simp add: k_def)
    ultimately have "\<not> (\<forall>x \<in> set dv. x = 0)" by fastforce
    then show ?thesis using bn_val_nonneg [of dv] bn_val_zero_iff [of dv] by linarith
  qed
  from div_correct [OF w ww(1) tv refl k_def [symmetric] this q(2,3)]
  obtain q' w' where r: "(if borrow \<noteq> 0
           then (case bn_add_words (take k w) dv of (w', c) \<Rightarrow> (q - 1, w' @ [if c \<noteq> 0 then w ! k + 1 else w ! k]))
           else (q, w)) = (q', w')" and v: "length w' = Suc k" "uint q' = bn_val ww div bn_val dv" "bn_val w' = bn_val ww mod bn_val dv"
    by blast
  have s: "div_step dv d0 d1 j snum = Some (q', store snum j w')"
  proof -
    have "bn_sub_words (take (k + 1) (drop j snum)) (tmp @ [l0]) = (w, borrow)" using w by (simp add: ww_def)
    then show ?thesis
      unfolding div_step_def Let_def k_def [symmetric] q(1) option.case t prod.case using r by (auto split: if_splits prod.splits)
  qed
  have "bn_val (drop j (store snum j w')) = bn_val w'"
    using drop_store [OF v(1), of j snum] bn_val_window [OF Wk v(1)] j by (simp add: k_def add.commute)
  then show ?thesis
    using s v j \<open>0 < bn_val dv\<close> unfolding W_ww by (intro exI [of _ q'] exI [of _ "store snum j w'"]) (simp add: take_store_below k_def)
qed

text \<open>The words above the window stay below the divisor, and its quotient is what the loop has stored.\<close>

lemma div_loop:
  assumes n: "normalised dv" and d: "d0 = dv ! (length dv - 1)" "d1 = (if length dv = 1 then 0 else dv ! (length dv - 2))"
  shows "j + length dv < length snum \<Longrightarrow> bn_val (drop (Suc j) snum) < bn_val dv \<Longrightarrow>
    \<exists>qs snum'. div_loop dv d0 d1 j snum resp = Some (qs @ resp, snum') \<and> length qs = j \<and> length snum' = length snum \<and>
      take 1 snum' = take 1 snum \<and> bn_val (drop 1 snum') < bn_val dv \<and>
      bn_val (drop 1 snum) = bn_val qs * bn_val dv + bn_val (drop 1 snum')"
proof (induction j arbitrary: snum resp)
  case (Suc j)
  obtain q s where s: "div_step dv d0 d1 (Suc j) snum = Some (q, s)" "length s = length snum" "take (Suc j) s = take (Suc j) snum"
      "bn_val (drop (Suc j) snum) = uint q * bn_val dv + bn_val (drop (Suc j) s)" "bn_val (drop (Suc j) s) < bn_val dv"
    using div_step [OF n Suc.prems d] by blast
  from Suc.IH [of s "q # resp"] Suc.prems(1) s(2,5)
  obtain qs s' where r: "div_loop dv d0 d1 j s (q # resp) = Some (qs @ q # resp, s')" "length qs = j" "length s' = length s"
      "take 1 s' = take 1 s" "bn_val (drop 1 s') < bn_val dv" "bn_val (drop 1 s) = bn_val qs * bn_val dv + bn_val (drop 1 s')"
    by auto
  have split: "bn_val (drop 1 x) = bn_val (take j (drop 1 x)) + radix ^ j * bn_val (drop (Suc j) x)" if "length x = length snum" for x :: "limb list"
    using halves [of j "drop 1 x"] that Suc.prems(1) by simp
  have "take j (drop 1 s) = take j (drop 1 snum)" using s(3) by (metis drop_take diff_Suc_1)
  then have "bn_val (drop 1 snum) = bn_val (drop 1 s) + radix ^ j * (uint q * bn_val dv)"
    using split [of snum] split [of s] s(2,4) by (simp add: algebra_simps)
  then have "bn_val (drop 1 snum) = bn_val (qs @ [q]) * bn_val dv + bn_val (drop 1 s')"
    using r(2,6) by (simp add: bn_val_append algebra_simps)
  moreover have "take 1 s = take 1 snum"
    using s(3) by (metis take_take min.absorb1 One_nat_def Suc_le_mono le0)
  ultimately show ?case
    using s(1,2) r by (intro exI [of _ "qs @ [q]"] exI [of _ s']) simp
qed auto

section \<open>Normalisation\<close>

lemma normalisedI:
  assumes "ws \<noteq> []" "radix ^ length ws \<le> 2 * bn_val ws"
  shows "normalised ws"
proof -
  obtain m where m: "length ws = Suc m" using assms(1) by (cases ws) auto
  have "bn_val ws = bn_val (take m ws) + radix ^ m * uint (ws ! m)" using m by (simp add: split_top)
  moreover have "bn_val (take m ws) < radix ^ m" using bn_val_bound [of "take m ws"] m by simp
  ultimately have "radix ^ Suc m < radix ^ m * (2 + 2 * uint (ws ! m))" using assms(2) unfolding m by (simp add: algebra_simps)
  then have "radix < 2 + 2 * uint (ws ! m)" by simp
  then have "2 ^ 63 \<le> uint (ws ! m)" by (simp add: radix_def)
  then show ?thesis using assms(1) m by (simp add: normalised_def radix_def)
qed

text \<open>Numbers of minimal width have the width that their value needs.\<close>

lemma minimal_words:
  assumes "bn_ok bn" "bn_abs bn \<noteq> 0"
  defines "m \<equiv> bn_minimal_width bn" and "ws \<equiv> take (bn_minimal_width bn) (bn_d bn)"
  shows "0 < m" "length ws = m" "bn_val ws = bn_abs bn" "radix ^ (m - 1) \<le> bn_abs bn" "bn_abs bn < radix ^ m"
proof -
  note w = bn_minimal_width [OF assms(1)]
  show m: "0 < m" using bn_minimal_width_zero_iff [OF assms(1)] assms(2) by (simp add: m_def)
  show l: "length ws = m" using w(1) assms(1) by (simp add: ws_def m_def bn_ok_def)
  show v: "bn_val ws = bn_abs bn" using w(2) by (simp add: ws_def)
  show "bn_abs bn < radix ^ m" using bn_val_bound [of ws] unfolding v l .
  have "ws ! (m - 1) \<noteq> 0" using w(3) m unfolding ws_def m_def by simp
  moreover have "ws \<noteq> []" using l m by auto
  ultimately show "radix ^ (m - 1) \<le> bn_abs bn" using top_word_bound [of ws] v l by simp
qed

lemma bit_length_int:
  assumes "0 < x"
  shows "2 ^ (bit_length (nat x) - 1) \<le> x" "x < 2 ^ bit_length (nat x)" "0 < bit_length (nat x)"
proof -
  have b: "nat x < 2 ^ bit_length (nat x)" "2 ^ (bit_length (nat x) - 1) \<le> nat x" using bit_length_bounds [of "nat x"] assms by auto
  then have "int (nat x) < int (2 ^ bit_length (nat x))" "int (2 ^ (bit_length (nat x) - 1)) \<le> int (nat x)" by linarith+
  then show "2 ^ (bit_length (nat x) - 1) \<le> x" "x < 2 ^ bit_length (nat x)" using assms by simp_all
  show "0 < bit_length (nat x)"
  proof (rule ccontr)
    assume "\<not> 0 < bit_length (nat x)"
    then show False using b(1) assms by (simp del: bit_length.simps)
  qed
qed

lemma shifted_divisor:
  assumes ok: "bn_ok bn" "bn_abs bn = D * 2 ^ s" and D: "0 < D" and s: "s = 64 - bit_length (nat D) mod 64"
  shows "normalised (take (bn_minimal_width bn) (bn_d bn))"
proof -
  define B where "B = bit_length (nat D)"
  define ws where "ws = take (bn_minimal_width bn) (bn_d bn)"
  have nz: "bn_abs bn \<noteq> 0" using ok(2) D by simp
  note w = minimal_words [OF ok(1) nz, folded ws_def]
  have B: "2 ^ (B - 1) \<le> D" "D < 2 ^ B" "0 < B" unfolding B_def by (rule bit_length_int [OF D])+
  have "B + s = 64 * (B div 64 + 1)" unfolding s B_def [symmetric] by presburger
  then have k: "(2 :: int) ^ (B + s) = radix ^ (B div 64 + 1)" by (simp only: radix_power)
  have lo: "2 ^ (B + s) \<le> 2 * bn_abs bn"
  proof -
    have "(2 :: int) ^ (B + s) = 2 * (2 ^ (B - 1) * 2 ^ s)" using B(3) by (cases B) (simp_all add: power_add)
    also have "\<dots> \<le> 2 * (D * 2 ^ s)" using B(1) by simp
    finally show ?thesis unfolding ok(2) .
  qed
  have hi: "bn_abs bn < 2 ^ (B + s)" unfolding ok(2) power_add using B(2) by simp
  have "bn_minimal_width bn = B div 64 + 1"
  proof (rule antisym)
    have "radix ^ (bn_minimal_width bn - 1) < radix ^ (B div 64 + 1)" using w(4) hi unfolding k by linarith
    then have "bn_minimal_width bn - 1 < B div 64 + 1" by (rule power_less_imp_less_exp [OF radix_pos(3)])
    then show "bn_minimal_width bn \<le> B div 64 + 1" by linarith
    have "2 * radix ^ (B div 64) \<le> radix ^ (B div 64) * radix" by (simp add: radix_def)
    then have "2 * radix ^ (B div 64) \<le> 2 * bn_abs bn" using lo [unfolded k, unfolded power_add power_one_right] by (rule order_trans)
    then have "radix ^ (B div 64) \<le> bn_abs bn" by simp
    then have "radix ^ (B div 64) < radix ^ bn_minimal_width bn" using w(5) by linarith
    then show "B div 64 + 1 \<le> bn_minimal_width bn" by (simp add: power_strict_increasing_iff)
  qed
  then have "radix ^ length ws \<le> 2 * bn_val ws" using lo unfolding w(2,3) k by simp
  moreover have "ws \<noteq> []" using w(1,2) by auto
  ultimately show ?thesis unfolding ws_def [symmetric] by (intro normalisedI)
qed

section \<open>Division of numbers\<close>

text \<open>The dividend as the loop finds it: shifted by a word more than the divisor, and with a zero word on top.\<close>

definition dividend :: "nat \<Rightarrow> limb list \<Rightarrow> int \<Rightarrow> limb list \<Rightarrow> bool" where
  "dividend s dv N ws \<longleftrightarrow> bn_val ws = N * 2 ^ (s + 64) \<and> length dv + 2 \<le> length ws \<and> ws ! (length ws - 1) = 0"

lemma normalised_bound: "normalised dv \<Longrightarrow> radix ^ (length dv - 1) \<le> bn_val dv"
  using top_word_bound [of dv] radix_pos(1)
  by (cases "dv ! (length dv - 1) = 0") (simp_all add: normalised_def del: radix_pos)

lemma div_loop_quotient:
  assumes n: "normalised dv" and V: "bn_val dv = D * 2 ^ s" "0 < D" and w: "dividend s dv N ws" "0 \<le> N"
    and d: "d0 = dv ! (length dv - 1)" "d1 = (if length dv = 1 then 0 else dv ! (length dv - 2))"
  shows "\<exists>qs ws'. div_loop dv d0 d1 (length ws - length dv - 1) ws [] = Some (qs, ws') \<and> length qs = length ws - length dv - 1 \<and>
    length ws' = length ws \<and> bn_val qs = N div D \<and> bn_val ws' = N mod D * 2 ^ (s + 64)"
proof -
  define k j where "k = length dv" and "j = length ws - length dv - 1"
  have l: "length ws = Suc (j + k)" "0 < k" using w(1) n by (auto simp: dividend_def normalised_def j_def k_def)
  have r2: "(2 :: int) ^ (s + 64) = 2 ^ s * radix" by (simp add: power_add radix_def)
  have first: "\<exists>y. x = 0 # y" if "bn_val x = z * (2 ^ s * radix)" "x \<noteq> []" for x z
  proof (cases x)
    case (Cons a y)
    have "uint a = bn_val x mod radix" using Cons uint_limb [of a] by simp
    then have "a = 0" using that(1) by (simp add: unsigned_eq_0_iff)
    with Cons show ?thesis by blast
  qed (use that in simp)
  have "ws \<noteq> []" using l by auto
  then obtain y where y: "ws = 0 # y" using first [of ws N] w(1) by (auto simp: dividend_def r2)
  have "bn_val (drop (Suc j) ws) < bn_val dv"
  proof -
    have "drop (Suc j) ws ! (k - 1) = 0" "length (drop (Suc j) ws) = Suc (k - 1)" using w(1) l by (simp_all add: dividend_def)
    then have "bn_val (drop (Suc j) ws) = bn_val (take (k - 1) (drop (Suc j) ws))" using split_top [of "k - 1" "drop (Suc j) ws"] by simp
    also have "\<dots> < radix ^ (k - 1)" using bn_val_bound [of "take (k - 1) (drop (Suc j) ws)"] l by simp
    also have "\<dots> \<le> bn_val dv" unfolding k_def by (rule normalised_bound [OF n])
    finally show ?thesis .
  qed
  from div_loop [OF n d _ this, of "[]"] l
  obtain qs ws' where r: "div_loop dv d0 d1 j ws [] = Some (qs, ws')" "length qs = j" "length ws' = length ws" "take 1 ws' = take 1 ws"
      "bn_val (drop 1 ws') < bn_val dv" "bn_val (drop 1 ws) = bn_val qs * bn_val dv + bn_val (drop 1 ws')"
    by (auto simp: k_def)
  define R where "R = bn_val (drop 1 ws')"
  have "ws' = 0 # drop 1 ws'" using r(3,4) y by (cases ws') simp_all
  then have v': "bn_val ws' = radix * R" by (metis bn_val.simps(2) R_def unsigned_0 add_0)
  have "radix * (N * 2 ^ s) = radix * bn_val (drop 1 ws)" using w(1) y by (simp add: dividend_def r2)
  then have N: "N * 2 ^ s = (bn_val qs * D) * 2 ^ s + R" using r(6) by (simp add: V(1) R_def)
  have R: "0 \<le> R" "R < D * 2 ^ s" using r(5) by (simp_all add: R_def V(1))
  have e: "R = (N - bn_val qs * D) * 2 ^ s" using N by (simp add: left_diff_distrib)
  then have b: "0 \<le> N - bn_val qs * D" "N - bn_val qs * D < D" using R by (simp_all add: zero_le_mult_iff)
  have "N div D = bn_val qs" using b int_div_pos_eq [of N D "bn_val qs" "N - bn_val qs * D"] by (simp add: mult.commute)
  moreover from this have "N mod D = N - bn_val qs * D" using minus_div_mult_eq_mod [of N D] by simp
  ultimately have "bn_val ws' = N mod D * 2 ^ (s + 64)" unfolding v' e r2 by simp
  with r \<open>N div D = bn_val qs\<close> show ?thesis by (auto simp: j_def)
qed

lemma BN_lshift_static:
  assumes "BN_lshift A r a n = (Some u, r')"
  shows "bn_static r' = bn_static r"
proof -
  obtain d where d: "bn_wexpand A (r\<lparr>bn_neg := bn_neg a\<rparr>) (Suc (bn_width a + nat n div 64)) = (Some (), d)"
    using assms by (cases "bn_wexpand A (r\<lparr>bn_neg := bn_neg a\<rparr>) (bn_width a + nat n div 64 + 1)")
      (auto simp: BN_lshift_def Let_def elim!: andthen_SomeE split: if_splits)
  have "bn_static r' = bn_static d" using assms by (auto simp: BN_lshift_def Let_def d bn_static_kept(1) split: if_splits)
  also have "\<dots> = bn_static r" using bn_static_kept(2) [OF d] by simp
  finally show ?thesis .
qed

text \<open>A number shifted to the left gains at most one word beyond the words of the shift.\<close>

lemma shifted_width:
  assumes "bn_ok r" "bn_ok a" "bn_abs r = bn_abs a * 2 ^ n"
  shows "bn_minimal_width r \<le> bn_width a + n div 64 + 1"
proof (cases "bn_abs r = 0")
  case True
  then show ?thesis using bn_minimal_width_zero_iff [OF assms(1)] by simp
next
  case False
  have "n \<le> 64 * (n div 64 + 1)" by presburger
  then have n: "(2 :: int) ^ n \<le> radix ^ (n div 64 + 1)" unfolding radix_power by (intro power_increasing) simp_all
  have "radix ^ (bn_minimal_width r - 1) \<le> bn_abs r" using minimal_words(4) [OF assms(1) False] .
  also have "\<dots> \<le> bn_abs a * radix ^ (n div 64 + 1)" unfolding assms(3) using n by (intro mult_left_mono) simp_all
  also have "\<dots> < radix ^ bn_width a * radix ^ (n div 64 + 1)" using bn_abs_bound [OF assms(2)] by (intro mult_strict_right_mono) simp_all
  finally have "radix ^ (bn_minimal_width r - 1) < radix ^ (bn_width a + (n div 64 + 1))" by (simp only: power_add)
  then have "bn_minimal_width r - 1 < bn_width a + (n div 64 + 1)" by (rule power_less_imp_less_exp [OF radix_pos(3)])
  then show ?thesis by linarith
qed

lemma pad_snum:
  assumes A: "malloc_spec A" and ok: "bn_ok a" "bn_abs a = N * 2 ^ (s + 64)" and r: "pad_snum A (length dv) a = (Some u, r)"
  shows "bn_ok r \<and> dividend s dv N (bn_limbs r) \<and> bn_width r = max (length dv + 2) (bn_width a + 1)"
proof -
  have v: "bn_val (bn_limbs a) = N * 2 ^ (s + 64)" using ok(2) by (simp add: bn_abs_def)
  show ?thesis
  proof (cases "bn_width a \<le> length dv + 1")
    case True
    define z where "z = length dv + 2 - bn_width a"
    obtain d where d: "bn_wexpand A a (length dv + 2) = (Some (), d)"
        "r = d\<lparr>bn_d := store (bn_d d) (bn_width d) (replicate (length dv + 2 - bn_width d) 0), bn_width := length dv + 2\<rparr>"
      using r True by (auto simp: pad_snum_def elim!: andthen_SomeE)
    note x = bn_wexpand_Some [OF d(1) A ok(1)]
    note d2 = d(2) [unfolded x(4), folded z_def]
    have w: "bn_width a + z = length dv + 2" using True by (simp add: z_def)
    have "bn_limbs r = take (bn_width a + length (replicate z (0 :: limb))) (store (bn_d d) (bn_width a) (replicate z 0))"
      unfolding d2 using w by (simp add: bn_limbs_def)
    also have "\<dots> = bn_limbs a @ replicate z 0"
      using x(2,3,4) w by (subst take_store_upto) (simp_all add: bn_limbs_def)
    finally have "bn_limbs r = bn_limbs a @ replicate z 0" .
    moreover have "bn_ok r" using x(1,2,4) w unfolding d2 by (simp add: bn_ok_def)
    moreover have "0 < z" using True by (simp add: z_def)
    ultimately show ?thesis using v w ok(1) d2 True by (simp add: dividend_def bn_val_pad nth_append)
  next
    case False
    obtain d where d: "bn_wexpand A a (bn_width a + 1) = (Some (), d)"
        "r = d\<lparr>bn_d := (bn_d d)[bn_width d := 0], bn_width := bn_width d + 1\<rparr>"
      using r False by (auto simp: pad_snum_def elim!: andthen_SomeE)
    note x = bn_wexpand_Some [OF d(1) A ok(1)]
    note d2 = d(2) [unfolded x(4)]
    have "bn_limbs r = bn_limbs a @ [0]"
      using x(2-4) unfolding d2 by (simp add: bn_limbs_def take_Suc_conv_app_nth)
    moreover have "bn_ok r" using x(2) unfolding d2 by (simp add: bn_ok_def)
    ultimately show ?thesis using v ok(1) d2 False by (simp add: dividend_def bn_val_append nth_append)
  qed
qed

text \<open>What the shifts and the padding leave, or which of their allocations failed.\<close>

lemma bn_set_pos:
  "bn_ok (r\<lparr>bn_neg := False\<rparr>) = bn_ok r" "bn_abs (r\<lparr>bn_neg := False\<rparr>) = bn_abs r" "bn_limbs (r\<lparr>bn_neg := False\<rparr>) = bn_limbs r"
  by (simp_all add: bn_ok_def bn_abs_def bn_limbs_def)

lemma div_normalise:
  assumes A: "malloc_spec A" and ok: "bn_ok dv" "bn_ok snum" "bn_ok n" "bn_ok d" and D: "bn_abs d \<noteq> 0"
  shows "case div_normalise A dv snum n d of
      None \<Rightarrow> (\<exists>k. A k = None) \<or> bn_static dv \<or> bn_static snum \<or> 1000000 < bn_width n \<or> 1000000 < bn_width d
    | Some (dv', snum', sh) \<Rightarrow> (\<exists>s. sh = s + 64 \<and> s \<le> 64 \<and> bn_ok dv' \<and> normalised (bn_limbs dv') \<and> bn_val (bn_limbs dv') = bn_abs d * 2 ^ s \<and>
        bn_ok snum' \<and> dividend s (bn_limbs dv') (bn_abs n) (bn_limbs snum') \<and> \<not> bn_neg snum' \<and>
        bn_width dv' \<le> bn_width d + 2 \<and> bn_width snum' \<le> bn_width n + bn_width d + 5)"
proof -
  define s where "s = 64 - BN_num_bits d mod 64"
  have s: "s \<le> 64" "s div 64 \<le> 1" by (simp_all add: s_def)
  show ?thesis
  proof (cases "fst (BN_lshift A dv d (int s)) = None")
    case True
    then obtain r where "BN_lshift A dv d (int s) = (None, r)" by (cases "BN_lshift A dv d (int s)") auto
    moreover have "(\<exists>k. A k = None) \<or> bn_static dv \<or> 1000000 < bn_width d"
      using BN_shift_total [of A dv "int s" d] True s(2) by fastforce
    ultimately show ?thesis by (auto simp: div_normalise_def Let_def simp flip: s_def)
  next
    case False
    then obtain r where r: "BN_lshift A dv d (int s) = (Some (), r)" by (cases "BN_lshift A dv d (int s)") auto
    define dv' where "dv' = (bn_set_minimal_width r)\<lparr>bn_neg := False\<rparr>"
    have rv: "bn_ok r" "bn_abs r = bn_abs d * 2 ^ s" using BN_lshift_int [OF A ok(1,4) r] by (simp_all add: bn_norm_ok)
    have d': "bn_ok dv'" "bn_limbs dv' = take (bn_minimal_width r) (bn_d r)" "bn_width dv' = bn_minimal_width r"
      using bn_set_minimal_width [OF rv(1)] by (simp_all add: dv'_def bn_set_pos bn_limbs_def)
    have D0: "0 < bn_abs d" using D bn_abs_nonneg [of d] by linarith
    have dn: "normalised (bn_limbs dv')" "bn_val (bn_limbs dv') = bn_abs d * 2 ^ s"
      using shifted_divisor [OF rv D0] bn_minimal_width(2) [OF rv(1)] rv(2)
      unfolding d'(2) by (simp_all add: s_def BN_num_bits [OF ok(4)])
    note e1 = div_normalise_def [of A dv snum n d, unfolded Let_def, folded s_def, unfolded r option.case prod.case, folded dv'_def]
    have dw: "bn_width dv' \<le> bn_width d + 2" using shifted_width [OF rv(1) ok(4) rv(2)] s(2) unfolding d'(3) by linarith
    show ?thesis
    proof (cases "fst (BN_lshift A snum n (int (s + 64))) = None")
      case True
      then obtain t where "BN_lshift A snum n (int (s + 64)) = (None, t)" by (cases "BN_lshift A snum n (int (s + 64))") auto
      moreover have "(\<exists>k. A k = None) \<or> bn_static snum \<or> 1000000 < bn_width n"
        using BN_shift_total [of A snum "int (s + 64)" n] True s(2) by fastforce
      ultimately show ?thesis unfolding e1 by auto
    next
      case False
      then obtain t where t: "BN_lshift A snum n (int (s + 64)) = (Some (), t)" by (cases "BN_lshift A snum n (int (s + 64))") auto
      define t' where "t' = (bn_set_minimal_width t)\<lparr>bn_neg := False\<rparr>"
      note e2 = e1 [unfolded t option.case prod.case, folded t'_def]
      have tv: "bn_ok t" "bn_abs t = bn_abs n * 2 ^ (s + 64)" using BN_lshift_int [OF A ok(2,3) t] by (simp_all add: bn_norm_ok nat_add_distrib)
      have t': "bn_ok t'" "bn_abs t' = bn_abs n * 2 ^ (s + 64)" "bn_static t' = bn_static snum" "\<not> bn_neg t'"
        using bn_set_minimal_width(1-4) [OF tv(1)] tv(2) BN_lshift_static [OF t] by (simp_all add: t'_def bn_set_pos)
      have "bn_width t' = bn_minimal_width t" using bn_set_minimal_width(6) [OF tv(1)] by (simp add: t'_def)
      then have tw: "bn_width t' \<le> bn_width n + 3" using shifted_width [OF tv(1) ok(3) tv(2)] s(1) by simp
      have l: "length (bn_limbs dv') = bn_width dv'" using d'(1) by simp
      obtain o' u where p: "pad_snum A (bn_width dv') t' = (o', u)" by (rule prod.exhaust)
      show ?thesis
      proof (cases o')
        case None
        have "\<exists>k. \<not> fst (bn_wexpand A t' k) = Some () \<and> k \<le> max (bn_width dv' + 2) (bn_width t' + 1)"
          using p None by (auto simp: pad_snum_def split: if_splits elim!: andthen.elims
            intro: exI [of _ "Suc (Suc (bn_width dv'))"] exI [of _ "Suc (bn_width t')"])
        then obtain k where k: "fst (bn_wexpand A t' k) \<noteq> Some ()" "k \<le> max (bn_width dv' + 2) (bn_width t' + 1)" by blast
        have "(\<exists>k. A k = None) \<or> bn_static snum \<or> 1000000 < bn_width n \<or> 1000000 < bn_width d"
          using bn_wexpand_total [of A t' k] k t'(3) dw tw by (cases "k \<le> 8388607") auto
        then show ?thesis unfolding e2 p None option.case prod.case by auto
      next
        case (Some a)
        have q: "bn_ok u" "dividend s (bn_limbs dv') (bn_abs n) (bn_limbs u)" "bn_width u = max (bn_width dv' + 2) (bn_width t' + 1)"
          using pad_snum [OF A t'(1,2), of "bn_limbs dv'"] p Some unfolding l by auto
        have "\<not> bn_neg u" using p Some t'(4) by (auto simp: pad_snum_def bn_wexpand_def Let_def split: if_splits option.splits elim!: andthen_SomeE)
        then show ?thesis using s(1) q d'(1) dn dw tw unfolding e2 p Some option.case prod.case by auto
      qed
    qed
  qed
qed

lemma BN_div_result:
  assumes A: "malloc_spec A" and ok: "bn_ok n" "bn_ok d" "\<And>c. c \<in> set ctx \<Longrightarrow> bn_ok c" "\<And>q. quot = Some q \<Longrightarrow> bn_ok q"
    "\<And>r. rem = Some r \<Longrightarrow> bn_ok r"
  shows "\<exists>res. BN_div A al ctx quot rem n d = Some res \<and> (case res of
      None \<Rightarrow> bn_abs d = 0 \<or> length ctx < 4 \<or> (\<exists>k. A k = None) \<or> (\<exists>c \<in> set ctx. bn_static c) \<or> (\<exists>q. quot = Some q \<and> bn_static q) \<or>
        (\<exists>r. rem = Some r \<and> bn_static r) \<or> 1000000 < bn_width n \<or> 1000000 < bn_width d
    | Some (q, r) \<Rightarrow> bn_abs d \<noteq> 0 \<and> (q = None \<longleftrightarrow> quot = None) \<and> (r = None \<longleftrightarrow> rem = None) \<and>
        (\<forall>q'. q = Some q' \<longrightarrow> bn_canonical q' \<and> bn_abs q' = bn_abs n div bn_abs d \<and> (bn_neg q' \<longleftrightarrow> bn_neg n \<noteq> bn_neg d \<and> bn_abs q' \<noteq> 0)) \<and>
        (\<forall>r'. r = Some r' \<longrightarrow> bn_canonical r' \<and> (\<exists>x. rem = Some x \<and> bn_static r' = bn_static x) \<and> bn_abs r' = bn_abs n mod bn_abs d \<and>
           (bn_neg r' \<longleftrightarrow> (if al then bn_neg n \<noteq> bn_neg d else bn_neg n) \<and> bn_abs r' \<noteq> 0)))"
    (is "\<exists>res. ?call = Some res \<and> ?P res")
proof -
  have guard: "\<not> (bn_minimal_width n > 0 \<and> bn_d n ! (bn_minimal_width n - 1) = 0 \<or> bn_minimal_width d > 0 \<and> bn_d d ! (bn_minimal_width d - 1) = 0)"
    using bn_minimal_width(3) [OF ok(1)] bn_minimal_width(3) [OF ok(2)] by blast
  have zero: "BN_is_zero d \<longleftrightarrow> bn_abs d = 0" by (rule bn_is_zero [OF ok(2)])
  show ?thesis
  proof (cases "bn_abs d = 0 \<or> length ctx < (if quot = None then 4 else 3)")
    case True
    have "?call = Some None"
      unfolding BN_div_def Let_def if_not_P [OF guard] zero using True by auto
    then show ?thesis using True by (auto split: if_splits)
  next
    case False
    then have D: "bn_abs d \<noteq> 0" "\<not> length ctx < (if quot = None then 4 else 3)" by auto
    define tmp res where "tmp = ctx ! 0" and "res = (case quot of None \<Rightarrow> ctx ! 3 | Some q \<Rightarrow> q)"
    have l: "3 \<le> length ctx" "quot = None \<Longrightarrow> 4 \<le> length ctx" using D(2) by (auto split: if_splits)
    have c: "tmp \<in> set ctx" "ctx ! 1 \<in> set ctx" "ctx ! 2 \<in> set ctx" "quot = None \<Longrightarrow> ctx ! 3 \<in> set ctx"
      unfolding tmp_def using l by (auto intro!: nth_mem)
    have res: "bn_ok res" "bn_static res \<Longrightarrow> (\<exists>c \<in> set ctx. bn_static c) \<or> (\<exists>q. quot = Some q \<and> bn_static q)"
      using ok(3,4) c(4) by (auto simp: res_def split: option.splits)
    note step1 = BN_div_def [of A al ctx quot rem n d, unfolded Let_def if_not_P [OF guard] zero if_not_P [OF D(1)] if_not_P [OF D(2)], folded tmp_def res_def]
    note norm = div_normalise [OF A ok(3) [OF c(3)] ok(3) [OF c(2)] ok(1,2) D(1)]
    show ?thesis
    proof (cases "div_normalise A (ctx ! 2) (ctx ! 1) n d")
      case None
      then have "?call = Some None" by (simp add: step1)
      then show ?thesis using norm c(2,3) unfolding None by auto
    next
      case (Some x)
      then obtain dv snum sh where x: "div_normalise A (ctx ! 2) (ctx ! 1) n d = Some (dv, snum, sh)" by (cases x) auto
      from norm obtain s where s: "sh = s + 64" "bn_ok dv" "normalised (bn_limbs dv)" "bn_val (bn_limbs dv) = bn_abs d * 2 ^ s"
          "bn_ok snum" "dividend s (bn_limbs dv) (bn_abs n) (bn_limbs snum)" "\<not> bn_neg snum"
          "bn_width dv \<le> bn_width d + 2" "bn_width snum \<le> bn_width n + bn_width d + 5" "s \<le> 64"
        unfolding x by auto
      define loop where "loop = bn_width snum - bn_width dv"
      have lp: "2 \<le> loop" using s(6) s(2,5) unfolding dividend_def loop_def by auto
      define res1 where "res1 = res\<lparr>bn_neg := (bn_neg n \<noteq> bn_neg d)\<rparr>"
      have res1: "bn_ok res1" "bn_static res1 = bn_static res" "bn_neg res1 \<longleftrightarrow> bn_neg n \<noteq> bn_neg d" using res(1) by (simp_all add: res1_def bn_ok_def)
      note step2 = step1 [unfolded x option.case prod.case, folded loop_def res1_def]
      show ?thesis
      proof (cases "fst (bn_wexpand A res1 (loop + 1)) = None \<or> fst (bn_wexpand A tmp (bn_width dv + 1)) = None")
        case True
        then have "?call = Some None" unfolding step2
          by (cases "bn_wexpand A res1 (loop + 1)"; cases "bn_wexpand A tmp (bn_width dv + 1)") (auto split: option.splits)
        moreover have "(\<exists>k. A k = None) \<or> bn_static res1 \<or> bn_static tmp \<or> 1000000 < bn_width n \<or> 1000000 < bn_width d"
        proof (rule ccontr)
          assume "\<not> ?thesis"
          then have f: "\<forall>k. A k \<noteq> None" "\<not> bn_static res1" "\<not> bn_static tmp" "loop + 1 \<le> 8388607" "bn_width dv + 1 \<le> 8388607"
            using s(8,9) by (auto simp: loop_def)
          show False using True bn_wexpand_total [OF f(1,2,4)] bn_wexpand_total [OF f(1,3,5)] by auto
        qed
        ultimately show ?thesis using res(2) res1(2) c(1) by auto
      next
        case False
        then obtain e t where e: "bn_wexpand A res1 (loop + 1) = (Some (), e)" and t: "bn_wexpand A tmp (bn_width dv + 1) = (Some (), t)"
          by (cases "bn_wexpand A res1 (loop + 1)"; cases "bn_wexpand A tmp (bn_width dv + 1)") auto
        note ev = bn_wexpand_Some [OF e A res1(1)]
        define res2 where "res2 = e\<lparr>bn_width := loop - 1\<rparr>"
        have nz: "bn_width res2 \<noteq> 0" using lp by (simp add: res2_def)
        have ln: "length (bn_limbs dv) = bn_width dv" "length (bn_limbs snum) = bn_width snum" using s(2,5) by simp_all
        have dpos: "0 < bn_abs d" using D(1) bn_abs_nonneg [of d] by linarith
        have "bn_limbs dv \<noteq> []" using s(3) by (simp add: normalised_def)
        then have dw: "0 < bn_width dv" unfolding ln(1) [symmetric] by (rule length_greater_0_conv [THEN iffD2])
        have nth: "bn_d dv ! (bn_width dv - 1) = bn_limbs dv ! (length (bn_limbs dv) - 1)"
            "(if bn_width dv = 1 then 0 else bn_d dv ! (bn_width dv - 2)) = (if length (bn_limbs dv) = 1 then 0 else bn_limbs dv ! (length (bn_limbs dv) - 2))"
          using dw unfolding ln(1) by (simp_all add: bn_limbs_def)
        from div_loop_quotient [OF s(3,4) dpos s(6) bn_abs_nonneg nth] obtain qs ws where
            q: "div_loop (bn_limbs dv) (bn_d dv ! (bn_width dv - 1)) (if bn_width dv = 1 then 0 else bn_d dv ! (bn_width dv - 2))
                  (loop - 1) (bn_limbs snum) [] = Some (qs, ws)"
              "length qs = loop - 1" "length ws = bn_width snum" "bn_val qs = bn_abs n div bn_abs d" "bn_val ws = bn_abs n mod bn_abs d * 2 ^ sh"
          unfolding ln loop_def [symmetric] s(1) by blast
        define res3 sn where "res3 = res2\<lparr>bn_d := store (bn_d res2) 0 qs\<rparr>"
          and "sn = bn_set_minimal_width (snum\<lparr>bn_d := store (bn_d snum) 0 ws\<rparr>)"
        note step3 = step2 [unfolded e t option.case prod.case, folded res2_def, unfolded if_not_P [OF nz] bn_limbs_def [symmetric] q(1) option.case prod.case,
            folded res3_def sn_def]
        have r3: "bn_ok res3" "bn_limbs res3 = qs" "bn_neg res3 \<longleftrightarrow> bn_neg n \<noteq> bn_neg d"
          using ev(2,5) q(2) res1(3) by (simp_all add: res3_def res2_def bn_ok_def bn_limbs_def store_full)
        have qv: "bn_canonical (bn_set_minimal_width res3)" "bn_abs (bn_set_minimal_width res3) = bn_abs n div bn_abs d"
            "bn_neg (bn_set_minimal_width res3) \<longleftrightarrow> bn_neg n \<noteq> bn_neg d \<and> bn_abs (bn_set_minimal_width res3) \<noteq> 0"
          using bn_set_minimal_width [OF r3(1)] r3(2,3) q(4) by (simp_all add: bn_canonical_def bn_norm_def bn_abs_def)
        have "bn_ok (snum\<lparr>bn_d := store (bn_d snum) 0 ws\<rparr>)" "bn_limbs (snum\<lparr>bn_d := store (bn_d snum) 0 ws\<rparr>) = ws"
          using s(5) q(3) by (simp_all add: bn_ok_def bn_limbs_def store_full)
        note sm = this bn_set_minimal_width [OF this(1)]
        have sv: "bn_ok sn" "bn_abs sn = bn_abs n mod bn_abs d * 2 ^ sh" "\<not> bn_neg sn" "bn_width sn \<le> bn_width snum"
          using sm s(7) q(5) bn_minimal_width(1) [OF sm(1)] unfolding sn_def by (simp_all add: bn_abs_def)
        show ?thesis
        proof (cases rem)
          case None
          then have "?call = Some (Some (map_option (\<lambda>_. bn_set_minimal_width res3) quot, None))" unfolding step3 by simp
          then show ?thesis using D(1) None qv by auto
        next
          case rem: (Some r)
          note ok_r = ok(5) [OF rem]
          show ?thesis
          proof (cases "fst (BN_rshift A r sn (int sh))")
            case None
            then have "?call = Some None" unfolding step3 unfolding rem option.case by (cases "BN_rshift A r sn (int sh)") auto
            moreover have "(\<exists>k. A k = None) \<or> bn_static r \<or> 1000000 < bn_width n \<or> 1000000 < bn_width d"
            proof (rule ccontr)
              assume a: "\<not> ?thesis"
              have "sh div 64 \<le> 2" unfolding s(1) using s(10) by simp
              then have "bn_width sn + nat (int sh) div 64 < 8388607" unfolding nat_int using a sv(4) s(9) by linarith
              then show False using BN_shift_total [of A r "int sh" sn] a None by simp
            qed
            ultimately show ?thesis using rem by auto
          next
            case (Some u)
            then obtain r1 where r1: "BN_rshift A r sn (int sh) = (Some (), r1)" by (cases "BN_rshift A r sn (int sh)") auto
            note rv = BN_rshift_int [OF A ok_r sv(1) r1]
            have ra: "bn_ok r1" "bn_abs r1 = bn_abs n mod bn_abs d" "\<not> bn_neg r1" using rv sv(2,3) by (auto simp: bn_norm_def)
            define sg where "sg = (if al then bn_neg res3 else bn_neg n)"
            define r2 where "r2 = (if \<not> BN_is_zero r1 then r1\<lparr>bn_neg := sg\<rparr> else r1)"
            have "?call = Some (Some (map_option (\<lambda>_. bn_set_minimal_width res3) quot, Some r2))"
              unfolding step3 unfolding rem option.case r1 prod.case r2_def sg_def ..
            moreover have "trimmed r2 \<and> bn_static r2 = bn_static r"
              using BN_shift_trimmed(2) [OF r1] BN_rshift_static [OF r1] by (simp add: r2_def)
            moreover have "bn_norm r2 \<and> bn_abs r2 = bn_abs n mod bn_abs d \<and> (bn_neg r2 \<longleftrightarrow> sg \<and> bn_abs r2 \<noteq> 0)"
              using ra bn_is_zero [OF ra(1)] by (auto simp: r2_def bn_norm_def bn_ok_def bn_abs_def bn_limbs_def)
            ultimately show ?thesis using D(1) qv rem r3(3) by (auto simp: sg_def bn_canonical_def)
          qed
        qed
      qed
    qed
  qed
qed

lemma sgn_nonneg: "0 \<le> x \<Longrightarrow> sgn x = (if x = 0 then 0 else 1)" for x :: int
  by (simp add: sgn_if)

lemma signed_division:
  assumes "bn_abs q = bn_abs n div bn_abs d" "bn_neg q \<longleftrightarrow> bn_neg n \<noteq> bn_neg d \<and> bn_abs q \<noteq> 0"
  shows "bn_int q = bn_int n sdiv bn_int d"
  using assms sgn_nonneg [OF bn_abs_nonneg [of n]] sgn_nonneg [OF bn_abs_nonneg [of d]]
  by (cases "bn_neg n"; cases "bn_neg d") (auto simp: bn_int_def signed_divide_int_def)

lemma signed_remainder:
  assumes "bn_abs r = bn_abs n mod bn_abs d" "bn_neg r \<longleftrightarrow> bn_neg n \<and> bn_abs r \<noteq> 0"
  shows "bn_int r = bn_int n smod bn_int d"
  using assms sgn_nonneg [OF bn_abs_nonneg [of n]] sgn_nonneg [OF bn_abs_nonneg [of d]] minus_div_mult_eq_mod [of "bn_abs n" "bn_abs d"]
  by (cases "bn_neg n"; cases "bn_neg d") (auto simp: bn_int_def signed_modulo_int_def signed_divide_int_def)

lemma bn_int_zero_iff: "bn_int a = 0 \<longleftrightarrow> bn_abs a = 0"
  by (simp add: bn_int_def)

text \<open>C3. \<^verbatim>\<open>BN_div\<close> returns: the quotient and the remainder of a successful call are those of the division of C,
  which rounds towards zero, without a zero word on top and never a negative zero. It fails exactly for a zero divisor
  when the context has numbers, the allocator provides the memory and the numbers are not huge.\<close>

theorem BN_div_exact:
  assumes "malloc_spec A" "bn_ok n" "bn_ok d" "\<forall>c \<in> set ctx. bn_ok c" "bn_ok q" "bn_ok r"
  shows "\<exists>res. BN_div A False ctx (Some q) (Some r) n d = Some res \<and>
    (\<forall>q' r'. res = Some (q', r') \<longrightarrow> bn_int d \<noteq> 0 \<and> (\<exists>u v. q' = Some u \<and> r' = Some v \<and> bn_canonical u \<and> bn_canonical v \<and>
       bn_int u = bn_int n sdiv bn_int d \<and> bn_int v = bn_int n smod bn_int d)) \<and>
    (res = None \<and> (\<forall>k. A k \<noteq> None) \<and> (\<forall>c \<in> set (q # r # ctx). \<not> bn_static c) \<and> 4 \<le> length ctx \<and>
       bn_width n \<le> 1000000 \<and> bn_width d \<le> 1000000 \<longrightarrow> bn_int d = 0)"
proof -
  note r = BN_div_result [OF assms(1-3), of ctx "Some q" "Some r" False]
  obtain res where res: "BN_div A False ctx (Some q) (Some r) n d = Some res" using r assms(4-6) by fastforce
  show ?thesis
  proof (cases res)
    case None
    then show ?thesis using r assms(4-6) unfolding res by (auto simp: bn_int_zero_iff simp del: not_None_eq)
  next
    case (Some x)
    then show ?thesis using r assms(4-6) unfolding res
      by (cases x) (auto simp: bn_int_zero_iff intro!: signed_division signed_remainder)
  qed
qed

theorem BN_div_exact_witness:
  "\<exists>q r. BN_div zero_malloc False (replicate 4 BN_init) (Some BN_init) (Some BN_init) (sample_bn [7, 1] True) (sample_bn [2] False) =
     Some (Some (Some q, Some r)) \<and> bn_int q = - (2 ^ 63 + 3) \<and> bn_int r = - 1"
proof -
  let ?n = "sample_bn [7, 1] True" and ?d = "sample_bn [2] False" and ?ctx = "replicate 4 BN_init"
  have v: "bn_int ?n = - (2 ^ 64 + 7)" "bn_int ?d = 2" "bn_width ?n = 2" "bn_width ?d = 1" by (simp_all add: bn_int_def sample_bn radix_def)
  have c: "\<forall>c \<in> set ?ctx. bn_ok c" "\<forall>c \<in> set (BN_init # BN_init # ?ctx). \<not> bn_static c" using bn_init by simp_all
  obtain res where res: "BN_div zero_malloc False ?ctx (Some BN_init) (Some BN_init) ?n ?d = Some res" "res \<noteq> None"
      "\<And>q r. res = Some (q, r) \<Longrightarrow> \<exists>u v. q = Some u \<and> r = Some v \<and> bn_int u = bn_int ?n sdiv bn_int ?d \<and> bn_int v = bn_int ?n smod bn_int ?d"
    using BN_div_exact [OF zero_malloc(1) sample_bn(1) sample_bn(1) c(1) bn_init(1) bn_init(1), of "[7, 1]" True "[2]" False] zero_malloc(2) c(2) v
    by auto
  then obtain q r where "res = Some (q, r)" by auto
  with res show ?thesis by (auto simp: v signed_divide_int_def signed_modulo_int_def)
qed

lemma BN_div_shared_numerator:
  "\<exists>q r. BN_div zero_malloc True (replicate 4 BN_init) (Some (sample_bn [7] False)) (Some BN_init) (sample_bn [7] False) (sample_bn [2] True) =
     Some (Some (Some q, Some r)) \<and> bn_int q = - 3 \<and> bn_int r = - 1"
proof -
  let ?n = "sample_bn [7] False" and ?d = "sample_bn [2] True" and ?ctx = "replicate 4 BN_init"
  note r = BN_div_result [OF zero_malloc(1) sample_bn(1) sample_bn(1), of ?ctx "Some ?n" "Some BN_init" True "[7]" False "[2]" True]
  have v: "bn_abs ?n = 7" "bn_abs ?d = 2" "bn_width ?n = 1" "bn_width ?d = 1" by (simp_all add: sample_bn)
  obtain res where res: "BN_div zero_malloc True ?ctx (Some ?n) (Some BN_init) ?n ?d = Some res" using r bn_init sample_bn by fastforce
  have "res \<noteq> None"
    using r bn_init(1,3) zero_malloc(2) unfolding res by (cases res) (auto simp: v sample_bn(1,3) simp del: not_None_eq)
  then obtain q r where "res = Some (q, r)" by auto
  then obtain u w where q: "q = Some u" "r = Some w" "bn_abs u = 3" "bn_neg u" "bn_abs w = 1" "bn_neg w"
    using r bn_init(1) unfolding res by (auto simp: v sample_bn)
  then have "bn_int u = - 3" "bn_int w = - 1" by (simp_all add: bn_int_def)
  then show ?thesis using res \<open>res = Some (q, r)\<close> q(1,2) by blast
qed

end
