(* ===== verification/Bn_Reduce.thy ===== *)
theory Bn_Reduce
  imports Bn_Div
begin

text \<open>
  The constant-time part of \<^verbatim>\<open>fipsmodule/bn/div.c\<close>: reductions of words below twice the modulus, the sums and
  differences modulo a number that are built on them, and the binary long division. A routine on words returns the
  words it stores; \<^verbatim>\<open>num\<close> is the length of the lists.
\<close>

section \<open>Words\<close>

definition bn_reduce_once :: "limb list \<Rightarrow> limb \<Rightarrow> limb list \<Rightarrow> limb list \<times> limb" where
  "bn_reduce_once a carry m =
     (case bn_sub_words a m of (r, borrow) \<Rightarrow>
        let carry = carry - borrow in (bn_select_words carry a r, carry))"

definition bn_reduce_once_in_place :: "limb list \<Rightarrow> limb \<Rightarrow> limb list \<Rightarrow> limb list \<times> limb" where
  "bn_reduce_once_in_place r carry m =
     (case bn_sub_words r m of (tmp, borrow) \<Rightarrow>
        let carry = carry - borrow in (bn_select_words carry r tmp, carry))"

definition bn_mod_sub_words :: "limb list \<Rightarrow> limb list \<Rightarrow> limb list \<Rightarrow> limb list" where
  "bn_mod_sub_words a b m =
     (case bn_sub_words a b of (r, borrow) \<Rightarrow> bn_select_words (0 - borrow) (fst (bn_add_words r m)) r)"

definition bn_mod_add_words :: "limb list \<Rightarrow> limb list \<Rightarrow> limb list \<Rightarrow> limb list" where
  "bn_mod_add_words a b m = (case bn_add_words a b of (r, carry) \<Rightarrow> fst (bn_reduce_once_in_place r carry m))"

section \<open>Binary long division\<close>

text \<open>One bit of the numerator: the word \<open>i\<close> and the bit in it; the state is the quotient and the remainder.\<close>

definition div_bit :: "limb list \<Rightarrow> limb list \<Rightarrow> nat \<Rightarrow> nat \<Rightarrow> limb list \<times> limb list \<Rightarrow> limb list \<times> limb list" where
  "div_bit n d i b s =
     (case s of (q, r) \<Rightarrow>
      case bn_add_words r r of (r, carry) \<Rightarrow>
        let r = r[0 := r ! 0 OR (drop_bit b (n ! i) AND 1)]
        in case bn_reduce_once_in_place r carry d of (r, subtracted) \<Rightarrow>
             (q[i := q ! i OR push_bit b (NOT subtracted AND 1)], r))"

text \<open>The two loops over words and bits as one, \<open>k\<close> bits from the end.\<close>

fun div_bits :: "limb list \<Rightarrow> limb list \<Rightarrow> nat \<Rightarrow> limb list \<times> limb list \<Rightarrow> limb list \<times> limb list" where
  "div_bits n d 0 s = s"
| "div_bits n d (Suc k) s = div_bits n d k (div_bit n d (k div 64) (k mod 64) s)"

text \<open>\<open>ctx\<close> are the numbers that \<^verbatim>\<open>BN_CTX_get\<close> still returns, in order.\<close>

fun next_ctx :: "bignum list \<Rightarrow> bignum option \<times> bignum list" where
  "next_ctx [] = (None, [])"
| "next_ctx (x # ctx) = (Some x, ctx)"

text \<open>
  \<open>quot\<close> and \<open>rem\<close> are \<open>None\<close> for \<^verbatim>\<open>NULL\<close>; the flags with them say that they are operands, which a number of the
  context then replaces until the end.
\<close>

definition bn_div_consttime :: "allocator \<Rightarrow> bignum list \<Rightarrow> bignum option \<Rightarrow> bool \<Rightarrow> bignum option \<Rightarrow> bool \<Rightarrow> bignum \<Rightarrow> bignum \<Rightarrow>
    (bignum option \<times> bignum option) option" where
  "bn_div_consttime A ctx quot alq rem alr numerator divisor =
     (if BN_is_negative numerator \<or> BN_is_negative divisor then None
      else if BN_is_zero divisor then None
      else
        case (if quot = None \<or> alq then next_ctx ctx else (quot, ctx)) of (q, ctx) \<Rightarrow>
        case (if rem = None \<or> alr then next_ctx ctx else (rem, ctx)) of (r, ctx) \<Rightarrow>
        case next_ctx ctx of (tmp, ctx) \<Rightarrow>
        case (q, r, tmp) of
          (Some q, Some r, Some tmp) \<Rightarrow>
            (case bn_wexpand A q (bn_width numerator) of (None, _) \<Rightarrow> None | (Some _, q) \<Rightarrow>
             case bn_wexpand A r (bn_width divisor) of (None, _) \<Rightarrow> None | (Some _, r) \<Rightarrow>
             case bn_wexpand A tmp (bn_width divisor) of (None, _) \<Rightarrow> None | (Some _, tmp) \<Rightarrow>
             case div_bits (take (bn_width numerator) (bn_d numerator)) (take (bn_width divisor) (bn_d divisor)) (64 * bn_width numerator)
                    (replicate (bn_width numerator) 0, replicate (bn_width divisor) 0) of (qs, rs) \<Rightarrow>
             let q = q\<lparr>bn_d := store (bn_d q) 0 qs, bn_width := bn_width numerator, bn_neg := False\<rparr>;
                 r = r\<lparr>bn_d := store (bn_d r) 0 rs, bn_width := bn_width divisor, bn_neg := False\<rparr>
             in case (case quot of None \<Rightarrow> Some None
                      | Some quot \<Rightarrow> if alq then (case BN_copy A quot q of (None, _) \<Rightarrow> None | (Some _, quot) \<Rightarrow> Some (Some quot)) else Some (Some q)) of
                  None \<Rightarrow> None
                | Some q' \<Rightarrow>
                    (case (case rem of None \<Rightarrow> Some None
                           | Some rem \<Rightarrow> if alr then (case BN_copy A rem r of (None, _) \<Rightarrow> None | (Some _, rem) \<Rightarrow> Some (Some rem)) else Some (Some r)) of
                       None \<Rightarrow> None
                     | Some r' \<Rightarrow> Some (q', r')))
        | _ \<Rightarrow> None)"

section \<open>Sums and differences modulo a number\<close>

definition bn_scratch_space_from_ctx :: "allocator \<Rightarrow> nat \<Rightarrow> bignum list \<Rightarrow> bignum option \<times> bignum list" where
  "bn_scratch_space_from_ctx A width ctx =
     (case next_ctx ctx of
        (None, ctx) \<Rightarrow> (None, ctx)
      | (Some ret, ctx) \<Rightarrow>
          (case bn_wexpand A ret width of
             (None, _) \<Rightarrow> (None, ctx)
           | (Some _, ret) \<Rightarrow> (Some (ret\<lparr>bn_neg := False, bn_width := width\<rparr>), ctx)))"

definition bn_resized_from_ctx :: "allocator \<Rightarrow> bignum \<Rightarrow> nat \<Rightarrow> bignum list \<Rightarrow> bignum option \<times> bignum list" where
  "bn_resized_from_ctx A bn width ctx =
     (if bn_width bn \<ge> width then (Some bn, ctx)
      else
        case bn_scratch_space_from_ctx A width ctx of
          (None, ctx) \<Rightarrow> (None, ctx)
        | (Some ret, ctx) \<Rightarrow>
            (case andthen (BN_copy A ret bn) (\<lambda>_ ret. bn_resize_words A ret width) of
               (None, _) \<Rightarrow> (None, ctx)
             | (Some _, ret) \<Rightarrow> (Some ret, ctx)))"

definition mod_words_consttime :: "(limb list \<Rightarrow> limb list \<Rightarrow> limb list \<Rightarrow> limb list) \<Rightarrow>
    allocator \<Rightarrow> bignum list \<Rightarrow> bignum \<Rightarrow> bignum \<Rightarrow> bignum \<Rightarrow> bignum \<Rightarrow> unit option \<times> bignum" where
  "mod_words_consttime f A ctx r a b m =
     (case bn_resized_from_ctx A a (bn_width m) ctx of (a, ctx) \<Rightarrow>
      case bn_resized_from_ctx A b (bn_width m) ctx of (b, ctx) \<Rightarrow>
      case bn_scratch_space_from_ctx A (bn_width m) ctx of (tmp, ctx) \<Rightarrow>
      case (a, b, tmp) of
        (Some a, Some b, Some tmp) \<Rightarrow>
          andthen (bn_wexpand A r (bn_width m)) (\<lambda>_ r.
            let w = bn_width m; ws = f (take w (bn_d a)) (take w (bn_d b)) (take w (bn_d m))
            in (Some (), r\<lparr>bn_d := store (bn_d r) 0 ws, bn_width := w, bn_neg := False\<rparr>))
      | _ \<Rightarrow> (None, r))"

definition bn_mod_add_consttime :: "allocator \<Rightarrow> bignum list \<Rightarrow> bignum \<Rightarrow> bignum \<Rightarrow> bignum \<Rightarrow> bignum \<Rightarrow> unit option \<times> bignum" where
  "bn_mod_add_consttime = mod_words_consttime bn_mod_add_words"

definition bn_mod_sub_consttime :: "allocator \<Rightarrow> bignum list \<Rightarrow> bignum \<Rightarrow> bignum \<Rightarrow> bignum \<Rightarrow> bignum \<Rightarrow> unit option \<times> bignum" where
  "bn_mod_sub_consttime = mod_words_consttime bn_mod_sub_words"

definition bn_mod_lshift1_consttime :: "allocator \<Rightarrow> bignum list \<Rightarrow> bignum \<Rightarrow> bignum \<Rightarrow> bignum \<Rightarrow> unit option \<times> bignum" where
  "bn_mod_lshift1_consttime A ctx r a m = bn_mod_add_consttime A ctx r a a m"

text \<open>The doublings; \<open>ctx i\<close> is what the context returns when \<open>i\<close> doublings remain.\<close>

fun mod_lshift_loop :: "allocator \<Rightarrow> (nat \<Rightarrow> bignum list) \<Rightarrow> nat \<Rightarrow> bignum \<Rightarrow> bignum \<Rightarrow> unit option \<times> bignum" where
  "mod_lshift_loop A ctx 0 r m = (Some (), r)"
| "mod_lshift_loop A ctx (Suc i) r m = andthen (bn_mod_lshift1_consttime A (ctx i) r r m) (\<lambda>_ r. mod_lshift_loop A ctx i r m)"

definition bn_mod_lshift_consttime :: "allocator \<Rightarrow> (nat \<Rightarrow> bignum list) \<Rightarrow> bignum \<Rightarrow> bignum \<Rightarrow> int \<Rightarrow> bignum \<Rightarrow> unit option \<times> bignum" where
  "bn_mod_lshift_consttime A ctx r a n m = andthen (BN_copy A r a) (\<lambda>_ r. mod_lshift_loop A ctx (nat n) r m)"

text \<open>The versions with a context of their own, \<open>None\<close> when \<^verbatim>\<open>BN_CTX_new\<close> fails.\<close>

definition BN_mod_add_quick :: "allocator \<Rightarrow> bignum list option \<Rightarrow> bignum \<Rightarrow> bignum \<Rightarrow> bignum \<Rightarrow> bignum \<Rightarrow> unit option \<times> bignum" where
  "BN_mod_add_quick A ctx r a b m = (case ctx of None \<Rightarrow> (None, r) | Some ctx \<Rightarrow> bn_mod_add_consttime A ctx r a b m)"

definition BN_mod_sub_quick :: "allocator \<Rightarrow> bignum list option \<Rightarrow> bignum \<Rightarrow> bignum \<Rightarrow> bignum \<Rightarrow> bignum \<Rightarrow> unit option \<times> bignum" where
  "BN_mod_sub_quick A ctx r a b m = (case ctx of None \<Rightarrow> (None, r) | Some ctx \<Rightarrow> bn_mod_sub_consttime A ctx r a b m)"

definition BN_mod_lshift_quick :: "allocator \<Rightarrow> (nat \<Rightarrow> bignum list) option \<Rightarrow> bignum \<Rightarrow> bignum \<Rightarrow> int \<Rightarrow> bignum \<Rightarrow> unit option \<times> bignum" where
  "BN_mod_lshift_quick A ctx r a n m = (case ctx of None \<Rightarrow> (None, r) | Some ctx \<Rightarrow> bn_mod_lshift_consttime A ctx r a n m)"

definition BN_mod_lshift1_quick :: "allocator \<Rightarrow> bignum list option \<Rightarrow> bignum \<Rightarrow> bignum \<Rightarrow> bignum \<Rightarrow> unit option \<times> bignum" where
  "BN_mod_lshift1_quick A ctx r a m = (case ctx of None \<Rightarrow> (None, r) | Some ctx \<Rightarrow> bn_mod_lshift1_consttime A ctx r a m)"

section \<open>Reductions\<close>

text \<open>A number of at most one word more than the modulus, below twice the modulus.\<close>

lemma reduce_once:
  assumes l: "length r = n" "length m = n" and lt: "bn_val r + radix ^ n * uint c < 2 * bn_val m"
    and res: "bn_reduce_once_in_place r c m = (x, c')"
  defines "R \<equiv> bn_val r + radix ^ n * uint c"
  shows "length x = n" "bn_val x = (if R < bn_val m then R else R - bn_val m)" "c' = mask_of (R < bn_val m)"
proof -
  obtain tmp b where s: "bn_sub_words r m = (tmp, b)" by (rule prod.exhaust)
  have v: "length tmp = n" "uint b \<le> 1" "bn_val tmp - radix ^ n * uint b = bn_val r - bn_val m"
    using bn_sub_words_val [OF s] l by simp_all
  have x: "x = bn_select_words (c - b) r tmp" "c' = c - b" using res s by (auto simp: bn_reduce_once_in_place_def Let_def)
  have m: "bn_val m < radix ^ n" "bn_val r < radix ^ n" "bn_val tmp < radix ^ n" "0 \<le> bn_val tmp" "0 \<le> bn_val r"
    using bn_val_bound [of m] bn_val_bound [of r] bn_val_bound [of tmp] l v(1) by simp_all
  have e: "R - bn_val m = bn_val tmp + radix ^ n * (uint c - uint b)" using v(3) by (simp add: R_def algebra_simps)
  have P: "0 < radix ^ n" by simp
  have cb: "uint c - uint b = (if R < bn_val m then - 1 else 0)"
  proof -
    have lo: "- (radix ^ n) \<le> R - bn_val m" proof -
      have "0 \<le> radix ^ n * uint c" by simp
      then show ?thesis using m(1,5) unfolding R_def by linarith
    qed
    have hi: "R - bn_val m < radix ^ n" using lt m(1) unfolding R_def by linarith
    have "(R - bn_val m) div radix ^ n = uint c - uint b" unfolding e using m(3,4) by simp
    moreover have "(R - bn_val m) div radix ^ n = 0" if "\<not> R < bn_val m" using that hi by simp
    moreover have "(R - bn_val m) div radix ^ n = - 1" if "R < bn_val m"
      using that lo by (intro int_div_pos_eq [of _ _ _ "R - bn_val m + radix ^ n"]) simp_all
    ultimately show ?thesis by auto
  qed
  have "c - b = mask_of (R < bn_val m)"
  proof (cases "R < bn_val m")
    case True
    then have "uint c = uint b - 1" using cb by simp
    then have "uint c = 0" "uint b = 1" using uint_limb(1) [of c] v(2) by linarith+
    then have "c = 0" "b = 1" by (metis unsigned_0 unsigned_1 unsigned_word_eqI)+
    then show ?thesis using True by (simp add: mask_of_def)
  next
    case False
    then have "c = b" using cb by (intro unsigned_word_eqI) simp
    then show ?thesis using False by (simp add: mask_of_def)
  qed
  then show "c' = mask_of (R < bn_val m)" by (simp add: x(2))
  have "x = (if R < bn_val m then r else tmp)"
    unfolding x(1) \<open>c - b = _\<close> using l v(1) by (intro bn_select_words_mask) simp
  moreover have "bn_val tmp = R - bn_val m" if "\<not> R < bn_val m" using e cb that by simp
  moreover have "bn_val r = R" if "R < bn_val m"
  proof -
    have "uint c = uint b - 1" using cb that by simp
    then have "uint c = 0" using uint_limb(1) [of c] v(2) by linarith
    then show ?thesis by (simp add: R_def)
  qed
  ultimately show "length x = n" "bn_val x = (if R < bn_val m then R else R - bn_val m)" using l v(1) by simp_all
qed

lemma reduce_once_in_place: "bn_reduce_once = bn_reduce_once_in_place"
  by (intro ext) (simp add: bn_reduce_once_def bn_reduce_once_in_place_def)

lemma add_mod_below: "0 \<le> a \<Longrightarrow> a < m \<Longrightarrow> 0 \<le> b \<Longrightarrow> b < m \<Longrightarrow> (a + b) mod m = (if a + b < m then a + b else a + b - m)" for a b m :: int
  using int_mod_pos_eq [of "a + b" m 1 "a + b - m"] by simp

lemma bn_mod_add_words_val:
  assumes l: "length a = length m" "length b = length m" and lt: "bn_val a < bn_val m" "bn_val b < bn_val m"
  shows "length (bn_mod_add_words a b m) = length m" "bn_val (bn_mod_add_words a b m) = (bn_val a + bn_val b) mod bn_val m"
proof -
  obtain r c where a: "bn_add_words a b = (r, c)" by (rule prod.exhaust)
  obtain x c' where x: "bn_reduce_once_in_place r c m = (x, c')" by (rule prod.exhaust)
  have v: "length r = length m" "bn_val r + radix ^ length m * uint c = bn_val a + bn_val b" using bn_add_words_val [OF a] l by simp_all
  have R: "bn_val r + radix ^ length m * uint c < 2 * bn_val m" unfolding v(2) using lt by linarith
  note y = reduce_once [OF v(1) refl R x, unfolded v(2)]
  have "bn_mod_add_words a b m = x" by (simp add: bn_mod_add_words_def a x)
  moreover have "(bn_val a + bn_val b) mod bn_val m = (if bn_val a + bn_val b < bn_val m then bn_val a + bn_val b else bn_val a + bn_val b - bn_val m)"
    using add_mod_below [of "bn_val a" "bn_val m" "bn_val b"] lt by simp
  ultimately show "length (bn_mod_add_words a b m) = length m" "bn_val (bn_mod_add_words a b m) = (bn_val a + bn_val b) mod bn_val m"
    using y(1,2) by simp_all
qed

lemma bn_mod_sub_words_val:
  assumes l: "length a = length m" "length b = length m" and lt: "bn_val a < bn_val m" "bn_val b < bn_val m"
  shows "length (bn_mod_sub_words a b m) = length m" "bn_val (bn_mod_sub_words a b m) = (bn_val a - bn_val b) mod bn_val m"
proof -
  obtain r c where s: "bn_sub_words a b = (r, c)" by (rule prod.exhaust)
  obtain t u where t: "bn_add_words r m = (t, u)" by (rule prod.exhaust)
  have v: "length r = length m" "uint c \<le> 1" "bn_val r - radix ^ length m * uint c = bn_val a - bn_val b" using bn_sub_words_val [OF s] l by simp_all
  have w: "length t = length m" "bn_val t + radix ^ length m * uint u = bn_val r + bn_val m" using bn_add_words_val [OF t v(1)] v(1) by simp_all
  have b: "0 \<le> bn_val a" "0 \<le> bn_val b" "bn_val r < radix ^ length m" "0 \<le> bn_val r" "bn_val m < radix ^ length m" "bn_val t < radix ^ length m" "0 \<le> bn_val t"
    using bn_val_bound [of r] bn_val_bound [of m] bn_val_bound [of t] v(1) w(1) by simp_all
  have c01: "uint c = 0 \<or> uint c = 1" using v(2) uint_limb(1) [of c] by linarith
  show "length (bn_mod_sub_words a b m) = length m" "bn_val (bn_mod_sub_words a b m) = (bn_val a - bn_val b) mod bn_val m"
  proof -
    have "length (bn_mod_sub_words a b m) = length m \<and> bn_val (bn_mod_sub_words a b m) = (bn_val a - bn_val b) mod bn_val m"
    proof (cases "uint c = 0")
      case True
      then have "c = 0" by (simp add: unsigned_eq_0_iff)
      then have "bn_mod_sub_words a b m = r"
        using bn_select_words_mask [of t r False] v(1) w(1) by (simp add: bn_mod_sub_words_def s t mask_of_def)
      moreover have "bn_val r = bn_val a - bn_val b" using v(3) True by simp
      moreover from this have "(bn_val a - bn_val b) mod bn_val m = bn_val a - bn_val b"
        using b(2,4) lt(1) by (intro mod_pos_pos_trivial) linarith+
      ultimately show ?thesis using v(1) by simp
    next
      case False
      then have u1: "uint c = 1" using c01 by simp
      then have "c = 1" by (metis unsigned_1 unsigned_word_eqI)
      then have e: "bn_mod_sub_words a b m = t"
        using bn_select_words_mask [of t r True] v(1) w(1) by (simp add: bn_mod_sub_words_def s t mask_of_def)
      have r: "bn_val r = bn_val a - bn_val b + radix ^ length m" using v(3) u1 by simp
      have "uint u = (bn_val t + radix ^ length m * uint u) div radix ^ length m" using b(6,7) by simp
      also have "\<dots> = 1" unfolding w(2) r using b(1,5) lt(2) r b(3)
        by (intro int_div_pos_eq [of _ _ _ "bn_val a - bn_val b + bn_val m"]) (simp, linarith+)
      finally have "bn_val t = bn_val a - bn_val b + bn_val m" using w(2) r by simp
      moreover have "(bn_val a - bn_val b) mod bn_val m = bn_val a - bn_val b + bn_val m"
        using b(1) lt(2) r b(3) by (intro int_mod_pos_eq [of _ _ "- 1"]) (simp, linarith+)
      ultimately show ?thesis using e w(1) by simp
    qed
    then show "length (bn_mod_sub_words a b m) = length m" "bn_val (bn_mod_sub_words a b m) = (bn_val a - bn_val b) mod bn_val m" by simp_all
  qed
qed

section \<open>Bits\<close>

lemma bn_val_set_bit:
  assumes "k div 64 < length q" "\<not> bit (bn_val q) k"
  shows "bn_val (q[k div 64 := q ! (k div 64) OR push_bit (k mod 64) 1]) = bn_val q + 2 ^ k"
proof -
  have "bn_val (q[k div 64 := q ! (k div 64) OR push_bit (k mod 64) 1]) = Bit_Operations.set_bit k (bn_val q)"
  proof (rule bn_val_bitI)
    fix n
    assume n: "n div 64 < length (q[k div 64 := q ! (k div 64) OR push_bit (k mod 64) 1])"
    have e: "n = k \<longleftrightarrow> n div 64 = k div 64 \<and> n mod 64 = k mod 64" by (metis div_mult_mod_eq)
    show "bit (q[k div 64 := q ! (k div 64) OR push_bit (k mod 64) 1] ! (n div 64)) (n mod 64) \<longleftrightarrow> bit (Bit_Operations.set_bit k (bn_val q)) n"
      using n bit_or_single [of "k mod 64" "n mod 64" "q ! (k div 64)"] e
      by (cases "n div 64 = k div 64") (auto simp: bit_set_bit_iff bit_bn_val)
  next
    fix n
    assume "\<not> n div 64 < length (q[k div 64 := q ! (k div 64) OR push_bit (k mod 64) 1])"
    then show "\<not> bit (Bit_Operations.set_bit k (bn_val q)) n" using assms(1) by (auto simp: bit_set_bit_iff bit_bn_val)
  qed
  then show ?thesis using assms(2) by (simp add: set_bit_eq)
qed

lemma bit_select: "drop_bit b w AND 1 = (of_bool (bit w b) :: limb)"
  by (simp add: and_one_eq mod_2_eq_odd bit_iff_odd_drop_bit)

lemma div_pow2_step: "(N :: int) div 2 ^ k = 2 * (N div 2 ^ Suc k) + of_bool (bit N k)"
  unfolding power_Suc2 div_mult_self_is_m using div_mult_mod_eq [of "N div 2 ^ k" 2]
  by (simp add: bit_iff_odd zdiv_zmult2_eq mod_2_eq_odd)

lemma div_bit:
  assumes l: "length q = length n" "length r = length d" and k: "k < 64 * length n"
    and r: "bn_val r = bn_val n div 2 ^ Suc k mod bn_val d" and q: "bn_val q = bn_val n div 2 ^ Suc k div bn_val d * 2 ^ Suc k"
    and D: "0 < bn_val d" and s: "div_bit n d (k div 64) (k mod 64) (q, r) = (q', r')"
  shows "length q' = length n" "length r' = length d" "bn_val r' = bn_val n div 2 ^ k mod bn_val d"
    "bn_val q' = bn_val n div 2 ^ k div bn_val d * 2 ^ k"
proof -
  define i b where "i = k div 64" and "b = k mod 64"
  have i: "i < length n" using k by (simp add: i_def div_less_iff_less_mult)
  define x where "x = (of_bool (bit (bn_val n) k) :: int)"
  define M where "M = bn_val n div 2 ^ Suc k"
  have M: "bn_val n div 2 ^ k = 2 * M + x" unfolding M_def x_def by (rule div_pow2_step)
  have d: "d \<noteq> []" using D by auto
  obtain r1 c where a: "bn_add_words r r = (r1, c)" by (rule prod.exhaust)
  have v1: "length r1 = length d" "bn_val r1 + radix ^ length d * uint c = 2 * bn_val r" using bn_add_words_val [OF a] l(2) by simp_all
  have "even (radix ^ length d * uint c)" using d by (simp add: radix_def)
  then have ev: "\<not> bit (bn_val r1) 0" using v1(2) by (metis bit_0 dvd_add_left_iff dvd_triv_left)
  define r2 where "r2 = r1[0 := r1 ! 0 OR (drop_bit b (n ! i) AND 1)]"
  have sel: "drop_bit b (n ! i) AND 1 = of_bool (bit (bn_val n) k)" using i by (simp add: bit_select bit_bn_val i_def b_def)
  have v2: "length r2 = length d" "bn_val r2 = bn_val r1 + x"
    using bn_val_set_bit [of 0 r1] ev v1(1) d by (cases "bit (bn_val n) k"; simp add: r2_def sel x_def)+
  obtain r3 sb where c: "bn_reduce_once_in_place r2 c d = (r3, sb)" by (rule prod.exhaust)
  have T: "bn_val r2 + radix ^ length d * uint c = 2 * (M mod bn_val d) + x" using v1(2) v2(2) r by (simp add: M_def)
  have R: "0 \<le> M mod bn_val d" "M mod bn_val d < bn_val d" using D by simp_all
  have x: "0 \<le> x" "x \<le> 1" by (simp_all add: x_def)
  have "bn_val r2 + radix ^ length d * uint c < 2 * bn_val d" unfolding T using R x by linarith
  note w = reduce_once [OF v2(1) refl this c, unfolded T]
  have s': "r' = r3" "q' = q[i := q ! i OR push_bit b (NOT sb AND 1)]"
    using s by (simp_all add: div_bit_def a c Let_def flip: r2_def i_def b_def)
  define T where "T = 2 * (M mod bn_val d) + x"
  define y where "y = (of_bool (\<not> T < bn_val d) :: int)"
  have dm: "2 * M + x = (2 * (M div bn_val d) + y) * bn_val d + bn_val r3"
  proof -
    have M2: "2 * M = 2 * (M div bn_val d) * bn_val d + 2 * (M mod bn_val d)" using div_mult_mod_eq [of M "bn_val d"] by linarith
    show ?thesis
    proof (cases "T < bn_val d")
      case True
      then have y: "y = 0" "bn_val r3 = T" using w(2) by (simp_all add: y_def T_def)
      then show ?thesis using M2 unfolding y T_def by simp
    next
      case False
      then have y: "y = 1" "bn_val r3 = T - bn_val d" using w(2) by (simp_all add: y_def T_def)
      then show ?thesis using M2 unfolding y T_def distrib_right by simp
    qed
  qed
  have r3: "bn_val r3 < bn_val d"
  proof (cases "2 * (M mod bn_val d) + x < bn_val d")
    case True
    then show ?thesis unfolding w(2) if_P [OF True] .
  next
    case False
    then show ?thesis using R(2) x(2) unfolding w(2) if_not_P [OF False] by linarith
  qed
  have dv: "(2 * M + x) div bn_val d = 2 * (M div bn_val d) + y" "(2 * M + x) mod bn_val d = bn_val r3"
    using r3 dm by (intro int_div_pos_eq [of _ _ _ "bn_val r3"] int_mod_pos_eq [of _ _ "2 * (M div bn_val d) + y"]; simp)+
  show "length r' = length d" using w(1) s'(1) by simp
  show "bn_val r' = bn_val n div 2 ^ k mod bn_val d" using dv(2) s'(1) M by simp
  show "length q' = length n" using s'(2) l(1) by simp
  have nb: "\<not> bit (bn_val q) k"
  proof -
    have "bn_val q = push_bit (Suc k) (M div bn_val d)" using q by (simp add: push_bit_eq_mult M_def)
    then show ?thesis by (simp add: bit_push_bit_iff bit_0)
  qed
  have "NOT sb AND 1 = (of_bool (\<not> T < bn_val d) :: limb)"
    unfolding w(3) T_def [symmetric] by (cases "T < bn_val d") (simp_all add: mask_of_def)
  then have "bn_val q' = bn_val q + y * 2 ^ k"
    using bn_val_set_bit [of k q] nb i l(1) unfolding s'(2) by (cases "T < bn_val d") (simp_all add: y_def i_def b_def)
  then show "bn_val q' = bn_val n div 2 ^ k div bn_val d * 2 ^ k" unfolding M dv(1) q by (simp add: M_def algebra_simps)
qed

lemma div_bits:
  assumes "0 < bn_val d"
  shows "length q = length n \<Longrightarrow> length r = length d \<Longrightarrow> k \<le> 64 * length n \<Longrightarrow>
    bn_val r = bn_val n div 2 ^ k mod bn_val d \<Longrightarrow> bn_val q = bn_val n div 2 ^ k div bn_val d * 2 ^ k \<Longrightarrow>
    \<exists>q' r'. div_bits n d k (q, r) = (q', r') \<and> length q' = length n \<and> length r' = length d \<and>
      bn_val q' = bn_val n div bn_val d \<and> bn_val r' = bn_val n mod bn_val d"
proof (induction k arbitrary: q r)
  case (Suc k)
  obtain q' r' where s: "div_bit n d (k div 64) (k mod 64) (q, r) = (q', r')" by (rule prod.exhaust)
  from div_bit [OF Suc.prems(1,2) _ Suc.prems(4,5) assms s] Suc.prems(3) show ?case using Suc.IH [of q' r'] s by simp
qed simp

lemma div_bits_exact:
  assumes "0 < bn_val d"
  shows "\<exists>q r. div_bits n d (64 * length n) (replicate (length n) 0, replicate (length d) 0) = (q, r) \<and> length q = length n \<and> length r = length d \<and>
      bn_val q = bn_val n div bn_val d \<and> bn_val r = bn_val n mod bn_val d"
proof (rule div_bits [OF assms])
  have "bn_val n div 2 ^ (64 * length n) = 0" using bn_val_bound [of n] by (simp add: radix_power [symmetric])
  then show "bn_val (replicate (length d) 0) = bn_val n div 2 ^ (64 * length n) mod bn_val d"
    "bn_val (replicate (length n) 0) = bn_val n div 2 ^ (64 * length n) div bn_val d * 2 ^ (64 * length n)" by simp_all
qed simp_all

section \<open>Numbers\<close>

lemma bn_words_stored:
  assumes d: "bn_wexpand A r n = (Some u, d)" and A: "malloc_spec A" and ok: "bn_ok r" and l: "length ws = n"
  shows "bn_ok (d\<lparr>bn_d := store (bn_d d) 0 ws, bn_width := n, bn_neg := s\<rparr>)"
    "bn_limbs (d\<lparr>bn_d := store (bn_d d) 0 ws, bn_width := n, bn_neg := s\<rparr>) = ws"
    "bn_abs (d\<lparr>bn_d := store (bn_d d) 0 ws, bn_width := n, bn_neg := s\<rparr>) = bn_val ws"
    "bn_int (d\<lparr>bn_d := store (bn_d d) 0 ws, bn_width := n, bn_neg := s\<rparr>) = (if s then - bn_val ws else bn_val ws)"
  using bn_stored(1,2) [of ws d s] bn_wexpand_Some(2) [OF d A ok] l by (cases s; simp add: bn_abs_def bn_int_def)+

lemma next_ctx_in: "next_ctx ctx = (Some x, ctx') \<Longrightarrow> x \<in> set ctx \<and> set ctx' \<subseteq> set ctx" "next_ctx ctx = (o', ctx') \<Longrightarrow> set ctx' \<subseteq> set ctx"
  by (cases ctx; auto)+

lemma bn_div_consttime_Some:
  assumes A: "malloc_spec A" and ok: "bn_ok n" "bn_ok d" "\<And>c. c \<in> set ctx \<Longrightarrow> bn_ok c" "\<And>q. quot = Some q \<Longrightarrow> bn_ok q" "\<And>r. rem = Some r \<Longrightarrow> bn_ok r"
    and res: "bn_div_consttime A ctx quot alq rem alr n d = Some (q', r')"
  shows "\<not> bn_neg n \<and> \<not> bn_neg d \<and> bn_abs d \<noteq> 0 \<and>
    (case quot of None \<Rightarrow> q' = None | Some _ \<Rightarrow> \<exists>q. q' = Some q \<and> bn_ok q \<and> bn_int q = bn_int n div bn_int d \<and> bn_width q = bn_width n) \<and>
    (case rem of None \<Rightarrow> r' = None | Some _ \<Rightarrow> \<exists>r. r' = Some r \<and> bn_ok r \<and> bn_int r = bn_int n mod bn_int d \<and> bn_width r = bn_width d)"
proof -
  have g: "\<not> (BN_is_negative n \<or> BN_is_negative d)" "\<not> BN_is_zero d" using res by (auto simp: bn_div_consttime_def split: if_splits)
  then have D: "\<not> bn_neg n" "\<not> bn_neg d" "bn_abs d \<noteq> 0" using bn_is_zero [OF ok(2)] by (auto simp: BN_is_negative_def)
  then have Dp: "0 < bn_val (bn_limbs d)" using bn_abs_nonneg [of d] unfolding bn_abs_def by linarith
  obtain qo c1 where 1: "(if quot = None \<or> alq then next_ctx ctx else (quot, ctx)) = (qo, c1)" by (rule prod.exhaust)
  obtain ro c2 where 2: "(if rem = None \<or> alr then next_ctx c1 else (rem, c1)) = (ro, c2)" by (rule prod.exhaust)
  obtain t c3 where 3: "next_ctx c2 = (t, c3)" by (rule prod.exhaust)
  note r1 = res [unfolded bn_div_consttime_def if_not_P [OF g(1)] if_not_P [OF g(2)] 1 prod.case 2 3]
  then obtain q0 r0 t0 where some: "qo = Some q0" "ro = Some r0" "t = Some t0" by (auto split: option.splits)
  have c1: "set c1 \<subseteq> set ctx" "bn_ok q0"
    using 1 ok(3,4) some(1) next_ctx_in by (auto split: if_splits dest!: next_ctx_in)
  have c2: "bn_ok r0"
    using 2 ok(3,5) c1(1) some(2) by (auto split: if_splits dest!: next_ctx_in(1))
  from r1 obtain q1 where q1: "bn_wexpand A q0 (bn_width n) = (Some (), q1)"
    unfolding some by (cases "bn_wexpand A q0 (bn_width n)") (auto split: option.splits)
  note r2 = r1 [unfolded some prod.case option.case q1]
  then obtain r1' where rr: "bn_wexpand A r0 (bn_width d) = (Some (), r1')" by (cases "bn_wexpand A r0 (bn_width d)") (auto split: option.splits)
  note r3 = r2 [unfolded rr prod.case option.case]
  then obtain t1 where tt: "bn_wexpand A t0 (bn_width d) = (Some (), t1)" by (cases "bn_wexpand A t0 (bn_width d)") (auto split: option.splits)
  obtain qs rs where b: "div_bits (bn_limbs n) (bn_limbs d) (64 * bn_width n) (replicate (bn_width n) 0, replicate (bn_width d) 0) = (qs, rs)"
      "length qs = bn_width n" "length rs = bn_width d" "bn_val qs = bn_abs n div bn_abs d" "bn_val rs = bn_abs n mod bn_abs d"
    using div_bits_exact [OF Dp, of "bn_limbs n"] ok(1,2) by (auto simp: bn_abs_def)
  define q2 where "q2 = q1\<lparr>bn_d := store (bn_d q1) 0 qs, bn_width := bn_width n, bn_neg := False\<rparr>"
  define r2' where "r2' = r1'\<lparr>bn_d := store (bn_d r1') 0 rs, bn_width := bn_width d, bn_neg := False\<rparr>"
  note r4 = r3 [unfolded tt prod.case option.case, folded bn_limbs_def, unfolded b(1) prod.case Let_def, folded q2_def r2'_def]
  have v: "bn_ok q2" "bn_int q2 = bn_int n div bn_int d" "bn_width q2 = bn_width n" "bn_ok r2'" "bn_int r2' = bn_int n mod bn_int d" "bn_width r2' = bn_width d"
    using bn_words_stored [OF q1 A c1(2) b(2), of False] bn_words_stored [OF rr A c2 b(3), of False] b(4,5) D(1,2)
    by (simp_all add: q2_def r2'_def bn_int_def)
  have q: "case quot of None \<Rightarrow> q' = None | Some _ \<Rightarrow> \<exists>q. q' = Some q \<and> bn_ok q \<and> bn_int q = bn_int n div bn_int d \<and> bn_width q = bn_width n"
    using r4 v(1-3) BN_copy_Some [OF _ A ok(4) v(1)] by (fastforce split: option.splits if_splits prod.splits)
  have r: "case rem of None \<Rightarrow> r' = None | Some _ \<Rightarrow> \<exists>r. r' = Some r \<and> bn_ok r \<and> bn_int r = bn_int n mod bn_int d \<and> bn_width r = bn_width d"
    using r4 v(4-6) BN_copy_Some [OF _ A ok(5) v(4)] by (fastforce split: option.splits if_splits prod.splits)
  show ?thesis using D q r by blast
qed

lemma bn_scratch_space_from_ctx:
  "bn_scratch_space_from_ctx A w ctx = (o', ctx') \<Longrightarrow> set ctx' \<subseteq> set ctx"
  "malloc_spec A \<Longrightarrow> (\<And>c. c \<in> set ctx \<Longrightarrow> bn_ok c) \<Longrightarrow> bn_scratch_space_from_ctx A w ctx = (Some r, ctx') \<Longrightarrow> bn_ok r \<and> bn_width r = w"
  by (cases ctx; auto simp: bn_scratch_space_from_ctx_def bn_ok_def split: option.splits prod.splits dest!: bn_wexpand_Some(2))+

lemma bn_resize_words_Some:
  assumes "bn_resize_words A a n = (Some u, r)" and A: "malloc_spec A" and ok: "bn_ok a" "bn_width a \<le> n"
  shows "bn_ok r" "bn_width r = n" "bn_abs r = bn_abs a" "bn_neg r = bn_neg a"
proof -
  obtain d where d: "bn_wexpand A a n = (Some (), d)"
      "r = d\<lparr>bn_d := store (bn_d d) (bn_width d) (replicate (n - bn_width d) 0), bn_width := n\<rparr>"
    using assms(1) ok(2) by (auto simp: bn_resize_words_def elim!: andthen_SomeE)
  note x = bn_wexpand_Some [OF d(1) A ok(1)]
  have w: "bn_width a + length (replicate (n - bn_width a) (0 :: limb)) = n" using ok(2) by simp
  show "bn_ok r" "bn_width r = n" "bn_neg r = bn_neg a" using x ok(2) unfolding d(2) by (simp_all add: bn_ok_def)
  have "bn_limbs r = take (bn_width a + length (replicate (n - bn_width a) (0 :: limb))) (store (bn_d d) (bn_width a) (replicate (n - bn_width a) 0))"
    unfolding w d(2) x(4) by (simp add: bn_limbs_def)
  also have "\<dots> = bn_limbs a @ replicate (n - bn_width a) 0"
    using x(2,3,4) ok(2) by (subst take_store_upto) (simp_all add: bn_limbs_def)
  finally show "bn_abs r = bn_abs a" by (simp add: bn_abs_def bn_val_pad)
qed

text \<open>The low words of a number that fits, and of the copy that replaces a shorter one.\<close>

lemma low_words: "bn_ok a \<Longrightarrow> w \<le> bn_width a \<Longrightarrow> bn_abs a < radix ^ w \<Longrightarrow> length (take w (bn_d a)) = w \<and> bn_val (take w (bn_d a)) = bn_abs a"
  using bn_val_take [of "bn_limbs a" w] by (simp add: bn_abs_def bn_limbs_def bn_ok_def min_def)

lemma bn_resized_from_ctx:
  assumes A: "malloc_spec A" and ok: "bn_ok a" "\<And>c. c \<in> set ctx \<Longrightarrow> bn_ok c" and lt: "bn_abs a < radix ^ w"
    and r: "bn_resized_from_ctx A a w ctx = (o', ctx')"
  shows "set ctx' \<subseteq> set ctx" "o' = Some b \<Longrightarrow> length (take w (bn_d b)) = w \<and> bn_val (take w (bn_d b)) = bn_abs a"
proof -
  have "set ctx' \<subseteq> set ctx \<and> (o' = Some b \<longrightarrow> length (take w (bn_d b)) = w \<and> bn_val (take w (bn_d b)) = bn_abs a)"
  proof (cases "bn_width a \<ge> w")
    case True
    then show ?thesis using r low_words [OF ok(1) True lt] by (auto simp: bn_resized_from_ctx_def)
  next
    case False
    obtain s c where s: "bn_scratch_space_from_ctx A w ctx = (s, c)" by (rule prod.exhaust)
    note c = bn_scratch_space_from_ctx(1) [OF s]
    show ?thesis
    proof (cases "o' = Some b")
      case True
      then obtain t where t: "s = Some t" using r False s by (cases s) (auto simp: bn_resized_from_ctx_def)
      have t_ok: "bn_ok t" using bn_scratch_space_from_ctx(2) [OF A ok(2)] s t by blast
      have "andthen (BN_copy A t a) (\<lambda>_ ret. bn_resize_words A ret w) = (Some (), b) \<and> ctx' = c"
        using r False True unfolding bn_resized_from_ctx_def s t by (auto split: option.splits prod.splits)
      then obtain d where d: "BN_copy A t a = (Some (), d)" "bn_resize_words A d w = (Some (), b)" "ctx' = c" by (auto elim!: andthen_SomeE)
      note cp = BN_copy_Some [OF d(1) A t_ok ok(1)]
      have "bn_ok b" "bn_width b = w" "bn_abs b = bn_abs a"
        using bn_resize_words_Some [OF d(2) A cp(1)] cp False by (simp_all add: bn_abs_def)
      then show ?thesis using low_words [of b w] lt d(3) c by simp
    qed (use r False s c in \<open>auto simp: bn_resized_from_ctx_def split: option.splits prod.splits\<close>)
  qed
  then show "set ctx' \<subseteq> set ctx" "o' = Some b \<Longrightarrow> length (take w (bn_d b)) = w \<and> bn_val (take w (bn_d b)) = bn_abs a" by auto
qed

lemma mod_words_consttime_Some:
  assumes A: "malloc_spec A" and ok: "bn_ok r" "bn_ok a" "bn_ok b" "bn_ok m" "\<And>c. c \<in> set ctx \<Longrightarrow> bn_ok c"
    and lt: "bn_abs a < bn_abs m" "bn_abs b < bn_abs m" and res: "mod_words_consttime f A ctx r a b m = (Some u, r')"
    and f: "\<And>x y z. length x = length z \<Longrightarrow> length y = length z \<Longrightarrow> bn_val x < bn_val z \<Longrightarrow> bn_val y < bn_val z \<Longrightarrow>
      length (f x y z) = length z \<and> bn_val (f x y z) = g (bn_val x) (bn_val y) mod bn_val z"
  shows "bn_ok r' \<and> bn_width r' = bn_width m \<and> \<not> bn_neg r' \<and> bn_int r' = g (bn_abs a) (bn_abs b) mod bn_abs m"
proof -
  obtain a' c1 where 1: "bn_resized_from_ctx A a (bn_width m) ctx = (a', c1)" by (rule prod.exhaust)
  obtain b' c2 where 2: "bn_resized_from_ctx A b (bn_width m) c1 = (b', c2)" by (rule prod.exhaust)
  obtain t c3 where 3: "bn_scratch_space_from_ctx A (bn_width m) c2 = (t, c3)" by (rule prod.exhaust)
  obtain x y where xy: "a' = Some x" "b' = Some y" using res by (auto simp: mod_words_consttime_def 1 2 3 split: option.splits)
  have mw: "bn_abs m < radix ^ bn_width m" by (rule bn_abs_bound [OF ok(4)])
  have lta: "bn_abs a < radix ^ bn_width m" and ltb: "bn_abs b < radix ^ bn_width m" using lt mw by linarith+
  have c1: "\<And>c. c \<in> set c1 \<Longrightarrow> bn_ok c" using bn_resized_from_ctx(1) [OF A ok(2,5) lta 1] ok(5) by blast
  note va = bn_resized_from_ctx(2) [OF A ok(2,5) lta 1 xy(1)] and vb = bn_resized_from_ctx(2) [OF A ok(3) c1 ltb 2 xy(2)]
  define w ws where "w = bn_width m" and "ws = f (take w (bn_d x)) (take w (bn_d y)) (take w (bn_d m))"
  obtain d where d: "bn_wexpand A r w = (Some (), d)" "r' = d\<lparr>bn_d := store (bn_d d) 0 ws, bn_width := w, bn_neg := False\<rparr>"
    using res by (auto simp: mod_words_consttime_def 1 2 3 xy Let_def w_def ws_def elim!: andthen_SomeE split: option.splits)
  have m: "length (take w (bn_d m)) = w" "bn_val (take w (bn_d m)) = bn_abs m" using low_words [OF ok(4) _ mw] by (simp_all add: w_def)
  have "length ws = w \<and> bn_val ws = g (bn_abs a) (bn_abs b) mod bn_abs m"
    using f [of "take w (bn_d x)" "take w (bn_d m)" "take w (bn_d y)"] va vb m lt unfolding ws_def w_def by auto
  then show ?thesis using bn_words_stored [OF d(1) A ok(1), of ws False] unfolding d(2) by (simp add: w_def)
qed

lemma bn_mod_consttime_Some:
  assumes "malloc_spec A" "bn_ok r" "bn_ok a" "bn_ok b" "bn_ok m" "\<And>c. c \<in> set ctx \<Longrightarrow> bn_ok c" "bn_abs a < bn_abs m" "bn_abs b < bn_abs m"
  shows "bn_mod_add_consttime A ctx r a b m = (Some u, r') \<Longrightarrow>
      bn_ok r' \<and> bn_width r' = bn_width m \<and> \<not> bn_neg r' \<and> bn_int r' = (bn_abs a + bn_abs b) mod bn_abs m"
    "bn_mod_sub_consttime A ctx r a b m = (Some u, r') \<Longrightarrow>
      bn_ok r' \<and> bn_width r' = bn_width m \<and> \<not> bn_neg r' \<and> bn_int r' = (bn_abs a - bn_abs b) mod bn_abs m"
proof -
  assume "bn_mod_add_consttime A ctx r a b m = (Some u, r')"
  then show "bn_ok r' \<and> bn_width r' = bn_width m \<and> \<not> bn_neg r' \<and> bn_int r' = (bn_abs a + bn_abs b) mod bn_abs m"
    unfolding bn_mod_add_consttime_def
    by (intro mod_words_consttime_Some [OF assms(1-5) _ assms(7,8), where g = "(+)"]) (blast intro: assms(6) bn_mod_add_words_val)+
next
  assume "bn_mod_sub_consttime A ctx r a b m = (Some u, r')"
  then show "bn_ok r' \<and> bn_width r' = bn_width m \<and> \<not> bn_neg r' \<and> bn_int r' = (bn_abs a - bn_abs b) mod bn_abs m"
    unfolding bn_mod_sub_consttime_def
    by (intro mod_words_consttime_Some [OF assms(1-5) _ assms(7,8), where g = "(-)"]) (blast intro: assms(6) bn_mod_sub_words_val)+
qed

lemma mod_lshift_loop_Some:
  assumes A: "malloc_spec A" and ok: "bn_ok m" "\<And>i c. c \<in> set (ctx i) \<Longrightarrow> bn_ok c"
  shows "bn_ok r \<Longrightarrow> \<not> bn_neg r \<Longrightarrow> bn_abs r < bn_abs m \<Longrightarrow> mod_lshift_loop A ctx n r m = (Some u, r') \<Longrightarrow>
    bn_ok r' \<and> \<not> bn_neg r' \<and> bn_int r' = bn_abs r * 2 ^ n mod bn_abs m"
proof (induction n arbitrary: r)
  case 0
  then show ?case by (simp add: bn_int_def)
next
  case (Suc n)
  obtain s where s: "bn_mod_add_consttime A (ctx n) r r r m = (Some (), s)" "mod_lshift_loop A ctx n s m = (Some u, r')"
    using Suc.prems(4) by (auto simp: bn_mod_lshift1_consttime_def elim!: andthen_SomeE)
  have v: "bn_ok s \<and> bn_width s = bn_width m \<and> \<not> bn_neg s \<and> bn_int s = (bn_abs r + bn_abs r) mod bn_abs m"
    by (rule bn_mod_consttime_Some(1) [OF A _ _ _ ok(1,2) _ _ s(1)]) (use Suc.prems in simp_all)
  then have a: "bn_abs s = 2 * bn_abs r mod bn_abs m" by (auto simp: bn_int_def)
  moreover have "bn_abs s < bn_abs m" unfolding a using Suc.prems(3) bn_abs_nonneg [of r] by (intro pos_mod_bound) linarith
  ultimately have "bn_ok r' \<and> \<not> bn_neg r' \<and> bn_int r' = bn_abs s * 2 ^ n mod bn_abs m" using Suc.IH [OF _ _ _ s(2)] v by simp
  then show ?case unfolding a by (simp add: mod_mult_left_eq mod_mult_right_eq ac_simps)
qed

lemma bn_mod_lshift_consttime_Some:
  assumes A: "malloc_spec A" and ok: "bn_ok r" "bn_ok a" "bn_ok m" "\<And>i c. c \<in> set (ctx i) \<Longrightarrow> bn_ok c"
    and a: "\<not> bn_neg a" "bn_abs a < bn_abs m" and res: "bn_mod_lshift_consttime A ctx r a n m = (Some u, r')"
  shows "bn_ok r' \<and> \<not> bn_neg r' \<and> bn_int r' = bn_int a * 2 ^ nat n mod bn_abs m"
proof -
  obtain s where s: "BN_copy A r a = (Some (), s)" "mod_lshift_loop A ctx (nat n) s m = (Some u, r')"
    using res by (auto simp: bn_mod_lshift_consttime_def elim!: andthen_SomeE)
  note c = BN_copy_Some [OF s(1) A ok(1,2)]
  then have b: "bn_abs s = bn_abs a" by (simp add: bn_abs_def)
  show ?thesis using mod_lshift_loop_Some [OF A ok(3,4) c(1) _ _ s(2)] c(5) a by (simp add: b bn_int_def [of a])
qed

section \<open>Calls that succeed\<close>

lemma bn_wexpand_total': "\<forall>n. A n \<noteq> None \<Longrightarrow> \<not> bn_static a \<Longrightarrow> n \<le> 8388607 \<Longrightarrow> \<exists>d. bn_wexpand A a n = (Some (), d) \<and> \<not> bn_static d"
  using bn_wexpand_total [of A a n] bn_static_kept(2) by blast

lemma next_ctx_Some: "ctx \<noteq> [] \<Longrightarrow> next_ctx ctx = (Some (hd ctx), tl ctx)"
  by (cases ctx) simp_all

lemma resized_total:
  assumes A: "\<forall>n. A n \<noteq> None" and c: "ctx \<noteq> []" "\<forall>c \<in> set ctx. \<not> bn_static c" and w: "w \<le> 1000000" "malloc_spec A" "\<forall>c \<in> set ctx. bn_ok c"
  shows "\<exists>r. bn_scratch_space_from_ctx A w ctx = (Some r, tl ctx) \<and> \<not> bn_static r \<and> bn_ok r"
    "bn_ok a \<Longrightarrow> \<exists>r ctx'. bn_resized_from_ctx A a w ctx = (Some r, ctx') \<and> (ctx' = ctx \<or> ctx' = tl ctx)"
proof -
  obtain x ctx0 where x: "ctx = x # ctx0" using c(1) by (cases ctx) auto
  obtain d where d: "bn_wexpand A x w = (Some (), d)" "\<not> bn_static d"
    using bn_wexpand_total' [OF A, of x w] c(2) w(1) x by auto
  have k: "bn_ok (d\<lparr>bn_neg := False, bn_width := w\<rparr>)" using bn_wexpand_Some(2) [OF d(1) w(2)] w(3) x by (simp add: bn_ok_def)
  show s: "\<exists>r. bn_scratch_space_from_ctx A w ctx = (Some r, tl ctx) \<and> \<not> bn_static r \<and> bn_ok r"
    using d k by (auto simp: bn_scratch_space_from_ctx_def x)
  assume a: "bn_ok a"
  show "\<exists>r ctx'. bn_resized_from_ctx A a w ctx = (Some r, ctx') \<and> (ctx' = ctx \<or> ctx' = tl ctx)"
  proof (cases "bn_width a \<ge> w")
    case False
    obtain r where r: "bn_scratch_space_from_ctx A w ctx = (Some r, tl ctx)" "\<not> bn_static r" "bn_ok r" using s by blast
    obtain e where e: "bn_wexpand A r (bn_width a) = (Some (), e)" "\<not> bn_static e" using bn_wexpand_total' [OF A r(2), of "bn_width a"] False w(1) by auto
    define e' where "e' = e\<lparr>bn_d := store (bn_d e) 0 (take (bn_width a) (bn_d a)), bn_width := bn_width a, bn_neg := bn_neg a\<rparr>"
    have cp: "BN_copy A r a = (Some (), e')" by (simp add: BN_copy_def e e'_def)
    obtain g where "bn_wexpand A e' w = (Some (), g)" using bn_wexpand_total [OF A, of e' w] e(2) w(1) by (auto simp: e'_def)
    then show ?thesis using False r(1) cp by (simp add: bn_resized_from_ctx_def bn_resize_words_def e'_def)
  qed (simp add: bn_resized_from_ctx_def)
qed

lemma mod_words_consttime_total:
  assumes A: "malloc_spec A" "\<forall>n. A n \<noteq> None" and c: "3 \<le> length ctx" "\<forall>c \<in> set ctx. \<not> bn_static c \<and> bn_ok c" and r: "\<not> bn_static r"
    and ok: "bn_ok a" "bn_ok b" "bn_width m \<le> 1000000"
  shows "fst (mod_words_consttime f A ctx r a b m) = Some ()"
proof -
  obtain x y z c0 where ctx: "ctx = x # y # z # c0" using c(1) by (auto simp: numeral_3_eq_3 Suc_le_length_iff)
  obtain a' c1 where 1: "bn_resized_from_ctx A a (bn_width m) ctx = (Some a', c1)" "c1 = ctx \<or> c1 = tl ctx"
    using resized_total(2) [OF A(2) _ _ ok(3) A(1) _ ok(1), of ctx] c ctx by auto
  obtain b' c2 where 2: "bn_resized_from_ctx A b (bn_width m) c1 = (Some b', c2)" "c2 = c1 \<or> c2 = tl c1"
    using resized_total(2) [OF A(2) _ _ ok(3) A(1) _ ok(2), of c1] 1(2) c ctx by auto
  obtain t c3 where 3: "bn_scratch_space_from_ctx A (bn_width m) c2 = (Some t, c3)"
    using resized_total(1) [OF A(2) _ _ ok(3) A(1), of c2] 1(2) 2(2) c ctx by auto
  obtain d where "bn_wexpand A r (bn_width m) = (Some (), d)" using bn_wexpand_total [OF A(2) r, of "bn_width m"] ok(3) by auto
  then show ?thesis by (simp add: mod_words_consttime_def 1 2 3 Let_def)
qed

end
