(* ===== verification/Bn_Mod.thy ===== *)
theory Bn_Mod
  imports Bn_Reduce
begin

text \<open>
  The rest of \<^verbatim>\<open>fipsmodule/bn/div.c\<close>: remainders that are not negative, arithmetic modulo a number, division by a
  word and remainders modulo powers of two. A result inside two options is one of \<open>BN_div\<close>: the outer \<open>None\<close>
  does not return, the inner one is the return value 0. \<open>ctx\<close> are the numbers the context still returns; a call
  that makes several of them takes one list for each.
\<close>

section \<open>The operations\<close>

definition BN_mod :: "allocator \<Rightarrow> bignum list \<Rightarrow> bignum \<Rightarrow> bignum \<Rightarrow> bignum \<Rightarrow> bignum option option" where
  "BN_mod A ctx r m d =
     (case BN_div A False ctx None (Some r) m d of
        None \<Rightarrow> None
      | Some None \<Rightarrow> Some None
      | Some (Some (_, rem)) \<Rightarrow> Some rem)"

text \<open>What a call leaves in its result, when it succeeds.\<close>

definition outcome :: "unit option \<times> bignum \<Rightarrow> bignum option" where
  "outcome x = (case x of (None, _) \<Rightarrow> None | (Some _, r) \<Rightarrow> Some r)"

text \<open>\<^verbatim>\<open>r\<close> may be \<^verbatim>\<open>m\<close> but not \<^verbatim>\<open>d\<close>, whose value the code reads after it has written \<^verbatim>\<open>r\<close>.\<close>

definition BN_nnmod :: "allocator \<Rightarrow> bignum list \<Rightarrow> bignum \<Rightarrow> bignum \<Rightarrow> bignum \<Rightarrow> bignum option option" where
  "BN_nnmod A ctx r m d =
     (case BN_mod A ctx r m d of
        None \<Rightarrow> None
      | Some None \<Rightarrow> Some None
      | Some (Some r) \<Rightarrow> Some (if \<not> bn_neg r then Some r else outcome ((if bn_neg d then BN_sub else BN_add) A r r d)))"

definition BN_mod_add :: "allocator \<Rightarrow> bignum list \<Rightarrow> bignum \<Rightarrow> bignum \<Rightarrow> bignum \<Rightarrow> bignum \<Rightarrow> bignum option option" where
  "BN_mod_add A ctx r a b m = (case BN_add A r a b of (None, _) \<Rightarrow> Some None | (Some _, r) \<Rightarrow> BN_nnmod A ctx r r m)"

definition BN_mod_sub :: "allocator \<Rightarrow> bignum list \<Rightarrow> bignum \<Rightarrow> bignum \<Rightarrow> bignum \<Rightarrow> bignum \<Rightarrow> bignum option option" where
  "BN_mod_sub A ctx r a b m = (case BN_sub A r a b of (None, _) \<Rightarrow> Some None | (Some _, r) \<Rightarrow> BN_nnmod A ctx r r m)"

text \<open>\<open>same\<close> says that \<^verbatim>\<open>a\<close> and \<^verbatim>\<open>b\<close> are the same pointer; \<open>t\<close> and \<open>s\<close> are the product and its scratch space.\<close>

definition BN_mod_mul :: "allocator \<Rightarrow> bool \<Rightarrow> bignum option \<Rightarrow> bignum option \<Rightarrow> bignum list \<Rightarrow> bignum \<Rightarrow> bignum \<Rightarrow> bignum \<Rightarrow> bignum \<Rightarrow>
    bignum option option" where
  "BN_mod_mul A same t s ctx r a b m =
     (case t of
        None \<Rightarrow> Some None
      | Some t \<Rightarrow>
          (case (if same then BN_sqr A False None s t a else BN_mul A False None s t a b) of
             (None, _) \<Rightarrow> Some None
           | (Some _, t) \<Rightarrow> BN_nnmod A ctx r t m))"

definition BN_mod_sqr :: "allocator \<Rightarrow> bool \<Rightarrow> bignum option \<Rightarrow> bignum option \<Rightarrow> bignum list \<Rightarrow> bignum \<Rightarrow> bignum \<Rightarrow> bignum \<Rightarrow>
    bignum option option" where
  "BN_mod_sqr A shared c s ctx r a m = (case BN_sqr A shared c s r a of (None, _) \<Rightarrow> Some None | (Some _, r) \<Rightarrow> BN_mod A ctx r r m)"

definition BN_mod_lshift :: "allocator \<Rightarrow> bignum list \<Rightarrow> (nat \<Rightarrow> bignum list) \<Rightarrow> bignum \<Rightarrow> bignum \<Rightarrow> int \<Rightarrow> bignum \<Rightarrow> bignum option option" where
  "BN_mod_lshift A ctx ctxs r a n m =
     (case BN_nnmod A ctx r a m of
        None \<Rightarrow> None
      | Some None \<Rightarrow> Some None
      | Some (Some r) \<Rightarrow>
          (if bn_neg m
           then (case BN_dup A m of
                   None \<Rightarrow> Some None
                 | Some abs_m \<Rightarrow> Some (outcome (bn_mod_lshift_consttime A ctxs r r n (abs_m\<lparr>bn_neg := False\<rparr>))))
           else Some (outcome (bn_mod_lshift_consttime A ctxs r r n m))))"

definition BN_mod_lshift1 :: "allocator \<Rightarrow> bignum list \<Rightarrow> bignum \<Rightarrow> bignum \<Rightarrow> bignum \<Rightarrow> bignum option option" where
  "BN_mod_lshift1 A ctx r a m = (case BN_lshift1 A r a of (None, _) \<Rightarrow> Some None | (Some _, r) \<Rightarrow> BN_nnmod A ctx r r m)"

section \<open>Division by a word\<close>

text \<open>The words from the top down: the remainder so far and the words of the quotient.\<close>

fun div_word_loop :: "limb \<Rightarrow> limb list \<Rightarrow> limb \<Rightarrow> limb list \<Rightarrow> limb \<times> limb list" where
  "div_word_loop w [] ret out = (ret, out)"
| "div_word_loop w (l # ls) ret out =
     (case bn_div_rem_words ret l w of (d, _) \<Rightarrow> div_word_loop w ls (l - d * w) (d # out))"

definition BN_div_word :: "allocator \<Rightarrow> bignum \<Rightarrow> limb \<Rightarrow> limb \<times> bignum" where
  "BN_div_word A a w =
     (if w = 0 then (- 1, a)
      else if bn_width a = 0 then (0, a)
      else
        let j = 64 - BN_num_bits_word w; w = push_bit j w
        in case BN_lshift A a a (int j) of
             (None, a) \<Rightarrow> (- 1, a)
           | (Some _, a) \<Rightarrow>
               (case div_word_loop w (rev (take (bn_width a) (bn_d a))) 0 [] of
                  (ret, ws) \<Rightarrow> (drop_bit j ret, bn_set_minimal_width (a\<lparr>bn_d := store (bn_d a) 0 ws\<rparr>))))"

definition BN_mod_word :: "bignum \<Rightarrow> limb \<Rightarrow> limb" where
  "BN_mod_word a w =
     (if w = 0 then - 1
      else ucast (foldr (\<lambda>l ret. (push_bit 64 ret OR ucast l) mod ucast w) (take (bn_width a) (bn_d a)) (0 :: ullong)))"

section \<open>Powers of two\<close>

text \<open>The mask on the top word, when the exponent ends inside it.\<close>

definition mask_top :: "nat \<Rightarrow> nat \<Rightarrow> limb list \<Rightarrow> limb list" where
  "mask_top e num_words ws =
     (let top_word_exponent = e mod 64
      in if top_word_exponent \<noteq> 0 then ws[num_words - 1 := ws ! (num_words - 1) AND (push_bit top_word_exponent 1 - 1)] else ws)"

definition BN_mod_pow2 :: "allocator \<Rightarrow> bignum \<Rightarrow> bignum \<Rightarrow> nat \<Rightarrow> unit option \<times> bignum" where
  "BN_mod_pow2 A r a e =
     (if e = 0 \<or> bn_width a = 0 then (Some (), BN_zero r)
      else
        let num_words = 1 + (e - 1) div 64
        in if bn_width a < num_words then BN_copy A r a
           else andthen (bn_wexpand A r num_words) (\<lambda>_ r.
                  let d = mask_top e num_words (store (bn_d r) 0 (take num_words (bn_d a)))
                  in (Some (), bn_set_minimal_width (r\<lparr>bn_d := d, bn_width := num_words, bn_neg := bn_neg a\<rparr>))))"

definition BN_nnmod_pow2 :: "allocator \<Rightarrow> bignum \<Rightarrow> bignum \<Rightarrow> nat \<Rightarrow> unit option \<times> bignum" where
  "BN_nnmod_pow2 A r a e =
     andthen (BN_mod_pow2 A r a e) (\<lambda>_ r.
       if BN_is_zero r \<or> \<not> bn_neg r then (Some (), r)
       else
         let num_words = 1 + (e - 1) div 64
         in andthen (bn_wexpand A r num_words) (\<lambda>_ r.
              let d = store (bn_d r) (bn_width r) (replicate (num_words - bn_width r) 0);
                  d = store d 0 (map NOT (take num_words d));
                  d = mask_top e num_words d;
                  r = bn_set_minimal_width (r\<lparr>bn_d := d, bn_width := num_words, bn_neg := False\<rparr>)
              in BN_add A r r BN_value_one))"

section \<open>Remainders that are not negative\<close>

lemma BN_mod_result:
  assumes "malloc_spec A" "bn_ok m" "bn_ok d" "\<forall>c \<in> set ctx. bn_ok c" "bn_ok r"
  shows "\<exists>res. BN_mod A ctx r m d = Some res \<and> (case res of
      None \<Rightarrow> bn_abs d = 0 \<or> length ctx < 4 \<or> (\<exists>k. A k = None) \<or> (\<exists>c \<in> set ctx. bn_static c) \<or> bn_static r \<or>
        1000000 < bn_width m \<or> 1000000 < bn_width d
    | Some r' \<Rightarrow> bn_abs d \<noteq> 0 \<and> bn_canonical r' \<and> bn_static r' = bn_static r \<and> bn_int r' = bn_int m smod bn_int d \<and> bn_abs r' = bn_abs m mod bn_abs d \<and> (bn_neg r' \<longrightarrow> bn_neg m))"
proof -
  note res = BN_div_result [OF assms(1-3), of ctx None "Some r" False]
  obtain x where x: "BN_div A False ctx None (Some r) m d = Some x" using res assms(4,5) by blast
  show ?thesis
  proof (cases x)
    case None
    then show ?thesis using res assms(4,5) unfolding x by (simp add: BN_mod_def x)
  next
    case (Some y)
    obtain q r' where y: "y = (q, r')" by (rule prod.exhaust)
    show ?thesis using res assms(4,5) unfolding x by (auto simp: BN_mod_def x Some y intro: signed_remainder)
  qed
qed

lemma smod_abs: "d \<noteq> 0 \<Longrightarrow> (let r = m smod d in if r < 0 then r + \<bar>d\<bar> else r) = m mod \<bar>d\<bar>" for m d :: int
proof -
  assume d: "d \<noteq> 0"
  have e: "m smod d = sgn m * (\<bar>m\<bar> mod \<bar>d\<bar>)" by (rule signed_modulo_int_def)
  have b: "0 \<le> \<bar>m\<bar> mod \<bar>d\<bar>" "\<bar>m\<bar> mod \<bar>d\<bar> < \<bar>d\<bar>" using d by simp_all
  show ?thesis
  proof (cases "m < 0")
    case True
    then have "m mod \<bar>d\<bar> = (- (\<bar>m\<bar> mod \<bar>d\<bar>)) mod \<bar>d\<bar>" by (simp add: mod_minus_eq)
    also have "\<dots> = (if \<bar>m\<bar> mod \<bar>d\<bar> = 0 then 0 else \<bar>d\<bar> - \<bar>m\<bar> mod \<bar>d\<bar>)" by (simp add: zmod_zminus1_eq_if)
    finally show ?thesis using True b e by (simp add: Let_def)
  next
    case False
    then have "m smod d = m mod \<bar>d\<bar>" using e by (cases "m = 0") simp_all
    moreover from this have "\<not> m smod d < 0" using d by (metis pos_mod_sign zero_less_abs_iff leD)
    ultimately show ?thesis by (simp add: Let_def)
  qed
qed

lemma BN_add_canonical:
  assumes "malloc_spec A" "bn_ok r" "bn_norm a" "bn_norm b"
  shows "BN_add A r a b = (Some u, s) \<Longrightarrow> bn_canonical s \<and> bn_int s = bn_int a + bn_int b"
    "BN_sub A r a b = (Some u, s) \<Longrightarrow> bn_canonical s \<and> bn_int s = bn_int a - bn_int b"
  using BN_add_int [OF assms] BN_sub_int [OF assms] BN_add_trimmed BN_sub_trimmed by (auto simp: bn_canonical_def)

lemma BN_nnmod_result:
  assumes A: "malloc_spec A" and ok: "bn_ok m" "bn_ok d" "\<forall>c \<in> set ctx. bn_ok c" "bn_ok r"
  shows "\<exists>res. BN_nnmod A ctx r m d = Some res \<and> (case res of
      None \<Rightarrow> bn_abs d = 0 \<or> length ctx < 4 \<or> (\<exists>k. A k = None) \<or> (\<exists>c \<in> set ctx. bn_static c) \<or> bn_static r \<or>
        1000000 < bn_width m \<or> 1000000 < bn_width d
    | Some r' \<Rightarrow> bn_abs d \<noteq> 0 \<and> bn_canonical r' \<and> \<not> bn_neg r' \<and> bn_int r' = bn_int m mod bn_abs d)"
proof -
  note mod = BN_mod_result [OF A ok]
  then obtain res where r: "BN_mod A ctx r m d = Some res" by blast
  show ?thesis
  proof (cases res)
    case None
    then show ?thesis using mod unfolding r by (simp add: BN_nnmod_def r)
  next
    case (Some s)
    then have s: "bn_abs d \<noteq> 0" "bn_canonical s" "bn_norm s" "bn_static s = bn_static r" "bn_int s = bn_int m smod bn_int d" "bn_abs s = bn_abs m mod bn_abs d"
      using mod unfolding r by (simp_all add: bn_canonical_def)
    have d: "bn_int d \<noteq> 0" "\<bar>bn_int d\<bar> = bn_abs d" "bn_norm d" using s(1) ok(2) bn_abs_nonneg [of d] by (auto simp: bn_int_def bn_norm_def)
    have d4: "0 < bn_abs d" using s(1) bn_abs_nonneg [of d] by linarith
    have e: "bn_int m mod bn_abs d = (if bn_int s < 0 then bn_int s + bn_abs d else bn_int s)"
      using smod_abs [OF d(1), of "bn_int m"] s(5) unfolding d(2) Let_def by presburger
    have sn: "bn_neg s \<longleftrightarrow> bn_int s < 0" using s(3) by (simp add: bn_int_sign)
    show ?thesis
    proof (cases "bn_neg s")
      case False
      then show ?thesis using s sn e by (simp add: BN_nnmod_def r Some)
    next
      case True
      define x where "x = (if bn_neg d then BN_sub else BN_add) A s s d"
      have call: "BN_nnmod A ctx r m d = Some (outcome x)" using True by (simp add: BN_nnmod_def r Some x_def)
      show ?thesis
      proof (cases "fst x")
        case None
        have "bn_width s \<le> bn_width d"
          using trimmed_width [of s "bn_width d"] s(2,3,6) bn_abs_bound [OF ok(2)] pos_mod_bound [OF d4, of "bn_abs m"]
          by (simp add: bn_canonical_def bn_norm_ok)
        then have w: "bn_width s < 8388607" "bn_width d < 8388607" if "bn_width d \<le> 1000000" using that by linarith+
        have "(\<exists>k. A k = None) \<or> bn_static s \<or> 1000000 < bn_width d"
        proof (rule ccontr)
          assume "\<not> ?thesis"
          then have a: "\<forall>k. A k \<noteq> None" "\<not> bn_static s" "bn_width d \<le> 1000000" by auto
          note tot = BN_add_total [OF A bn_norm_ok [OF s(3)] bn_norm_ok [OF s(3)] ok(2) a(1,2) w [OF a(3)]]
          show False using None tot by (auto simp: x_def split: if_splits)
        qed
        moreover have "outcome x = None" using None by (cases x) (simp add: outcome_def)
        ultimately show ?thesis using call s(4) by auto
      next
        case (Some u)
        then obtain t where t: "x = (Some u, t)" by (cases x) auto
        have "bn_canonical t \<and> bn_int t = bn_int s + bn_abs d"
          using t BN_add_canonical [OF A bn_norm_ok [OF s(3)] s(3) d(3), of u t] by (auto simp: x_def bn_int_def [of d] split: if_splits)
        moreover have m: "bn_int m mod bn_abs d = bn_int s + bn_abs d" using e sn True by simp
        moreover have "0 \<le> bn_int m mod bn_abs d" using d4 by simp
        ultimately have "bn_canonical t \<and> bn_int t = bn_int m mod bn_abs d \<and> \<not> bn_neg t"
          using bn_int_sign [of t] by (auto simp: bn_canonical_def)
        moreover have "outcome x = Some t" by (simp add: outcome_def t)
        ultimately show ?thesis using call s(1) by simp
      qed
    qed
  qed
qed

lemma BN_nnmod_Some:
  assumes "malloc_spec A" "bn_ok m" "bn_ok d" "\<forall>c \<in> set ctx. bn_ok c" "bn_ok r"
  shows "\<exists>res. BN_nnmod A ctx r m d = Some res \<and>
    (\<forall>r'. res = Some r' \<longrightarrow> bn_abs d \<noteq> 0 \<and> bn_norm r' \<and> bn_canonical r' \<and> \<not> bn_neg r' \<and> bn_int r' = bn_int m mod bn_abs d)"
  using BN_nnmod_result [OF assms] by (fastforce simp: bn_canonical_def)

text \<open>Every operation modulo a number gives the least nonnegative residue.\<close>

lemma BN_mod_add_sub_Some:
  assumes A: "malloc_spec A" and ok: "bn_ok r" "bn_norm a" "bn_norm b" "bn_ok m" "\<forall>c \<in> set ctx. bn_ok c"
  shows "\<exists>res. BN_mod_add A ctx r a b m = Some res \<and>
      (\<forall>r'. res = Some r' \<longrightarrow> bn_abs m \<noteq> 0 \<and> bn_norm r' \<and> bn_int r' = (bn_int a + bn_int b) mod bn_abs m)"
    "\<exists>res. BN_mod_sub A ctx r a b m = Some res \<and>
      (\<forall>r'. res = Some r' \<longrightarrow> bn_abs m \<noteq> 0 \<and> bn_norm r' \<and> bn_int r' = (bn_int a - bn_int b) mod bn_abs m)"
proof -
  obtain o1 s where s: "BN_add A r a b = (o1, s)" by (rule prod.exhaust)
  show "\<exists>res. BN_mod_add A ctx r a b m = Some res \<and>
      (\<forall>r'. res = Some r' \<longrightarrow> bn_abs m \<noteq> 0 \<and> bn_norm r' \<and> bn_int r' = (bn_int a + bn_int b) mod bn_abs m)"
  proof (cases o1)
    case (Some u)
    then have "bn_norm s \<and> bn_int s = bn_int a + bn_int b" using BN_add_int [OF A ok(1-3)] s by simp
    then show ?thesis using BN_nnmod_Some [OF A _ ok(4,5), where m = s and r = s] Some s by (auto simp: BN_mod_add_def bn_norm_ok)
  qed (simp add: BN_mod_add_def s)
  obtain o2 t where t: "BN_sub A r a b = (o2, t)" by (rule prod.exhaust)
  show "\<exists>res. BN_mod_sub A ctx r a b m = Some res \<and>
      (\<forall>r'. res = Some r' \<longrightarrow> bn_abs m \<noteq> 0 \<and> bn_norm r' \<and> bn_int r' = (bn_int a - bn_int b) mod bn_abs m)"
  proof (cases o2)
    case (Some u)
    then have "bn_norm t \<and> bn_int t = bn_int a - bn_int b" using BN_sub_int [OF A ok(1-3)] t by simp
    then show ?thesis using BN_nnmod_Some [OF A _ ok(4,5), where m = t and r = t] Some t by (auto simp: BN_mod_sub_def bn_norm_ok)
  qed (simp add: BN_mod_sub_def t)
qed

lemma BN_mod_mul_Some:
  assumes A: "malloc_spec A" and ok: "bn_ok r" "bn_ok a" "bn_ok b" "bn_ok m" "\<forall>c \<in> set ctx. bn_ok c" "\<And>x. t = Some x \<Longrightarrow> bn_ok x"
    and same: "same \<Longrightarrow> a = b" and w: "bn_width a < 2 ^ 64" "bn_width b < 2 ^ 64"
  shows "\<exists>res. BN_mod_mul A same t s ctx r a b m = Some res \<and>
      (\<forall>r'. res = Some r' \<longrightarrow> bn_abs m \<noteq> 0 \<and> bn_norm r' \<and> bn_int r' = bn_int a * bn_int b mod bn_abs m)"
proof (cases t)
  case (Some x)
  note x = ok(6) [OF Some]
  obtain o1 p where p: "(if same then BN_sqr A False None s x a else BN_mul A False None s x a b) = (o1, p)" by (rule prod.exhaust)
  show ?thesis
  proof (cases o1)
    case (Some u)
    then have "bn_norm p \<and> bn_int p = bn_int a * bn_int b"
      using p same BN_sqr_Some [OF A x ok(2), of None False s _ p] BN_mul_Some [OF A x ok(2,3) _ w, of None False s _ p] by (auto split: if_splits)
    then show ?thesis using BN_nnmod_Some [OF A _ ok(4,5,1), where m = p] Some p \<open>t = Some x\<close> by (auto simp: BN_mod_mul_def bn_norm_ok)
  qed (use p Some in \<open>simp add: BN_mod_mul_def\<close>)
qed (simp add: BN_mod_mul_def)

lemma BN_mod_sqr_Some:
  assumes A: "malloc_spec A" and ok: "bn_ok r" "bn_ok a" "bn_ok m" "\<forall>c \<in> set ctx. bn_ok c" "\<And>x. c = Some x \<Longrightarrow> bn_ok x"
  shows "\<exists>res. BN_mod_sqr A shared c s ctx r a m = Some res \<and>
      (\<forall>r'. res = Some r' \<longrightarrow> bn_abs m \<noteq> 0 \<and> bn_norm r' \<and> bn_int r' = bn_int a * bn_int a mod bn_abs m)"
proof -
  obtain o1 p where p: "BN_sqr A shared c s r a = (o1, p)" by (rule prod.exhaust)
  show ?thesis
  proof (cases o1)
    case (Some u)
    have v: "bn_norm p \<and> bn_int p = bn_int a * bn_int a" using BN_sqr_Some [OF A ok(1,2,5)] p Some by simp
    then have n: "\<not> bn_neg p" "bn_ok p" using bn_int_sign [of p] by (auto simp: bn_norm_ok)
    note mod = BN_mod_result [OF A n(2) ok(3,4) n(2)]
    then obtain res where res: "BN_mod A ctx p p m = Some res" by blast
    have m: "bn_abs m \<noteq> 0 \<and> bn_norm r' \<and> bn_abs r' = bn_abs p mod bn_abs m \<and> \<not> bn_neg r'" if "res = Some r'" for r'
      using mod n(1) unfolding res that by (simp add: bn_canonical_def)
    have "bn_abs p = bn_int a * bn_int a" using v n(1) by (simp add: bn_int_def)
    then show ?thesis using m p Some res by (auto simp: BN_mod_sqr_def bn_int_def)
  qed (simp add: BN_mod_sqr_def p)
qed

lemma BN_mod_lshift1_Some:
  assumes A: "malloc_spec A" and ok: "bn_ok r" "bn_norm a" "bn_ok m" "\<forall>c \<in> set ctx. bn_ok c"
  shows "\<exists>res. BN_mod_lshift1 A ctx r a m = Some res \<and>
      (\<forall>r'. res = Some r' \<longrightarrow> bn_abs m \<noteq> 0 \<and> bn_norm r' \<and> bn_int r' = 2 * bn_int a mod bn_abs m)"
proof -
  obtain o1 s where s: "BN_lshift1 A r a = (o1, s)" by (rule prod.exhaust)
  show ?thesis
  proof (cases o1)
    case (Some u)
    then have "bn_norm s \<and> bn_int s = 2 * bn_int a" using BN_lshift1_int [OF A ok(1,2)] s by simp
    then show ?thesis using BN_nnmod_Some [OF A _ ok(3,4), where m = s and r = s] Some s by (auto simp: BN_mod_lshift1_def bn_norm_ok)
  qed (simp add: BN_mod_lshift1_def s)
qed

lemma BN_dup_Some:
  assumes "BN_dup A a = Some b" "malloc_spec A" "bn_ok a"
  shows "bn_ok b" "bn_limbs b = bn_limbs a" "bn_width b = bn_width a"
proof -
  obtain c u where "BN_copy A BN_init a = (Some u, b)"
    using assms(1) by (auto simp: BN_dup_def BN_new_def split: option.splits prod.splits)
  then show "bn_ok b" "bn_limbs b = bn_limbs a" "bn_width b = bn_width a" using BN_copy_Some [OF _ assms(2) bn_init(1) assms(3)] by blast+
qed

lemma BN_mod_lshift_Some:
  assumes A: "malloc_spec A" and ok: "bn_ok r" "bn_ok a" "bn_ok m" "\<forall>c \<in> set ctx. bn_ok c" "\<And>i c. c \<in> set (ctxs i) \<Longrightarrow> bn_ok c"
  shows "\<exists>res. BN_mod_lshift A ctx ctxs r a n m = Some res \<and>
      (\<forall>r'. res = Some r' \<longrightarrow> bn_abs m \<noteq> 0 \<and> bn_ok r' \<and> bn_int r' = bn_int a * 2 ^ nat n mod bn_abs m)"
proof -
  obtain res where r: "BN_nnmod A ctx r a m = Some res" and
      v: "\<And>s. res = Some s \<Longrightarrow> bn_abs m \<noteq> 0 \<and> bn_norm s \<and> \<not> bn_neg s \<and> bn_int s = bn_int a mod bn_abs m"
    using BN_nnmod_Some [OF A ok(2,3,4,1)] by blast
  show ?thesis
  proof (cases res)
    case (Some s)
    note v = v [OF Some]
    have M: "0 < bn_abs m" using v bn_abs_nonneg [of m] by linarith
    have lt: "bn_abs s < bn_abs m" using v M pos_mod_bound [OF M, of "bn_int a"] by (simp add: bn_int_def split: if_splits)
    have e: "bn_ok x \<and> bn_int x = bn_int a * 2 ^ nat n mod bn_abs m"
      if x: "outcome (bn_mod_lshift_consttime A ctxs s s n m') = Some x" and m': "bn_ok m'" "bn_abs m' = bn_abs m" for x m'
    proof -
      obtain u where "bn_mod_lshift_consttime A ctxs s s n m' = (Some u, x)" using x by (auto simp: outcome_def split: option.splits prod.splits)
      from bn_mod_lshift_consttime_Some [OF A _ _ m'(1) ok(5) _ _ this] show ?thesis
        using v lt m'(2) by (simp add: bn_norm_ok mod_mult_left_eq)
    qed
    show ?thesis
    proof (cases "bn_neg m")
      case False
      then show ?thesis using e [of m] ok(3) M by (auto simp: BN_mod_lshift_def r Some)
    next
      case True
      have "bn_ok (d\<lparr>bn_neg := False\<rparr>) \<and> bn_abs (d\<lparr>bn_neg := False\<rparr>) = bn_abs m" if "BN_dup A m = Some d" for d
        using BN_dup_Some [OF that A ok(3)] by (simp add: bn_set_pos bn_abs_def)
      then show ?thesis using e True M by (cases "BN_dup A m") (auto simp: BN_mod_lshift_def r Some)
    qed
  qed (simp add: BN_mod_lshift_def r)
qed

section \<open>Division by a word\<close>

lemma div_word_loop:
  "uint ret < uint w \<Longrightarrow> \<exists>ret' qs. div_word_loop w ls ret out = (ret', qs @ out) \<and> length qs = length ls \<and> uint ret' < uint w \<and>
    bn_val (rev ls) + radix ^ length ls * uint ret = bn_val qs * uint w + uint ret'"
proof (induction ls arbitrary: ret out)
  case (Cons l ls)
  obtain d rm where d: "bn_div_rem_words ret l w = (d, rm)" by (rule prod.exhaust)
  then have rm: "rm = l - d * w" by (auto simp: bn_div_rem_words_def Let_def)
  note v = bn_div_rem_words [OF Cons.prems d]
  from Cons.IH [OF v(2), of "d # out"] obtain ret' qs where
    r: "div_word_loop w ls rm (d # out) = (ret', qs @ d # out)" "length qs = length ls" "uint ret' < uint w"
      "bn_val (rev ls) + radix ^ length ls * uint rm = bn_val qs * uint w + uint ret'" by blast
  have "bn_val (rev (l # ls)) + radix ^ length (l # ls) * uint ret = bn_val (rev ls) + radix ^ length ls * (uint ret * radix + uint l)"
    by (simp add: bn_val_append algebra_simps)
  also have "\<dots> = bn_val (qs @ [d]) * uint w + uint ret'"
    unfolding v(1) using r(2,4) by (simp add: bn_val_append algebra_simps)
  finally show ?case using r d rm by (intro exI [of _ ret'] exI [of _ "qs @ [d]"]) simp
qed simp

lemma shift_to_top:
  assumes "w \<noteq> 0"
  defines "j \<equiv> 64 - BN_num_bits_word w"
  shows "uint (push_bit j w) = uint w * 2 ^ j" "j < 64"
proof -
  have w: "0 < uint w" using assms(1) uint_limb(1) [of w] by (simp add: order_less_le unsigned_eq_0_iff)
  have u: "nat (uint w) = unat w" by simp
  note b = bit_length_int [OF w, unfolded u, folded BN_num_bits_word]
  have "bit_length (unat w) \<le> 64" using unsigned_less [of w, where 'a = nat] by (simp add: bit_length_le_iff)
  then have le: "BN_num_bits_word w \<le> 64" by (simp add: BN_num_bits_word)
  show "j < 64" using b(3) by (simp add: j_def)
  have "uint w * 2 ^ j < 2 ^ BN_num_bits_word w * 2 ^ j" using b(2) by simp
  also have "\<dots> = 2 ^ 64" using le by (simp add: j_def flip: power_add)
  finally have "uint w * 2 ^ j < 2 ^ 64" .
  then show "uint (push_bit j w) = uint w * 2 ^ j"
    unfolding unsigned_push_bit_eq by (simp add: push_bit_eq_mult take_bit_eq_mod)
qed

lemma BN_div_word_result:
  assumes A: "malloc_spec A" and a: "bn_norm a" and w: "w \<noteq> 0" and r: "BN_div_word A a w = (ret, a')"
  shows "ret = - 1 \<and> (\<exists>n. fst (bn_wexpand A a n) = None \<and> n \<le> bn_width a + 1) \<or>
    bn_norm a' \<and> bn_int a' = bn_int a sdiv uint w \<and> uint ret = bn_abs a mod uint w"
proof (cases "bn_width a = 0")
  case True
  then have "bn_abs a = 0" by (simp add: bn_abs_def bn_limbs_def)
  moreover have "ret = 0" "a' = a" using r w True by (simp_all add: BN_div_word_def)
  ultimately show ?thesis using a by (simp add: bn_int_def signed_divide_int_def)
next
  case False
  define j where "j = 64 - BN_num_bits_word w"
  note sh = shift_to_top [OF w, folded j_def]
  have w0: "0 < uint w" using w uint_limb(1) [of w] by (simp add: order_less_le unsigned_eq_0_iff)
  obtain o1 s where s: "BN_lshift A a a (int j) = (o1, s)" by (rule prod.exhaust)
  note r1 = r [unfolded BN_div_word_def Let_def if_not_P [OF w] if_not_P [OF False], folded j_def, unfolded s prod.case]
  show ?thesis
  proof (cases o1)
    case None
    then have "ret = - 1" using r1 by simp
    moreover have "fst (bn_wexpand A a (bn_width a + 1)) = None"
    proof -
      have "fst (bn_wexpand A (a\<lparr>bn_neg := bn_neg a\<rparr>) (bn_width a + nat (int j) div 64 + 1)) = None"
        using s None by (auto simp: BN_lshift_def Let_def split: if_splits elim!: andthen.elims)
      then show ?thesis using sh(2) by simp
    qed
    ultimately show ?thesis by auto
  next
    case (Some u)
    then have v: "bn_norm s \<and> bn_abs s = bn_abs a * 2 ^ j \<and> bn_int s = bn_int a * 2 ^ j"
      using BN_lshift_int [OF A bn_norm_ok [OF a] bn_norm_ok [OF a]] s by simp
    have ok: "bn_ok s" using v by (simp add: bn_norm_ok)
    have "uint (0 :: limb) < uint (push_bit j w)" using w0 by (simp add: sh(1))
    from div_word_loop [OF this, of "rev (bn_limbs s)" "[]"] obtain ret0 qs where
      q: "div_word_loop (push_bit j w) (rev (bn_limbs s)) 0 [] = (ret0, qs)" "length qs = bn_width s"
        "uint ret0 < uint w * 2 ^ j" "bn_abs a * 2 ^ j = bn_val qs * (uint w * 2 ^ j) + uint ret0"
      using v ok by (auto simp: sh(1) bn_abs_def)
    have ra: "ret = drop_bit j ret0" "a' = bn_set_minimal_width (s\<lparr>bn_d := store (bn_d s) 0 qs\<rparr>)"
      using r1 unfolding Some by (simp_all add: q(1) flip: bn_limbs_def)
    have e: "uint ret0 = (bn_abs a - bn_val qs * uint w) * 2 ^ j" using q(4) by (simp add: left_diff_distrib)
    define R where "R = bn_abs a - bn_val qs * uint w"
    have "0 \<le> R * 2 ^ j" "R * 2 ^ j < uint w * 2 ^ j" using q(3) uint_limb(1) [of ret0] unfolding e R_def [symmetric] by simp_all
    then have R: "0 \<le> R" "R < uint w" by (simp_all add: zero_le_mult_iff)
    have "bn_abs a = uint w * bn_val qs + R" by (simp add: R_def)
    then have dm: "bn_abs a div uint w = bn_val qs" "bn_abs a mod uint w = R"
      using R by (auto intro: int_div_pos_eq int_mod_pos_eq)
    have "take_bit 64 (uint ret0) = uint ret0" using uint_limb [of ret0] unfolding radix_def by (rule take_bit_int_eq_self)
    then have ret: "uint ret = bn_abs a mod uint w"
      unfolding ra(1) dm(2) using e by (simp add: unsigned_drop_bit_eq drop_bit_nonneg_int flip: R_def)
    have st: "bn_ok (s\<lparr>bn_d := store (bn_d s) 0 qs\<rparr>)" "bn_abs (s\<lparr>bn_d := store (bn_d s) 0 qs\<rparr>) = bn_val qs"
      using ok q(2) by (simp_all add: bn_ok_def bn_abs_def bn_limbs_def store_full)
    note m = bn_set_minimal_width [OF st(1)]
    have n: "bn_norm a'" unfolding ra(2) using m(1,2,7) by (simp add: bn_norm_def)
    have "bn_neg s \<longleftrightarrow> bn_neg a"
    proof -
      have "bn_abs s = 0 \<longleftrightarrow> bn_abs a = 0" using v by simp
      moreover have "bn_int s < 0 \<longleftrightarrow> bn_int a < 0" using v by (simp add: mult_less_0_iff)
      ultimately show ?thesis using bn_int_sign [of s] bn_int_sign [OF a] v by simp
    qed
    then have "bn_neg a' \<longleftrightarrow> bn_neg a \<and> bn_abs a' \<noteq> 0" unfolding ra(2) using m(7) m(2) by simp
    moreover have "bn_abs a' = bn_abs a div uint w" unfolding ra(2) m(2) st(2) dm(1) ..
    ultimately have "bn_int a' = bn_int a sdiv uint w"
      using sgn_nonneg [OF bn_abs_nonneg [of a]] w0 by (auto simp: bn_int_def signed_divide_int_def)
    then show ?thesis using n ret by blast
  qed
qed

lemma ullong_low: "uint x < radix \<Longrightarrow> uint (ucast (x :: ullong) :: limb) = uint x"
  by (simp add: unsigned_ucast_eq take_bit_int_eq_self radix_def)

lemma BN_mod_word:
  assumes "w \<noteq> 0"
  shows "uint (BN_mod_word a w) = bn_abs a mod uint w"
proof -
  define rem where "rem ws = foldr (\<lambda>l ret. (push_bit 64 ret OR ucast l) mod ucast w) ws (0 :: ullong)" for ws :: "limb list"
  have w0: "0 < uint w" using assms uint_limb(1) [of w] by (simp add: order_less_le unsigned_eq_0_iff)
  have r: "uint (rem ws) = bn_val ws mod uint w" for ws
  proof (induction ws)
    case Nil
    then show ?case by (simp add: rem_def)
  next
    case (Cons l ws)
    have "uint (rem ws) < radix" unfolding Cons.IH using w0 uint_limb(2) [of w] pos_mod_bound [OF w0, of "bn_val ws"] by linarith
    then have u2: "uint (ucast (rem ws) :: limb) = uint (rem ws)" by (rule ullong_low)
    then have u: "ucast (ucast (rem ws) :: limb) = rem ws" unfolding word_uint_eq_iff uint_ucast_limb .
    have "uint (rem (l # ws)) = uint (push_bit 64 (ucast (ucast (rem ws) :: limb) :: ullong) OR ucast l) mod uint w"
      unfolding u by (simp add: rem_def uint_mod_distrib uint_ucast_limb)
    also have "\<dots> = (uint (rem ws) * radix + uint l) mod uint w" unfolding uint_double u2 ..
    also have "\<dots> = (uint l + radix * (bn_val ws mod uint w)) mod uint w" unfolding Cons.IH by (simp only: ac_simps)
    also have "\<dots> = (uint l + radix * (bn_val ws mod uint w) mod uint w) mod uint w" by (rule mod_add_right_eq [symmetric])
    also have "\<dots> = (uint l + radix * bn_val ws mod uint w) mod uint w" unfolding mod_mult_right_eq ..
    also have "\<dots> = bn_val (l # ws) mod uint w" unfolding bn_val.simps by (rule mod_add_right_eq)
    finally show ?case .
  qed
  have "uint (rem (bn_limbs a)) < radix" unfolding r using w0 uint_limb(2) [of w] pos_mod_bound [OF w0, of "bn_val (bn_limbs a)"] by linarith
  then have "uint (ucast (rem (bn_limbs a)) :: limb) = uint (rem (bn_limbs a))" by (rule ullong_low)
  then show ?thesis using assms r by (simp add: BN_mod_word_def rem_def bn_abs_def bn_limbs_def)
qed

section \<open>Remainders modulo powers of two\<close>

text \<open>The words that \<open>e\<close> bits take.\<close>

lemma words_for_bits:
  fixes e n :: nat
  assumes "0 < e" "n = 1 + (e - 1) div 64"
  shows "e \<le> 64 * n" "e mod 64 = 0 \<Longrightarrow> e = 64 * n" "e mod 64 \<noteq> 0 \<Longrightarrow> e = 64 * (n - 1) + e mod 64" "w < n \<Longrightarrow> 64 * w \<le> e"
proof -
  define r where "r = (e - 1) mod 64"
  have r: "r < 64" "e = 64 * (n - 1) + r + 1" using assms div_mult_mod_eq [of "e - 1" 64] by (simp_all add: r_def)
  have n: "0 < n" using assms(2) by simp
  show "e \<le> 64 * n" "w < n \<Longrightarrow> 64 * w \<le> e" using r n by linarith+
  have "e mod 64 = (r + 1) mod 64" unfolding r(2) by (simp add: add.assoc)
  then have "e mod 64 = (if r = 63 then 0 else r + 1)" using r(1) by auto
  then show "e mod 64 = 0 \<Longrightarrow> e = 64 * n" "e mod 64 \<noteq> 0 \<Longrightarrow> e = 64 * (n - 1) + e mod 64"
    using r n by (auto split: if_splits)
qed

lemma mask_top:
  assumes l: "length ws = 1 + (e - 1) div 64" and e: "0 < e"
  shows "length (mask_top e (length ws) ws) = length ws" "bn_val (mask_top e (length ws) ws) = bn_val ws mod 2 ^ e"
    "mask_top e (length ws) (ws @ rest) = mask_top e (length ws) ws @ rest"
proof -
  define n where "n = length ws"
  have n: "0 < n" using l by (simp add: n_def)
  show "length (mask_top e (length ws) ws) = length ws" by (simp add: mask_top_def Let_def)
  show "mask_top e (length ws) (ws @ rest) = mask_top e (length ws) ws @ rest"
    using n by (simp add: mask_top_def Let_def list_update_append nth_append n_def)
  have "bn_val (mask_top e n ws) = take_bit e (bn_val ws)"
  proof (rule bn_val_bitI)
    fix k
    assume k: "k div 64 < length (mask_top e n ws)"
    then have kn: "k div 64 < n" by (simp add: mask_top_def Let_def n_def split: if_splits)
    have kd: "k = 64 * (k div 64) + k mod 64" "k mod 64 < 64" by simp_all
    show "bit (mask_top e n ws ! (k div 64)) (k mod 64) \<longleftrightarrow> bit (take_bit e (bn_val ws)) k"
    proof (cases "e mod 64 = 0")
      case True
      then have "e = 64 * n" using words_for_bits(2) [OF e l] by (simp add: n_def)
      then have "k < e" using kn kd by linarith
      then show ?thesis using True kn by (simp add: mask_top_def bit_take_bit_iff bit_bn_val n_def)
    next
      case False
      then have en: "e = 64 * (n - 1) + e mod 64" using words_for_bits(3) [OF e l] by (simp add: n_def)
      have m: "bit (w AND (push_bit (e mod 64) 1 - 1)) (k mod 64) \<longleftrightarrow> bit (w :: limb) (k mod 64) \<and> k mod 64 < e mod 64" for w
      proof -
        have "push_bit (e mod 64) 1 - 1 = (mask (e mod 64) :: limb)" by (simp add: mask_eq_exp_minus_1)
        then show ?thesis by (auto simp: bit_and_iff bit_mask_iff)
      qed
      have ke: "k < e \<longleftrightarrow> k div 64 < n - 1 \<or> k div 64 = n - 1 \<and> k mod 64 < e mod 64" using en kd by linarith
      show ?thesis using False kn n m unfolding bit_take_bit_iff bit_bn_val ke
        by (cases "k div 64 = n - 1") (auto simp: mask_top_def Let_def n_def)
    qed
  next
    fix k
    assume "\<not> k div 64 < length (mask_top e n ws)"
    then show "\<not> bit (take_bit e (bn_val ws)) k"
      by (auto simp: mask_top_def Let_def bit_take_bit_iff bit_bn_val n_def split: if_splits)
  qed
  then show "bn_val (mask_top e (length ws) ws) = bn_val ws mod 2 ^ e" by (simp add: take_bit_eq_mod n_def)
qed

lemma BN_mod_pow2_Some:
  assumes A: "malloc_spec A" and ok: "bn_ok r" "bn_norm a" and res: "BN_mod_pow2 A r a e = (Some u, r')"
  shows "bn_norm r' \<and> bn_abs r' = bn_abs a mod 2 ^ e \<and> bn_int r' = bn_int a smod 2 ^ e \<and>
    (0 < e \<longrightarrow> bn_width r' \<le> 1 + (e - 1) div 64) \<and> (bn_static r' = bn_static r)"
proof -
  have fin: ?thesis if "bn_norm r'" "bn_abs r' = bn_abs a mod 2 ^ e" "bn_neg r' \<longleftrightarrow> bn_neg a \<and> bn_abs r' \<noteq> 0"
      "0 < e \<longrightarrow> bn_width r' \<le> 1 + (e - 1) div 64" "bn_static r' = bn_static r"
    using that sgn_nonneg [OF bn_abs_nonneg [of a]] by (cases "bn_abs a = 0") (auto simp: bn_int_def signed_modulo_int_def)
  define n where "n = 1 + (e - 1) div 64"
  consider "e = 0 \<or> bn_width a = 0" | "0 < e" "bn_width a < n" "bn_width a \<noteq> 0" | "0 < e" "n \<le> bn_width a" by linarith
  then show ?thesis
  proof cases
    case 1
    then have r: "r' = BN_zero r" using res by (simp add: BN_mod_pow2_def)
    have "bn_abs a mod 2 ^ e = 0" using 1 by (auto simp: bn_abs_def bn_limbs_def)
    then show ?thesis using bn_zero [of r] by (intro fin) (simp_all add: r bn_norm_def BN_zero_def)
  next
    case 2
    then have r: "BN_copy A r a = (Some (), r')" using res by (simp add: BN_mod_pow2_def n_def)
    note c = BN_copy_Some [OF r A ok(1) bn_norm_ok [OF ok(2)]]
    have aw: "bn_abs a < radix ^ bn_width a" using bn_abs_bound [OF bn_norm_ok [OF ok(2)]] .
    also have "\<dots> \<le> 2 ^ e"
    proof -
      have "64 * bn_width a \<le> e" using words_for_bits(4) [OF 2(1) n_def 2(2)] .
      then show ?thesis unfolding radix_power by (intro power_increasing) simp_all
    qed
    finally have "bn_abs a mod 2 ^ e = bn_abs a" by simp
    moreover have "bn_abs r' = bn_abs a" using c by (simp add: bn_abs_def)
    moreover have "bn_static r' = bn_static r" using r bn_static_kept(2) by (auto simp: BN_copy_def elim!: andthen_SomeE)
    ultimately show ?thesis using c ok(2) 2(2) by (intro fin) (auto simp: bn_norm_def n_def)
  next
    case 3
    then obtain d where d: "bn_wexpand A r n = (Some (), d)"
        "r' = bn_set_minimal_width (d\<lparr>bn_d := mask_top e n (store (bn_d d) 0 (take n (bn_d a))), bn_width := n, bn_neg := bn_neg a\<rparr>)"
      using res by (auto simp: BN_mod_pow2_def n_def Let_def elim!: andthen_SomeE)
    define ws where "ws = take n (bn_d a)"
    have l: "length ws = n" using 3 ok(2) by (simp add: ws_def bn_norm_def bn_ok_def)
    note m = mask_top [of ws e, unfolded l, OF n_def 3(1)]
    have "store (bn_d d) 0 ws = ws @ drop n (bn_d d)" by (simp add: store_def l)
    then have "mask_top e n (store (bn_d d) 0 ws) = store (bn_d d) 0 (mask_top e n ws)" using m(1,3) by (simp add: store_def)
    then have r: "r' = bn_set_minimal_width (d\<lparr>bn_d := store (bn_d d) 0 (mask_top e n ws), bn_width := n, bn_neg := bn_neg a\<rparr>)" using d(2) by (simp add: ws_def)
    note x = bn_words_stored [OF d(1) A ok(1) m(1), of "bn_neg a"]
    note y = bn_set_minimal_width [OF x(1)] and z = bn_minimal_width(1) [OF x(1)]
    have "bn_val ws mod 2 ^ e = bn_abs a mod 2 ^ e"
    proof -
      have "bn_abs a = bn_val ws + radix ^ n * bn_val (drop n (bn_limbs a))"
      proof -
        have "n \<le> length (bn_limbs a)" "take n (bn_limbs a) = ws" using 3(2) bn_norm_ok [OF ok(2)] by (simp_all add: ws_def bn_limbs_def bn_ok_def min_def)
        then show ?thesis using halves [of n "bn_limbs a"] by (simp add: bn_abs_def)
      qed
      moreover have "(2 :: int) ^ e dvd radix ^ n" unfolding radix_power using words_for_bits(1) [OF 3(1) n_def] by (rule le_imp_power_dvd)
      then obtain k where "radix ^ n = 2 ^ e * k" by (elim dvdE)
      ultimately show ?thesis by (simp add: mult.assoc)
    qed
    then have ab: "bn_abs r' = bn_abs a mod 2 ^ e" unfolding r y(2) x(3) m(2) .
    have ng: "bn_neg r' \<longleftrightarrow> bn_neg a \<and> bn_abs r' \<noteq> 0" unfolding r y(7) y(2) by simp
    show ?thesis
    proof (rule fin [OF _ ab ng])
      show "bn_norm r'" unfolding bn_norm_def using ng y(1) by (auto simp: r)
      have "bn_width r' \<le> n" using z unfolding r y(6) by simp
      then show "0 < e \<longrightarrow> bn_width r' \<le> 1 + (e - 1) div 64" unfolding n_def by simp
      have "bn_static r' = bn_static d" unfolding r y(4) by simp
      then show "bn_static r' = bn_static r" using bn_static_kept(2) [OF d(1)] by simp
    qed
  qed
qed

lemma complement_mod: "0 < x \<Longrightarrow> x < p \<Longrightarrow> (p * k - 1 - x) mod p = p - 1 - x" for p k x :: int
  using int_mod_pos_eq [of "p * k - 1 - x" p "k - 1" "p - 1 - x"] by (simp add: right_diff_distrib)

lemma bn_val_not: "bn_val (map NOT ws) = radix ^ length ws - 1 - bn_val ws"
proof (induction ws)
  case (Cons w ws)
  have "uint (NOT w) = radix - 1 - uint w"
    using uint_minus [of "- 1" w] uint_limb(2) [of w] by (simp add: not_eq_complement minus_diff_commute radix_def unsigned_minus_1_eq_mask mask_eq_exp_minus_1)
  then show ?case unfolding list.map bn_val.simps Cons.IH by (simp add: algebra_simps)
qed simp

lemma BN_nnmod_pow2_Some:
  assumes A: "malloc_spec A" and ok: "bn_ok r" "bn_norm a" and res: "BN_nnmod_pow2 A r a e = (Some u, r')"
  shows "bn_norm r' \<and> bn_int r' = bn_int a mod 2 ^ e"
proof -
  obtain s where s: "BN_mod_pow2 A r a e = (Some (), s)" and
      r1: "(if BN_is_zero s \<or> \<not> bn_neg s then (Some (), s)
       else
         let num_words = 1 + (e - 1) div 64
         in andthen (bn_wexpand A s num_words) (\<lambda>_ r.
              let d = store (bn_d r) (bn_width r) (replicate (num_words - bn_width r) 0);
                  d = store d 0 (map NOT (take num_words d));
                  d = mask_top e num_words d;
                  r = bn_set_minimal_width (r\<lparr>bn_d := d, bn_width := num_words, bn_neg := False\<rparr>)
              in BN_add A r r BN_value_one)) = (Some u, r')"
    using res by (auto simp: BN_nnmod_pow2_def elim!: andthen_SomeE)
  note v = BN_mod_pow2_Some [OF A ok s]
  then have ok_s: "bn_ok s" by (simp add: bn_norm_ok)
  have m: "bn_int a mod 2 ^ e = (if bn_int s < 0 then bn_int s + 2 ^ e else bn_int s)"
  proof -
    have "\<bar>2 ^ e\<bar> = (2 :: int) ^ e" "bn_int s = bn_int a smod 2 ^ e" using v by simp_all
    then show ?thesis using smod_abs [of "2 ^ e" "bn_int a"] by (simp only: Let_def power_eq_0_iff zero_neq_numeral) simp
  qed
  have sn: "bn_neg s \<longleftrightarrow> bn_int s < 0" using v by (simp add: bn_int_sign)
  show ?thesis
  proof (cases "bn_neg s")
    case False
    then show ?thesis using r1 v m sn by simp
  next
    case True
    then have nz: "bn_abs s \<noteq> 0" using v by (simp add: bn_norm_def)
    then have g: "\<not> (BN_is_zero s \<or> \<not> bn_neg s)" using True bn_is_zero [OF ok_s] by simp
    have e: "0 < e" using v nz by (cases e) auto
    define n where "n = 1 + (e - 1) div 64"
    obtain d where d: "bn_wexpand A s n = (Some (), d)" and add:
        "let dd = store (bn_d d) (bn_width d) (replicate (n - bn_width d) 0);
             dd = store dd 0 (map NOT (take n dd));
             dd = mask_top e n dd;
             r = bn_set_minimal_width (d\<lparr>bn_d := dd, bn_width := n, bn_neg := False\<rparr>)
         in BN_add A r r BN_value_one = (Some u, r')"
      using r1 [unfolded if_not_P [OF g]] by (auto simp: n_def Let_def elim!: andthen_SomeE)
    note x = bn_wexpand_Some [OF d A ok_s]
    have w: "bn_width s \<le> n" using v e by (simp add: n_def)
    define ws where "ws = bn_limbs s @ replicate (n - bn_width s) 0"
    have l: "length ws = n" "bn_val ws = bn_abs s" using w ok_s by (simp_all add: ws_def bn_val_pad bn_abs_def)
    have "store (bn_d d) (bn_width d) (replicate (n - bn_width d) 0) = ws @ drop n (bn_d d)"
      using x(2-4) w by (simp add: store_def ws_def bn_limbs_def)
    moreover have "store (ws @ drop n (bn_d d)) 0 (map NOT (take n (ws @ drop n (bn_d d)))) = map NOT ws @ drop n (bn_d d)"
      using l(1) by (simp add: store_def)
    moreover have ln: "length (map NOT ws) = n" using l(1) by simp
    note mt = mask_top [of "map NOT ws" e, unfolded ln, OF n_def e]
    have "mask_top e n (map NOT ws @ drop n (bn_d d)) = store (bn_d d) 0 (mask_top e n (map NOT ws))"
      using mt(1,3) by (simp add: store_def)
    ultimately have ad: "BN_add A (bn_set_minimal_width (d\<lparr>bn_d := store (bn_d d) 0 (mask_top e n (map NOT ws)), bn_width := n, bn_neg := False\<rparr>))
        (bn_set_minimal_width (d\<lparr>bn_d := store (bn_d d) 0 (mask_top e n (map NOT ws)), bn_width := n, bn_neg := False\<rparr>)) BN_value_one = (Some u, r')"
      using add by (simp add: Let_def)
    note y = bn_store_result [OF d A ok_s mt(1), of False]
    have one: "bn_norm BN_value_one" using bn_value_one by (simp add: bn_norm_def BN_value_one_def)
    define t where "t = bn_set_minimal_width (d\<lparr>bn_d := store (bn_d d) 0 (mask_top e n (map NOT ws)), bn_width := n, bn_neg := False\<rparr>)"
    note ad = ad [folded t_def] and y = y [folded t_def, unfolded if_False]
    have "bn_val (mask_top e n (map NOT ws)) = (radix ^ n - 1 - bn_abs s) mod 2 ^ e" unfolding mt(2) bn_val_not l ..
    moreover have "bn_norm r' \<and> bn_int r' = bn_int t + bn_int BN_value_one"
      by (rule BN_add_int [OF A bn_norm_ok [OF y(1)] y(1) one ad])
    ultimately have r': "bn_norm r' \<and> bn_int r' = (radix ^ n - 1 - bn_abs s) mod 2 ^ e + 1"
      unfolding y(2) bn_value_one(2) by (simp only:)
    have lt: "0 < bn_abs s" "bn_abs s < 2 ^ e" using nz bn_abs_nonneg [of s] v by (linarith, simp)
    have "(2 :: int) ^ e dvd radix ^ n" unfolding radix_power using words_for_bits(1) [OF e n_def] by (rule le_imp_power_dvd)
    then obtain k where k: "radix ^ n = 2 ^ e * k" by (elim dvdE)
    have "(radix ^ n - 1 - bn_abs s) mod 2 ^ e = 2 ^ e - 1 - bn_abs s" unfolding k by (rule complement_mod [OF lt])
    then have "bn_int r' = 2 ^ e - bn_abs s" using r' by simp
    also have "\<dots> = bn_int a mod 2 ^ e"
    proof -
      have "bn_int s < 0" "bn_int s = - bn_abs s" using sn True by (simp_all add: bn_int_def)
      then show ?thesis unfolding m if_P [OF \<open>bn_int s < 0\<close>] by linarith
    qed
    finally show ?thesis using r' by simp
  qed
qed

section \<open>Both divisions\<close>

lemma bn_div_consttime_total:
  assumes A: "\<forall>k. A k \<noteq> None" and ok: "bn_ok d" "bn_int d \<noteq> 0" "\<not> bn_neg n" "\<not> bn_neg d"
    and st: "\<not> bn_static q" "\<not> bn_static r" "\<forall>c \<in> set ctx. \<not> bn_static c" "ctx \<noteq> []" and w: "bn_width n \<le> 1000000" "bn_width d \<le> 1000000"
  shows "\<exists>u v. bn_div_consttime A ctx (Some q) False (Some r) False n d = Some (Some u, Some v)"
proof -
  obtain t ctx' where ctx: "ctx = t # ctx'" using st(4) by (cases ctx) auto
  obtain q1 where 1: "bn_wexpand A q (bn_width n) = (Some (), q1)" using bn_wexpand_total [OF A st(1), of "bn_width n"] w by auto
  obtain r1 where 2: "bn_wexpand A r (bn_width d) = (Some (), r1)" using bn_wexpand_total [OF A st(2), of "bn_width d"] w by auto
  obtain t1 where 3: "bn_wexpand A t (bn_width d) = (Some (), t1)" using bn_wexpand_total [OF A, of t "bn_width d"] st(3) w ctx by auto
  have "\<not> BN_is_zero d" using bn_is_zero [OF ok(1)] ok(2) by (simp add: bn_int_zero_iff)
  then show ?thesis using ok(3,4)
    by (simp add: bn_div_consttime_def BN_is_negative_def ctx 1 2 3 Let_def split: prod.splits)
qed

lemma sdiv_nonneg: "0 \<le> n \<Longrightarrow> 0 < d \<Longrightarrow> n sdiv d = n div d" "0 \<le> n \<Longrightarrow> 0 < d \<Longrightarrow> n smod d = n mod d" for n d :: int
  by (cases "n = 0"; simp add: signed_divide_int_def signed_modulo_int_def)+

text \<open>C5. On numbers that are not negative the binary long division of \<^verbatim>\<open>bn_div_consttime\<close> and the long division
  by words of \<^verbatim>\<open>BN_div\<close> compute the same quotient and remainder, and the former fails for the other numbers.\<close>

theorem bn_div_consttime_agrees:
  assumes "malloc_spec A" "\<forall>k. A k \<noteq> None" "bn_ok n" "bn_ok d" "\<forall>c \<in> set (q # r # ctx). bn_ok c \<and> \<not> bn_static c" "4 \<le> length ctx"
    "bn_width n \<le> 1000000" "bn_width d \<le> 1000000"
  shows "(\<exists>u v. bn_div_consttime A ctx (Some q) False (Some r) False n d = Some (Some u, Some v) \<and> bn_int u = x \<and> bn_int v = y) \<longleftrightarrow>
    \<not> bn_neg n \<and> \<not> bn_neg d \<and> (\<exists>u v. BN_div A False ctx (Some q) (Some r) n d = Some (Some (Some u, Some v)) \<and> bn_int u = x \<and> bn_int v = y)"
proof -
  have c: "\<And>c. c \<in> set ctx \<Longrightarrow> bn_ok c" "bn_ok q" "bn_ok r" "\<not> bn_static q" "\<not> bn_static r" "\<forall>c \<in> set ctx. \<not> bn_static c" "ctx \<noteq> []"
    using assms(5,6) by auto
  have some: "\<not> bn_neg n \<and> \<not> bn_neg d \<and> bn_abs d \<noteq> 0 \<and> bn_int u = bn_int n div bn_int d \<and> bn_int v = bn_int n mod bn_int d"
    if "bn_div_consttime A ctx (Some q) False (Some r) False n d = Some (Some u, Some v)" for u v
    using bn_div_consttime_Some [OF assms(1,3,4) c(1) _ _ that] c(2,3) by simp
  have pos: "0 \<le> bn_int n \<and> 0 < bn_int d" if "\<not> bn_neg n" "\<not> bn_neg d" "bn_abs d \<noteq> 0"
    using that bn_abs_nonneg [of n] bn_abs_nonneg [of d] by (simp add: bn_int_def order_less_le)
  note D = BN_div_result [OF assms(1,3,4), of ctx "Some q" "Some r" False]
  obtain res where res: "BN_div A False ctx (Some q) (Some r) n d = Some res" using D c(1-3) by fastforce
  note D = D [unfolded res]
  have div: "\<exists>u v. res = Some (Some u, Some v)" if "bn_abs d \<noteq> 0"
    using D c assms(2,6-8) that by (cases res) (auto simp del: not_None_eq)
  have dint: "bn_abs d \<noteq> 0 \<and> bn_int u = bn_int n sdiv bn_int d \<and> bn_int v = bn_int n smod bn_int d" if "res = Some (Some u, Some v)" for u v
    using D c(1-3) unfolding that by (simp add: signed_division signed_remainder)
  show ?thesis
  proof
    assume "\<exists>u v. bn_div_consttime A ctx (Some q) False (Some r) False n d = Some (Some u, Some v) \<and> bn_int u = x \<and> bn_int v = y"
    then obtain u v where "bn_div_consttime A ctx (Some q) False (Some r) False n d = Some (Some u, Some v)" "bn_int u = x" "bn_int v = y" by blast
    note s = some [OF this(1)] this
    obtain u' v' where e: "res = Some (Some u', Some v')" using div s(1) by blast
    have "0 \<le> bn_int n" "0 < bn_int d" using pos s(1) by auto
    then have "bn_int u' = x" "bn_int v' = y" using dint [OF e] s by (simp_all add: sdiv_nonneg)
    then show "\<not> bn_neg n \<and> \<not> bn_neg d \<and> (\<exists>u v. BN_div A False ctx (Some q) (Some r) n d = Some (Some (Some u, Some v)) \<and> bn_int u = x \<and> bn_int v = y)"
      using s(1) res e by auto
  next
    assume "\<not> bn_neg n \<and> \<not> bn_neg d \<and> (\<exists>u v. BN_div A False ctx (Some q) (Some r) n d = Some (Some (Some u, Some v)) \<and> bn_int u = x \<and> bn_int v = y)"
    then obtain u v where n: "\<not> bn_neg n" "\<not> bn_neg d" and "res = Some (Some u, Some v)" "bn_int u = x" "bn_int v = y" using res by auto
    note s = dint [OF this(3)] this(4,5)
    obtain u' v' where e: "bn_div_consttime A ctx (Some q) False (Some r) False n d = Some (Some u', Some v')"
      using bn_div_consttime_total [OF assms(2,4) _ n c(4-7) assms(7,8)] s(1) by (auto simp: bn_int_zero_iff)
    have "0 \<le> bn_int n" "0 < bn_int d" using pos n s(1) by auto
    then have "bn_int u' = x" "bn_int v' = y" using some [OF e] s by (simp_all add: sdiv_nonneg)
    then show "\<exists>u v. bn_div_consttime A ctx (Some q) False (Some r) False n d = Some (Some u, Some v) \<and> bn_int u = x \<and> bn_int v = y"
      using e by blast
  qed
qed

theorem bn_div_consttime_agrees_witness:
  "\<exists>u v. bn_div_consttime zero_malloc (replicate 4 BN_init) (Some BN_init) False (Some BN_init) False (sample_bn [7, 1] False) (sample_bn [2] False) =
     Some (Some u, Some v) \<and> bn_int u = 2 ^ 63 + 3 \<and> bn_int v = 1"
proof -
  let ?n = "sample_bn [7, 1] False" and ?d = "sample_bn [2] False" and ?ctx = "replicate 4 BN_init"
  have v: "bn_int ?n = 2 ^ 64 + 7" "bn_int ?d = 2" by (simp_all add: bn_int_def sample_bn radix_def)
  have c: "\<forall>c \<in> set (BN_init # BN_init # ?ctx). bn_ok c \<and> \<not> bn_static c" using bn_init by simp
  obtain u v where e: "bn_div_consttime zero_malloc ?ctx (Some BN_init) False (Some BN_init) False ?n ?d = Some (Some u, Some v)"
    using bn_div_consttime_total [OF zero_malloc(2), of ?d ?n BN_init BN_init ?ctx] bn_init(3) v by (auto simp: sample_bn)
  then have "\<exists>u v. BN_div zero_malloc False ?ctx (Some BN_init) (Some BN_init) ?n ?d = Some (Some (Some u, Some v)) \<and> bn_int u = bn_int u \<and> bn_int v = bn_int v"
    using bn_div_consttime_agrees [OF zero_malloc sample_bn(1) sample_bn(1) c, of "[7, 1]" False "[2]" False "bn_int u" "bn_int v"]
    by (auto simp: sample_bn(4))
  then show ?thesis
    using e bn_div_consttime_Some [OF zero_malloc(1) sample_bn(1) sample_bn(1) _ _ _ e] bn_init(1) by (auto simp: v)
qed

section \<open>Residues\<close>

text \<open>A call that returns, and leaves the least nonnegative residue when it succeeds.\<close>

definition residue :: "bignum option option \<Rightarrow> int \<Rightarrow> bignum \<Rightarrow> bool" where
  "residue res n m \<longleftrightarrow> (\<exists>s. res = Some s \<and> (\<forall>r. s = Some r \<longrightarrow> bn_int m \<noteq> 0 \<and> bn_ok r \<and> bn_int r = n mod \<bar>bn_int m\<bar>))"

lemma residueI: "\<exists>s. res = Some s \<and> (\<forall>r. s = Some r \<longrightarrow> bn_abs m \<noteq> 0 \<and> bn_ok r \<and> bn_int r = n mod bn_abs m) \<Longrightarrow> residue res n m"
proof -
  have "\<bar>bn_int m\<bar> = bn_abs m" by (simp add: bn_int_def)
  then show "\<exists>s. res = Some s \<and> (\<forall>r. s = Some r \<longrightarrow> bn_abs m \<noteq> 0 \<and> bn_ok r \<and> bn_int r = n mod bn_abs m) \<Longrightarrow> ?thesis"
    by (simp add: residue_def bn_int_zero_iff)
qed

text \<open>C4. The operations modulo a number return, whatever the signs of their operands and of the modulus, and a
  successful call leaves the least nonnegative residue of the sum, difference, product, square or multiple;
  \<^verbatim>\<open>BN_nnmod\<close> succeeds when the allocator provides the memory and the modulus is not zero.\<close>

theorem BN_modular_exact:
  assumes "malloc_spec A" "bn_ok r" "bn_norm a" "bn_norm b" "bn_ok m" "\<forall>c \<in> set ctx. bn_ok c" "bn_ok t"
    "bn_width a < 2 ^ 64" "bn_width b < 2 ^ 64"
  shows "residue (BN_nnmod A ctx r a m) (bn_int a) m \<and>
    residue (BN_mod_add A ctx r a b m) (bn_int a + bn_int b) m \<and> residue (BN_mod_sub A ctx r a b m) (bn_int a - bn_int b) m \<and>
    residue (BN_mod_mul A False (Some t) s ctx r a b m) (bn_int a * bn_int b) m \<and>
    residue (BN_mod_sqr A False None s ctx r a m) (bn_int a * bn_int a) m \<and>
    residue (BN_mod_lshift1 A ctx r a m) (2 * bn_int a) m \<and> residue (BN_mod_lshift A ctx (\<lambda>_. ctx) r a k m) (bn_int a * 2 ^ nat k) m \<and>
    ((\<forall>k. A k \<noteq> None) \<and> (\<forall>c \<in> set (r # ctx). \<not> bn_static c) \<and> 4 \<le> length ctx \<and> bn_width a \<le> 1000000 \<and> bn_width m \<le> 1000000 \<longrightarrow>
       (BN_nnmod A ctx r a m = Some None \<longleftrightarrow> bn_int m = 0))"
proof -
  note a = bn_norm_ok [OF assms(3)] and b = bn_norm_ok [OF assms(4)]
  have 1: "residue (BN_nnmod A ctx r a m) (bn_int a) m" by (rule residueI) (use BN_nnmod_Some [OF assms(1) a assms(5,6,2)] in \<open>auto simp: bn_norm_ok\<close>)
  have 2: "residue (BN_mod_add A ctx r a b m) (bn_int a + bn_int b) m" "residue (BN_mod_sub A ctx r a b m) (bn_int a - bn_int b) m"
    by (rule residueI, use BN_mod_add_sub_Some [OF assms(1-6)] in \<open>auto simp: bn_norm_ok\<close>)+
  have 3: "residue (BN_mod_mul A False (Some t) s ctx r a b m) (bn_int a * bn_int b) m"
    by (rule residueI) (use BN_mod_mul_Some [OF assms(1,2) a b assms(5,6) _ _ assms(8,9), of "Some t" False s] assms(7) in \<open>auto simp: bn_norm_ok\<close>)
  have 4: "residue (BN_mod_sqr A False None s ctx r a m) (bn_int a * bn_int a) m"
    by (rule residueI) (use BN_mod_sqr_Some [OF assms(1,2) a assms(5,6), of None False s] in \<open>auto simp: bn_norm_ok\<close>)
  have 5: "residue (BN_mod_lshift1 A ctx r a m) (2 * bn_int a) m"
    by (rule residueI) (use BN_mod_lshift1_Some [OF assms(1-3,5,6)] in \<open>auto simp: bn_norm_ok\<close>)
  have 6: "residue (BN_mod_lshift A ctx (\<lambda>_. ctx) r a k m) (bn_int a * 2 ^ nat k) m"
    by (rule residueI) (use BN_mod_lshift_Some [OF assms(1,2) a assms(5,6), of "\<lambda>_. ctx" k] assms(6) in auto)
  have 7: "BN_nnmod A ctx r a m = Some None \<longleftrightarrow> bn_int m = 0"
    if "\<forall>k. A k \<noteq> None" "\<forall>c \<in> set (r # ctx). \<not> bn_static c" "4 \<le> length ctx" "bn_width a \<le> 1000000" "bn_width m \<le> 1000000"
  proof -
    obtain res where res: "BN_nnmod A ctx r a m = Some res" "case res of
      None \<Rightarrow> bn_abs m = 0 \<or> length ctx < 4 \<or> (\<exists>k. A k = None) \<or> (\<exists>c \<in> set ctx. bn_static c) \<or> bn_static r \<or>
        1000000 < bn_width a \<or> 1000000 < bn_width m
    | Some r' \<Rightarrow> bn_abs m \<noteq> 0 \<and> bn_canonical r' \<and> \<not> bn_neg r' \<and> bn_int r' = bn_int a mod bn_abs m"
      using BN_nnmod_result [OF assms(1) a assms(5,6,2)] by blast
    then show ?thesis using that by (cases res) (auto simp: bn_int_zero_iff simp del: not_None_eq)
  qed
  show ?thesis using 1 2 3 4 5 6 7 by blast
qed

theorem BN_modular_exact_witness:
  "\<exists>s. BN_nnmod zero_malloc (replicate 4 BN_init) BN_init (sample_bn [3] True) (sample_bn [7] True) = Some (Some s) \<and> bn_int s = 4"
proof -
  let ?a = "sample_bn [3] True" and ?m = "sample_bn [7] True" and ?ctx = "replicate 4 BN_init"
  have v: "bn_norm ?a" "bn_int ?a = - 3" "bn_int ?m = - 7" by (simp_all add: bn_norm_def bn_int_def sample_bn)
  have c: "\<forall>c \<in> set ?ctx. bn_ok c" "\<forall>c \<in> set (BN_init # ?ctx). \<not> bn_static c" using bn_init by simp_all
  note e = BN_modular_exact [OF zero_malloc(1) bn_init(1) v(1,1) sample_bn(1) c(1) bn_init(1), of "[7]" True None 0]
  have "BN_nnmod zero_malloc ?ctx BN_init ?a ?m \<noteq> Some None" using e zero_malloc(2) c(2) v(3) by (simp add: sample_bn(4))
  moreover have "residue (BN_nnmod zero_malloc ?ctx BN_init ?a ?m) (- 3) ?m" using e v(2) by (simp add: sample_bn(4))
  ultimately show ?thesis by (auto simp: residue_def v(3))
qed

text \<open>C6. Every number that the arithmetic returns is canonical: inside its array, without a zero word on top and
  without a negative zero; so two results with the same value have the same words and the same sign.\<close>

theorem bn_results_canonical:
  assumes A: "malloc_spec A" and ok: "bn_ok r" "bn_norm a" "bn_norm b" "\<forall>c \<in> set ctx. bn_ok c" and w: "bn_width a < 2 ^ 64" "bn_width b < 2 ^ 64"
    and call: "(Some (), x) \<in> {BN_add A r a b, BN_sub A r a b, BN_mul A False None t r a b, BN_sqr A False None t r a, BN_lshift A r a k, BN_rshift A r a k} \<or>
      BN_mod A ctx r a b = Some (Some x) \<or> BN_nnmod A ctx r a b = Some (Some x)"
  shows "bn_canonical x \<and> (\<forall>y. bn_canonical y \<and> bn_int y = bn_int x \<longrightarrow> bn_limbs y = bn_limbs x \<and> bn_neg y = bn_neg x)"
proof -
  note a = bn_norm_ok [OF ok(2)] and b = bn_norm_ok [OF ok(3)]
  have "bn_canonical x"
    using call
  proof (elim disjE)
    assume "(Some (), x) \<in> {BN_add A r a b, BN_sub A r a b, BN_mul A False None t r a b, BN_sqr A False None t r a, BN_lshift A r a k, BN_rshift A r a k}"
    then consider "BN_add A r a b = (Some (), x)" | "BN_sub A r a b = (Some (), x)" | "BN_mul A False None t r a b = (Some (), x)"
      | "BN_sqr A False None t r a = (Some (), x)" | "BN_lshift A r a k = (Some (), x)" | "BN_rshift A r a k = (Some (), x)" by auto
    then show ?thesis
    proof cases
      case 1
      then show ?thesis using BN_add_canonical(1) [OF A ok(1-3)] by simp
    next
      case 2
      then show ?thesis using BN_add_canonical(2) [OF A ok(1-3)] by simp
    next
      case 3
      then show ?thesis using BN_mul_Some [OF A ok(1) a b _ w 3] BN_mul_trimmed(1) [OF 3] by (simp add: bn_canonical_def)
    next
      case 4
      then show ?thesis using BN_sqr_Some [OF A ok(1) a _ 4] BN_mul_trimmed(2) [OF 4] by (simp add: bn_canonical_def)
    next
      case 5
      then show ?thesis using BN_lshift_int [OF A ok(1) a 5] BN_shift_trimmed(1) [OF 5] by (simp add: bn_canonical_def)
    next
      case 6
      then show ?thesis using BN_rshift_int [OF A ok(1) a 6] BN_shift_trimmed(2) [OF 6] by (simp add: bn_canonical_def)
    qed
  next
    assume "BN_mod A ctx r a b = Some (Some x)"
    then show ?thesis using BN_mod_result [OF A a b ok(4,1)] by auto
  next
    assume "BN_nnmod A ctx r a b = Some (Some x)"
    then show ?thesis using BN_nnmod_Some [OF A a b ok(4,1)] by auto
  qed
  then show ?thesis using bn_canonical_unique by blast
qed

theorem bn_results_canonical_witness:
  "\<exists>x. BN_sub zero_malloc BN_init (sample_bn [0, 1] False) (sample_bn [1] False) = (Some (), x) \<and> bn_canonical x \<and> bn_limbs x = [- 1]"
proof -
  let ?a = "sample_bn [0, 1] False" and ?b = "sample_bn [1] False"
  have n: "bn_norm ?a" "bn_norm ?b" by (simp_all add: bn_norm_def sample_bn)
  obtain x where x: "BN_sub zero_malloc BN_init ?a ?b = (Some (), x)"
    using BN_add_total(2) [OF zero_malloc(1) bn_init(1) sample_bn(1) sample_bn(1) zero_malloc(2) bn_init(3)] by (fastforce simp: sample_bn(4))
  have c: "bn_canonical x \<and> (\<forall>y. bn_canonical y \<and> bn_int y = bn_int x \<longrightarrow> bn_limbs y = bn_limbs x \<and> bn_neg y = bn_neg x)"
    by (rule bn_results_canonical [OF zero_malloc(1) bn_init(1) n, of "[]"]) (simp_all add: x sample_bn(4))
  have "bn_int x = bn_int (sample_bn [- 1] False)"
    using BN_sub_int [OF zero_malloc(1) bn_init(1) n x] by (simp add: bn_int_def sample_bn radix_def unsigned_minus_1_eq_mask mask_eq_exp_minus_1)
  moreover have "bn_canonical (sample_bn [- 1] False)" by (simp add: bn_canonical_def bn_norm_def sample_bn trimmed_def) (simp add: sample_bn_def)
  ultimately have "bn_limbs (sample_bn [- 1] False) = bn_limbs x" using conjunct2 [OF c] by metis
  then have "bn_limbs x = [- 1]" by (simp add: bn_limbs_def sample_bn_def)
  then show ?thesis using x conjunct1 [OF c] by blast
qed

end
