(* ===== verification/Bn_Mont.thy ===== *)
theory Bn_Mont
  imports Bn_Mod
begin

unbundle bit_operations_syntax

text \<open>
  Model of \<^verbatim>\<open>fipsmodule/bn/montgomery.c\<close> and \<^verbatim>\<open>montgomery_inv.c\<close>, without the assembly of \<^verbatim>\<open>OPENSSL_BN_ASM_MONT\<close>:
  the contexts, the reduction of Montgomery and the products on top of it. \<open>n0\<close> has one word that counts
  (\<^verbatim>\<open>BN_MONT_CTX_N0_LIMBS\<close> is 1), the second is stored as zero. \<open>ctx\<close> are the numbers that \<^verbatim>\<open>BN_CTX_get\<close> still returns.
\<close>

record bn_mont_ctx =
  mont_RR :: bignum
  mont_N :: bignum
  mont_n0 :: limb
  mont_n01 :: limb

section \<open>The inverse of the modulus\<close>

definition neg_inv_step :: "u64 \<Rightarrow> u64 \<times> u64 \<Rightarrow> u64 \<times> u64" where
  "neg_inv_step beta s =
     (case s of (u, v) \<Rightarrow>
        let alpha = push_bit 63 1;
            u_is_odd = 0 - (u AND 1);
            beta_if_u_is_odd = beta AND u_is_odd;
            u = drop_bit 1 (u XOR beta_if_u_is_odd) + (u AND beta_if_u_is_odd);
            alpha_if_u_is_odd = alpha AND u_is_odd
        in (u, drop_bit 1 v + alpha_if_u_is_odd))"

definition bn_neg_inv_mod_r_u64 :: "u64 \<Rightarrow> u64" where
  "bn_neg_inv_mod_r_u64 n = snd ((neg_inv_step n ^^ 64) (1, 0))"

definition bn_mont_n0 :: "bignum \<Rightarrow> u64" where
  "bn_mont_n0 n = bn_neg_inv_mod_r_u64 (bn_d n ! 0)"

definition bn_mod_exp_base_2_consttime :: "allocator \<Rightarrow> (nat \<Rightarrow> bignum list) \<Rightarrow> bignum \<Rightarrow> nat \<Rightarrow> bignum \<Rightarrow> unit option \<times> bignum" where
  "bn_mod_exp_base_2_consttime A ctx r p n =
     (let r = BN_zero r; n_bits = BN_num_bits n
      in if n_bits = 1 then (Some (), r)
         else andthen (BN_set_bit A r (int n_bits - 1)) (\<lambda>_ r.
                bn_mod_lshift_consttime A ctx r r (int p - (int n_bits - 1)) n))"

section \<open>Contexts\<close>

definition BN_MONT_CTX_new :: "allocator \<Rightarrow> bn_mont_ctx option" where
  "BN_MONT_CTX_new A =
     (case OPENSSL_malloc A 64 of
        None \<Rightarrow> None
      | Some _ \<Rightarrow> Some \<lparr>mont_RR = BN_init, mont_N = BN_init, mont_n0 = 0, mont_n01 = 0\<rparr>)"

text \<open>\<open>same\<close> says that the two are the same context. A failed copy may leave \<open>to\<close> with the first number only.\<close>

definition BN_MONT_CTX_copy :: "allocator \<Rightarrow> bool \<Rightarrow> bn_mont_ctx \<Rightarrow> bn_mont_ctx \<Rightarrow> unit option \<times> bn_mont_ctx" where
  "BN_MONT_CTX_copy A same to from =
     (if same then (Some (), to)
      else case BN_copy A (mont_RR to) (mont_RR from) of
             (None, RR) \<Rightarrow> (None, to\<lparr>mont_RR := RR\<rparr>)
           | (Some _, RR) \<Rightarrow>
               (case BN_copy A (mont_N to) (mont_N from) of
                  (None, N) \<Rightarrow> (None, to\<lparr>mont_RR := RR, mont_N := N\<rparr>)
                | (Some _, N) \<Rightarrow> (Some (), to\<lparr>mont_RR := RR, mont_N := N, mont_n0 := mont_n0 from, mont_n01 := mont_n01 from\<rparr>)))"

definition bn_mont_ctx_set_N_and_n0 :: "allocator \<Rightarrow> bn_mont_ctx \<Rightarrow> bignum \<Rightarrow> unit option \<times> bn_mont_ctx" where
  "bn_mont_ctx_set_N_and_n0 A mont md =
     (if BN_is_zero md then (None, mont)
      else if \<not> BN_is_odd md then (None, mont)
      else if BN_is_negative md then (None, mont)
      else case BN_copy A (mont_N mont) md of
             (None, N) \<Rightarrow> (None, mont\<lparr>mont_N := N\<rparr>)
           | (Some _, N) \<Rightarrow>
               let N = bn_set_minimal_width N
               in (Some (), mont\<lparr>mont_N := N, mont_n0 := bn_mont_n0 N, mont_n01 := 0\<rparr>))"

text \<open>\<open>ctx\<close> is \<open>None\<close> when there is none and \<^verbatim>\<open>BN_CTX_new\<close> fails.\<close>

definition BN_MONT_CTX_set :: "allocator \<Rightarrow> bignum list option \<Rightarrow> bn_mont_ctx \<Rightarrow> bignum \<Rightarrow> bn_mont_ctx option option" where
  "BN_MONT_CTX_set A ctx mont md =
     (case bn_mont_ctx_set_N_and_n0 A mont md of
        (None, _) \<Rightarrow> Some None
      | (Some _, mont) \<Rightarrow>
          (case ctx of
             None \<Rightarrow> Some None
           | Some ctx \<Rightarrow>
               let lgBigR = bn_width (mont_N mont) * 64
               in case BN_set_bit A (BN_zero (mont_RR mont)) (int (lgBigR * 2)) of
                    (None, _) \<Rightarrow> Some None
                  | (Some _, RR) \<Rightarrow>
                      (case BN_mod A ctx RR RR (mont_N mont) of
                         None \<Rightarrow> None
                       | Some None \<Rightarrow> Some None
                       | Some (Some RR) \<Rightarrow>
                           (case bn_resize_words A RR (bn_width (mont_N mont)) of
                              (None, _) \<Rightarrow> Some None
                            | (Some _, RR) \<Rightarrow> Some (Some (mont\<lparr>mont_RR := RR\<rparr>))))))"

definition BN_MONT_CTX_new_for_modulus :: "allocator \<Rightarrow> bignum list option \<Rightarrow> bignum \<Rightarrow> bn_mont_ctx option option" where
  "BN_MONT_CTX_new_for_modulus A ctx md =
     (case BN_MONT_CTX_new A of None \<Rightarrow> Some None | Some mont \<Rightarrow> BN_MONT_CTX_set A ctx mont md)"

definition BN_MONT_CTX_new_consttime :: "allocator \<Rightarrow> (nat \<Rightarrow> bignum list) \<Rightarrow> bignum \<Rightarrow> bn_mont_ctx option" where
  "BN_MONT_CTX_new_consttime A ctx md =
     (case BN_MONT_CTX_new A of
        None \<Rightarrow> None
      | Some mont \<Rightarrow>
          (case bn_mont_ctx_set_N_and_n0 A mont md of
             (None, _) \<Rightarrow> None
           | (Some _, mont) \<Rightarrow>
               let lgBigR = bn_width (mont_N mont) * 64
               in case andthen (bn_mod_exp_base_2_consttime A ctx (mont_RR mont) (lgBigR * 2) (mont_N mont)) (\<lambda>_ RR.
                         bn_resize_words A RR (bn_width (mont_N mont))) of
                    (None, _) \<Rightarrow> None
                  | (Some _, RR) \<Rightarrow> Some (mont\<lparr>mont_RR := RR\<rparr>)))"

text \<open>
  The double-checked creation of a shared context: \<open>others\<close> is what the other threads do to \<^verbatim>\<open>*pmont\<close> while the lock
  is not held, between the first look at it and the second.
\<close>

definition BN_MONT_CTX_set_locked :: "allocator \<Rightarrow> bignum list option \<Rightarrow> (bn_mont_ctx option \<Rightarrow> bn_mont_ctx option) \<Rightarrow> bn_mont_ctx option \<Rightarrow> bignum \<Rightarrow>
    (bool \<times> bn_mont_ctx option) option" where
  "BN_MONT_CTX_set_locked A ctx others pmont md =
     (case pmont of
        Some _ \<Rightarrow> Some (True, pmont)
      | None \<Rightarrow>
          (case others pmont of
             Some mont \<Rightarrow> Some (True, Some mont)
           | None \<Rightarrow>
               (case BN_MONT_CTX_new_for_modulus A ctx md of
                  None \<Rightarrow> None
                | Some pmont \<Rightarrow> Some (pmont \<noteq> None, pmont))))"

section \<open>Reduction\<close>

text \<open>One turn of the loop: a multiple of the modulus makes the word \<open>i\<close> zero.\<close>

definition mont_step :: "limb list \<Rightarrow> limb \<Rightarrow> nat \<Rightarrow> limb list \<times> limb \<Rightarrow> limb list \<times> limb" where
  "mont_step n n0 i s =
     (case s of (a, carry) \<Rightarrow>
        let num_n = length n
        in case bn_mul_add_words (take num_n (drop i a)) n (a ! i * n0) of (ws, v) \<Rightarrow>
             let a = store a i ws;
                 v = v + (carry + a ! (i + num_n));
                 carry = carry OR (if v \<noteq> a ! (i + num_n) then 1 else 0);
                 carry = carry AND (if v \<le> a ! (i + num_n) then 1 else 0)
             in (a[i + num_n := v], carry))"

definition bn_from_montgomery_in_place :: "nat \<Rightarrow> limb list \<Rightarrow> bn_mont_ctx \<Rightarrow> limb list option" where
  "bn_from_montgomery_in_place num_r a mont =
     (let num_n = bn_width (mont_N mont); n = take num_n (bn_d (mont_N mont))
      in if num_r \<noteq> num_n \<or> length a \<noteq> 2 * num_n then None
         else case fold (mont_step n (mont_n0 mont)) [0..<num_n] (a, 0) of (a, carry) \<Rightarrow>
                Some (fst (bn_reduce_once (drop num_n a) carry n)))"

text \<open>\<open>r\<close> is overwritten by the reduction; only the result \<open>ret\<close> is returned.\<close>

definition BN_from_montgomery_word :: "allocator \<Rightarrow> bignum \<Rightarrow> bignum \<Rightarrow> bn_mont_ctx \<Rightarrow> unit option \<times> bignum" where
  "BN_from_montgomery_word A ret r mont =
     (if bn_neg r then (None, ret)
      else
        let n = mont_N mont
        in if bn_width n = 0 then (Some (), ret\<lparr>bn_width := 0\<rparr>)
           else case bn_resize_words A r (2 * bn_width n) of
                  (None, _) \<Rightarrow> (None, ret)
                | (Some _, r) \<Rightarrow>
                    andthen (bn_wexpand A ret (bn_width n)) (\<lambda>_ ret.
                      let ret = ret\<lparr>bn_width := bn_width n, bn_neg := False\<rparr>
                      in case bn_from_montgomery_in_place (bn_width ret) (take (bn_width r) (bn_d r)) mont of
                           None \<Rightarrow> (None, ret)
                         | Some ws \<Rightarrow> (Some (), ret\<lparr>bn_d := store (bn_d ret) 0 ws\<rparr>)))"

definition BN_from_montgomery :: "allocator \<Rightarrow> bignum list \<Rightarrow> bignum \<Rightarrow> bignum \<Rightarrow> bn_mont_ctx \<Rightarrow> unit option \<times> bignum" where
  "BN_from_montgomery A ctx r a mont =
     (case next_ctx ctx of
        (None, _) \<Rightarrow> (None, r)
      | (Some t, _) \<Rightarrow>
          (case BN_copy A t a of (None, _) \<Rightarrow> (None, r) | (Some _, t) \<Rightarrow> BN_from_montgomery_word A r t mont))"

definition bn_one_to_montgomery :: "allocator \<Rightarrow> bignum list \<Rightarrow> bignum \<Rightarrow> bn_mont_ctx \<Rightarrow> unit option \<times> bignum" where
  "bn_one_to_montgomery A ctx r mont =
     (let n = mont_N mont
      in if bn_width n > 0 \<and> drop_bit 63 (bn_d n ! (bn_width n - 1)) \<noteq> 0
         then andthen (bn_wexpand A r (bn_width n)) (\<lambda>_ r.
                let ws = (0 - bn_d n ! 0) # map NOT (drop 1 (take (bn_width n) (bn_d n)))
                in (Some (), r\<lparr>bn_d := store (bn_d r) 0 ws, bn_width := bn_width n, bn_neg := False\<rparr>))
         else BN_from_montgomery A ctx r (mont_RR mont) mont)"

section \<open>Products\<close>

text \<open>\<open>same\<close> says that \<^verbatim>\<open>a\<close> and \<^verbatim>\<open>b\<close> are the same pointer; \<open>s\<close> is the scratch space of the product.\<close>

definition bn_mod_mul_montgomery_fallback :: "allocator \<Rightarrow> bool \<Rightarrow> bignum list \<Rightarrow> bignum option \<Rightarrow> bignum \<Rightarrow> bignum \<Rightarrow> bignum \<Rightarrow> bn_mont_ctx \<Rightarrow>
    unit option \<times> bignum" where
  "bn_mod_mul_montgomery_fallback A same ctx s r a b mont =
     (case next_ctx ctx of
        (None, _) \<Rightarrow> (None, r)
      | (Some tmp, _) \<Rightarrow>
          (case (if same then bn_sqr_consttime A False None s tmp a else bn_mul_consttime A False None s tmp a b) of
             (None, _) \<Rightarrow> (None, r)
           | (Some _, tmp) \<Rightarrow> BN_from_montgomery_word A r tmp mont))"

definition BN_mod_mul_montgomery :: "allocator \<Rightarrow> bool \<Rightarrow> bignum list \<Rightarrow> bignum option \<Rightarrow> bignum \<Rightarrow> bignum \<Rightarrow> bignum \<Rightarrow> bn_mont_ctx \<Rightarrow>
    unit option \<times> bignum" where
  "BN_mod_mul_montgomery A same ctx s r a b mont =
     (if bn_neg a \<or> bn_neg b then (None, r) else bn_mod_mul_montgomery_fallback A same ctx s r a b mont)"

definition BN_to_montgomery :: "allocator \<Rightarrow> bignum list \<Rightarrow> bignum option \<Rightarrow> bignum \<Rightarrow> bignum \<Rightarrow> bn_mont_ctx \<Rightarrow> unit option \<times> bignum" where
  "BN_to_montgomery A ctx s r a mont = BN_mod_mul_montgomery A False ctx s r a (mont_RR mont) mont"

definition bn_less_than_montgomery_R :: "bignum \<Rightarrow> bn_mont_ctx \<Rightarrow> bool" where
  "bn_less_than_montgomery_R bn mont \<longleftrightarrow> \<not> BN_is_negative bn \<and> bn_fits_in_words bn (bn_width (mont_N mont))"

text \<open>The versions on words; \<open>None\<close> is \<^verbatim>\<open>abort\<close>.\<close>

definition bn_from_montgomery_small :: "limb list \<Rightarrow> bn_mont_ctx \<Rightarrow> limb list option" where
  "bn_from_montgomery_small a mont =
     (let num = length a
      in if num \<noteq> bn_width (mont_N mont) \<or> num > BN_SMALL_MAX_WORDS then None
         else bn_from_montgomery_in_place num (a @ replicate num 0) mont)"

definition bn_mod_mul_montgomery_small :: "bool \<Rightarrow> limb list \<Rightarrow> limb list \<Rightarrow> bn_mont_ctx \<Rightarrow> limb list option" where
  "bn_mod_mul_montgomery_small same a b mont =
     (let num = length a
      in if num \<noteq> bn_width (mont_N mont) \<or> num > BN_SMALL_MAX_WORDS then None
         else case (if same then bn_sqr_small (2 * num) a else bn_mul_small (2 * num) a b) of
                None \<Rightarrow> None
              | Some tmp \<Rightarrow> bn_from_montgomery_in_place num tmp mont)"

definition bn_to_montgomery_small :: "limb list \<Rightarrow> bn_mont_ctx \<Rightarrow> limb list option" where
  "bn_to_montgomery_small a mont = bn_mod_mul_montgomery_small False a (take (length a) (bn_d (mont_RR mont))) mont"

section \<open>The inverse\<close>

lemma uint_half: "uint (drop_bit 1 w) = uint w div 2" for w :: u64
  unfolding drop_bit_eq_div by (simp add: uint_div_distrib)

lemma dietz: "uint (drop_bit 1 (u XOR b) + (u AND b)) = (uint u + uint b) div 2" for u b :: u64
proof -
  have o: "(x XOR y) + 2 * (x AND y) = x + y" for x y :: int
  proof -
    have "(x XOR y) AND (x AND y) = 0" by (auto simp: bit_eq_iff bit_simps)
    then have "(x XOR y) + (x AND y) = (x XOR y) OR (x AND y)" by (rule disjunctive_add_eq_or)
    also have "\<dots> = x OR y" by (auto simp: bit_eq_iff bit_simps)
    finally show ?thesis using plus_and_or [of x y] by simp
  qed
  have "(uint u + uint b) div 2 = ((uint u XOR uint b) + 2 * (uint u AND uint b)) div 2" unfolding o ..
  also have "\<dots> = (uint u XOR uint b) div 2 + (uint u AND uint b)" by simp
  also have "\<dots> = uint (drop_bit 1 (u XOR b)) + uint (u AND b)" by (simp only: uint_half unsigned_xor_eq unsigned_and_eq)
  finally have e: "(uint u + uint b) div 2 = uint (drop_bit 1 (u XOR b)) + uint (u AND b)" .
  have "uint u + uint b < 2 * radix" using uint_limb(2) [of u] uint_limb(2) [of b] by linarith
  then have "(uint u + uint b) div 2 < radix" by simp
  moreover have "0 \<le> (uint u + uint b) div 2" by simp
  ultimately show ?thesis using e by (simp add: uint_word_ariths radix_def)
qed

lemma parity_mask: "0 - (u AND 1) = mask_of (odd (uint u))" for u :: u64
proof -
  have "odd (uint u) \<longleftrightarrow> odd u" by (simp add: bit_uint_iff flip: bit_0)
  then show ?thesis by (cases "odd u") (simp_all add: and_one_eq mod_2_eq_odd mask_of_def)
qed

lemma neg_inv_step:
  assumes inv: "2 ^ Suc i = uint u * radix - uint v * uint n" and n: "odd (uint n)" and s: "neg_inv_step n (u, v) = (u', v')"
  shows "2 ^ i = uint u' * radix - uint v' * uint n"
proof -
  define o' where "o' = odd (uint u)"
  have u': "u' = drop_bit 1 (u XOR (n AND mask_of o')) + (u AND (n AND mask_of o'))"
    and v': "v' = drop_bit 1 v + (push_bit 63 1 AND mask_of o')"
    using s unfolding neg_inv_step_def Let_def parity_mask o'_def prod.case prod.inject by simp_all
  have bm: "n AND mask_of o' = (if o' then n else 0)" by (simp add: mask_of_def)
  have uu: "uint u' = (uint u + (if o' then uint n else 0)) div 2" unfolding u' dietz bm by simp
  have "uint v * uint n = uint u * radix - 2 ^ Suc i" using inv by simp
  then have "even (uint v * uint n)" by (simp add: radix_def)
  then have ev: "even (uint v)" using n by simp
  have vv: "uint v' = uint v div 2 + (if o' then 2 ^ 63 else 0)"
  proof -
    have "uint (drop_bit 1 v) = uint v div 2" by (rule uint_half)
    moreover have "uint v div 2 < 2 ^ 63" "0 \<le> uint v div 2" using uint_limb [of v] by (simp_all add: radix_def)
    ultimately show ?thesis unfolding v' by (simp add: mask_of_def uint_word_ariths push_bit_eq_mult)
  qed
  have eu: "even (uint u + (if o' then uint n else 0))" using n by (simp add: o'_def)
  have "2 * (uint u' * radix - uint v' * uint n) = 2 * uint u' * radix - 2 * uint v' * uint n" by (simp add: right_diff_distrib)
  also have "2 * uint u' = uint u + (if o' then uint n else 0)" unfolding uu using eu by simp
  also have "2 * uint v' = uint v + (if o' then radix else 0)" unfolding vv using ev by (simp add: radix_def)
  also have "(uint u + (if o' then uint n else 0)) * radix - (uint v + (if o' then radix else 0)) * uint n = uint u * radix - uint v * uint n"
    by (simp add: algebra_simps)
  also have "\<dots> = 2 * 2 ^ i" using inv by simp
  finally show ?thesis by simp
qed

lemma bn_neg_inv_mod_r_u64:
  assumes "odd (uint n)"
  shows "(uint (bn_neg_inv_mod_r_u64 n) * uint n + 1) mod radix = 0"
proof -
  have "2 ^ (64 - k) = uint (fst ((neg_inv_step n ^^ k) (1, 0))) * radix - uint (snd ((neg_inv_step n ^^ k) (1, 0))) * uint n" if "k \<le> 64" for k
    using that
  proof (induction k)
    case 0
    then show ?case by (simp add: radix_def)
  next
    case (Suc k)
    have "Suc (64 - Suc k) = 64 - k" using Suc.prems by simp
    then have "2 ^ Suc (64 - Suc k) = uint (fst ((neg_inv_step n ^^ k) (1, 0))) * radix - uint (snd ((neg_inv_step n ^^ k) (1, 0))) * uint n"
      using Suc by simp
    from neg_inv_step [OF this assms, of "fst (neg_inv_step n ((neg_inv_step n ^^ k) (1, 0)))" "snd (neg_inv_step n ((neg_inv_step n ^^ k) (1, 0)))"]
    show ?case by simp
  qed
  from this [of 64] have "uint (bn_neg_inv_mod_r_u64 n) * uint n + 1 = uint (fst ((neg_inv_step n ^^ 64) (1, 0))) * radix"
    by (simp add: bn_neg_inv_mod_r_u64_def)
  then show ?thesis by simp
qed

section \<open>The reduction\<close>

lemma mont_carry:
  fixes v c x :: limb
  assumes "uint c \<le> 1"
  defines "w \<equiv> v + (c + x)"
  defines "c' \<equiv> (c OR (if w \<noteq> x then 1 else 0)) AND (if w \<le> x then 1 else 0)"
  shows "uint w + radix * uint c' = uint v + uint c + uint x" "uint c' \<le> 1"
proof -
  have c: "c = 0 \<or> c = 1"
  proof -
    have "uint c = 0 \<or> uint c = 1" using assms(1) uint_limb(1) [of c] by linarith
    then show ?thesis by (metis unsigned_0 unsigned_1 unsigned_word_eqI)
  qed
  have b: "uint v < radix" "uint x < radix" "0 \<le> uint v" "0 \<le> uint x" "uint c \<le> 1" "0 \<le> uint c" using assms(1) by simp_all
  define t where "t = uint v + uint c + uint x"
  have w: "uint w = t mod radix" unfolding w_def t_def by (simp add: uint_add_limb mod_simps ac_simps)
  have le: "w \<le> x \<longleftrightarrow> uint w \<le> uint x" and eq: "w = x \<longleftrightarrow> uint w = uint x" by (simp_all add: word_le_def word_uint_eq_iff)
  have c'01: "c' = (if (c = 1 \<or> w \<noteq> x) \<and> w \<le> x then 1 else 0)" using c by (auto simp: c'_def)
  then show "uint c' \<le> 1" by simp
  have c1: "c = 1 \<longleftrightarrow> uint c = 1" using c by auto
  show "uint w + radix * uint c' = uint v + uint c + uint x"
  proof (cases "t < radix")
    case True
    then have "uint w = t" unfolding w using b by (intro mod_pos_pos_trivial) (simp_all add: t_def)
    moreover have "\<not> ((c = 1 \<or> w \<noteq> x) \<and> w \<le> x)"
    proof
      assume a: "(c = 1 \<or> w \<noteq> x) \<and> w \<le> x"
      then have "uint v + uint c \<le> 0" using \<open>uint w = t\<close> by (simp add: le t_def)
      then have "uint v = 0" "uint c = 0" using b by linarith+
      then show False using a \<open>uint w = t\<close> by (simp add: c1 eq t_def)
    qed
    ultimately show ?thesis by (simp add: c'01 t_def)
  next
    case False
    have "uint w = (t - radix) mod radix" unfolding w by simp
    also have "\<dots> = t - radix"
    proof (rule mod_pos_pos_trivial)
      show "0 \<le> t - radix" "t - radix < radix" using False b unfolding t_def by linarith+
    qed
    finally have wt: "uint w = t - radix" .
    have "uint w \<le> uint x" using wt b unfolding t_def by linarith
    moreover have "uint c = 1 \<or> uint w \<noteq> uint x" using wt b unfolding t_def by linarith
    ultimately have "(c = 1 \<or> w \<noteq> x) \<and> w \<le> x" unfolding le eq c1 by blast
    then have "c' = 1" unfolding c'01 by (rule if_P)
    then have e: "uint c' = 1" by simp
    show ?thesis unfolding e wt t_def by simp
  qed
qed

lemma cancel_low: "(m + m * n mod r * k) mod r = (m * (n * k + 1)) mod r" for m n r k :: int
proof -
  have "(m + m * n mod r * k) mod r = (m + m * n * k) mod r" by (metis mod_add_right_eq mod_mult_left_eq)
  then show ?thesis by (simp add: algebra_simps)
qed

lemma mont_step:
  assumes l: "length n = k" "length a = 2 * k" "i < k" and c: "uint c \<le> 1" and z: "take i a = replicate i 0"
    and n0: "(uint n0 * uint (n ! 0) + 1) mod radix = 0" and s: "mont_step n n0 i (a, c) = (a', c')"
  shows "length a' = 2 * k \<and> uint c' \<le> 1 \<and> take (Suc i) a' = replicate (Suc i) 0 \<and>
    bn_val a' + radix ^ (Suc i + k) * uint c' = bn_val a + radix ^ (i + k) * uint c + radix ^ i * uint (a ! i * n0) * bn_val n"
proof -
  define mid x rest where "mid = take k (drop i a)" and "x = a ! (i + k)" and "rest = drop (Suc (i + k)) a"
  have mid: "length mid = k" using l by (simp add: mid_def)
  have "drop (i + k) a = x # rest" using l by (simp add: x_def rest_def Cons_nth_drop_Suc)
  moreover have "drop i a = mid @ drop (i + k) a" 
    using append_take_drop_id [of k "drop i a"] by (simp add: mid_def add.commute)
  ultimately have a: "a = replicate i 0 @ mid @ x # rest" using z append_take_drop_id [of i a] by simp
  define m where "m = a ! i * n0"
  obtain ws v where w: "bn_mul_add_words mid n m = (ws, v)" by (rule prod.exhaust)
  have wv: "length ws = k" "bn_val ws + radix ^ k * uint v = bn_val mid + uint m * bn_val n"
    using bn_mul_add_words_val [OF w] mid l(1) by simp_all
  define u where "u = v + (c + x)"
  have st: "store a i ws = replicate i 0 @ ws @ x # rest" using mid wv(1) by (simp add: store_def a)
  have nth: "(replicate i 0 @ ws @ x # rest) ! (i + k) = x" using wv(1) by (simp add: nth_append)
  have upd: "(replicate i 0 @ ws @ x # rest)[i + k := u] = replicate i 0 @ ws @ u # rest" using wv(1) by (simp add: list_update_append)
  have a': "a' = replicate i 0 @ ws @ u # rest" and c': "c' = (c OR (if u \<noteq> x then 1 else 0)) AND (if u \<le> x then 1 else 0)"
    using s [unfolded mont_step_def Let_def prod.case l(1), folded mid_def m_def, unfolded w prod.case st nth, folded u_def, unfolded upd] by simp_all
  note cr = mont_carry [OF c, of v x, folded u_def, folded c']
  have "length a' = 2 * k" using l(2) mid wv(1) unfolding a' by (subst (asm) a) simp
  moreover have "uint c' \<le> 1" by (rule cr(2))
  moreover have "take (Suc i) a' = replicate (Suc i) 0"
  proof -
    obtain w0 ws' where ws: "ws = w0 # ws'" using wv(1) l(3) by (cases ws) auto
    obtain m0 mid' where mi: "mid = m0 # mid'" using mid l(3) by (cases mid) auto
    obtain n' nr where n: "n = n' # nr" using l(1,3) by (cases n) auto
    have ai: "a ! i = m0" using mi by (subst a) (simp add: nth_append)
    obtain j where k: "k = Suc j" using l(3) by (cases k) auto
    have "uint w0 = (bn_val ws + radix ^ k * uint v) mod radix" by (simp add: ws k mult.assoc)
    also have "\<dots> = (uint m0 + uint m * uint n') mod radix"
    proof -
      have "bn_val mid + uint m * bn_val n = (uint m0 + uint m * uint n') + radix * (bn_val mid' + uint m * bn_val nr)" by (simp add: mi n algebra_simps)
      then show ?thesis unfolding wv(2) by simp
    qed
    also have "uint m = (uint m0 * uint n0) mod radix" by (simp add: m_def ai uint_word_ariths radix_def)
    also have "(uint m0 + uint m0 * uint n0 mod radix * uint n') mod radix = (uint m0 * (uint n0 * uint n' + 1)) mod radix"
      by (rule cancel_low)
    also have "\<dots> = 0" using n0 unfolding n by (metis mod_mult_right_eq mult_zero_right mod_0 nth_Cons_0)
    finally have "w0 = 0" by (simp add: unsigned_eq_0_iff)
    then show ?thesis unfolding a' ws by (simp add: replicate_append_same)
  qed
  moreover have "bn_val a' + radix ^ (Suc i + k) * uint c' = bn_val a + radix ^ (i + k) * uint c + radix ^ i * uint (a ! i * n0) * bn_val n"
  proof -
    have "bn_val a' + radix ^ (Suc i + k) * uint c' = radix ^ i * (bn_val ws + radix ^ k * ((uint u + radix * uint c') + radix * bn_val rest))"
      unfolding a' using wv(1) by (simp add: bn_val_append power_add algebra_simps)
    also have "\<dots> = radix ^ i * ((bn_val ws + radix ^ k * uint v) + radix ^ k * (uint c + uint x + radix * bn_val rest))"
      unfolding cr(1) by (simp add: algebra_simps)
    also have "\<dots> = radix ^ i * (bn_val mid + radix ^ k * (uint x + radix * bn_val rest)) + radix ^ (i + k) * uint c + radix ^ i * uint m * bn_val n"
      unfolding wv(2) by (simp add: power_add algebra_simps)
    also have "radix ^ i * (bn_val mid + radix ^ k * (uint x + radix * bn_val rest)) = bn_val a"
      using mid by (subst a) (simp add: bn_val_append)
    finally show ?thesis by (simp add: m_def)
  qed
  ultimately show ?thesis by blast
qed

lemma mont_loop:
  assumes l: "length n = k" "length a = 2 * k" and n0: "(uint n0 * uint (n ! 0) + 1) mod radix = 0"
  shows "j \<le> k \<Longrightarrow> \<exists>a' c' M. fold (mont_step n n0) [0..<j] (a, 0) = (a', c') \<and> length a' = 2 * k \<and> uint c' \<le> 1 \<and> take j a' = replicate j 0 \<and>
    0 \<le> M \<and> M < radix ^ j \<and> bn_val a' + radix ^ (j + k) * uint c' = bn_val a + M * bn_val n"
proof (induction j)
  case 0
  then show ?case using l(2) by (intro exI [of _ a] exI [of _ 0]) simp
next
  case (Suc j)
  then obtain a1 c1 M where 1: "fold (mont_step n n0) [0..<j] (a, 0) = (a1, c1)" "length a1 = 2 * k" "uint c1 \<le> 1" "take j a1 = replicate j 0"
      "0 \<le> M" "M < radix ^ j" "bn_val a1 + radix ^ (j + k) * uint c1 = bn_val a + M * bn_val n" by auto
  obtain a' c' where s: "mont_step n n0 j (a1, c1) = (a', c')" by (rule prod.exhaust)
  define m where "m = uint (a1 ! j * n0)"
  have m: "0 \<le> m" "m \<le> radix - 1" using uint_limb_le [of "a1 ! j * n0"] by (simp_all add: m_def)
  note v = mont_step [OF l(1) 1(2) _ 1(3,4) n0 s, folded m_def]
  have "radix ^ j * m \<le> radix ^ j * (radix - 1)" using m by (intro mult_left_mono) simp_all
  then have "M + radix ^ j * m < radix ^ Suc j" using 1(6) by (simp add: algebra_simps)
  moreover have "bn_val a' + radix ^ (Suc j + k) * uint c' = bn_val a + (M + radix ^ j * m) * bn_val n"
    using v Suc.prems 1(7) by (simp add: algebra_simps)
  moreover have "0 \<le> M + radix ^ j * m" using 1(5) m(1) by simp
  moreover have "fold (mont_step n n0) [0..<Suc j] (a, 0) = (a', c')" using 1(1) s by simp
  ultimately show ?case using v Suc.prems by auto
qed

text \<open>The context of an odd modulus: the inverse of its low word and the square of \<open>R\<close>.\<close>

definition mont_R :: "bn_mont_ctx \<Rightarrow> int" where
  "mont_R mont = radix ^ bn_width (mont_N mont)"

definition mont_inv :: "bn_mont_ctx \<Rightarrow> bool" where
  "mont_inv mont \<longleftrightarrow> bn_ok (mont_N mont) \<and> \<not> bn_neg (mont_N mont) \<and> odd (bn_abs (mont_N mont)) \<and> trimmed (mont_N mont) \<and>
     (uint (mont_n0 mont) * uint (bn_d (mont_N mont) ! 0) + 1) mod radix = 0"

definition mont_ok :: "bn_mont_ctx \<Rightarrow> bool" where
  "mont_ok mont \<longleftrightarrow> mont_inv mont \<and> bn_ok (mont_RR mont) \<and> \<not> bn_neg (mont_RR mont) \<and> bn_width (mont_RR mont) = bn_width (mont_N mont) \<and>
     bn_abs (mont_RR mont) = mont_R mont * mont_R mont mod bn_abs (mont_N mont)"

lemma mont_inv:
  assumes "mont_inv mont"
  shows "0 < bn_width (mont_N mont)" "0 < bn_abs (mont_N mont)" "bn_abs (mont_N mont) < mont_R mont" "coprime (mont_R mont) (bn_abs (mont_N mont))"
proof -
  have ok: "bn_ok (mont_N mont)" "odd (bn_abs (mont_N mont))" using assms by (simp_all add: mont_inv_def)
  then have "bn_abs (mont_N mont) \<noteq> 0" by auto
  then show "0 < bn_abs (mont_N mont)" using bn_abs_nonneg [of "mont_N mont"] by linarith
  show "0 < bn_width (mont_N mont)"
  proof (rule ccontr)
    assume "\<not> ?thesis"
    then show False using \<open>bn_abs (mont_N mont) \<noteq> 0\<close> by (simp add: bn_abs_def bn_limbs_def)
  qed
  show "bn_abs (mont_N mont) < mont_R mont" unfolding mont_R_def by (rule bn_abs_bound [OF ok(1)])
  show "coprime (mont_R mont) (bn_abs (mont_N mont))" using ok(2) unfolding mont_R_def radix_power by simp
qed

lemma bn_from_montgomery_in_place:
  assumes inv: "mont_inv mont" and l: "length a = 2 * bn_width (mont_N mont)" and lt: "bn_val a < bn_abs (mont_N mont) * mont_R mont"
  shows "\<exists>r. bn_from_montgomery_in_place (bn_width (mont_N mont)) a mont = Some r \<and> length r = bn_width (mont_N mont) \<and>
    bn_val r < bn_abs (mont_N mont) \<and> bn_val r * mont_R mont mod bn_abs (mont_N mont) = bn_val a mod bn_abs (mont_N mont)"
proof -
  define k n N R where "k = bn_width (mont_N mont)" and "n = bn_limbs (mont_N mont)" and "N = bn_abs (mont_N mont)" and "R = mont_R mont"
  note i = mont_inv [OF inv, folded k_def N_def R_def]
  have n: "length n = k" "bn_val n = N" using inv by (simp_all add: n_def k_def N_def mont_inv_def bn_abs_def)
  have "n ! 0 = bn_d (mont_N mont) ! 0" using i(1) by (simp add: n_def bn_limbs_def k_def)
  then have n0: "(uint (mont_n0 mont) * uint (n ! 0) + 1) mod radix = 0" using inv by (simp add: mont_inv_def)
  have l: "length a = 2 * k" using l by (simp add: k_def)
  from mont_loop [OF n(1) l n0, of k] obtain a' c M where
    f: "fold (mont_step n (mont_n0 mont)) [0..<k] (a, 0) = (a', c)" "length a' = 2 * k" "take k a' = replicate k 0" "0 \<le> M" "M < radix ^ k"
      "bn_val a' + radix ^ (k + k) * uint c = bn_val a + M * N" unfolding n(2) by auto
  have R: "R = radix ^ k" by (simp add: R_def mont_R_def k_def)
  define V where "V = bn_val (drop k a') + R * uint c"
  have "bn_val a' = R * bn_val (drop k a')" using halves [of k a'] f(2,3) by (simp add: R)
  then have V: "R * V = bn_val a + M * N" using f(6) by (simp add: V_def R power_add algebra_simps)
  have P: "0 < R" by (simp add: R)
  have "M * N \<le> R * N" using f(5) i(2) by (intro mult_right_mono) (simp_all add: R)
  then have "R * V < R * (2 * N)" using lt unfolding V by (simp add: N_def R_def algebra_simps)
  then have V2: "V < 2 * N" using P by simp
  obtain x c' where x: "bn_reduce_once_in_place (drop k a') c n = (x, c')" by (rule prod.exhaust)
  have "bn_val (drop k a') + radix ^ k * uint c < 2 * bn_val n" using V2 by (simp add: V_def R n(2))
  from reduce_once [OF _ n(1) this x] f(2) have r: "length x = k" "bn_val x = (if V < N then V else V - N)" by (simp_all add: V_def R n(2))
  have e: "bn_from_montgomery_in_place k a mont = Some x"
  proof -
    have "take k (bn_d (mont_N mont)) = n" by (simp add: n_def bn_limbs_def k_def)
    then show ?thesis using l by (simp add: bn_from_montgomery_in_place_def Let_def f(1) reduce_once_in_place x flip: k_def)
  qed
  have "R * (V - N) mod N = (R * (V - N) + R * N) mod N" by simp
  also have "\<dots> = R * V mod N" by (simp add: right_diff_distrib)
  finally have "bn_val x * R mod N = R * V mod N" unfolding r(2) by (cases "V < N") (simp_all add: mult.commute)
  also have "\<dots> = bn_val a mod N" unfolding V by simp
  finally show ?thesis using e r(1) V2 unfolding k_def [symmetric] N_def [symmetric] R_def [symmetric] by (auto simp: r(2))
qed

end
