(* ===== verification/Bn_Mont_Exact.thy ===== *)
theory Bn_Mont_Exact
  imports Bn_Mont
begin

text \<open>
  What the operations of \<^verbatim>\<open>fipsmodule/bn/montgomery.c\<close> compute: the reductions of numbers, the products in Montgomery
  form, the contexts, and when the calls succeed.
\<close>

section \<open>Reductions of numbers\<close>

lemma bn_resize_words_any:
  assumes r: "bn_resize_words A a n = (Some u, r)" and A: "malloc_spec A" and ok: "bn_ok a"
  shows "bn_ok r \<and> bn_width r = n \<and> bn_abs r = bn_abs a \<and> bn_neg r = bn_neg a"
proof (cases "bn_width a \<le> n")
  case True
  then show ?thesis using bn_resize_words_Some [OF r A ok] by simp
next
  case False
  then have f: "bn_fits_in_words a n" and e: "r = a\<lparr>bn_width := n\<rparr>" using r by (simp_all add: bn_resize_words_def split: if_splits)
  have "bn_abs a < radix ^ n" using f bn_fits_in_words [OF ok] by simp
  from low_words [OF ok _ this] False have "bn_val (take n (bn_d a)) = bn_abs a" by simp
  then show ?thesis using False ok by (simp add: e bn_ok_def bn_abs_def bn_limbs_def)
qed

text \<open>\<open>bn\<close> is the residue of \<open>v\<close> divided by \<open>R\<close>, in as many words as the modulus.\<close>

definition mont_reduced :: "bn_mont_ctx \<Rightarrow> bignum \<Rightarrow> int \<Rightarrow> bool" where
  "mont_reduced mont bn v \<longleftrightarrow> bn_ok bn \<and> \<not> bn_neg bn \<and> bn_width bn = bn_width (mont_N mont) \<and> bn_abs bn < bn_abs (mont_N mont) \<and>
     bn_abs bn * mont_R mont mod bn_abs (mont_N mont) = v mod bn_abs (mont_N mont)"

text \<open>\<open>bn\<close> is \<open>v\<close> in Montgomery form.\<close>

definition mont_form :: "bn_mont_ctx \<Rightarrow> bignum \<Rightarrow> int \<Rightarrow> bool" where
  "mont_form mont bn v \<longleftrightarrow> bn_ok bn \<and> \<not> bn_neg bn \<and> bn_width bn = bn_width (mont_N mont) \<and>
     bn_abs bn = v * mont_R mont mod bn_abs (mont_N mont)"

lemma mont_cancel:
  assumes "mont_inv mont" "v * mont_R mont mod bn_abs (mont_N mont) = w * mont_R mont mod bn_abs (mont_N mont)"
  shows "v mod bn_abs (mont_N mont) = w mod bn_abs (mont_N mont)"
proof -
  have "bn_abs (mont_N mont) dvd (v - w) * mont_R mont" using assms(2) by (simp add: mod_eq_dvd_iff left_diff_distrib)
  then have "bn_abs (mont_N mont) dvd v - w"
    using mont_inv(4) [OF assms(1)] by (simp add: coprime_commute coprime_dvd_mult_left_iff)
  then show ?thesis by (simp add: mod_eq_dvd_iff)
qed

lemma mont_reduced_eq:
  assumes "mont_inv mont" "mont_reduced mont bn (v * mont_R mont)"
  shows "bn_abs bn = v mod bn_abs (mont_N mont)"
proof -
  have r: "bn_abs bn < bn_abs (mont_N mont)" "bn_abs bn * mont_R mont mod bn_abs (mont_N mont) = v * mont_R mont mod bn_abs (mont_N mont)"
    using assms(2) unfolding mont_reduced_def by blast+
  have "bn_abs bn = bn_abs bn mod bn_abs (mont_N mont)" using r(1) by simp
  also have "\<dots> = v mod bn_abs (mont_N mont)" by (rule mont_cancel [OF assms(1) r(2)])
  finally show ?thesis .
qed

lemma mont_form_of: "mont_inv mont \<Longrightarrow> mont_reduced mont bn (v * mont_R mont * mont_R mont) \<Longrightarrow> mont_form mont bn v"
  using mont_reduced_eq [of mont bn "v * mont_R mont"] unfolding mont_reduced_def mont_form_def by blast

lemma mont_reduced_cong: "v mod bn_abs (mont_N mont) = w mod bn_abs (mont_N mont) \<Longrightarrow> mont_reduced mont bn v = mont_reduced mont bn w"
  by (simp add: mont_reduced_def)

lemma BN_from_montgomery_word_Some:
  assumes inv: "mont_inv mont" and A: "malloc_spec A" and ok: "bn_ok ret" "bn_ok r" and lt: "bn_abs r < bn_abs (mont_N mont) * mont_R mont"
    and call: "BN_from_montgomery_word A ret r mont = (Some u, ret')"
  shows "\<not> bn_neg r \<and> mont_reduced mont ret' (bn_abs r)"
proof -
  define k where "k = bn_width (mont_N mont)"
  have k: "k \<noteq> 0" using mont_inv(1) [OF inv] by (simp add: k_def)
  have neg: "\<not> bn_neg r" using call by (auto simp: BN_from_montgomery_word_def)
  note c1 = call [unfolded BN_from_montgomery_word_def Let_def if_not_P [OF neg], folded k_def, unfolded if_not_P [OF k]]
  obtain s where s: "bn_resize_words A r (2 * k) = (Some (), s)"
    using c1 by (cases "bn_resize_words A r (2 * k)"; cases "fst (bn_resize_words A r (2 * k))") auto
  note z = bn_resize_words_any [OF s A ok(2)]
  note c2 = c1 [unfolded s prod.case option.case]
  obtain d where d: "bn_wexpand A ret k = (Some (), d)" using c2 by (auto elim!: andthen_SomeE)
  have l: "length (take (bn_width s) (bn_d s)) = 2 * k" "bn_val (take (bn_width s) (bn_d s)) = bn_abs r"
    using z by (auto simp: bn_ok_def bn_abs_def bn_limbs_def)
  obtain ws where w: "bn_from_montgomery_in_place k (take (bn_width s) (bn_d s)) mont = Some ws" "length ws = k"
      "bn_val ws < bn_abs (mont_N mont)" "bn_val ws * mont_R mont mod bn_abs (mont_N mont) = bn_abs r mod bn_abs (mont_N mont)"
    using bn_from_montgomery_in_place [OF inv, of "take (bn_width s) (bn_d s)"] lt l unfolding k_def [symmetric] by metis
  define f where "f = d\<lparr>bn_d := store (bn_d d) 0 ws, bn_width := k, bn_neg := False\<rparr>"
  have "ret' = f" using c2 unfolding d by (cases d) (auto simp: w(1) f_def)
  then show ?thesis
    using neg bn_words_stored [OF d A ok(1) w(2), of False] w(3,4) unfolding mont_reduced_def k_def [symmetric] f_def [symmetric]
    by (simp add: f_def)
qed

lemma BN_from_montgomery_Some:
  assumes inv: "mont_inv mont" and A: "malloc_spec A" and ok: "bn_ok r" "bn_ok a" "\<forall>c \<in> set ctx. bn_ok c"
    and lt: "bn_abs a < bn_abs (mont_N mont) * mont_R mont" and call: "BN_from_montgomery A ctx r a mont = (Some u, r')"
  shows "\<not> bn_neg a \<and> mont_reduced mont r' (bn_abs a)"
proof -
  obtain t ctx' where ctx: "ctx = t # ctx'" using call by (cases ctx) (auto simp: BN_from_montgomery_def)
  obtain s where s: "BN_copy A t a = (Some (), s)" "BN_from_montgomery_word A r s mont = (Some u, r')"
    using call unfolding BN_from_montgomery_def ctx by (auto split: prod.splits option.splits)
  note c = BN_copy_Some [OF s(1) A _ ok(2)]
  have t: "bn_ok t" using ok(3) ctx by simp
  then have "bn_abs s = bn_abs a" using c(2) by (simp add: bn_abs_def)
  then show ?thesis using BN_from_montgomery_word_Some [OF inv A ok(1) c(1) _ s(2)] t lt c(5) by simp
qed

section \<open>Products\<close>

lemma BN_mod_mul_montgomery_Some:
  assumes inv: "mont_inv mont" and A: "malloc_spec A" and ok: "bn_ok r" "bn_ok a" "bn_ok b" "\<forall>c \<in> set ctx. bn_ok c"
    and w: "bn_width a < 2 ^ 64" "bn_width b < 2 ^ 64" and same: "same \<longrightarrow> a = b"
    and lt: "bn_abs a * bn_abs b < bn_abs (mont_N mont) * mont_R mont"
    and call: "BN_mod_mul_montgomery A same ctx s r a b mont = (Some u, r')"
  shows "mont_reduced mont r' (bn_abs a * bn_abs b)"
proof -
  have neg: "\<not> (bn_neg a \<or> bn_neg b)" using call by (auto simp: BN_mod_mul_montgomery_def)
  note c1 = call [unfolded BN_mod_mul_montgomery_def if_not_P [OF neg] bn_mod_mul_montgomery_fallback_def]
  obtain t ctx' where ctx: "ctx = t # ctx'" using c1 by (cases ctx) auto
  have t: "bn_ok t" using ok(4) ctx by simp
  obtain p where p: "(if same then bn_sqr_consttime A False None s t a else bn_mul_consttime A False None s t a b) = (Some (), p)"
      "BN_from_montgomery_word A r p mont = (Some u, r')"
    using c1 unfolding ctx next_ctx.simps prod.case option.case by (auto split: prod.splits option.splits)
  have "bn_ok p \<and> bn_abs p = bn_abs a * bn_abs b"
  proof (cases same)
    case True
    then show ?thesis using p(1) same bn_sqr_consttime_Some [OF A t ok(2), of None False s "()" p] by simp
  next
    case False
    then show ?thesis using p(1) neg bn_mul_impl_Some [OF A t ok(2,3) _ w, of None False s "()" p] by (simp add: bn_mul_consttime_def)
  qed
  then show ?thesis using BN_from_montgomery_word_Some [OF inv A ok(1) _ _ p(2)] lt by simp
qed

lemma mont_form_bound: "mont_inv mont \<Longrightarrow> mont_form mont bn v \<Longrightarrow> bn_abs bn < bn_abs (mont_N mont)"
  using mont_inv(2) by (simp add: mont_form_def)

lemma BN_mod_mul_montgomery_form:
  assumes inv: "mont_inv mont" and A: "malloc_spec A" and ok: "bn_ok r" "\<forall>c \<in> set ctx. bn_ok c" and w: "bn_width (mont_N mont) < 2 ^ 64"
    and f: "mont_form mont a x" "mont_form mont b y" and same: "same \<longrightarrow> a = b"
    and call: "BN_mod_mul_montgomery A same ctx s r a b mont = (Some u, r')"
  shows "mont_form mont r' (x * y)"
proof (rule mont_form_of [OF inv])
  have a: "bn_ok a" "bn_width a = bn_width (mont_N mont)" "bn_abs a = x * mont_R mont mod bn_abs (mont_N mont)"
    and b: "bn_ok b" "bn_width b = bn_width (mont_N mont)" "bn_abs b = y * mont_R mont mod bn_abs (mont_N mont)" using f by (simp_all add: mont_form_def)
  note n = mont_inv [OF inv] mont_form_bound [OF inv f(1)] mont_form_bound [OF inv f(2)]
  have "bn_abs a * bn_abs b < bn_abs (mont_N mont) * mont_R mont"
    by (rule mult_strict_mono) (use n in simp_all)
  then have "mont_reduced mont r' (bn_abs a * bn_abs b)"
    using BN_mod_mul_montgomery_Some [OF inv A ok(1) a(1) b(1) ok(2) _ _ same _ call] a(2) b(2) w by simp
  moreover have "(x * mont_R mont mod bn_abs (mont_N mont)) * (y * mont_R mont mod bn_abs (mont_N mont)) mod bn_abs (mont_N mont) =
      x * y * mont_R mont * mont_R mont mod bn_abs (mont_N mont)"
    unfolding mod_mult_eq by (simp add: ac_simps)
  ultimately show "mont_reduced mont r' (x * y * mont_R mont * mont_R mont)" unfolding a(3) b(3) by (simp add: mont_reduced_def)
qed

lemma BN_to_montgomery_form:
  assumes ok: "mont_ok mont" "malloc_spec A" "bn_ok r" "bn_ok a" "\<forall>c \<in> set ctx. bn_ok c"
    and w: "bn_width (mont_N mont) < 2 ^ 64" "bn_width a < 2 ^ 64" and lt: "bn_abs a < mont_R mont"
    and call: "BN_to_montgomery A ctx s r a mont = (Some u, r')"
  shows "mont_form mont r' (bn_abs a)"
proof (rule mont_form_of)
  show inv: "mont_inv mont" using ok(1) by (simp add: mont_ok_def)
  note n = mont_inv [OF inv]
  have rr: "bn_ok (mont_RR mont)" "bn_width (mont_RR mont) = bn_width (mont_N mont)"
    "bn_abs (mont_RR mont) = mont_R mont * mont_R mont mod bn_abs (mont_N mont)" using ok(1) by (simp_all add: mont_ok_def)
  have "bn_abs (mont_RR mont) < bn_abs (mont_N mont)" using n(2) by (simp add: rr(3))
  then have "bn_abs (mont_RR mont) * bn_abs a < bn_abs (mont_N mont) * mont_R mont"
    by (intro mult_strict_mono) (use n lt in simp_all)
  then have "bn_abs a * bn_abs (mont_RR mont) < bn_abs (mont_N mont) * mont_R mont" by (simp add: mult.commute)
  then have "mont_reduced mont r' (bn_abs a * bn_abs (mont_RR mont))"
    using BN_mod_mul_montgomery_Some [OF inv ok(2,3,4) rr(1) ok(5) w(2) _ _ _ call [unfolded BN_to_montgomery_def]] w(1) by (simp add: rr(2))
  then show "mont_reduced mont r' (bn_abs a * mont_R mont * mont_R mont)"
    unfolding rr(3) mont_reduced_def mod_mult_right_eq by (simp add: mult.assoc)
qed

lemma BN_from_montgomery_form:
  assumes inv: "mont_inv mont" and A: "malloc_spec A" and ok: "bn_ok r" "\<forall>c \<in> set ctx. bn_ok c"
    and f: "mont_form mont a x" and call: "BN_from_montgomery A ctx r a mont = (Some u, r')"
  shows "bn_ok r' \<and> bn_width r' = bn_width (mont_N mont) \<and> bn_int r' = x mod bn_abs (mont_N mont)"
proof -
  note n = mont_inv [OF inv]
  have a: "bn_ok a" "bn_abs a = x * mont_R mont mod bn_abs (mont_N mont)" using f by (simp_all add: mont_form_def)
  have "1 \<le> mont_R mont" using n(2,3) by linarith
  then have "bn_abs (mont_N mont) * 1 \<le> bn_abs (mont_N mont) * mont_R mont" using n(2) by (intro mult_left_mono) simp_all
  then have "bn_abs a < bn_abs (mont_N mont) * mont_R mont" using mont_form_bound [OF inv f] by linarith
  then have m: "mont_reduced mont r' (bn_abs a)" using BN_from_montgomery_Some [OF inv A ok(1) a(1) ok(2) _ call] by blast
  then have "mont_reduced mont r' (x * mont_R mont)" unfolding a(2) mont_reduced_def by simp
  from mont_reduced_eq [OF inv this] show ?thesis using m unfolding mont_reduced_def bn_int_def by auto
qed


section \<open>Contexts\<close>

lemma low_word_odd:
  assumes "bn_ok a" "odd (bn_abs a)"
  shows "bn_width a \<noteq> 0" "odd (uint (bn_d a ! 0))"
proof -
  show w: "bn_width a \<noteq> 0"
  proof
    assume "bn_width a = 0"
    then show False using assms(2) by (simp add: bn_abs_def bn_limbs_def)
  qed
  obtain x xs where x: "bn_limbs a = x # xs" using w assms(1) by (cases "bn_limbs a") (auto simp: bn_limbs_def bn_ok_def)
  moreover have "bn_limbs a ! 0 = bn_d a ! 0" using w by (simp add: bn_limbs_def)
  ultimately have "x = bn_d a ! 0" by simp
  moreover have "odd (uint x)" using assms(2) unfolding bn_abs_def x by (simp add: radix_def)
  ultimately show "odd (uint (bn_d a ! 0))" by simp
qed

lemma bn_mont_ctx_set_N_and_n0_Some:
  assumes A: "malloc_spec A" and ok: "bn_ok (mont_N mont)" "bn_ok md" and call: "bn_mont_ctx_set_N_and_n0 A mont md = (Some u, mont')"
  shows "mont_inv mont' \<and> bn_abs (mont_N mont') = bn_abs md \<and> odd (bn_abs md) \<and> \<not> bn_neg md \<and>
    mont_RR mont' = mont_RR mont \<and> mont_n01 mont' = 0 \<and> bn_width (mont_N mont') \<le> bn_width md"
proof -
  have g: "\<not> BN_is_zero md" "BN_is_odd md" "\<not> bn_neg md"
    using call by (auto simp: bn_mont_ctx_set_N_and_n0_def BN_is_negative_def split: if_splits)
  note c1 = call [unfolded bn_mont_ctx_set_N_and_n0_def BN_is_negative_def if_not_P [OF g(1)] if_not_P [OF g(3)]]
  obtain n where n: "BN_copy A (mont_N mont) md = (Some (), n)" using c1 g(2) by (auto split: prod.splits option.splits)
  note c = BN_copy_Some [OF n A ok]
  have a: "bn_abs n = bn_abs md" using c(2) by (simp add: bn_abs_def)
  have od: "odd (bn_abs md)" using g(2,3) BN_is_odd [OF ok(2)] by (simp add: bn_int_def)
  define m where "m = bn_set_minimal_width n"
  note mm = bn_set_minimal_width [OF c(1), folded m_def]
  have e: "mont' = mont\<lparr>mont_N := m, mont_n0 := bn_mont_n0 m, mont_n01 := 0\<rparr>"
    using c1 g(2) unfolding n by (simp add: m_def Let_def)
  have o: "odd (bn_abs m)" using mm(2) od by (simp add: a)
  have "(uint (bn_mont_n0 m) * uint (bn_d m ! 0) + 1) mod radix = 0"
    unfolding bn_mont_n0_def by (rule bn_neg_inv_mod_r_u64 [OF low_word_odd(2) [OF mm(1) o]])
  then have "mont_inv mont'" using mm(1,7) o c(5) g(3) unfolding mont_inv_def e by (simp add: m_def)
  moreover have "bn_width m \<le> bn_width md" using bn_minimal_width(1) [OF c(1)] mm(6) c(4) by simp
  ultimately show ?thesis using mm(2) od g(3) by (simp add: e a)
qed

lemma R_power: "radix ^ w = 2 ^ (w * 64)"
  unfolding radix_power by (simp add: mult.commute)

lemma BN_set_bit_zero:
  assumes A: "malloc_spec A" and b: "BN_set_bit A (BN_zero r) (int k) = (Some u, r')"
  shows "bn_ok r' \<and> \<not> bn_neg r' \<and> bn_abs r' = 2 ^ k \<and> bn_static r' = bn_static r \<and> bn_width r' = k div 64 + 1"
proof -
  have "bn_ok r' \<and> \<not> bn_neg r' \<and> bn_abs r' = 2 ^ k" using BN_set_bit_abs [OF A bn_zero(1) b] by (simp add: bn_zero set_bit_eq)
  moreover have "bn_static r' = bn_static r \<and> bn_width r' = k div 64 + 1"
    using b by (auto simp: BN_set_bit_def BN_zero_def Let_def elim!: andthen_SomeE dest: bn_static_kept(2))
  ultimately show ?thesis by blast
qed

lemma set_RR:
  assumes inv: "mont_inv mont" and RR: "bn_ok r" "\<not> bn_neg r" "bn_width r = bn_width (mont_N mont)"
    "bn_abs r = 2 ^ (bn_width (mont_N mont) * 64 * 2) mod bn_abs (mont_N mont)"
  shows "mont_ok (mont\<lparr>mont_RR := r\<rparr>)"
proof -
  have "(2 :: int) ^ (bn_width (mont_N mont) * 64 * 2) = mont_R mont * mont_R mont"
    unfolding mont_R_def R_power power_add [symmetric] by (simp only: mult_2_right)
  then show ?thesis using assms by (simp add: mont_ok_def mont_inv_def mont_R_def)
qed

lemma BN_MONT_CTX_set_cases:
  assumes A: "malloc_spec A" and ok: "bn_ok (mont_N mont)" "bn_ok (mont_RR mont)" "bn_ok md" "\<forall>c \<in> set ctx. bn_ok c"
  shows "\<exists>res. BN_MONT_CTX_set A (Some ctx) mont md = Some res \<and> (case res of
      None \<Rightarrow> even (bn_abs md) \<or> bn_neg md \<or> length ctx < 4 \<or> (\<exists>k. A k = None) \<or> (\<exists>c \<in> set ctx. bn_static c) \<or>
        bn_static (mont_N mont) \<or> bn_static (mont_RR mont) \<or> 400000 < bn_width md
    | Some mont' \<Rightarrow> mont_ok mont' \<and> bn_abs (mont_N mont') = bn_abs md \<and> odd (bn_abs md) \<and> \<not> bn_neg md)"
proof (cases "bn_mont_ctx_set_N_and_n0 A mont md")
  case (Pair o1 m1)
  show ?thesis
  proof (cases o1)
    case None
    have "even (bn_abs md) \<or> bn_neg md \<or> (\<exists>k. A k = None) \<or> bn_static (mont_N mont) \<or> 400000 < bn_width md"
    proof (rule ccontr)
      assume n: "\<not> ?thesis"
      then have "fst (BN_copy A (mont_N mont) md) = Some ()" by (intro BN_copy_total) auto
      moreover have "bn_abs md \<noteq> 0" using n by auto
      ultimately show False
        using Pair None n BN_is_odd [OF ok(3)] bn_is_zero [OF ok(3)]
        by (cases "BN_copy A (mont_N mont) md") (auto simp: bn_mont_ctx_set_N_and_n0_def BN_is_negative_def bn_int_def Let_def)
    qed
    then show ?thesis using Pair None by (auto simp: BN_MONT_CTX_set_def)
  next
    case (Some u)
    note m1 = bn_mont_ctx_set_N_and_n0_Some [OF A ok(1,3) Pair [unfolded Some]]
    define w where "w = bn_width (mont_N m1)"
    have inv: "mont_inv m1" and N: "bn_ok (mont_N m1)" and RR: "mont_RR m1 = mont_RR mont" using m1 by (simp_all add: mont_inv_def)
    have e1: "BN_MONT_CTX_set A (Some ctx) mont md = (case BN_set_bit A (BN_zero (mont_RR mont)) (int (w * 64 * 2)) of
        (None, _) \<Rightarrow> Some None
      | (Some _, RR) \<Rightarrow> (case BN_mod A ctx RR RR (mont_N m1) of None \<Rightarrow> None | Some None \<Rightarrow> Some None
          | Some (Some RR) \<Rightarrow> (case bn_resize_words A RR w of (None, _) \<Rightarrow> Some None | (Some _, RR) \<Rightarrow> Some (Some (m1\<lparr>mont_RR := RR\<rparr>)))))"
      unfolding BN_MONT_CTX_set_def Pair Some Let_def prod.case option.case w_def RR ..
    obtain o2 r2 where b: "BN_set_bit A (BN_zero (mont_RR mont)) (int (w * 64 * 2)) = (o2, r2)" by (rule prod.exhaust)
    note e2 = e1 [unfolded b prod.case]
    show ?thesis
    proof (cases o2)
      case None
      have "(\<exists>k. A k = None) \<or> bn_static (mont_RR mont) \<or> 400000 < bn_width md"
      proof (rule ccontr)
        assume n: "\<not> ?thesis"
        then have "w * 64 * 2 div 64 + 1 \<le> 8388607" using m1 by (simp add: w_def)
        then obtain d where "bn_wexpand A (BN_zero (mont_RR mont)) (w * 64 * 2 div 64 + 1) = (Some (), d)"
          using bn_wexpand_total [of A "BN_zero (mont_RR mont)" "w * 64 * 2 div 64 + 1"] n by (auto simp: BN_zero_def)
        then show False using b None unfolding BN_set_bit_def Let_def nat_int by (simp add: BN_zero_def)
      qed
      then show ?thesis using e2 None by auto
    next
      case (Some u2)
      note r2 = BN_set_bit_zero [OF A b [unfolded Some]]
      obtain res where res: "BN_mod A ctx r2 r2 (mont_N m1) = Some res" "case res of
          None \<Rightarrow> bn_abs (mont_N m1) = 0 \<or> length ctx < 4 \<or> (\<exists>k. A k = None) \<or> (\<exists>c \<in> set ctx. bn_static c) \<or> bn_static r2 \<or>
            1000000 < bn_width r2 \<or> 1000000 < bn_width (mont_N m1)
        | Some r' \<Rightarrow> bn_abs (mont_N m1) \<noteq> 0 \<and> bn_canonical r' \<and> bn_static r' = bn_static r2 \<and> bn_int r' = bn_int r2 smod bn_int (mont_N m1) \<and>
            bn_abs r' = bn_abs r2 mod bn_abs (mont_N m1) \<and> (bn_neg r' \<longrightarrow> bn_neg r2)"
        using BN_mod_result [OF A _ N ok(4), of r2 r2] r2 by blast
      note e3 = e2 [unfolded Some option.case res(1)]
      show ?thesis
      proof (cases res)
        case None
        have "length ctx < 4 \<or> (\<exists>k. A k = None) \<or> (\<exists>c \<in> set ctx. bn_static c) \<or> bn_static (mont_RR mont) \<or> 400000 < bn_width md"
        proof (rule ccontr)
          assume n: "\<not> ?thesis"
          then have "bn_width r2 \<le> 1000000" "bn_width (mont_N m1) \<le> 1000000" "bn_static r2 = bn_static (mont_RR mont)"
            using r2 m1 by (simp_all add: w_def)
          then show False using n res(2) None mont_inv(2) [OF inv] by (auto simp del: not_None_eq)
        qed
        then show ?thesis using e3 None by auto
      next
        case (Some r3)
        have r3: "bn_ok r3" "trimmed r3" "\<not> bn_neg r3" "bn_abs r3 = 2 ^ (w * 64 * 2) mod bn_abs (mont_N m1)" "bn_static r3 = bn_static (mont_RR mont)"
          using res(2) r2 unfolding Some by (auto simp: bn_canonical_def bn_norm_ok)
        note e4 = e3 [unfolded Some option.case]
        have "bn_abs r3 < bn_abs (mont_N m1)" using mont_inv(2) [OF inv] by (simp add: r3(4))
        then have "bn_width r3 \<le> w" using trimmed_width [OF r3(1,2), of w] mont_inv(3) [OF inv] by (simp add: mont_R_def w_def)
        obtain o4 r4 where z: "bn_resize_words A r3 w = (o4, r4)" by (rule prod.exhaust)
        show ?thesis
        proof (cases o4)
          case None
          have "(\<exists>k. A k = None) \<or> bn_static (mont_RR mont) \<or> 400000 < bn_width md"
          proof (rule ccontr)
            assume n: "\<not> ?thesis"
            then obtain d where "bn_wexpand A r3 w = (Some (), d)" using bn_wexpand_total [of A r3 w] r3(5) m1 by (auto simp: w_def)
            then show False using z None \<open>bn_width r3 \<le> w\<close> by (simp add: bn_resize_words_def)
          qed
          then show ?thesis using e4 z None by auto
        next
          case (Some u4)
          note r4 = bn_resize_words_any [OF z [unfolded Some] A r3(1)]
          have "mont_ok (m1\<lparr>mont_RR := r4\<rparr>)" by (rule set_RR [OF inv]) (use r4 r3(3,4) in \<open>simp_all add: w_def\<close>)
          then show ?thesis using e4 z Some m1 by simp
        qed
      qed
    qed
  qed
qed


lemma BN_MONT_CTX_new_Some: "BN_MONT_CTX_new A = Some mont \<Longrightarrow> bn_ok (mont_N mont) \<and> bn_ok (mont_RR mont) \<and> \<not> bn_static (mont_N mont) \<and> \<not> bn_static (mont_RR mont)"
  by (auto simp: BN_MONT_CTX_new_def bn_init split: option.splits)

lemma BN_MONT_CTX_new_total: "\<forall>k. A k \<noteq> None \<Longrightarrow> BN_MONT_CTX_new A \<noteq> None"
  by (auto simp: BN_MONT_CTX_new_def OPENSSL_malloc_def split: option.splits simp del: not_None_eq)

text \<open>The power of two below an odd number that is not one is smaller than it.\<close>

lemma bn_mod_exp_base_2_consttime_Some:
  assumes A: "malloc_spec A" and ok: "bn_ok n" "\<And>i c. c \<in> set (ctx i) \<Longrightarrow> bn_ok c" and n: "odd (bn_abs n)" "BN_num_bits n \<le> p + 1"
    and call: "bn_mod_exp_base_2_consttime A ctx r p n = (Some u, r')"
  shows "bn_ok r' \<and> \<not> bn_neg r' \<and> bn_int r' = 2 ^ p mod bn_abs n"
proof -
  define b where "b = bit_length (nat (bn_abs n))"
  have nb: "BN_num_bits n = b" by (simp add: b_def BN_num_bits [OF ok(1)])
  have n0: "0 < bn_abs n" using n(1) bn_abs_nonneg [of n] by (cases "bn_abs n = 0") (simp_all add: order_less_le)
  note bl = bit_length_int [OF n0, folded b_def]
  show ?thesis
  proof (cases "b = 1")
    case True
    then have "bn_abs n = 1" using bl n0 by simp
    then show ?thesis using call True by (auto simp: bn_mod_exp_base_2_consttime_def nb bn_zero)
  next
    case False
    then have b: "2 \<le> b" using bl(3) by simp
    obtain s where s: "BN_set_bit A (BN_zero r) (int b - 1) = (Some (), s)"
        "bn_mod_lshift_consttime A ctx s s (int p - (int b - 1)) n = (Some u, r')"
      using call False by (auto simp: bn_mod_exp_base_2_consttime_def nb elim!: andthen_SomeE)
    have "int b - 1 = int (b - 1)" using b by simp
    note sb = BN_set_bit_zero [OF A s(1) [unfolded this]]
    have "even ((2 :: int) ^ (b - 1))" using b by simp
    then have "2 ^ (b - 1) \<noteq> bn_abs n" using n(1) by metis
    then have lt: "bn_abs s < bn_abs n" using bl(1) sb by simp
    have e: "nat (int p - (int b - 1)) = p - (b - 1)" using b by simp
    have "bn_ok r' \<and> \<not> bn_neg r' \<and> bn_int r' = bn_int s * 2 ^ nat (int p - (int b - 1)) mod bn_abs n"
      by (rule bn_mod_lshift_consttime_Some [OF A _ _ ok _ lt s(2)]) (use sb in simp_all)
    moreover have "bn_int s * 2 ^ nat (int p - (int b - 1)) = 2 ^ p"
      using sb n(2) b unfolding e bn_int_def by (simp add: nb flip: power_add)
    ultimately show ?thesis by simp
  qed
qed

lemma BN_MONT_CTX_new_consttime_Some:
  assumes A: "malloc_spec A" and ok: "bn_ok md" "\<And>i c. c \<in> set (ctx i) \<Longrightarrow> bn_ok c"
    and call: "BN_MONT_CTX_new_consttime A ctx md = Some mont'"
  shows "mont_ok mont' \<and> bn_abs (mont_N mont') = bn_abs md \<and> odd (bn_abs md) \<and> \<not> bn_neg md"
proof -
  obtain mont where mont: "BN_MONT_CTX_new A = Some mont" using call by (cases "BN_MONT_CTX_new A") (simp_all add: BN_MONT_CTX_new_consttime_def)
  note new = BN_MONT_CTX_new_Some [OF mont]
  obtain m1 where s: "bn_mont_ctx_set_N_and_n0 A mont md = (Some (), m1)"
    using call mont by (auto simp: BN_MONT_CTX_new_consttime_def split: option.splits prod.splits)
  note m1 = bn_mont_ctx_set_N_and_n0_Some [OF A _ ok(1) s]
  have inv: "mont_inv m1" "bn_ok (mont_N m1)" "odd (bn_abs (mont_N m1))" using m1 new by (simp_all add: mont_inv_def)
  define w where "w = bn_width (mont_N m1)"
  obtain r2 r4 where r: "bn_mod_exp_base_2_consttime A ctx (mont_RR m1) (w * 64 * 2) (mont_N m1) = (Some (), r2)"
      "bn_resize_words A r2 w = (Some (), r4)" "mont' = m1\<lparr>mont_RR := r4\<rparr>"
    using call mont s by (auto simp: BN_MONT_CTX_new_consttime_def Let_def w_def elim!: andthen_SomeE split: option.splits prod.splits)
  have lt: "bn_abs (mont_N m1) < 2 ^ (w * 64)" using mont_inv(3) [OF inv(1)] unfolding mont_R_def R_power w_def .
  define b where "b = bit_length (nat (bn_abs (mont_N m1)))"
  note bl = bit_length_int [OF mont_inv(2) [OF inv(1)], folded b_def]
  have "(2 :: int) ^ (b - 1) < 2 ^ (w * 64)" using bl(1) lt by linarith
  then have "b - 1 < w * 64" by simp
  then have "BN_num_bits (mont_N m1) \<le> w * 64 * 2 + 1" by (simp add: BN_num_bits [OF inv(2)] b_def)
  from bn_mod_exp_base_2_consttime_Some [OF A inv(2) ok(2) inv(3) this r(1)]
  have r2: "bn_ok r2" "\<not> bn_neg r2" "bn_int r2 = 2 ^ (w * 64 * 2) mod bn_abs (mont_N m1)" by simp_all
  have "bn_abs r2 = bn_int r2" using r2(2) by (simp add: bn_int_def)
  then have "mont_ok mont'" unfolding r(3)
    using bn_resize_words_any [OF r(2) A r2(1)] by (intro set_RR [OF inv(1)]) (simp_all add: r2(2,3) w_def)
  then show ?thesis using m1 new by (simp add: r(3))
qed

section \<open>One\<close>

lemma uint_negate:
  fixes d :: limb
  assumes "uint d \<noteq> 0"
  shows "uint (0 - d) = radix - uint d"
proof -
  have "uint (0 - d) = (radix - uint d) mod radix" by (simp add: uint_word_ariths radix_def)
  also have "\<dots> = radix - uint d" using assms uint_limb [of d] by (intro mod_pos_pos_trivial) linarith+
  finally show ?thesis .
qed

lemma top_bit:
  assumes "bn_ok a" "0 < bn_width a" "drop_bit 63 (bn_d a ! (bn_width a - 1)) \<noteq> 0"
  shows "radix ^ bn_width a \<le> 2 * bn_abs a"
proof -
  define top' where "top' = bn_d a ! (bn_width a - 1)"
  obtain k where k: "bn_width a = Suc k" using assms(2) by (cases "bn_width a") auto
  have t: "bn_limbs a ! k = top'" by (simp add: bn_limbs_def top'_def k)
  have "uint (drop_bit 63 top') \<noteq> 0" using assms(3) unfolding top'_def [symmetric] by (simp add: unsigned_eq_0_iff)
  moreover have "uint (drop_bit 63 top') = uint top' div 2 ^ 63" unfolding drop_bit_eq_div by (simp add: uint_div_distrib)
  ultimately have "uint top' div 2 ^ 63 \<noteq> 0" by simp
  then have "2 ^ 63 \<le> uint top'" using uint_limb(1) [of top'] by (simp add: zdiv_eq_0_iff)
  then have "radix ^ k * radix \<le> radix ^ k * (2 * uint top')" by (intro mult_left_mono) (simp_all add: radix_def)
  moreover have "bn_abs a = bn_val (take k (bn_limbs a)) + radix ^ k * uint top'"
    using split_top [of k "bn_limbs a"] assms(1) by (simp add: bn_abs_def k t)
  moreover have "radix ^ k * (2 * uint top') = 2 * (radix ^ k * uint top')" "radix ^ k * radix = radix ^ Suc k" by simp_all
  ultimately show ?thesis using bn_val_nonneg [of "take k (bn_limbs a)"] unfolding k by linarith
qed

lemma bn_one_to_montgomery_form:
  assumes ok: "mont_ok mont" "malloc_spec A" "bn_ok r" "\<forall>c \<in> set ctx. bn_ok c"
    and call: "bn_one_to_montgomery A ctx r mont = (Some u, r')"
  shows "mont_form mont r' 1"
proof -
  have inv: "mont_inv mont" and rr: "bn_ok (mont_RR mont)" "bn_abs (mont_RR mont) = mont_R mont * mont_R mont mod bn_abs (mont_N mont)"
    using ok(1) by (simp_all add: mont_ok_def)
  note n = mont_inv [OF inv]
  have N: "bn_ok (mont_N mont)" "odd (bn_abs (mont_N mont))" using inv by (simp_all add: mont_inv_def)
  show ?thesis
  proof (cases "drop_bit 63 (bn_d (mont_N mont) ! (bn_width (mont_N mont) - 1)) \<noteq> 0")
    case False
    then have c: "BN_from_montgomery A ctx r (mont_RR mont) mont = (Some u, r')" using call by (simp add: bn_one_to_montgomery_def)
    have lt: "bn_abs (mont_RR mont) < bn_abs (mont_N mont)" using n(2) by (simp add: rr(2))
    have "1 \<le> mont_R mont" using n(2,3) by linarith
    then have "bn_abs (mont_N mont) * 1 \<le> bn_abs (mont_N mont) * mont_R mont" using n(2) by (intro mult_left_mono) simp_all
    then have "mont_reduced mont r' (bn_abs (mont_RR mont))" using BN_from_montgomery_Some [OF inv ok(2,3) rr(1) ok(4) _ c] lt by linarith
    then show ?thesis using mont_form_of [OF inv, of r' 1] by (simp add: mont_reduced_def rr(2))
  next
    case True
    define k where "k = bn_width (mont_N mont)"
    obtain d ds where d: "bn_limbs (mont_N mont) = d # ds" using n(1) N(1) by (cases "bn_limbs (mont_N mont)") (auto simp: bn_limbs_def bn_ok_def)
    have d0: "bn_d (mont_N mont) ! 0 = d" "drop 1 (take k (bn_d (mont_N mont))) = ds"
      using d n(1) unfolding bn_limbs_def k_def by (metis nth_Cons_0 nth_take, simp)
    define ws where "ws = (0 - d) # map NOT ds"
    have l: "length ws = k" using arg_cong [OF d, of length] N(1) by (simp add: ws_def k_def)
    obtain f where f: "bn_wexpand A r k = (Some (), f)" "r' = f\<lparr>bn_d := store (bn_d f) 0 ws, bn_width := k, bn_neg := False\<rparr>"
      using call True n(1) unfolding bn_one_to_montgomery_def k_def [symmetric] Let_def d0 ws_def by (auto elim!: andthen_SomeE)
    have "uint d \<noteq> 0" using low_word_odd(2) [OF N] unfolding d0(1) by auto
    then have "uint (0 - d) = radix - uint d" by (rule uint_negate)
    then have v: "bn_val ws = mont_R mont - bn_abs (mont_N mont)"
      using l unfolding ws_def bn_abs_def d mont_R_def k_def [symmetric] by (auto simp: bn_val_not algebra_simps)
    have "radix ^ k \<le> 2 * bn_abs (mont_N mont)" using top_bit [OF N(1) n(1) True] by (simp add: k_def)
    moreover have "radix ^ k \<noteq> 2 * bn_abs (mont_N mont)"
    proof
      assume e: "radix ^ k = 2 * bn_abs (mont_N mont)"
      have "(4 :: int) dvd radix" by (simp add: radix_def)
      then have "(4 :: int) dvd radix ^ k" using n(1) unfolding k_def by (metis dvd_power dvd_trans)
      then show False using N(2) unfolding e by presburger
    qed
    ultimately have "radix ^ k < 2 * bn_abs (mont_N mont)" by linarith
    then have "(mont_R mont - bn_abs (mont_N mont)) mod bn_abs (mont_N mont) = mont_R mont - bn_abs (mont_N mont)"
      using n(2,3) by (intro mod_pos_pos_trivial) (simp_all add: mont_R_def k_def)
    then have "mont_R mont mod bn_abs (mont_N mont) = bn_val ws" unfolding v by simp
    then show ?thesis using bn_words_stored [OF f(1) ok(2,3) l, of False] unfolding mont_form_def f(2) by (simp add: k_def)
  qed
qed


section \<open>Calls that succeed\<close>

lemma BN_from_montgomery_word_total:
  assumes inv: "mont_inv mont" and A: "malloc_spec A" "\<forall>k. A k \<noteq> None" and ok: "bn_ok r" "\<not> bn_neg r"
    and lt: "bn_abs r < bn_abs (mont_N mont) * mont_R mont" and st: "\<not> bn_static r" "\<not> bn_static ret" and w: "bn_width (mont_N mont) \<le> 400000"
  shows "fst (BN_from_montgomery_word A ret r mont) = Some ()"
proof -
  define k where "k = bn_width (mont_N mont)"
  note n = mont_inv [OF inv]
  have k: "k \<noteq> 0" using n(1) by (simp add: k_def)
  have "bn_abs (mont_N mont) * mont_R mont \<le> mont_R mont * mont_R mont" using n by (intro mult_right_mono) simp_all
  moreover have "radix ^ (2 * k) = mont_R mont * mont_R mont" by (simp add: mont_R_def k_def mult_2 power_add)
  ultimately have "bn_abs r < radix ^ (2 * k)" using lt by linarith
  then have "bn_fits_in_words r (2 * k)" using bn_fits_in_words [OF ok(1)] by blast
  moreover obtain d where "bn_wexpand A r (2 * k) = (Some (), d)" using bn_wexpand_total [OF A(2) st(1), of "2 * k"] w by (auto simp: k_def)
  ultimately have "fst (bn_resize_words A r (2 * k)) = Some ()" by (simp add: bn_resize_words_def)
  then obtain s where s: "bn_resize_words A r (2 * k) = (Some (), s)" by (cases "bn_resize_words A r (2 * k)") auto
  note z = bn_resize_words_any [OF s A(1) ok(1)]
  obtain e where e: "bn_wexpand A ret k = (Some (), e)" using bn_wexpand_total [OF A(2) st(2), of k] w by (auto simp: k_def)
  have "length (take (bn_width s) (bn_d s)) = 2 * k" "bn_val (take (bn_width s) (bn_d s)) = bn_abs r"
    using z by (auto simp: bn_ok_def bn_abs_def bn_limbs_def)
  then obtain ws where "bn_from_montgomery_in_place k (take (bn_width s) (bn_d s)) mont = Some ws"
    using bn_from_montgomery_in_place [OF inv, of "take (bn_width s) (bn_d s)"] lt unfolding k_def [symmetric] by metis
  then show ?thesis unfolding BN_from_montgomery_word_def Let_def k_def [symmetric] using k ok(2) by (simp add: s e)
qed

lemma BN_copy_static: "BN_copy A r a = (Some u, r') \<Longrightarrow> bn_static r' = bn_static r"
  by (auto simp: BN_copy_def dest: bn_static_kept(2) elim!: andthen_SomeE)

lemma BN_from_montgomery_total:
  assumes inv: "mont_inv mont" and A: "malloc_spec A" "\<forall>k. A k \<noteq> None" and ok: "bn_ok a" "\<not> bn_neg a" "bn_width a \<le> 1000000"
    and lt: "bn_abs a < bn_abs (mont_N mont) * mont_R mont" and st: "\<forall>c \<in> set (r # ctx). bn_ok c \<and> \<not> bn_static c" "ctx \<noteq> []" and w: "bn_width (mont_N mont) \<le> 400000"
  shows "fst (BN_from_montgomery A ctx r a mont) = Some ()"
proof -
  obtain t ctx' where ctx: "ctx = t # ctx'" using st(2) by (cases ctx) auto
  have t: "bn_ok t" "\<not> bn_static t" "\<not> bn_static r" using st(1) ctx by simp_all
  obtain s where s: "BN_copy A t a = (Some (), s)" using BN_copy_total [OF A(2) t(2), of a] ok(3) by (cases "BN_copy A t a") auto
  note c = BN_copy_Some [OF s A(1) t(1) ok(1)]
  have "bn_abs s = bn_abs a" using c(2) by (simp add: bn_abs_def)
  then have "fst (BN_from_montgomery_word A r s mont) = Some ()"
    using BN_from_montgomery_word_total [OF inv A c(1) _ _ _ t(3) w] c(5) ok(2) lt BN_copy_static [OF s] t(2) by simp
  then show ?thesis by (simp add: BN_from_montgomery_def ctx s)
qed

lemma bn_mul_impl_kept: "bn_mul_impl A False ctx t r a b = (Some u, r') \<Longrightarrow> bn_static r' = bn_static r \<and> (bn_neg r' \<longrightarrow> bn_neg a \<noteq> bn_neg b)"
proof -
  have w: "bn_static d = bn_static rr \<and> bn_neg d = bn_neg rr" if "bn_wexpand A rr n = (u, d)" for rr d u n
    using that by (auto simp: bn_wexpand_def split: if_splits option.splits)
  have into: "bn_static d = bn_static rr \<and> bn_neg d = bn_neg rr" if "mul_into A t rr a b = (Some u, d)" for rr d u
    using that by (auto simp: mul_into_def Let_def dest: w elim!: andthen_SomeE split: if_splits prod.splits option.splits)
  assume "bn_mul_impl A False ctx t r a b = (Some u, r')"
  then show ?thesis by (auto simp: bn_mul_impl_def BN_zero_def dest: into split: if_splits prod.splits option.splits)
qed

lemma BN_mod_mul_montgomery_total:
  assumes inv: "mont_inv mont" and A: "malloc_spec A" "\<forall>k. A k \<noteq> None" and ok: "bn_ok a" "bn_ok b" "\<not> bn_neg a" "\<not> bn_neg b"
    and wd: "bn_width a + bn_width b \<le> 1000000" "bn_width (mont_N mont) \<le> 400000"
    and lt: "bn_abs a * bn_abs b < bn_abs (mont_N mont) * mont_R mont" and st: "\<forall>c \<in> set (s # r # ctx). bn_ok c \<and> \<not> bn_static c" "ctx \<noteq> []"
  shows "fst (BN_mod_mul_montgomery A False ctx (Some s) r a b mont) = Some ()"
proof -
  obtain t ctx' where ctx: "ctx = t # ctx'" using st(2) by (cases ctx) auto
  have t: "bn_ok t" "\<not> bn_static t" "\<not> bn_static r" "\<not> bn_static s" using st(1) ctx by simp_all
  have "fst (BN_mul A False (Some t) (Some s) t a b) = Some ()" by (rule BN_mul_total [OF A t(1) ok(1,2) t(1) t(2) t(2) t(4) wd(1)])
  then obtain p where p: "bn_mul_impl A False (Some t) (Some s) t a b = (Some (), p)"
    by (cases "bn_mul_impl A False (Some t) (Some s) t a b"; cases "fst (bn_mul_impl A False (Some t) (Some s) t a b)") (auto simp: BN_mul_def)
  have p': "bn_mul_impl A False None (Some s) t a b = (Some (), p)" using p unfolding bn_mul_impl_def if_False .
  have "bn_ok p" "bn_abs p = bn_abs a * bn_abs b" using bn_mul_impl_Some [OF A(1) t(1) ok(1,2) _ _ _ p'] wd(1) by simp_all
  moreover have "\<not> bn_static p" "\<not> bn_neg p" using bn_mul_impl_kept [OF p'] t(2) ok(3,4) by simp_all
  ultimately have "fst (BN_from_montgomery_word A r p mont) = Some ()"
    using BN_from_montgomery_word_total [OF inv A _ _ _ _ t(3) wd(2)] lt by simp
  then show ?thesis using ok(3,4) p'
    by (simp add: BN_mod_mul_montgomery_def bn_mod_mul_montgomery_fallback_def ctx bn_mul_consttime_def)
qed


text \<open>\<open>Some\<close> result of a call that left it, for the statements below.\<close>

definition done_with :: "unit option \<times> bignum \<Rightarrow> (bignum \<Rightarrow> bool) \<Rightarrow> bool" where
  "done_with call P \<longleftrightarrow> fst call = Some () \<and> P (snd call)"

lemma done_withI: "fst call = Some () \<Longrightarrow> (\<And>r. call = (Some (), r) \<Longrightarrow> P r) \<Longrightarrow> done_with call P"
  by (cases call) (simp add: done_with_def)

lemma done_withE: "done_with call P \<Longrightarrow> (\<And>r. call = (Some (), r) \<Longrightarrow> P r \<Longrightarrow> thesis) \<Longrightarrow> thesis"
  by (cases call) (simp add: done_with_def)

text \<open>C7. In a context of an odd modulus, with memory and at least one number to work on, the conversion to Montgomery
  form, the product of two numbers in that form and the conversion back succeed for numbers below \<open>R\<close>, whatever
  their widths, and together they are multiplication modulo the modulus: the form of \<^verbatim>\<open>a\<close> times the form of \<^verbatim>\<open>b\<close> is the form
  of \<open>a * b\<close>, and back it is its least residue; \<^verbatim>\<open>bn_one_to_montgomery\<close>, which does not multiply, gives the form of 1.\<close>

theorem BN_montgomery_exact:
  assumes A: "malloc_spec A" "\<forall>k. A k \<noteq> None" and mont: "mont_ok mont" "bn_width (mont_N mont) \<le> 400000"
    and c: "\<forall>c \<in> set (s # r # ctx). bn_ok c \<and> \<not> bn_static c" "ctx \<noteq> []"
  shows "(\<forall>a. bn_ok a \<and> bn_width a \<le> 500000 \<and> bn_less_than_montgomery_R a mont \<longrightarrow>
      done_with (BN_to_montgomery A ctx (Some s) r a mont) (\<lambda>x. mont_form mont x (bn_int a))) \<and>
    (\<forall>a b x y. mont_form mont a x \<and> mont_form mont b y \<longrightarrow>
      done_with (BN_mod_mul_montgomery A False ctx (Some s) r a b mont) (\<lambda>z. mont_form mont z (x * y))) \<and>
    (\<forall>a x. mont_form mont a x \<longrightarrow> done_with (BN_from_montgomery A ctx r a mont) (\<lambda>z. bn_int z = x mod bn_int (mont_N mont))) \<and>
    done_with (bn_one_to_montgomery A ctx r mont) (\<lambda>z. mont_form mont z 1)"
proof -
  have inv: "mont_inv mont" and rr: "bn_ok (mont_RR mont)" "\<not> bn_neg (mont_RR mont)" "bn_width (mont_RR mont) = bn_width (mont_N mont)"
    "bn_abs (mont_RR mont) = mont_R mont * mont_R mont mod bn_abs (mont_N mont)"
    using mont(1) by (simp_all add: mont_ok_def)
  note n = mont_inv [OF inv]
  have r: "bn_ok r" "\<forall>c \<in> set ctx. bn_ok c" "\<forall>c \<in> set (r # ctx). bn_ok c \<and> \<not> bn_static c" using c(1) by simp_all
  have N: "bn_int (mont_N mont) = bn_abs (mont_N mont)" using inv by (simp add: mont_inv_def bn_int_def)
  have 1: "done_with (BN_to_montgomery A ctx (Some s) r a mont) (\<lambda>x. mont_form mont x (bn_int a))"
    if a: "bn_ok a" "bn_width a \<le> 500000" "bn_less_than_montgomery_R a mont" for a
  proof (rule done_withI)
    have a': "\<not> bn_neg a" "bn_abs a < mont_R mont" "bn_int a = bn_abs a"
      using a(3) bn_fits_in_words [OF a(1)] by (simp_all add: bn_less_than_montgomery_R_def BN_is_negative_def mont_R_def bn_int_def)
    have "bn_abs (mont_RR mont) < bn_abs (mont_N mont)" using n(2) by (simp add: rr(4))
    then have "bn_abs (mont_RR mont) * bn_abs a < bn_abs (mont_N mont) * mont_R mont" by (intro mult_strict_mono) (use n a'(2) in simp_all)
    then have "bn_abs a * bn_abs (mont_RR mont) < bn_abs (mont_N mont) * mont_R mont" by (simp add: mult.commute)
    then show "fst (BN_to_montgomery A ctx (Some s) r a mont) = Some ()"
      unfolding BN_to_montgomery_def using BN_mod_mul_montgomery_total [OF inv A a(1) rr(1) a'(1) rr(2) _ mont(2) _ c] a(2) mont(2) rr(3) by simp
    show "mont_form mont x (bn_int a)" if "BN_to_montgomery A ctx (Some s) r a mont = (Some (), x)" for x
      using BN_to_montgomery_form [OF mont(1) A(1) r(1) a(1) r(2) _ _ a'(2) that] a(2) mont(2) a'(3) by simp
  qed
  have 2: "done_with (BN_mod_mul_montgomery A False ctx (Some s) r a b mont) (\<lambda>z. mont_form mont z (x * y))"
    if f: "mont_form mont a x" "mont_form mont b y" for a b x y
  proof (rule done_withI)
    have ab: "bn_ok a" "bn_ok b" "\<not> bn_neg a" "\<not> bn_neg b" "bn_width a = bn_width (mont_N mont)" "bn_width b = bn_width (mont_N mont)"
      using f by (simp_all add: mont_form_def)
    have "bn_abs a * bn_abs b < bn_abs (mont_N mont) * mont_R mont"
      by (rule mult_strict_mono) (use n mont_form_bound [OF inv f(1)] mont_form_bound [OF inv f(2)] in simp_all)
    then show "fst (BN_mod_mul_montgomery A False ctx (Some s) r a b mont) = Some ()"
      using BN_mod_mul_montgomery_total [OF inv A ab(1-4) _ mont(2) _ c] ab(5,6) mont(2) by simp
    show "mont_form mont z (x * y)" if "BN_mod_mul_montgomery A False ctx (Some s) r a b mont = (Some (), z)" for z
      using BN_mod_mul_montgomery_form [OF inv A(1) r(1,2) _ f _ that] mont(2) by simp
  qed
  have 3: "done_with (BN_from_montgomery A ctx r a mont) (\<lambda>z. bn_int z = x mod bn_int (mont_N mont))" if f: "mont_form mont a x" for a x
  proof (rule done_withI)
    have "1 \<le> mont_R mont" using n(2,3) by linarith
    then have "bn_abs (mont_N mont) * 1 \<le> bn_abs (mont_N mont) * mont_R mont" using n(2) by (intro mult_left_mono) simp_all
    then have "bn_abs a < bn_abs (mont_N mont) * mont_R mont" using mont_form_bound [OF inv f] by linarith
    then show "fst (BN_from_montgomery A ctx r a mont) = Some ()"
      using BN_from_montgomery_total [OF inv A _ _ _ _ r(3) c(2) mont(2), of a] f mont(2) by (simp add: mont_form_def)
    show "bn_int z = x mod bn_int (mont_N mont)" if "BN_from_montgomery A ctx r a mont = (Some (), z)" for z
      using BN_from_montgomery_form [OF inv A(1) r(1,2) f that] by (simp add: N)
  qed
  have 4: "fst (bn_one_to_montgomery A ctx r mont) = Some ()"
  proof (cases "drop_bit 63 (bn_d (mont_N mont) ! (bn_width (mont_N mont) - 1)) \<noteq> 0")
    case True
    obtain d where "bn_wexpand A r (bn_width (mont_N mont)) = (Some (), d)"
      using bn_wexpand_total [OF A(2), of r "bn_width (mont_N mont)"] r(3) mont(2) by auto
    then show ?thesis using True n(1) by (simp add: bn_one_to_montgomery_def Let_def)
  next
    case False
    have "mont_form mont (mont_RR mont) (mont_R mont)" using rr by (simp add: mont_form_def)
    then have "done_with (BN_from_montgomery A ctx r (mont_RR mont) mont) (\<lambda>z. bn_int z = mont_R mont mod bn_int (mont_N mont))" by (rule 3)
    then show ?thesis using False by (simp add: bn_one_to_montgomery_def done_with_def)
  qed
  have 4: "done_with (bn_one_to_montgomery A ctx r mont) (\<lambda>z. mont_form mont z 1)"
    by (rule done_withI [OF 4]) (rule bn_one_to_montgomery_form [OF mont(1) A(1) r(1,2)])
  show ?thesis using 1 2 3 4 by blast
qed

definition sample_mont :: bn_mont_ctx where
  "sample_mont = \<lparr>mont_RR = BN_init, mont_N = BN_init, mont_n0 = 0, mont_n01 = 0\<rparr>"

lemma sample_mont_set:
  "\<exists>m. BN_MONT_CTX_set zero_malloc (Some (replicate 4 BN_init)) sample_mont (sample_bn [5] False) = Some (Some m) \<and> mont_ok m \<and> bn_abs (mont_N m) = 5"
proof -
  have c: "\<forall>c \<in> set (replicate 4 BN_init). bn_ok c" "\<forall>c \<in> set (replicate 4 BN_init). \<not> bn_static c" using bn_init by simp_all
  have s: "bn_ok (mont_N sample_mont)" "bn_ok (mont_RR sample_mont)" "\<not> bn_static (mont_N sample_mont)" "\<not> bn_static (mont_RR sample_mont)"
    using bn_init by (simp_all add: sample_mont_def)
  obtain res where res: "BN_MONT_CTX_set zero_malloc (Some (replicate 4 BN_init)) sample_mont (sample_bn [5] False) = Some res"
    and cs: "case res of
      None \<Rightarrow> even (bn_abs (sample_bn [5] False)) \<or> bn_neg (sample_bn [5] False) \<or> length (replicate 4 BN_init) < 4 \<or> (\<exists>k. zero_malloc k = None) \<or>
        (\<exists>c \<in> set (replicate 4 BN_init). bn_static c) \<or> bn_static (mont_N sample_mont) \<or> bn_static (mont_RR sample_mont) \<or> 400000 < bn_width (sample_bn [5] False)
    | Some mont' \<Rightarrow> mont_ok mont' \<and> bn_abs (mont_N mont') = bn_abs (sample_bn [5] False) \<and> odd (bn_abs (sample_bn [5] False)) \<and> \<not> bn_neg (sample_bn [5] False)"
    using BN_MONT_CTX_set_cases [OF zero_malloc(1) s(1,2) sample_bn(1) c(1), of "[5]" False] by blast
  have "res \<noteq> None"
  proof
    assume "res = None"
    then show False using cs c(2) s(3,4) zero_malloc(2) by (simp add: sample_bn)
  qed
  then show ?thesis using res cs by (auto simp: sample_bn)
qed

theorem BN_montgomery_exact_witness:
  "\<exists>mont x y z. mont_ok mont \<and> bn_int (mont_N mont) = 5 \<and> BN_to_montgomery zero_malloc [BN_init] (Some BN_init) BN_init (sample_bn [8] False) mont = (Some (), x) \<and>
     BN_mod_mul_montgomery zero_malloc False [BN_init] (Some BN_init) BN_init x x mont = (Some (), y) \<and>
     BN_from_montgomery zero_malloc [BN_init] BN_init y mont = (Some (), z) \<and> bn_int z = 4"
proof -
  obtain m where m: "mont_ok m" "bn_abs (mont_N m) = 5" using sample_mont_set by blast
  then have i: "mont_inv m" and N: "bn_int (mont_N m) = 5" by (simp_all add: mont_ok_def mont_inv_def bn_int_def)
  have "bn_ok (mont_N m)" "trimmed (mont_N m)" using i by (simp_all add: mont_inv_def)
  then have w: "bn_width (mont_N m) = 1" using trimmed_width [of "mont_N m" 1] mont_inv(1) [OF i] m(2) by (simp add: radix_def)
  have c: "\<forall>c \<in> set (BN_init # BN_init # [BN_init]). bn_ok c \<and> \<not> bn_static c" using bn_init by simp
  have v: "bn_int (sample_bn [8] False) = 8" "bn_width (sample_bn [8] False) \<le> 500000" "bn_width (mont_N m) \<le> 400000"
    by (simp_all add: bn_int_def sample_bn w)
  note e = BN_montgomery_exact [OF zero_malloc m(1) v(3) c list.distinct(2)]
  have "bn_less_than_montgomery_R (sample_bn [8] False) m"
    by (simp add: bn_less_than_montgomery_R_def BN_is_negative_def bn_fits_in_words sample_bn w radix_def)
  then have "done_with (BN_to_montgomery zero_malloc [BN_init] (Some BN_init) BN_init (sample_bn [8] False) m) (\<lambda>x. mont_form m x 8)"
    using spec [OF conjunct1 [OF e], of "sample_bn [8] False"] v sample_bn(1) by simp
  then obtain x where x: "BN_to_montgomery zero_malloc [BN_init] (Some BN_init) BN_init (sample_bn [8] False) m = (Some (), x)" "mont_form m x 8"
    by (rule done_withE)
  have "done_with (BN_mod_mul_montgomery zero_malloc False [BN_init] (Some BN_init) BN_init x x m) (\<lambda>y. mont_form m y (8 * 8))"
    using conjunct1 [OF conjunct2 [OF e]] x(2) by blast
  then obtain y where y: "BN_mod_mul_montgomery zero_malloc False [BN_init] (Some BN_init) BN_init x x m = (Some (), y)" "mont_form m y (8 * 8)"
    by (rule done_withE)
  have "done_with (BN_from_montgomery zero_malloc [BN_init] BN_init y m) (\<lambda>z. bn_int z = 8 * 8 mod bn_int (mont_N m))"
    using conjunct1 [OF conjunct2 [OF conjunct2 [OF e]]] y(2) by blast
  then obtain z where "BN_from_montgomery zero_malloc [BN_init] BN_init y m = (Some (), z)" "bn_int z = 8 * 8 mod bn_int (mont_N m)"
    by (rule done_withE)
  then show ?thesis using m(1) N x(1) y(1) by (auto simp: N)
qed

text \<open>C8. \<^verbatim>\<open>BN_MONT_CTX_set\<close> establishes the invariant of a context: the modulus without zero words on top, the negated
  inverse of its low word modulo \<open>2^64\<close>, and the square of \<open>R\<close> reduced, in as many words as the modulus. It fails only for
  a modulus that is even or negative, or when the context is short or memory is refused; the variant in constant time
  establishes the same invariant.\<close>

theorem BN_MONT_CTX_set_establishes:
  assumes A: "malloc_spec A" and ok: "bn_ok (mont_N mont)" "bn_ok (mont_RR mont)" "bn_ok md" "\<forall>c \<in> set ctx. bn_ok c"
  shows "(\<exists>res. BN_MONT_CTX_set A (Some ctx) mont md = Some res \<and> (case res of
      None \<Rightarrow> even (bn_int md) \<or> bn_int md < 0 \<or> length ctx < 4 \<or> (\<exists>k. A k = None) \<or> (\<exists>c \<in> set ctx. bn_static c) \<or>
        bn_static (mont_N mont) \<or> bn_static (mont_RR mont) \<or> 400000 < bn_width md
    | Some mont' \<Rightarrow> mont_ok mont' \<and> bn_int (mont_N mont') = bn_int md \<and> odd (bn_int md) \<and> 0 < bn_int md)) \<and>
    (\<forall>mont'. BN_MONT_CTX_new_consttime A (\<lambda>_. ctx) md = Some mont' \<longrightarrow>
      mont_ok mont' \<and> bn_int (mont_N mont') = bn_int md \<and> odd (bn_int md) \<and> 0 < bn_int md)"
proof -
  have i: "bn_int (mont_N m) = bn_int md \<and> odd (bn_int md) \<and> 0 < bn_int md"
    if "mont_ok m" "bn_abs (mont_N m) = bn_abs md" "odd (bn_abs md)" "\<not> bn_neg md" for m
    using that mont_inv(2) [of m] by (auto simp: mont_ok_def mont_inv_def bn_int_def)
  obtain res where res: "BN_MONT_CTX_set A (Some ctx) mont md = Some res" "case res of
      None \<Rightarrow> even (bn_abs md) \<or> bn_neg md \<or> length ctx < 4 \<or> (\<exists>k. A k = None) \<or> (\<exists>c \<in> set ctx. bn_static c) \<or>
        bn_static (mont_N mont) \<or> bn_static (mont_RR mont) \<or> 400000 < bn_width md
    | Some mont' \<Rightarrow> mont_ok mont' \<and> bn_abs (mont_N mont') = bn_abs md \<and> odd (bn_abs md) \<and> \<not> bn_neg md"
    using BN_MONT_CTX_set_cases [OF A ok] by blast
  have "even (bn_abs md) = even (bn_int md)" by (simp add: bn_int_def)
  moreover have "bn_neg md \<longrightarrow> even (bn_int md) \<or> bn_int md < 0" using bn_abs_nonneg [of md] by (auto simp: bn_int_def order_less_le)
  ultimately show ?thesis
    using res i BN_MONT_CTX_new_consttime_Some [OF A ok(3), of "\<lambda>_. ctx"] ok(4) by (cases res) auto
qed


theorem BN_MONT_CTX_set_establishes_witness:
  "\<exists>m. BN_MONT_CTX_set zero_malloc (Some (replicate 4 BN_init)) sample_mont (sample_bn [7] False) = Some (Some m) \<and> mont_ok m \<and> bn_int (mont_N m) = 7"
proof -
  have c: "\<forall>c \<in> set (replicate 4 BN_init). bn_ok c" "\<forall>c \<in> set (replicate 4 BN_init). \<not> bn_static c" using bn_init by simp_all
  have s: "bn_ok (mont_N sample_mont)" "bn_ok (mont_RR sample_mont)" "\<not> bn_static (mont_N sample_mont)" "\<not> bn_static (mont_RR sample_mont)"
    using bn_init by (simp_all add: sample_mont_def)
  have v: "bn_int (sample_bn [7] False) = 7" "bn_width (sample_bn [7] False) = 1" by (simp_all add: bn_int_def sample_bn)
  note e = conjunct1 [OF BN_MONT_CTX_set_establishes [OF zero_malloc(1) s(1,2) sample_bn(1) c(1), of "[7]" False], unfolded v]
  then obtain res where res: "BN_MONT_CTX_set zero_malloc (Some (replicate 4 BN_init)) sample_mont (sample_bn [7] False) = Some res" by blast
  have "res \<noteq> None"
  proof
    assume "res = None"
    then show False using e res c(2) s(3,4) zero_malloc(2) by simp
  qed
  then show ?thesis using e res by auto
qed

end
