(* ===== verification/Spec2Isabelle.thy ===== *)
theory Spec2Isabelle
  imports JS_Prelude Mem Cbs Der Der_Int Cbb Cbb_Spec Cbb_Tree Cbb_Ops Cbb_Doc Cbb_Asn1
    Nanopb_Encode Nanopb_Encode_Spec Nanopb_Decode Nanopb_Decode_Spec Nanopb_Wire Nanopb_Message Nanopb_Varint
    Lhash Refcount Pool Comparison Stack Unicode Cbb_Set Oid Bio_Pair
    Constant_Time Base64 Base64_Spec
    Bn_Words Bn Bn_Cmp Bn_Add Bn_Shift Bn_Bytes Bn_Comba Bn_Mul Bn_Karatsuba Bn_Product Bn_Canonical Bn_Div Bn_Reduce Bn_Mod Bn_Mont Bn_Mont_Exact
begin

text \<open>
  \<^bold>\<open>What this development covers.\<close> The repository is an iOS application written in Swift with its
  pods vendored. The C code it links comes from BoringSSL (\<^verbatim>\<open>Pods/BoringSSL-GRPC\<close>) and nanopb
  (\<^verbatim>\<open>Pods/nanopb\<close>); the paths below are relative to \<^verbatim>\<open>src/JamSession/Pods/BoringSSL-GRPC/src/crypto\<close>
  and \<^verbatim>\<open>src/JamSession/Pods/nanopb\<close>. Modelled are the memory layer, the containers, the byte-string
  readers and writers with the ASN.1 DER codec built on them, the text encodings, and the protobuf codec.

  \<^bold>\<open>Conventions.\<close> Fixed-width integers are words (\<open>byte\<close>, \<open>u16\<close>, \<open>u32\<close>, \<open>u64\<close>); a \<^verbatim>\<open>size_t\<close> is a \<open>nat\<close>
  below \<open>2 ^ 64\<close> with \<open>size_wrap\<close> at every sum and product that can wrap. A function that returns 0
  or 1 and updates an object is a function to \<open>'u option \<times> 'state\<close>, where \<open>None\<close> is the return value 0,
  and \<open>andthen\<close> is the early return. Allocation is a parameter \<open>A\<close> of type \<open>allocator\<close> that maps a
  size to a block or to \<open>None\<close>; \<open>malloc_spec A\<close> says that a block has the size asked for. \<^verbatim>\<open>qsort\<close>
  is a parameter with \<open>qsort_spec\<close>; other threads of a pool are a parameter as well.

  \<^bold>\<open>Theories and the code they model.\<close>
  \<^item> \<open>JS_Prelude\<close>: integer types, \<open>andthen\<close>, byte sequences, and the locales \<open>codec\<close> and
    \<open>canonical_codec\<close> of a wire format.
  \<^item> \<open>Mem\<close>: \<^verbatim>\<open>mem.c\<close>. Allocation with a size prefix, copies, constant-time comparison, bounded strings.
  \<^item> \<open>Lhash\<close>: \<^verbatim>\<open>lhash/lhash.c\<close>, the chained hash table. It refines a finite map (\<open>lhash_refines_map\<close>)
    and keeps its load factor; the locale \<open>keyed_table\<close> is what a client of the table sees.
  \<^item> \<open>Refcount\<close>: \<^verbatim>\<open>refcount_lock.c\<close> as functions and \<^verbatim>\<open>refcount_c11.c\<close> as a transition system of threads
    that the first version simulates.
  \<^item> \<open>Pool\<close>: \<^verbatim>\<open>pool/pool.c\<close>, the interning of buffers on \<open>Lhash\<close> and \<open>Refcount\<close>; it interprets \<open>keyed_table\<close>.
    A failed \<^verbatim>\<open>assert\<close> is the result \<open>None\<close>, and proved not to happen; what a call does to the pool is stated exactly,
    the race with a thread that inserts the same bytes between the two critical sections included.
  \<^item> \<open>Comparison\<close>, \<open>Stack\<close>: comparison functions and \<^verbatim>\<open>stack/stack.c\<close>, the growable sorted array.
  \<^item> \<open>Cbs\<close>, \<open>Der\<close>, \<open>Der_Int\<close>: \<^verbatim>\<open>bytestring/cbs.c\<close>. \<open>Cbs\<close> holds the readers, \<open>Der\<close> the encoding of tags,
    lengths and elements and the proof that the reader accepts exactly that, \<open>Der_Int\<close> integers and booleans.
  \<^item> \<open>Cbb\<close>, \<open>Cbb_Spec\<close>, \<open>Cbb_Tree\<close>, \<open>Cbb_Ops\<close>, \<open>Cbb_Doc\<close>, \<open>Cbb_Asn1\<close>: \<^verbatim>\<open>bytestring/cbb.c\<close>. \<open>Cbb\<close> holds the
    operations on the shared buffer and the chain of open children, \<open>Cbb_Spec\<close> the invariant and the flush,
    \<open>Cbb_Tree\<close> and \<open>Cbb_Ops\<close> each operation as an append (\<open>appended\<close>), \<open>Cbb_Doc\<close> whole documents,
    \<open>Cbb_Asn1\<close> the writers of ASN.1 values.
  \<^item> \<open>Cbb_Set\<close>: the sorting of a SET OF, an interpretation of \<open>comparison\<close>. \<open>Oid\<close>: object identifiers to
    and from text, which joins reader and writer.
  \<^item> \<open>Unicode\<close>: \<^verbatim>\<open>bytestring/unicode.c\<close>, four interpretations of \<open>text_codec\<close>.
  \<^item> \<open>Bio_Pair\<close>: \<^verbatim>\<open>bio/pair.c\<close> and the read and write calls of \<^verbatim>\<open>bio/bio.c\<close>. The copy loops are partial
    functions; a pair refines two FIFO channels (\<open>bio_pair_refines_channels\<close>), which says they return.
    The locale \<open>byte_sink\<close> is the write call that \<^verbatim>\<open>BIO_write_all\<close> relies on.
  \<^item> \<open>Constant_Time\<close>: the masks of \<^verbatim>\<open>crypto/internal.h\<close> that replace branches, as ordinary comparisons.
  \<^item> \<open>Base64\<close>, \<open>Base64_Spec\<close>: \<^verbatim>\<open>base64/base64.c\<close>. \<open>Base64\<close> holds the operations and the encoding of RFC 4648,
    \<open>Base64_Spec\<close> the decoders as inverses, for blocks and for streams cut into arbitrary chunks.
  \<^item> \<open>Bn_Words\<close>, \<open>Bn_Comba\<close>: \<^verbatim>\<open>fipsmodule/bn/generic.c\<close>. \<open>Bn_Words\<close> holds the loops over words, proved
    through the locale \<open>carry_chain\<close>, and the value \<open>bn_val\<close> of an array of words; \<open>Bn_Comba\<close> the unrolled products.
  \<^item> \<open>Bn\<close>, \<open>Bn_Cmp\<close>, \<open>Bn_Add\<close>, \<open>Bn_Shift\<close>, \<open>Bn_Bytes\<close>: \<^verbatim>\<open>bn.c\<close>, \<^verbatim>\<open>cmp.c\<close>, \<^verbatim>\<open>add.c\<close>, \<^verbatim>\<open>shift.c\<close> and \<^verbatim>\<open>bytes.c\<close> of the same
    directory. A \<^verbatim>\<open>BIGNUM\<close> is its array, width and sign; \<open>bn_int\<close> is the integer it stands for, and each
    operation is proved to be the operation on integers.
  \<^item> \<open>Bn_Mul\<close>, \<open>Bn_Karatsuba\<close>, \<open>Bn_Product\<close>: \<^verbatim>\<open>mul.c\<close>, the quadratic and recursive products and \<^verbatim>\<open>BN_mul\<close> over them.
    The context of scratch numbers (\<^verbatim>\<open>BN_CTX\<close>) is a parameter: the numbers it still hands out.
  \<^item> \<open>Bn_Div\<close>: \<^verbatim>\<open>BN_div\<close> of \<^verbatim>\<open>div.c\<close>, Knuth's long division: every quotient word is right after at most two corrections
    and one addition, so the call returns with the exact quotient and remainder.
  \<^item> \<open>Bn_Canonical\<close>: canonical numbers, without a zero word on top and without a negative zero.
  \<^item> \<open>Bn_Reduce\<close>, \<open>Bn_Mod\<close>: the rest of \<^verbatim>\<open>div.c\<close>. \<open>Bn_Reduce\<close> holds the constant-time routines, with the binary long
    division, \<open>Bn_Mod\<close> the arithmetic modulo a number, division by a word and remainders by powers of two.
  \<^item> \<open>Bn_Mont\<close>, \<open>Bn_Mont_Exact\<close>: \<^verbatim>\<open>montgomery.c\<close> and \<^verbatim>\<open>montgomery_inv.c\<close>, the contexts, the reduction and the products in
    Montgomery form; \<open>Bn_Mont_Exact\<close> proves the invariant of contexts and that the operations are multiplication modulo
    the modulus.
  \<^item> \<open>Nanopb_Encode\<close>, \<open>Nanopb_Encode_Spec\<close>, \<open>Nanopb_Decode\<close>, \<open>Nanopb_Decode_Spec\<close>, \<open>Nanopb_Wire\<close>,
    \<open>Nanopb_Message\<close>: \<^verbatim>\<open>pb_encode.c\<close> and \<^verbatim>\<open>pb_decode.c\<close> up to single fields. A stream is generic in the
    state of its callback; the locales \<open>sink\<close> and \<open>source\<close> state what a callback must do, and the
    memory buffers are their interpretations. \<open>Nanopb_Varint\<close> says which over-long varints the decoders accept.

  \<^bold>\<open>Bounds.\<close> The lemmas on \<open>cbb\<close> ask for contents below \<open>2 ^ 59\<close> bytes, so that doubling a capacity and
  adding a header cannot wrap; no allocator of a 64-bit platform reaches that size. Nothing is bounded
  by fuel: a loop is a recursive function with a termination proof, or a partial function that is proved to
  return where the code calls it (the copies in the ring buffers and \<^verbatim>\<open>BIO_write_all\<close> in \<open>Bio_Pair\<close>, the
  correction of a quotient word in \<open>Bn_Div\<close>).

  \<^bold>\<open>Not modelled.\<close> Releasing memory and wiping it (\<^verbatim>\<open>OPENSSL_free\<close>, \<^verbatim>\<open>OPENSSL_cleanse\<close>) have no effect on
  values; the error queue is not part of the state. The zero byte that \<open>Base64\<close> leaves out is stored behind the
  text and not counted in its length. The struct-level functions of nanopb walk generated
  descriptor tables through \<^verbatim>\<open>offsetof\<close> pointers and are left out with \<^verbatim>\<open>pb_common.c\<close>. The manifest lists the
  parts of the pods that are left out: the primitives of BoringSSL, its X.509 and TLS stacks, and the C++
  and Objective-C pods.
\<close>

end
